(* ===== verification/Prelude.thy ===== *)
theory Prelude
  imports Main "HOL-Library.Word"
begin

unbundle bit_operations_syntax

text \<open>
  Shared vocabulary of the development: the engine's errors and its result type, bytes and the
  little- and big-endian encodings of machine integers, and in-place writes into byte buffers.

  Errors carry the stable code of \<^verbatim>\<open>error.rs\<close>; their messages and the transport's retry flag are
  presentation and are left out. \<open>Panic\<close> stands for a Rust panic (an index out of range, an
  \<^verbatim>\<open>unwrap\<close> of nothing), so that a panicking path is a value of the model too.
\<close>

section \<open>Errors and results\<close>

datatype error_code =
    INVALID_SCHEMA | INVALID_CHANGE | INVALID_QUERY | SQL_PARSE_ERROR | UNSUPPORTED_SQL
  | TABLE_NOT_FOUND | TABLE_ALREADY_EXISTS | INDEX_ALREADY_EXISTS
  | COLUMN_NOT_FOUND | COLUMN_ALREADY_EXISTS | BIND_ERROR | CONSTRAINT_VIOLATION
  | TYPE_MISMATCH | TRANSACTION_ACTIVE | NO_ACTIVE_TRANSACTION
  | REVISION_OVERFLOW | INVALID_PAGE | UNSUPPORTED_PAGE | PAGE_GENERATION_EXHAUSTED
  | PAGE_DEVICE_ERROR | PAGE_CACHE_ERROR
  | PAGER_ERROR | PAGE_NOT_ALLOCATED | DATABASE_FULL | RECOVERY_REQUIRED | TRANSACTION_FAILED
  | INVALID_PAGED_ARGUMENT | PAGED_VALUE_TOO_LARGE | PAGED_STORAGE_CORRUPT
  | PAGED_STORAGE_VERSION_UNSUPPORTED
  | INVALID_BTREE_ARGUMENT | INVALID_BTREE_PAGE | UNSUPPORTED_BTREE_PAGE | BTREE_LIMIT | BTREE_NODE_FULL | CURSOR_INVALIDATED
  | INVALID_OVERFLOW_PAGE | UNSUPPORTED_OVERFLOW_PAGE
  | DIVISION_BY_ZERO | NUMERIC_OVERFLOW | RESOURCE_LIMIT | TRANSACTION_TOO_LARGE | INTERNAL_ERROR
  | Panic

type_synonym 'a res = "error_code + 'a"

text \<open>The \<^verbatim>\<open>?\<close> operator: continue with the value, or return the error.\<close>

definition and_then :: "'a res \<Rightarrow> ('a \<Rightarrow> 'b res) \<Rightarrow> 'b res" where
  "and_then r f = (case r of Inl e \<Rightarrow> Inl e | Inr x \<Rightarrow> f x)"

text \<open>\<^verbatim>\<open>map_err(|_| code)\<close>, which replaces whatever error there is.\<close>

definition map_err :: "(error_code \<Rightarrow> error_code) \<Rightarrow> 'a res \<Rightarrow> 'a res" where
  "map_err f r = (case r of Inl e \<Rightarrow> Inl (f e) | Inr x \<Rightarrow> Inr x)"

definition ok_or :: "error_code \<Rightarrow> 'a option \<Rightarrow> 'a res" where
  "ok_or e o' = (case o' of None \<Rightarrow> Inl e | Some x \<Rightarrow> Inr x)"

fun is_ok :: "'a res \<Rightarrow> bool" where
  "is_ok (Inl _) = False"
| "is_ok (Inr _) = True"

text \<open>A loop that pushes what \<^verbatim>\<open>f(item)?\<close> gives, and stops at the first error.\<close>

fun map_res :: "('a \<Rightarrow> 'b res) \<Rightarrow> 'a list \<Rightarrow> 'b list res" where
  "map_res f [] = Inr []"
| "map_res f (x # xs) = and_then (f x) (\<lambda>y. and_then (map_res f xs) (\<lambda>ys. Inr (y # ys)))"

named_theorems res_simps \<open>rewriting of the result combinators\<close>
named_theorems byte_simps \<open>lengths and reads of byte buffers\<close>

lemma and_then_simps [simp, res_simps]:
  "and_then (Inl e) f = Inl e"
  "and_then (Inr x) f = f x"
  by (simp_all add: and_then_def)

lemma and_then_eq_Inr [res_simps]:
  "and_then r f = Inr y \<longleftrightarrow> (\<exists>x. r = Inr x \<and> f x = Inr y)"
  by (cases r) auto

lemma and_then_eq_Inl:
  "and_then r f = Inl e \<longleftrightarrow> r = Inl e \<or> (\<exists>x. r = Inr x \<and> f x = Inl e)"
  by (cases r) auto

lemma and_then_assoc:
  "and_then (and_then r f) g = and_then r (\<lambda>x. and_then (f x) g)"
  by (cases r) auto

lemma map_err_simps [simp, res_simps]:
  "map_err f (Inl e) = Inl (f e)"
  "map_err f (Inr x) = Inr x"
  by (simp_all add: map_err_def)

lemma map_err_eq_Inr [simp, res_simps]: "map_err f r = Inr x \<longleftrightarrow> r = Inr x"
  by (cases r) auto

lemma ok_or_simps [simp, res_simps]:
  "ok_or e None = Inl e"
  "ok_or e (Some x) = Inr x"
  by (simp_all add: ok_or_def)

lemma ok_or_eq_Inr [simp]: "ok_or e m = Inr x \<longleftrightarrow> m = Some x"
  by (cases m) auto

lemma map_res_eq_Inr:
  "map_res f xs = Inr ys \<longleftrightarrow> list_all2 (\<lambda>x y. f x = Inr y) xs ys"
proof (induction xs arbitrary: ys)
  case (Cons x xs)
  then show ?case by (cases ys) (auto simp: and_then_eq_Inr)
qed (simp add: eq_commute)

lemma map_res_Inl: "map_res f xs = Inl e \<Longrightarrow> \<exists>x \<in> set xs. f x = Inl e"
  by (induction xs) (auto simp: and_then_eq_Inl)

lemma is_ok_iff: "is_ok r \<longleftrightarrow> (\<exists>x. r = Inr x)"
  by (cases r) auto

section \<open>Machine integers and bytes\<close>

type_synonym u8 = "8 word"
type_synonym u16 = "16 word"
type_synonym u32 = "32 word"
type_synonym u64 = "64 word"
type_synonym bytes = "u8 list"

text \<open>\<^verbatim>\<open>checked_add\<close> of an unsigned integer of any width.\<close>

definition checked_add :: "'a::len word \<Rightarrow> 'a word \<Rightarrow> 'a word option" where
  "checked_add a b = (if unat a + unat b < 2 ^ LENGTH('a) then Some (a + b) else None)"

lemma checked_add_Some:
  "checked_add a b = Some c \<Longrightarrow> unat c = unat a + unat b"
  by (auto simp: checked_add_def unat_word_ariths split: if_splits)

text \<open>
  \<^verbatim>\<open>to_le_bytes\<close> and \<^verbatim>\<open>from_le_bytes\<close> of an integer of \<open>n\<close> bytes; \<^verbatim>\<open>to_be_bytes\<close> and
  \<^verbatim>\<open>from_be_bytes\<close> are the same bytes reversed.
\<close>

definition le_bytes :: "nat \<Rightarrow> 'a::len word \<Rightarrow> bytes" where
  "le_bytes n w = map (\<lambda>i. ucast (drop_bit (8 * i) w)) [0..<n]"

primrec from_le :: "bytes \<Rightarrow> 'a::len word" where
  "from_le [] = 0"
| "from_le (b # bs) = ucast b OR push_bit 8 (from_le bs)"

definition be_bytes :: "nat \<Rightarrow> 'a::len word \<Rightarrow> bytes" where
  "be_bytes n w = rev (le_bytes n w)"

definition from_be :: "bytes \<Rightarrow> 'a::len word" where
  "from_be bs = from_le (rev bs)"

lemma length_le_bytes [simp, byte_simps]: "length (le_bytes n w) = n"
  by (simp add: le_bytes_def)

lemma length_be_bytes [simp, byte_simps]: "length (be_bytes n w) = n"
  by (simp add: be_bytes_def)

lemma nth_le_bytes: "i < n \<Longrightarrow> le_bytes n w ! i = ucast (drop_bit (8 * i) w)"
  by (simp add: le_bytes_def)

lemma bit_from_le:
  "bit (from_le bs :: 'a::len word) i \<longleftrightarrow>
     i < LENGTH('a) \<and> i div 8 < length bs \<and> bit (bs ! (i div 8)) (i mod 8)"
proof (induction bs arbitrary: i)
  case Nil
  then show ?case by simp
next
  case (Cons b bs)
  show ?case
  proof (cases "i < 8")
    case True
    then show ?thesis
      by (auto simp: bit_simps dest: bit_imp_le_length)
  next
    case False
    then have "i div 8 = Suc ((i - 8) div 8)" "i mod 8 = (i - 8) mod 8"
      by (auto simp: le_div_geq le_mod_geq not_less)
    with False Cons.IH [of "i - 8"] show ?thesis
      by (auto simp: bit_simps not_less dest: bit_imp_le_length)
  qed
qed

lemma from_le_le_bytes [simp]:
  assumes "LENGTH('a) \<le> 8 * n"
  shows "from_le (le_bytes n w) = (w :: 'a::len word)"
proof (rule bit_word_eqI)
  fix i assume i: "i < LENGTH('a)"
  with assms have "i div 8 < n" by linarith
  then show "bit (from_le (le_bytes n w) :: 'a word) i \<longleftrightarrow> bit w i"
    using i by (simp add: bit_from_le nth_le_bytes bit_simps)
qed

lemma le_bytes_from_le [simp]:
  assumes "length bs = n" "8 * n \<le> LENGTH('a)"
  shows "le_bytes n (from_le bs :: 'a::len word) = bs"
proof (rule nth_equalityI)
  show "length (le_bytes n (from_le bs :: 'a word)) = length bs"
    using assms by simp
next
  fix k assume "k < length (le_bytes n (from_le bs :: 'a word))"
  then have k: "k < n" by simp
  show "le_bytes n (from_le bs :: 'a word) ! k = bs ! k"
  proof (rule bit_word_eqI)
    fix j assume j: "j < LENGTH(8)"
    then have "(8 * k + j) div 8 = k" "(8 * k + j) mod 8 = j" "8 * k + j < LENGTH('a)"
      using k assms by auto
    then show "bit (le_bytes n (from_le bs :: 'a word) ! k) j \<longleftrightarrow> bit (bs ! k) j"
      using k j assms by (simp add: nth_le_bytes bit_simps bit_from_le)
  qed
qed

lemma from_be_be_bytes [simp]:
  "LENGTH('a) \<le> 8 * n \<Longrightarrow> from_be (be_bytes n w) = (w :: 'a::len word)"
  by (simp add: from_be_def be_bytes_def)

lemma be_bytes_from_be [simp]:
  "length bs = n \<Longrightarrow> 8 * n \<le> LENGTH('a) \<Longrightarrow> be_bytes n (from_be bs :: 'a::len word) = bs"
  by (simp add: from_be_def be_bytes_def)

lemma le_bytes_inject:
  "LENGTH('a) \<le> 8 * n \<Longrightarrow> le_bytes n v = le_bytes n w \<longleftrightarrow> v = (w :: 'a::len word)"
  by (metis from_le_le_bytes)

lemma from_le_inject:
  "length bs = length cs \<Longrightarrow> 8 * length bs \<le> LENGTH('a) \<Longrightarrow>
   (from_le bs :: 'a::len word) = from_le cs \<longleftrightarrow> bs = cs"
  by (metis le_bytes_from_le)

lemma from_le_eq_0:
  assumes "8 * length bs \<le> LENGTH('a)"
  shows "(from_le bs :: 'a::len word) = 0 \<longleftrightarrow> (\<forall>b \<in> set bs. b = 0)"
proof -
  have "(from_le (replicate (length bs) 0) :: 'a word) = 0"
    by (rule bit_word_eqI) (simp add: bit_from_le)
  then have "(from_le bs :: 'a word) = 0 \<longleftrightarrow> bs = replicate (length bs) 0"
    using from_le_inject [of bs "replicate (length bs) 0", where 'a = 'a] assms by simp
  also have "\<dots> \<longleftrightarrow> (\<forall>b \<in> set bs. b = 0)"
    by (metis in_set_replicate replicate_eqI)
  finally show ?thesis .
qed

lemma or_eq_0_word: "a OR b = 0 \<longleftrightarrow> a = 0 \<and> b = (0 :: 'a::len word)"
  by (auto simp: bit_eq_iff bit_or_iff)

lemma unat_of_nat_small [simp]: "n < 2 ^ LENGTH('a) \<Longrightarrow> unat (of_nat n :: 'a::len word) = n"
  by (simp add: unat_of_nat take_bit_nat_eq_self)

lemma not_list_ex_nonzero: "\<not> list_ex (\<lambda>b. b \<noteq> 0) bs \<longleftrightarrow> bs = replicate (length bs) 0"
  by (metis (mono_tags, lifting) in_set_replicate list_ex_iff replicate_eqI)

section \<open>Buffers\<close>

text \<open>
  \<open>put bs off v\<close> overwrites \<open>length v\<close> bytes at \<open>off\<close> and \<open>slice bs off n\<close> reads \<open>n\<close> bytes there.
  Every use is at offsets the buffer has, as the constant offsets and the length checks of the code
  make sure.
\<close>

definition put :: "bytes \<Rightarrow> nat \<Rightarrow> bytes \<Rightarrow> bytes" where
  "put bs off v = take off bs @ v @ drop (off + length v) bs"

definition slice :: "bytes \<Rightarrow> nat \<Rightarrow> nat \<Rightarrow> bytes" where
  "slice bs off n = take n (drop off bs)"

lemma length_put [simp, byte_simps]:
  "off + length v \<le> length bs \<Longrightarrow> length (put bs off v) = length bs"
  by (simp add: put_def)

lemma length_slice [simp, byte_simps]:
  "off + n \<le> length bs \<Longrightarrow> length (slice bs off n) = n"
  by (simp add: slice_def)

lemma nth_put:
  "off + length v \<le> length bs \<Longrightarrow> i < length bs \<Longrightarrow>
   put bs off v ! i = (if off \<le> i \<and> i < off + length v then v ! (i - off) else bs ! i)"
  by (auto simp: put_def nth_append min_def)

lemma nth_slice: "off + n \<le> length bs \<Longrightarrow> i < n \<Longrightarrow> slice bs off n ! i = bs ! (off + i)"
  by (simp add: slice_def)

lemma slice_put_same [simp, byte_simps]:
  "off + length v \<le> length bs \<Longrightarrow> n = length v \<Longrightarrow> slice (put bs off v) off n = v"
  by (simp add: put_def slice_def)

lemma slice_put_other [simp, byte_simps]:
  assumes "off + length v \<le> length bs" "off' + n \<le> length bs"
    and "off' + n \<le> off \<or> off + length v \<le> off'"
  shows "slice (put bs off v) off' n = slice bs off' n"
proof (rule nth_equalityI)
  show "length (slice (put bs off v) off' n) = length (slice bs off' n)"
    using assms by simp
next
  fix i assume "i < length (slice (put bs off v) off' n)"
  then have "i < n" using assms by simp
  with assms show "slice (put bs off v) off' n ! i = slice bs off' n ! i"
    by (auto simp: nth_slice nth_put)
qed

lemma slice_all [simp, byte_simps]: "n = length bs \<Longrightarrow> slice bs 0 n = bs"
  by (simp add: slice_def)

lemma slice_replicate [simp, byte_simps]:
  "off + k \<le> n \<Longrightarrow> slice (replicate n x) off k = replicate k x"
  by (simp add: slice_def)

lemma slice_drop: "slice (drop k bs) off n = slice bs (k + off) n"
  by (simp add: slice_def ac_simps)

lemma slice_slice:
  "off' + n' \<le> n \<Longrightarrow> slice (slice bs off n) off' n' = slice bs (off + off') n'"
  by (simp add: slice_def drop_take min_def add.commute)

lemma slice_append_split:
  "slice bs off (m + n) = slice bs off m @ slice bs (off + m) n"
  by (simp add: slice_def take_add ac_simps)

lemma buffer_eqI:
  assumes "length as = n" "length bs = n" "\<And>i. i < n \<Longrightarrow> as ! i = bs ! i"
  shows "as = bs"
  using assms by (auto intro: nth_equalityI)

lemma put_take:
  "off + length v \<le> n \<Longrightarrow> n \<le> length bs \<Longrightarrow> put (take n bs) off v = take n (put bs off v)"
  by (auto simp: put_def take_drop min_def dest: le_antisym)

lemma drop_put: "off + length v \<le> n \<Longrightarrow> n \<le> length bs \<Longrightarrow> drop n (put bs off v) = drop n bs"
  by (simp add: put_def)

lemma take_slice: "m \<le> n \<Longrightarrow> take m (slice bs off n) = slice bs off m"
  by (simp add: slice_def min_def)

lemma nth_slice_1: "off < length bs \<Longrightarrow> slice bs off 1 = [bs ! off]"
  by (simp add: slice_def Cons_nth_drop_Suc [symmetric])

lemma slice_then_drop: "drop off bs = slice bs off k @ drop (off + k) bs"
  by (metis add.commute append_take_drop_id drop_drop slice_def)

lemma put_slice_split:
  "off + n \<le> length bs \<Longrightarrow> bs = take off bs @ slice bs off n @ drop (off + n) bs"
  by (metis append_take_drop_id slice_then_drop)

lemma put_put_disjoint:
  assumes "off + length v \<le> length bs" "off' + length w \<le> length bs"
    and "off + length v \<le> off' \<or> off' + length w \<le> off"
  shows "put (put bs off v) off' w = put (put bs off' w) off v"
  by (rule buffer_eqI [where n = "length bs"]) (use assms in \<open>auto simp: nth_put\<close>)

text \<open>
  A buffer filled by several writes. When each begins where the one before it ended, or later, every
  written field reads back and everything between them is as it was.
\<close>

definition puts :: "bytes \<Rightarrow> (nat \<times> bytes) list \<Rightarrow> bytes" where
  "puts bs ws = foldl (\<lambda>bs (off, v). put bs off v) bs ws"

fun ascending :: "nat \<Rightarrow> (nat \<times> bytes) list \<Rightarrow> nat \<Rightarrow> bool" where
  "ascending lo [] hi \<longleftrightarrow> lo \<le> hi"
| "ascending lo ((off, v) # ws) hi \<longleftrightarrow> lo \<le> off \<and> ascending (off + length v) ws hi"

lemma ascending_le: "ascending lo ws hi \<Longrightarrow> lo \<le> hi"
  by (induction lo ws hi rule: ascending.induct) auto

lemma ascending_mono: "ascending lo ws hi \<Longrightarrow> lo' \<le> lo \<Longrightarrow> ascending lo' ws hi"
  by (cases ws) auto

lemma ascending_bounds: "ascending lo ws hi \<Longrightarrow> (off, v) \<in> set ws \<Longrightarrow> lo \<le> off \<and> off + length v \<le> hi"
  by (induction lo ws hi rule: ascending.induct) (auto dest: ascending_le)

lemma length_puts: "ascending lo ws (length bs) \<Longrightarrow> length (puts bs ws) = length bs"
proof (induction lo ws "length bs" arbitrary: bs rule: ascending.induct)
  case (2 lo off v ws)
  then have "off + length v \<le> length bs" by (auto dest: ascending_le)
  with 2(1) [of "put bs off v"] 2(2) show ?case by (simp add: puts_def)
qed (simp add: puts_def)

lemma slice_puts_other:
  "ascending lo ws (length bs) \<Longrightarrow> o' + n \<le> length bs \<Longrightarrow>
   list_all (\<lambda>(off, v). off + length v \<le> o' \<or> o' + n \<le> off) ws \<Longrightarrow>
   slice (puts bs ws) o' n = slice bs o' n"
proof (induction lo ws "length bs" arbitrary: bs rule: ascending.induct)
  case (2 lo off v ws)
  then have b: "off + length v \<le> length bs" by (auto dest: ascending_le)
  have "puts bs ((off, v) # ws) = puts (put bs off v) ws" by (simp add: puts_def)
  moreover have "slice (puts (put bs off v) ws) o' n = slice (put bs off v) o' n"
    using 2 b by simp
  moreover have "slice (put bs off v) o' n = slice bs o' n"
    by (rule slice_put_other) (use 2 b in auto)
  ultimately show ?case by simp
qed (simp add: puts_def)

lemma slice_puts_same:
  "ascending lo ws (length bs) \<Longrightarrow> (off, v) \<in> set ws \<Longrightarrow> n = length v \<Longrightarrow>
   slice (puts bs ws) off n = v"
proof (induction lo ws "length bs" arbitrary: bs rule: ascending.induct)
  case (2 lo off' v' ws)
  then have b: "off' + length v' \<le> length bs" by (auto dest: ascending_le)
  have step: "puts bs ((off', v') # ws) = puts (put bs off' v') ws" by (simp add: puts_def)
  show ?case
  proof (cases "(off, v) \<in> set ws")
    case True
    with 2 b step show ?thesis by simp
  next
    case False
    then have eq: "off = off'" "v = v'" using 2 by auto
    have "list_all (\<lambda>(o2, v2). o2 + length v2 \<le> off' \<or> off' + n \<le> o2) ws"
      using 2 eq by (auto simp: list_all_iff dest: ascending_bounds)
    then have "slice (puts (put bs off' v') ws) off' n = slice (put bs off' v') off' n"
      using 2 b eq by (intro slice_puts_other [where lo = "off' + length v'"]) auto
    with step eq b 2 show ?thesis by simp
  qed
qed simp

definition read_u16 :: "bytes \<Rightarrow> nat \<Rightarrow> u16" where
  "read_u16 bs off = from_le (slice bs off 2)"

definition read_u32 :: "bytes \<Rightarrow> nat \<Rightarrow> u32" where
  "read_u32 bs off = from_le (slice bs off 4)"

definition read_u64 :: "bytes \<Rightarrow> nat \<Rightarrow> u64" where
  "read_u64 bs off = from_le (slice bs off 8)"

lemmas reads_def = read_u16_def read_u32_def read_u64_def

section \<open>Lists in fixed-size chunks\<close>

text \<open>\<^verbatim>\<open>as_chunks::<N>\<close>: the whole chunks, and the remainder.\<close>

fun whole_chunks :: "nat \<Rightarrow> 'a list \<Rightarrow> 'a list list" where
  "whole_chunks n xs =
     (if 0 < n \<and> n \<le> length xs then take n xs # whole_chunks n (drop n xs) else [])"

declare whole_chunks.simps [simp del]

definition chunk_rest :: "nat \<Rightarrow> 'a list \<Rightarrow> 'a list" where
  "chunk_rest n xs = drop (n * (length xs div n)) xs"

lemma whole_chunks_short [simp]: "length xs < n \<Longrightarrow> whole_chunks n xs = []"
  by (subst whole_chunks.simps) simp

lemma whole_chunks_append:
  "0 < n \<Longrightarrow> length ys = n \<Longrightarrow> whole_chunks n (ys @ xs) = ys # whole_chunks n xs"
  by (subst whole_chunks.simps) simp

lemma length_whole_chunks: "0 < n \<Longrightarrow> length (whole_chunks n xs) = length xs div n"
proof (induction n xs rule: whole_chunks.induct)
  case (1 n xs)
  show ?case
  proof (cases "n \<le> length xs")
    case True
    with 1 show ?thesis
      by (subst whole_chunks.simps) (simp add: le_div_geq)
  next
    case False
    then show ?thesis by simp
  qed
qed

lemma whole_chunks_elem: "c \<in> set (whole_chunks n xs) \<Longrightarrow> length c = n"
proof (induction n xs rule: whole_chunks.induct)
  case (1 n xs)
  then show ?case
    by (subst (asm) whole_chunks.simps) (auto split: if_splits)
qed

lemma concat_whole_chunks: "0 < n \<Longrightarrow> concat (whole_chunks n xs) @ chunk_rest n xs = xs"
proof (induction n xs rule: whole_chunks.induct)
  case (1 n xs)
  show ?case
  proof (cases "n \<le> length xs")
    case True
    then have "chunk_rest n xs = chunk_rest n (drop n xs)"
      using 1(2) by (simp add: chunk_rest_def le_div_geq add.commute)
    with True 1 show ?thesis
      by (subst whole_chunks.simps) simp
  next
    case False
    then show ?thesis by (simp add: chunk_rest_def)
  qed
qed

lemma nth_whole_chunks:
  "0 < n \<Longrightarrow> k < length xs div n \<Longrightarrow> whole_chunks n xs ! k = take n (drop (n * k) xs)"
proof (induction n xs arbitrary: k rule: whole_chunks.induct)
  case (1 n xs)
  have le: "n \<le> length xs"
    using 1(2,3) by (metis div_less not_less not_less_zero)
  show ?case
  proof (cases k)
    case 0
    with le 1(2) show ?thesis by (subst whole_chunks.simps) simp
  next
    case (Suc j)
    then have "j < length (drop n xs) div n"
      using 1(2,3) le by (simp add: le_div_geq)
    from 1(1) [OF _ _ this] le 1(2) Suc show ?thesis
      by (subst whole_chunks.simps) (simp add: ac_simps)
  qed
qed

lemma whole_chunks_concat_blocks:
  assumes "\<forall>c \<in> set cs. length c = n" "0 < n" "length ys < n"
  shows "whole_chunks n (concat cs @ ys) = cs"
  using assms by (induction cs) (auto simp: whole_chunks_append)

lemma chunk_rest_concat_blocks:
  assumes "\<forall>c \<in> set cs. length c = n" "0 < n" "length ys < n"
  shows "chunk_rest n (concat cs @ ys) = ys"
proof -
  have len: "length (concat cs) = n * length cs"
    using assms(1) by (induction cs) auto
  then have "(length (concat cs) + length ys) div n = length cs"
    using assms(2,3) by simp
  with len show ?thesis
    by (simp add: chunk_rest_def)
qed

end
