(* ===== verification/Checksum.thy ===== *)
theory Checksum
  imports Prelude
begin

text \<open>
  \<^verbatim>\<open>checksum.rs\<close>: the table-driven CRC-32 of superblocks and the XXH64 of every other page, value
  and fingerprint. The CRC-32 tables, the sixteen-bytes-at-a-time loop and its runs of zero chunks
  are modelled as they are written, and shown equal to the bit-at-a-time CRC-32; the detection of
  short damage is a consequence of its linearity.
\<close>

section \<open>CRC-32\<close>

text \<open>One step of the shift register, as the loop that builds table 0 writes it.\<close>

definition crc_bit :: "u32 \<Rightarrow> u32" where
  "crc_bit c = drop_bit 1 c XOR (0xedb88320 AND - (c AND 1))"

definition table0 :: "u32 list" where
  "table0 = map (\<lambda>byte. (crc_bit ^^ 8) (of_nat byte)) [0..<256]"

definition next_slice :: "u32 list \<Rightarrow> u32 list" where
  "next_slice previous_table =
     map (\<lambda>previous. drop_bit 8 previous XOR table0 ! unat (previous AND 255)) previous_table"

definition slice_tables :: "u32 list list" where
  "slice_tables = map (\<lambda>k. (next_slice ^^ k) table0) [0..<16]"

text \<open>The state after sixteen zero bytes.\<close>

definition skip :: "u32 list list \<Rightarrow> u32 \<Rightarrow> u32" where
  "skip tables state =
     tables ! 15 ! unat (state AND 255)
     XOR tables ! 14 ! unat (drop_bit 8 state AND 255)
     XOR tables ! 13 ! unat (drop_bit 16 state AND 255)
     XOR tables ! 12 ! unat (drop_bit 24 state)"

definition zero_tables_step :: "nat \<Rightarrow> u32 list list \<Rightarrow> u32 list list" where
  "zero_tables_step b zero_tables =
     (let state = (skip slice_tables ^^ 16) (push_bit b 1)
      in zero_tables[b div 8 :=
           map (\<lambda>(v, entry). if bit v (b mod 8) then entry XOR state else entry)
             (enumerate 0 (zero_tables ! (b div 8)))])"

definition tables :: "u32 list list" where
  "tables = slice_tables @ fold zero_tables_step [0..<32] (replicate 4 (replicate 256 0))"

text \<open>The state after 256 zero bytes, from the last four tables.\<close>

definition skip_run :: "u32 list list \<Rightarrow> u32 \<Rightarrow> u32" where
  "skip_run ts checksum =
     ts ! 16 ! unat (checksum AND 255)
     XOR ts ! 17 ! unat (drop_bit 8 checksum AND 255)
     XOR ts ! 18 ! unat (drop_bit 16 checksum AND 255)
     XOR ts ! 19 ! unat (drop_bit 24 checksum)"

definition table_at :: "u32 list list \<Rightarrow> nat \<Rightarrow> u32 \<Rightarrow> nat \<Rightarrow> u32" where
  "table_at ts slice_no word shift = ts ! slice_no ! unat (drop_bit shift word AND 255)"

definition slicing_step :: "u32 list list \<Rightarrow> u32 \<Rightarrow> bytes \<Rightarrow> u32" where
  "slicing_step ts checksum chunk =
     (let first = from_le (slice chunk 0 4) XOR checksum;
          second = from_le (slice chunk 4 4);
          third = from_le (slice chunk 8 4);
          fourth = from_le (slice chunk 12 4)
      in table_at ts 15 first 0 XOR table_at ts 14 first 8
         XOR table_at ts 13 first 16 XOR table_at ts 12 first 24
         XOR table_at ts 11 second 0 XOR table_at ts 10 second 8
         XOR table_at ts 9 second 16 XOR table_at ts 8 second 24
         XOR table_at ts 7 third 0 XOR table_at ts 6 third 8
         XOR table_at ts 5 third 16 XOR table_at ts 4 third 24
         XOR table_at ts 3 fourth 0 XOR table_at ts 2 fourth 8
         XOR table_at ts 1 fourth 16 XOR table_at ts 0 fourth 24)"

definition zero_chunk :: "bytes \<Rightarrow> bool" where
  "zero_chunk chunk \<longleftrightarrow> list_all (\<lambda>b. b = 0) chunk"

function crc_chunks :: "u32 list list \<Rightarrow> u32 \<Rightarrow> bytes list \<Rightarrow> u32" where
  "crc_chunks ts checksum [] = checksum"
| "crc_chunks ts checksum (chunk # rest) =
     (if zero_chunk chunk
      then let run = length (takeWhile zero_chunk (chunk # rest));
               checksum = (skip_run ts ^^ (run div 16)) checksum;
               checksum = (skip ts ^^ (run mod 16)) checksum
           in crc_chunks ts checksum (drop run (chunk # rest))
      else crc_chunks ts (slicing_step ts checksum chunk) rest)"
  by pat_completeness auto
termination
  by (relation "measure (\<lambda>(ts, c, chunks). length chunks)") auto

definition crc_byte :: "u32 list list \<Rightarrow> u32 \<Rightarrow> u8 \<Rightarrow> u32" where
  "crc_byte ts checksum byte =
     drop_bit 8 checksum XOR ts ! 0 ! unat ((checksum XOR ucast byte) AND 255)"

definition crc32_update :: "u32 \<Rightarrow> bytes \<Rightarrow> u32" where
  "crc32_update checksum bs =
     foldl (crc_byte tables) (crc_chunks tables checksum (whole_chunks 16 bs)) (chunk_rest 16 bs)"

definition crc32 :: "bytes \<Rightarrow> u32" where
  "crc32 bs = NOT (crc32_update (- 1) bs)"

section \<open>XXH64\<close>

definition PRIME_1 :: u64 where "PRIME_1 = 0x9e3779b185ebca87"
definition PRIME_2 :: u64 where "PRIME_2 = 0xc2b2ae3d27d4eb4f"
definition PRIME_3 :: u64 where "PRIME_3 = 0x165667b19e3779f9"
definition PRIME_4 :: u64 where "PRIME_4 = 0x85ebca77c2b2ae63"
definition PRIME_5 :: u64 where "PRIME_5 = 0x27d4eb2f165667c5"

definition xxh_round :: "u64 \<Rightarrow> u64 \<Rightarrow> u64" where
  "xxh_round accumulator lane = word_rotl 31 (accumulator + lane * PRIME_2) * PRIME_1"

record xxh64_state =
  xxh_seed :: u64
  xxh_accumulators :: "u64 list"
  xxh_striped :: bool

definition xxh64_new :: "u64 \<Rightarrow> xxh64_state" where
  "xxh64_new seed =
     \<lparr>xxh_seed = seed,
      xxh_accumulators = [seed + PRIME_1 + PRIME_2, seed + PRIME_2, seed, seed - PRIME_1],
      xxh_striped = False\<rparr>"

definition xxh64_lanes :: "bytes \<Rightarrow> u64 list" where
  "xxh64_lanes stripe = map from_le (whole_chunks 8 stripe)"

definition xxh64_stripe :: "xxh64_state \<Rightarrow> u64 list \<Rightarrow> xxh64_state" where
  "xxh64_stripe s lanes =
     s\<lparr>xxh_accumulators := map2 xxh_round (xxh_accumulators s) lanes, xxh_striped := True\<rparr>"

definition xxh_converge :: "u64 list \<Rightarrow> u64" where
  "xxh_converge accumulators =
     (let first = accumulators ! 0; second = accumulators ! 1;
          third = accumulators ! 2; fourth = accumulators ! 3;
          hash = word_rotl 1 first + word_rotl 7 second + word_rotl 12 third + word_rotl 18 fourth
      in foldl (\<lambda>hash accumulator. (hash XOR xxh_round 0 accumulator) * PRIME_1 + PRIME_4)
           hash accumulators)"

definition xxh_tail_word :: "u64 \<Rightarrow> bytes \<Rightarrow> u64" where
  "xxh_tail_word hash word =
     word_rotl 27 (hash XOR xxh_round 0 (from_le word)) * PRIME_1 + PRIME_4"

definition xxh_tail_half :: "u64 \<Rightarrow> bytes \<Rightarrow> u64" where
  "xxh_tail_half hash word =
     word_rotl 23 (hash XOR ucast (from_le word :: u32) * PRIME_1) * PRIME_2 + PRIME_3"

definition xxh_tail_byte :: "u64 \<Rightarrow> u8 \<Rightarrow> u64" where
  "xxh_tail_byte hash byte = word_rotl 11 (hash XOR ucast byte * PRIME_5) * PRIME_1"

definition xxh_avalanche :: "u64 \<Rightarrow> u64" where
  "xxh_avalanche hash =
     (let hash = hash XOR drop_bit 33 hash;
          hash = hash * PRIME_2;
          hash = hash XOR drop_bit 29 hash;
          hash = hash * PRIME_3
      in hash XOR drop_bit 32 hash)"

definition xxh64_finish :: "xxh64_state \<Rightarrow> u64 \<Rightarrow> bytes \<Rightarrow> u64" where
  "xxh64_finish s len tail =
     (let hash = (if xxh_striped s then xxh_converge (xxh_accumulators s)
                  else xxh_seed s + PRIME_5);
          hash = hash + len;
          hash = foldl xxh_tail_word hash (whole_chunks 8 tail);
          rest = chunk_rest 8 tail;
          (hash, rest) = (if 4 \<le> length rest
                          then (xxh_tail_half hash (take 4 rest), drop 4 rest)
                          else (hash, rest));
          hash = foldl xxh_tail_byte hash rest
      in xxh_avalanche hash)"

definition xxh64 :: "bytes \<Rightarrow> u64 \<Rightarrow> u64" where
  "xxh64 bs seed =
     xxh64_finish
       (foldl (\<lambda>s stripe. xxh64_stripe s (xxh64_lanes stripe)) (xxh64_new seed) (whole_chunks 32 bs))
       (of_nat (length bs)) (chunk_rest 32 bs)"

definition fold_hash :: "u64 \<Rightarrow> u32" where
  "fold_hash hash = ucast (hash XOR drop_bit 32 hash)"

definition checksum32 :: "bytes \<Rightarrow> u32" where
  "checksum32 bs = fold_hash (xxh64 bs 0)"

section \<open>The bit-at-a-time CRC-32\<close>

text \<open>
  The reference: each byte is folded into the low end of the register, which then shifts eight
  times. \<open>zero_byte\<close> is that shift, what one zero byte does to the state.
\<close>

definition zero_byte :: "u32 \<Rightarrow> u32" where
  "zero_byte c = (crc_bit ^^ 8) c"

definition crc32_ref :: "u32 \<Rightarrow> bytes \<Rightarrow> u32" where
  "crc32_ref c bs = foldl (\<lambda>c b. zero_byte (c XOR ucast b)) c bs"

lemma crc_bit_alt:
  "crc_bit c = (if bit c 0 then drop_bit 1 c XOR 0xedb88320 else drop_bit 1 c)"
proof (cases "bit c 0")
  case True
  then have "c AND 1 = 1"
    by (simp add: and_one_eq bit_0 odd_iff_mod_2_eq_one)
  then have "- (c AND 1) = - 1" by simp
  with True show ?thesis
    unfolding crc_bit_def by simp
next
  case False
  then have "c AND 1 = 0"
    by (simp add: and_one_eq bit_0 even_iff_mod_2_eq_zero)
  with False show ?thesis
    unfolding crc_bit_def by simp
qed

lemma drop_bit_xor_word: "drop_bit n (a XOR b) = drop_bit n a XOR drop_bit n (b :: 'a::len word)"
  by (rule bit_word_eqI) (simp add: bit_simps)

lemma crc_bit_xor: "crc_bit (a XOR b) = crc_bit a XOR crc_bit b"
  by (auto simp: crc_bit_alt drop_bit_xor_word bit_xor_iff ac_simps)

lemma crc_bit_0 [simp]: "crc_bit 0 = 0"
  by (simp add: crc_bit_def)

lemma funpow_xor:
  fixes f :: "u32 \<Rightarrow> u32"
  assumes "\<And>a b :: u32. f (a XOR b) = f a XOR f b"
  shows "(f ^^ n) (a XOR b) = (f ^^ n) a XOR (f ^^ n) b"
proof (induction n)
  case (Suc n)
  then show ?case by (simp add: assms)
qed simp

lemma zero_byte_xor: "zero_byte (a XOR b) = zero_byte a XOR zero_byte b"
  unfolding zero_byte_def by (rule funpow_xor) (rule crc_bit_xor)

lemma zero_byte_0 [simp]: "zero_byte 0 = 0"
  by (simp add: zero_byte_def numeral_eq_Suc)

lemma zeros_xor: "(zero_byte ^^ n) (a XOR b) = (zero_byte ^^ n) a XOR (zero_byte ^^ n) b"
  by (rule funpow_xor) (rule zero_byte_xor)

lemma zeros_0 [simp]: "(zero_byte ^^ n) 0 = 0"
  by (induction n) simp_all

lemma crc_bit_low_zero:
  "\<forall>i < k. \<not> bit c i \<Longrightarrow> (crc_bit ^^ k) c = drop_bit k c"
proof (induction k)
  case 0
  then show ?case by simp
next
  case (Suc k)
  then have IH: "(crc_bit ^^ k) c = drop_bit k c" by simp
  have "\<not> bit (drop_bit k c) 0"
    using Suc.prems by (simp add: bit_drop_bit_eq)
  then have "crc_bit (drop_bit k c) = drop_bit (Suc k) c"
    by (simp add: crc_bit_alt)
  with IH show ?case by simp
qed

lemma bit_255: "bit (255 :: int) i \<longleftrightarrow> i < 8"
proof -
  have mask: "(255 :: int) = mask 8" by (simp add: mask_eq_exp_minus_1)
  show ?thesis
    unfolding mask by (simp only: bit_mask_iff) auto
qed

lemma split_low_byte: "(c :: u32) = push_bit 8 (drop_bit 8 c) XOR (c AND 255)"
  by (rule bit_word_eqI) (auto simp: bit_simps bit_255 not_less)

lemma zero_byte_low_zero:
  "\<forall>i < 8. \<not> bit c i \<Longrightarrow> zero_byte c = drop_bit 8 c"
  unfolding zero_byte_def by (rule crc_bit_low_zero)

lemma zero_byte_split: "zero_byte c = drop_bit 8 c XOR zero_byte (c AND 255)"
proof -
  have "zero_byte (push_bit 8 (drop_bit 8 c)) = drop_bit 8 (push_bit 8 (drop_bit 8 c))"
    by (rule zero_byte_low_zero) (simp add: bit_simps)
  also have "\<dots> = drop_bit 8 c"
    by (rule bit_word_eqI) (auto simp: bit_simps dest: bit_imp_le_length)
  finally show ?thesis
    by (metis split_low_byte zero_byte_xor)
qed

subsection \<open>The tables\<close>

lemma unat_low_byte [simp]: "unat ((w :: u32) AND 255) < 256"
proof -
  have "w AND 255 \<le> 255" by (rule word_and_le1)
  then have "unat (w AND 255) \<le> 255" by (simp add: word_le_nat_alt)
  then show ?thesis by simp
qed

lemma table0_nth: "n < 256 \<Longrightarrow> table0 ! n = zero_byte (of_nat n)"
  by (simp add: table0_def zero_byte_def)

lemma slice_entry:
  "n < 256 \<Longrightarrow>
   length ((next_slice ^^ k) table0) = 256 \<and>
   (next_slice ^^ k) table0 ! n = (zero_byte ^^ Suc k) (of_nat n)"
proof (induction k)
  case 0
  then show ?case by (simp add: table0_nth) (simp add: table0_def)
next
  case (Suc k)
  let ?p = "(zero_byte ^^ Suc k) (of_nat n)"
  have "drop_bit 8 ?p XOR table0 ! unat (?p AND 255) = zero_byte ?p"
    unfolding zero_byte_split [of ?p] by (simp add: table0_nth del: funpow.simps)
  with Suc show ?case by (simp add: next_slice_def)
qed

lemma slice_tables_low:
  "k < 16 \<Longrightarrow> slice_tables ! k ! unat (w AND 255) = (zero_byte ^^ Suc k) (w AND 255)"
  using slice_entry [of "unat (w AND 255)" k] by (simp add: slice_tables_def)

lemma length_slice_tables [simp]: "length slice_tables = 16"
  by (simp add: slice_tables_def)

definition byte_of :: "nat \<Rightarrow> u32 \<Rightarrow> u32" where
  "byte_of j w = drop_bit (8 * j) w AND 255"

lemma bit_byte_of: "bit (byte_of j w) i \<longleftrightarrow> i < 8 \<and> bit w (8 * j + i)"
  by (auto simp: byte_of_def bit_simps bit_255)

lemma word_bytes_split:
  "w = byte_of 0 w XOR push_bit 8 (byte_of 1 w) XOR push_bit 16 (byte_of 2 w)
       XOR push_bit 24 (byte_of 3 w)"
  by (rule bit_word_eqI) (auto simp: bit_byte_of bit_simps not_less)

lemma top_byte: "drop_bit 24 w = byte_of 3 w"
  by (rule bit_word_eqI) (auto simp: bit_byte_of bit_simps dest: bit_imp_le_length)

lemma zero_byte_push:
  "k \<le> 16 \<Longrightarrow> zero_byte (push_bit (8 + k) (byte_of j w)) = push_bit k (byte_of j w)"
proof -
  assume k: "k \<le> 16"
  have "zero_byte (push_bit (8 + k) (byte_of j w)) = drop_bit 8 (push_bit (8 + k) (byte_of j w))"
    by (rule zero_byte_low_zero) (simp add: bit_simps)
  also have "\<dots> = push_bit k (byte_of j w)"
    using k by (intro bit_word_eqI) (auto simp: bit_byte_of bit_simps)
  finally show ?thesis .
qed

lemma zeros_push:
  "(zero_byte ^^ (n + 3)) (push_bit 8 (byte_of j w)) = (zero_byte ^^ (n + 2)) (byte_of j w)"
  "(zero_byte ^^ (n + 3)) (push_bit 16 (byte_of j w)) = (zero_byte ^^ (n + 1)) (byte_of j w)"
  "(zero_byte ^^ (n + 3)) (push_bit 24 (byte_of j w)) = (zero_byte ^^ n) (byte_of j w)"
proof -
  note push = zero_byte_push [of 0 j w, simplified] zero_byte_push [of 8 j w, simplified]
    zero_byte_push [of 16 j w, simplified]
  have step: "(zero_byte ^^ Suc m) x = (zero_byte ^^ m) (zero_byte x)" for m x
    by (simp add: funpow_swap1)
  have three: "n + 3 = Suc (n + 2)" "n + 2 = Suc (n + 1)" "n + 1 = Suc n" by simp_all
  show "(zero_byte ^^ (n + 3)) (push_bit 8 (byte_of j w)) = (zero_byte ^^ (n + 2)) (byte_of j w)"
    by (simp only: three(1) step push)
  show "(zero_byte ^^ (n + 3)) (push_bit 16 (byte_of j w)) = (zero_byte ^^ (n + 1)) (byte_of j w)"
    by (simp only: three(1,2) step push)
  show "(zero_byte ^^ (n + 3)) (push_bit 24 (byte_of j w)) = (zero_byte ^^ n) (byte_of j w)"
    by (simp only: three step push)
qed

text \<open>What a run of zero bytes does to the state, from what it does to each of its bytes.\<close>

lemma zeros_by_bytes:
  "(zero_byte ^^ (n + 3)) w =
     (zero_byte ^^ (n + 3)) (byte_of 0 w) XOR (zero_byte ^^ (n + 2)) (byte_of 1 w)
     XOR (zero_byte ^^ (n + 1)) (byte_of 2 w) XOR (zero_byte ^^ n) (byte_of 3 w)"
proof -
  have "(zero_byte ^^ (n + 3)) w =
    (zero_byte ^^ (n + 3)) (byte_of 0 w XOR push_bit 8 (byte_of 1 w) XOR push_bit 16 (byte_of 2 w)
       XOR push_bit 24 (byte_of 3 w))"
    using word_bytes_split [of w] by simp
  also have "\<dots> = (zero_byte ^^ (n + 3)) (byte_of 0 w) XOR (zero_byte ^^ (n + 2)) (byte_of 1 w)
     XOR (zero_byte ^^ (n + 1)) (byte_of 2 w) XOR (zero_byte ^^ n) (byte_of 3 w)"
    by (simp only: zeros_xor zeros_push)
  finally show ?thesis .
qed

lemma skip_zeros:
  assumes "\<And>k. k < 16 \<Longrightarrow> ts ! k = slice_tables ! k"
  shows "skip ts w = (zero_byte ^^ 16) w"
proof -
  have "skip ts w = (zero_byte ^^ 16) (byte_of 0 w) XOR (zero_byte ^^ 15) (byte_of 1 w)
     XOR (zero_byte ^^ 14) (byte_of 2 w) XOR (zero_byte ^^ 13) (byte_of 3 w)"
    unfolding skip_def top_byte by (simp add: assms slice_tables_low byte_of_def del: funpow.simps)
  then show ?thesis
    using zeros_by_bytes [of 13 w] by (simp del: funpow.simps)
qed

lemma take_bit_Suc_xor:
  "take_bit (Suc m) (x :: u32) = take_bit m x XOR (if bit x m then push_bit m 1 else 0)"
  by (rule bit_word_eqI) (auto simp: bit_simps less_Suc_eq)

lemma bit_table_index:
  assumes "v < (256 :: nat)" "m < 32"
  shows "bit (push_bit (8 * t) (of_nat v) :: u32) m \<longleftrightarrow> m div 8 = t \<and> bit v (m mod 8)"
proof -
  have "take_bit 8 v = v"
    using assms by (simp add: take_bit_nat_eq_self)
  then have high: "\<not> bit v i" if "8 \<le> i" for i
    using that by (metis bit_take_bit_iff not_le)
  show ?thesis
  proof (cases "m div 8 = t")
    case True
    then have "8 * t \<le> m" "m mod 8 = m - 8 * t"
      by (auto simp: minus_mult_div_eq_mod)
    with True assms show ?thesis by (auto simp: bit_simps)
  next
    case False
    then have "m < 8 * t \<or> 8 \<le> m - 8 * t" by linarith
    with False high assms show ?thesis by (auto simp: bit_simps)
  qed
qed

lemma zero_tables_entry:
  assumes "m \<le> 32" "t < 4" "v < 256"
  shows "length (fold zero_tables_step [0..<m] (replicate 4 (replicate 256 0))) = 4 \<and>
    length (fold zero_tables_step [0..<m] (replicate 4 (replicate 256 0)) ! t) = 256 \<and>
    fold zero_tables_step [0..<m] (replicate 4 (replicate 256 0)) ! t ! v =
      (zero_byte ^^ 256) (take_bit m (push_bit (8 * t) (of_nat v)))"
  using assms
proof (induction m)
  case 0
  then show ?case by (simp del: funpow.simps)
next
  case (Suc m)
  define zs where "zs = fold zero_tables_step [0..<m] (replicate 4 (replicate 256 (0 :: u32)))"
  have IH: "length zs = 4" "length (zs ! t) = 256"
    "zs ! t ! v = (zero_byte ^^ 256) (take_bit m (push_bit (8 * t) (of_nat v)))"
    using Suc by (simp_all add: zs_def)
  have state: "(skip slice_tables ^^ 16) (push_bit m 1) = (zero_byte ^^ 256) (push_bit m 1)"
  proof -
    have "skip slice_tables = zero_byte ^^ 16"
      by (rule ext) (rule skip_zeros, rule refl)
    then show ?thesis by (simp add: funpow_mult del: funpow.simps)
  qed
  have "fold zero_tables_step [0..<Suc m] (replicate 4 (replicate 256 0)) = zero_tables_step m zs"
    by (simp add: zs_def)
  also have "\<dots> = zs[m div 8 :=
      map (\<lambda>(v, entry). if bit v (m mod 8) then entry XOR (zero_byte ^^ 256) (push_bit m 1) else entry)
        (enumerate 0 (zs ! (m div 8)))]"
    by (simp only: zero_tables_step_def Let_def state)
  finally have unfold: "fold zero_tables_step [0..<Suc m] (replicate 4 (replicate 256 0)) = \<dots>" .
  show ?case
    unfolding unfold
    using IH Suc.prems bit_table_index [of v m t]
    by (auto simp: nth_list_update take_bit_Suc_xor zeros_xor nth_enumerate_eq simp del: funpow.simps)
qed

lemma tables_low: "k < 16 \<Longrightarrow> tables ! k = slice_tables ! k"
  by (simp add: tables_def nth_append)

lemma take_bit_byte_of: "take_bit 32 (push_bit (8 * t) (byte_of j w)) = push_bit (8 * t) (byte_of j w)"
  by (rule bit_word_eqI) (auto simp: bit_simps)

lemma tables_high:
  assumes "t < 4"
  shows "tables ! (16 + t) ! unat (byte_of j w) = (zero_byte ^^ 256) (push_bit (8 * t) (byte_of j w))"
proof -
  have "unat (byte_of j w) < 256" by (simp add: byte_of_def)
  then show ?thesis
    using zero_tables_entry [OF _ assms, of 32 "unat (byte_of j w)"]
    by (simp add: tables_def nth_append take_bit_byte_of del: funpow.simps)
qed

lemma skip_run_zeros: "skip_run tables w = (zero_byte ^^ 256) w"
proof -
  have "(zero_byte ^^ 256) w = (zero_byte ^^ 256) (byte_of 0 w XOR push_bit 8 (byte_of 1 w)
      XOR push_bit 16 (byte_of 2 w) XOR push_bit 24 (byte_of 3 w))"
    by (subst word_bytes_split [of w]) (rule refl)
  also have "\<dots> = skip_run tables w"
    using tables_high [of 0 0 w] tables_high [of 1 1 w] tables_high [of 2 2 w] tables_high [of 3 3 w]
    unfolding skip_run_def top_byte zeros_xor by (simp add: byte_of_def del: funpow.simps)
  finally show ?thesis ..
qed

subsection \<open>Sixteen bytes at a time\<close>

lemma crc32_ref_simps [simp]:
  "crc32_ref c [] = c"
  "crc32_ref c (b # bs) = crc32_ref (zero_byte (c XOR ucast b)) bs"
  by (simp_all add: crc32_ref_def)

lemma crc32_ref_append: "crc32_ref c (as @ bs) = crc32_ref (crc32_ref c as) bs"
  by (simp add: crc32_ref_def)

lemma crc32_ref_zeros: "list_all (\<lambda>b. b = 0) bs \<Longrightarrow> crc32_ref c bs = (zero_byte ^^ length bs) c"
  by (induction bs arbitrary: c) (simp_all add: funpow_swap1)

lemma from_le_Cons_xor: "(from_le (b # bs) :: u32) = ucast b XOR push_bit 8 (from_le bs)"
  by (rule bit_word_eqI) (auto simp: bit_simps dest: bit_imp_le_length)

lemma crc32_ref_word:
  "length bs \<le> 4 \<Longrightarrow> crc32_ref c bs = (zero_byte ^^ length bs) (c XOR from_le bs)"
proof (induction bs arbitrary: c)
  case (Cons b bs)
  have "zero_byte (push_bit 8 (from_le bs)) = drop_bit 8 (push_bit 8 (from_le bs))"
    by (rule zero_byte_low_zero) (simp add: bit_simps)
  also have "\<dots> = from_le bs"
    using Cons.prems by (intro bit_word_eqI) (auto simp: bit_simps bit_from_le)
  finally have "zero_byte (c XOR from_le (b # bs)) = zero_byte (c XOR ucast b) XOR from_le bs"
    by (simp only: from_le_Cons_xor zero_byte_xor xor.assoc)
  with Cons show ?case
    by (simp add: funpow_swap1 del: from_le.simps)
qed simp

lemma slicing_step_ref:
  assumes "length chunk = 16"
  shows "slicing_step tables c chunk = crc32_ref c chunk"
proof -
  define w1 w2 w3 w4 :: u32
    where "w1 = from_le (slice chunk 0 4)" and "w2 = from_le (slice chunk 4 4)"
      and "w3 = from_le (slice chunk 8 4)" and "w4 = from_le (slice chunk 12 4)"
  have split: "chunk = slice chunk 0 4 @ slice chunk 4 4 @ slice chunk 8 4 @ slice chunk 12 4"
    using slice_append_split [of chunk 0 4 12] slice_append_split [of chunk 4 4 8]
      slice_append_split [of chunk 8 4 4] assms by simp
  have "crc32_ref c chunk = (zero_byte ^^ 4) ((zero_byte ^^ 4) ((zero_byte ^^ 4)
      ((zero_byte ^^ 4) (c XOR w1) XOR w2) XOR w3) XOR w4)"
    using assms by (subst split) (simp add: crc32_ref_append crc32_ref_word w1_def w2_def w3_def w4_def
        del: funpow.simps)
  also have "\<dots> = (zero_byte ^^ 16) (c XOR w1) XOR (zero_byte ^^ 12) w2 XOR (zero_byte ^^ 8) w3
      XOR (zero_byte ^^ 4) w4"
    unfolding zeros_xor funpow_add [symmetric, THEN fun_cong, unfolded comp_def]
    by (simp only: zeros_xor numeral_plus_numeral semiring_norm xor.assoc)
  finally have lhs: "crc32_ref c chunk = (zero_byte ^^ 16) (c XOR w1) XOR (zero_byte ^^ 12) w2
      XOR (zero_byte ^^ 8) w3 XOR (zero_byte ^^ 4) w4" .
  have w4: "(zero_byte ^^ 4) w4 = (zero_byte ^^ 4) (byte_of 0 w4) XOR (zero_byte ^^ 3) (byte_of 1 w4)
      XOR (zero_byte ^^ Suc (Suc 0)) (byte_of 2 w4) XOR (zero_byte ^^ 1) (byte_of 3 w4)"
    using zeros_by_bytes [of 1 w4] by (simp add: numeral_eq_Suc del: funpow.simps)
  note lhs
  also have "(zero_byte ^^ 16) (c XOR w1) XOR (zero_byte ^^ 12) w2 XOR (zero_byte ^^ 8) w3
      XOR (zero_byte ^^ 4) w4 = slicing_step tables c chunk"
    using zeros_by_bytes [of 13 "c XOR w1"] zeros_by_bytes [of 9 w2] zeros_by_bytes [of 5 w3] w4
    unfolding slicing_step_def Let_def w1_def [symmetric] w2_def [symmetric] w3_def [symmetric]
      w4_def [symmetric] table_at_def
    by (simp add: tables_low slice_tables_low byte_of_def xor.assoc xor.commute [of _ c] del: funpow.simps)
  finally show ?thesis ..
qed

lemma crc_chunks_ref:
  "list_all (\<lambda>chunk. length chunk = 16) chunks \<Longrightarrow>
   crc_chunks tables c chunks = crc32_ref c (concat chunks)"
proof (induction tables c chunks rule: crc_chunks.induct)
  case (2 c chunk rest)
  show ?case
  proof (cases "zero_chunk chunk")
    case True
    define zs where "zs = takeWhile zero_chunk (chunk # rest)"
    define run where "run = length zs"
    define c' where "c' = (skip tables ^^ (run mod 16)) ((skip_run tables ^^ (run div 16)) c)"
    have split: "chunk # rest = zs @ drop run (chunk # rest)"
      unfolding zs_def run_def by (metis takeWhile_dropWhile_id dropWhile_eq_drop)
    have all16: "list_all (\<lambda>chunk. length chunk = 16) zs"
      "list_all (\<lambda>chunk. length chunk = 16) (drop run (chunk # rest))"
      using 2(3) split by (metis list_all_append)+
    have zeros: "list_all (\<lambda>b. b = 0) (concat zs)"
      unfolding zs_def by (auto simp: list_all_iff zero_chunk_def dest: set_takeWhileD)
    have len: "length (concat zs) = 16 * run"
      using all16(1) unfolding run_def by (induction zs) auto
    have "skip tables = zero_byte ^^ 16" "skip_run tables = zero_byte ^^ 256"
      by (auto simp: skip_zeros tables_low skip_run_zeros simp del: funpow.simps)
    then have "c' = (zero_byte ^^ (16 * (run mod 16) + 256 * (run div 16))) c"
      by (simp add: c'_def funpow_mult funpow_add mult.commute del: funpow.simps)
    also have "16 * (run mod 16) + 256 * (run div 16) = 16 * run"
      using mult_div_mod_eq [of 16 run] by linarith
    finally have c': "c' = crc32_ref c (concat zs)"
      by (simp add: crc32_ref_zeros [OF zeros] len)
    have "crc_chunks tables c (chunk # rest) = crc_chunks tables c' (drop run (chunk # rest))"
      using True by (simp add: c'_def run_def zs_def Let_def del: funpow.simps)
    also have "\<dots> = crc32_ref c' (concat (drop run (chunk # rest)))"
      using 2(1) [OF True] all16(2)
      by (simp only: c'_def run_def zs_def)
    also have "\<dots> = crc32_ref c (concat (chunk # rest))"
      unfolding c' crc32_ref_append [symmetric] concat_append [symmetric] using split by simp
    finally show ?thesis .
  next
    case False
    with 2 show ?thesis
      by (simp add: slicing_step_ref crc32_ref_append)
  qed
qed simp

lemma crc_byte_ref: "crc_byte tables c b = zero_byte (c XOR ucast b)"
proof -
  have "drop_bit 8 (c XOR ucast b) = drop_bit 8 c"
    by (rule bit_word_eqI) (auto simp: bit_simps dest: bit_imp_le_length)
  then show ?thesis
    unfolding crc_byte_def zero_byte_split [of "c XOR ucast b"]
    by (simp add: tables_low slice_tables_low)
qed

lemma crc32_update_ref: "crc32_update c bs = crc32_ref c bs"
proof -
  have "list_all (\<lambda>chunk. length chunk = 16) (whole_chunks 16 bs)"
    by (auto simp: list_all_iff dest: whole_chunks_elem)
  moreover have "foldl (crc_byte tables) c' rest = crc32_ref c' rest" for c' rest
    by (simp add: crc32_ref_def crc_byte_ref [abs_def])
  ultimately show ?thesis
    by (simp add: crc32_update_def crc_chunks_ref concat_whole_chunks flip: crc32_ref_append)
qed

subsection \<open>Detection of short damage\<close>

lemma crc_bit_eq_0: "crc_bit c = 0 \<longleftrightarrow> c = 0"
proof
  assume z: "crc_bit c = 0"
  have poly: "bit (0xedb88320 :: u32) 31" by simp
  have top: "\<not> bit (drop_bit 1 c) 31"
    using bit_imp_le_length [of c 32] by (auto simp: bit_simps)
  have low: "\<not> bit c 0"
  proof
    assume "bit c 0"
    then have "bit (crc_bit c) 31"
      unfolding crc_bit_alt using poly top by (simp only: if_True bit_xor_iff simp_thms)
    with z show False by simp
  qed
  have "\<not> bit c i" for i
  proof (cases i)
    case (Suc j)
    have "\<not> bit (drop_bit 1 c) j"
      using z low by (simp add: crc_bit_alt)
    with Suc show ?thesis by (simp add: bit_simps)
  qed (use low in simp)
  then show "c = 0" by (simp add: bit_eq_iff)
qed simp

lemma zeros_eq_0: "(zero_byte ^^ n) c = 0 \<longleftrightarrow> c = 0"
proof -
  have bits: "(crc_bit ^^ k) x = 0 \<longleftrightarrow> x = 0" for k x
    by (induction k) (simp_all add: crc_bit_eq_0)
  show ?thesis
    by (induction n) (simp_all add: zero_byte_def bits)
qed

lemma xor_cancel: "a XOR c = b XOR c \<longleftrightarrow> a = b" "c XOR a = c XOR b \<longleftrightarrow> a = (b :: 'a::len word)"
  by (auto simp: bit_eq_iff bit_xor_iff)

lemma xor_eq_0_word: "a XOR b = 0 \<longleftrightarrow> a = (b :: 'a::len word)"
  using xor_cancel(1) [of a b b] by simp

lemma zeros_inject: "(zero_byte ^^ n) a = (zero_byte ^^ n) b \<longleftrightarrow> a = b"
proof -
  have "(zero_byte ^^ n) (a XOR b) = 0 \<longleftrightarrow> a XOR b = 0" by (rule zeros_eq_0)
  then show ?thesis
    unfolding zeros_xor xor_eq_0_word .
qed

lemma crc32_ref_inject_state: "crc32_ref a bs = crc32_ref b bs \<longleftrightarrow> a = b"
proof (induction bs arbitrary: a b)
  case (Cons x bs)
  have "zero_byte (a XOR ucast x) = zero_byte (b XOR ucast x) \<longleftrightarrow> a XOR ucast x = b XOR ucast x"
    using zeros_inject [of 1] by simp
  also have "\<dots> \<longleftrightarrow> a = b"
    by (rule xor_cancel)
  finally show ?case using Cons by simp
qed simp

lemma crc32_ref_burst:
  assumes "length m = length m'" "length m \<le> 4" "m \<noteq> m'"
  shows "crc32_ref c (pre @ m @ post) \<noteq> crc32_ref c (pre @ m' @ post)"
proof -
  let ?c = "crc32_ref c pre"
  have "(from_le m :: u32) \<noteq> from_le m'"
    using assms by (subst from_le_inject) auto
  then have "?c XOR from_le m \<noteq> ?c XOR from_le m'"
    by (simp add: xor_cancel)
  then have "crc32_ref ?c m \<noteq> crc32_ref ?c m'"
    using assms by (simp add: crc32_ref_word zeros_inject del: funpow.simps)
  then show ?thesis
    by (simp add: crc32_ref_append crc32_ref_inject_state)
qed

end
