(* ===== verification/Page.thy ===== *)
theory Page
  imports Checksum
begin

text \<open>
  The physical page of \<^verbatim>\<open>page.rs\<close>: the constants of the format, the envelope every page carries, its
  checksum over the stripes that are not all zero, and reading and writing it. A page's ID and its
  lengths are natural numbers here; they are stored at the width the format gives them, and the
  checks on every path keep them far below it. \<^verbatim>\<open>Page\<close> and \<^verbatim>\<open>PageRef\<close>, which differ in who owns the
  payload, are one record.
\<close>

section \<open>The format's constants\<close>

definition PAGE_SIZE :: nat where "PAGE_SIZE = 4096"
definition MAX_PAGE_COUNT :: nat where "MAX_PAGE_COUNT = 65536"
definition PAGE_HEADER_SIZE :: nat where "PAGE_HEADER_SIZE = 32"
definition MAX_PAGE_PAYLOAD_SIZE :: nat where "MAX_PAGE_PAYLOAD_SIZE = PAGE_SIZE - PAGE_HEADER_SIZE"
definition SUPERBLOCK_PAGE_COUNT :: nat where "SUPERBLOCK_PAGE_COUNT = 2"
definition BITMAP_CHUNK_COUNT :: nat where "BITMAP_CHUNK_COUNT = 2"
definition BITMAP_PAGE_COUNT :: nat where "BITMAP_PAGE_COUNT = BITMAP_CHUNK_COUNT * 2"
definition FIRST_DATA_PAGE_ID :: nat where
  "FIRST_DATA_PAGE_ID = SUPERBLOCK_PAGE_COUNT + BITMAP_PAGE_COUNT"

text \<open>\<^verbatim>\<open>TGRPAGE\0\<close>\<close>

definition PAGE_MAGIC :: bytes where
  "PAGE_MAGIC = [0x54, 0x47, 0x52, 0x50, 0x41, 0x47, 0x45, 0]"

definition PAGE_FORMAT_VERSION :: u16 where "PAGE_FORMAT_VERSION = 2"
definition PAGE_FLAGS :: u16 where "PAGE_FLAGS = 0"
definition PAGE_CHECKSUM_OFFSET :: nat where "PAGE_CHECKSUM_OFFSET = 28"

lemmas page_consts [simp] =
  PAGE_SIZE_def MAX_PAGE_COUNT_def PAGE_HEADER_SIZE_def MAX_PAGE_PAYLOAD_SIZE_def
  SUPERBLOCK_PAGE_COUNT_def BITMAP_CHUNK_COUNT_def BITMAP_PAGE_COUNT_def FIRST_DATA_PAGE_ID_def
  PAGE_CHECKSUM_OFFSET_def

section \<open>Page types\<close>

datatype page_type = Superblock_page | AllocationBitmap_page | BtreeInternal | BtreeLeaf | Overflow_page

fun page_type_byte :: "page_type \<Rightarrow> u8" where
  "page_type_byte Superblock_page = 1"
| "page_type_byte AllocationBitmap_page = 2"
| "page_type_byte BtreeInternal = 3"
| "page_type_byte BtreeLeaf = 4"
| "page_type_byte Overflow_page = 5"

definition page_type_from_byte :: "u8 \<Rightarrow> page_type option" where
  "page_type_from_byte b =
     (if b = 1 then Some Superblock_page
      else if b = 2 then Some AllocationBitmap_page
      else if b = 3 then Some BtreeInternal
      else if b = 4 then Some BtreeLeaf
      else if b = 5 then Some Overflow_page
      else None)"

definition page_type_try_from :: "u8 \<Rightarrow> page_type res" where
  "page_type_try_from b =
     (case page_type_from_byte b of Some ty \<Rightarrow> Inr ty | None \<Rightarrow> Inl INVALID_PAGE)"

lemma page_type_round [simp]: "page_type_from_byte (page_type_byte ty) = Some ty"
  by (cases ty) (simp_all add: page_type_from_byte_def)

lemma page_type_byte_from: "page_type_from_byte b = Some ty \<Longrightarrow> page_type_byte ty = b"
  by (auto simp: page_type_from_byte_def split: if_splits)

lemma page_type_try_round [simp]: "page_type_try_from (page_type_byte ty) = Inr ty"
  by (simp add: page_type_try_from_def)

lemma page_type_try_eq_Inr: "page_type_try_from b = Inr ty \<longleftrightarrow> b = page_type_byte ty"
  using page_type_byte_from [of b ty]
  by (auto simp: page_type_try_from_def split: option.splits)

section \<open>Checksums of pages\<close>

definition page_checksum :: "bytes \<Rightarrow> u32" where
  "page_checksum bs = from_le (slice bs PAGE_CHECKSUM_OFFSET 4)"

text \<open>\<^verbatim>\<open>CommitHash\<close>: the running fingerprint is the accumulator itself.\<close>

definition commit_hash_new :: u64 where "commit_hash_new = 0"

definition commit_hash_page :: "u64 \<Rightarrow> nat \<Rightarrow> u32 \<Rightarrow> u64" where
  "commit_hash_page h pid checksum =
     (let entry = put (put (replicate 12 0) 0 (le_bytes 8 (of_nat pid :: u64))) 8 (le_bytes 4 checksum)
      in xxh64 entry h)"

definition write_page_header :: "bytes \<Rightarrow> nat \<Rightarrow> page_type \<Rightarrow> nat \<Rightarrow> bytes" where
  "write_page_header bs pid ty payload_length =
     (let bs = put bs 0 PAGE_MAGIC;
          bs = put bs 8 (le_bytes 2 PAGE_FORMAT_VERSION);
          bs = put bs 10 (le_bytes 2 PAGE_FLAGS);
          bs = put bs 12 (le_bytes 8 (of_nat pid :: u64));
          bs = put bs 20 [page_type_byte ty]
      in put bs 24 (le_bytes 4 (of_nat payload_length :: u32)))"

text \<open>One stripe of the loop of \<^verbatim>\<open>compute_checksum\<close>: the hash, the presence words and the count.\<close>

definition checksum_lanes :: "nat \<Rightarrow> bytes \<Rightarrow> u64 list" where
  "checksum_lanes index stripe =
     (let lanes = xxh64_lanes stripe
      in if index = 0 then lanes[3 := lanes ! 3 AND 0xffffffff] else lanes)"

fun checksum_stripe ::
  "xxh64_state \<times> u64 list \<times> u64 \<Rightarrow> nat \<times> bytes \<Rightarrow> xxh64_state \<times> u64 list \<times> u64" where
  "checksum_stripe (hash, present, count) (index, stripe) =
     (let lanes = checksum_lanes index stripe
      in if lanes ! 0 OR lanes ! 1 OR lanes ! 2 OR lanes ! 3 \<noteq> 0
         then (xxh64_stripe hash lanes,
               present[index div 64 := present ! (index div 64) OR push_bit (index mod 64) 1],
               count + 1)
         else (hash, present, count))"

definition compute_checksum :: "bytes \<Rightarrow> u32" where
  "compute_checksum bs =
     (if bs ! 20 = page_type_byte Superblock_page
      then let checksum = crc32_update (- 1) (take PAGE_CHECKSUM_OFFSET bs);
               checksum = crc32_update checksum (replicate 4 0)
           in NOT (crc32_update checksum (drop (PAGE_CHECKSUM_OFFSET + 4) bs))
      else let (hash, present, count) =
                 foldl checksum_stripe (xxh64_new 0, replicate 2 0, 0)
                   (enumerate 0 (whole_chunks 32 bs));
               bitmap = put (put (replicate 16 0) 0 (le_bytes 8 (present ! 0)))
                          8 (le_bytes 8 (present ! 1))
           in fold_hash (xxh64_finish hash (count * 32 + 16) bitmap))"

definition seal :: "bytes \<Rightarrow> bytes" where
  "seal bs = put bs PAGE_CHECKSUM_OFFSET (le_bytes 4 (compute_checksum bs))"

section \<open>The page envelope\<close>

record page =
  pg_id :: nat
  pg_type :: page_type
  pg_payload :: bytes

definition validate_page_id :: "nat \<Rightarrow> unit res" where
  "validate_page_id pid = (if MAX_PAGE_COUNT \<le> pid then Inl INVALID_PAGE else Inr ())"

definition page_new :: "nat \<Rightarrow> page_type \<Rightarrow> bytes \<Rightarrow> page res" where
  "page_new pid ty payload =
     and_then (validate_page_id pid) (\<lambda>_.
       if MAX_PAGE_PAYLOAD_SIZE < length payload then Inl INVALID_PAGE
       else Inr \<lparr>pg_id = pid, pg_type = ty, pg_payload = payload\<rparr>)"

definition page_encode_unsealed :: "page \<Rightarrow> bytes res" where
  "page_encode_unsealed p =
     and_then (validate_page_id (pg_id p)) (\<lambda>_.
       if MAX_PAGE_PAYLOAD_SIZE < length (pg_payload p) then Inl INVALID_PAGE
       else let bs = replicate PAGE_SIZE 0;
                bs = write_page_header bs (pg_id p) (pg_type p) (length (pg_payload p))
            in Inr (put bs PAGE_HEADER_SIZE (pg_payload p)))"

definition page_encode :: "page \<Rightarrow> bytes res" where
  "page_encode p = and_then (page_encode_unsealed p) (\<lambda>bs. Inr (seal bs))"

definition page_verify :: "bytes \<Rightarrow> unit res" where
  "page_verify bs =
     (if length bs \<noteq> PAGE_SIZE then Inl INVALID_PAGE
      else let expected_checksum = read_u32 bs PAGE_CHECKSUM_OFFSET
      in if compute_checksum bs \<noteq> expected_checksum then Inl INVALID_PAGE
      else if take 8 bs \<noteq> PAGE_MAGIC then Inl INVALID_PAGE
      else if read_u16 bs 8 \<noteq> PAGE_FORMAT_VERSION then Inl UNSUPPORTED_PAGE
      else if read_u16 bs 10 \<noteq> PAGE_FLAGS then Inl UNSUPPORTED_PAGE
      else and_then (validate_page_id (unat (read_u64 bs 12))) (\<lambda>_.
        and_then (page_type_try_from (bs ! 20)) (\<lambda>_.
          if list_ex (\<lambda>b. b \<noteq> 0) (slice bs 21 3) then Inl INVALID_PAGE
          else let payload_length = unat (read_u32 bs 24)
          in if MAX_PAGE_PAYLOAD_SIZE < payload_length then Inl INVALID_PAGE
          else let payload_end = PAGE_HEADER_SIZE + payload_length
          in if list_ex (\<lambda>b. b \<noteq> 0) (drop payload_end bs) then Inl INVALID_PAGE
          else Inr ())))"

definition decode_verified :: "bytes \<Rightarrow> page res" where
  "decode_verified bs =
     (if length bs \<noteq> PAGE_SIZE then Inl INVALID_PAGE
      else let payload_length = unat (read_u32 bs 24)
      in if MAX_PAGE_PAYLOAD_SIZE < payload_length then Inl INVALID_PAGE
      else and_then (page_type_try_from (bs ! 20)) (\<lambda>ty.
        Inr \<lparr>pg_id = unat (read_u64 bs 12), pg_type = ty,
             pg_payload = slice bs PAGE_HEADER_SIZE payload_length\<rparr>))"

definition page_decode :: "bytes \<Rightarrow> page res" where
  "page_decode bs = and_then (page_verify bs) (\<lambda>_. decode_verified bs)"

definition u32_at :: "bytes \<Rightarrow> nat \<Rightarrow> u32" where
  "u32_at bs off = from_le [bs ! off, bs ! (off + 1), bs ! (off + 2), bs ! (off + 3)]"

definition whole :: "bytes \<Rightarrow> page option" where
  "whole bs =
     (let payload_length = unat (u32_at bs 24)
      in case page_type_from_byte (bs ! 20) of
           Some ty \<Rightarrow>
             if payload_length \<le> MAX_PAGE_PAYLOAD_SIZE
             then Some \<lparr>pg_id = unat (ucast (u32_at bs 12) OR push_bit 32 (ucast (u32_at bs 16)) :: u64),
                        pg_type = ty,
                        pg_payload = slice bs PAGE_HEADER_SIZE payload_length\<rparr>
             else None
         | None \<Rightarrow> None)"

definition decode_whole :: "bytes \<Rightarrow> page res" where
  "decode_whole bs = (case whole bs of Some p \<Rightarrow> Inr p | None \<Rightarrow> decode_verified bs)"

section \<open>What a page's checksum covers\<close>

text \<open>
  The message of a page: with its checksum field read as zero, the stripes that are not all zero,
  then the bitmap of which stripes those are.
\<close>

definition zeroed :: "bytes \<Rightarrow> bytes" where
  "zeroed bs = put bs PAGE_CHECKSUM_OFFSET (replicate 4 0)"

definition nonzero :: "bytes \<Rightarrow> bool" where
  "nonzero stripe \<longleftrightarrow> list_ex (\<lambda>b. b \<noteq> 0) stripe"

definition presence :: "bytes list \<Rightarrow> u64" where
  "presence stripes = horner_sum of_bool 2 (map nonzero stripes)"

definition stripes_message :: "bytes list \<Rightarrow> bytes" where
  "stripes_message stripes =
     concat (filter nonzero stripes)
     @ le_bytes 8 (presence (take 64 stripes)) @ le_bytes 8 (presence (drop 64 stripes))"

definition page_message :: "bytes \<Rightarrow> bytes" where
  "page_message bs = stripes_message (whole_chunks 32 (zeroed bs))"

lemma stripe_split:
  "length stripe = 32 \<Longrightarrow>
   stripe = slice stripe 0 8 @ slice stripe 8 8 @ slice stripe 16 8 @ slice stripe 24 8"
  using slice_append_split [of stripe 0 8 24] slice_append_split [of stripe 8 8 16]
    slice_append_split [of stripe 16 8 8] by simp

lemma xxh64_lanes_32:
  assumes "length stripe = 32"
  shows "xxh64_lanes stripe = [from_le (slice stripe 0 8), from_le (slice stripe 8 8),
                         from_le (slice stripe 16 8), from_le (slice stripe 24 8)]"
proof -
  have "whole_chunks 8 (slice stripe 0 8 @ slice stripe 8 8 @ slice stripe 16 8 @ slice stripe 24 8 @ [])
     = [slice stripe 0 8, slice stripe 8 8, slice stripe 16 8, slice stripe 24 8]"
    using assms by (simp add: whole_chunks_append del: append_Nil2)
  then show ?thesis
    unfolding xxh64_lanes_def using stripe_split [OF assms] by simp
qed

lemma lanes_nonzero:
  assumes "length stripe = 32"
  shows "(let lanes = xxh64_lanes stripe in lanes ! 0 OR lanes ! 1 OR lanes ! 2 OR lanes ! 3 \<noteq> 0)
         \<longleftrightarrow> nonzero stripe"
proof -
  have "(\<forall>b \<in> set stripe. b = 0) \<longleftrightarrow>
    (\<forall>b \<in> set (slice stripe 0 8). b = 0) \<and> (\<forall>b \<in> set (slice stripe 8 8). b = 0) \<and>
    (\<forall>b \<in> set (slice stripe 16 8). b = 0) \<and> (\<forall>b \<in> set (slice stripe 24 8). b = 0)"
    by (subst stripe_split [OF assms]) auto
  then show ?thesis
    using assms
    by (simp add: Let_def xxh64_lanes_32 or_eq_0_word from_le_eq_0 nonzero_def list_ex_iff) blast
qed

lemma mask_low_half:
  assumes "length bs = 8"
  shows "(from_le bs :: u64) AND 0xffffffff = from_le (take 4 bs @ replicate 4 0)"
proof (rule bit_word_eqI)
  fix i assume "i < LENGTH(64)"
  have mask: "(0xffffffff :: u64) = mask 32" by (simp add: mask_eq_exp_minus_1)
  show "bit ((from_le bs :: u64) AND 0xffffffff) i \<longleftrightarrow>
      bit (from_le (take 4 bs @ replicate 4 0) :: u64) i"
    unfolding mask using assms by (auto simp: bit_simps bit_from_le nth_append)
qed

lemma checksum_lanes_zeroed:
  assumes "length stripe = 32"
  shows "checksum_lanes 0 stripe = xxh64_lanes (put stripe 28 (replicate 4 0))"
proof -
  have "slice (put stripe 28 (replicate 4 0)) 24 8 = take 4 (slice stripe 24 8) @ replicate 4 0"
    using assms slice_append_split [of "put stripe 28 (replicate 4 0)" 24 4 4]
    by (simp add: take_slice)
  with assms show ?thesis
    by (simp add: checksum_lanes_def Let_def xxh64_lanes_32 mask_low_half)
qed

lemma zeroed_stripes:
  assumes "length bs = 4096"
  shows "whole_chunks 32 bs = take 32 bs # whole_chunks 32 (drop 32 bs)"
    and "whole_chunks 32 (zeroed bs) =
         put (take 32 bs) 28 (replicate 4 0) # whole_chunks 32 (drop 32 bs)"
  using assms
  by (subst whole_chunks.simps, simp add: zeroed_def put_take drop_put)+

text \<open>The loop of the code, against the message it hashes.\<close>

lemma bit_presence:
  "bit (presence stripes) j \<longleftrightarrow> j < 64 \<and> j < length stripes \<and> nonzero (stripes ! j)"
  by (auto simp: presence_def bit_horner_sum_bit_word_iff)

lemma presence_snoc:
  assumes "length xs < 128"
  shows "[presence (take 64 (xs @ [x])), presence (drop 64 (xs @ [x]))] =
    (if nonzero x
     then [presence (take 64 xs), presence (drop 64 xs)]
       [length xs div 64 := [presence (take 64 xs), presence (drop 64 xs)] ! (length xs div 64)
          OR push_bit (length xs mod 64) 1]
     else [presence (take 64 xs), presence (drop 64 xs)])"
proof (cases "length xs < 64")
  case True
  have "presence (xs @ [x]) = (if nonzero x then presence xs OR push_bit (length xs) 1 else presence xs)"
    using True by (intro bit_word_eqI) (auto simp: bit_presence bit_simps nth_append less_Suc_eq)
  with True show ?thesis by simp
next
  case False
  have div1: "length xs div 64 = 1" "length xs mod 64 = length xs - 64"
    using assms False by (auto simp: not_less le_div_geq le_mod_geq)
  have "presence (drop 64 xs @ [x]) =
      (if nonzero x then presence (drop 64 xs) OR push_bit (length xs - 64) 1 else presence (drop 64 xs))"
    using assms False
    by (intro bit_word_eqI) (auto simp: bit_presence bit_simps nth_append less_Suc_eq)
  with False div1 show ?thesis by simp
qed

text \<open>The stripes with the checksum field, which only the first holds, read as zero.\<close>

fun zeroed_first :: "bytes list \<Rightarrow> bytes list" where
  "zeroed_first [] = []"
| "zeroed_first (stripe # stripes) = put stripe 28 (replicate 4 0) # stripes"

lemma zeroed_first_snoc:
  "zeroed_first (xs @ [x]) = zeroed_first xs @ [if xs = [] then put x 28 (replicate 4 0) else x]"
  by (cases xs) simp_all

lemma length_zeroed_first [simp]: "length (zeroed_first xs) = length xs"
  by (cases xs) simp_all

lemma checksum_loop:
  assumes "length stripes \<le> 128" "\<forall>s \<in> set stripes. length s = 32"
  shows "foldl checksum_stripe (hash, replicate 2 0, 0) (enumerate 0 stripes) =
    (foldl (\<lambda>h s. xxh64_stripe h (xxh64_lanes s)) hash (filter nonzero (zeroed_first stripes)),
     [presence (take 64 (zeroed_first stripes)), presence (drop 64 (zeroed_first stripes))],
     of_nat (length (filter nonzero (zeroed_first stripes))))"
  using assms
proof (induction stripes rule: rev_induct)
  case Nil
  then show ?case by (simp add: presence_def numeral_2_eq_2)
next
  case (snoc x xs)
  define z where "z = (if xs = [] then put x 28 (replicate 4 0) else x)"
  have lanes: "checksum_lanes (length xs) x = xxh64_lanes z"
    using snoc.prems(2) checksum_lanes_zeroed [of x] by (auto simp: z_def checksum_lanes_def)
  have "length z = 32"
    using snoc.prems(2) by (simp add: z_def)
  from lanes_nonzero [OF this]
  have nz: "(xxh64_lanes z ! 0 OR xxh64_lanes z ! 1 OR xxh64_lanes z ! 2 OR xxh64_lanes z ! 3 \<noteq> 0)
      = nonzero z"
    by (simp only: Let_def)
  have IH: "foldl checksum_stripe (hash, replicate 2 0, 0) (enumerate 0 xs) =
    (foldl (\<lambda>h s. xxh64_stripe h (xxh64_lanes s)) hash (filter nonzero (zeroed_first xs)),
     [presence (take 64 (zeroed_first xs)), presence (drop 64 (zeroed_first xs))],
     of_nat (length (filter nonzero (zeroed_first xs))))"
    using snoc by simp
  show ?case
    using presence_snoc [of "zeroed_first xs" z] snoc.prems(1)
    unfolding zeroed_first_snoc z_def [symmetric] enumerate_append_eq foldl_append IH
    by (simp only: enumerate_simps foldl.simps checksum_stripe.simps Let_def lanes nz add_0
        length_zeroed_first length_append list.size) auto
qed

lemma xxh64_blocks:
  assumes "\<forall>s \<in> set blocks. length s = 32" "length tail < 32"
  shows "xxh64 (concat blocks @ tail) seed =
    xxh64_finish (foldl (\<lambda>h s. xxh64_stripe h (xxh64_lanes s)) (xxh64_new seed) blocks)
      (of_nat (32 * length blocks + length tail)) tail"
proof -
  have "length (concat blocks) = 32 * length blocks"
    using assms(1) by (induction blocks) auto
  then show ?thesis
    using assms by (simp add: xxh64_def whole_chunks_concat_blocks chunk_rest_concat_blocks)
qed

lemma zeroed_first_chunks:
  "length bs = 4096 \<Longrightarrow> zeroed_first (whole_chunks 32 bs) = whole_chunks 32 (zeroed bs)"
  by (simp add: zeroed_stripes)

lemma put_two_words:
  "put (put (replicate 16 0) 0 (le_bytes 8 a)) 8 (le_bytes 8 b) = le_bytes 8 a @ le_bytes 8 b"
  by (simp add: put_def)

lemma compute_checksum_message:
  assumes "length bs = 4096" "bs ! 20 \<noteq> 1"
  shows "compute_checksum bs = checksum32 (page_message bs)"
proof -
  let ?ss = "whole_chunks 32 (zeroed bs)"
  have len: "length (whole_chunks 32 bs) \<le> 128" "\<forall>s \<in> set (whole_chunks 32 bs). length s = 32"
    using assms by (auto simp: length_whole_chunks dest: whole_chunks_elem)
  have blocks: "\<forall>s \<in> set (filter nonzero ?ss). length s = 32"
    by (auto dest: whole_chunks_elem)
  have "page_message bs = concat (filter nonzero ?ss) @
      (le_bytes 8 (presence (take 64 ?ss)) @ le_bytes 8 (presence (drop 64 ?ss)))"
    by (simp add: page_message_def stripes_message_def)
  then show ?thesis
    using assms checksum_loop [OF len, of "xxh64_new 0"] xxh64_blocks [OF blocks, of _ 0]
    by (simp add: compute_checksum_def checksum32_def zeroed_first_chunks Let_def put_two_words
        mult.commute)
qed

text \<open>Distinct pages have distinct messages, the checksum field apart.\<close>

lemma presence_inject:
  assumes "length xs = length ys" "length xs \<le> 64" "presence xs = presence ys"
  shows "map nonzero xs = map nonzero ys"
proof (rule nth_equalityI)
  show "length (map nonzero xs) = length (map nonzero ys)" using assms by simp
  fix i assume i: "i < length (map nonzero xs)"
  have "bit (presence xs) i = bit (presence ys) i" using assms by simp
  with i assms(1,2) show "map nonzero xs ! i = map nonzero ys ! i"
    by (simp add: bit_presence)
qed

lemma concat_blocks_inject:
  assumes "concat xs = concat ys" "\<forall>x \<in> set xs. length x = n" "\<forall>y \<in> set ys. length y = n" "0 < n"
  shows "xs = ys"
  using whole_chunks_concat_blocks [of xs n "[]"] whole_chunks_concat_blocks [of ys n "[]"] assms by simp

lemma nonzero_filter_inject:
  assumes "map nonzero xs = map nonzero ys" "filter nonzero xs = filter nonzero ys"
    and "\<forall>x \<in> set xs. length x = n" "\<forall>y \<in> set ys. length y = n"
  shows "xs = ys"
  using assms
proof (induction xs arbitrary: ys)
  case (Cons x xs)
  then obtain y ys' where ys: "ys = y # ys'" by (cases ys) auto
  have "x = y"
  proof (cases "nonzero x")
    case True
    with Cons.prems ys show ?thesis by simp
  next
    case False
    with Cons.prems ys have "\<forall>b \<in> set x. b = 0" "\<forall>b \<in> set y. b = 0" "length x = length y"
      by (auto simp: nonzero_def list_ex_iff)
    then show ?thesis by (metis replicate_eqI)
  qed
  moreover have "xs = ys'"
    using Cons ys by (auto split: if_splits)
  ultimately show ?case using ys by simp
qed simp

lemma stripes_message_inject:
  assumes "stripes_message xs = stripes_message ys"
    and "length xs = 128" "length ys = 128"
    and "\<forall>x \<in> set xs. length x = 32" "\<forall>y \<in> set ys. length y = 32"
  shows "xs = ys"
proof -
  have parts: "concat (filter nonzero xs) = concat (filter nonzero ys)"
    "presence (take 64 xs) = presence (take 64 ys)" "presence (drop 64 xs) = presence (drop 64 ys)"
    using assms(1) unfolding stripes_message_def
    by (simp_all only: append_eq_append_conv length_append length_le_bytes le_bytes_inject
        len_of_numeral_defs simp_thms)
  have halves: "map nonzero (take 64 xs) = map nonzero (take 64 ys)"
    "map nonzero (drop 64 xs) = map nonzero (drop 64 ys)"
    by (rule presence_inject, use assms(2,3) parts(2,3) in simp_all)+
  have "map nonzero zs = map nonzero (take 64 zs) @ map nonzero (drop 64 zs)" for zs
    by (simp only: map_append [symmetric] append_take_drop_id)
  from this [of xs] this [of ys] have "map nonzero xs = map nonzero ys"
    by (simp only: halves)
  moreover have "filter nonzero xs = filter nonzero ys"
    by (rule concat_blocks_inject [where n = 32]) (use parts(1) assms(4,5) in simp_all)
  ultimately show ?thesis
    by (rule nonzero_filter_inject [OF _ _ assms(4,5)])
qed

lemma page_message_inject:
  assumes "length a = 4096" "length b = 4096"
  shows "page_message a = page_message b \<longleftrightarrow> zeroed a = zeroed b"
proof
  assume eq: "page_message a = page_message b"
  have len: "length (zeroed a) = 4096" "length (zeroed b) = 4096"
    using assms by (simp_all add: zeroed_def)
  have "whole_chunks 32 (zeroed a) = whole_chunks 32 (zeroed b)"
    using eq len unfolding page_message_def
    by (intro stripes_message_inject) (auto simp: length_whole_chunks dest: whole_chunks_elem)
  moreover have "chunk_rest 32 (zeroed a) = []" "chunk_rest 32 (zeroed b) = []"
    using len by (simp_all add: chunk_rest_def)
  ultimately show "zeroed a = zeroed b"
    using concat_whole_chunks [of 32 "zeroed a"] concat_whole_chunks [of 32 "zeroed b"] by simp
qed (simp add: page_message_def)

section \<open>The envelope\<close>

lemma compute_checksum_own_field:
  assumes "length bs = 4096" "length v = 4"
  shows "compute_checksum (put bs 28 v) = compute_checksum bs"
proof (cases "bs ! 20 = 1")
  case True
  then show ?thesis
    using assms by (simp add: compute_checksum_def nth_put drop_put) (simp add: put_def)
next
  case False
  have "zeroed (put bs 28 v) = zeroed bs"
    using assms by (simp add: zeroed_def put_def)
  then have "page_message (put bs 28 v) = page_message bs"
    by (simp add: page_message_def)
  with False assms show ?thesis
    by (simp add: compute_checksum_message nth_put)
qed

text \<open>The envelope's fields, as a page has them whatever its payload and checksum.\<close>

definition has_header :: "bytes \<Rightarrow> nat \<Rightarrow> page_type \<Rightarrow> nat \<Rightarrow> bool" where
  "has_header bs pid ty n \<longleftrightarrow>
     length bs = 4096 \<and> slice bs 0 8 = PAGE_MAGIC \<and>
     slice bs 8 2 = le_bytes 2 PAGE_FORMAT_VERSION \<and> slice bs 10 2 = le_bytes 2 PAGE_FLAGS \<and>
     slice bs 12 8 = le_bytes 8 (of_nat pid :: u64) \<and> slice bs 20 1 = [page_type_byte ty] \<and>
     slice bs 21 3 = replicate 3 0 \<and> slice bs 24 4 = le_bytes 4 (of_nat n :: u32)"

lemma length_PAGE_MAGIC [simp, byte_simps]: "length PAGE_MAGIC = 8"
  by (simp add: PAGE_MAGIC_def)

lemma has_header_write:
  assumes "length bs = 4096" "slice bs 21 3 = replicate 3 0"
  shows "has_header (write_page_header bs pid ty n) pid ty n"
  using assms by (simp add: has_header_def write_page_header_def Let_def)

lemma length_write_page_header [simp, byte_simps]:
  "length bs = 4096 \<Longrightarrow> length (write_page_header bs pid ty n) = 4096"
  by (simp add: write_page_header_def Let_def)

lemma drop_write_page_header [simp]:
  "length bs = 4096 \<Longrightarrow> 28 \<le> m \<Longrightarrow> m \<le> 4096 \<Longrightarrow>
   drop m (write_page_header bs pid ty n) = drop m bs"
  by (simp add: write_page_header_def Let_def drop_put)

lemma has_header_put [simp]:
  "has_header bs pid ty n \<Longrightarrow> 28 \<le> off \<Longrightarrow> off + length v \<le> 4096 \<Longrightarrow>
   has_header (put bs off v) pid ty n"
  by (simp add: has_header_def)

lemma has_header_length: "has_header bs pid ty n \<Longrightarrow> length bs = 4096"
  by (simp add: has_header_def)

lemma has_header_seal [simp]: "has_header bs pid ty n \<Longrightarrow> has_header (seal bs) pid ty n"
  by (simp add: seal_def)

lemma length_seal [simp, byte_simps]: "length bs = 4096 \<Longrightarrow> length (seal bs) = 4096"
  by (simp add: seal_def)

lemma drop_seal [simp]:
  "length bs = 4096 \<Longrightarrow> 32 \<le> m \<Longrightarrow> m \<le> 4096 \<Longrightarrow> drop m (seal bs) = drop m bs"
  by (simp add: seal_def drop_put)

lemma slice_seal [simp]:
  "length bs = 4096 \<Longrightarrow> 32 \<le> m \<Longrightarrow> m + k \<le> 4096 \<Longrightarrow> slice (seal bs) m k = slice bs m k"
  by (simp add: slice_def)

lemma has_header_reads:
  assumes "has_header bs pid ty n" "pid < 2 ^ 64" "n < 2 ^ 32"
  shows "take 8 bs = PAGE_MAGIC" "read_u16 bs 8 = PAGE_FORMAT_VERSION" "read_u16 bs 10 = PAGE_FLAGS"
    "unat (read_u64 bs 12) = pid" "bs ! 20 = page_type_byte ty" "unat (read_u32 bs 24) = n"
proof -
  show "take 8 bs = PAGE_MAGIC" "read_u16 bs 8 = PAGE_FORMAT_VERSION" "read_u16 bs 10 = PAGE_FLAGS"
    "unat (read_u64 bs 12) = pid" "unat (read_u32 bs 24) = n"
    using assms by (simp_all add: has_header_def reads_def slice_def)
  show "bs ! 20 = page_type_byte ty"
    using assms nth_slice_1 [of 20 bs] by (simp add: has_header_def)
qed

lemma has_header_iff:
  assumes "length bs = 4096"
  shows "has_header bs (unat (read_u64 bs 12)) ty (unat (read_u32 bs 24)) \<longleftrightarrow>
    take 8 bs = PAGE_MAGIC \<and> read_u16 bs 8 = PAGE_FORMAT_VERSION \<and> read_u16 bs 10 = PAGE_FLAGS \<and>
    bs ! 20 = page_type_byte ty \<and> slice bs 21 3 = replicate 3 0"
proof -
  have "slice bs 8 2 = le_bytes 2 v \<longleftrightarrow> read_u16 bs 8 = v"
    "slice bs 10 2 = le_bytes 2 v \<longleftrightarrow> read_u16 bs 10 = v" for v :: u16
    using assms by (auto simp: read_u16_def)
  then show ?thesis
    using assms nth_slice_1 [of 20 bs]
    by (simp add: has_header_def read_u64_def read_u32_def) (auto simp: slice_def)
qed

lemma page_verify_ok:
  "page_verify bs = Inr () \<longleftrightarrow>
     (\<exists>pid ty n. has_header bs pid ty n \<and> pid < 65536 \<and> n \<le> 4064 \<and>
        compute_checksum bs = read_u32 bs 28 \<and> drop (32 + n) bs = replicate (4064 - n) 0)"
    (is "_ \<longleftrightarrow> ?R")
proof
  assume "page_verify bs = Inr ()"
  then have v: "length bs = 4096" "compute_checksum bs = read_u32 bs 28" "take 8 bs = PAGE_MAGIC"
    "read_u16 bs 8 = PAGE_FORMAT_VERSION" "read_u16 bs 10 = PAGE_FLAGS"
    "unat (read_u64 bs 12) < 65536" "\<exists>ty. bs ! 20 = page_type_byte ty"
    "slice bs 21 3 = replicate 3 0" "unat (read_u32 bs 24) \<le> 4064"
    "drop (32 + unat (read_u32 bs 24)) bs = replicate (4064 - unat (read_u32 bs 24)) 0"
    by (auto simp: page_verify_def validate_page_id_def Let_def and_then_eq_Inr page_type_try_eq_Inr
        not_list_ex_nonzero split: if_splits)
  then obtain ty where "bs ! 20 = page_type_byte ty" by blast
  with v have "has_header bs (unat (read_u64 bs 12)) ty (unat (read_u32 bs 24))"
    by (simp add: has_header_iff)
  with v show ?R by blast
next
  assume ?R
  then obtain pid ty n where h: "has_header bs pid ty n" and b: "pid < 65536" "n \<le> 4064"
    and c: "compute_checksum bs = read_u32 bs 28" and d: "drop (32 + n) bs = replicate (4064 - n) 0"
    by blast
  have "slice bs 21 3 = replicate 3 0" "length bs = 4096"
    using h by (simp_all add: has_header_def)
  then show "page_verify bs = Inr ()"
    using has_header_reads [OF h] b c d
    by (simp add: page_verify_def validate_page_id_def Let_def list_ex_iff)
qed

lemma decode_verified_header:
  assumes "has_header bs pid ty n" "pid < 2 ^ 64" "n \<le> 4064"
  shows "decode_verified bs = Inr \<lparr>pg_id = pid, pg_type = ty, pg_payload = slice bs 32 n\<rparr>"
  using has_header_reads [OF assms(1)] has_header_length [OF assms(1)] assms(2,3)
  by (simp add: decode_verified_def Let_def)

lemma checksum_seal:
  assumes "length bs = 4096"
  shows "compute_checksum (seal bs) = read_u32 (seal bs) 28"
    and "page_checksum (seal bs) = compute_checksum bs"
  using assms by (simp_all add: seal_def compute_checksum_own_field read_u32_def page_checksum_def)

lemma page_verify_seal:
  assumes "has_header bs pid ty n" "pid < 65536" "n \<le> 4064" "drop (32 + n) bs = replicate (4064 - n) 0"
  shows "page_verify (seal bs) = Inr ()"
  unfolding page_verify_ok
  using assms has_header_length [OF assms(1)] checksum_seal(1) [of bs]
  by (intro exI [of _ pid] exI [of _ ty] exI [of _ n]) simp

lemma page_ext:
  assumes "has_header a pid ty n" "has_header b pid ty n" "n \<le> 4064"
    and "slice a 28 4 = slice b 28 4" "slice a 32 n = slice b 32 n" "drop (32 + n) a = drop (32 + n) b"
  shows "a = b"
proof -
  have split: "bs = slice bs 0 8 @ slice bs 8 2 @ slice bs 10 2 @ slice bs 12 8 @ slice bs 20 1 @
      slice bs 21 3 @ slice bs 24 4 @ slice bs 28 4 @ slice bs 32 n @ drop (32 + n) bs"
    for bs :: bytes
    using slice_then_drop [of 0 bs 8] slice_then_drop [of 8 bs 2] slice_then_drop [of 10 bs 2]
      slice_then_drop [of 12 bs 8] slice_then_drop [of 20 bs 1] slice_then_drop [of 21 bs 3]
      slice_then_drop [of 24 bs 4] slice_then_drop [of 28 bs 4] slice_then_drop [of 32 bs n]
    by simp
  show ?thesis
    using assms unfolding has_header_def by (subst split [of a], subst split [of b]) simp
qed

subsection \<open>Round trips\<close>

lemma page_encode_unsealed_header:
  assumes "pg_id p < 65536" "length (pg_payload p) \<le> 4064"
  shows "\<exists>bs. page_encode_unsealed p = Inr bs \<and>
    has_header bs (pg_id p) (pg_type p) (length (pg_payload p)) \<and> slice bs 28 4 = replicate 4 0 \<and>
    slice bs 32 (length (pg_payload p)) = pg_payload p \<and>
    drop (32 + length (pg_payload p)) bs = replicate (4064 - length (pg_payload p)) 0"
proof -
  let ?n = "length (pg_payload p)"
  let ?h = "write_page_header (replicate 4096 0) (pg_id p) (pg_type p) ?n"
  have "has_header ?h (pg_id p) (pg_type p) ?n" by (simp add: has_header_write)
  moreover have "slice ?h 28 4 = replicate 4 0" by (simp add: slice_def)
  ultimately show ?thesis
    using assms by (simp add: page_encode_unsealed_def validate_page_id_def Let_def drop_put)
qed

lemma page_encode_ok:
  assumes "page_encode p = Inr bs"
  shows "page_verify bs = Inr () \<and> decode_verified bs = Inr p \<and> pg_id p < 65536 \<and>
    length (pg_payload p) \<le> 4064"
proof -
  have lim: "pg_id p < 65536" "length (pg_payload p) \<le> 4064"
    using assms by (auto simp: page_encode_def page_encode_unsealed_def validate_page_id_def
        and_then_eq_Inr Let_def split: if_splits)
  from page_encode_unsealed_header [OF this] obtain us where
    us: "page_encode_unsealed p = Inr us" "has_header us (pg_id p) (pg_type p) (length (pg_payload p))"
      "slice us 32 (length (pg_payload p)) = pg_payload p"
      "drop (32 + length (pg_payload p)) us = replicate (4064 - length (pg_payload p)) 0"
    by blast
  then have bs: "bs = seal us" using assms by (simp add: page_encode_def)
  show ?thesis
    unfolding bs using us lim page_verify_seal [OF us(2)] has_header_length [OF us(2)]
      decode_verified_header [OF has_header_seal [OF us(2)]]
    by simp
qed

lemma page_encode_total:
  "pg_id p < 65536 \<Longrightarrow> length (pg_payload p) \<le> 4064 \<Longrightarrow> \<exists>bs. page_encode p = Inr bs"
  using page_encode_unsealed_header [of p] by (auto simp: page_encode_def)

text \<open>A page that verifies is the encoding of what it decodes to: no byte of it is free.\<close>

lemma page_verify_canonical:
  assumes "page_verify bs = Inr ()"
  shows "\<exists>p. decode_verified bs = Inr p \<and> page_encode p = Inr bs"
proof -
  from assms obtain pid ty n where h: "has_header bs pid ty n" and b: "pid < 65536" "n \<le> 4064"
    and c: "compute_checksum bs = read_u32 bs 28" and d: "drop (32 + n) bs = replicate (4064 - n) 0"
    unfolding page_verify_ok by blast
  have len: "length bs = 4096" by (rule has_header_length [OF h])
  let ?p = "\<lparr>pg_id = pid, pg_type = ty, pg_payload = slice bs 32 n\<rparr>"
  have n: "length (slice bs 32 n) = n" using b len by simp
  obtain us where us: "page_encode_unsealed ?p = Inr us" "has_header us pid ty n"
      "slice us 28 4 = replicate 4 0" "slice us 32 n = slice bs 32 n"
      "drop (32 + n) us = replicate (4064 - n) 0"
    using page_encode_unsealed_header [of ?p] b n by auto
  have len_us: "length us = 4096" by (rule has_header_length [OF us(2)])
  have us_eq: "us = put bs 28 (replicate 4 0)"
    by (rule page_ext [where pid = pid and ty = ty and n = n]) (use us h b d len in \<open>simp_all add: drop_put\<close>)
  have "compute_checksum us = read_u32 bs 28"
    unfolding us_eq using len c by (simp add: compute_checksum_own_field)
  then have "slice (seal us) 28 4 = slice bs 28 4"
    using len len_us by (simp add: seal_def read_u32_def)
  note field = this
  have "seal us = bs"
    by (rule page_ext [where pid = pid and ty = ty and n = n]) (use us h b d len len_us field in simp_all)
  then have "page_encode ?p = Inr bs"
    using us(1) by (simp add: page_encode_def)
  moreover have "decode_verified bs = Inr ?p"
    using decode_verified_header [OF h] b by simp
  ultimately show ?thesis by blast
qed

subsection \<open>Reading in place\<close>

lemma u32_at_read: "off + 4 \<le> length bs \<Longrightarrow> u32_at bs off = read_u32 bs off"
proof -
  assume "off + 4 \<le> length bs"
  then have "slice bs off 4 = [bs ! off, bs ! (off + 1), bs ! (off + 2), bs ! (off + 3)]"
    by (intro nth_equalityI) (auto simp: nth_slice less_Suc_eq numeral_eq_Suc)
  then show ?thesis by (simp only: u32_at_def read_u32_def)
qed

lemma read_u64_halves:
  assumes "off + 8 \<le> length bs"
  shows "read_u64 bs off = ucast (read_u32 bs off) OR push_bit 32 (ucast (read_u32 bs (off + 4)))"
proof (rule bit_word_eqI)
  fix i assume i: "i < LENGTH(64)"
  show "bit (read_u64 bs off) i \<longleftrightarrow>
    bit (ucast (read_u32 bs off) OR push_bit 32 (ucast (read_u32 bs (off + 4))) :: u64) i"
  proof (cases "i < 32")
    case True
    then show ?thesis
      using assms i by (auto simp: reads_def bit_simps bit_from_le nth_slice)
  next
    case False
    then obtain j where j: "i = j + 4 * 8" "j < 32"
      using i that [of "i - 32"] by simp
    then have "i div 8 = j div 8 + 4" "i mod 8 = j mod 8" "j div 8 < 4"
      using mod_mult_self2 [of j 8 4] by (simp_all add: less_mult_imp_div_less)
    with False j show ?thesis
      using assms by (simp add: reads_def bit_simps bit_from_le nth_slice ac_simps)
  qed
qed

lemma decode_whole_eq: "length bs = 4096 \<Longrightarrow> decode_whole bs = decode_verified bs"
  using read_u64_halves [of 12 bs]
  by (auto simp: decode_whole_def whole_def decode_verified_def u32_at_read page_type_try_from_def
      Let_def split: option.splits if_splits)

lemma whole_accepts: "length bs = 4096 \<Longrightarrow> whole bs = Some p \<longleftrightarrow> decode_verified bs = Inr p"
  using read_u64_halves [of 12 bs]
  by (auto simp: whole_def decode_verified_def u32_at_read page_type_try_from_def
      Let_def split: option.splits if_splits)

subsection \<open>Damage to a superblock\<close>

lemma superblock_checksum_ref:
  assumes "length bs = 4096" "bs ! 20 = 1"
  shows "compute_checksum bs = NOT (crc32_ref (- 1) (zeroed bs))"
proof -
  have "zeroed bs = take 28 bs @ replicate 4 0 @ drop 32 bs"
    using assms by (simp add: zeroed_def put_def)
  then show ?thesis
    using assms by (simp add: compute_checksum_def crc32_update_ref crc32_ref_append Let_def)
qed

text \<open>
  Bytes replaced in a superblock, at most four in a row and all within the checksum field or all
  outside it, never verify, so recovery turns to the other slot.
\<close>

lemma superblock_damage:
  assumes "page_verify bs = Inr ()" "bs ! 20 = 1"
    and "length v \<le> 4" "off + length v \<le> 4096"
    and "off + length v \<le> 28 \<or> 32 \<le> off \<or> 28 \<le> off \<and> off + length v \<le> 32"
    and "slice bs off (length v) \<noteq> v" "put bs off v ! 20 = 1"
  shows "page_verify (put bs off v) = Inl INVALID_PAGE"
proof -
  have len: "length bs = 4096" and sum: "compute_checksum bs = read_u32 bs 28"
    using assms(1) by (auto simp: page_verify_ok has_header_def)
  have len': "length (put bs off v) = 4096" using len assms(4) by simp
  have "compute_checksum (put bs off v) \<noteq> read_u32 (put bs off v) 28"
  proof (cases "28 \<le> off \<and> off + length v \<le> 32")
    case True
    have "zeroed (put bs off v) = zeroed bs"
      unfolding zeroed_def
      by (rule buffer_eqI [where n = 4096]) (use len len' True assms(4) in \<open>auto simp: nth_put\<close>)
    then have "compute_checksum (put bs off v) = read_u32 bs 28"
      using superblock_checksum_ref [OF len' assms(7)] superblock_checksum_ref [OF len assms(2)] sum
      by simp
    moreover have "slice (put bs off v) 28 4 \<noteq> slice bs 28 4"
    proof
      assume "slice (put bs off v) 28 4 = slice bs 28 4"
      then have "slice (slice (put bs off v) 28 4) (off - 28) (length v) =
          slice (slice bs 28 4) (off - 28) (length v)" by simp
      moreover have "off - 28 + length v \<le> 4" "28 + (off - 28) = off" using True by auto
      ultimately have "slice (put bs off v) off (length v) = slice bs off (length v)"
        by (simp add: slice_slice)
      with assms(4,6) len show False by simp
    qed
    ultimately show ?thesis
      using len len' by (simp add: read_u32_def from_le_inject)
  next
    case False
    with assms(5) have out: "off + length v \<le> 28 \<or> 32 \<le> off" by blast
    let ?z = "zeroed bs"
    have z: "length ?z = 4096" "slice ?z off (length v) = slice bs off (length v)"
      using len assms(4) out by (auto simp: zeroed_def)
    have "zeroed (put bs off v) = put ?z off v"
      unfolding zeroed_def PAGE_CHECKSUM_OFFSET_def
      by (rule put_put_disjoint) (use len assms(4) out in auto)
    also have "\<dots> = take off ?z @ v @ drop (off + length v) ?z"
      by (simp add: put_def)
    finally have z': "zeroed (put bs off v) = \<dots>" .
    have "?z = take off ?z @ slice bs off (length v) @ drop (off + length v) ?z"
      using put_slice_split [of off "length v" ?z] z assms(4) by simp
    then have "crc32_ref (- 1) ?z \<noteq> crc32_ref (- 1) (zeroed (put bs off v))"
      unfolding z' using crc32_ref_burst [of "slice bs off (length v)" v "- 1" "take off ?z"
          "drop (off + length v) ?z"] assms(3,4,6) len by simp
    moreover have "read_u32 (put bs off v) 28 = read_u32 bs 28"
      using len assms(4) out by (auto simp: read_u32_def)
    ultimately show ?thesis
      using superblock_checksum_ref [OF len' assms(7)] superblock_checksum_ref [OF len assms(2)] sum
      by (metis bit.compl_eq_compl_iff)
  qed
  with len' show ?thesis by (simp add: page_verify_def Let_def)
qed

end
