(* ===== verification/Bitmap.thy ===== *)
theory Bitmap
  imports Page
begin

text \<open>
  The allocation bitmap of \<^verbatim>\<open>page.rs\<close>: one bit for each page of the database, the count of those set,
  and the searches the pager makes in it 64 pages at a time. The abstraction of a bitmap is the set
  of pages it allocates; every operation is related to that set.
\<close>

section \<open>Slots and chunks\<close>

datatype bitmap_slot = Bitmap_A | Bitmap_B

fun bitmap_slot_byte :: "bitmap_slot \<Rightarrow> u8" where
  "bitmap_slot_byte Bitmap_A = 0"
| "bitmap_slot_byte Bitmap_B = 1"

fun bitmap_slot_first_page_id :: "bitmap_slot \<Rightarrow> nat" where
  "bitmap_slot_first_page_id Bitmap_A = SUPERBLOCK_PAGE_COUNT"
| "bitmap_slot_first_page_id Bitmap_B = SUPERBLOCK_PAGE_COUNT + BITMAP_CHUNK_COUNT"

definition bitmap_slot_page_id :: "bitmap_slot \<Rightarrow> nat \<Rightarrow> nat" where
  "bitmap_slot_page_id slot chunk = bitmap_slot_first_page_id slot + chunk"

fun bitmap_slot_inactive :: "bitmap_slot \<Rightarrow> bitmap_slot" where
  "bitmap_slot_inactive Bitmap_A = Bitmap_B"
| "bitmap_slot_inactive Bitmap_B = Bitmap_A"

definition bitmap_slot_try_from :: "u8 \<Rightarrow> bitmap_slot res" where
  "bitmap_slot_try_from b =
     (if b = 0 then Inr Bitmap_A else if b = 1 then Inr Bitmap_B else Inl INVALID_PAGE)"

definition SUPERBLOCK_FIELDS_SIZE :: nat where "SUPERBLOCK_FIELDS_SIZE = 128"
definition SUPERBLOCK_BITMAP_BYTES :: nat where
  "SUPERBLOCK_BITMAP_BYTES = MAX_PAGE_PAYLOAD_SIZE - SUPERBLOCK_FIELDS_SIZE"
definition ALLOCATION_BITMAP_BYTES :: nat where "ALLOCATION_BITMAP_BYTES = MAX_PAGE_COUNT div 8"
definition BITMAP_CHUNK_HEADER_SIZE :: nat where "BITMAP_CHUNK_HEADER_SIZE = 16"
definition MAX_BITMAP_CHUNK_BYTES :: nat where
  "MAX_BITMAP_CHUNK_BYTES = MAX_PAGE_PAYLOAD_SIZE - BITMAP_CHUNK_HEADER_SIZE"

lemmas bitmap_consts [simp] =
  SUPERBLOCK_FIELDS_SIZE_def SUPERBLOCK_BITMAP_BYTES_def ALLOCATION_BITMAP_BYTES_def
  BITMAP_CHUNK_HEADER_SIZE_def MAX_BITMAP_CHUNK_BYTES_def

text \<open>The first byte of a chunk and the byte past its last.\<close>

definition bitmap_chunk_range :: "nat \<Rightarrow> nat \<times> nat" where
  "bitmap_chunk_range chunk =
     (let start = SUPERBLOCK_BITMAP_BYTES + chunk * MAX_BITMAP_CHUNK_BYTES
      in (start, min (start + MAX_BITMAP_CHUNK_BYTES) ALLOCATION_BITMAP_BYTES))"

section \<open>Operations\<close>

record allocation_bitmap =
  ab_bits :: bytes
  ab_allocated :: nat

definition allocation_bitmap_new :: allocation_bitmap where
  "allocation_bitmap_new =
     (let bits = fold (\<lambda>pid bits. bits[pid div 8 := bits ! (pid div 8) OR push_bit (pid mod 8) 1])
                   [0..<FIRST_DATA_PAGE_ID] (replicate ALLOCATION_BITMAP_BYTES 0)
      in \<lparr>ab_bits = bits, ab_allocated = FIRST_DATA_PAGE_ID\<rparr>)"

definition allocates :: "allocation_bitmap \<Rightarrow> nat \<Rightarrow> bool" where
  "allocates b pid \<longleftrightarrow>
     pid < MAX_PAGE_COUNT \<and>
     (if pid div 8 < length (ab_bits b)
      then ab_bits b ! (pid div 8) AND push_bit (pid mod 8) 1 \<noteq> 0
      else False)"

definition is_allocated :: "allocation_bitmap \<Rightarrow> nat \<Rightarrow> bool res" where
  "is_allocated b pid = and_then (validate_page_id pid) (\<lambda>_. Inr (allocates b pid))"

definition is_allocated_reference :: "allocation_bitmap \<Rightarrow> nat \<Rightarrow> bool res" where
  "is_allocated_reference b pid =
     and_then (validate_page_id pid) (\<lambda>_.
       if length (ab_bits b) \<le> pid div 8 then Inl Panic
       else Inr (ab_bits b ! (pid div 8) AND push_bit (pid mod 8) 1 \<noteq> 0))"

text \<open>A refusal comes before the first change, so an error leaves the bitmap as it was.\<close>

definition set_allocated :: "allocation_bitmap \<Rightarrow> nat \<Rightarrow> bool \<Rightarrow> allocation_bitmap res" where
  "set_allocated b pid allocated =
     and_then (validate_page_id pid) (\<lambda>_.
       if pid < FIRST_DATA_PAGE_ID \<and> \<not> allocated then Inl INVALID_PAGE
       else if length (ab_bits b) \<le> pid div 8 then Inl Panic
       else let mask = push_bit (pid mod 8) 1
            in if (ab_bits b ! (pid div 8) AND mask \<noteq> 0) \<noteq> allocated
               then Inr (b\<lparr>ab_bits := (ab_bits b)[pid div 8 := ab_bits b ! (pid div 8) XOR mask],
                           ab_allocated := (if allocated then ab_allocated b + 1
                                            else ab_allocated b - 1)\<rparr>)
               else Inr b)"

definition allocated_page_count :: "allocation_bitmap \<Rightarrow> nat" where
  "allocated_page_count b = ab_allocated b"

text \<open>\<^verbatim>\<open>trailing_zeros\<close> and \<^verbatim>\<open>count_ones\<close>.\<close>

definition trailing_zeros :: "'a::len word \<Rightarrow> nat" where
  "trailing_zeros w = length (takeWhile (\<lambda>i. \<not> bit w i) [0..<LENGTH('a)])"

definition count_ones :: "'a::len word \<Rightarrow> nat" where
  "count_ones w = length (filter (bit w) [0..<LENGTH('a)])"

text \<open>The loop of \<^verbatim>\<open>first_free\<close>, from page \<open>pid\<close>.\<close>

function first_free_from :: "bytes list \<Rightarrow> bytes list \<Rightarrow> nat \<Rightarrow> nat \<Rightarrow> nat option res" where
  "first_free_from ws other_words endp pid =
     (if pid < endp then
        let word = pid div 64
        in if length ws \<le> word \<or> length other_words \<le> word then Inl Panic
        else let taken = from_le (ws ! word) OR from_le (other_words ! word)
                         OR (push_bit (pid mod 64) 1 - 1) :: u64
        in if taken \<noteq> - 1
           then let free = word * 64 + trailing_zeros (NOT taken)
                in Inr (if free < endp then Some free else None)
           else first_free_from ws other_words endp ((word + 1) * 64)
      else Inr None)"
  by pat_completeness auto
termination
proof (relation "measure (\<lambda>(ws, ows, endp, pid). endp - pid)")
  fix pid endp :: nat
  assume "pid < endp"
  moreover have "pid < (pid div 64 + 1) * 64"
    by presburger
  ultimately show "((ws, ows, endp, (word + 1) * 64), ws, ows, endp, pid)
      \<in> measure (\<lambda>(ws, ows, endp, pid). endp - pid)" if "word = pid div 64" for ws ows word
    using that by auto
qed auto

definition first_free :: "allocation_bitmap \<Rightarrow> allocation_bitmap \<Rightarrow> nat \<Rightarrow> nat \<Rightarrow> nat option res" where
  "first_free b other start endp =
     first_free_from (whole_chunks 8 (ab_bits b)) (whole_chunks 8 (ab_bits other))
       (min endp MAX_PAGE_COUNT) start"

text \<open>The inner loop of \<^verbatim>\<open>allocated_since\<close>: the set bits of one word, lowest first.\<close>

lemma clear_lowest_less:
  assumes "fresh \<noteq> 0"
  shows "unat (fresh AND (fresh - 1)) < unat (fresh :: u64)"
proof -
  have pos: "0 < unat fresh" using assms by (simp add: unat_gt_0)
  then have "1 \<le> fresh" by (simp add: word_le_nat_alt)
  then have "unat (fresh - 1) = unat fresh - 1" by (simp add: unat_sub)
  moreover have "unat (fresh AND (fresh - 1)) \<le> unat (fresh - 1)"
    using word_and_le1 [of fresh "fresh - 1"] by (simp add: word_le_nat_alt and.commute)
  ultimately show ?thesis using pos by linarith
qed

function fresh_pages :: "nat \<Rightarrow> nat \<Rightarrow> u64 \<Rightarrow> nat list" where
  "fresh_pages word_start endp fresh =
     (if fresh = 0 then []
      else let pid = word_start + trailing_zeros fresh
           in if endp \<le> pid then []
              else pid # fresh_pages word_start endp (fresh AND (fresh - 1)))"
  by pat_completeness auto
termination
  by (relation "measure (\<lambda>(word_start, endp, fresh). unat fresh)") (auto simp: clear_lowest_less)

declare first_free_from.simps [simp del] fresh_pages.simps [simp del]

definition div_ceil :: "nat \<Rightarrow> nat \<Rightarrow> nat" where
  "div_ceil a b = (a + b - 1) div b"

definition allocated_since :: "allocation_bitmap \<Rightarrow> allocation_bitmap \<Rightarrow> nat \<Rightarrow> nat list" where
  "allocated_since b base endp =
     (let endp = min endp MAX_PAGE_COUNT
      in concat (map (\<lambda>(word, bits, base_bits).
             fresh_pages (word * 64) endp (from_le bits AND NOT (from_le base_bits)))
           (enumerate 0 (take (div_ceil endp 64)
              (zip (whole_chunks 8 (ab_bits b)) (whole_chunks 8 (ab_bits base)))))))"

definition superblock_bits :: "allocation_bitmap \<Rightarrow> bytes" where
  "superblock_bits b = take SUPERBLOCK_BITMAP_BYTES (ab_bits b)"

definition chunk_bits :: "allocation_bitmap \<Rightarrow> nat \<Rightarrow> bytes" where
  "chunk_bits b chunk = (let (start, stop) = bitmap_chunk_range chunk in slice (ab_bits b) start (stop - start))"

text \<open>A write into the payload of a page being built in place.\<close>

definition put_payload :: "bytes \<Rightarrow> nat \<Rightarrow> bytes \<Rightarrow> bytes" where
  "put_payload bs off v = put bs (PAGE_HEADER_SIZE + off) v"

definition encode_chunk :: "allocation_bitmap \<Rightarrow> nat \<Rightarrow> bitmap_slot \<Rightarrow> u64 \<Rightarrow> bytes" where
  "encode_chunk b chunk slot generation =
     (let bits = chunk_bits b chunk;
          bs = write_page_header (replicate PAGE_SIZE 0) (bitmap_slot_page_id slot chunk)
                 AllocationBitmap_page (BITMAP_CHUNK_HEADER_SIZE + length bits);
          bs = put_payload bs 0 (le_bytes 8 generation);
          bs = put_payload bs 8 [bitmap_slot_byte slot];
          bs = put_payload bs 9 [of_nat chunk];
          bs = put_payload bs 10 [of_nat BITMAP_CHUNK_COUNT];
          bs = put_payload bs 12 (le_bytes 2 (of_nat (length bits) :: u16));
          bs = put_payload bs BITMAP_CHUNK_HEADER_SIZE bits
      in seal bs)"

definition validate_metadata_pages :: "allocation_bitmap \<Rightarrow> unit res" where
  "validate_metadata_pages b =
     fold (\<lambda>pid r. and_then r (\<lambda>_. and_then (is_allocated b pid) (\<lambda>allocated.
        if \<not> allocated then Inl INVALID_PAGE else Inr ()))) [0..<FIRST_DATA_PAGE_ID] (Inr ())"

definition from_bits :: "bytes \<Rightarrow> allocation_bitmap res" where
  "from_bits bits =
     (if length bits \<noteq> ALLOCATION_BITMAP_BYTES then Inl INVALID_PAGE
      else let allocated = sum_list (map (\<lambda>word. count_ones (from_le word :: u64)) (whole_chunks 8 bits))
                 + sum_list (map count_ones (chunk_rest 8 bits));
               bitmap = \<lparr>ab_bits = bits, ab_allocated = allocated\<rparr>
           in and_then (validate_metadata_pages bitmap) (\<lambda>_. Inr bitmap))"

section \<open>The pages a bitmap allocates\<close>

definition allocated_set :: "allocation_bitmap \<Rightarrow> nat set" where
  "allocated_set b = {pid. allocates b pid}"

definition bitmap_ok :: "allocation_bitmap \<Rightarrow> bool" where
  "bitmap_ok b \<longleftrightarrow>
     length (ab_bits b) = ALLOCATION_BITMAP_BYTES \<and>
     ab_allocated b = card (allocated_set b) \<and>
     list_all (allocates b) [0..<FIRST_DATA_PAGE_ID]"

lemma and_bit_nonzero:
  "(w AND 2 ^ i \<noteq> 0) \<longleftrightarrow> bit (w :: 'a::len word) i" "(w AND 2 ^ i = 0) \<longleftrightarrow> \<not> bit w i"
proof -
  have "bit (w AND 2 ^ i) j \<longleftrightarrow> j = i \<and> bit w i" for j
    by (auto simp: bit_simps dest: bit_imp_le_length)
  then show "(w AND 2 ^ i \<noteq> 0) \<longleftrightarrow> bit w i" "(w AND 2 ^ i = 0) \<longleftrightarrow> \<not> bit w i"
    by (auto simp: bit_eq_iff [of "w AND 2 ^ i"] dest: bit_imp_le_length)
qed

lemma allocates_bit:
  "length (ab_bits b) = 8192 \<Longrightarrow>
   allocates b pid \<longleftrightarrow> pid < 65536 \<and> bit (ab_bits b ! (pid div 8)) (pid mod 8)"
  by (auto simp: allocates_def and_bit_nonzero)

lemma allocated_set_limit: "allocated_set b \<subseteq> {0..<65536}"
  by (auto simp: allocated_set_def allocates_def)

lemma finite_allocated_set [simp]: "finite (allocated_set b)"
  using allocated_set_limit finite_subset by blast

lemma is_allocated_eq:
  assumes "length (ab_bits b) = 8192"
  shows "is_allocated b pid = is_allocated_reference b pid"
  using assms by (auto simp: is_allocated_def is_allocated_reference_def allocates_def validate_page_id_def)

lemma flip_bit_allocates:
  assumes "length (ab_bits b) = 8192" "pid < 65536"
  shows "allocates (b\<lparr>ab_bits := (ab_bits b)[pid div 8 := ab_bits b ! (pid div 8) XOR 2 ^ (pid mod 8)],
            ab_allocated := n\<rparr>) q \<longleftrightarrow> (if q = pid then \<not> allocates b pid else allocates b q)"
proof (cases "q div 8 = pid div 8")
  case True
  then have "q = pid \<longleftrightarrow> q mod 8 = pid mod 8"
    by (metis div_mult_mod_eq)
  with True assms show ?thesis
    by (auto simp: allocates_bit bit_simps nth_list_update)
next
  case False
  with assms show ?thesis
    by (auto simp: allocates_bit nth_list_update)
qed

lemma set_allocated_ok:
  assumes "bitmap_ok b" "pid < 65536" "allocated \<or> 6 \<le> pid"
  shows "\<exists>b'. set_allocated b pid allocated = Inr b' \<and> bitmap_ok b' \<and>
    allocated_set b' = (if allocated then insert pid (allocated_set b) else allocated_set b - {pid})"
proof (cases "allocates b pid = allocated")
  case True
  have len: "length (ab_bits b) = 8192" using assms(1) by (simp add: bitmap_ok_def)
  have "set_allocated b pid allocated = Inr b"
    using assms True len
    by (auto simp: set_allocated_def validate_page_id_def Let_def and_bit_nonzero allocates_bit)
  moreover have "allocated_set b = (if allocated then insert pid (allocated_set b) else allocated_set b - {pid})"
    using True by (auto simp: allocated_set_def)
  ultimately show ?thesis using assms(1) by blast
next
  case False
  have len: "length (ab_bits b) = 8192" using assms(1) by (simp add: bitmap_ok_def)
  let ?b = "b\<lparr>ab_bits := (ab_bits b)[pid div 8 := ab_bits b ! (pid div 8) XOR 2 ^ (pid mod 8)],
      ab_allocated := (if allocated then ab_allocated b + 1 else ab_allocated b - 1)\<rparr>"
  have eq: "set_allocated b pid allocated = Inr ?b"
    using assms False len
    by (auto simp: set_allocated_def validate_page_id_def Let_def and_bit_nonzero allocates_bit)
  have set: "allocated_set ?b =
      (if allocated then insert pid (allocated_set b) else allocated_set b - {pid})"
    using False by (auto simp: allocated_set_def flip_bit_allocates [OF len assms(2)] split: if_splits)
  have "ab_allocated ?b = card (allocated_set ?b)"
    unfolding set using assms(1) False by (auto simp: bitmap_ok_def allocated_set_def card_Diff_singleton
        finite_allocated_set [unfolded allocated_set_def])
  moreover have "list_all (allocates ?b) [0..<6]"
    using assms(1,3) False flip_bit_allocates [OF len assms(2)]
    by (auto simp: bitmap_ok_def list_all_iff)
  ultimately have "bitmap_ok ?b" using len by (simp add: bitmap_ok_def)
  with eq set show ?thesis by blast
qed

lemma set_allocated_errors:
  assumes "bitmap_ok b" "65536 \<le> pid \<or> pid < 6 \<and> \<not> allocated"
  shows "set_allocated b pid allocated = Inl INVALID_PAGE"
  using assms by (auto simp: set_allocated_def validate_page_id_def)

lemma allocation_bitmap_new_set:
  "length (ab_bits allocation_bitmap_new) = 8192" "allocated_set allocation_bitmap_new = {0..<6}"
proof -
  have bits: "ab_bits allocation_bitmap_new = (replicate 8192 0)[0 := 63]"
    by (simp add: allocation_bitmap_new_def Let_def upt_rec numeral_eq_Suc [of "num.One"])
  then show len: "length (ab_bits allocation_bitmap_new) = 8192" by simp
  have low: "bit (63 :: u8) i \<longleftrightarrow> i < 6" for i
  proof -
    have mask: "(63 :: u8) = mask 6" by (simp add: mask_eq_exp_minus_1)
    show ?thesis unfolding mask by (auto simp: bit_mask_iff)
  qed
  have "allocates allocation_bitmap_new pid \<longleftrightarrow> pid < 6" for pid
  proof (cases "pid < 8")
    case True
    then have "pid div 8 = 0" "pid mod 8 = pid" by auto
    moreover have "(replicate 8192 0)[0 := 63] ! 0 = (63 :: u8)" by simp
    ultimately show ?thesis
      using True unfolding allocates_bit [OF len] bits by (simp only: low) auto
  next
    case False
    then have "pid div 8 \<noteq> 0" by auto
    then have "pid < 65536 \<Longrightarrow> (replicate 8192 0)[0 := 63] ! (pid div 8) = (0 :: u8)"
      by (subst nth_list_update_neq) simp_all
    then have "\<not> (pid < 65536 \<and> bit ((replicate 8192 0)[0 := 63 :: u8] ! (pid div 8)) (pid mod 8))"
      by (metis bit_0_eq bot_apply bot_bool_def)
    with False show ?thesis
      unfolding allocates_bit [OF len] bits by linarith
  qed
  then show "allocated_set allocation_bitmap_new = {0..<6}"
    by (simp only: allocated_set_def atLeast0LessThan lessThan_def)
qed

lemma allocation_bitmap_new_ok: "bitmap_ok allocation_bitmap_new"
proof -
  have "allocates allocation_bitmap_new pid" if "pid < 6" for pid
    using allocation_bitmap_new_set(2) that by (auto simp only: allocated_set_def set_eq_iff mem_Collect_eq
        atLeastLessThan_iff)
  moreover have "ab_allocated allocation_bitmap_new = 6"
    by (simp add: allocation_bitmap_new_def Let_def)
  ultimately show ?thesis
    using allocation_bitmap_new_set by (simp add: bitmap_ok_def list_all_iff)
qed

section \<open>Sixty-four pages at a time\<close>

lemma word_chunk_bit:
  assumes "length bits = 8192" "k < 1024" "i < 64"
  shows "bit (from_le (whole_chunks 8 bits ! k) :: u64) i \<longleftrightarrow>
    bit (bits ! ((k * 64 + i) div 8)) ((k * 64 + i) mod 8)"
proof -
  have "(k * 64 + i) div 8 = 8 * k + i div 8" "(k * 64 + i) mod 8 = i mod 8" "i div 8 < 8"
    using assms(3) by presburger+
  with assms show ?thesis
    by (simp add: nth_whole_chunks bit_from_le)
qed

lemma word_allocates:
  assumes "length (ab_bits b) = 8192" "k < 1024" "i < 64"
  shows "bit (from_le (whole_chunks 8 (ab_bits b) ! k) :: u64) i \<longleftrightarrow> allocates b (k * 64 + i)"
  using assms by (simp add: word_chunk_bit allocates_bit)

lemma filter_words:
  "concat (map (\<lambda>k. map (\<lambda>i. k * 64 + i) (filter (\<lambda>i. P (k * 64 + i)) [0..<64])) [0..<n]) =
   filter P [0..<n * 64]"
proof (induction n)
  case (Suc n)
  have "[0..<Suc n * 64] = [0..<n * 64] @ map (\<lambda>i. n * 64 + i) [0..<64]"
    using upt_add_eq_append [of 0 "n * 64" 64] map_add_upt [of "n * 64" 64]
    by (simp add: add.commute)
  with Suc show ?case by (simp add: filter_map comp_def)
qed simp

lemma trailing_zeros_least:
  fixes w :: "'a::len word"
  assumes "w \<noteq> 0"
  shows "bit w (trailing_zeros w)" "i < trailing_zeros w \<Longrightarrow> \<not> bit w i"
    "trailing_zeros w < LENGTH('a)"
proof -
  let ?t = "takeWhile (\<lambda>i. \<not> bit w i) [0..<LENGTH('a)]"
  obtain j where "bit w j" using assms by (auto simp: bit_eq_iff)
  then have j: "j \<in> set [0..<LENGTH('a)]" "bit w j" by (auto dest: bit_imp_le_length)
  then have lt: "length ?t < length [0..<LENGTH('a)]"
    by (metis (mono_tags, lifting) le_neq_implies_less length_takeWhile_le order_refl take_all
        takeWhile_eq_all_conv takeWhile_eq_take)
  then show "trailing_zeros w < LENGTH('a)" by (simp add: trailing_zeros_def)
  then show "bit w (trailing_zeros w)"
    using nth_length_takeWhile [OF lt] by (simp add: trailing_zeros_def)
  assume i: "i < trailing_zeros w"
  then have "?t ! i \<in> set ?t" by (simp add: trailing_zeros_def)
  moreover have "?t ! i = i"
    using i lt by (simp add: trailing_zeros_def takeWhile_nth)
  ultimately show "\<not> bit w i" using set_takeWhileD by metis
qed

lemma bit_clear_lowest:
  assumes "w \<noteq> (0 :: 'a::len word)"
  shows "bit (w AND (w - 1)) i \<longleftrightarrow> bit w i \<and> i \<noteq> trailing_zeros w"
proof -
  define t where "t = trailing_zeros w"
  note tz = trailing_zeros_least [OF assms, folded t_def]
  define h where "h = w AND NOT (2 ^ t)"
  have h: "bit h j \<longleftrightarrow> bit w j \<and> j \<noteq> t" for j
    using tz(3) by (auto simp: h_def bit_simps dest: bit_imp_le_length)
  have "h OR 2 ^ t = w"
    using tz(1,3) by (intro bit_word_eqI) (auto simp: bit_or_iff h bit_exp_iff)
  moreover have "h + 2 ^ t = h OR 2 ^ t"
    by (rule disjunctive_add_eq_or) (auto simp: bit_eq_iff bit_and_iff h bit_exp_iff)
  ultimately have "w - 1 = h + (2 ^ t - 1)" by (simp add: algebra_simps)
  also have "\<dots> = h + mask t" by (simp add: mask_eq_exp_minus_1)
  also have "\<dots> = h OR mask t"
    by (rule disjunctive_add_eq_or) (use tz(2) in \<open>auto simp: bit_eq_iff bit_and_iff h bit_mask_iff\<close>)
  finally have "w - 1 = h OR mask t" .
  then show ?thesis
    using tz(1,2) by (auto simp: bit_and_iff bit_or_iff h bit_mask_iff simp flip: t_def)
qed

lemma filter_upt_least:
  assumes "t < n" "P t" "\<And>i. i < t \<Longrightarrow> \<not> P i"
  shows "filter P [0..<n] = t # filter (\<lambda>i. P i \<and> i \<noteq> t) [0..<n]"
proof -
  have "[0..<n] = [0..<t] @ t # [Suc t..<n]"
    using assms(1) upt_add_eq_append [of 0 t "n - t"] by (simp add: upt_conv_Cons)
  moreover have "filter P [0..<t] = []" using assms(3) by (simp add: filter_empty_conv)
  moreover have "filter (\<lambda>i. P i \<and> i \<noteq> t) [0..<t] = []" using assms(3) by (simp add: filter_empty_conv)
  moreover have "filter (\<lambda>i. P i \<and> i \<noteq> t) [Suc t..<n] = filter P [Suc t..<n]"
    by (rule filter_cong) auto
  ultimately show ?thesis using assms(2) by simp
qed

lemma fresh_pages_filter:
  "fresh_pages start endp w = filter (\<lambda>q. q < endp) (map (\<lambda>i. start + i) (filter (bit w) [0..<64]))"
proof (induction start endp w rule: fresh_pages.induct)
  case (1 start endp w)
  show ?case
  proof (cases "w = 0")
    case True
    then show ?thesis by (simp add: fresh_pages.simps)
  next
    case False
    let ?t = "trailing_zeros w"
    have split: "filter (bit w) [0..<64] = ?t # filter (bit (w AND (w - 1))) [0..<64]"
      using filter_upt_least [of ?t 64 "bit w"] trailing_zeros_least [OF False]
      by (simp add: bit_clear_lowest [OF False, abs_def])
    have tail: "filter (\<lambda>q. q < endp) (map (\<lambda>i. start + i) (filter (bit (w AND (w - 1))) [0..<64])) = []"
      if "endp \<le> start + ?t"
    proof -
      have "?t \<le> i" if "bit w i" for i
        using trailing_zeros_least(2) [OF False] that by (meson not_less)
      with \<open>endp \<le> start + ?t\<close> show ?thesis
        by (force simp: filter_empty_conv bit_clear_lowest [OF False])
    qed
    show ?thesis
      using 1 [OF False refl] False tail
      by (subst fresh_pages.simps) (auto simp: split Let_def)
  qed
qed

lemma allocated_since_filter:
  assumes "length (ab_bits b) = 8192" "length (ab_bits base) = 8192"
  shows "allocated_since b base endp =
    filter (\<lambda>pid. allocates b pid \<and> \<not> allocates base pid) [0..<min endp 65536]"
proof -
  let ?e = "min endp 65536"
  let ?n = "div_ceil ?e 64"
  let ?P = "\<lambda>pid. allocates b pid \<and> \<not> allocates base pid"
  have n: "?n \<le> 1024" "?e \<le> ?n * 64"
    unfolding div_ceil_def by auto
  let ?z = "zip (whole_chunks 8 (ab_bits b)) (whole_chunks 8 (ab_bits base))"
  have "enumerate 0 (take ?n ?z) = map (\<lambda>k. (k, ?z ! k)) [0..<?n]"
    by (rule nth_equalityI)
      (use assms n(1) in \<open>auto simp: length_whole_chunks nth_enumerate_eq\<close>)
  then have "allocated_since b base endp = concat (map (\<lambda>k. fresh_pages (k * 64) ?e
      (from_le (whole_chunks 8 (ab_bits b) ! k) AND NOT (from_le (whole_chunks 8 (ab_bits base) ! k)))) [0..<?n])"
    using assms n(1) by (auto simp: allocated_since_def Let_def comp_def length_whole_chunks
        intro!: arg_cong [where f = concat])
  also have "\<dots> = concat (map (\<lambda>k. filter (\<lambda>q. q < ?e)
      (map (\<lambda>i. k * 64 + i) (filter (\<lambda>i. ?P (k * 64 + i)) [0..<64]))) [0..<?n])"
  proof (intro arg_cong [where f = concat] map_cong refl)
    fix k assume "k \<in> set [0..<?n]"
    then have k: "k < 1024" using n(1) by simp
    have "filter (bit (from_le (whole_chunks 8 (ab_bits b) ! k) AND
        NOT (from_le (whole_chunks 8 (ab_bits base) ! k)) :: u64)) [0..<64]
      = filter (\<lambda>i. ?P (k * 64 + i)) [0..<64]"
      by (rule filter_cong)
        (use assms k in \<open>auto simp: bit_and_iff bit_not_iff word_allocates\<close>)
    then show "fresh_pages (k * 64) ?e
        (from_le (whole_chunks 8 (ab_bits b) ! k) AND NOT (from_le (whole_chunks 8 (ab_bits base) ! k)))
      = filter (\<lambda>q. q < ?e) (map (\<lambda>i. k * 64 + i) (filter (\<lambda>i. ?P (k * 64 + i)) [0..<64]))"
      by (simp only: fresh_pages_filter)
  qed
  also have "\<dots> = filter (\<lambda>q. q < ?e) (filter ?P [0..<?n * 64])"
    by (simp only: filter_words [symmetric] filter_concat map_map comp_def)
  also have "\<dots> = filter ?P [0..<?e]"
  proof -
    have "[0..<?n * 64] = [0..<?e] @ [?e..<?n * 64]"
      using n(2) upt_add_eq_append [of 0 ?e "?n * 64 - ?e"] by simp
    moreover have "filter (\<lambda>q. q < ?e) (filter ?P [0..<?e]) = filter ?P [0..<?e]"
      by (simp only: filter_filter, rule filter_cong) auto
    moreover have "filter (\<lambda>q. q < ?e) (filter ?P [?e..<?n * 64]) = []"
      by (simp only: filter_empty_conv) auto
    ultimately show ?thesis by (simp only: filter_append append_Nil2)
  qed
  finally show ?thesis .
qed

lemma find_append_None: "find P xs = None \<Longrightarrow> find P (xs @ ys) = find P ys"
  by (induction xs) (auto split: if_splits)

lemma find_upt_skip:
  assumes "a \<le> b" "\<And>i. a \<le> i \<Longrightarrow> i < b \<Longrightarrow> \<not> P i"
  shows "find P [a..<e] = find P [b..<e]"
proof (cases "b \<le> e")
  case True
  then have "[a..<e] = [a..<b] @ [b..<e]"
    using assms(1) upt_add_eq_append [of a b "e - b"] by simp
  moreover have "find P [a..<b] = None"
    using assms(2) by (simp add: find_None_iff)
  ultimately show ?thesis by (simp add: find_append_None)
next
  case False
  then have "find P [a..<e] = None"
    using assms(2) by (simp add: find_None_iff)
  with False show ?thesis by simp
qed

lemma find_upt_hit:
  assumes "a \<le> x" "P x" "\<And>i. a \<le> i \<Longrightarrow> i < x \<Longrightarrow> \<not> P i"
  shows "find P [a..<e] = (if x < e then Some x else None)"
  using find_upt_skip [of a x P e] assms by (simp add: upt_rec)

lemma first_free_from_find:
  assumes "length (ab_bits b) = 8192" "length (ab_bits other) = 8192" "endp \<le> 65536"
  shows "first_free_from (whole_chunks 8 (ab_bits b)) (whole_chunks 8 (ab_bits other)) endp pid =
    Inr (find (\<lambda>q. \<not> allocates b q \<and> \<not> allocates other q) [pid..<endp])"
  using assms(3)
proof (induction "whole_chunks 8 (ab_bits b)" "whole_chunks 8 (ab_bits other)" endp pid
    rule: first_free_from.induct)
  case (1 endp pid)
  let ?P = "\<lambda>q. \<not> allocates b q \<and> \<not> allocates other q"
  let ?w = "pid div 64"
  show ?case
  proof (cases "pid < endp")
    case True
    then have w: "?w < 1024" using 1(2) by auto
    define taken :: u64 where "taken = from_le (whole_chunks 8 (ab_bits b) ! ?w)
      OR from_le (whole_chunks 8 (ab_bits other) ! ?w) OR (push_bit (pid mod 64) 1 - 1)"
    have mask: "push_bit (pid mod 64) 1 - 1 = (mask (pid mod 64) :: u64)"
      by (simp add: mask_eq_exp_minus_1)
    have free: "bit (NOT taken) i \<longleftrightarrow> ?P (?w * 64 + i) \<and> pid \<le> ?w * 64 + i" if "i < 64" for i
    proof -
      have "pid \<le> ?w * 64 + i \<longleftrightarrow> pid mod 64 \<le> i"
        using div_mult_mod_eq [of pid 64] by linarith
      with that show ?thesis
        using assms(1,2) w unfolding taken_def mask
        by (auto simp: bit_simps word_allocates)
    qed
    have unfold: "first_free_from (whole_chunks 8 (ab_bits b)) (whole_chunks 8 (ab_bits other)) endp pid =
      (if taken \<noteq> - 1
       then Inr (if ?w * 64 + trailing_zeros (NOT taken) < endp
                 then Some (?w * 64 + trailing_zeros (NOT taken)) else None)
       else first_free_from (whole_chunks 8 (ab_bits b)) (whole_chunks 8 (ab_bits other)) endp
              ((?w + 1) * 64))"
      using True w assms(1,2)
      by (subst first_free_from.simps) (simp add: length_whole_chunks Let_def taken_def)
    show ?thesis
    proof (cases "taken = - 1")
      case False
      then have nz: "NOT taken \<noteq> 0" by (metis bit.double_compl bit.compl_zero)
      note tz = trailing_zeros_least [OF nz]
      have hit: "?P (?w * 64 + trailing_zeros (NOT taken))" "pid \<le> ?w * 64 + trailing_zeros (NOT taken)"
        using free [of "trailing_zeros (NOT taken)"] tz by auto
      have before: "\<not> ?P i" if "pid \<le> i" "i < ?w * 64 + trailing_zeros (NOT taken)" for i
      proof -
        have "?w * 64 \<le> i" using that(1) by (meson div_times_less_eq_dividend le_trans)
        then obtain j where j: "i = ?w * 64 + j" using le_Suc_ex by blast
        with that tz(2) [of j] tz(3) free [of j] show ?thesis by auto
      qed
      from find_upt_hit [of pid "?w * 64 + trailing_zeros (NOT taken)" ?P, OF hit(2) hit(1) before]
      show ?thesis using False unfold by simp
    next
      case full: True
      have next_le: "pid \<le> (?w + 1) * 64" by presburger
      have none: "\<not> ?P i" if "pid \<le> i" "i < (?w + 1) * 64" for i
      proof -
        have "?w * 64 \<le> i" using that(1) by (meson div_times_less_eq_dividend le_trans)
        then obtain j where j: "i = ?w * 64 + j" using le_Suc_ex by blast
        with that free [of j] full show ?thesis by auto
      qed
      have "first_free_from (whole_chunks 8 (ab_bits b)) (whole_chunks 8 (ab_bits other)) endp
          ((?w + 1) * 64) = Inr (find ?P [(?w + 1) * 64..<endp])"
        using 1(1) [OF True refl] 1(2) full w assms(1,2) by (simp add: length_whole_chunks taken_def)
      with full unfold find_upt_skip [of pid "(?w + 1) * 64" ?P endp, OF next_le none]
      show ?thesis by simp
    qed
  next
    case False
    then show ?thesis by (subst first_free_from.simps) simp
  qed
qed

lemma first_free_find:
  assumes "length (ab_bits b) = 8192" "length (ab_bits other) = 8192"
  shows "first_free b other start endp =
    Inr (find (\<lambda>q. \<not> allocates b q \<and> \<not> allocates other q) [start..<min endp 65536])"
  using assms by (simp add: first_free_def first_free_from_find)

section \<open>Bitmaps read from their bits\<close>

lemma count_ones_words:
  assumes "length (ab_bits b) = 8192"
  shows "sum_list (map (\<lambda>word. count_ones (from_le word :: u64)) (whole_chunks 8 (ab_bits b))) =
    card (allocated_set b)"
proof -
  let ?ws = "whole_chunks 8 (ab_bits b)"
  have len: "length ?ws = 1024" using assms by (simp add: length_whole_chunks)
  have "map (\<lambda>word. count_ones (from_le word :: u64)) ?ws =
      map (\<lambda>k. length (map (\<lambda>i. k * 64 + i) (filter (\<lambda>i. allocates b (k * 64 + i)) [0..<64]))) [0..<1024]"
  proof (rule nth_equalityI)
    fix k assume "k < length (map (\<lambda>word. count_ones (from_le word :: u64)) ?ws)"
    then have k: "k < 1024" using len by simp
    have "filter (bit (from_le (?ws ! k) :: u64)) [0..<64] = filter (\<lambda>i. allocates b (k * 64 + i)) [0..<64]"
      by (rule filter_cong) (use assms k in \<open>auto simp: word_allocates\<close>)
    with k len show "map (\<lambda>word. count_ones (from_le word :: u64)) ?ws ! k =
        map (\<lambda>k. length (map (\<lambda>i. k * 64 + i) (filter (\<lambda>i. allocates b (k * 64 + i)) [0..<64]))) [0..<1024] ! k"
      by (simp add: count_ones_def)
  qed (simp add: len)
  then have "sum_list (map (\<lambda>word. count_ones (from_le word :: u64)) ?ws) =
      length (filter (allocates b) [0..<1024 * 64])"
    unfolding filter_words [of "allocates b" 1024, symmetric] length_concat by (simp only: map_map comp_def)
  also have "\<dots> = card (set (filter (allocates b) [0..<1024 * 64]))"
    by (simp add: distinct_card [symmetric])
  also have "set (filter (allocates b) [0..<1024 * 64]) = allocated_set b"
    by (auto simp: allocated_set_def allocates_def)
  finally show ?thesis .
qed

lemma validate_metadata_pages_ok:
  "validate_metadata_pages b = (if list_all (allocates b) [0..<6] then Inr () else Inl INVALID_PAGE)"
  by (auto simp: validate_metadata_pages_def is_allocated_def validate_page_id_def upt_rec)

lemma from_bits_spec:
  "from_bits bits =
     (let b = \<lparr>ab_bits = bits, ab_allocated = card (allocated_set \<lparr>ab_bits = bits, ab_allocated = 0\<rparr>)\<rparr>
      in if length bits = 8192 \<and> list_all (allocates b) [0..<6] then Inr b else Inl INVALID_PAGE)"
proof (cases "length bits = 8192")
  case True
  have same: "allocated_set \<lparr>ab_bits = bits, ab_allocated = n\<rparr> = allocated_set \<lparr>ab_bits = bits, ab_allocated = 0\<rparr>"
    for n by (simp add: allocated_set_def allocates_def)
  have rest: "chunk_rest 8 bits = []" using True by (simp add: chunk_rest_def)
  show ?thesis
    using True count_ones_words [of "\<lparr>ab_bits = bits, ab_allocated = 0\<rparr>"]
    by (simp add: from_bits_def rest validate_metadata_pages_ok Let_def)
qed (simp add: from_bits_def)

lemma from_bits_ok: "from_bits bits = Inr b \<Longrightarrow> bitmap_ok b \<and> ab_bits b = bits"
  by (auto simp: from_bits_spec bitmap_ok_def Let_def allocated_set_def allocates_def split: if_splits)

lemma from_bits_round: "bitmap_ok b \<Longrightarrow> from_bits (ab_bits b) = Inr b"
proof -
  assume ok: "bitmap_ok b"
  have pages: "allocated_set \<lparr>ab_bits = ab_bits b, ab_allocated = 0\<rparr> = allocated_set b"
    by (simp add: allocated_set_def allocates_def)
  have self: "\<lparr>ab_bits = ab_bits b, ab_allocated = card (allocated_set b)\<rparr> = b"
    using ok by (simp add: bitmap_ok_def)
  show ?thesis
    unfolding from_bits_spec Let_def pages self using ok by (simp add: bitmap_ok_def)
qed

end
