(* ===== verification/Metadata.thy ===== *)
theory Metadata
  imports Bitmap
begin

text \<open>
  The metadata roots of \<^verbatim>\<open>page.rs\<close> and the revision bound of \<^verbatim>\<open>revision.rs\<close>: the two superblocks, each
  with the start of its allocation bitmap and the chunks that hold the rest, their encoding, the
  choice among them on recovery, and the root a commit builds after the active one.

  The fixed array of two chunk entries is a list; every root the code can reach has two.
\<close>

section \<open>Revisions\<close>

definition MAX_DATABASE_REVISION :: u64 where "MAX_DATABASE_REVISION = 9007199254740991"

definition validate_database_revision :: "u64 \<Rightarrow> u64 res" where
  "validate_database_revision revision =
     (if revision \<le> MAX_DATABASE_REVISION then Inr revision else Inl REVISION_OVERFLOW)"

definition next_database_revision :: "u64 \<Rightarrow> u64 res" where
  "next_database_revision revision =
     and_then (ok_or REVISION_OVERFLOW (checked_add revision 1)) validate_database_revision"

text \<open>\<^verbatim>\<open>hash.rs\<close>: the fingerprint of an empty collection.\<close>

definition EMPTY_HASH :: u64 where "EMPTY_HASH = 0"

section \<open>Superblocks\<close>

datatype superblock_slot = Slot_A | Slot_B

fun slot_byte :: "superblock_slot \<Rightarrow> u8" where
  "slot_byte Slot_A = 0"
| "slot_byte Slot_B = 1"

fun slot_page_id :: "superblock_slot \<Rightarrow> nat" where
  "slot_page_id Slot_A = 0"
| "slot_page_id Slot_B = 1"

fun slot_inactive :: "superblock_slot \<Rightarrow> superblock_slot" where
  "slot_inactive Slot_A = Slot_B"
| "slot_inactive Slot_B = Slot_A"

fun slot_bitmap_slot :: "superblock_slot \<Rightarrow> bitmap_slot" where
  "slot_bitmap_slot Slot_A = Bitmap_A"
| "slot_bitmap_slot Slot_B = Bitmap_B"

definition slot_try_from :: "u8 \<Rightarrow> superblock_slot res" where
  "slot_try_from b =
     (if b = 0 then Inr Slot_A else if b = 1 then Inr Slot_B else Inl INVALID_PAGE)"

record bitmap_chunk =
  bc_slot :: bitmap_slot
  bc_generation :: u64
  bc_checksum :: u32

record superblock =
  sb_slot :: superblock_slot
  sb_generation :: u64
  sb_database_revision :: u64
  sb_database_hash :: u64
  sb_catalog_root_page_id :: "nat option"
  sb_live_data_page_count :: nat
  sb_max_page_count :: nat
  sb_commit_hash :: u64
  sb_bitmap_chunks :: "bitmap_chunk list"

text \<open>\<^verbatim>\<open>TGRSUPR\0\<close>\<close>

definition SUPERBLOCK_MAGIC :: bytes where
  "SUPERBLOCK_MAGIC = [0x54, 0x47, 0x52, 0x53, 0x55, 0x50, 0x52, 0]"

definition SUPERBLOCK_FORMAT_VERSION :: u16 where "SUPERBLOCK_FORMAT_VERSION = 3"
definition SUPERBLOCK_FLAGS :: u16 where "SUPERBLOCK_FLAGS = 0"
definition BITMAP_CHUNK_ENTRIES_OFFSET :: nat where "BITMAP_CHUNK_ENTRIES_OFFSET = 72"
definition BITMAP_CHUNK_ENTRY_SIZE :: nat where "BITMAP_CHUNK_ENTRY_SIZE = 16"

lemmas superblock_consts [simp] = BITMAP_CHUNK_ENTRIES_OFFSET_def BITMAP_CHUNK_ENTRY_SIZE_def

definition superblock_validate :: "superblock \<Rightarrow> unit res" where
  "superblock_validate s =
     and_then (map_err (\<lambda>_. UNSUPPORTED_PAGE) (validate_database_revision (sb_database_revision s))) (\<lambda>_.
     if sb_generation s = 0 then Inl INVALID_PAGE
     else if list_ex (\<lambda>chunk. bc_generation chunk = 0 \<or> sb_generation s < bc_generation chunk)
               (sb_bitmap_chunks s) then Inl INVALID_PAGE
     else if sb_max_page_count s \<noteq> MAX_PAGE_COUNT then Inl UNSUPPORTED_PAGE
     else and_then
       (case sb_catalog_root_page_id s of
          Some root \<Rightarrow> and_then (validate_page_id root) (\<lambda>_.
            if root < FIRST_DATA_PAGE_ID then Inl INVALID_PAGE else Inr ())
        | None \<Rightarrow> Inr ()) (\<lambda>_.
     if MAX_PAGE_COUNT - FIRST_DATA_PAGE_ID < sb_live_data_page_count s then Inl INVALID_PAGE
     else Inr ()))"

definition validate_bitmap :: "superblock \<Rightarrow> allocation_bitmap \<Rightarrow> unit res" where
  "validate_bitmap s bitmap =
     (if allocated_page_count bitmap < FIRST_DATA_PAGE_ID then Inl INVALID_PAGE
      else if allocated_page_count bitmap - FIRST_DATA_PAGE_ID \<noteq> sb_live_data_page_count s
      then Inl INVALID_PAGE
      else and_then (validate_metadata_pages bitmap) (\<lambda>_.
        case sb_catalog_root_page_id s of
          Some root \<Rightarrow> and_then (is_allocated bitmap root) (\<lambda>allocated.
            if \<not> allocated then Inl INVALID_PAGE else Inr ())
        | None \<Rightarrow> Inr ()))"

text \<open>One entry of the loop that writes the chunk entries, and the superblock's fields.\<close>

definition put_chunk_entry :: "nat \<times> bitmap_chunk \<Rightarrow> bytes \<Rightarrow> bytes" where
  "put_chunk_entry = (\<lambda>(chunk, entry) bs.
     let at = BITMAP_CHUNK_ENTRIES_OFFSET + chunk * BITMAP_CHUNK_ENTRY_SIZE;
         bs = put_payload bs at (le_bytes 8 (bc_generation entry));
         bs = put_payload bs (at + 8) (le_bytes 4 (bc_checksum entry))
     in put_payload bs (at + 12) [bitmap_slot_byte (bc_slot entry)])"

definition encode_superblock_page :: "superblock \<Rightarrow> allocation_bitmap \<Rightarrow> bytes res" where
  "encode_superblock_page s bitmap =
     and_then (superblock_validate s) (\<lambda>_.
     and_then (validate_bitmap s bitmap) (\<lambda>_.
       let bs = write_page_header (replicate PAGE_SIZE 0) (slot_page_id (sb_slot s)) Superblock_page
                  MAX_PAGE_PAYLOAD_SIZE;
           bs = put_payload bs 0 SUPERBLOCK_MAGIC;
           bs = put_payload bs 8 (le_bytes 2 SUPERBLOCK_FORMAT_VERSION);
           bs = put_payload bs 10 (le_bytes 2 SUPERBLOCK_FLAGS);
           bs = put_payload bs 12 (le_bytes 4 (of_nat PAGE_SIZE :: u32));
           bs = put_payload bs 16 (le_bytes 8 (of_nat (sb_max_page_count s) :: u64));
           bs = put_payload bs 24 (le_bytes 8 (sb_generation s));
           bs = put_payload bs 32 (le_bytes 8 (sb_database_revision s));
           bs = put_payload bs 40 (le_bytes 8 (sb_database_hash s));
           bs = put_payload bs 48 (le_bytes 8
                  (case sb_catalog_root_page_id s of Some root \<Rightarrow> of_nat root | None \<Rightarrow> (- 1 :: u64)));
           bs = put_payload bs 56 (le_bytes 4 (of_nat (sb_live_data_page_count s) :: u32));
           bs = put_payload bs 60 (le_bytes 2 (of_nat BITMAP_CHUNK_COUNT :: u16));
           bs = put_payload bs 62 [slot_byte (sb_slot s)];
           bs = put_payload bs 64 (le_bytes 8 (sb_commit_hash s));
           bs = fold put_chunk_entry (enumerate 0 (sb_bitmap_chunks s)) bs;
           bs = put_payload bs SUPERBLOCK_FIELDS_SIZE (superblock_bits bitmap)
       in Inr (seal bs)))"

definition decode_chunk_entry :: "bytes \<Rightarrow> bitmap_chunk res" where
  "decode_chunk_entry entry =
     and_then (bitmap_slot_try_from (entry ! 12)) (\<lambda>slot.
       Inr \<lparr>bc_slot = slot, bc_generation = read_u64 entry 0, bc_checksum = read_u32 entry 8\<rparr>)"

definition decode_superblock_page :: "bytes \<Rightarrow> (superblock \<times> bytes) res" where
  "decode_superblock_page bs =
     and_then (page_verify bs) (\<lambda>_.
     and_then (decode_verified bs) (\<lambda>page.
     if SUPERBLOCK_PAGE_COUNT \<le> pg_id page then Inl INVALID_PAGE
     else if pg_type page \<noteq> Superblock_page then Inl INVALID_PAGE
     else let payload = pg_payload page
     in if length payload < 12 \<or> take 8 payload \<noteq> SUPERBLOCK_MAGIC then Inl INVALID_PAGE
     else if read_u16 payload 8 \<noteq> SUPERBLOCK_FORMAT_VERSION then Inl UNSUPPORTED_PAGE
     else if read_u16 payload 10 \<noteq> SUPERBLOCK_FLAGS then Inl UNSUPPORTED_PAGE
     else if length payload \<noteq> MAX_PAGE_PAYLOAD_SIZE then Inl INVALID_PAGE
     else if unat (read_u32 payload 12) \<noteq> PAGE_SIZE then Inl UNSUPPORTED_PAGE
     else let max_page_count = unat (read_u64 payload 16)
     in if max_page_count \<noteq> MAX_PAGE_COUNT then Inl UNSUPPORTED_PAGE
     else if unat (read_u16 payload 60) \<noteq> BITMAP_CHUNK_COUNT then Inl UNSUPPORTED_PAGE
     else let fields = slice payload BITMAP_CHUNK_ENTRIES_OFFSET
                         (SUPERBLOCK_FIELDS_SIZE - BITMAP_CHUNK_ENTRIES_OFFSET);
              entries = take (BITMAP_CHUNK_COUNT * BITMAP_CHUNK_ENTRY_SIZE) fields;
              reserved = drop (BITMAP_CHUNK_COUNT * BITMAP_CHUNK_ENTRY_SIZE) fields;
              entries = whole_chunks BITMAP_CHUNK_ENTRY_SIZE entries
     in if payload ! 63 \<noteq> 0 \<or> list_ex (\<lambda>b. b \<noteq> 0) reserved
           \<or> list_ex (\<lambda>entry. list_ex (\<lambda>b. b \<noteq> 0) (drop 13 entry)) entries
     then Inl INVALID_PAGE
     else and_then (slot_try_from (payload ! 62)) (\<lambda>slot.
     if pg_id page \<noteq> slot_page_id slot then Inl INVALID_PAGE
     else and_then (map_res decode_chunk_entry entries) (\<lambda>bitmap_chunks.
     let root = read_u64 payload 48;
         catalog_root_page_id = (if root = - 1 then None else Some (unat root));
         superblock = \<lparr>sb_slot = slot, sb_generation = read_u64 payload 24,
           sb_database_revision = read_u64 payload 32, sb_database_hash = read_u64 payload 40,
           sb_catalog_root_page_id = catalog_root_page_id,
           sb_live_data_page_count = unat (read_u32 payload 56),
           sb_max_page_count = max_page_count, sb_commit_hash = read_u64 payload 64,
           sb_bitmap_chunks = bitmap_chunks\<rparr>
     in and_then (superblock_validate superblock) (\<lambda>_.
       Inr (superblock, drop SUPERBLOCK_FIELDS_SIZE payload))))))"

definition decode_bitmap_chunk :: "bytes \<Rightarrow> nat \<Rightarrow> bitmap_chunk \<Rightarrow> bytes res" where
  "decode_bitmap_chunk bs chunk entry =
     and_then (page_verify bs) (\<lambda>_.
     if read_u32 bs PAGE_CHECKSUM_OFFSET \<noteq> bc_checksum entry then Inl INVALID_PAGE
     else and_then (decode_verified bs) (\<lambda>page.
     if pg_id page \<noteq> bitmap_slot_page_id (bc_slot entry) chunk then Inl INVALID_PAGE
     else if pg_type page \<noteq> AllocationBitmap_page then Inl INVALID_PAGE
     else let payload = pg_payload page
     in if length payload < BITMAP_CHUNK_HEADER_SIZE then Inl INVALID_PAGE
     else if read_u64 payload 0 \<noteq> bc_generation entry then Inl INVALID_PAGE
     else and_then (bitmap_slot_try_from (payload ! 8)) (\<lambda>slot.
     if slot \<noteq> bc_slot entry then Inl INVALID_PAGE
     else if unat (payload ! 9) \<noteq> chunk \<or> unat (payload ! 10) \<noteq> BITMAP_CHUNK_COUNT
     then Inl INVALID_PAGE
     else if payload ! 11 \<noteq> 0 \<or> list_ex (\<lambda>b. b \<noteq> 0) (slice payload 14 2) then Inl INVALID_PAGE
     else let (start, stop) = bitmap_chunk_range chunk; len = stop - start
     in if unat (read_u16 payload 12) \<noteq> len \<or> length payload \<noteq> BITMAP_CHUNK_HEADER_SIZE + len
     then Inl INVALID_PAGE
     else Inr (drop BITMAP_CHUNK_HEADER_SIZE payload))))"

section \<open>Roots\<close>

record recovered_metadata =
  rm_superblock :: superblock
  rm_allocation_bitmap :: allocation_bitmap

definition recovered_metadata_empty :: "superblock_slot \<Rightarrow> recovered_metadata" where
  "recovered_metadata_empty slot =
     \<lparr>rm_superblock =
        \<lparr>sb_slot = slot, sb_generation = 1, sb_database_revision = 0, sb_database_hash = EMPTY_HASH,
         sb_catalog_root_page_id = None, sb_live_data_page_count = 0,
         sb_max_page_count = MAX_PAGE_COUNT, sb_commit_hash = commit_hash_new,
         sb_bitmap_chunks = replicate BITMAP_CHUNK_COUNT
           \<lparr>bc_slot = slot_bitmap_slot slot, bc_generation = 1, bc_checksum = 0\<rparr>\<rparr>,
      rm_allocation_bitmap = allocation_bitmap_new\<rparr>"

text \<open>\<^verbatim>\<open>encode_pages\<close> records each chunk's checksum in the root, which it returns with the pages.\<close>

definition encode_pages ::
  "recovered_metadata \<Rightarrow> (recovered_metadata \<times> (nat \<times> bytes) list) res" where
  "encode_pages r =
     (let bitmap = rm_allocation_bitmap r;
          encoded = map (\<lambda>(chunk, entry).
              let bs = encode_chunk bitmap chunk (bc_slot entry) (bc_generation entry)
              in (entry\<lparr>bc_checksum := page_checksum bs\<rparr>, bitmap_slot_page_id (bc_slot entry) chunk, bs))
            (enumerate 0 (sb_bitmap_chunks (rm_superblock r)));
          superblock = (rm_superblock r)\<lparr>sb_bitmap_chunks := map fst encoded\<rparr>
      in and_then (encode_superblock_page superblock bitmap) (\<lambda>bs.
           Inr (r\<lparr>rm_superblock := superblock\<rparr>,
                map snd encoded @ [(slot_page_id (sb_slot superblock), bs)])))"

definition logically_matches :: "recovered_metadata \<Rightarrow> recovered_metadata \<Rightarrow> bool" where
  "logically_matches a b \<longleftrightarrow>
     (let this = rm_superblock a; that = rm_superblock b
      in sb_generation this = sb_generation that
         \<and> sb_database_revision this = sb_database_revision that
         \<and> sb_database_hash this = sb_database_hash that
         \<and> sb_catalog_root_page_id this = sb_catalog_root_page_id that
         \<and> sb_live_data_page_count this = sb_live_data_page_count that
         \<and> sb_max_page_count this = sb_max_page_count that
         \<and> sb_commit_hash this = sb_commit_hash that
         \<and> rm_allocation_bitmap a = rm_allocation_bitmap b)"

record pending_metadata =
  pm_superblock :: superblock
  pm_allocation_bitmap :: allocation_bitmap
  pm_bitmap_pages :: "bytes option list"

definition decode_metadata_candidate :: "superblock_slot \<Rightarrow> bytes list \<Rightarrow> recovered_metadata res" where
  "decode_metadata_candidate slot pages =
     and_then (decode_superblock_page (pages ! slot_page_id slot)) (\<lambda>(superblock, superblock_bits).
     if sb_slot superblock \<noteq> slot then Inl INVALID_PAGE
     else and_then (map_res (\<lambda>(chunk, entry).
            decode_bitmap_chunk (pages ! bitmap_slot_page_id (bc_slot entry) chunk) chunk entry)
          (enumerate 0 (sb_bitmap_chunks superblock))) (\<lambda>chunks.
     and_then (from_bits (superblock_bits @ concat chunks)) (\<lambda>allocation_bitmap.
     and_then (validate_bitmap superblock allocation_bitmap) (\<lambda>_.
       Inr \<lparr>rm_superblock = superblock, rm_allocation_bitmap = allocation_bitmap\<rparr>))))"

definition recover_metadata ::
  "bytes list \<Rightarrow> (recovered_metadata \<times> recovered_metadata option) res" where
  "recover_metadata pages =
     (let candidate_a = decode_metadata_candidate Slot_A pages;
          candidate_b = decode_metadata_candidate Slot_B pages
      in if candidate_a = Inl UNSUPPORTED_PAGE \<or> candidate_b = Inl UNSUPPORTED_PAGE
         then Inl UNSUPPORTED_PAGE
         else case (candidate_a, candidate_b) of
           (Inr a, Inr b) \<Rightarrow>
             if sb_generation (rm_superblock a) = sb_generation (rm_superblock b) then
               (if \<not> logically_matches a b then Inl INVALID_PAGE else Inr (a, None))
             else
               let (newest, older) =
                     (if sb_generation (rm_superblock b) < sb_generation (rm_superblock a)
                      then (a, b) else (b, a));
                   previous =
                     (if checked_add (sb_generation (rm_superblock older)) 1
                         = Some (sb_generation (rm_superblock newest))
                      then Some older else None)
               in Inr (newest, previous)
         | (Inr a, Inl _) \<Rightarrow> Inr (a, None)
         | (Inl _, Inr b) \<Rightarrow> Inr (b, None)
         | (Inl _, Inl _) \<Rightarrow> Inl INVALID_PAGE)"

text \<open>One chunk of the loop of \<^verbatim>\<open>build_next_metadata\<close>: its entry, and its page if it changed.\<close>

definition next_chunk ::
  "allocation_bitmap \<Rightarrow> allocation_bitmap \<Rightarrow> u64 \<Rightarrow> nat \<times> bitmap_chunk \<Rightarrow> bitmap_chunk \<times> bytes option" where
  "next_chunk active bitmap generation = (\<lambda>(chunk, entry).
     if chunk_bits bitmap chunk \<noteq> chunk_bits active chunk
     then let slot = bitmap_slot_inactive (bc_slot entry);
              bs = encode_chunk bitmap chunk slot generation
          in (\<lparr>bc_slot = slot, bc_generation = generation, bc_checksum = page_checksum bs\<rparr>, Some bs)
     else (entry, None))"

definition build_next_metadata ::
  "recovered_metadata \<Rightarrow> u64 \<Rightarrow> u64 \<Rightarrow> nat option \<Rightarrow> allocation_bitmap \<Rightarrow> pending_metadata res" where
  "build_next_metadata active database_revision database_hash catalog_root_page_id bitmap =
     (let sb = rm_superblock active in
     and_then (validate_database_revision database_revision) (\<lambda>_.
     and_then (validate_bitmap sb (rm_allocation_bitmap active)) (\<lambda>_.
     and_then (ok_or PAGE_GENERATION_EXHAUSTED (checked_add (sb_generation sb) 1)) (\<lambda>generation.
     if database_revision < sb_database_revision sb then Inl INVALID_PAGE
     else if allocated_page_count bitmap < FIRST_DATA_PAGE_ID then Inl INVALID_PAGE
     else let chunks = map (next_chunk (rm_allocation_bitmap active) bitmap generation)
                         (enumerate 0 (sb_bitmap_chunks sb));
              superblock =
                \<lparr>sb_slot = slot_inactive (sb_slot sb), sb_generation = generation,
                 sb_database_revision = database_revision, sb_database_hash = database_hash,
                 sb_catalog_root_page_id = catalog_root_page_id,
                 sb_live_data_page_count = allocated_page_count bitmap - FIRST_DATA_PAGE_ID,
                 sb_max_page_count = MAX_PAGE_COUNT, sb_commit_hash = commit_hash_new,
                 sb_bitmap_chunks = map fst chunks\<rparr>
     in and_then (superblock_validate superblock) (\<lambda>_.
        and_then (validate_bitmap superblock bitmap) (\<lambda>_.
          Inr \<lparr>pm_superblock = superblock, pm_allocation_bitmap = bitmap,
               pm_bitmap_pages = map snd chunks\<rparr>))))))"

section \<open>Round trips\<close>

lemma length_SUPERBLOCK_MAGIC [simp, byte_simps]: "length SUPERBLOCK_MAGIC = 8"
  by (simp add: SUPERBLOCK_MAGIC_def)

lemma slot_round [simp]:
  "slot_try_from (slot_byte slot) = Inr slot"
  "bitmap_slot_try_from (bitmap_slot_byte bslot) = Inr bslot"
  by (cases slot; simp add: slot_try_from_def) (cases bslot; simp add: bitmap_slot_try_from_def)

text \<open>Reading a field of the payload of a page is reading the page past its header.\<close>

lemma payload_reads:
  "k + 2 \<le> n \<Longrightarrow> read_u16 (slice bs 32 n) k = read_u16 bs (32 + k)"
  "k + 4 \<le> n \<Longrightarrow> read_u32 (slice bs 32 n) k = read_u32 bs (32 + k)"
  "k + 8 \<le> n \<Longrightarrow> read_u64 (slice bs 32 n) k = read_u64 bs (32 + k)"
  by (simp_all add: reads_def slice_slice)

lemma payload_nth: "length bs = 4096 \<Longrightarrow> n \<le> 4064 \<Longrightarrow> k < n \<Longrightarrow> slice bs 32 n ! k = bs ! (32 + k)"
  by (simp add: nth_slice)

lemma nth_put_1:
  "off < length bs \<Longrightarrow> i < length bs \<Longrightarrow> put bs off [x] ! i = (if i = off then x else bs ! i)"
  by (simp add: nth_put)

lemma length_superblock_bits [simp]:
  "length (ab_bits b) = 8192 \<Longrightarrow> length (superblock_bits b) = 3936"
  by (simp add: superblock_bits_def)

lemma superblock_validate_ok:
  "superblock_validate s = Inr () \<longleftrightarrow>
     sb_database_revision s \<le> MAX_DATABASE_REVISION \<and> sb_generation s \<noteq> 0 \<and>
     (\<forall>c \<in> set (sb_bitmap_chunks s). bc_generation c \<noteq> 0 \<and> bc_generation c \<le> sb_generation s) \<and>
     sb_max_page_count s = 65536 \<and>
     (\<forall>root. sb_catalog_root_page_id s = Some root \<longrightarrow> 6 \<le> root \<and> root < 65536) \<and>
     sb_live_data_page_count s \<le> 65530"
  by (auto simp: superblock_validate_def validate_database_revision_def validate_page_id_def
      and_then_eq_Inr list_ex_iff split: if_splits option.splits) (meson leD)+

lemma validate_bitmap_ok:
  "validate_bitmap s b = Inr () \<longleftrightarrow>
     allocated_page_count b = sb_live_data_page_count s + 6 \<and> list_all (allocates b) [0..<6] \<and>
     (\<forall>root. sb_catalog_root_page_id s = Some root \<longrightarrow> allocates b root)"
  by (auto simp: validate_bitmap_def validate_metadata_pages_ok is_allocated_def validate_page_id_def
      allocates_def and_then_eq_Inr split: if_splits option.splits)

definition superblock_writes :: "superblock \<Rightarrow> bitmap_chunk \<Rightarrow> bitmap_chunk \<Rightarrow> bytes \<Rightarrow> (nat \<times> bytes) list" where
  "superblock_writes s c0 c1 bits =
     [(32, SUPERBLOCK_MAGIC),
      (40, le_bytes 2 SUPERBLOCK_FORMAT_VERSION),
      (42, le_bytes 2 SUPERBLOCK_FLAGS),
      (44, le_bytes 4 (4096 :: u32)),
      (48, le_bytes 8 (of_nat (sb_max_page_count s) :: u64)),
      (56, le_bytes 8 (sb_generation s)),
      (64, le_bytes 8 (sb_database_revision s)),
      (72, le_bytes 8 (sb_database_hash s)),
      (80, le_bytes 8
         (case sb_catalog_root_page_id s of Some root \<Rightarrow> of_nat root | None \<Rightarrow> (- 1 :: u64))),
      (88, le_bytes 4 (of_nat (sb_live_data_page_count s) :: u32)),
      (92, le_bytes 2 (2 :: u16)),
      (94, [slot_byte (sb_slot s)]),
      (96, le_bytes 8 (sb_commit_hash s)),
      (104, le_bytes 8 (bc_generation c0)),
      (112, le_bytes 4 (bc_checksum c0)),
      (116, [bitmap_slot_byte (bc_slot c0)]),
      (120, le_bytes 8 (bc_generation c1)),
      (128, le_bytes 4 (bc_checksum c1)),
      (132, [bitmap_slot_byte (bc_slot c1)]),
      (160, bits)]"

definition superblock_image :: "superblock \<Rightarrow> bitmap_chunk \<Rightarrow> bitmap_chunk \<Rightarrow> bytes \<Rightarrow> bytes" where
  "superblock_image s c0 c1 bits =
     puts (write_page_header (replicate 4096 0) (slot_page_id (sb_slot s)) Superblock_page 4064)
       (superblock_writes s c0 c1 bits)"

lemma encode_superblock_image:
  assumes "superblock_validate s = Inr ()" "validate_bitmap s b = Inr ()" "sb_bitmap_chunks s = [c0, c1]"
  shows "encode_superblock_page s b = Inr (seal (superblock_image s c0 c1 (superblock_bits b)))"
  using assms
  by (simp add: encode_superblock_page_def superblock_image_def superblock_writes_def puts_def
      put_payload_def put_chunk_entry_def Let_def)

lemma has_header_puts:
  "has_header bs pid ty n \<Longrightarrow> ascending 28 ws 4096 \<Longrightarrow> has_header (puts bs ws) pid ty n"
proof (induction ws arbitrary: bs)
  case (Cons w ws)
  obtain off v where w: "w = (off, v)" by (cases w)
  have "off + length v \<le> 4096" "28 \<le> off" "ascending 28 ws 4096"
    using Cons.prems(2) ascending_le ascending_mono by (auto simp: w)
  with Cons show ?case by (simp add: puts_def w)
qed (simp add: puts_def)

lemma superblock_writes_ascending:
  "length bits = 3936 \<Longrightarrow> ascending 32 (superblock_writes s c0 c1 bits) 4096"
  by (simp add: superblock_writes_def)

lemma superblock_image_header:
  assumes "length bits = 3936"
  shows "has_header (superblock_image s c0 c1 bits) (slot_page_id (sb_slot s)) Superblock_page 4064"
  unfolding superblock_image_def
  using superblock_writes_ascending [OF assms] ascending_mono [of 32 _ 4096 28]
  by (intro has_header_puts has_header_write) simp_all

lemma slice_header_zeros:
  "28 \<le> off \<Longrightarrow> off + n \<le> 4096 \<Longrightarrow>
   slice (write_page_header (replicate 4096 0) pid ty m) off n = replicate n 0"
  by (simp add: slice_def)

lemma superblock_image_field:
  assumes "length bits = 3936" "(off, v) \<in> set (superblock_writes s c0 c1 bits)" "n = length v"
  shows "slice (superblock_image s c0 c1 bits) off n = v"
  unfolding superblock_image_def
  by (rule slice_puts_same [where lo = 32]) (use assms superblock_writes_ascending in auto)

lemma superblock_image_gap:
  assumes "length bits = 3936" "28 \<le> off" "off + n \<le> 4096"
    and "list_all (\<lambda>(o', v). o' + length v \<le> off \<or> off + n \<le> o') (superblock_writes s c0 c1 bits)"
  shows "slice (superblock_image s c0 c1 bits) off n = replicate n 0"
  unfolding superblock_image_def
  using assms slice_puts_other [where lo = 32, OF _ _ assms(4), of
      "write_page_header (replicate 4096 0) (slot_page_id (sb_slot s)) Superblock_page 4064"]
    superblock_writes_ascending
  by (simp add: slice_header_zeros)

lemma superblock_image_slices:
  assumes "length bits = 3936"
  shows "slice (superblock_image s c0 c1 bits) 32 8 = SUPERBLOCK_MAGIC"
    "slice (superblock_image s c0 c1 bits) 40 2 = le_bytes 2 SUPERBLOCK_FORMAT_VERSION"
    "slice (superblock_image s c0 c1 bits) 42 2 = le_bytes 2 SUPERBLOCK_FLAGS"
    "slice (superblock_image s c0 c1 bits) 44 4 = le_bytes 4 (4096 :: u32)"
    "slice (superblock_image s c0 c1 bits) 48 8 = le_bytes 8 (of_nat (sb_max_page_count s) :: u64)"
    "slice (superblock_image s c0 c1 bits) 56 8 = le_bytes 8 (sb_generation s)"
    "slice (superblock_image s c0 c1 bits) 64 8 = le_bytes 8 (sb_database_revision s)"
    "slice (superblock_image s c0 c1 bits) 72 8 = le_bytes 8 (sb_database_hash s)"
    "slice (superblock_image s c0 c1 bits) 80 8 = le_bytes 8
       (case sb_catalog_root_page_id s of Some root \<Rightarrow> of_nat root | None \<Rightarrow> (- 1 :: u64))"
    "slice (superblock_image s c0 c1 bits) 88 4 = le_bytes 4 (of_nat (sb_live_data_page_count s) :: u32)"
    "slice (superblock_image s c0 c1 bits) 92 2 = le_bytes 2 (2 :: u16)"
    "slice (superblock_image s c0 c1 bits) 94 1 = [slot_byte (sb_slot s)]"
    "slice (superblock_image s c0 c1 bits) 96 8 = le_bytes 8 (sb_commit_hash s)"
    "slice (superblock_image s c0 c1 bits) 160 3936 = bits"
  by (rule superblock_image_field [OF assms]; simp add: superblock_writes_def assms)+

lemma superblock_image_entries:
  assumes "length bits = 3936"
  shows "slice (superblock_image s c0 c1 bits) 104 8 = le_bytes 8 (bc_generation c0)"
    "slice (superblock_image s c0 c1 bits) 112 4 = le_bytes 4 (bc_checksum c0)"
    "slice (superblock_image s c0 c1 bits) 116 1 = [bitmap_slot_byte (bc_slot c0)]"
    "slice (superblock_image s c0 c1 bits) 120 8 = le_bytes 8 (bc_generation c1)"
    "slice (superblock_image s c0 c1 bits) 128 4 = le_bytes 4 (bc_checksum c1)"
    "slice (superblock_image s c0 c1 bits) 132 1 = [bitmap_slot_byte (bc_slot c1)]"
  by (rule superblock_image_field [OF assms]; simp add: superblock_writes_def assms)+

lemma superblock_image_gaps:
  assumes "length bits = 3936"
  shows "slice (superblock_image s c0 c1 bits) 95 1 = replicate 1 0"
    "slice (superblock_image s c0 c1 bits) 117 3 = replicate 3 0"
    "slice (superblock_image s c0 c1 bits) 133 3 = replicate 3 0"
    "slice (superblock_image s c0 c1 bits) 136 24 = replicate 24 0"
  by (rule superblock_image_gap [OF assms]; simp add: superblock_writes_def assms)+

lemma payload_slices:
  "take k (slice bs 32 4064) = slice bs 32 k" if "k \<le> 4064"
  using that by (rule take_slice)

lemma drop_slice: "drop m (slice bs off n) = slice bs (off + m) (n - m)"
  by (simp add: slice_def drop_take add.commute)

lemma nth_of_slice: "slice bs off 1 = [x] \<Longrightarrow> off < length bs \<Longrightarrow> bs ! off = x"
  by (simp add: nth_slice_1 del: One_nat_def)

lemma decode_chunk_entry_slices:
  assumes "length bs = 4096" "at + 16 \<le> 4096"
    and "slice bs at 8 = le_bytes 8 (bc_generation c)" "slice bs (at + 8) 4 = le_bytes 4 (bc_checksum c)"
    and "slice bs (at + 12) 1 = [bitmap_slot_byte (bc_slot c)]"
  shows "decode_chunk_entry (slice bs at 16) = Inr c"
proof -
  have "slice bs at 16 ! 12 = bitmap_slot_byte (bc_slot c)"
    using assms nth_of_slice [OF assms(5)] by (simp add: nth_slice)
  then show ?thesis
    using assms by (simp add: decode_chunk_entry_def reads_def slice_slice)
qed

lemma two_entries:
  "length bs = 32 \<Longrightarrow> whole_chunks 16 bs = [slice bs 0 16, slice bs 16 16]"
  using whole_chunks_append [of 16 "slice bs 0 16" "slice bs 16 16"]
    whole_chunks_append [of 16 "slice bs 16 16" "[]"] slice_append_split [of bs 0 16 16]
  by simp

lemma decode_superblock_image:
  assumes len: "length bits = 3936" and valid: "superblock_validate s = Inr ()"
    and chunks: "sb_bitmap_chunks s = [c0, c1]"
  shows "decode_superblock_page (seal (superblock_image s c0 c1 bits)) = Inr (s, bits)"
proof -
  let ?u = "superblock_image s c0 c1 bits"
  let ?b = "seal ?u"
  have h: "has_header ?u (slot_page_id (sb_slot s)) Superblock_page 4064"
    by (rule superblock_image_header [OF len])
  have lu: "length ?u = 4096" by (rule has_header_length [OF h])
  have lb: "length ?b = 4096" using lu by simp
  have pid: "slot_page_id (sb_slot s) < 2" by (cases "sb_slot s") simp_all
  have verify: "page_verify ?b = Inr ()"
    using page_verify_seal [OF h] pid lu by simp
  have decode: "decode_verified ?b =
      Inr \<lparr>pg_id = slot_page_id (sb_slot s), pg_type = Superblock_page, pg_payload = slice ?b 32 4064\<rparr>"
    using decode_verified_header [OF has_header_seal [OF h]] pid by simp
  note slices = superblock_image_slices [OF len, of s c0 c1] superblock_image_entries [OF len, of s c0 c1]
    superblock_image_gaps [OF len, of s c0 c1]
  have bounds: "sb_max_page_count s = 65536" "sb_live_data_page_count s \<le> 65530"
    "\<And>root. sb_catalog_root_page_id s = Some root \<Longrightarrow> root < 65536"
    using valid by (auto simp: superblock_validate_ok)
  have u: "slice ?b off n = slice ?u off n" if "32 \<le> off" "off + n \<le> 4096" for off n
    using lu that by simp
  have bytes: "?b ! 94 = slot_byte (sb_slot s)" "?b ! 95 = 0"
    using nth_of_slice [of ?b 94] nth_of_slice [of ?b 95] lb slices u by simp_all
  have reads: "read_u16 ?b 40 = SUPERBLOCK_FORMAT_VERSION" "read_u16 ?b 42 = SUPERBLOCK_FLAGS"
    "unat (read_u32 ?b 44) = 4096" "unat (read_u64 ?b 48) = 65536" "read_u64 ?b 56 = sb_generation s"
    "read_u64 ?b 64 = sb_database_revision s" "read_u64 ?b 72 = sb_database_hash s"
    "unat (read_u32 ?b 88) = sb_live_data_page_count s" "unat (read_u16 ?b 92) = 2"
    "read_u64 ?b 96 = sb_commit_hash s"
    "read_u64 ?b 80 = (case sb_catalog_root_page_id s of Some root \<Rightarrow> of_nat root | None \<Rightarrow> - 1)"
    using slices u bounds lu by (simp_all add: reads_def)
  have root: "(if read_u64 ?b 80 = - 1 then None else Some (unat (read_u64 ?b 80))) =
      sb_catalog_root_page_id s"
  proof (cases "sb_catalog_root_page_id s")
    case (Some root)
    then have "root < 65536" by (rule bounds(3))
    then have "unat (of_nat root :: u64) = root" by simp
    moreover have "unat (- 1 :: u64) = 2 ^ 64 - 1"
      by (simp add: unsigned_minus_1_eq_mask mask_eq_exp_minus_1)
    ultimately have "unat (of_nat root :: u64) \<noteq> unat (- 1 :: u64)"
      using \<open>root < 65536\<close> by simp
    then have "(of_nat root :: u64) \<noteq> - 1" by metis
    with Some reads(11) \<open>unat _ = root\<close> show ?thesis by simp
  qed (use reads(11) in simp)
  have entries: "whole_chunks 16 (slice ?b 104 32) = [slice ?b 104 16, slice ?b 120 16]"
    using two_entries [of "slice ?b 104 32"] lb by (simp add: slice_slice)
  have entry: "decode_chunk_entry (slice ?b 104 16) = Inr c0" "decode_chunk_entry (slice ?b 120 16) = Inr c1"
    using decode_chunk_entry_slices [of ?b 104 c0] decode_chunk_entry_slices [of ?b 120 c1] lb slices u
    by simp_all
  have tail: "slice ?b 160 3936 = bits"
    using slices(14) u by simp
  have tidy: "slice ?b 117 3 = replicate 3 0" "slice ?b 133 3 = replicate 3 0"
    "slice ?b 136 24 = replicate 24 0" "slice ?b 32 8 = SUPERBLOCK_MAGIC"
    using slices u by simp_all
  have s_eq: "\<lparr>sb_slot = sb_slot s, sb_generation = sb_generation s,
      sb_database_revision = sb_database_revision s, sb_database_hash = sb_database_hash s,
      sb_catalog_root_page_id = sb_catalog_root_page_id s,
      sb_live_data_page_count = sb_live_data_page_count s, sb_max_page_count = 65536,
      sb_commit_hash = sb_commit_hash s, sb_bitmap_chunks = [c0, c1]\<rparr> = s"
    using bounds(1) chunks by simp
  show ?thesis
    unfolding decode_superblock_page_def verify decode and_then_simps
    using pid lb
    by (simp add: payload_slices payload_reads payload_nth slice_slice drop_slice take_slice Let_def
        reads(1-10) bytes root entries entry tail tidy s_eq valid list_ex_iff del: slice_seal)
qed

subsection \<open>Bitmap chunks\<close>

lemma chunk_range: "chunk < 2 \<Longrightarrow> bitmap_chunk_range chunk =
    (if chunk = 0 then (3936, 7984) else (7984, 8192))"
  by (auto simp: bitmap_chunk_range_def less_Suc_eq numeral_2_eq_2)

lemma chunk_bits_parts:
  "length (ab_bits b) = 8192 \<Longrightarrow>
   chunk_bits b 0 = slice (ab_bits b) 3936 4048 \<and> chunk_bits b 1 = slice (ab_bits b) 7984 208"
  by (simp add: chunk_bits_def chunk_range)

lemma length_chunk_bits:
  assumes "length (ab_bits b) = 8192" "chunk < 2"
  shows "length (chunk_bits b chunk) = snd (bitmap_chunk_range chunk) - fst (bitmap_chunk_range chunk)"
    "length (chunk_bits b chunk) \<le> 4048"
  using assms by (auto simp: chunk_bits_def chunk_range)

lemma bitmap_parts:
  assumes "length (ab_bits b) = 8192"
  shows "superblock_bits b @ chunk_bits b 0 @ chunk_bits b 1 = ab_bits b"
proof -
  have "ab_bits b = slice (ab_bits b) 0 (3936 + (4048 + 208))" using assms by simp
  also have "\<dots> = slice (ab_bits b) 0 3936 @ slice (ab_bits b) 3936 4048 @ slice (ab_bits b) 7984 208"
    by (simp only: slice_append_split) simp
  finally show ?thesis
    using chunk_bits_parts [OF assms] by (simp add: superblock_bits_def slice_def)
qed

definition chunk_writes :: "nat \<Rightarrow> bitmap_slot \<Rightarrow> u64 \<Rightarrow> bytes \<Rightarrow> (nat \<times> bytes) list" where
  "chunk_writes chunk slot generation bits =
     [(32, le_bytes 8 generation), (40, [bitmap_slot_byte slot]), (41, [of_nat chunk]),
      (42, [2]), (44, le_bytes 2 (of_nat (length bits) :: u16)), (48, bits)]"

definition chunk_image :: "nat \<Rightarrow> bitmap_slot \<Rightarrow> u64 \<Rightarrow> bytes \<Rightarrow> bytes" where
  "chunk_image chunk slot generation bits =
     puts (write_page_header (replicate 4096 0) (bitmap_slot_page_id slot chunk) AllocationBitmap_page
             (16 + length bits)) (chunk_writes chunk slot generation bits)"

lemma encode_chunk_image:
  "encode_chunk b chunk slot generation = seal (chunk_image chunk slot generation (chunk_bits b chunk))"
  by (simp add: encode_chunk_def chunk_image_def chunk_writes_def puts_def put_payload_def Let_def)

lemma chunk_writes_ascending:
  "length bits \<le> 4048 \<Longrightarrow> ascending 32 (chunk_writes chunk slot generation bits) 4096"
  by (simp add: chunk_writes_def)

lemma chunk_image_header:
  assumes "length bits \<le> 4048"
  shows "has_header (chunk_image chunk slot generation bits) (bitmap_slot_page_id slot chunk)
    AllocationBitmap_page (16 + length bits)"
  unfolding chunk_image_def
  using chunk_writes_ascending [OF assms] ascending_mono [of 32 _ 4096 28]
  by (intro has_header_puts has_header_write) simp_all

lemma chunk_image_field:
  assumes "length bits \<le> 4048" "(off, v) \<in> set (chunk_writes chunk slot generation bits)" "n = length v"
  shows "slice (chunk_image chunk slot generation bits) off n = v"
  unfolding chunk_image_def
  by (rule slice_puts_same [where lo = 32]) (use assms chunk_writes_ascending in auto)

lemma chunk_image_gap:
  assumes "length bits \<le> 4048" "28 \<le> off" "off + n \<le> 4096"
    and "list_all (\<lambda>(o', v). o' + length v \<le> off \<or> off + n \<le> o') (chunk_writes chunk slot generation bits)"
  shows "slice (chunk_image chunk slot generation bits) off n = replicate n 0"
  unfolding chunk_image_def
  using assms slice_puts_other [where lo = 32, OF _ _ assms(4), of
      "write_page_header (replicate 4096 0) (bitmap_slot_page_id slot chunk) AllocationBitmap_page (16 + length bits)"]
    chunk_writes_ascending
  by (simp add: slice_header_zeros)

lemma chunk_image_slices:
  assumes "length bits \<le> 4048"
  shows "slice (chunk_image chunk slot generation bits) 32 8 = le_bytes 8 generation"
    "slice (chunk_image chunk slot generation bits) 40 1 = [bitmap_slot_byte slot]"
    "slice (chunk_image chunk slot generation bits) 41 1 = [of_nat chunk]"
    "slice (chunk_image chunk slot generation bits) 42 1 = [2]"
    "slice (chunk_image chunk slot generation bits) 44 2 = le_bytes 2 (of_nat (length bits) :: u16)"
    "slice (chunk_image chunk slot generation bits) 48 (length bits) = bits"
  by (rule chunk_image_field [OF assms]; simp add: chunk_writes_def)+

lemma chunk_image_gaps:
  assumes "length bits \<le> 4048"
  shows "slice (chunk_image chunk slot generation bits) 43 1 = replicate 1 0"
    "slice (chunk_image chunk slot generation bits) 46 2 = replicate 2 0"
    "slice (chunk_image chunk slot generation bits) (48 + length bits) (4048 - length bits) =
       replicate (4048 - length bits) 0"
  by (rule chunk_image_gap [OF assms]; simp add: chunk_writes_def assms)+

lemma decode_encode_chunk:
  assumes b: "length (ab_bits b) = 8192" and chunk: "chunk < 2"
  shows "page_verify (encode_chunk b chunk slot generation) = Inr ()"
    "decode_bitmap_chunk (encode_chunk b chunk slot generation) chunk
       \<lparr>bc_slot = slot, bc_generation = generation,
        bc_checksum = page_checksum (encode_chunk b chunk slot generation)\<rparr> = Inr (chunk_bits b chunk)"
proof -
  let ?bits = "chunk_bits b chunk"
  let ?u = "chunk_image chunk slot generation ?bits"
  let ?b = "seal ?u"
  have n: "length ?bits \<le> 4048" by (rule length_chunk_bits(2) [OF b chunk])
  have h: "has_header ?u (bitmap_slot_page_id slot chunk) AllocationBitmap_page (16 + length ?bits)"
    by (rule chunk_image_header [OF n])
  have lu: "length ?u = 4096" by (rule has_header_length [OF h])
  have lb: "length ?b = 4096" using lu by simp
  have pid: "bitmap_slot_page_id slot chunk < 6"
    using chunk by (cases slot) (simp_all add: bitmap_slot_page_id_def)
  note slices = chunk_image_slices [OF n, of chunk slot generation] chunk_image_gaps [OF n, of chunk slot generation]
  have "drop (32 + (16 + length ?bits)) ?u = replicate (4064 - (16 + length ?bits)) 0"
    using slices(9) lu n by (simp add: slice_def)
  then have verify: "page_verify ?b = Inr ()"
    using page_verify_seal [OF h] pid n by simp
  then show "page_verify (encode_chunk b chunk slot generation) = Inr ()"
    by (simp add: encode_chunk_image)
  have decode: "decode_verified ?b = Inr \<lparr>pg_id = bitmap_slot_page_id slot chunk,
      pg_type = AllocationBitmap_page, pg_payload = slice ?b 32 (16 + length ?bits)\<rparr>"
    using decode_verified_header [OF has_header_seal [OF h]] pid n by simp
  have u: "slice ?b off k = slice ?u off k" if "32 \<le> off" "off + k \<le> 4096" for off k
    using lu that by simp
  have bytes: "?b ! 40 = bitmap_slot_byte slot" "?b ! 41 = of_nat chunk" "?b ! 42 = 2" "?b ! 43 = 0"
    using nth_of_slice [of ?b 40] nth_of_slice [of ?b 41] nth_of_slice [of ?b 42] nth_of_slice [of ?b 43]
      lb slices u by simp_all
  have reads: "read_u64 ?b 32 = generation" "unat (read_u16 ?b 44) = length ?bits"
    "slice ?b 46 2 = replicate 2 0" "slice ?b 48 (length ?bits) = ?bits"
    using slices u lu n by (simp_all add: reads_def)
  have range: "snd (bitmap_chunk_range chunk) - fst (bitmap_chunk_range chunk) = length ?bits"
    using length_chunk_bits(1) [OF b chunk] by simp
  show "decode_bitmap_chunk (encode_chunk b chunk slot generation) chunk
       \<lparr>bc_slot = slot, bc_generation = generation,
        bc_checksum = page_checksum (encode_chunk b chunk slot generation)\<rparr> = Inr ?bits"
    unfolding encode_chunk_image decode_bitmap_chunk_def verify decode and_then_simps
    using lb n chunk range
    by (simp add: read_u32_def page_checksum_def payload_reads payload_nth slice_slice drop_slice
        Let_def case_prod_unfold reads bytes list_ex_iff del: slice_seal)
qed

section \<open>Damage\<close>

lemma decode_superblock_type:
  assumes "decode_superblock_page bs = Inr (s, bits)"
  shows "page_verify bs = Inr ()" "bs ! 20 = 1"
proof -
  have "page_verify bs = Inr () \<and> (\<exists>page. decode_verified bs = Inr page \<and> pg_type page = Superblock_page)"
    using assms by (auto simp: decode_superblock_page_def and_then_eq_Inr Let_def split: if_splits)
  then show "page_verify bs = Inr ()" "bs ! 20 = 1"
    by (auto simp: decode_verified_def and_then_eq_Inr page_type_try_eq_Inr Let_def split: if_splits)
qed

lemma damaged_superblock:
  assumes "decode_superblock_page bs = Inr (s, bits)"
    and "length v \<le> 4" "off + length v \<le> 4096"
    and "off + length v \<le> 28 \<or> 32 \<le> off \<or> 28 \<le> off \<and> off + length v \<le> 32"
    and "slice bs off (length v) \<noteq> v"
  shows "\<exists>e. decode_superblock_page (put bs off v) = Inl e"
proof (rule ccontr)
  assume "\<nexists>e. decode_superblock_page (put bs off v) = Inl e"
  then obtain s' bits' where "decode_superblock_page (put bs off v) = Inr (s', bits')"
    by (cases "decode_superblock_page (put bs off v)") auto
  note damaged = decode_superblock_type [OF this] and ok = decode_superblock_type [OF assms(1)]
  from superblock_damage [OF ok assms(2-5) damaged(2)] damaged(1) show False by simp
qed

section \<open>Whole roots\<close>

text \<open>
  What every root the engine holds satisfies: its superblock and bitmap validate, the count of
  live pages is the bitmap's, and it names two chunks.
\<close>

definition root_ok :: "recovered_metadata \<Rightarrow> bool" where
  "root_ok r \<longleftrightarrow>
     superblock_validate (rm_superblock r) = Inr () \<and>
     validate_bitmap (rm_superblock r) (rm_allocation_bitmap r) = Inr () \<and>
     bitmap_ok (rm_allocation_bitmap r) \<and> length (sb_bitmap_chunks (rm_superblock r)) = 2"

text \<open>The pages of the metadata area that a root is read from.\<close>

definition root_pages :: "superblock \<Rightarrow> nat list" where
  "root_pages s = slot_page_id (sb_slot s) #
     map (\<lambda>(chunk, entry). bitmap_slot_page_id (bc_slot entry) chunk) (enumerate 0 (sb_bitmap_chunks s))"

lemma root_pages_two:
  "sb_bitmap_chunks s = [c0, c1] \<Longrightarrow>
   root_pages s = [slot_page_id (sb_slot s), bitmap_slot_page_id (bc_slot c0) 0, bitmap_slot_page_id (bc_slot c1) 1]"
  by (simp add: root_pages_def)

lemma length_two: "length xs = 2 \<longleftrightarrow> (\<exists>a b. xs = [a, b])"
  by (auto simp: numeral_2_eq_2 length_Suc_conv)

lemma decode_superblock_ok:
  assumes "decode_superblock_page bs = Inr (s, bits)"
  shows "superblock_validate s = Inr () \<and> length bits = 3936 \<and> length (sb_bitmap_chunks s) = 2"
proof -
  obtain payload where p: "length payload = 4064" "bits = drop 128 payload"
    "superblock_validate s = Inr ()"
    "map_res decode_chunk_entry (whole_chunks 16 (take 32 (slice payload 72 56))) = Inr (sb_bitmap_chunks s)"
    using assms
    by (auto simp: decode_superblock_page_def and_then_eq_Inr Let_def split: if_splits)
  have "list_all2 (\<lambda>x y. decode_chunk_entry x = Inr y) (whole_chunks 16 (take 32 (slice payload 72 56)))
     (sb_bitmap_chunks s)"
    using p(4) by (simp add: map_res_eq_Inr)
  then have "length (sb_bitmap_chunks s) = length (whole_chunks 16 (take 32 (slice payload 72 56)))"
    by (simp add: list_all2_lengthD)
  with p show ?thesis by (simp add: length_whole_chunks)
qed

lemma decode_candidate_ok:
  assumes "decode_metadata_candidate slot pages = Inr r"
  shows "root_ok r \<and> sb_slot (rm_superblock r) = slot"
proof -
  from assms obtain s bits chunks b where
    "decode_superblock_page (pages ! slot_page_id slot) = Inr (s, bits)" "sb_slot s = slot"
    "from_bits (bits @ concat chunks) = Inr b" "validate_bitmap s b = Inr ()"
    "r = \<lparr>rm_superblock = s, rm_allocation_bitmap = b\<rparr>"
    by (auto simp: decode_metadata_candidate_def and_then_eq_Inr split: if_splits)
  then show ?thesis
    using decode_superblock_ok from_bits_ok by (simp add: root_ok_def)
qed

text \<open>Reading a root only looks at the pages it names.\<close>

lemma decode_candidate_local:
  assumes "decode_metadata_candidate slot pages = Inr r"
    and "\<And>i. i \<in> set (root_pages (rm_superblock r)) \<Longrightarrow> pages' ! i = pages ! i"
  shows "decode_metadata_candidate slot pages' = Inr r"
proof -
  from assms(1) obtain s bits chunks b where d:
    "decode_superblock_page (pages ! slot_page_id slot) = Inr (s, bits)" "sb_slot s = slot"
    "map_res (\<lambda>(chunk, entry). decode_bitmap_chunk (pages ! bitmap_slot_page_id (bc_slot entry) chunk) chunk entry)
       (enumerate 0 (sb_bitmap_chunks s)) = Inr chunks"
    "from_bits (bits @ concat chunks) = Inr b" "validate_bitmap s b = Inr ()"
    "r = \<lparr>rm_superblock = s, rm_allocation_bitmap = b\<rparr>"
    by (auto simp: decode_metadata_candidate_def and_then_eq_Inr split: if_splits)
  obtain c0 c1 where c: "sb_bitmap_chunks s = [c0, c1]"
    using decode_superblock_ok [OF d(1)] by (auto simp: length_two)
  have "pages' ! i = pages ! i" if "i \<in> set [slot_page_id slot, bitmap_slot_page_id (bc_slot c0) 0,
      bitmap_slot_page_id (bc_slot c1) 1]" for i
    using assms(2) [of i] that d(2,6) by (simp add: root_pages_two [OF c])
  with d show ?thesis
    by (simp add: decode_metadata_candidate_def c)
qed

text \<open>A root whose pages are in place is read back.\<close>

lemma decode_candidate_root:
  assumes ok: "root_ok r" and c: "sb_bitmap_chunks (rm_superblock r) = [c0, c1]"
    and sb: "encode_superblock_page (rm_superblock r) (rm_allocation_bitmap r) =
       Inr (pages ! slot_page_id (sb_slot (rm_superblock r)))"
    and ch: "decode_bitmap_chunk (pages ! bitmap_slot_page_id (bc_slot c0) 0) 0 c0 = Inr (chunk_bits (rm_allocation_bitmap r) 0)"
      "decode_bitmap_chunk (pages ! bitmap_slot_page_id (bc_slot c1) 1) 1 c1 = Inr (chunk_bits (rm_allocation_bitmap r) 1)"
  shows "decode_metadata_candidate (sb_slot (rm_superblock r)) pages = Inr r"
proof -
  let ?s = "rm_superblock r" and ?b = "rm_allocation_bitmap r"
  have v: "superblock_validate ?s = Inr ()" "validate_bitmap ?s ?b = Inr ()" "bitmap_ok ?b"
    using ok by (simp_all add: root_ok_def)
  then have len: "length (ab_bits ?b) = 8192" by (simp add: bitmap_ok_def)
  have "pages ! slot_page_id (sb_slot ?s) = seal (superblock_image ?s c0 c1 (superblock_bits ?b))"
    using sb encode_superblock_image [OF v(1,2) c] by simp
  then have "decode_superblock_page (pages ! slot_page_id (sb_slot ?s)) = Inr (?s, superblock_bits ?b)"
    using decode_superblock_image [OF _ v(1) c] len by simp
  moreover have "from_bits (superblock_bits ?b @ chunk_bits ?b 0 @ chunk_bits ?b 1) = Inr ?b"
    using bitmap_parts [OF len] from_bits_round [OF v(3)] by simp
  ultimately show ?thesis
    using v ch by (simp add: decode_metadata_candidate_def c)
qed

section \<open>Recovery\<close>

lemma recover_other_unreadable:
  assumes "decode_metadata_candidate slot pages = Inr r"
    and "decode_metadata_candidate (slot_inactive slot) pages = Inl e" "e \<noteq> UNSUPPORTED_PAGE"
  shows "recover_metadata pages = Inr (r, None)"
  using assms by (cases slot) (simp_all add: recover_metadata_def)

definition predecessor :: "recovered_metadata \<Rightarrow> recovered_metadata \<Rightarrow> recovered_metadata option" where
  "predecessor newest older =
     (if checked_add (sb_generation (rm_superblock older)) 1 = Some (sb_generation (rm_superblock newest))
      then Some older else None)"

lemma recover_two_roots:
  assumes "decode_metadata_candidate slot pages = Inr newest"
    and "decode_metadata_candidate (slot_inactive slot) pages = Inr older"
    and "sb_generation (rm_superblock older) < sb_generation (rm_superblock newest)"
  shows "recover_metadata pages = Inr (newest, predecessor newest older)"
proof -
  have "sb_generation (rm_superblock newest) \<noteq> sb_generation (rm_superblock older)"
    "\<not> sb_generation (rm_superblock newest) < sb_generation (rm_superblock older)"
    using assms(3) by auto
  with assms show ?thesis
    by (cases slot) (simp_all add: recover_metadata_def predecessor_def)
qed

lemma decode_bitmap_chunk_length:
  assumes "decode_bitmap_chunk bs chunk entry = Inr bits"
  shows "length bits = snd (bitmap_chunk_range chunk) - fst (bitmap_chunk_range chunk)"
  using assms
  by (auto simp: decode_bitmap_chunk_def and_then_eq_Inr Let_def case_prod_unfold split: if_splits)

lemma decode_bitmap_chunk_page:
  assumes "decode_bitmap_chunk bs chunk entry = Inr bits"
  shows "page_verify bs = Inr ()" "page_checksum bs = bc_checksum entry"
  using assms
  by (auto simp: decode_bitmap_chunk_def and_then_eq_Inr read_u32_def page_checksum_def split: if_splits)

text \<open>The chunks a decoded root was read from hold its bitmap's bits.\<close>

lemma decode_candidate_chunks:
  assumes "decode_metadata_candidate slot pages = Inr r"
    and c: "sb_bitmap_chunks (rm_superblock r) = [c0, c1]"
  shows "decode_bitmap_chunk (pages ! bitmap_slot_page_id (bc_slot c0) 0) 0 c0 =
      Inr (chunk_bits (rm_allocation_bitmap r) 0)"
    "decode_bitmap_chunk (pages ! bitmap_slot_page_id (bc_slot c1) 1) 1 c1 =
      Inr (chunk_bits (rm_allocation_bitmap r) 1)"
proof -
  from assms(1) obtain s bits chunks b where d:
    "decode_superblock_page (pages ! slot_page_id slot) = Inr (s, bits)"
    "map_res (\<lambda>(chunk, entry). decode_bitmap_chunk (pages ! bitmap_slot_page_id (bc_slot entry) chunk) chunk entry)
       (enumerate 0 (sb_bitmap_chunks s)) = Inr chunks"
    "from_bits (bits @ concat chunks) = Inr b"
    "r = \<lparr>rm_superblock = s, rm_allocation_bitmap = b\<rparr>"
    by (auto simp: decode_metadata_candidate_def and_then_eq_Inr split: if_splits)
  then obtain b0 b1 where ch: "chunks = [b0, b1]"
    "decode_bitmap_chunk (pages ! bitmap_slot_page_id (bc_slot c0) 0) 0 c0 = Inr b0"
    "decode_bitmap_chunk (pages ! bitmap_slot_page_id (bc_slot c1) 1) 1 c1 = Inr b1"
    using c by (auto simp: and_then_eq_Inr)
  have len: "length bits = 3936" "length b0 = 4048" "length b1 = 208"
    using decode_superblock_ok [OF d(1)] decode_bitmap_chunk_length [OF ch(2)]
      decode_bitmap_chunk_length [OF ch(3)] by (simp_all add: chunk_range)
  have "ab_bits b = bits @ b0 @ b1" using from_bits_ok [OF d(3)] ch(1) by simp
  with len have "chunk_bits b 0 = b0" "chunk_bits b 1 = b1"
    using chunk_bits_parts [of b] by (simp_all add: slice_def)
  with ch d(4) show "decode_bitmap_chunk (pages ! bitmap_slot_page_id (bc_slot c0) 0) 0 c0 =
      Inr (chunk_bits (rm_allocation_bitmap r) 0)"
    "decode_bitmap_chunk (pages ! bitmap_slot_page_id (bc_slot c1) 1) 1 c1 =
      Inr (chunk_bits (rm_allocation_bitmap r) 1)" by simp_all
qed

lemma decode_bitmap_chunk_error:
  "decode_bitmap_chunk bs chunk entry = Inl e \<Longrightarrow> e = INVALID_PAGE \<or> page_verify bs = Inl e"
  by (auto simp: decode_bitmap_chunk_def decode_verified_def page_type_try_from_def bitmap_slot_try_from_def
      Let_def and_then_eq_Inl split: if_splits option.splits prod.splits)

lemma validate_bitmap_error: "validate_bitmap s b \<noteq> Inl UNSUPPORTED_PAGE"
  by (simp add: validate_bitmap_def validate_metadata_pages_ok is_allocated_def validate_page_id_def
      and_then_def split: option.split)

lemma decode_candidate_error:
  assumes "decode_metadata_candidate slot pages = Inl UNSUPPORTED_PAGE"
  shows "decode_superblock_page (pages ! slot_page_id slot) = Inl UNSUPPORTED_PAGE \<or>
    (\<exists>i < 6. page_verify (pages ! i) = Inl UNSUPPORTED_PAGE)"
proof (cases "decode_superblock_page (pages ! slot_page_id slot)")
  case (Inr sb)
  obtain s bits where sb: "sb = (s, bits)" by (cases sb)
  obtain c0 c1 where c: "sb_bitmap_chunks s = [c0, c1]"
    using decode_superblock_ok [of "pages ! slot_page_id slot" s bits] Inr sb by (auto simp: length_two)
  have ids: "bitmap_slot_page_id (bc_slot c0) 0 < 6" "bitmap_slot_page_id (bc_slot c1) 1 < 6"
    by (cases "bc_slot c0"; cases "bc_slot c1"; simp add: bitmap_slot_page_id_def)+
  have bits_err: "from_bits x \<noteq> Inl UNSUPPORTED_PAGE" "validate_bitmap s y \<noteq> Inl UNSUPPORTED_PAGE" for x y
    by (simp add: from_bits_spec Let_def) (rule validate_bitmap_error)
  have "decode_bitmap_chunk (pages ! bitmap_slot_page_id (bc_slot c0) 0) 0 c0 = Inl UNSUPPORTED_PAGE \<or>
      decode_bitmap_chunk (pages ! bitmap_slot_page_id (bc_slot c1) 1) 1 c1 = Inl UNSUPPORTED_PAGE"
    using assms Inr sb bits_err
    by (auto simp: decode_metadata_candidate_def c and_then_eq_Inl split: if_splits)
  then show ?thesis
    using decode_bitmap_chunk_error ids by blast
qed (use assms in \<open>auto simp: decode_metadata_candidate_def\<close>)

section \<open>The next root\<close>

text \<open>The root a commit publishes: the pending metadata, with the commit hash the pager records.\<close>

definition pending_root :: "pending_metadata \<Rightarrow> u64 \<Rightarrow> recovered_metadata" where
  "pending_root pm hash =
     \<lparr>rm_superblock = (pm_superblock pm)\<lparr>sb_commit_hash := hash\<rparr>,
      rm_allocation_bitmap = pm_allocation_bitmap pm\<rparr>"

text \<open>The metadata writes of a commit, in order: the changed chunks, then the superblock.\<close>

definition chunk_writes_of :: "pending_metadata \<Rightarrow> (nat \<times> bytes) list" where
  "chunk_writes_of pm = concat (map (\<lambda>(chunk, page). case page of
       Some bs \<Rightarrow> [(bitmap_slot_page_id (bc_slot (sb_bitmap_chunks (pm_superblock pm) ! chunk)) chunk, bs)]
     | None \<Rightarrow> []) (enumerate 0 (pm_bitmap_pages pm)))"

definition metadata_writes :: "pending_metadata \<Rightarrow> bytes \<Rightarrow> (nat \<times> bytes) list" where
  "metadata_writes pm superblock_page =
     chunk_writes_of pm @ [(slot_page_id (sb_slot (pm_superblock pm)), superblock_page)]"

lemma build_next_spec:
  assumes active: "root_ok active"
    and build: "build_next_metadata active revision h catalog bitmap = Inr pm"
    and c: "sb_bitmap_chunks (rm_superblock active) = [c0, c1]"
  shows "sb_slot (pm_superblock pm) = slot_inactive (sb_slot (rm_superblock active))"
    and "unat (sb_generation (pm_superblock pm)) = unat (sb_generation (rm_superblock active)) + 1"
    and "checked_add (sb_generation (rm_superblock active)) 1 = Some (sb_generation (pm_superblock pm))"
    and "superblock_validate (pm_superblock pm) = Inr ()"
    and "validate_bitmap (pm_superblock pm) (pm_allocation_bitmap pm) = Inr ()"
    and "pm_allocation_bitmap pm = bitmap"
    and "sb_bitmap_chunks (pm_superblock pm) = map fst (map (next_chunk (rm_allocation_bitmap active) bitmap
        (sb_generation (pm_superblock pm))) [(0, c0), (1, c1)])"
    and "pm_bitmap_pages pm = map snd (map (next_chunk (rm_allocation_bitmap active) bitmap
        (sb_generation (pm_superblock pm))) [(0, c0), (1, c1)])"
proof -
  from build obtain g where g: "checked_add (sb_generation (rm_superblock active)) 1 = Some g"
    by (auto simp: build_next_metadata_def Let_def and_then_eq_Inr split: if_splits)
  with build show "checked_add (sb_generation (rm_superblock active)) 1 = Some (sb_generation (pm_superblock pm))"
    by (auto simp: build_next_metadata_def Let_def and_then_eq_Inr split: if_splits)
  then show "unat (sb_generation (pm_superblock pm)) = unat (sb_generation (rm_superblock active)) + 1"
    by (auto dest: checked_add_Some)
  show "sb_slot (pm_superblock pm) = slot_inactive (sb_slot (rm_superblock active))"
    "superblock_validate (pm_superblock pm) = Inr ()"
    "validate_bitmap (pm_superblock pm) (pm_allocation_bitmap pm) = Inr ()"
    "pm_allocation_bitmap pm = bitmap"
    "sb_bitmap_chunks (pm_superblock pm) = map fst (map (next_chunk (rm_allocation_bitmap active) bitmap
        (sb_generation (pm_superblock pm))) [(0, c0), (1, c1)])"
    "pm_bitmap_pages pm = map snd (map (next_chunk (rm_allocation_bitmap active) bitmap
        (sb_generation (pm_superblock pm))) [(0, c0), (1, c1)])"
    using build c
    by (auto simp: build_next_metadata_def Let_def and_then_eq_Inr split: if_splits)
qed

lemma pending_root_ok:
  assumes "root_ok active" "bitmap_ok bitmap" "build_next_metadata active revision h catalog bitmap = Inr pm"
  shows "root_ok (pending_root pm hash)"
proof -
  obtain c0 c1 where c: "sb_bitmap_chunks (rm_superblock active) = [c0, c1]"
    using assms(1) by (auto simp: root_ok_def length_two)
  note spec = build_next_spec [OF assms(1,3) c]
  have "superblock_validate ((pm_superblock pm)\<lparr>sb_commit_hash := hash\<rparr>) = Inr ()"
    using spec(4) by (simp add: superblock_validate_ok)
  moreover have "validate_bitmap ((pm_superblock pm)\<lparr>sb_commit_hash := hash\<rparr>) bitmap = Inr ()"
    using spec(5,6) by (simp add: validate_bitmap_ok)
  ultimately show ?thesis
    using spec(6,7) assms(2) by (simp add: root_ok_def pending_root_def)
qed

lemma next_generation:
  assumes "root_ok active" "build_next_metadata active revision h catalog bitmap = Inr pm"
  shows "unat (sb_generation (pm_superblock pm)) = unat (sb_generation (rm_superblock active)) + 1"
  using assms build_next_spec(2) by (metis length_two root_ok_def)

text \<open>A chunk's page moves to the slot its predecessor does not read.\<close>

lemma slot_inactive_neq [simp]:
  "slot_inactive slot \<noteq> slot" "slot_page_id (slot_inactive slot) \<noteq> slot_page_id slot"
  "slot_inactive (slot_inactive slot) = slot"
  by (cases slot; simp)+

lemma metadata_writes_avoid_active:
  assumes "root_ok active" "build_next_metadata active revision h catalog bitmap = Inr pm"
    and "(i, w) \<in> set (metadata_writes pm sb)"
  shows "i \<notin> set (root_pages (rm_superblock active)) \<and> i < 6"
proof -
  obtain c0 c1 where c: "sb_bitmap_chunks (rm_superblock active) = [c0, c1]"
    using assms(1) by (auto simp: root_ok_def length_two)
  note spec = build_next_spec [OF assms(1,2) c]
  have "i = slot_page_id (slot_inactive (sb_slot (rm_superblock active))) \<or>
      i = bitmap_slot_page_id (bitmap_slot_inactive (bc_slot c0)) 0 \<or>
      i = bitmap_slot_page_id (bitmap_slot_inactive (bc_slot c1)) 1"
    using assms(3) spec(1,7,8)
    by (auto simp: metadata_writes_def chunk_writes_of_def next_chunk_def Let_def split: if_splits)
  then show ?thesis
    by (cases "sb_slot (rm_superblock active)"; cases "bc_slot c0"; cases "bc_slot c1")
      (auto simp: root_pages_two [OF c] bitmap_slot_page_id_def)
qed

subsection \<open>A commit that is cut off\<close>

text \<open>
  The metadata area after a crash during a commit: each page is as it was, or, if the commit wrote
  it, as the commit wrote it or torn, which its checksum shows.
\<close>

definition crash_image :: "bytes list \<Rightarrow> (nat \<times> bytes) list \<Rightarrow> bytes list \<Rightarrow> bool" where
  "crash_image before writes after \<longleftrightarrow>
     length after = length before \<and>
     (\<forall>i < length before. after ! i = before ! i \<or>
        (\<exists>w. (i, w) \<in> set writes \<and> (after ! i = w \<or> page_verify (after ! i) = Inl INVALID_PAGE)))"

text \<open>
  The pages the commit is about to overwrite are not taken for the new ones: where one verifies and
  differs from what replaces it, their checksums differ.
\<close>

definition checksums_differ :: "bytes list \<Rightarrow> (nat \<times> bytes) list \<Rightarrow> bool" where
  "checksums_differ pages writes \<longleftrightarrow>
     list_all (\<lambda>(i, w). pages ! i = w \<or> page_verify (pages ! i) \<noteq> Inr () \<or>
       page_checksum (pages ! i) \<noteq> page_checksum w) writes"

text \<open>
  The metadata area of a running database: the active root is read from it and no page of it is of another format.
  The other slot may hold anything older, and the superblock of the next generation, left by a commit that did not
  last; a root as old as the active one is only there in a database just created, as its copy in slot B.
\<close>

definition area_ok :: "bytes list \<Rightarrow> recovered_metadata \<Rightarrow> bool" where
  "area_ok pages active \<longleftrightarrow>
     (let slot = sb_slot (rm_superblock active); generation = sb_generation (rm_superblock active) in
      length pages = 6 \<and> decode_metadata_candidate slot pages = Inr active \<and>
      list_all (\<lambda>bs. page_verify bs \<noteq> Inl UNSUPPORTED_PAGE) pages \<and>
      (case decode_superblock_page (pages ! slot_page_id (slot_inactive slot)) of
         Inr (s, bits) \<Rightarrow> unat (sb_generation s) \<le> unat generation + 1 \<and>
           (sb_generation s = generation \<longrightarrow>
             (case decode_metadata_candidate (slot_inactive slot) pages of
                Inr twin \<Rightarrow> slot = Slot_A \<and> logically_matches active twin | Inl _ \<Rightarrow> True))
       | Inl e \<Rightarrow> e \<noteq> UNSUPPORTED_PAGE))"

lemma area_okD:
  assumes "area_ok pages active"
  shows "length pages = 6" "decode_metadata_candidate (sb_slot (rm_superblock active)) pages = Inr active"
    "i < 6 \<Longrightarrow> page_verify (pages ! i) \<noteq> Inl UNSUPPORTED_PAGE" "root_ok active"
  using assms decode_candidate_ok [of "sb_slot (rm_superblock active)" pages active]
  by (simp_all add: area_ok_def Let_def list_all_length)

lemma next_chunk_read:
  assumes b: "length (ab_bits bitmap) = 8192" and k: "k < 2"
    and nx: "next_chunk active bitmap g (k, c) = (c', page)"
    and old: "page = None \<Longrightarrow> decode_bitmap_chunk bs k c = Inr (chunk_bits active k)"
    and new: "\<And>w. page = Some w \<Longrightarrow> bs = w \<or> page_verify bs \<noteq> Inr () \<and> page_verify bs \<noteq> Inl UNSUPPORTED_PAGE
        \<or> page_verify bs = Inr () \<and> page_checksum bs \<noteq> page_checksum w"
  shows "decode_bitmap_chunk bs k c' = Inr (chunk_bits bitmap k) \<or>
    (\<exists>e. decode_bitmap_chunk bs k c' = Inl e \<and> e \<noteq> UNSUPPORTED_PAGE)"
    and "page = None \<or> page = Some bs \<Longrightarrow> decode_bitmap_chunk bs k c' = Inr (chunk_bits bitmap k)"
proof -
  have "(decode_bitmap_chunk bs k c' = Inr (chunk_bits bitmap k) \<or>
      (\<exists>e. decode_bitmap_chunk bs k c' = Inl e \<and> e \<noteq> UNSUPPORTED_PAGE)) \<and>
    (page = None \<or> page = Some bs \<longrightarrow> decode_bitmap_chunk bs k c' = Inr (chunk_bits bitmap k))"
  proof (cases "chunk_bits bitmap k = chunk_bits active k")
    case True
    then show ?thesis using nx old by (simp add: next_chunk_def)
  next
    case False
    let ?slot = "bitmap_slot_inactive (bc_slot c)"
    let ?w = "encode_chunk bitmap k ?slot g"
    have c': "c' = \<lparr>bc_slot = ?slot, bc_generation = g, bc_checksum = page_checksum ?w\<rparr>" "page = Some ?w"
      using nx False by (auto simp: next_chunk_def Let_def)
    have w: "decode_bitmap_chunk ?w k c' = Inr (chunk_bits bitmap k)"
      unfolding c' by (rule decode_encode_chunk(2) [OF b k])
    consider "bs = ?w" | "page_verify bs \<noteq> Inr ()" "page_verify bs \<noteq> Inl UNSUPPORTED_PAGE"
      | "page_verify bs = Inr ()" "page_checksum bs \<noteq> page_checksum ?w"
      using new [OF c'(2)] by blast
    then show ?thesis
    proof cases
      case 1
      then show ?thesis using w by simp
    next
      case 2
      then obtain e where "page_verify bs = Inl e" "e \<noteq> UNSUPPORTED_PAGE"
        by (cases "page_verify bs") auto
      moreover have "bs \<noteq> ?w" using 2(1) decode_encode_chunk(1) [OF b k] by auto
      ultimately show ?thesis using c'(2) by (simp add: decode_bitmap_chunk_def)
    next
      case 3
      then show ?thesis
        using c' by (auto simp: decode_bitmap_chunk_def read_u32_def page_checksum_def)
    qed
  qed
  then show "decode_bitmap_chunk bs k c' = Inr (chunk_bits bitmap k) \<or>
      (\<exists>e. decode_bitmap_chunk bs k c' = Inl e \<and> e \<noteq> UNSUPPORTED_PAGE)"
    "page = None \<or> page = Some bs \<Longrightarrow> decode_bitmap_chunk bs k c' = Inr (chunk_bits bitmap k)"
    by blast+
qed

lemma metadata_writes_distinct:
  assumes "root_ok active" "build_next_metadata active revision h catalog bitmap = Inr pm"
  shows "distinct (map fst (metadata_writes pm sb))"
proof -
  obtain c0 c1 where c: "sb_bitmap_chunks (rm_superblock active) = [c0, c1]"
    using assms(1) by (auto simp: root_ok_def length_two)
  note spec = build_next_spec [OF assms(1,2) c]
  show ?thesis
    using spec(1,7,8)
    by (cases "sb_slot (rm_superblock active)"; cases "bc_slot c0"; cases "bc_slot c1")
      (auto simp: metadata_writes_def chunk_writes_of_def next_chunk_def Let_def bitmap_slot_page_id_def)
qed

lemma obtain_slot:
  assumes "root_ok active" "build_next_metadata active revision h catalog bitmap = Inr pm"
  shows "sb_slot (pm_superblock pm) = slot_inactive (sb_slot (rm_superblock active))"
  using assms build_next_spec(1) by (metis length_two root_ok_def)

lemma crash_image_page:
  assumes "crash_image pages writes pages'" "i < length pages"
    and "distinct (map fst writes)" "(i, w) \<in> set writes"
  shows "pages' ! i = pages ! i \<or> pages' ! i = w \<or> page_verify (pages' ! i) = Inl INVALID_PAGE"
  using assms unfolding crash_image_def by (metis eq_key_imp_eq_value)

lemma crash_image_other:
  "crash_image pages writes pages' \<Longrightarrow> i < length pages \<Longrightarrow> i \<notin> fst ` set writes \<Longrightarrow> pages' ! i = pages ! i"
  by (force simp: crash_image_def)

text \<open>The changed chunks of the next root, read after a crash.\<close>

lemma crash_chunk_reads:
  assumes active: "root_ok active" and bm: "bitmap_ok bitmap"
    and build: "build_next_metadata active revision h catalog bitmap = Inr pm"
    and pub: "area_ok pages active" and coll: "checksums_differ pages (chunk_writes_of pm)"
    and crash: "crash_image pages (metadata_writes pm sb) pages'"
    and c: "sb_bitmap_chunks (rm_superblock active) = [c0, c1]"
    and k: "(k, c) = (0, c0) \<or> (k, c) = (1, c1)"
    and nx: "next_chunk (rm_allocation_bitmap active) bitmap (sb_generation (pm_superblock pm)) (k, c) = (c', page)"
  shows "decode_bitmap_chunk (pages' ! bitmap_slot_page_id (bc_slot c') k) k c' = Inr (chunk_bits bitmap k) \<or>
    (\<exists>e. decode_bitmap_chunk (pages' ! bitmap_slot_page_id (bc_slot c') k) k c' = Inl e \<and> e \<noteq> UNSUPPORTED_PAGE)"
    and "page = None \<or> page = Some (pages' ! bitmap_slot_page_id (bc_slot c') k) \<Longrightarrow>
      decode_bitmap_chunk (pages' ! bitmap_slot_page_id (bc_slot c') k) k c' = Inr (chunk_bits bitmap k)"
proof -
  let ?i = "bitmap_slot_page_id (bc_slot c') k"
  have len: "length (ab_bits bitmap) = 8192" using bm by (simp add: bitmap_ok_def)
  have k2: "k < 2" using k by auto
  have i6: "?i < 6" using k by (cases "bc_slot c'") (auto simp: bitmap_slot_page_id_def)
  note spec = build_next_spec [OF active build c]
  have read: "decode_metadata_candidate (sb_slot (rm_superblock active)) pages = Inr active"
    and p6: "length pages = 6" and fmt: "\<forall>bs \<in> set pages. page_verify bs \<noteq> Inl UNSUPPORTED_PAGE"
    using pub area_okD [OF pub] by (auto simp: in_set_conv_nth)
  have old: "decode_bitmap_chunk (pages' ! ?i) k c = Inr (chunk_bits (rm_allocation_bitmap active) k)"
    if "page = None"
  proof -
    have "c' = c" using nx that by (auto simp: next_chunk_def Let_def split: if_splits)
    moreover have "pages' ! ?i = pages ! ?i"
    proof (rule crash_image_other [OF crash])
      have "?i \<in> set (root_pages (rm_superblock active))"
        using k \<open>c' = c\<close> by (auto simp: root_pages_two [OF c])
      then show "?i \<notin> fst ` set (metadata_writes pm sb)"
        using metadata_writes_avoid_active [OF active build] by fastforce
    qed (use i6 p6 in simp)
    ultimately show ?thesis
      using decode_candidate_chunks [OF read c] k by auto
  qed
  have new: "pages' ! ?i = w \<or>
      page_verify (pages' ! ?i) \<noteq> Inr () \<and> page_verify (pages' ! ?i) \<noteq> Inl UNSUPPORTED_PAGE \<or>
      page_verify (pages' ! ?i) = Inr () \<and> page_checksum (pages' ! ?i) \<noteq> page_checksum w"
    if w: "page = Some w" for w
  proof -
    have mem: "(?i, w) \<in> set (chunk_writes_of pm)"
      using k nx w spec(7,8) by (auto simp: chunk_writes_of_def)
    then have "pages' ! ?i = pages ! ?i \<or> pages' ! ?i = w \<or> page_verify (pages' ! ?i) = Inl INVALID_PAGE"
      using crash_image_page [OF crash _ metadata_writes_distinct [OF active build]] i6 p6
      by (simp add: metadata_writes_def)
    moreover have "page_verify (pages ! ?i) \<noteq> Inl UNSUPPORTED_PAGE"
      using fmt i6 p6 by simp
    moreover have "pages ! ?i = w \<or> page_verify (pages ! ?i) \<noteq> Inr () \<or>
        page_checksum (pages ! ?i) \<noteq> page_checksum w"
      using coll mem by (auto simp: checksums_differ_def list_all_iff)
    ultimately show ?thesis by auto
  qed
  from next_chunk_read [OF len k2 nx old new]
  show "decode_bitmap_chunk (pages' ! ?i) k c' = Inr (chunk_bits bitmap k) \<or>
      (\<exists>e. decode_bitmap_chunk (pages' ! ?i) k c' = Inl e \<and> e \<noteq> UNSUPPORTED_PAGE)"
    "page = None \<or> page = Some (pages' ! ?i) \<Longrightarrow>
      decode_bitmap_chunk (pages' ! ?i) k c' = Inr (chunk_bits bitmap k)"
    by blast+
qed

lemma crash_active_read:
  assumes "root_ok active" "build_next_metadata active revision h catalog bitmap = Inr pm"
    and "area_ok pages active" "crash_image pages (metadata_writes pm sb) pages'"
  shows "decode_metadata_candidate (sb_slot (rm_superblock active)) pages' = Inr active"
proof (rule decode_candidate_local)
  show "decode_metadata_candidate (sb_slot (rm_superblock active)) pages = Inr active"
    by (rule area_okD(2) [OF assms(3)])
  fix i assume i: "i \<in> set (root_pages (rm_superblock active))"
  obtain c0 c1 where c: "sb_bitmap_chunks (rm_superblock active) = [c0, c1]"
    using assms(1) by (auto simp: root_ok_def length_two)
  have "i < 6"
    using i by (cases "sb_slot (rm_superblock active)"; cases "bc_slot c0"; cases "bc_slot c1")
      (auto simp: root_pages_two [OF c] bitmap_slot_page_id_def)
  moreover have "i \<notin> fst ` set (metadata_writes pm sb)"
    using i metadata_writes_avoid_active [OF assms(1,2)] by fastforce
  ultimately show "pages' ! i = pages ! i"
    using crash_image_other [OF assms(4)] area_okD(1) [OF assms(3)] by simp
qed

text \<open>The other slot with the new superblock in place: the new root, or unreadable.\<close>

lemma crash_new_superblock:
  assumes active: "root_ok active" and bm: "bitmap_ok bitmap"
    and build: "build_next_metadata active revision h catalog bitmap = Inr pm"
    and pub: "area_ok pages active" and coll: "checksums_differ pages (chunk_writes_of pm)"
    and sb: "encode_superblock_page (rm_superblock (pending_root pm hash)) bitmap = Inr sb"
    and crash: "crash_image pages (metadata_writes pm sb) pages'"
    and new: "pages' ! slot_page_id (slot_inactive (sb_slot (rm_superblock active))) = sb"
  shows "decode_metadata_candidate (slot_inactive (sb_slot (rm_superblock active))) pages' = Inr (pending_root pm hash)
      \<or> (\<exists>e. decode_metadata_candidate (slot_inactive (sb_slot (rm_superblock active))) pages' = Inl e \<and> e \<noteq> UNSUPPORTED_PAGE)"
    and "(\<And>i w. (i, w) \<in> set (chunk_writes_of pm) \<Longrightarrow> pages' ! i = w) \<Longrightarrow>
      decode_metadata_candidate (slot_inactive (sb_slot (rm_superblock active))) pages' = Inr (pending_root pm hash)"
proof -
  let ?other = "slot_inactive (sb_slot (rm_superblock active))"
  let ?r = "pending_root pm hash"
  obtain c0 c1 where c: "sb_bitmap_chunks (rm_superblock active) = [c0, c1]"
    using active by (auto simp: root_ok_def length_two)
  note spec = build_next_spec [OF active build c]
  let ?nx = "next_chunk (rm_allocation_bitmap active) bitmap (sb_generation (pm_superblock pm))"
  obtain d0 p0 where n0: "?nx (0, c0) = (d0, p0)" by (cases "?nx (0, c0)")
  obtain d1 p1 where n1: "?nx (1, c1) = (d1, p1)" by (cases "?nx (1, c1)")
  have d: "sb_bitmap_chunks (rm_superblock ?r) = [d0, d1]"
    using spec(7) n0 n1 by (simp add: pending_root_def)
  have slot: "sb_slot (rm_superblock ?r) = ?other" and bitmap: "rm_allocation_bitmap ?r = bitmap"
    using spec(1,6) by (simp_all add: pending_root_def)
  have rok: "root_ok ?r" by (rule pending_root_ok [OF active bm build])
  note r0 = crash_chunk_reads [OF active bm build pub coll crash c _ n0]
  note r1 = crash_chunk_reads [OF active bm build pub coll crash c _ n1]
  let ?D0 = "decode_bitmap_chunk (pages' ! bitmap_slot_page_id (bc_slot d0) 0) 0 d0"
  let ?D1 = "decode_bitmap_chunk (pages' ! bitmap_slot_page_id (bc_slot d1) 1) 1 d1"
  have good: "decode_metadata_candidate ?other pages' = Inr ?r"
    if "?D0 = Inr (chunk_bits bitmap 0)" "?D1 = Inr (chunk_bits bitmap 1)"
    using decode_candidate_root [OF rok d, of pages'] sb new that slot bitmap by simp
  have "superblock_validate (rm_superblock ?r) = Inr ()" "validate_bitmap (rm_superblock ?r) bitmap = Inr ()"
    using rok bitmap by (simp_all add: root_ok_def)
  from encode_superblock_image [OF this d] decode_superblock_image [OF _ this(1) d] bm sb new
  have dec: "decode_superblock_page (pages' ! slot_page_id ?other) = Inr (rm_superblock ?r, superblock_bits bitmap)"
    by (simp add: bitmap_ok_def)
  have bad: "\<exists>e. decode_metadata_candidate ?other pages' = Inl e \<and> e \<noteq> UNSUPPORTED_PAGE"
    if "?D0 = Inl e0 \<and> e0 \<noteq> UNSUPPORTED_PAGE \<or> ?D0 = Inr b0 \<and> ?D1 = Inl e0 \<and> e0 \<noteq> UNSUPPORTED_PAGE" for e0 b0
    using that by (auto simp: decode_metadata_candidate_def dec slot d)
  show "decode_metadata_candidate ?other pages' = Inr ?r \<or>
      (\<exists>e. decode_metadata_candidate ?other pages' = Inl e \<and> e \<noteq> UNSUPPORTED_PAGE)"
    using good bad r0(1) r1(1) by blast
  assume all: "\<And>i w. (i, w) \<in> set (chunk_writes_of pm) \<Longrightarrow> pages' ! i = w"
  have "p0 = None \<or> p0 = Some (pages' ! bitmap_slot_page_id (bc_slot d0) 0)"
    "p1 = None \<or> p1 = Some (pages' ! bitmap_slot_page_id (bc_slot d1) 1)"
    using all [of "bitmap_slot_page_id (bc_slot d0) 0" "the p0"]
      all [of "bitmap_slot_page_id (bc_slot d1) 1" "the p1"] spec(7,8) n0 n1
    by (cases p0; cases p1; auto simp: chunk_writes_of_def)+
  then show "decode_metadata_candidate ?other pages' = Inr ?r"
    using good r0(2) r1(2) by blast
qed

lemma encoded_superblock_decodes:
  assumes active: "root_ok active" and bm: "bitmap_ok bitmap"
    and build: "build_next_metadata active revision h catalog bitmap = Inr pm"
    and sb: "encode_superblock_page (rm_superblock (pending_root pm hash)) bitmap = Inr sb"
  shows "decode_superblock_page sb = Inr (rm_superblock (pending_root pm hash), superblock_bits bitmap)"
proof -
  let ?r = "pending_root pm hash"
  have "root_ok ?r" by (rule pending_root_ok [OF active bm build])
  moreover have "rm_allocation_bitmap ?r = bitmap"
    using active build build_next_spec(6) by (fastforce simp: root_ok_def length_two pending_root_def)
  ultimately obtain d0 d1 where d: "sb_bitmap_chunks (rm_superblock ?r) = [d0, d1]"
    and v: "superblock_validate (rm_superblock ?r) = Inr ()" "validate_bitmap (rm_superblock ?r) bitmap = Inr ()"
    by (auto simp: root_ok_def length_two)
  from encode_superblock_image [OF v d] sb decode_superblock_image [OF _ v(1) d] bm show ?thesis
    by (simp add: bitmap_ok_def)
qed

lemma writes_verify:
  assumes active: "root_ok active" and bm: "bitmap_ok bitmap"
    and build: "build_next_metadata active revision h catalog bitmap = Inr pm"
    and sb: "encode_superblock_page (rm_superblock (pending_root pm hash)) bitmap = Inr sb"
    and w: "(i, w) \<in> set (metadata_writes pm sb)"
  shows "page_verify w = Inr ()"
proof -
  obtain c0 c1 where c: "sb_bitmap_chunks (rm_superblock active) = [c0, c1]"
    using active by (auto simp: root_ok_def length_two)
  note spec = build_next_spec [OF active build c]
  have len: "length (ab_bits bitmap) = 8192" using bm by (simp add: bitmap_ok_def)
  note encoded_superblock_decodes [OF active bm build sb]
  then have "page_verify sb = Inr ()"
    by (cases "page_verify sb") (auto simp: decode_superblock_page_def)
  then show ?thesis
    using w spec(8) decode_encode_chunk(1) [OF len]
    by (auto simp: metadata_writes_def chunk_writes_of_def next_chunk_def Let_def split: if_splits)
qed

text \<open>
  The other slot with its old superblock in place, no newer than the active root: its chunks are older than the
  commit's, so that it is read from the pages it was read from before.
\<close>

lemma decode_bitmap_chunk_generation:
  assumes "decode_bitmap_chunk bs k entry = Inr bits" "decode_bitmap_chunk bs k' entry' = Inr bits'"
  shows "bc_generation entry = bc_generation entry'"
  using assms by (auto simp: decode_bitmap_chunk_def and_then_eq_Inr Let_def split: if_splits)

lemma chunk_write_generation:
  assumes "root_ok active" "bitmap_ok bitmap" "build_next_metadata active revision h catalog bitmap = Inr pm"
    and "(i, w) \<in> set (chunk_writes_of pm)" "decode_bitmap_chunk w k entry = Inr bits"
  shows "bc_generation entry = sb_generation (pm_superblock pm)"
proof -
  obtain c0 c1 where c: "sb_bitmap_chunks (rm_superblock active) = [c0, c1]"
    using assms(1) by (auto simp: root_ok_def length_two)
  note spec = build_next_spec [OF assms(1,3) c]
  have len: "length (ab_bits bitmap) = 8192" using assms(2) by (simp add: bitmap_ok_def)
  let ?w = "\<lambda>k c. encode_chunk bitmap k (bitmap_slot_inactive (bc_slot c)) (sb_generation (pm_superblock pm))"
  have "w = ?w 0 c0 \<or> w = ?w 1 c1"
    using assms(4) spec(7,8) by (auto simp: chunk_writes_of_def next_chunk_def Let_def split: if_splits)
  then obtain k' slot where k': "k' < 2" "w = encode_chunk bitmap k' slot (sb_generation (pm_superblock pm))"
    using that [of 0] that [of 1] by auto
  from decode_bitmap_chunk_generation [OF assms(5) decode_encode_chunk(2) [OF len k'(1), of slot
      "sb_generation (pm_superblock pm)", folded k'(2)]] show ?thesis by simp
qed

lemma crash_old_superblock:
  assumes active: "root_ok active" and bm: "bitmap_ok bitmap"
    and build: "build_next_metadata active revision h catalog bitmap = Inr pm"
    and p6: "length pages = 6" and crash: "crash_image pages (metadata_writes pm sb) pages'"
    and slot: "slot = slot_inactive (sb_slot (rm_superblock active))"
    and same: "pages' ! slot_page_id slot = pages ! slot_page_id slot"
    and now: "decode_metadata_candidate slot pages' = Inr r"
    and old: "sb_generation (rm_superblock r) \<le> sb_generation (rm_superblock active)"
  shows "decode_metadata_candidate slot pages = Inr r"
proof -
  have r: "superblock_validate (rm_superblock r) = Inr ()" "sb_slot (rm_superblock r) = slot"
    using decode_candidate_ok [OF now] by (simp_all add: root_ok_def)
  obtain d0 d1 where d: "sb_bitmap_chunks (rm_superblock r) = [d0, d1]"
    using decode_candidate_ok [OF now] by (auto simp: root_ok_def length_two)
  note reads = decode_candidate_chunks [OF now d]
  obtain c0 c1 where c: "sb_bitmap_chunks (rm_superblock active) = [c0, c1]"
    using active by (auto simp: root_ok_def length_two)
  have "unat (sb_generation (rm_superblock r)) < unat (sb_generation (pm_superblock pm))"
    using old build_next_spec(2) [OF active build c] by (simp add: word_le_nat_alt)
  then have gen: "bc_generation d0 \<noteq> sb_generation (pm_superblock pm)" "bc_generation d1 \<noteq> sb_generation (pm_superblock pm)"
    using r(1) d by (auto simp: superblock_validate_ok word_le_nat_alt)
  have chunk: "pages ! j = pages' ! j"
    if j: "j < 6" "j \<noteq> slot_page_id slot" and dec: "decode_bitmap_chunk (pages' ! j) k e = Inr b"
      and e: "bc_generation e \<noteq> sb_generation (pm_superblock pm)" for j k e b
  proof (rule ccontr)
    assume neq: "pages ! j \<noteq> pages' ! j"
    obtain w where w: "(j, w) \<in> set (metadata_writes pm sb)" "pages' ! j = w"
      using crash neq j p6 decode_bitmap_chunk_page [OF dec] by (auto simp: crash_image_def)
    then have "(j, w) \<in> set (chunk_writes_of pm)"
      using j(2) slot obtain_slot [OF active build] by (auto simp: metadata_writes_def)
    from chunk_write_generation [OF active bm build this] dec e w(2) show False by blast
  qed
  have ids: "bitmap_slot_page_id (bc_slot d0) 0 < 6" "bitmap_slot_page_id (bc_slot d1) 1 < 6"
    "bitmap_slot_page_id (bc_slot d0) 0 \<noteq> slot_page_id slot" "bitmap_slot_page_id (bc_slot d1) 1 \<noteq> slot_page_id slot"
    by (cases "bc_slot d0"; cases "bc_slot d1"; cases slot; simp add: bitmap_slot_page_id_def)+
  have "pages ! i = pages' ! i" if "i \<in> set (root_pages (rm_superblock r))" for i
    using that same r(2) chunk [OF ids(1,3) reads(1) gen(1)] chunk [OF ids(2,4) reads(2) gen(2)]
    by (auto simp: root_pages_two [OF d])
  from decode_candidate_local [OF now this] show ?thesis by simp
qed

lemma recover_twins:
  assumes "decode_metadata_candidate Slot_A pages = Inr a" "decode_metadata_candidate Slot_B pages = Inr b"
    and "logically_matches a b"
  shows "recover_metadata pages = Inr (a, None)"
  using assms by (simp add: recover_metadata_def logically_matches_def Let_def)

text \<open>No page of a crashed commit is of another format.\<close>

lemma crash_format:
  assumes pub: "area_ok pages active" and bm: "bitmap_ok bitmap"
    and build: "build_next_metadata active revision h catalog bitmap = Inr pm"
    and sb: "encode_superblock_page (rm_superblock (pending_root pm hash)) bitmap = Inr sb"
    and crash: "crash_image pages (metadata_writes pm sb) pages'" and i: "i < 6"
  shows "page_verify (pages' ! i) \<noteq> Inl UNSUPPORTED_PAGE"
  using crash i area_okD(1) [OF pub] area_okD(3) [OF pub i] writes_verify [OF area_okD(4) [OF pub] bm build sb]
  by (fastforce simp: crash_image_def)

text \<open>The superblock in the other slot after a crash.\<close>

lemma crash_other_slot:
  assumes pub: "area_ok pages active"
    and build: "build_next_metadata active revision h catalog bitmap = Inr pm"
    and crash: "crash_image pages (metadata_writes pm sb) pages'"
    and other: "other = slot_inactive (sb_slot (rm_superblock active))"
  obtains "pages' ! slot_page_id other = sb" | "pages' ! slot_page_id other = pages ! slot_page_id other"
    | "decode_superblock_page (pages' ! slot_page_id other) = Inl INVALID_PAGE"
proof -
  note active = area_okD(4) [OF pub]
  have "(slot_page_id other, sb) \<in> set (metadata_writes pm sb)"
    using obtain_slot [OF active build] other by (simp add: metadata_writes_def)
  moreover have "slot_page_id other < 6" by (cases other) simp_all
  ultimately have "pages' ! slot_page_id other = pages ! slot_page_id other \<or> pages' ! slot_page_id other = sb \<or>
      page_verify (pages' ! slot_page_id other) = Inl INVALID_PAGE"
    using crash_image_page [OF crash _ metadata_writes_distinct [OF active build]] area_okD(1) [OF pub] by simp
  moreover have "page_verify bs = Inl INVALID_PAGE \<Longrightarrow> decode_superblock_page bs = Inl INVALID_PAGE" for bs
    by (simp add: decode_superblock_page_def)
  ultimately show thesis using that by blast
qed

text \<open>
  The root a crashed commit recovers to: the active root, the new one after it, or the one the other slot's superblock
  already named, which is then the direct successor of the active root as well.
\<close>

lemma crash_recovers:
  assumes pub: "area_ok pages active" and bm: "bitmap_ok bitmap"
    and build: "build_next_metadata active revision h catalog bitmap = Inr pm"
    and coll: "checksums_differ pages (chunk_writes_of pm)"
    and sb: "encode_superblock_page (rm_superblock (pending_root pm hash)) bitmap = Inr sb"
    and crash: "crash_image pages (metadata_writes pm sb) pages'"
  shows "(\<exists>previous. recover_metadata pages' = Inr (active, previous)) \<or>
    recover_metadata pages' = Inr (pending_root pm hash, Some active) \<or>
    (\<exists>abandoned bits. recover_metadata pages' = Inr (abandoned, Some active) \<and>
      decode_superblock_page (pages ! slot_page_id (slot_inactive (sb_slot (rm_superblock active)))) =
        Inr (rm_superblock abandoned, bits) \<and>
      pages' ! slot_page_id (slot_inactive (sb_slot (rm_superblock active))) =
        pages ! slot_page_id (slot_inactive (sb_slot (rm_superblock active))))"
proof -
  let ?slot = "sb_slot (rm_superblock active)"
  let ?other = "slot_inactive ?slot"
  let ?C = "decode_metadata_candidate ?other pages'"
  note active = area_okD(4) [OF pub]
  obtain c0 c1 where c: "sb_bitmap_chunks (rm_superblock active) = [c0, c1]"
    using active by (auto simp: root_ok_def length_two)
  note spec = build_next_spec [OF active build c]
  have read: "decode_metadata_candidate ?slot pages' = Inr active"
    by (rule crash_active_read [OF active build pub crash])
  have newer: "recover_metadata pages' = Inr (r, Some active)"
    if "?C = Inr r" "sb_generation (rm_superblock r) = sb_generation (pm_superblock pm)" for r
  proof -
    have "sb_generation (rm_superblock active) < sb_generation (rm_superblock r)"
      using spec(2) that(2) by (simp add: word_less_nat_alt)
    with recover_two_roots [of ?other pages' r active] that read spec(3) show ?thesis
      by (simp add: predecessor_def)
  qed
  have unreadable: "recover_metadata pages' = Inr (active, None)" if "?C = Inl e" "e \<noteq> UNSUPPORTED_PAGE" for e
    by (rule recover_other_unreadable [OF read that])
  show ?thesis
  proof (rule crash_other_slot [OF pub build crash refl])
    assume "pages' ! slot_page_id ?other = sb"
    from crash_new_superblock(1) [OF active bm build pub coll sb crash this] newer unreadable
    show ?thesis by (auto simp: pending_root_def)
  next
    assume "decode_superblock_page (pages' ! slot_page_id ?other) = Inl INVALID_PAGE"
    then have "?C = Inl INVALID_PAGE" by (simp add: decode_metadata_candidate_def)
    with unreadable show ?thesis by blast
  next
    assume same: "pages' ! slot_page_id ?other = pages ! slot_page_id ?other"
    show ?thesis
    proof (cases ?C)
      case (Inl e)
      then have "e \<noteq> UNSUPPORTED_PAGE"
        using decode_candidate_error [of ?other pages'] crash_format [OF pub bm build sb crash] same pub
        by (auto simp: area_ok_def Let_def split: sum.splits)
      with unreadable [OF Inl] show ?thesis by blast
    next
      case (Inr o')
      then obtain bits where s: "decode_superblock_page (pages ! slot_page_id ?other) = Inr (rm_superblock o', bits)"
        using same by (auto simp: decode_metadata_candidate_def and_then_eq_Inr split: if_splits)
      let ?g = "sb_generation (rm_superblock o')" and ?a = "sb_generation (rm_superblock active)"
      have "unat ?g \<le> unat ?a + 1" using pub s by (simp add: area_ok_def Let_def)
      then consider "?g < ?a" | "?g = ?a" | "?g = sb_generation (pm_superblock pm)"
        using spec(2) by (metis Suc_eq_plus1 le_Suc_eq le_neq_implies_less word_less_nat_alt word_unat_eq_iff)
      then show ?thesis
      proof cases
        case 1
        from recover_two_roots [OF read Inr this] show ?thesis by blast
      next
        case 2
        with crash_old_superblock [OF active bm build area_okD(1) [OF pub] crash refl same Inr]
        have "decode_metadata_candidate ?other pages = Inr o'" by simp
        with 2 pub s have "?slot = Slot_A" "logically_matches active o'" by (simp_all add: area_ok_def Let_def)
        with recover_twins [of pages' active o'] read Inr show ?thesis by auto
      next
        case 3
        from newer [OF Inr this] s same show ?thesis by blast
      qed
    qed
  qed
qed

text \<open>A crash leaves an area of the same kind, and so does choosing either of the roots that recovery finds.\<close>

lemma crash_area_ok:
  assumes pub: "area_ok pages active" and bm: "bitmap_ok bitmap"
    and build: "build_next_metadata active revision h catalog bitmap = Inr pm"
    and sb: "encode_superblock_page (rm_superblock (pending_root pm hash)) bitmap = Inr sb"
    and crash: "crash_image pages (metadata_writes pm sb) pages'"
  shows "area_ok pages' active"
proof -
  let ?other = "slot_inactive (sb_slot (rm_superblock active))"
  note active = area_okD(4) [OF pub]
  obtain c0 c1 where c: "sb_bitmap_chunks (rm_superblock active) = [c0, c1]"
    using active by (auto simp: root_ok_def length_two)
  note spec = build_next_spec [OF active build c]
  have p6: "length pages' = 6" using crash area_okD(1) [OF pub] by (simp add: crash_image_def)
  have "list_all (\<lambda>bs. page_verify bs \<noteq> Inl UNSUPPORTED_PAGE) pages'"
    using crash_format [OF pub bm build sb crash] p6 by (simp add: list_all_length)
  moreover have "case decode_superblock_page (pages' ! slot_page_id ?other) of
      Inr (s, bits) \<Rightarrow> unat (sb_generation s) \<le> unat (sb_generation (rm_superblock active)) + 1 \<and>
        (sb_generation s = sb_generation (rm_superblock active) \<longrightarrow>
          (case decode_metadata_candidate ?other pages' of
             Inr twin \<Rightarrow> sb_slot (rm_superblock active) = Slot_A \<and> logically_matches active twin | Inl _ \<Rightarrow> True))
    | Inl e \<Rightarrow> e \<noteq> UNSUPPORTED_PAGE"
  proof (rule crash_other_slot [OF pub build crash refl])
    assume new: "pages' ! slot_page_id ?other = sb"
    have "decode_superblock_page sb = Inr (rm_superblock (pending_root pm hash), superblock_bits bitmap)"
      by (rule encoded_superblock_decodes [OF active bm build sb])
    then show ?thesis unfolding new using spec(2) by (auto simp: pending_root_def)
  next
    assume same: "pages' ! slot_page_id ?other = pages ! slot_page_id ?other"
    have "sb_slot (rm_superblock active) = Slot_A \<and> logically_matches active twin"
      if s: "decode_superblock_page (pages ! slot_page_id ?other) = Inr (s, bits)"
        and eq: "sb_generation s = sb_generation (rm_superblock active)"
        and twin: "decode_metadata_candidate ?other pages' = Inr twin" for s bits twin
    proof -
      have "rm_superblock twin = s"
        using twin s same by (auto simp: decode_metadata_candidate_def and_then_eq_Inr split: if_splits)
      with eq crash_old_superblock [OF active bm build area_okD(1) [OF pub] crash refl same twin]
      have "decode_metadata_candidate ?other pages = Inr twin" by simp
      with pub s eq show ?thesis by (simp add: area_ok_def Let_def)
    qed
    then show ?thesis unfolding same using pub by (auto simp: area_ok_def Let_def split: sum.splits)
  qed simp
  ultimately show ?thesis
    using p6 crash_active_read [OF active build pub crash] by (simp add: area_ok_def Let_def)
qed

lemma recovered_area_ok:
  assumes ok: "area_ok pages active" and rec: "recover_metadata pages = Inr (newest, previous)"
    and root: "root = newest \<or> previous = Some root"
  shows "area_ok pages root"
proof -
  let ?slot = "sb_slot (rm_superblock active)"
  let ?other = "slot_inactive ?slot"
  have a: "decode_metadata_candidate ?slot pages = Inr active" by (rule area_okD(2) [OF ok])
  show ?thesis
  proof (cases "root = active")
    case False
    obtain r where r: "decode_metadata_candidate ?other pages = Inr r" "root = r"
      using rec root a False by (cases ?slot) (auto simp: recover_metadata_def Let_def split: if_splits sum.splits)
    then have slot: "sb_slot (rm_superblock root) = ?other" using decode_candidate_ok by blast
    obtain bits where sb: "decode_superblock_page (pages ! slot_page_id ?slot) = Inr (rm_superblock active, bits)"
      using a by (auto simp: decode_metadata_candidate_def and_then_eq_Inr split: if_splits)
    have gens: "unat (sb_generation (rm_superblock active)) \<le> unat (sb_generation (rm_superblock root)) + 1"
      "sb_generation (rm_superblock active) \<noteq> sb_generation (rm_superblock root)"
    proof -
      obtain s bits' where s: "decode_superblock_page (pages ! slot_page_id ?other) = Inr (s, bits')" "rm_superblock root = s"
        using r by (auto simp: decode_metadata_candidate_def and_then_eq_Inr split: if_splits)
      show ne: "sb_generation (rm_superblock active) \<noteq> sb_generation (rm_superblock root)"
      proof
        assume eq: "sb_generation (rm_superblock active) = sb_generation (rm_superblock root)"
        with ok r s have "?slot = Slot_A" "logically_matches active root" by (simp_all add: area_ok_def Let_def)
        with recover_twins [of pages active root] a r rec root False show False by auto
      qed
      show "unat (sb_generation (rm_superblock active)) \<le> unat (sb_generation (rm_superblock root)) + 1"
      proof (cases "sb_generation (rm_superblock root) < sb_generation (rm_superblock active)")
        case True
        from recover_two_roots [OF a r(1)] True r(2) rec root False
        have "checked_add (sb_generation (rm_superblock root)) 1 = Some (sb_generation (rm_superblock active))"
          by (auto simp: predecessor_def split: if_splits)
        then show ?thesis by (auto dest: checked_add_Some)
      next
        case False
        then show ?thesis by (simp add: word_less_nat_alt)
      qed
    qed
    with ok slot r sb show ?thesis by (simp add: area_ok_def Let_def)
  qed (use ok in simp)
qed

text \<open>Once every write of the commit is in place, the new root is recovered.\<close>

lemma durable_recovers:
  assumes active: "root_ok active" and bm: "bitmap_ok bitmap"
    and build: "build_next_metadata active revision h catalog bitmap = Inr pm"
    and pub: "area_ok pages active" and coll: "checksums_differ pages (chunk_writes_of pm)"
    and sb: "encode_superblock_page (rm_superblock (pending_root pm hash)) bitmap = Inr sb"
    and crash: "crash_image pages (metadata_writes pm sb) pages'"
    and all: "\<And>i w. (i, w) \<in> set (metadata_writes pm sb) \<Longrightarrow> pages' ! i = w"
  shows "recover_metadata pages' = Inr (pending_root pm hash, Some active)"
proof -
  obtain c0 c1 where c: "sb_bitmap_chunks (rm_superblock active) = [c0, c1]"
    using active by (auto simp: root_ok_def length_two)
  note spec = build_next_spec [OF active build c]
  let ?other = "slot_inactive (sb_slot (rm_superblock active))"
  have new: "pages' ! slot_page_id ?other = sb"
    using all spec(1) by (simp add: metadata_writes_def)
  have cand: "decode_metadata_candidate ?other pages' = Inr (pending_root pm hash)"
    by (rule crash_new_superblock(2) [OF active bm build pub coll sb crash new])
      (use all in \<open>simp add: metadata_writes_def\<close>)
  have read: "decode_metadata_candidate (slot_inactive ?other) pages' = Inr active"
    using crash_active_read [OF active build pub crash] by simp
  have "sb_generation (rm_superblock active) < sb_generation (rm_superblock (pending_root pm hash))"
    using spec(2) by (simp add: pending_root_def word_less_nat_alt)
  from recover_two_roots [OF cand read this] spec(3) show ?thesis
    by (simp add: predecessor_def pending_root_def)
qed

section \<open>Writing a whole root\<close>

lemma encode_pages_ok:
  assumes "root_ok r"
  shows "\<exists>r' ps. encode_pages r = Inr (r', ps) \<and> root_ok r' \<and> logically_matches r r' \<and>
    sb_slot (rm_superblock r') = sb_slot (rm_superblock r) \<and>
    map fst ps = tl (root_pages (rm_superblock r)) @ [slot_page_id (sb_slot (rm_superblock r))] \<and>
    list_all (\<lambda>(i, bs). page_verify bs = Inr ()) ps \<and>
    (\<forall>pages. (\<forall>(i, bs) \<in> set ps. pages ! i = bs) \<longrightarrow>
       decode_metadata_candidate (sb_slot (rm_superblock r)) pages = Inr r')"
proof -
  obtain c0 c1 where c: "sb_bitmap_chunks (rm_superblock r) = [c0, c1]"
    using assms by (auto simp: root_ok_def length_two)
  let ?s = "rm_superblock r" and ?b = "rm_allocation_bitmap r"
  have len: "length (ab_bits ?b) = 8192" using assms by (simp add: root_ok_def bitmap_ok_def)
  define w where "w k e = encode_chunk ?b k (bc_slot e) (bc_generation e)"
    for k and e :: bitmap_chunk
  define d0 where "d0 = c0\<lparr>bc_checksum := page_checksum (w 0 c0)\<rparr>"
  define d1 where "d1 = c1\<lparr>bc_checksum := page_checksum (w 1 c1)\<rparr>"
  define s' where "s' = ?s\<lparr>sb_bitmap_chunks := [d0, d1]\<rparr>"
  define r' where "r' = r\<lparr>rm_superblock := s'\<rparr>"
  have ok: "root_ok r'" and v: "superblock_validate s' = Inr ()" "validate_bitmap s' ?b = Inr ()"
    using assms
    by (simp_all add: root_ok_def r'_def s'_def superblock_validate_ok validate_bitmap_ok c d0_def d1_def)
  have d: "sb_bitmap_chunks s' = [d0, d1]" by (simp add: s'_def)
  obtain sb where sb: "encode_superblock_page s' ?b = Inr sb"
    using encode_superblock_image [OF v d] by blast
  let ?ps = "[(bitmap_slot_page_id (bc_slot c0) 0, w 0 c0), (bitmap_slot_page_id (bc_slot c1) 1, w 1 c1),
      (slot_page_id (sb_slot ?s), sb)]"
  have enc: "encode_pages r = Inr (r', ?ps)"
    using sb by (simp add: encode_pages_def Let_def c r'_def s'_def d0_def d1_def w_def)
  have "decode_superblock_page sb = Inr (s', superblock_bits ?b)"
    using decode_superblock_image [OF _ v(1) d] encode_superblock_image [OF v d] sb len by simp
  then have vsb: "page_verify sb = Inr ()"
    by (cases "page_verify sb") (auto simp: decode_superblock_page_def)
  have vw: "page_verify (w k e) = Inr ()" if "k < 2" for k e
    unfolding w_def by (rule decode_encode_chunk(1) [OF len that])
  have dec: "decode_bitmap_chunk (w 0 c0) 0 d0 = Inr (chunk_bits ?b 0)"
    "decode_bitmap_chunk (w 1 c1) 1 d1 = Inr (chunk_bits ?b 1)"
    using decode_encode_chunk(2) [OF len, of 0 "bc_slot c0" "bc_generation c0"]
      decode_encode_chunk(2) [OF len, of 1 "bc_slot c1" "bc_generation c1"]
    by (cases c0, cases c1, simp add: d0_def d1_def w_def)+
  have "decode_metadata_candidate (sb_slot ?s) pages = Inr r'"
    if "\<forall>(i, bs) \<in> set ?ps. pages ! i = bs" for pages
    using decode_candidate_root [OF ok, of d0 d1 pages] that sb dec
    by (simp add: r'_def s'_def d0_def d1_def)
  moreover have "logically_matches r r'" "sb_slot (rm_superblock r') = sb_slot ?s"
    by (simp_all add: logically_matches_def r'_def s'_def)
  moreover have "map fst ?ps = tl (root_pages ?s) @ [slot_page_id (sb_slot ?s)]"
    by (simp add: root_pages_two [OF c])
  ultimately show ?thesis
    using enc ok vsb vw [of 0] vw [of 1]
    by (intro exI [of _ r'] exI [of _ ?ps]) simp
qed

lemma empty_root_ok: "root_ok (recovered_metadata_empty slot)"
proof -
  have "list_all (allocates allocation_bitmap_new) [0..<6]" "ab_allocated allocation_bitmap_new = 6"
    using allocation_bitmap_new_ok by (simp_all add: bitmap_ok_def allocation_bitmap_new_set)
  then show ?thesis
    using allocation_bitmap_new_ok
    by (simp add: root_ok_def recovered_metadata_empty_def superblock_validate_ok validate_bitmap_ok
        allocated_page_count_def MAX_DATABASE_REVISION_def)
qed

section \<open>Revision bounds\<close>

lemma next_database_revision_spec:
  "next_database_revision revision =
     (if revision < MAX_DATABASE_REVISION then Inr (revision + 1) else Inl REVISION_OVERFLOW)"
proof (cases "revision < MAX_DATABASE_REVISION")
  case True
  then have "unat revision < 9007199254740991"
    by (simp add: word_less_nat_alt MAX_DATABASE_REVISION_def)
  then show ?thesis
    using True
    by (simp add: next_database_revision_def checked_add_def validate_database_revision_def
        word_le_nat_alt MAX_DATABASE_REVISION_def unat_word_ariths)
next
  case False
  then have "9007199254740991 \<le> unat revision"
    by (simp add: word_less_nat_alt MAX_DATABASE_REVISION_def)
  then show ?thesis
    using False
    by (auto simp: next_database_revision_def checked_add_def validate_database_revision_def
        word_le_nat_alt MAX_DATABASE_REVISION_def unat_word_ariths)
qed

end
