(* ===== verification/Device.thy ===== *)
theory Device
  imports Page
begin

text \<open>
  \<^verbatim>\<open>device.rs\<close>: the trait the pager stores pages through, and the memory device. The trait is a record
  of its operations, which the cache and the pager take as an argument; what its documentation
  promises is the locale \<open>page_device\<close>, in which the lemmas on callers' side are proved, and the memory
  device is an interpretation of it.

  An operation with a mutable receiver takes the state last and returns its result with the new state,
  which is there on an error too.
\<close>

section \<open>Stateful operations\<close>

type_synonym ('s, 'a) op = "'s \<Rightarrow> 'a res \<times> 's"

definition return_op :: "'a \<Rightarrow> ('s, 'a) op" where
  "return_op x s = (Inr x, s)"

definition fail_op :: "error_code \<Rightarrow> ('s, 'a) op" where
  "fail_op e s = (Inl e, s)"

text \<open>The \<^verbatim>\<open>?\<close> operator on an operation.\<close>

definition bind_op :: "('s, 'a) op \<Rightarrow> ('a \<Rightarrow> ('s, 'b) op) \<Rightarrow> ('s, 'b) op" where
  "bind_op m f s = (case m s of (Inl e, s') \<Rightarrow> (Inl e, s') | (Inr x, s') \<Rightarrow> f x s')"

text \<open>The \<^verbatim>\<open>?\<close> operator on a result that does not involve the state.\<close>

definition lift_op :: "'a res \<Rightarrow> ('s, 'a) op" where
  "lift_op r s = (r, s)"

fun for_op :: "'x list \<Rightarrow> ('x \<Rightarrow> ('s, unit) op) \<Rightarrow> ('s, unit) op" where
  "for_op [] f = return_op ()"
| "for_op (x # xs) f = bind_op (f x) (\<lambda>_. for_op xs f)"

lemma op_simps [simp]:
  "return_op x s = (Inr x, s)" "fail_op e s = (Inl e, s)" "lift_op r s = (r, s)"
  by (simp_all add: return_op_def fail_op_def lift_op_def)

lemma bind_op_eq:
  "bind_op m f s = (r, s') \<longleftrightarrow>
     (\<exists>e. m s = (Inl e, s') \<and> r = Inl e) \<or> (\<exists>x t. m s = (Inr x, t) \<and> f x t = (r, s'))"
  by (auto simp: bind_op_def split: prod.splits sum.splits)

lemma bind_op_simps [simp]:
  "m s = (Inl e, s') \<Longrightarrow> bind_op m f s = (Inl e, s')"
  "m s = (Inr x, s') \<Longrightarrow> bind_op m f s = f x s'"
  by (simp_all add: bind_op_def)

section \<open>The trait\<close>

record 'd page_device_ops =
  dev_page_count :: "'d \<Rightarrow> nat"
  dev_read_page :: "nat \<Rightarrow> ('d, bytes) op"
  dev_write_page :: "nat \<Rightarrow> bytes \<Rightarrow> ('d, unit) op"
  dev_write_pages :: "nat \<Rightarrow> bytes \<Rightarrow> ('d, unit) op"
  dev_flush :: "('d, unit) op"

text \<open>\<^verbatim>\<open>source.chunks(PAGE_SIZE)\<close>, whose last chunk may be short.\<close>

definition source_pages :: "bytes \<Rightarrow> bytes list" where
  "source_pages src = whole_chunks PAGE_SIZE src
     @ (if chunk_rest PAGE_SIZE src = [] then [] else [chunk_rest PAGE_SIZE src])"

text \<open>The default \<^verbatim>\<open>write_pages\<close>, from an implementation's \<^verbatim>\<open>write_page\<close>.\<close>

definition default_write_pages :: "(nat \<Rightarrow> bytes \<Rightarrow> ('d, unit) op) \<Rightarrow> nat \<Rightarrow> bytes \<Rightarrow> ('d, unit) op" where
  "default_write_pages write first src =
     for_op (enumerate first (source_pages src)) (\<lambda>(pid, page). write pid page)"

section \<open>The memory device\<close>

record memory_page_device =
  md_pages :: "bytes list"
  md_flush_count :: nat
  md_writes :: "nat list"
  md_calls :: "(nat \<times> nat) list"

definition memory_device_new :: "nat \<Rightarrow> memory_page_device res" where
  "memory_device_new page_count =
     (if MAX_PAGE_COUNT < page_count then Inl PAGE_DEVICE_ERROR
      else Inr \<lparr>md_pages = replicate page_count (replicate PAGE_SIZE 0), md_flush_count = 0,
                md_writes = [], md_calls = []\<rparr>)"

definition memory_page_count :: "memory_page_device \<Rightarrow> nat" where
  "memory_page_count d = length (md_pages d)"

definition validate_buffer :: "nat \<Rightarrow> unit res" where
  "validate_buffer n = (if n \<noteq> PAGE_SIZE then Inl PAGE_DEVICE_ERROR else Inr ())"

text \<open>The destination is a whole page, as every caller's is.\<close>

definition memory_read_page :: "nat \<Rightarrow> (memory_page_device, bytes) op" where
  "memory_read_page pid d =
     (if memory_page_count d \<le> pid then (Inl PAGE_DEVICE_ERROR, d) else (Inr (md_pages d ! pid), d))"

definition memory_write_page :: "nat \<Rightarrow> bytes \<Rightarrow> (memory_page_device, unit) op" where
  "memory_write_page pid src =
     bind_op (lift_op (validate_buffer (length src))) (\<lambda>_ d.
       let count = memory_page_count d
       in if count \<le> pid \<and> \<not> (pid = count \<and> pid < MAX_PAGE_COUNT) then (Inl PAGE_DEVICE_ERROR, d)
          else let pages = (if pid = count then md_pages d @ [replicate PAGE_SIZE 0] else md_pages d)
               in (Inr (), d\<lparr>md_pages := pages[pid := src],
                             md_writes := md_writes d @ [pid], md_calls := md_calls d @ [(pid, 1)]\<rparr>))"

definition memory_write_pages :: "nat \<Rightarrow> bytes \<Rightarrow> (memory_page_device, unit) op" where
  "memory_write_pages first src =
     (if src = [] \<or> \<not> PAGE_SIZE dvd length src then fail_op PAGE_DEVICE_ERROR
      else bind_op (for_op (enumerate first (source_pages src)) (\<lambda>(pid, page).
               bind_op (memory_write_page pid page) (\<lambda>_ d. (Inr (), d\<lparr>md_calls := butlast (md_calls d)\<rparr>))))
             (\<lambda>_ d. (Inr (), d\<lparr>md_calls := md_calls d @ [(first, length src div PAGE_SIZE)]\<rparr>)))"

definition memory_flush :: "(memory_page_device, unit) op" where
  "memory_flush d = (Inr (), d\<lparr>md_flush_count := md_flush_count d + 1\<rparr>)"

definition memory_device_ops :: "memory_page_device page_device_ops" where
  "memory_device_ops =
     \<lparr>dev_page_count = memory_page_count, dev_read_page = memory_read_page,
      dev_write_page = memory_write_page, dev_write_pages = memory_write_pages,
      dev_flush = memory_flush\<rparr>"

section \<open>The contract\<close>

text \<open>What a successful write does to a dense sequence of pages, and what a failed one may have done.\<close>

definition write_at :: "bytes list \<Rightarrow> nat \<Rightarrow> bytes \<Rightarrow> bytes list" where
  "write_at pages pid src = (if pid < length pages then pages[pid := src] else pages @ [src])"

fun write_all :: "bytes list \<Rightarrow> nat \<Rightarrow> bytes list \<Rightarrow> bytes list" where
  "write_all pages first [] = pages"
| "write_all pages first (src # srcs) = write_all (write_at pages first src) (Suc first) srcs"

definition only_touches :: "nat set \<Rightarrow> bytes list \<Rightarrow> bytes list \<Rightarrow> bool" where
  "only_touches S pages pages' \<longleftrightarrow>
     length pages \<le> length pages' \<and>
     (\<forall>i < length pages. i \<notin> S \<longrightarrow> pages' ! i = pages ! i) \<and>
     (\<forall>i. length pages \<le> i \<and> i < length pages' \<longrightarrow> i \<in> S)"

locale page_device =
  fixes ops :: "'d page_device_ops"
    and valid :: "'d \<Rightarrow> bool"
    and contents :: "'d \<Rightarrow> bytes list"
  assumes count: "valid d \<Longrightarrow> dev_page_count ops d = length (contents d)"
    and whole_pages: "valid d \<Longrightarrow> bs \<in> set (contents d) \<Longrightarrow> length bs = PAGE_SIZE"
    and read_one: "valid d \<Longrightarrow> dev_read_page ops pid d = (got, d') \<Longrightarrow>
      valid d' \<and> contents d' = contents d \<and>
      (case got of Inr bs \<Rightarrow> pid < length (contents d) \<and> bs = contents d ! pid | Inl _ \<Rightarrow> True)"
    and write_one: "valid d \<Longrightarrow> dev_write_page ops pid src d = (r, d') \<Longrightarrow>
      valid d' \<and>
      (case r of Inr _ \<Rightarrow> length src = PAGE_SIZE \<and> pid \<le> length (contents d) \<and>
                          contents d' = write_at (contents d) pid src
       | Inl _ \<Rightarrow> only_touches {pid} (contents d) (contents d'))"
    and write_run: "valid d \<Longrightarrow> dev_write_pages ops first src d = (r, d') \<Longrightarrow>
      valid d' \<and>
      (case r of Inr _ \<Rightarrow> (source_pages src \<noteq> [] \<longrightarrow> first \<le> length (contents d)) \<and>
                          contents d' = write_all (contents d) first (source_pages src)
       | Inl _ \<Rightarrow> only_touches {first..<first + length (source_pages src)} (contents d) (contents d'))"
    and flush: "valid d \<Longrightarrow> dev_flush ops d = (r, d') \<Longrightarrow> valid d' \<and> contents d' = contents d"

lemma only_touches_refl [simp]: "only_touches S pages pages"
  by (auto simp: only_touches_def)

lemma only_touches_mono: "only_touches S a b \<Longrightarrow> S \<subseteq> T \<Longrightarrow> only_touches T a b"
  by (auto simp: only_touches_def)

lemma only_touches_trans: "only_touches S a b \<Longrightarrow> only_touches S b c \<Longrightarrow> only_touches S a c"
  by (auto simp: only_touches_def) (metis le_less_linear order_less_le_trans)+

lemma write_at_touches: "pid \<le> length pages \<Longrightarrow> only_touches {pid} pages (write_at pages pid src)"
  by (auto simp: only_touches_def write_at_def nth_append)

lemma length_write_at [simp]:
  "length (write_at pages pid src) = (if pid < length pages then length pages else Suc (length pages))"
  by (simp add: write_at_def)

lemma nth_write_at:
  "pid \<le> length pages \<Longrightarrow> i < length (write_at pages pid src) \<Longrightarrow>
   write_at pages pid src ! i = (if i = pid then src else pages ! i)"
  by (auto simp: write_at_def nth_append split: if_splits)

lemma write_all_touches:
  "first \<le> length pages \<Longrightarrow>
   only_touches {first..<first + length srcs} pages (write_all pages first srcs)"
proof (induction srcs arbitrary: pages first)
  case (Cons src srcs)
  have "only_touches {first..<first + length (src # srcs)} pages (write_at pages first src)"
    by (rule only_touches_mono [OF write_at_touches]) (use Cons.prems in auto)
  moreover have "only_touches {first..<first + length (src # srcs)} (write_at pages first src)
      (write_all (write_at pages first src) (Suc first) srcs)"
    by (rule only_touches_mono [OF Cons.IH]) (use Cons.prems in auto)
  ultimately show ?case by (auto intro: only_touches_trans)
qed simp

lemma length_write_all:
  "first \<le> length pages \<Longrightarrow> length (write_all pages first srcs) = max (length pages) (first + length srcs)"
proof (induction srcs arbitrary: pages first)
  case (Cons src srcs)
  then show ?case by (auto simp: max_def)
qed simp

lemma nth_write_all:
  "first \<le> length pages \<Longrightarrow> k < length srcs \<Longrightarrow> write_all pages first srcs ! (first + k) = srcs ! k"
proof (induction srcs arbitrary: pages first k)
  case (Cons src srcs)
  show ?case
  proof (cases k)
    case 0
    have "only_touches {Suc first..<Suc first + length srcs} (write_at pages first src)
        (write_all (write_at pages first src) (Suc first) srcs)"
      using Cons.prems by (intro write_all_touches) auto
    then have "write_all (write_at pages first src) (Suc first) srcs ! first = write_at pages first src ! first"
      using Cons.prems by (auto simp: only_touches_def)
    with 0 Cons.prems show ?thesis by (simp add: nth_write_at)
  next
    case (Suc j)
    with Cons.prems Cons.IH [of "Suc first" "write_at pages first src" j] show ?thesis by simp
  qed
qed simp

text \<open>A loop of writes to consecutive pages, as the default and the memory device make them.\<close>

lemma for_writes:
  assumes step: "\<And>d pid src r d'. valid d \<Longrightarrow> w pid src d = (r, d') \<Longrightarrow>
      valid d' \<and> (case r of Inr _ \<Rightarrow> pid \<le> length (contents d) \<and> contents d' = write_at (contents d) pid src
        | Inl _ \<Rightarrow> only_touches {pid} (contents d) (contents d'))"
  shows "valid d \<Longrightarrow> for_op (enumerate first srcs) (\<lambda>(pid, src). w pid src) d = (r, d') \<Longrightarrow>
    valid d' \<and> (case r of Inr _ \<Rightarrow> (srcs \<noteq> [] \<longrightarrow> first \<le> length (contents d)) \<and>
        contents d' = write_all (contents d) first srcs
      | Inl _ \<Rightarrow> only_touches {first..<first + length srcs} (contents d) (contents d'))"
proof (induction srcs arbitrary: first d)
  case (Cons src srcs)
  obtain r1 d1 where w: "w first src d = (r1, d1)" by (cases "w first src d")
  note w' = step [OF Cons.prems(1) w]
  show ?case
  proof (cases r1)
    case (Inl e)
    then have "r = Inl e" "d' = d1" using Cons.prems(2) w by simp_all
    with w' Inl show ?thesis by (auto intro: only_touches_mono)
  next
    case (Inr x)
    then have rest: "for_op (enumerate (Suc first) srcs) (\<lambda>(pid, src). w pid src) d1 = (r, d')"
      using Cons.prems(2) w by simp
    from Inr w' have d1: "valid d1" "first \<le> length (contents d)" "contents d1 = write_at (contents d) first src"
      by simp_all
    note IH = Cons.IH [OF d1(1) rest]
    show ?thesis
    proof (cases r)
      case (Inr y)
      with IH d1 show ?thesis by simp
    next
      case (Inl e)
      then have "only_touches {Suc first..<Suc first + length srcs} (contents d1) (contents d')"
        using IH by simp
      then have "only_touches {first..<first + length (src # srcs)} (contents d1) (contents d')"
        by (rule only_touches_mono) auto
      moreover have "only_touches {first..<first + length (src # srcs)} (contents d) (contents d1)"
        unfolding d1(3) by (rule only_touches_mono [OF write_at_touches [OF d1(2)]]) auto
      ultimately show ?thesis using IH Inl only_touches_trans by auto
    qed
  qed
qed (auto split: sum.splits)

context page_device
begin

lemma write_step:
  assumes "valid d" "dev_write_page ops pid src d = (r, d')"
  shows "valid d' \<and> (case r of Inr _ \<Rightarrow> pid \<le> length (contents d) \<and>
      contents d' = write_at (contents d) pid src | Inl _ \<Rightarrow> only_touches {pid} (contents d) (contents d'))"
  using write_one [OF assms] by (auto split: sum.splits)

lemma for_write_pages:
  assumes "valid d" "for_op (enumerate first srcs) (\<lambda>(pid, src). dev_write_page ops pid src) d = (r, d')"
  shows "valid d' \<and> (case r of Inr _ \<Rightarrow> (srcs \<noteq> [] \<longrightarrow> first \<le> length (contents d)) \<and>
        contents d' = write_all (contents d) first srcs
      | Inl _ \<Rightarrow> only_touches {first..<first + length srcs} (contents d) (contents d'))"
  by (rule for_writes [where w = "dev_write_page ops" and valid = valid and contents = contents])
    (use assms write_step in blast)+

lemma default_write_pages_contract:
  assumes "valid d" "default_write_pages (dev_write_page ops) first src d = (r, d')"
  shows "valid d' \<and> (case r of Inr _ \<Rightarrow> (source_pages src \<noteq> [] \<longrightarrow> first \<le> length (contents d)) \<and>
        contents d' = write_all (contents d) first (source_pages src)
      | Inl _ \<Rightarrow> only_touches {first..<first + length (source_pages src)} (contents d) (contents d'))"
  using for_write_pages [OF assms(1)] assms(2) by (simp add: default_write_pages_def)

lemma read_back:
  assumes "valid d" "dev_write_page ops pid src d = (Inr u, d')" "dev_read_page ops pid d' = (Inr bs, d'')"
  shows "bs = src"
  using write_one [OF assms(1,2)] read_one [OF _ assms(3)] by (simp add: nth_write_at)

end

definition memory_valid :: "memory_page_device \<Rightarrow> bool" where
  "memory_valid d \<longleftrightarrow> list_all (\<lambda>bs. length bs = PAGE_SIZE) (md_pages d)"

lemma memory_write_page_contract:
  assumes "memory_valid d" "memory_write_page pid src d = (r, d')"
  shows "memory_valid d' \<and>
    (case r of Inr _ \<Rightarrow> length src = PAGE_SIZE \<and> pid \<le> length (md_pages d) \<and>
        md_pages d' = write_at (md_pages d) pid src
     | Inl _ \<Rightarrow> only_touches {pid} (md_pages d) (md_pages d'))"
proof -
  have mem: "length bs = 4096" if "bs \<in> set (md_pages d)" for bs
    using assms(1) that by (simp add: memory_valid_def list_all_iff)
  have upd: "length bs = 4096" if "length src = 4096" "bs \<in> set ((md_pages d)[pid := src])" for bs
    using that mem set_update_subset_insert [of "md_pages d" pid src] by auto
  show ?thesis
    using assms mem upd
    by (auto simp: memory_write_page_def validate_buffer_def memory_page_count_def write_at_def
        memory_valid_def list_all_iff Let_def bind_op_def list_update_append split: if_splits)
qed

interpretation memory: page_device memory_device_ops memory_valid md_pages
proof
  fix d :: memory_page_device and bs
  assume "memory_valid d"
  show "dev_page_count memory_device_ops d = length (md_pages d)"
    by (simp add: memory_device_ops_def memory_page_count_def)
  assume "bs \<in> set (md_pages d)"
  with \<open>memory_valid d\<close> show "length bs = PAGE_SIZE"
    by (simp add: memory_valid_def list_all_iff)
next
  fix d d' :: memory_page_device and pid r
  assume "memory_valid d" "dev_read_page memory_device_ops pid d = (r, d')"
  then show "memory_valid d' \<and> md_pages d' = md_pages d \<and>
      (case r of Inr bs \<Rightarrow> pid < length (md_pages d) \<and> bs = md_pages d ! pid | Inl _ \<Rightarrow> True)"
    by (auto simp: memory_device_ops_def memory_read_page_def memory_page_count_def split: if_splits)
next
  fix d d' :: memory_page_device and pid src r
  assume "memory_valid d" "dev_write_page memory_device_ops pid src d = (r, d')"
  then show "memory_valid d' \<and> (case r of Inr _ \<Rightarrow> length src = PAGE_SIZE \<and> pid \<le> length (md_pages d) \<and>
      md_pages d' = write_at (md_pages d) pid src | Inl _ \<Rightarrow> only_touches {pid} (md_pages d) (md_pages d'))"
    using memory_write_page_contract by (simp add: memory_device_ops_def)
next
  fix d d' :: memory_page_device and first src r
  assume v: "memory_valid d" and w: "dev_write_pages memory_device_ops first src d = (r, d')"
  let ?step = "\<lambda>pid page. bind_op (memory_write_page pid page)
      (\<lambda>_ d. (Inr (), d\<lparr>md_calls := butlast (md_calls d)\<rparr>))"
  have step: "memory_valid d' \<and> (case r of Inr _ \<Rightarrow> pid \<le> length (md_pages d) \<and>
      md_pages d' = write_at (md_pages d) pid src | Inl _ \<Rightarrow> only_touches {pid} (md_pages d) (md_pages d'))"
    if "memory_valid d" "?step pid src d = (r, d')" for d pid src r d'
  proof -
    obtain r1 d1 where s: "memory_write_page pid src d = (r1, d1)" by (cases "memory_write_page pid src d")
    note c = memory_write_page_contract [OF that(1) s]
    from that(2) s c show ?thesis
      by (cases r1) (auto simp: memory_valid_def)
  qed
  show "memory_valid d' \<and> (case r of Inr _ \<Rightarrow> (source_pages src \<noteq> [] \<longrightarrow> first \<le> length (md_pages d)) \<and>
      md_pages d' = write_all (md_pages d) first (source_pages src)
    | Inl _ \<Rightarrow> only_touches {first..<first + length (source_pages src)} (md_pages d) (md_pages d'))"
  proof (cases "src = [] \<or> \<not> 4096 dvd length src")
    case True
    with v w show ?thesis by (auto simp: memory_device_ops_def memory_write_pages_def)
  next
    case False
    obtain r1 d1 where l: "for_op (enumerate first (source_pages src)) (\<lambda>(pid, page). ?step pid page) d = (r1, d1)"
      by (cases "for_op (enumerate first (source_pages src)) (\<lambda>(pid, page). ?step pid page) d")
    note c = for_writes [where w = ?step and valid = memory_valid and contents = md_pages, OF step v l]
    from w l False c show ?thesis
      by (cases r1) (auto simp: memory_device_ops_def memory_write_pages_def memory_valid_def)
  qed
next
  fix d d' :: memory_page_device and r
  assume "memory_valid d" "dev_flush memory_device_ops d = (r, d')"
  then show "memory_valid d' \<and> md_pages d' = md_pages d"
    by (auto simp: memory_device_ops_def memory_flush_def memory_valid_def)
qed

end
