(* ===== verification/Values.thy ===== *)
theory Values
  imports Prelude "HOL-Library.List_Lexorder"
begin

unbundle bit_operations_syntax

text \<open>
  The values a row holds and the schema that types them: JSON values, column types and the catalog's
  definitions (\<^verbatim>\<open>model.rs\<close>), and a column's value as a reader sees it (\<^verbatim>\<open>ValueRef\<close> of \<^verbatim>\<open>row.rs\<close>).

  JSON numbers and JSON text belong to \<^verbatim>\<open>serde_json\<close>, which is not part of the repository. A number is
  therefore of any type \<open>'n\<close>, and a \<open>serde\<close> record holds the conversions the engine calls; the locale
  \<open>serde_json\<close> states what their documentation promises. A Rust \<^verbatim>\<open>str\<close> is the list of its UTF-8 bytes,
  an \<^verbatim>\<open>f64\<close> is the word of its IEEE 754 bits, and an \<^verbatim>\<open>i64\<close> is a 64-bit word read with \<open>sint\<close>.
\<close>

section \<open>Strings and numbers of the language\<close>

type_synonym str = bytes
type_synonym f64 = u64
type_synonym i64 = u64

definition utf8_tail :: "u8 \<Rightarrow> bool" where
  "utf8_tail b \<longleftrightarrow> 0x80 \<le> b \<and> b \<le> 0xBF"

text \<open>
  The bytes that may follow a leading byte: how many, and the range of the first of them. \<^verbatim>\<open>None\<close>
  is a byte no character starts with.
\<close>

definition utf8_follow :: "u8 \<Rightarrow> (nat \<times> u8 \<times> u8) option" where
  "utf8_follow a =
    (if a \<le> 0x7F then Some (0, 0x80, 0xBF)
     else if 0xC2 \<le> a \<and> a \<le> 0xDF then Some (1, 0x80, 0xBF)
     else if a = 0xE0 then Some (2, 0xA0, 0xBF)
     else if a = 0xED then Some (2, 0x80, 0x9F)
     else if 0xE1 \<le> a \<and> a \<le> 0xEF then Some (2, 0x80, 0xBF)
     else if a = 0xF0 then Some (3, 0x90, 0xBF)
     else if 0xF1 \<le> a \<and> a \<le> 0xF3 then Some (3, 0x80, 0xBF)
     else if a = 0xF4 then Some (3, 0x80, 0x8F)
     else None)"

text \<open>\<^verbatim>\<open>str::from_utf8(bytes).is_ok()\<close>.\<close>

function utf8 :: "bytes \<Rightarrow> bool" where
  "utf8 [] = True"
| "utf8 (a # bs) =
    (case utf8_follow a of
       None \<Rightarrow> False
     | Some (n, low, high) \<Rightarrow>
         n \<le> length bs
         \<and> (n = 0 \<or> (low \<le> hd bs \<and> hd bs \<le> high))
         \<and> list_all utf8_tail (take n bs)
         \<and> utf8 (drop n bs))"
  by pat_completeness auto
termination by (relation "measure length") auto

text \<open>
  \<^verbatim>\<open>str::trim().is_empty()\<close>: every character has the Unicode property \<^verbatim>\<open>White_Space\<close>. The patterns are
  the UTF-8 encodings of those characters.
\<close>

fun blank :: "str \<Rightarrow> bool" where
  "blank [] = True"
| "blank (a # bs) =
    (if (0x09 \<le> a \<and> a \<le> 0x0D) \<or> a = 0x20 then blank bs
     else case bs of
       [] \<Rightarrow> False
     | b # cs \<Rightarrow>
         if a = 0xC2 \<and> (b = 0x85 \<or> b = 0xA0) then blank cs
         else case cs of
           [] \<Rightarrow> False
         | c # ds \<Rightarrow>
             ((a = 0xE1 \<and> b = 0x9A \<and> c = 0x80)
              \<or> (a = 0xE2 \<and> b = 0x80 \<and>
                 ((0x80 \<le> c \<and> c \<le> 0x8A) \<or> c = 0xA8 \<or> c = 0xA9 \<or> c = 0xAF))
              \<or> (a = 0xE2 \<and> b = 0x81 \<and> c = 0x9F)
              \<or> (a = 0xE3 \<and> b = 0x80 \<and> c = 0x80)) \<and> blank ds)"

text \<open>The fields of an \<^verbatim>\<open>f64\<close>; it is finite unless its exponent is all ones.\<close>

definition f64_exponent :: "f64 \<Rightarrow> nat" where
  "f64_exponent x = (unat x mod 2 ^ 63) div 2 ^ 52"

definition f64_is_finite :: "f64 \<Rightarrow> bool" where
  "f64_is_finite x \<longleftrightarrow> f64_exponent x \<noteq> 2047"

definition f64_sign :: "f64 \<Rightarrow> bool" where
  "f64_sign x \<longleftrightarrow> bit x 63"

text \<open>\<^verbatim>\<open>value == 0.0\<close>, which holds of both zeros.\<close>

definition f64_is_zero :: "f64 \<Rightarrow> bool" where
  "f64_is_zero x \<longleftrightarrow> unat x mod 2 ^ 63 = 0"

text \<open>
  The exact value of a finite \<^verbatim>\<open>f64\<close>, times \<open>2 ^ 1074\<close> so that it is an integer. Comparing two
  finite floats is comparing these.
\<close>

definition f64_magnitude :: "nat \<Rightarrow> nat" where
  "f64_magnitude m =
    (if m < 2 ^ 52 then m else (2 ^ 52 + m mod 2 ^ 52) * 2 ^ (m div 2 ^ 52 - 1))"

definition f64_scaled :: "f64 \<Rightarrow> int" where
  "f64_scaled x =
    (if f64_sign x then - int (f64_magnitude (unat x mod 2 ^ 63))
     else int (f64_magnitude (unat x mod 2 ^ 63)))"

text \<open>\<^verbatim>\<open>i64::unsigned_abs\<close>, and the largest integer JavaScript holds exactly.\<close>

definition unsigned_abs :: "i64 \<Rightarrow> nat" where
  "unsigned_abs i = nat \<bar>sint i\<bar>"

definition MAX_SAFE_INTEGER :: nat where
  "MAX_SAFE_INTEGER = 9007199254740991"

text \<open>\<^verbatim>\<open>iter().position(p)\<close>: where the first item is that satisfies \<open>p\<close>.\<close>

definition position :: "('a \<Rightarrow> bool) \<Rightarrow> 'a list \<Rightarrow> nat option" where
  "position p xs =
    (let i = length (takeWhile (\<lambda>x. \<not> p x) xs) in if i < length xs then Some i else None)"

section \<open>JSON values\<close>

datatype 'n json =
    Null
  | Bool bool
  | Number 'n
  | String str
  | Array "'n json list"
  | Object "(str \<times> 'n json) list"

type_synonym 'n row = "str \<rightharpoonup> 'n json"

text \<open>What the engine calls of \<^verbatim>\<open>serde_json\<close>: conversions of a number, and JSON text.\<close>

record 'n serde =
  number_as_u64 :: "'n \<Rightarrow> u64 option"
  number_as_i64 :: "'n \<Rightarrow> i64 option"
  number_as_f64 :: "'n \<Rightarrow> f64 option"
  number_is_f64 :: "'n \<Rightarrow> bool"
  number_from_i64 :: "i64 \<Rightarrow> 'n"
  number_from_u64 :: "u64 \<Rightarrow> 'n"
  number_from_f64 :: "f64 \<Rightarrow> 'n option"
  number_text :: "'n \<Rightarrow> bytes"
  string_text :: "str \<Rightarrow> bytes"
  from_slice :: "bytes \<Rightarrow> 'n json option"

fun is_null :: "'n json \<Rightarrow> bool" where
  "is_null Null = True"
| "is_null _ = False"

fun as_bool :: "'n json \<Rightarrow> bool option" where
  "as_bool (Bool b) = Some b"
| "as_bool _ = None"

fun as_str :: "'n json \<Rightarrow> str option" where
  "as_str (String s) = Some s"
| "as_str _ = None"

fun as_array :: "'n json \<Rightarrow> 'n json list option" where
  "as_array (Array vs) = Some vs"
| "as_array _ = None"

fun as_object :: "'n json \<Rightarrow> (str \<times> 'n json) list option" where
  "as_object (Object kvs) = Some kvs"
| "as_object _ = None"

fun as_u64 :: "'n serde \<Rightarrow> 'n json \<Rightarrow> u64 option" where
  "as_u64 js (Number n) = number_as_u64 js n"
| "as_u64 js _ = None"

fun as_i64 :: "'n serde \<Rightarrow> 'n json \<Rightarrow> i64 option" where
  "as_i64 js (Number n) = number_as_i64 js n"
| "as_i64 js _ = None"

fun as_f64 :: "'n serde \<Rightarrow> 'n json \<Rightarrow> f64 option" where
  "as_f64 js (Number n) = number_as_f64 js n"
| "as_f64 js _ = None"

fun is_number :: "'n json \<Rightarrow> bool" where
  "is_number (Number _) = True"
| "is_number _ = False"

text \<open>\<^verbatim>\<open>Value::from\<close> of an integer, and of a float, which is \<^verbatim>\<open>Null\<close> when it is not finite.\<close>

definition value_from_i64 :: "'n serde \<Rightarrow> i64 \<Rightarrow> 'n json" where
  "value_from_i64 js i = Number (number_from_i64 js i)"

definition value_from_f64 :: "'n serde \<Rightarrow> f64 \<Rightarrow> 'n json" where
  "value_from_f64 js x = (case number_from_f64 js x of None \<Rightarrow> Null | Some n \<Rightarrow> Number n)"

text \<open>
  The documentation of \<^verbatim>\<open>serde_json::Number\<close>: a number made from an integer reads back as that
  integer, both unsigned and signed where it fits; a number made from a finite float is a float and
  reads back as that float; NaN and the infinities make no number.
\<close>

locale serde_json =
  fixes js :: "'n serde"
  assumes i64_of_i64: "number_as_i64 js (number_from_i64 js i) = Some i"
    and u64_of_i64: "number_as_u64 js (number_from_i64 js i) = (if 0 \<le> sint i then Some i else None)"
    and u64_of_u64: "number_as_u64 js (number_from_u64 js u) = Some u"
    and int_not_f64: "\<not> number_is_f64 js (number_from_i64 js i)"
    and u64_agrees: "number_as_u64 js n = Some u \<Longrightarrow>
          number_as_i64 js n = (if 0 \<le> sint u then Some u else None)"
    and finite_number: "f64_is_finite x \<Longrightarrow> \<exists>n. number_from_f64 js x = Some n"
    and not_finite_number: "\<not> f64_is_finite x \<Longrightarrow> number_from_f64 js x = None"
    and f64_of_f64: "number_from_f64 js x = Some n \<Longrightarrow>
          number_as_f64 js n = Some x \<and> number_is_f64 js n"

section \<open>Schemas\<close>

datatype column_type = Boolean | Integer | Float | Text | Json

definition postgres_oid :: "column_type \<Rightarrow> nat" where
  "postgres_oid t =
    (case t of Boolean \<Rightarrow> 16 | Integer \<Rightarrow> 20 | Float \<Rightarrow> 701 | Text \<Rightarrow> 25 | Json \<Rightarrow> 114)"

record result_field =
  rf_name :: str
  rf_data_type_id :: nat

definition result_field_new :: "str \<Rightarrow> column_type \<Rightarrow> result_field" where
  "result_field_new name t = \<lparr>rf_name = name, rf_data_type_id = postgres_oid t\<rparr>"

record 'n column_definition =
  col_name :: str
  col_type :: column_type
  col_nullable :: bool
  col_default :: "'n json option"
  col_max_length :: "u32 option"

datatype foreign_key_action = NoAction | Restrict | Cascade | SetNull | SetDefault

record foreign_key_definition =
  fk_name :: str
  fk_columns :: "str list"
  fk_references :: str
  fk_referenced_columns :: "str list"
  fk_on_delete :: foreign_key_action
  fk_on_update :: foreign_key_action

record 'n table_definition =
  td_name :: str
  td_primary_key :: "str list"
  td_columns :: "'n column_definition list"
  td_foreign_keys :: "foreign_key_definition list"

record index_definition =
  ix_name :: str
  ix_table :: str
  ix_columns :: "str list"
  ix_unique :: bool

section \<open>A column's value\<close>

datatype 'n value_ref =
    VNull
  | VBoolean bool
  | VInteger i64
  | VFloat f64
  | VText str
  | VJson "'n json"

definition from_value :: "'n serde \<Rightarrow> 'n json \<Rightarrow> column_type \<Rightarrow> 'n value_ref" where
  "from_value js v t =
    (case (t, v) of
       (_, Null) \<Rightarrow> VNull
     | (Boolean, Bool b) \<Rightarrow> VBoolean b
     | (Integer, Number n) \<Rightarrow>
         (case number_as_i64 js n of Some i \<Rightarrow> VInteger i | None \<Rightarrow> VJson v)
     | (Float, Number n) \<Rightarrow>
         (if number_is_f64 js n
          then (case number_as_f64 js n of Some x \<Rightarrow> VFloat x | None \<Rightarrow> VJson v)
          else VJson v)
     | (Text, String s) \<Rightarrow> VText s
     | _ \<Rightarrow> VJson v)"

fun ref_is_null :: "'n value_ref \<Rightarrow> bool" where
  "ref_is_null VNull = True"
| "ref_is_null (VJson v) = is_null v"
| "ref_is_null _ = False"

fun into_value :: "'n serde \<Rightarrow> 'n value_ref \<Rightarrow> 'n json" where
  "into_value js VNull = Null"
| "into_value js (VBoolean b) = Bool b"
| "into_value js (VInteger i) = value_from_i64 js i"
| "into_value js (VFloat x) = value_from_f64 js x"
| "into_value js (VText s) = String s"
| "into_value js (VJson v) = v"

fun owned_bytes :: "('n json \<Rightarrow> nat res) \<Rightarrow> 'n value_ref \<Rightarrow> nat res" where
  "owned_bytes json (VText s) = Inr (24 + length s)"
| "owned_bytes json (VJson v) = json v"
| "owned_bytes json _ = Inr 16"

definition safe_integer :: "'n serde \<Rightarrow> 'n json \<Rightarrow> i64 option" where
  "safe_integer js v =
    (case as_u64 js v of
       Some u \<Rightarrow> if unat u \<le> MAX_SAFE_INTEGER then Some u else
         (case as_i64 js v of
            Some i \<Rightarrow> if - int MAX_SAFE_INTEGER \<le> sint i \<and> sint i \<le> int MAX_SAFE_INTEGER
                      then Some i else None
          | None \<Rightarrow> None)
     | None \<Rightarrow>
         (case as_i64 js v of
            Some i \<Rightarrow> if - int MAX_SAFE_INTEGER \<le> sint i \<and> sint i \<le> int MAX_SAFE_INTEGER
                      then Some i else None
          | None \<Rightarrow> None))"

section \<open>The numbers \<^verbatim>\<open>serde_json\<close> documents\<close>

text \<open>
  Numbers as the documentation describes them: a non-negative integer, a negative one or a float.
  How text is written and parsed stays a parameter.
\<close>

datatype json_number = PosInt u64 | NegInt i64 | Floating f64

text \<open>\<^verbatim>\<open>as f64\<close> of an unsigned integer, to the nearest float and to the even one of two nearest.\<close>

definition f64_of_nat :: "nat \<Rightarrow> f64" where
  "f64_of_nat n =
    (if n = 0 then 0
     else let e = length (takeWhile (\<lambda>k. 2 ^ k \<le> n) [1..<64]);
              q = n div 2 ^ (e - 52); r = n mod 2 ^ (e - 52); h = 2 ^ (e - 52) div 2;
              m = (if e \<le> 52 then n * 2 ^ (52 - e)
                   else if r < h \<or> (r = h \<and> even q) then q else q + 1)
          in of_nat ((1022 + e) * 2 ^ 52 + m))"

definition f64_of_i64 :: "i64 \<Rightarrow> f64" where
  "f64_of_i64 i =
    (if sint i < 0 then f64_of_nat (unsigned_abs i) OR push_bit 63 1 else f64_of_nat (unat i))"

definition documented_numbers ::
  "(json_number \<Rightarrow> bytes) \<Rightarrow> (str \<Rightarrow> bytes) \<Rightarrow> (bytes \<Rightarrow> json_number json option)
   \<Rightarrow> json_number serde" where
  "documented_numbers print_number print_string parse =
    \<lparr>number_as_u64 = (\<lambda>n. case n of PosInt u \<Rightarrow> Some u | _ \<Rightarrow> None),
     number_as_i64 = (\<lambda>n. case n of
        PosInt u \<Rightarrow> if 0 \<le> sint u then Some u else None
      | NegInt i \<Rightarrow> Some i | Floating _ \<Rightarrow> None),
     number_as_f64 = (\<lambda>n. case n of
        PosInt u \<Rightarrow> Some (f64_of_nat (unat u)) | NegInt i \<Rightarrow> Some (f64_of_i64 i)
      | Floating x \<Rightarrow> Some x),
     number_is_f64 = (\<lambda>n. case n of Floating _ \<Rightarrow> True | _ \<Rightarrow> False),
     number_from_i64 = (\<lambda>i. if 0 \<le> sint i then PosInt i else NegInt i),
     number_from_u64 = PosInt,
     number_from_f64 = (\<lambda>x. if f64_is_finite x then Some (Floating x) else None),
     number_text = print_number, string_text = print_string, from_slice = parse\<rparr>"

interpretation documented: serde_json "documented_numbers print_number print_string parse"
  for print_number print_string parse
  by unfold_locales
     (auto simp: documented_numbers_def split: json_number.splits if_splits)

end
