(* ===== verification/KeyCodec.thy ===== *)
theory KeyCodec
  imports Values
begin

unbundle bit_operations_syntax

text \<open>
  The encoding of keys (\<^verbatim>\<open>paged_codec.rs\<close>): the components of a primary key or an index tuple, each
  self-delimiting and comparing as raw bytes the way its value compares, the tuples and index entries
  made of them, and the checks of the schemas they are encoded for.

  A function that appends to \<^verbatim>\<open>&mut Vec<u8>\<close> takes the vector and returns it extended. The table and
  column names passed for error messages are left out.
\<close>

section \<open>Limits and errors\<close>

definition MAX_BTREE_KEY_BYTES :: nat where
  "MAX_BTREE_KEY_BYTES = 1024"

definition MAX_COLUMNS :: nat where
  "MAX_COLUMNS = 256"

definition TEXT_ESCAPED_ZERO :: u8 where
  "TEXT_ESCAPED_ZERO = 0xFF"

definition TEXT_TERMINATOR :: u8 where
  "TEXT_TERMINATOR = 1"

definition as_storage_corruption :: "error_code \<Rightarrow> error_code" where
  "as_storage_corruption e = (if e = Panic then Panic else PAGED_STORAGE_CORRUPT)"

definition validate_key_size :: "bytes \<Rightarrow> unit res" where
  "validate_key_size key =
    (if MAX_BTREE_KEY_BYTES < length key then Inl PAGED_VALUE_TOO_LARGE else Inr ())"

definition validate_catalog_name :: "str \<Rightarrow> unit res" where
  "validate_catalog_name name =
    (if blank name then Inl INVALID_PAGED_ARGUMENT
     else if MAX_BTREE_KEY_BYTES < length name + 1 then Inl PAGED_VALUE_TOO_LARGE
     else Inr ())"

section \<open>Schema checks\<close>

text \<open>Each name is one the catalog can hold, and none is among those \<open>seen\<close> before it.\<close>

fun validate_names :: "str list \<Rightarrow> str list \<Rightarrow> unit res" where
  "validate_names seen [] = Inr ()"
| "validate_names seen (name # names) =
    and_then (validate_catalog_name name) (\<lambda>_.
      if name \<in> set seen then Inl INVALID_PAGED_ARGUMENT
      else validate_names (seen @ [name]) names)"

definition validate_catalog_default ::
  "'n serde \<Rightarrow> 'n column_definition \<Rightarrow> 'n json \<Rightarrow> unit res" where
  "validate_catalog_default js column v =
    (if v = Null then
       (if col_nullable column then Inr () else Inl INVALID_PAGED_ARGUMENT)
     else if (case col_type column of
                Boolean \<Rightarrow> as_bool v \<noteq> None
              | Integer \<Rightarrow> safe_integer js v \<noteq> None
              | Float \<Rightarrow> is_number v
              | Text \<Rightarrow> as_str v \<noteq> None
              | Json \<Rightarrow> True)
     then Inr () else Inl INVALID_PAGED_ARGUMENT)"

fun validate_columns ::
  "'n serde \<Rightarrow> str list \<Rightarrow> str list \<Rightarrow> 'n column_definition list \<Rightarrow> unit res" where
  "validate_columns js primary_key seen [] = Inr ()"
| "validate_columns js primary_key seen (column # columns) =
    and_then (validate_catalog_name (col_name column)) (\<lambda>_.
      if col_name column \<in> set seen then Inl INVALID_PAGED_ARGUMENT
      else if col_name column \<in> set primary_key
              \<and> (col_nullable column \<or> col_type column = Json)
      then Inl INVALID_PAGED_ARGUMENT
      else and_then (case col_default column of
                       Some v \<Rightarrow> validate_catalog_default js column v
                     | None \<Rightarrow> Inr ()) (\<lambda>_.
        validate_columns js primary_key (seen @ [col_name column]) columns))"

definition validate_schema_shape :: "'n serde \<Rightarrow> 'n table_definition \<Rightarrow> unit res" where
  "validate_schema_shape js schema =
    and_then (validate_catalog_name (td_name schema)) (\<lambda>_.
      if td_columns schema = [] then Inl INVALID_PAGED_ARGUMENT
      else if td_primary_key schema = [] then Inl INVALID_PAGED_ARGUMENT
      else and_then (validate_names [] (td_primary_key schema)) (\<lambda>_.
        if MAX_COLUMNS < length (td_columns schema) then Inl INVALID_PAGED_ARGUMENT
        else and_then (validate_columns js (td_primary_key schema) [] (td_columns schema)) (\<lambda>_.
          if list_ex (\<lambda>name. \<not> list_ex (\<lambda>column. col_name column = name) (td_columns schema))
               (td_primary_key schema)
          then Inl INVALID_PAGED_ARGUMENT
          else Inr ())))"

definition validate_index_shape :: "index_definition \<Rightarrow> unit res" where
  "validate_index_shape definition' =
    and_then (validate_catalog_name (ix_name definition')) (\<lambda>_.
    and_then (validate_catalog_name (ix_table definition')) (\<lambda>_.
      if ix_columns definition' = [] then Inl INVALID_PAGED_ARGUMENT
      else validate_names [] (ix_columns definition')))"

fun validate_indexed_columns ::
  "'n column_definition list \<Rightarrow> str list \<Rightarrow> unit res" where
  "validate_indexed_columns columns [] = Inr ()"
| "validate_indexed_columns columns (name # names) =
    and_then (ok_or COLUMN_NOT_FOUND (find (\<lambda>column. col_name column = name) columns)) (\<lambda>column.
      if col_type column = Float \<or> col_type column = Json then Inl INVALID_PAGED_ARGUMENT
      else validate_indexed_columns columns names)"

definition validate_index_identity ::
  "'n serde \<Rightarrow> 'n table_definition \<Rightarrow> index_definition \<Rightarrow> unit res" where
  "validate_index_identity js schema definition' =
    and_then (validate_schema_shape js schema) (\<lambda>_.
      if ix_table definition' \<noteq> td_name schema then Inl INVALID_PAGED_ARGUMENT
      else and_then (validate_index_shape definition') (\<lambda>_.
        validate_indexed_columns (td_columns schema) (ix_columns definition')))"

definition schema_column_type :: "'n table_definition \<Rightarrow> str \<Rightarrow> column_type res" where
  "schema_column_type schema column =
    ok_or COLUMN_NOT_FOUND
      (map_option col_type (find (\<lambda>definition'. col_name definition' = column) (td_columns schema)))"

section \<open>Components\<close>

text \<open>\<^verbatim>\<open>1_u64 << 63\<close>.\<close>

definition sign_bit :: u64 where
  "sign_bit = push_bit 63 1"

definition push_integer_component :: "bytes \<Rightarrow> i64 \<Rightarrow> bytes" where
  "push_integer_component key i = key @ be_bytes 8 (i XOR sign_bit)"

definition push_float_component :: "bytes \<Rightarrow> f64 \<Rightarrow> bytes" where
  "push_float_component key x =
    (let bits = (if f64_is_zero x then 0 else x);
         sortable = (if bits AND sign_bit = 0 then bits XOR sign_bit else NOT bits)
     in key @ be_bytes 8 sortable)"

fun push_escaped :: "bytes \<Rightarrow> bytes \<Rightarrow> bytes" where
  "push_escaped key [] = key"
| "push_escaped key (b # bs) =
    push_escaped (if b = 0 then key @ [b, TEXT_ESCAPED_ZERO] else key @ [b]) bs"

definition push_text_component :: "bytes \<Rightarrow> str \<Rightarrow> bytes" where
  "push_text_component key s =
    (if 0 \<in> set s then push_escaped key s else key @ s) @ [0, TEXT_TERMINATOR]"

definition encode_component :: "'n serde \<Rightarrow> bytes \<Rightarrow> column_type \<Rightarrow> 'n json \<Rightarrow> bytes res" where
  "encode_component js key t v =
    (case t of
       Boolean \<Rightarrow> and_then (ok_or TYPE_MISMATCH (as_bool v)) (\<lambda>b.
         Inr (key @ [of_bool b]))
     | Integer \<Rightarrow> and_then (ok_or TYPE_MISMATCH (safe_integer js v)) (\<lambda>i.
         Inr (push_integer_component key i))
     | Float \<Rightarrow>
         (case v of
            Number n \<Rightarrow>
              (case number_as_f64 js n of
                 Some x \<Rightarrow> if f64_is_finite x then Inr (push_float_component key x)
                           else Inl TYPE_MISMATCH
               | None \<Rightarrow> Inl TYPE_MISMATCH)
          | _ \<Rightarrow> Inl TYPE_MISMATCH)
     | Text \<Rightarrow> and_then (ok_or TYPE_MISMATCH (as_str v)) (\<lambda>s.
         Inr (push_text_component key s))
     | Json \<Rightarrow> Inl INVALID_PAGED_ARGUMENT)"

definition encode_component_ref ::
  "'n serde \<Rightarrow> bytes \<Rightarrow> column_type \<Rightarrow> 'n value_ref \<Rightarrow> bytes res" where
  "encode_component_ref js key t v =
    (case (t, v) of
       (Boolean, VBoolean b) \<Rightarrow> Inr (key @ [of_bool b])
     | (Integer, VInteger i) \<Rightarrow>
         if unsigned_abs i \<le> MAX_SAFE_INTEGER then Inr (push_integer_component key i)
         else encode_component js key t (into_value js v)
     | (Float, VFloat x) \<Rightarrow>
         if f64_is_finite x then Inr (push_float_component key x)
         else encode_component js key t (into_value js v)
     | (Text, VText s) \<Rightarrow> Inr (push_text_component key s)
     | _ \<Rightarrow> encode_component js key t (into_value js v))"

text \<open>The loop over a text component: from \<open>index\<close>, the next zero byte ends or escapes.\<close>

function text_end :: "bytes \<Rightarrow> nat \<Rightarrow> nat res" where
  "text_end key index =
    (case position (\<lambda>b. b = 0) (drop index key) of
       None \<Rightarrow> Inl PAGED_STORAGE_CORRUPT
     | Some p \<Rightarrow>
         (let zero = p + index in
          if zero + 1 < length key then
            (if key ! (zero + 1) = TEXT_TERMINATOR then Inr (zero + 2)
             else if key ! (zero + 1) = TEXT_ESCAPED_ZERO then text_end key (zero + 2)
             else Inl PAGED_STORAGE_CORRUPT)
          else Inl PAGED_STORAGE_CORRUPT))"
  by auto
termination by (relation "measure (\<lambda>(key, index). length key - index)") auto

declare text_end.simps [simp del]

definition component_end :: "bytes \<Rightarrow> nat \<Rightarrow> column_type \<Rightarrow> nat res" where
  "component_end key offset t =
    (let fixed = (\<lambda>n. if offset + n \<le> length key then Inr (offset + n)
                      else Inl PAGED_STORAGE_CORRUPT)
     in case t of
          Boolean \<Rightarrow> fixed 1
        | Integer \<Rightarrow> fixed 8
        | Float \<Rightarrow> fixed 8
        | Text \<Rightarrow> text_end key offset
        | Json \<Rightarrow> Inl PAGED_STORAGE_CORRUPT)"

text \<open>The IEEE bits of a sortable float, and whether they are ones the encoder writes.\<close>

definition float_bits :: "u64 \<Rightarrow> u64" where
  "float_bits sortable =
    (if sortable AND sign_bit \<noteq> 0 then sortable XOR sign_bit else NOT sortable)"

definition valid_encoded_float_component :: "bytes \<Rightarrow> bool" where
  "valid_encoded_float_component payload \<longleftrightarrow>
    length payload = 8
    \<and> (let bits = float_bits (from_be payload)
       in f64_is_finite bits \<and> (\<not> f64_is_zero bits \<or> bits = 0))"

text \<open>Unescaping a text payload: the byte after each zero is skipped.\<close>

fun unescape :: "bool \<Rightarrow> bytes \<Rightarrow> bytes" where
  "unescape escaped [] = []"
| "unescape escaped (b # bs) =
    (if escaped then unescape False bs else b # unescape (b = 0) bs)"

definition decode_component :: "bytes \<Rightarrow> column_type \<Rightarrow> 'n value_ref res" where
  "decode_component bytes t =
    (let sortable = (if length bytes = 8 then Inr (from_be bytes :: u64)
                     else Inl PAGED_STORAGE_CORRUPT)
     in case t of
          Boolean \<Rightarrow>
            if bytes = [0] then Inr (VBoolean False)
            else if bytes = [1] then Inr (VBoolean True)
            else Inl PAGED_STORAGE_CORRUPT
        | Integer \<Rightarrow> and_then sortable (\<lambda>w.
            let i = w XOR sign_bit in
            if MAX_SAFE_INTEGER < unsigned_abs i then Inl PAGED_STORAGE_CORRUPT
            else Inr (VInteger i))
        | Float \<Rightarrow>
            if \<not> valid_encoded_float_component bytes then Inl PAGED_STORAGE_CORRUPT
            else and_then sortable (\<lambda>w. Inr (VFloat (float_bits w)))
        | Text \<Rightarrow>
            if length bytes < 2 then Inl Panic
            else let payload = take (length bytes - 2) bytes;
                     text = (if 0 \<in> set payload then unescape False payload else payload)
                 in if utf8 text then Inr (VText text) else Inl PAGED_STORAGE_CORRUPT
        | Json \<Rightarrow> Inl PAGED_STORAGE_CORRUPT)"

section \<open>Tuples\<close>

fun validate_tuple_prefix ::
  "'n table_definition \<Rightarrow> str list \<Rightarrow> bytes \<Rightarrow> nat \<Rightarrow> nat res" where
  "validate_tuple_prefix schema [] key offset = Inr offset"
| "validate_tuple_prefix schema (column # columns) key offset =
    and_then (schema_column_type schema column) (\<lambda>t.
    and_then (component_end key offset t) (\<lambda>end'.
    and_then (decode_component (slice key offset (end' - offset)) t :: 'n value_ref res) (\<lambda>_.
      validate_tuple_prefix schema columns key end')))"

datatype null_policy = Reject | Omit

fun encode_columns_loop ::
  "'n serde \<Rightarrow> 'n table_definition \<Rightarrow> 'n row \<Rightarrow> null_policy \<Rightarrow> str list \<Rightarrow> bytes
   \<Rightarrow> bytes option res" where
  "encode_columns_loop js schema row policy [] key = Inr (Some key)"
| "encode_columns_loop js schema row policy (column # columns) key =
    and_then (ok_or INVALID_CHANGE (row column)) (\<lambda>v.
      if v = Null then (case policy of Reject \<Rightarrow> Inl INVALID_CHANGE | Omit \<Rightarrow> Inr None)
      else and_then (schema_column_type schema column) (\<lambda>t.
        and_then (encode_component js key t v) (\<lambda>key.
        and_then (validate_key_size key) (\<lambda>_.
          encode_columns_loop js schema row policy columns key))))"

definition encode_columns ::
  "'n serde \<Rightarrow> 'n table_definition \<Rightarrow> str list \<Rightarrow> 'n row \<Rightarrow> null_policy \<Rightarrow> bytes option res" where
  "encode_columns js schema columns row policy =
    (if columns = [] then Inl INVALID_PAGED_ARGUMENT
     else encode_columns_loop js schema row policy columns [])"

definition encode_primary_key ::
  "'n serde \<Rightarrow> 'n table_definition \<Rightarrow> 'n row \<Rightarrow> bytes res" where
  "encode_primary_key js schema row =
    and_then (encode_columns js schema (td_primary_key schema) row Reject) (\<lambda>k.
    and_then (ok_or Panic k) (\<lambda>key.
    and_then (validate_key_size key) (\<lambda>_. Inr key)))"

datatype 'n primary_key = KeyRow "'n row" | KeyValues "'n json list"

fun encode_key_values ::
  "'n serde \<Rightarrow> 'n table_definition \<Rightarrow> (str \<times> 'n json) list \<Rightarrow> bytes \<Rightarrow> bytes res" where
  "encode_key_values js schema [] key = Inr key"
| "encode_key_values js schema ((column, v) # rest) key =
    and_then (schema_column_type schema column) (\<lambda>t.
    and_then (encode_component js key t v) (\<lambda>key.
    and_then (validate_key_size key) (\<lambda>_.
      encode_key_values js schema rest key)))"

definition primary_key_encode ::
  "'n serde \<Rightarrow> 'n primary_key \<Rightarrow> 'n table_definition \<Rightarrow> bytes res" where
  "primary_key_encode js k schema =
    (case k of
       KeyRow row \<Rightarrow> encode_primary_key js schema row
     | KeyValues vs \<Rightarrow> encode_key_values js schema (zip (td_primary_key schema) vs) [])"

section \<open>Secondary indexes\<close>

definition encode_secondary_index_prefix ::
  "'n serde \<Rightarrow> 'n table_definition \<Rightarrow> index_definition \<Rightarrow> 'n row \<Rightarrow> bytes option res" where
  "encode_secondary_index_prefix js schema definition' row =
    and_then (encode_columns js schema (ix_columns definition') row Omit) (\<lambda>k.
      case k of
        None \<Rightarrow> Inr None
      | Some key \<Rightarrow> and_then (validate_key_size key) (\<lambda>_. Inr (Some key)))"

definition encode_secondary_index_entry ::
  "'n serde \<Rightarrow> 'n table_definition \<Rightarrow> index_definition \<Rightarrow> 'n row \<Rightarrow> (bytes \<times> nat) option res" where
  "encode_secondary_index_entry js schema definition' row =
    and_then (encode_secondary_index_prefix js schema definition' row) (\<lambda>k.
      case k of
        None \<Rightarrow> Inr None
      | Some prefix \<Rightarrow>
          and_then (encode_primary_key js schema row) (\<lambda>primary_key.
          and_then (validate_key_size (prefix @ primary_key)) (\<lambda>_.
            Inr (Some (prefix @ primary_key, length prefix)))))"

definition encode_secondary_index_entry_key ::
  "'n serde \<Rightarrow> 'n table_definition \<Rightarrow> index_definition \<Rightarrow> 'n row \<Rightarrow> bytes option res" where
  "encode_secondary_index_entry_key js schema definition' row =
    and_then (encode_secondary_index_entry js schema definition' row) (\<lambda>e.
      Inr (map_option fst e))"

definition index_column_positions ::
  "'n table_definition \<Rightarrow> index_definition \<Rightarrow> nat list res" where
  "index_column_positions schema definition' =
    map_res (\<lambda>column. ok_or INVALID_CHANGE
               (position (\<lambda>item. col_name item = column) (td_columns schema)))
      (ix_columns definition')"

record index_entry_layout =
  iel_slots :: "nat option list"
  iel_types :: "column_type list"

fun index_layout_loop ::
  "'n table_definition \<Rightarrow> str list \<Rightarrow> nat option list \<Rightarrow> column_type list
   \<Rightarrow> index_entry_layout res" where
  "index_layout_loop schema [] slots types = Inr \<lparr>iel_slots = slots, iel_types = types\<rparr>"
| "index_layout_loop schema (name # names) slots types =
    and_then (ok_or COLUMN_NOT_FOUND
                (position (\<lambda>column. col_name column = name) (td_columns schema))) (\<lambda>p.
      index_layout_loop schema names
        (if slots ! p = None then slots[p := Some (length types)] else slots)
        (types @ [col_type (td_columns schema ! p)]))"

definition index_entry_layout_new ::
  "'n table_definition \<Rightarrow> index_definition \<Rightarrow> index_entry_layout res" where
  "index_entry_layout_new schema definition' =
    index_layout_loop schema (ix_columns definition' @ td_primary_key schema)
      (replicate (length (td_columns schema)) None) []"

definition index_entry_layout_covers :: "index_entry_layout \<Rightarrow> nat list \<Rightarrow> bool" where
  "index_entry_layout_covers layout positions \<longleftrightarrow>
    list_all (\<lambda>p. p < length (iel_slots layout) \<and> iel_slots layout ! p \<noteq> None) positions"

text \<open>Where the component after those of \<open>types\<close> starts.\<close>

fun skip_components :: "bytes \<Rightarrow> column_type list \<Rightarrow> nat \<Rightarrow> nat res" where
  "skip_components key [] start = Inr start"
| "skip_components key (t # types) start =
    and_then (component_end key start t) (\<lambda>end'. skip_components key types end')"

definition index_entry_column ::
  "bytes \<Rightarrow> index_entry_layout \<Rightarrow> nat \<Rightarrow> 'n value_ref res" where
  "index_entry_column key layout index =
    (case (if index < length (iel_slots layout) then iel_slots layout ! index else None) of
       None \<Rightarrow> Inl INVALID_PAGED_ARGUMENT
     | Some component \<Rightarrow>
         and_then (skip_components key (take component (iel_types layout)) 0) (\<lambda>start.
           let t = iel_types layout ! component in
           and_then (component_end key start t) (\<lambda>end'.
             decode_component (slice key start (end' - start)) t)))"

definition encode_key_bound :: "'n serde \<Rightarrow> column_type \<Rightarrow> 'n json \<Rightarrow> bytes res" where
  "encode_key_bound js t v = encode_component js [] t v"

definition encode_text_prefix_bounds :: "'n serde \<Rightarrow> str \<Rightarrow> (bytes \<times> bytes) res" where
  "encode_text_prefix_bounds js prefix =
    and_then (encode_key_bound js Text (String prefix)) (\<lambda>lower.
      if length lower < 2 then Inl Panic
      else let lower = take (length lower - 2) lower in Inr (lower, lower @ [0xFF]))"

definition leading_key_component :: "bytes \<Rightarrow> column_type \<Rightarrow> bytes res" where
  "leading_key_component key t = and_then (component_end key 0 t) (\<lambda>end'. Inr (take end' key))"

definition index_entry_primary_key :: "bytes \<Rightarrow> column_type list \<Rightarrow> bytes res" where
  "index_entry_primary_key entry indexed_types =
    and_then (skip_components entry indexed_types 0) (\<lambda>offset.
      if offset = length entry then Inl PAGED_STORAGE_CORRUPT else Inr (drop offset entry))"

definition secondary_index_entry_matches_prefix :: "bytes \<Rightarrow> bytes \<Rightarrow> bool" where
  "secondary_index_entry_matches_prefix entry prefix \<longleftrightarrow>
    length prefix < length entry \<and> take (length prefix) entry = prefix"

definition secondary_index_primary_key :: "bytes \<Rightarrow> bytes \<Rightarrow> bytes res" where
  "secondary_index_primary_key entry prefix =
    and_then (map_err as_storage_corruption (validate_key_size entry)) (\<lambda>_.
      if \<not> secondary_index_entry_matches_prefix entry prefix \<or> length entry = length prefix
      then Inl PAGED_STORAGE_CORRUPT
      else Inr (drop (length prefix) entry))"

definition secondary_index_primary_key_for_definition ::
  "'n serde \<Rightarrow> 'n table_definition \<Rightarrow> index_definition \<Rightarrow> bytes \<Rightarrow> bytes res" where
  "secondary_index_primary_key_for_definition js schema definition' entry =
    and_then (map_err as_storage_corruption (validate_index_identity js schema definition')) (\<lambda>_.
    and_then (map_err as_storage_corruption (validate_key_size entry)) (\<lambda>_.
    and_then (validate_tuple_prefix schema (ix_columns definition') entry 0) (\<lambda>offset.
      if offset = length entry then Inl PAGED_STORAGE_CORRUPT
      else let primary_key = drop offset entry in
        and_then (validate_tuple_prefix schema (td_primary_key schema) primary_key 0) (\<lambda>end'.
          if end' \<noteq> length primary_key then Inl PAGED_STORAGE_CORRUPT
          else Inr primary_key))))"

end
