(* ===== verification/Btree.thy ===== *)
theory Btree
  imports Metadata Device KeyCodec
begin

unbundle bit_operations_syntax

text \<open>
  B-tree pages (\<^verbatim>\<open>btree.rs\<close>): nodes and overflow pages with their encodings, every check a strict
  decoding makes, the view that reads a node's cells in place, and looking a key up.

  A child or overflow page is named by the \<^verbatim>\<open>u64\<close> its page holds. A sum of an offset and a length is
  compared with the length of the page, so that a \<^verbatim>\<open>usize\<close> that wrapped around is refused with the sums
  too large for the page.
\<close>

section \<open>Limits\<close>

definition MAX_BTREE_INLINE_VALUE_BYTES :: nat where "MAX_BTREE_INLINE_VALUE_BYTES = 1024"
definition MAX_BTREE_INLINE_ENTRY_BYTES :: nat where "MAX_BTREE_INLINE_ENTRY_BYTES = 1536"
definition MAX_BTREE_VALUE_BYTES :: nat where "MAX_BTREE_VALUE_BYTES = 1024 * 1024"
definition NODE_MAGIC :: bytes where "NODE_MAGIC = [0x54, 0x47, 0x42, 0x54]"
definition NODE_FORMAT_VERSION :: u16 where "NODE_FORMAT_VERSION = 2"
definition NODE_FLAGS :: u8 where "NODE_FLAGS = 0"
definition NODE_HEADER_SIZE :: nat where "NODE_HEADER_SIZE = 48"
definition SLOT_SIZE :: nat where "SLOT_SIZE = 2"
definition LEAF_CELL_HEADER_SIZE :: nat where "LEAF_CELL_HEADER_SIZE = 8"
definition OVERFLOW_DESCRIPTOR_SIZE :: nat where "OVERFLOW_DESCRIPTOR_SIZE = 24"
definition INTERNAL_CELL_HEADER_SIZE :: nat where "INTERNAL_CELL_HEADER_SIZE = 20"
definition INLINE_CELL_FLAGS :: u16 where "INLINE_CELL_FLAGS = 0"
definition OVERFLOW_CELL_FLAGS :: u16 where "OVERFLOW_CELL_FLAGS = 1"
definition BTREE_NO_PAGE_ID :: u64 where "BTREE_NO_PAGE_ID = NOT 0"
definition MAX_TREE_DEPTH :: nat where "MAX_TREE_DEPTH = 64"
definition OVERFLOW_MAGIC :: bytes where "OVERFLOW_MAGIC = [0x54, 0x47, 0x4F, 0x56]"
definition OVERFLOW_FORMAT_VERSION :: u16 where "OVERFLOW_FORMAT_VERSION = 1"
definition OVERFLOW_FLAGS :: u16 where "OVERFLOW_FLAGS = 0"
definition OVERFLOW_HEADER_SIZE :: nat where "OVERFLOW_HEADER_SIZE = 56"
definition MAX_OVERFLOW_CHUNK_BYTES :: nat where
  "MAX_OVERFLOW_CHUNK_BYTES = MAX_PAGE_PAYLOAD_SIZE - OVERFLOW_HEADER_SIZE"

text \<open>\<^verbatim>\<open>total.div_ceil(MAX_OVERFLOW_CHUNK_BYTES)\<close>.\<close>

definition overflow_chunks :: "nat \<Rightarrow> nat" where
  "overflow_chunks n = (n + (MAX_OVERFLOW_CHUNK_BYTES - 1)) div MAX_OVERFLOW_CHUNK_BYTES"

definition MAX_OVERFLOW_PAGE_COUNT :: nat where
  "MAX_OVERFLOW_PAGE_COUNT = overflow_chunks MAX_BTREE_VALUE_BYTES"

lemmas node_sizes = NODE_HEADER_SIZE_def SLOT_SIZE_def LEAF_CELL_HEADER_SIZE_def
  OVERFLOW_DESCRIPTOR_SIZE_def INTERNAL_CELL_HEADER_SIZE_def MAX_BTREE_KEY_BYTES_def
  MAX_BTREE_INLINE_VALUE_BYTES_def MAX_BTREE_INLINE_ENTRY_BYTES_def

section \<open>Nodes\<close>

record overflow_descriptor =
  od_first_page_id :: u64
  od_generation :: u64
  od_total_length :: u32
  od_checksum :: u32

datatype leaf_value = InlineValue bytes | OverflowValue overflow_descriptor

record leaf_entry =
  le_key :: bytes
  le_value :: leaf_value

record internal_entry =
  ie_key :: bytes
  ie_right_child :: u64
  ie_child_hash :: u64

record internal_node =
  in_leftmost_child :: u64
  in_leftmost_child_hash :: u64
  in_entries :: "internal_entry list"

datatype node_kind = LeafNode "leaf_entry list" | InternalNode internal_node

record node =
  nd_tree_id :: u64
  nd_generation :: u64
  nd_level :: u8
  nd_kind :: node_kind

section \<open>Checks\<close>

definition checked_end :: "nat \<Rightarrow> nat \<Rightarrow> nat \<Rightarrow> nat res" where
  "checked_end offset len bound =
    (if offset + len \<le> bound then Inr (offset + len) else Inl INVALID_BTREE_PAGE)"

definition validate_tree_id :: "u64 \<Rightarrow> unit res" where
  "validate_tree_id tree_id = (if tree_id = 0 then Inl INVALID_BTREE_ARGUMENT else Inr ())"

definition validate_key :: "bytes \<Rightarrow> unit res" where
  "validate_key key = (if MAX_BTREE_KEY_BYTES < length key then Inl BTREE_LIMIT else Inr ())"

definition validate_value :: "bytes \<Rightarrow> unit res" where
  "validate_value v = (if MAX_BTREE_VALUE_BYTES < length v then Inl BTREE_LIMIT else Inr ())"

definition validate_overflow_page_id :: "u64 \<Rightarrow> unit res" where
  "validate_overflow_page_id page_id =
    (if \<not> (FIRST_DATA_PAGE_ID \<le> unat page_id \<and> unat page_id < MAX_PAGE_COUNT)
     then Inl INVALID_OVERFLOW_PAGE else Inr ())"

definition validate_overflow_descriptor :: "overflow_descriptor \<Rightarrow> u64 \<Rightarrow> unit res" where
  "validate_overflow_descriptor descriptor leaf_generation =
    and_then (validate_overflow_page_id (od_first_page_id descriptor)) (\<lambda>_.
      if od_generation descriptor = 0 \<or> leaf_generation < od_generation descriptor
      then Inl INVALID_OVERFLOW_PAGE
      else let total_length = unat (od_total_length descriptor) in
        if total_length = 0 \<or> MAX_BTREE_VALUE_BYTES < total_length then Inl INVALID_OVERFLOW_PAGE
        else let chunk_count = overflow_chunks total_length in
          if chunk_count = 0 \<or> MAX_OVERFLOW_PAGE_COUNT < chunk_count then Inl INVALID_OVERFLOW_PAGE
          else Inr ())"

definition validate_stored_entry :: "bytes \<Rightarrow> leaf_value \<Rightarrow> u64 \<Rightarrow> unit res" where
  "validate_stored_entry key v leaf_generation =
    and_then (validate_key key) (\<lambda>_.
      case v of
        InlineValue v \<Rightarrow>
          if MAX_BTREE_INLINE_VALUE_BYTES < length v
             \<or> MAX_BTREE_INLINE_ENTRY_BYTES < length key + length v
          then Inl BTREE_LIMIT else Inr ()
      | OverflowValue descriptor \<Rightarrow> validate_overflow_descriptor descriptor leaf_generation)"

definition validate_decoded_inline_entry :: "nat \<Rightarrow> nat \<Rightarrow> unit res" where
  "validate_decoded_inline_entry key_length value_length =
    (if MAX_BTREE_KEY_BYTES < key_length \<or> MAX_BTREE_INLINE_VALUE_BYTES < value_length
        \<or> MAX_BTREE_INLINE_ENTRY_BYTES < key_length + value_length
     then Inl INVALID_BTREE_PAGE else Inr ())"

definition validate_child_page :: "nat \<Rightarrow> u64 \<Rightarrow> unit res" where
  "validate_child_page parent_page_id child_page_id =
    (if \<not> (FIRST_DATA_PAGE_ID \<le> unat child_page_id \<and> unat child_page_id < MAX_PAGE_COUNT)
     then Inl INVALID_BTREE_PAGE
     else if unat child_page_id = parent_page_id then Inl INVALID_BTREE_PAGE
     else Inr ())"

fun sorted_loop :: "bytes option \<Rightarrow> bytes list \<Rightarrow> unit res" where
  "sorted_loop previous [] = Inr ()"
| "sorted_loop previous (key # keys) =
    (if (case previous of Some p \<Rightarrow> key \<le> p | None \<Rightarrow> False) then Inl INVALID_BTREE_PAGE
     else sorted_loop (Some key) keys)"

definition validate_strictly_sorted :: "bytes list \<Rightarrow> unit res" where
  "validate_strictly_sorted keys = sorted_loop None keys"

fun check_all :: "('a \<Rightarrow> unit res) \<Rightarrow> 'a list \<Rightarrow> unit res" where
  "check_all f [] = Inr ()"
| "check_all f (x # xs) = and_then (f x) (\<lambda>_. check_all f xs)"

definition validate_sorted_leaf_entries :: "leaf_entry list \<Rightarrow> u64 \<Rightarrow> unit res" where
  "validate_sorted_leaf_entries entries leaf_generation =
    and_then (check_all (\<lambda>entry. validate_stored_entry (le_key entry) (le_value entry) leaf_generation)
        entries) (\<lambda>_.
      validate_strictly_sorted (map le_key entries))"

fun children_loop :: "nat \<Rightarrow> u64 list \<Rightarrow> internal_entry list \<Rightarrow> unit res" where
  "children_loop page_id children [] = Inr ()"
| "children_loop page_id children (entry # entries) =
    and_then (validate_key (ie_key entry)) (\<lambda>_.
    and_then (validate_child_page page_id (ie_right_child entry)) (\<lambda>_.
      if ie_right_child entry \<in> set children then Inl INVALID_BTREE_PAGE
      else children_loop page_id (ie_right_child entry # children) entries))"

definition validate_sorted_internal_entries :: "nat \<Rightarrow> u64 \<Rightarrow> internal_entry list \<Rightarrow> unit res" where
  "validate_sorted_internal_entries page_id leftmost_child entries =
    and_then (children_loop page_id [leftmost_child] entries) (\<lambda>_.
      validate_strictly_sorted (map ie_key entries))"

definition validate_expected_level :: "u8 \<Rightarrow> u8 option \<Rightarrow> unit res" where
  "validate_expected_level actual_level expected_level =
    (case expected_level of
       Some expected_level \<Rightarrow> if actual_level \<noteq> expected_level then Inl INVALID_BTREE_PAGE else Inr ()
     | None \<Rightarrow> Inr ())"

definition validate_child_generation :: "u64 \<Rightarrow> u64 option \<Rightarrow> unit res" where
  "validate_child_generation generation parent_generation =
    (case parent_generation of
       Some parent_generation \<Rightarrow>
         if parent_generation < generation then Inl INVALID_BTREE_PAGE else Inr ()
     | None \<Rightarrow> Inr ())"

section \<open>Fingerprints\<close>

definition combine :: "u64 \<Rightarrow> u64 \<Rightarrow> u64" where
  "combine left right = left XOR right"

definition identify :: "bytes \<Rightarrow> u64 \<Rightarrow> u64" where
  "identify name hash = xxh64 name hash"

definition key_hash :: "bytes \<Rightarrow> u64" where
  "key_hash key = xxh64 key 0"

definition value_hash :: "u64 \<Rightarrow> leaf_value \<Rightarrow> u64" where
  "value_hash seed v =
    (case v of
       InlineValue v \<Rightarrow> xxh64 v seed
     | OverflowValue descriptor \<Rightarrow>
         xxh64 (le_bytes 4 (od_total_length descriptor) @ le_bytes 4 (od_checksum descriptor))
           (NOT seed))"

definition cell_hash :: "bytes \<Rightarrow> leaf_value \<Rightarrow> u64" where
  "cell_hash key v = value_hash (key_hash key) v"

definition leaf_entry_hash :: "leaf_entry \<Rightarrow> u64" where
  "leaf_entry_hash entry = cell_hash (le_key entry) (le_value entry)"

definition subtree_hash :: "node \<Rightarrow> u64" where
  "subtree_hash n =
    (case nd_kind n of
       LeafNode entries \<Rightarrow> foldl (\<lambda>hash entry. combine hash (leaf_entry_hash entry)) EMPTY_HASH entries
     | InternalNode internal \<Rightarrow>
         foldl (\<lambda>hash entry. combine hash (ie_child_hash entry)) (in_leftmost_child_hash internal)
           (in_entries internal))"

section \<open>Encoding a node\<close>

fun leaf_value_flags :: "leaf_value \<Rightarrow> u16" where
  "leaf_value_flags (InlineValue v) = INLINE_CELL_FLAGS"
| "leaf_value_flags (OverflowValue descriptor) = OVERFLOW_CELL_FLAGS"

fun leaf_value_encoded_len :: "leaf_value \<Rightarrow> nat" where
  "leaf_value_encoded_len (InlineValue v) = length v"
| "leaf_value_encoded_len (OverflowValue descriptor) = OVERFLOW_DESCRIPTOR_SIZE"

fun leaf_value_encode_into :: "bytes \<Rightarrow> leaf_value \<Rightarrow> bytes" where
  "leaf_value_encode_into destination (InlineValue v) = destination @ v"
| "leaf_value_encode_into destination (OverflowValue descriptor) =
    destination @ le_bytes 8 (od_first_page_id descriptor) @ le_bytes 8 (od_generation descriptor)
      @ le_bytes 4 (od_total_length descriptor) @ le_bytes 4 (od_checksum descriptor)"

definition encode_leaf_cell :: "leaf_entry \<Rightarrow> bytes res" where
  "encode_leaf_cell entry =
    and_then (validate_key (le_key entry)) (\<lambda>_.
      Inr (leaf_value_encode_into
        (le_bytes 2 (of_nat (length (le_key entry)) :: u16)
         @ le_bytes 2 (leaf_value_flags (le_value entry))
         @ le_bytes 4 (of_nat (leaf_value_encoded_len (le_value entry)) :: u32)
         @ le_key entry) (le_value entry)))"

definition encode_internal_cell :: "internal_entry \<Rightarrow> bytes res" where
  "encode_internal_cell entry =
    and_then (validate_key (ie_key entry)) (\<lambda>_.
      Inr (le_bytes 2 (of_nat (length (ie_key entry)) :: u16) @ le_bytes 2 INLINE_CELL_FLAGS
        @ le_bytes 8 (ie_right_child entry) @ le_bytes 8 (ie_child_hash entry) @ ie_key entry))"

text \<open>The cells, each placed below the one before it, and their slots.\<close>

fun write_cells :: "bytes \<Rightarrow> nat \<Rightarrow> nat \<Rightarrow> bytes list \<Rightarrow> bytes \<times> nat" where
  "write_cells payload free_end index [] = (payload, free_end)"
| "write_cells payload free_end index (cell # cells) =
    (let free_end = free_end - length cell;
         payload = put payload free_end cell;
         payload = put payload (NODE_HEADER_SIZE + index * SLOT_SIZE) (le_bytes 2 (of_nat free_end :: u16))
     in write_cells payload free_end (index + 1) cells)"

definition node_cells :: "nat \<Rightarrow> node \<Rightarrow> (page_type \<times> u64 \<times> u64 \<times> bytes list) res" where
  "node_cells page_id n =
    (case nd_kind n of
       LeafNode entries \<Rightarrow>
         if nd_level n \<noteq> 0 then Inl INVALID_BTREE_PAGE
         else and_then (validate_sorted_leaf_entries entries (nd_generation n)) (\<lambda>_.
           and_then (map_res encode_leaf_cell entries) (\<lambda>cells.
             Inr (BtreeLeaf, BTREE_NO_PAGE_ID, EMPTY_HASH, cells)))
     | InternalNode internal \<Rightarrow>
         if nd_level n = 0 then Inl INVALID_BTREE_PAGE
         else and_then (validate_child_page page_id (in_leftmost_child internal)) (\<lambda>_.
           and_then (validate_sorted_internal_entries page_id (in_leftmost_child internal)
               (in_entries internal)) (\<lambda>_.
           and_then (map_res encode_internal_cell (in_entries internal)) (\<lambda>cells.
             Inr (BtreeInternal, in_leftmost_child internal, in_leftmost_child_hash internal, cells)))))"

definition node_encode :: "nat \<Rightarrow> node \<Rightarrow> (page \<times> u64) res" where
  "node_encode page_id n =
    and_then (validate_tree_id (nd_tree_id n)) (\<lambda>_.
      if nd_generation n = 0 then Inl INVALID_BTREE_PAGE
      else and_then (node_cells page_id n) (\<lambda>(page_type, leftmost_child, leftmost_child_hash, cells).
        if 0xFFFF < length cells then Inl BTREE_LIMIT
        else let required = NODE_HEADER_SIZE + length cells * SLOT_SIZE + sum_list (map length cells)
          in if MAX_PAGE_PAYLOAD_SIZE < required then Inl BTREE_NODE_FULL
             else let free_start = NODE_HEADER_SIZE + length cells * SLOT_SIZE;
                      payload = replicate MAX_PAGE_PAYLOAD_SIZE 0;
                      payload = put payload 0 NODE_MAGIC;
                      payload = put payload 4 (le_bytes 2 NODE_FORMAT_VERSION);
                      payload = put payload 6 [nd_level n];
                      payload = put payload 7 [NODE_FLAGS];
                      payload = put payload 8 (le_bytes 8 (nd_tree_id n));
                      payload = put payload 16 (le_bytes 8 (nd_generation n));
                      payload = put payload 24 (le_bytes 2 (of_nat (length cells) :: u16));
                      payload = put payload 26 (le_bytes 2 (of_nat free_start :: u16));
                      payload = put payload 32 (le_bytes 8 leftmost_child);
                      payload = put payload 40 (le_bytes 8 leftmost_child_hash);
                      (payload, free_end) = write_cells payload MAX_PAGE_PAYLOAD_SIZE 0 cells;
                      payload = put payload 28 (le_bytes 2 (of_nat free_end :: u16))
                  in and_then (page_new page_id page_type payload) (\<lambda>page.
                    Inr (page, subtree_hash n))))"

section \<open>Decoding a node with every check\<close>

definition btree_as_corruption :: "error_code \<Rightarrow> error_code" where
  "btree_as_corruption e = (if e = Panic then Panic else INVALID_BTREE_PAGE)"

definition read_slot :: "bytes \<Rightarrow> nat \<Rightarrow> nat \<Rightarrow> nat res" where
  "read_slot bytes index free_start =
    (let offset = NODE_HEADER_SIZE + index * SLOT_SIZE in
     if free_start < offset + SLOT_SIZE \<or> length bytes < offset + SLOT_SIZE
     then Inl INVALID_BTREE_PAGE else Inr (unat (read_u16 bytes offset)))"

definition read_descriptor :: "bytes \<Rightarrow> nat \<Rightarrow> overflow_descriptor" where
  "read_descriptor bytes at =
    \<lparr>od_first_page_id = read_u64 bytes at, od_generation = read_u64 bytes (at + 8),
     od_total_length = read_u32 bytes (at + 16), od_checksum = read_u32 bytes (at + 20)\<rparr>"

definition decode_leaf_cell :: "bytes \<Rightarrow> nat \<Rightarrow> u64 \<Rightarrow> (leaf_entry \<times> nat) res" where
  "decode_leaf_cell bytes offset leaf_generation =
    and_then (checked_end offset LEAF_CELL_HEADER_SIZE (length bytes)) (\<lambda>header_end.
      let key_length = unat (read_u16 bytes offset);
          flags = read_u16 bytes (offset + 2);
          value_length = unat (read_u32 bytes (offset + 4))
      in and_then (checked_end header_end key_length (length bytes)) (\<lambda>key_end.
         and_then (checked_end key_end value_length (length bytes)) (\<lambda>value_end.
         and_then
           (if flags = INLINE_CELL_FLAGS
            then and_then (validate_decoded_inline_entry key_length value_length) (\<lambda>_.
              Inr (InlineValue (slice bytes key_end value_length)))
            else if flags = OVERFLOW_CELL_FLAGS
            then (if value_length \<noteq> OVERFLOW_DESCRIPTOR_SIZE then Inl INVALID_BTREE_PAGE
                  else let descriptor = read_descriptor bytes key_end
                    in and_then (validate_overflow_descriptor descriptor leaf_generation) (\<lambda>_.
                      Inr (OverflowValue descriptor)))
            else Inl UNSUPPORTED_BTREE_PAGE) (\<lambda>v.
           Inr (\<lparr>le_key = slice bytes header_end key_length, le_value = v\<rparr>, value_end)))))"

definition decode_internal_cell :: "bytes \<Rightarrow> nat \<Rightarrow> (internal_entry \<times> nat) res" where
  "decode_internal_cell bytes offset =
    and_then (checked_end offset INTERNAL_CELL_HEADER_SIZE (length bytes)) (\<lambda>header_end.
      let key_length = unat (read_u16 bytes offset); flags = read_u16 bytes (offset + 2)
      in if flags \<noteq> INLINE_CELL_FLAGS then Inl UNSUPPORTED_BTREE_PAGE
         else if MAX_BTREE_KEY_BYTES < key_length then Inl INVALID_BTREE_PAGE
         else and_then (checked_end header_end key_length (length bytes)) (\<lambda>key_end.
           Inr (\<lparr>ie_key = slice bytes header_end key_length, ie_right_child = read_u64 bytes (offset + 4),
                ie_child_hash = read_u64 bytes (offset + 12)\<rparr>, key_end)))"

definition validate_packed_cell :: "nat \<Rightarrow> nat \<Rightarrow> nat \<Rightarrow> nat \<Rightarrow> unit res" where
  "validate_packed_cell offset cell_end expected_cell_end free_end =
    (if offset < free_end \<or> cell_end \<noteq> expected_cell_end then Inl INVALID_BTREE_PAGE else Inr ())"

definition validate_cell_floor :: "nat \<Rightarrow> nat \<Rightarrow> unit res" where
  "validate_cell_floor actual expected = (if actual \<noteq> expected then Inl INVALID_BTREE_PAGE else Inr ())"

text \<open>The loop over the slots \<open>index\<close> to the last, reading each cell with \<open>decode_cell\<close>.\<close>

fun decode_cells ::
  "(nat \<Rightarrow> ('e \<times> nat) res) \<Rightarrow> bytes \<Rightarrow> nat \<Rightarrow> nat \<Rightarrow> nat list \<Rightarrow> nat \<Rightarrow> ('e list \<times> nat) res" where
  "decode_cells decode_cell bytes free_start free_end [] expected_cell_end = Inr ([], expected_cell_end)"
| "decode_cells decode_cell bytes free_start free_end (index # indexes) expected_cell_end =
    and_then (read_slot bytes index free_start) (\<lambda>offset.
    and_then (decode_cell offset) (\<lambda>(entry, cell_end).
    and_then (validate_packed_cell offset cell_end expected_cell_end free_end) (\<lambda>_.
    and_then (decode_cells decode_cell bytes free_start free_end indexes offset) (\<lambda>(entries, floor).
      Inr (entry # entries, floor)))))"

definition decode_kind ::
  "page \<Rightarrow> u8 \<Rightarrow> u64 \<Rightarrow> nat \<Rightarrow> nat \<Rightarrow> nat \<Rightarrow> u64 \<Rightarrow> u64 \<Rightarrow> node_kind res" where
  "decode_kind page level generation item_count free_start free_end leftmost_child leftmost_child_hash =
    (let bytes = pg_payload page in
     case pg_type page of
       BtreeLeaf \<Rightarrow>
         if level \<noteq> 0 \<or> leftmost_child \<noteq> BTREE_NO_PAGE_ID \<or> leftmost_child_hash \<noteq> EMPTY_HASH
         then Inl INVALID_BTREE_PAGE
         else and_then (decode_cells (\<lambda>offset. decode_leaf_cell bytes offset generation) bytes
             free_start free_end [0..<item_count] MAX_PAGE_PAYLOAD_SIZE) (\<lambda>(entries, floor).
           and_then (validate_cell_floor floor free_end) (\<lambda>_.
           and_then (map_err btree_as_corruption (validate_sorted_leaf_entries entries generation)) (\<lambda>_.
             Inr (LeafNode entries))))
     | BtreeInternal \<Rightarrow>
         if level = 0 then Inl INVALID_BTREE_PAGE
         else and_then (validate_child_page (pg_id page) leftmost_child) (\<lambda>_.
           and_then (decode_cells (\<lambda>offset.
               and_then (decode_internal_cell bytes offset) (\<lambda>(entry, cell_end).
               and_then (validate_child_page (pg_id page) (ie_right_child entry)) (\<lambda>_.
                 Inr (entry, cell_end)))) bytes
             free_start free_end [0..<item_count] MAX_PAGE_PAYLOAD_SIZE) (\<lambda>(entries, floor).
           and_then (validate_cell_floor floor free_end) (\<lambda>_.
           and_then (map_err btree_as_corruption
               (validate_sorted_internal_entries (pg_id page) leftmost_child entries)) (\<lambda>_.
             Inr (InternalNode \<lparr>in_leftmost_child = leftmost_child,
               in_leftmost_child_hash = leftmost_child_hash, in_entries = entries\<rparr>)))))
     | _ \<Rightarrow> Inl INVALID_BTREE_PAGE)"

definition node_decode :: "page \<Rightarrow> u64 \<Rightarrow> u64 \<Rightarrow> bool \<Rightarrow> node res" where
  "node_decode page expected_tree_id view_generation require_view_generation =
    (let bytes = pg_payload page in
     if length bytes \<noteq> MAX_PAGE_PAYLOAD_SIZE then Inl INVALID_BTREE_PAGE
     else if slice bytes 0 4 \<noteq> NODE_MAGIC then Inl INVALID_BTREE_PAGE
     else if read_u16 bytes 4 \<noteq> NODE_FORMAT_VERSION then Inl UNSUPPORTED_BTREE_PAGE
     else let level = bytes ! 6 in
     if bytes ! 7 \<noteq> NODE_FLAGS then Inl UNSUPPORTED_BTREE_PAGE
     else let tree_id = read_u64 bytes 8 in
     if tree_id \<noteq> expected_tree_id then Inl INVALID_BTREE_PAGE
     else let generation = read_u64 bytes 16 in
     if generation = 0 \<or> view_generation < generation then Inl INVALID_BTREE_PAGE
     else if require_view_generation \<and> generation \<noteq> view_generation then Inl INVALID_BTREE_PAGE
     else let item_count = unat (read_u16 bytes 24);
              free_start = unat (read_u16 bytes 26);
              free_end = unat (read_u16 bytes 28) in
     if free_start \<noteq> NODE_HEADER_SIZE + item_count * SLOT_SIZE \<or> free_end < free_start
        \<or> MAX_PAGE_PAYLOAD_SIZE < free_end
     then Inl INVALID_BTREE_PAGE
     else if list_ex (\<lambda>b. b \<noteq> 0) (slice bytes 30 2) then Inl INVALID_BTREE_PAGE
     else if list_ex (\<lambda>b. b \<noteq> 0) (slice bytes free_start (free_end - free_start))
     then Inl INVALID_BTREE_PAGE
     else and_then (decode_kind page level generation item_count free_start free_end
         (read_u64 bytes 32) (read_u64 bytes 40)) (\<lambda>kind.
       Inr \<lparr>nd_tree_id = tree_id, nd_generation = generation, nd_level = level, nd_kind = kind\<rparr>))"

section \<open>Overflow pages\<close>

record overflow_page =
  op_tree_id :: u64
  op_generation :: u64
  op_chunk_index :: u32
  op_chunk_count :: u32
  op_next_page_id :: "u64 option"
  op_total_length :: u32
  op_checksum :: u32
  op_chunk :: bytes

definition overflow_chunk_length :: "nat \<Rightarrow> nat \<Rightarrow> nat \<Rightarrow> nat res" where
  "overflow_chunk_length total_length chunk_index chunk_count =
    (if chunk_count = 0 \<or> chunk_count \<le> chunk_index then Inl INVALID_OVERFLOW_PAGE
     else if overflow_chunks total_length \<noteq> chunk_count then Inl INVALID_OVERFLOW_PAGE
     else if chunk_index + 1 = chunk_count
     then Inr (total_length - chunk_index * MAX_OVERFLOW_CHUNK_BYTES)
     else Inr MAX_OVERFLOW_CHUNK_BYTES)"

definition overflow_encode :: "u64 \<Rightarrow> overflow_page \<Rightarrow> page res" where
  "overflow_encode page_id p =
    and_then (validate_overflow_page_id page_id) (\<lambda>_.
    and_then (validate_tree_id (op_tree_id p)) (\<lambda>_.
      let chunk_index = unat (op_chunk_index p); chunk_count = unat (op_chunk_count p);
          total_length = unat (op_total_length p)
      in if op_generation p = 0 then Inl INVALID_OVERFLOW_PAGE
      else if chunk_count = 0 \<or> MAX_OVERFLOW_PAGE_COUNT < chunk_count \<or> chunk_count \<le> chunk_index
      then Inl INVALID_OVERFLOW_PAGE
      else if total_length = 0 \<or> MAX_BTREE_VALUE_BYTES < total_length then Inl INVALID_OVERFLOW_PAGE
      else if chunk_count \<noteq> overflow_chunks total_length then Inl INVALID_OVERFLOW_PAGE
      else and_then (overflow_chunk_length total_length chunk_index chunk_count) (\<lambda>expected_chunk_length.
        if length (op_chunk p) \<noteq> expected_chunk_length then Inl INVALID_OVERFLOW_PAGE
        else if (chunk_index + 1 = chunk_count) \<noteq> (op_next_page_id p = None) then Inl INVALID_OVERFLOW_PAGE
        else and_then
          (case op_next_page_id p of
             None \<Rightarrow> Inr ()
           | Some next_page_id \<Rightarrow>
               and_then (validate_overflow_page_id next_page_id) (\<lambda>_.
                 if next_page_id = page_id then Inl INVALID_OVERFLOW_PAGE else Inr ())) (\<lambda>_.
          let payload = replicate (OVERFLOW_HEADER_SIZE + length (op_chunk p)) 0;
              payload = put payload 0 OVERFLOW_MAGIC;
              payload = put payload 4 (le_bytes 2 OVERFLOW_FORMAT_VERSION);
              payload = put payload 6 (le_bytes 2 OVERFLOW_FLAGS);
              payload = put payload 8 (le_bytes 8 (op_tree_id p));
              payload = put payload 16 (le_bytes 8 (op_generation p));
              payload = put payload 24 (le_bytes 4 (op_chunk_index p));
              payload = put payload 28 (le_bytes 4 (op_chunk_count p));
              payload = put payload 32 (le_bytes 8
                (case op_next_page_id p of Some next_page_id \<Rightarrow> next_page_id | None \<Rightarrow> BTREE_NO_PAGE_ID));
              payload = put payload 40 (le_bytes 4 (op_total_length p));
              payload = put payload 44 (le_bytes 4 (op_checksum p));
              payload = put payload 48 (le_bytes 4 (of_nat (length (op_chunk p)) :: u32));
              payload = put payload OVERFLOW_HEADER_SIZE (op_chunk p)
          in page_new (unat page_id) Overflow_page payload))))"

definition overflow_decode ::
  "page \<Rightarrow> u64 \<Rightarrow> overflow_descriptor \<Rightarrow> u32 \<Rightarrow> u32 \<Rightarrow> overflow_page res" where
  "overflow_decode page expected_tree_id descriptor expected_index expected_count =
    and_then (validate_overflow_page_id (of_nat (pg_id page))) (\<lambda>_.
      let bytes = pg_payload page in
      if pg_type page \<noteq> Overflow_page then Inl INVALID_OVERFLOW_PAGE
      else if length bytes < OVERFLOW_HEADER_SIZE then Inl INVALID_OVERFLOW_PAGE
      else if slice bytes 0 4 \<noteq> OVERFLOW_MAGIC then Inl INVALID_OVERFLOW_PAGE
      else if read_u16 bytes 4 \<noteq> OVERFLOW_FORMAT_VERSION then Inl UNSUPPORTED_OVERFLOW_PAGE
      else if read_u16 bytes 6 \<noteq> OVERFLOW_FLAGS then Inl UNSUPPORTED_OVERFLOW_PAGE
      else let tree_id = read_u64 bytes 8; generation = read_u64 bytes 16;
               chunk_index = read_u32 bytes 24; chunk_count = read_u32 bytes 28;
               raw_next_page_id = read_u64 bytes 32; total_length = read_u32 bytes 40;
               checksum = read_u32 bytes 44; chunk_length = unat (read_u32 bytes 48)
      in if list_ex (\<lambda>b. b \<noteq> 0) (slice bytes 52 4) then Inl INVALID_OVERFLOW_PAGE
      else if tree_id \<noteq> expected_tree_id \<or> generation \<noteq> od_generation descriptor
         \<or> chunk_index \<noteq> expected_index \<or> chunk_count \<noteq> expected_count
         \<or> total_length \<noteq> od_total_length descriptor \<or> checksum \<noteq> od_checksum descriptor
      then Inl INVALID_OVERFLOW_PAGE
      else and_then (overflow_chunk_length (unat total_length) (unat chunk_index) (unat chunk_count))
        (\<lambda>expected_chunk_length.
        if chunk_length \<noteq> expected_chunk_length \<or> OVERFLOW_HEADER_SIZE + chunk_length \<noteq> length bytes
        then Inl INVALID_OVERFLOW_PAGE
        else and_then
          (if raw_next_page_id = BTREE_NO_PAGE_ID then Inr None
           else and_then (validate_overflow_page_id raw_next_page_id) (\<lambda>_. Inr (Some raw_next_page_id)))
          (\<lambda>next_page_id.
          if (unat chunk_index + 1 = unat chunk_count) \<noteq> (next_page_id = None)
          then Inl INVALID_OVERFLOW_PAGE
          else Inr \<lparr>op_tree_id = tree_id, op_generation = generation, op_chunk_index = chunk_index,
            op_chunk_count = chunk_count, op_next_page_id = next_page_id, op_total_length = total_length,
            op_checksum = checksum, op_chunk = drop OVERFLOW_HEADER_SIZE bytes\<rparr>)))"

section \<open>Reading a node in place\<close>

record node_view =
  nv_page_id :: nat
  nv_level :: u8
  nv_generation :: u64
  nv_leaf :: bool
  nv_leftmost_child :: u64
  nv_item_count :: nat
  nv_free_end :: nat
  nv_bytes :: bytes

definition view_from_payload :: "page \<Rightarrow> u64 \<Rightarrow> u64 \<Rightarrow> bool \<Rightarrow> node_view res" where
  "view_from_payload page expected_tree_id view_generation require_view_generation =
    (let bytes = pg_payload page in
     if length bytes \<noteq> MAX_PAGE_PAYLOAD_SIZE \<or> slice bytes 0 4 \<noteq> NODE_MAGIC then Inl INVALID_BTREE_PAGE
     else if read_u16 bytes 4 \<noteq> NODE_FORMAT_VERSION \<or> bytes ! 7 \<noteq> NODE_FLAGS
     then Inl UNSUPPORTED_BTREE_PAGE
     else if read_u64 bytes 8 \<noteq> expected_tree_id then Inl INVALID_BTREE_PAGE
     else let generation = read_u64 bytes 16 in
     if generation = 0 \<or> view_generation < generation
        \<or> (require_view_generation \<and> generation \<noteq> view_generation)
     then Inl INVALID_BTREE_PAGE
     else let level = bytes ! 6 in
     and_then
       (if pg_type page = BtreeLeaf \<and> level = 0 then Inr True
        else if pg_type page = BtreeInternal \<and> 0 < level then Inr False
        else Inl INVALID_BTREE_PAGE) (\<lambda>leaf.
     let item_count = unat (read_u16 bytes 24);
         free_start = unat (read_u16 bytes 26);
         free_end = unat (read_u16 bytes 28) in
     if free_start \<noteq> NODE_HEADER_SIZE + item_count * SLOT_SIZE \<or> free_end < free_start
        \<or> MAX_PAGE_PAYLOAD_SIZE < free_end
     then Inl INVALID_BTREE_PAGE
     else let leftmost_child = read_u64 bytes 32 in
     and_then (if \<not> leaf then validate_child_page (pg_id page) leftmost_child else Inr ()) (\<lambda>_.
       Inr \<lparr>nv_page_id = pg_id page, nv_level = level, nv_generation = generation, nv_leaf = leaf,
            nv_leftmost_child = leftmost_child, nv_item_count = item_count, nv_free_end = free_end,
            nv_bytes = bytes\<rparr>)))"

definition cell_offset :: "node_view \<Rightarrow> nat \<Rightarrow> nat res" where
  "cell_offset v index =
    (if nv_item_count v \<le> index then Inl INVALID_BTREE_PAGE
     else let offset = unat (read_u16 (nv_bytes v) (NODE_HEADER_SIZE + index * SLOT_SIZE)) in
       if offset < nv_free_end v \<or> length (nv_bytes v) \<le> offset then Inl INVALID_BTREE_PAGE
       else Inr offset)"

definition leaf_cell :: "node_view \<Rightarrow> nat \<Rightarrow> (bytes \<times> leaf_value) res" where
  "leaf_cell v index =
    (let bytes = nv_bytes v in
     and_then (cell_offset v index) (\<lambda>offset.
     and_then (checked_end offset LEAF_CELL_HEADER_SIZE (length bytes)) (\<lambda>header_end.
       let key_length = unat (read_u16 bytes offset);
           flags = read_u16 bytes (offset + 2);
           value_length = unat (read_u32 bytes (offset + 4))
       in and_then (checked_end header_end key_length (length bytes)) (\<lambda>key_end.
          and_then (checked_end key_end value_length (length bytes)) (\<lambda>value_end.
          and_then
            (if flags = INLINE_CELL_FLAGS then Inr (InlineValue (slice bytes key_end value_length))
             else if flags = OVERFLOW_CELL_FLAGS \<and> value_length = OVERFLOW_DESCRIPTOR_SIZE
             then let descriptor = read_descriptor bytes key_end
               in and_then (validate_overflow_descriptor descriptor (nv_generation v)) (\<lambda>_.
                 Inr (OverflowValue descriptor))
             else Inl UNSUPPORTED_BTREE_PAGE) (\<lambda>value'.
            Inr (slice bytes header_end key_length, value')))))))"

definition inline_leaf_cell :: "node_view \<Rightarrow> nat \<Rightarrow> (bytes \<times> bytes) option" where
  "inline_leaf_cell v index =
    (let bytes = nv_bytes v in
     if nv_item_count v \<le> index then None
     else let offset = unat (read_u16 bytes (NODE_HEADER_SIZE + index * SLOT_SIZE));
              header_end = offset + LEAF_CELL_HEADER_SIZE in
       if offset < nv_free_end v \<or> length bytes < header_end
          \<or> read_u16 bytes (offset + 2) \<noteq> INLINE_CELL_FLAGS
       then None
       else let key_end = header_end + unat (read_u16 bytes offset);
                value_end = key_end + unat (read_u32 bytes (offset + 4)) in
         if length bytes < value_end then None
         else Some (slice bytes header_end (key_end - header_end), slice bytes key_end (value_end - key_end)))"

definition leaf_key :: "node_view \<Rightarrow> nat \<Rightarrow> bytes res" where
  "leaf_key v index =
    (let bytes = nv_bytes v in
     and_then (cell_offset v index) (\<lambda>offset.
     and_then (checked_end offset LEAF_CELL_HEADER_SIZE (length bytes)) (\<lambda>header_end.
     let key_length = unat (read_u16 bytes offset) in
     and_then (checked_end header_end key_length (length bytes)) (\<lambda>key_end.
       Inr (slice bytes header_end key_length)))))"

definition internal_key :: "node_view \<Rightarrow> nat \<Rightarrow> bytes res" where
  "internal_key v index =
    (let bytes = nv_bytes v in
     and_then (cell_offset v index) (\<lambda>offset.
     and_then (checked_end offset INTERNAL_CELL_HEADER_SIZE (length bytes)) (\<lambda>header_end.
     let key_length = unat (read_u16 bytes offset) in
     and_then (checked_end header_end key_length (length bytes)) (\<lambda>key_end.
       Inr (slice bytes header_end key_length)))))"

definition view_child :: "node_view \<Rightarrow> nat \<Rightarrow> u64 res" where
  "view_child v index =
    and_then
      (if index = 0 then Inr (nv_leftmost_child v)
       else and_then (cell_offset v (index - 1)) (\<lambda>offset.
         and_then (checked_end offset INTERNAL_CELL_HEADER_SIZE (length (nv_bytes v))) (\<lambda>_.
           Inr (read_u64 (nv_bytes v) (offset + 4))))) (\<lambda>child.
    and_then (validate_child_page (nv_page_id v) child) (\<lambda>_. Inr child))"

definition view_child_hash :: "node_view \<Rightarrow> nat \<Rightarrow> u64 res" where
  "view_child_hash v index =
    (if index = 0 then Inr (read_u64 (nv_bytes v) 40)
     else and_then (cell_offset v (index - 1)) (\<lambda>offset.
       and_then (checked_end offset INTERNAL_CELL_HEADER_SIZE (length (nv_bytes v))) (\<lambda>_.
         Inr (read_u64 (nv_bytes v) (offset + 12)))))"

text \<open>Binary search between \<open>low\<close> and \<open>high\<close>.\<close>

lemma middle_right: "low < high \<Longrightarrow> high - Suc (low + (high - low) div 2) < high - (low :: nat)"
  by linarith

lemma middle_left: "low < high \<Longrightarrow> (high - low) div 2 < high - (low :: nat)"
  by linarith

function partition_loop :: "(nat \<Rightarrow> bool res) \<Rightarrow> nat \<Rightarrow> nat \<Rightarrow> nat res" where
  "partition_loop before low high =
    (if low < high
     then let middle = low + (high - low) div 2
       in and_then (before middle) (\<lambda>b.
         if b then partition_loop before (middle + 1) high else partition_loop before low middle)
     else Inr low)"
  by pat_completeness auto
termination
  by (relation "measure (\<lambda>(_, low, high). high - low)") (simp_all add: middle_right middle_left)

declare partition_loop.simps [simp del]

definition view_partition :: "node_view \<Rightarrow> nat \<Rightarrow> (nat \<Rightarrow> bool res) \<Rightarrow> nat res" where
  "view_partition v low before =
    partition_loop before (min low (nv_item_count v)) (nv_item_count v)"

definition child_index_for :: "node_view \<Rightarrow> bytes \<Rightarrow> nat res" where
  "child_index_for v key =
    view_partition v 0 (\<lambda>index. and_then (internal_key v index) (\<lambda>k. Inr (k \<le> key)))"

definition lower_bound_from :: "node_view \<Rightarrow> nat \<Rightarrow> bytes \<Rightarrow> nat res" where
  "lower_bound_from v low key =
    view_partition v low (\<lambda>index. and_then (leaf_key v index) (\<lambda>k. Inr (k < key)))"

definition lower_bound :: "node_view \<Rightarrow> bytes \<Rightarrow> nat res" where
  "lower_bound v key = lower_bound_from v 0 key"

section \<open>Searching a node\<close>

datatype ordering = Less | Equal | Greater

definition cmp :: "'a::linorder \<Rightarrow> 'a \<Rightarrow> ordering" where
  "cmp a b = (if a < b then Less else if a = b then Equal else Greater)"

text \<open>\<^verbatim>\<open>u64::trailing_zeros\<close>.\<close>

definition trailing_zeros :: "u64 \<Rightarrow> nat" where
  "trailing_zeros w = length (takeWhile (\<lambda>i. \<not> bit w i) [0..<64])"

definition key_order :: "bytes \<Rightarrow> bytes \<Rightarrow> ordering" where
  "key_order cell key =
    (if 8 \<le> length cell \<and> 8 \<le> length key
     then let a = from_le (take 8 cell) :: u64; b = from_le (take 8 key) :: u64
       in if a \<noteq> b
          then let shift = unat (of_nat (trailing_zeros (a XOR b)) AND 56 :: u32)
            in cmp (ucast (drop_bit shift a) :: u8) (ucast (drop_bit shift b))
          else if length cell = 8 \<and> length key = 8 then Equal
          else cmp cell key
     else cmp cell key)"

text \<open>\<open>passed\<close>: whether the search goes on to the right of a key of that order.\<close>

function search_loop ::
  "node_view \<Rightarrow> bytes \<Rightarrow> nat \<Rightarrow> (ordering \<Rightarrow> bool) \<Rightarrow> nat \<Rightarrow> nat \<Rightarrow> bool \<Rightarrow> (nat \<times> bool) option" where
  "search_loop v key header passed low high found =
    (if low < high
     then let middle = low + (high - low) div 2; page = nv_bytes v
       in if length page < NODE_HEADER_SIZE + middle * SLOT_SIZE + SLOT_SIZE then None
       else let offset = unat (read_u16 page (NODE_HEADER_SIZE + middle * SLOT_SIZE))
       in if offset < nv_free_end v then None
       else if length page < offset + 2 then None
       else let start = offset + header; len = unat (read_u16 page offset)
       in if length page < start + len then None
       else let order = key_order (slice page start len) key
         in if passed order then search_loop v key header passed (middle + 1) high found
            else search_loop v key header passed low middle (order = Equal)
     else Some (low, found))"
  by pat_completeness auto
termination
  by (relation "measure (\<lambda>(_, _, _, _, low, high, _). high - low)") (simp_all add: middle_right middle_left)

declare search_loop.simps [simp del]

definition search :: "node_view \<Rightarrow> bytes \<Rightarrow> (nat \<times> bool) option" where
  "search v key =
    (if length (nv_bytes v) \<noteq> MAX_PAGE_PAYLOAD_SIZE then None
     else search_loop v key (if nv_leaf v then LEAF_CELL_HEADER_SIZE else INTERNAL_CELL_HEADER_SIZE)
       (\<lambda>order. order = Less \<or> (order = Equal \<and> \<not> nv_leaf v)) 0 (nv_item_count v) False)"

definition search_error :: "node_view \<Rightarrow> bytes \<Rightarrow> error_code" where
  "search_error v key =
    (case (if nv_leaf v then lower_bound v key else child_index_for v key) of
       Inl e \<Rightarrow> e
     | Inr _ \<Rightarrow> INVALID_BTREE_PAGE)"

section \<open>Looking a key up\<close>

text \<open>The state of the database a cursor was opened on.\<close>

datatype cursor_view =
    CommittedView u64
  | CandidateView u64 nat u64

fun cursor_view_generation :: "cursor_view \<Rightarrow> u64" where
  "cursor_view_generation (CommittedView generation) = generation"
| "cursor_view_generation (CandidateView generation _ _) = generation"

text \<open>
  \<^verbatim>\<open>BtreeReadView\<close>: reading a page, owned or in place, gives the same page; the state it reads; and
  whether a page must be of that state's generation.
\<close>

record 'r btree_read_view =
  rv_read_page :: "nat \<Rightarrow> ('r, page) op"
  rv_cursor_view :: "'r \<Rightarrow> u64 \<Rightarrow> cursor_view res"
  rv_requires_view_generation :: "'r \<Rightarrow> nat \<Rightarrow> bool"

fun overflow_loop ::
  "'r btree_read_view \<Rightarrow> u64 \<Rightarrow> overflow_descriptor \<Rightarrow> nat \<Rightarrow> nat list \<Rightarrow> u64 \<Rightarrow> bytes \<Rightarrow> u64 list
   \<Rightarrow> ('r, bytes \<times> u64 list) op" where
  "overflow_loop rv tree_id descriptor chunk_count [] page_id v pages = return_op (v, pages)"
| "overflow_loop rv tree_id descriptor chunk_count (index # indexes) page_id v pages =
    (if page_id \<in> set pages then fail_op INVALID_OVERFLOW_PAGE
     else bind_op (rv_read_page rv (unat page_id)) (\<lambda>page.
       bind_op (lift_op (overflow_decode page tree_id descriptor (of_nat index) (of_nat chunk_count)))
         (\<lambda>overflow.
         if index + 1 < chunk_count
         then bind_op (lift_op (ok_or INVALID_OVERFLOW_PAGE (op_next_page_id overflow))) (\<lambda>next_page_id.
           overflow_loop rv tree_id descriptor chunk_count indexes next_page_id (v @ op_chunk overflow)
             (pages @ [page_id]))
         else overflow_loop rv tree_id descriptor chunk_count indexes page_id (v @ op_chunk overflow)
             (pages @ [page_id]))))"

definition read_overflow_chain ::
  "'r btree_read_view \<Rightarrow> u64 \<Rightarrow> u64 \<Rightarrow> u64 \<Rightarrow> overflow_descriptor \<Rightarrow> ('r, bytes \<times> u64 list) op" where
  "read_overflow_chain rv tree_id view_generation leaf_generation descriptor =
    bind_op (lift_op (validate_overflow_descriptor descriptor leaf_generation)) (\<lambda>_.
      if view_generation < od_generation descriptor then fail_op INVALID_OVERFLOW_PAGE
      else let chunk_count = overflow_chunks (unat (od_total_length descriptor))
        in bind_op (overflow_loop rv tree_id descriptor chunk_count [0..<chunk_count]
             (od_first_page_id descriptor) [] []) (\<lambda>(v, pages).
          if length v \<noteq> unat (od_total_length descriptor) then fail_op INVALID_OVERFLOW_PAGE
          else if checksum32 v \<noteq> od_checksum descriptor then fail_op INVALID_OVERFLOW_PAGE
          else return_op (v, pages)))"

text \<open>The value of the leaf cell the search found.\<close>

definition read_found ::
  "'r btree_read_view \<Rightarrow> u64 \<Rightarrow> u64 \<Rightarrow> bytes \<Rightarrow> node_view \<Rightarrow> nat \<Rightarrow> ('r, bytes) op" where
  "read_found rv tree_id generation prefix v index =
    (case inline_leaf_cell v index of
       Some (_, inline) \<Rightarrow> return_op (prefix @ inline)
     | None \<Rightarrow>
         bind_op (lift_op (leaf_cell v index)) (\<lambda>(_, cell).
           case cell of
             InlineValue inline \<Rightarrow> return_op (prefix @ inline)
           | OverflowValue descriptor \<Rightarrow>
               bind_op (read_overflow_chain rv tree_id generation (nv_generation v) descriptor)
                 (\<lambda>(chained, _). return_op (prefix @ chained))))"

fun get_loop ::
  "'r btree_read_view \<Rightarrow> u64 \<Rightarrow> bytes \<Rightarrow> bytes \<Rightarrow> u64 \<Rightarrow> nat \<Rightarrow> u64 \<Rightarrow> u8 option \<Rightarrow> u64 option
   \<Rightarrow> ('r, bytes option) op" where
  "get_loop rv tree_id key prefix generation 0 page_id expected_level parent_generation =
    fail_op INVALID_BTREE_PAGE"
| "get_loop rv tree_id key prefix generation (Suc steps) page_id expected_level parent_generation =
    (\<lambda>r. let require_view_generation = rv_requires_view_generation rv r (unat page_id) in
      bind_op (rv_read_page rv (unat page_id)) (\<lambda>page.
      bind_op (lift_op (view_from_payload page tree_id generation require_view_generation)) (\<lambda>v.
      bind_op (lift_op (validate_expected_level (nv_level v) expected_level)) (\<lambda>_.
      bind_op (lift_op (validate_child_generation (nv_generation v) parent_generation)) (\<lambda>_.
        case search v key of
          None \<Rightarrow> fail_op (search_error v key)
        | Some (index, found) \<Rightarrow>
            if nv_leaf v
            then (if \<not> found then return_op None
                  else bind_op (read_found rv tree_id generation prefix v index) (\<lambda>bs. return_op (Some bs)))
            else bind_op (lift_op (view_child v index)) (\<lambda>child.
              get_loop rv tree_id key prefix generation steps child (Some (nv_level v - 1))
                (Some (nv_generation v))))))) r)"

definition get_prefixed_from ::
  "'r btree_read_view \<Rightarrow> u64 \<Rightarrow> u64 \<Rightarrow> bytes \<Rightarrow> bytes \<Rightarrow> ('r, bytes option) op" where
  "get_prefixed_from rv root_page_id tree_id key prefix r =
    bind_op (lift_op (validate_tree_id tree_id)) (\<lambda>_.
    bind_op (lift_op (validate_key key)) (\<lambda>_.
    bind_op (lift_op (rv_cursor_view rv r tree_id)) (\<lambda>view.
      get_loop rv tree_id key prefix (cursor_view_generation view) MAX_TREE_DEPTH root_page_id None None))) r"

definition get_from ::
  "'r btree_read_view \<Rightarrow> u64 \<Rightarrow> u64 \<Rightarrow> bytes \<Rightarrow> ('r, bytes option) op" where
  "get_from rv root_page_id tree_id key = get_prefixed_from rv root_page_id tree_id key []"

end
