(* ===== verification/Cursor.thy ===== *)
theory Cursor
  imports Btree
begin

text \<open>
  Cursors over a B-tree (\<^verbatim>\<open>btree.rs\<close>), which move through its leaves in key order, in either direction, from a
  bound.  A cursor keeps the leaf it is in and the internal nodes above it, and refuses a page it has been to.
\<close>

section \<open>State\<close>

text \<open>The path holds the deepest node first.\<close>

record btree_cursor =
  bc_tree_id :: u64
  bc_root_page_id :: u64
  bc_view :: cursor_view
  bc_path :: "(node_view \<times> nat) list"
  bc_leaf :: "node_view option"
  bc_leaf_index :: nat
  bc_finished :: bool
  bc_visited_pages :: "u64 list"
  bc_backward :: bool
  bc_strict :: bool

text \<open>An operation of a cursor changes the cursor and, through the pages it reads, the reader.\<close>

type_synonym ('r, 'a) cursor_op = "(btree_cursor \<times> 'r, 'a) op"

definition on_reader :: "('r, 'a) op \<Rightarrow> ('r, 'a) cursor_op" where
  "on_reader m = (\<lambda>(c, r). case m r of (x, r') \<Rightarrow> (x, (c, r')))"

definition change_cursor :: "(btree_cursor \<Rightarrow> btree_cursor) \<Rightarrow> ('r, unit) cursor_op" where
  "change_cursor f = (\<lambda>(c, r). (Inr (), (f c, r)))"

definition view_open :: "page \<Rightarrow> u64 \<Rightarrow> u64 \<Rightarrow> bool \<Rightarrow> bool \<Rightarrow> node_view res" where
  "view_open page expected_tree_id view_generation require_view_generation strict =
    and_then (if strict
              then and_then (node_decode page expected_tree_id view_generation require_view_generation) (\<lambda>_. Inr ())
              else Inr ()) (\<lambda>_.
      view_from_payload page expected_tree_id view_generation require_view_generation)"

definition cursor_load ::
  "'r btree_read_view \<Rightarrow> u64 \<Rightarrow> u8 option \<Rightarrow> u64 option \<Rightarrow> ('r, node_view) cursor_op" where
  "cursor_load rv page_id expected_level parent_generation = (\<lambda>(c, r).
    if page_id \<in> set (bc_visited_pages c) then (Inl INVALID_BTREE_PAGE, (c, r))
    else bind_op (on_reader (rv_read_page rv (unat page_id))) (\<lambda>page (c, r).
      bind_op (lift_op (view_open page (bc_tree_id c) (cursor_view_generation (bc_view c))
          (rv_requires_view_generation rv r (unat page_id)) (bc_strict c))) (\<lambda>node.
      bind_op (lift_op (validate_expected_level (nv_level node) expected_level)) (\<lambda>_.
      bind_op (lift_op (validate_child_generation (nv_generation node) parent_generation)) (\<lambda>_.
        return_op node))) (c, r))
      (c\<lparr>bc_visited_pages := page_id # bc_visited_pages c\<rparr>, r))"

definition ensure_view :: "'r btree_read_view \<Rightarrow> ('r, unit) cursor_op" where
  "ensure_view rv = (\<lambda>(c, r).
    (and_then (rv_cursor_view rv r (bc_tree_id c)) (\<lambda>current.
       if current \<noteq> bc_view c then Inl CURSOR_INVALIDATED else Inr ()), (c, r)))"

section \<open>Seeking\<close>

definition seek_leaf_index :: "bytes option \<Rightarrow> bool \<Rightarrow> node_view \<Rightarrow> nat res" where
  "seek_leaf_index bound backward node =
    (case bound of
       Some bound \<Rightarrow> lower_bound node bound
     | None \<Rightarrow> Inr (if backward then nv_item_count node else 0))"

definition seek_child_index :: "bytes option \<Rightarrow> bool \<Rightarrow> node_view \<Rightarrow> nat res" where
  "seek_child_index bound backward node =
    (case bound of
       Some bound \<Rightarrow>
         if backward
         then view_partition node 0 (\<lambda>index. and_then (internal_key node index) (\<lambda>k. Inr (k < bound)))
         else child_index_for node bound
     | None \<Rightarrow> Inr (if backward then nv_item_count node else 0))"

fun seek_loop ::
  "'r btree_read_view \<Rightarrow> bytes option \<Rightarrow> bool \<Rightarrow> nat \<Rightarrow> u64 \<Rightarrow> u8 option \<Rightarrow> u64 option \<Rightarrow> ('r, unit) cursor_op" where
  "seek_loop rv bound backward 0 page_id expected_level parent_generation = fail_op INVALID_BTREE_PAGE"
| "seek_loop rv bound backward (Suc steps) page_id expected_level parent_generation =
    bind_op (cursor_load rv page_id expected_level parent_generation) (\<lambda>node.
      if nv_leaf node
      then bind_op (lift_op (seek_leaf_index bound backward node)) (\<lambda>index.
        change_cursor (\<lambda>c. c\<lparr>bc_leaf_index := index, bc_leaf := Some node\<rparr>))
      else bind_op (lift_op (seek_child_index bound backward node)) (\<lambda>child_index.
        bind_op (lift_op (view_child node child_index)) (\<lambda>child.
        bind_op (change_cursor (\<lambda>c. c\<lparr>bc_path := (node, child_index) # bc_path c\<rparr>)) (\<lambda>_.
          seek_loop rv bound backward steps child (Some (nv_level node - 1)) (Some (nv_generation node))))))"

definition seek :: "'r btree_read_view \<Rightarrow> bytes option \<Rightarrow> ('r, unit) cursor_op" where
  "seek rv bound =
    bind_op (ensure_view rv) (\<lambda>_.
    bind_op (change_cursor (\<lambda>c. c\<lparr>bc_path := [], bc_visited_pages := []\<rparr>)) (\<lambda>_ (c, r).
      seek_loop rv bound (bc_backward c) MAX_TREE_DEPTH (bc_root_page_id c) None None (c, r)))"

definition open_cursor ::
  "'r btree_read_view \<Rightarrow> u64 \<Rightarrow> u64 \<Rightarrow> bytes option \<Rightarrow> bool \<Rightarrow> bool \<Rightarrow> ('r, btree_cursor) op" where
  "open_cursor rv root_page_id tree_id bound backward strict r =
    bind_op (lift_op (validate_tree_id tree_id)) (\<lambda>_.
    bind_op (lift_op (case bound of Some bound \<Rightarrow> validate_key bound | None \<Rightarrow> Inr ())) (\<lambda>_.
    bind_op (lift_op (rv_cursor_view rv r tree_id)) (\<lambda>view r.
      case seek rv bound
        (\<lparr>bc_tree_id = tree_id, bc_root_page_id = root_page_id, bc_view = view, bc_path = [], bc_leaf = None,
          bc_leaf_index = 0, bc_finished = False, bc_visited_pages = [], bc_backward = backward,
          bc_strict = strict\<rparr>, r) of
        (Inl e, (_, r')) \<Rightarrow> (Inl e, r')
      | (Inr _, (c, r')) \<Rightarrow> (Inr c, r')))) r"

section \<open>Moving\<close>

text \<open>To the first leaf below a page moving forward, to the last moving backward.\<close>

fun descend_loop :: "'r btree_read_view \<Rightarrow> bool \<Rightarrow> nat \<Rightarrow> u64 \<Rightarrow> u8 \<Rightarrow> u64 \<Rightarrow> ('r, bool) cursor_op" where
  "descend_loop rv backward 0 page_id expected_level parent_generation = fail_op INVALID_BTREE_PAGE"
| "descend_loop rv backward (Suc steps) page_id expected_level parent_generation =
    bind_op (cursor_load rv page_id (Some expected_level) (Some parent_generation)) (\<lambda>node.
      let edge = (if backward then nv_item_count node else 0) in
      if nv_leaf node
      then bind_op (change_cursor (\<lambda>c. c\<lparr>bc_leaf_index := edge, bc_leaf := Some node\<rparr>)) (\<lambda>_. return_op True)
      else bind_op (lift_op (view_child node edge)) (\<lambda>child.
        bind_op (change_cursor (\<lambda>c. c\<lparr>bc_path := (node, edge) # bc_path c\<rparr>)) (\<lambda>_.
          descend_loop rv backward steps child (nv_level node - 1) (nv_generation node))))"

definition descend_edge :: "'r btree_read_view \<Rightarrow> u64 \<Rightarrow> u8 \<Rightarrow> u64 \<Rightarrow> ('r, bool) cursor_op" where
  "descend_edge rv page_id expected_level parent_generation = (\<lambda>(c, r).
    descend_loop rv (bc_backward c) (MAX_TREE_DEPTH - length (bc_path c)) page_id expected_level
      parent_generation (c, r))"

definition next_sibling :: "bool \<Rightarrow> node_view \<Rightarrow> nat \<Rightarrow> nat option" where
  "next_sibling backward node child_index =
    (if backward then (if child_index = 0 then None else Some (child_index - 1))
     else if child_index < nv_item_count node then Some (child_index + 1) else None)"

fun advance_loop :: "'r btree_read_view \<Rightarrow> (node_view \<times> nat) list \<Rightarrow> ('r, bool) cursor_op" where
  "advance_loop rv [] (c, r) = (Inr False, (c\<lparr>bc_path := []\<rparr>, r))"
| "advance_loop rv ((node, child_index) # path) (c, r) =
    (case next_sibling (bc_backward c) node child_index of
       None \<Rightarrow> advance_loop rv path (c, r)
     | Some sibling \<Rightarrow>
         bind_op (lift_op (view_child node sibling)) (\<lambda>next_child.
         bind_op (change_cursor (\<lambda>c. c\<lparr>bc_path := (node, sibling) # path\<rparr>)) (\<lambda>_.
           descend_edge rv next_child (nv_level node - 1) (nv_generation node)))
           (c\<lparr>bc_path := path\<rparr>, r))"

definition advance_leaf :: "'r btree_read_view \<Rightarrow> ('r, bool) cursor_op" where
  "advance_leaf rv = (\<lambda>(c, r). advance_loop rv (bc_path c) (c, r))"

definition leaf_remaining :: "btree_cursor \<Rightarrow> bool" where
  "leaf_remaining c =
    (if bc_backward c then 0 < bc_leaf_index c
     else bc_leaf_index c < (case bc_leaf c of Some leaf \<Rightarrow> nv_item_count leaf | None \<Rightarrow> 0))"

text \<open>
  The loop over the leaves ends because a leaf that was moved to is a page the cursor has not been to before, and
  there are finitely many page numbers.
\<close>

lemma load_visits:
  assumes "cursor_load rv pid el pg (c, r) = (x, (c', r'))"
  shows "set (bc_visited_pages c) \<subseteq> set (bc_visited_pages c')"
    "x = Inr node \<Longrightarrow> pid \<notin> set (bc_visited_pages c) \<and> pid \<in> set (bc_visited_pages c')"
  using assms by (auto simp: cursor_load_def bind_op_def lift_op_def on_reader_def return_op_def
      split: if_splits prod.splits sum.splits)

lemma descend_visits:
  "descend_loop rv b steps pid el pg (c, r) = (x, (c', r')) \<Longrightarrow>
    set (bc_visited_pages c) \<subseteq> set (bc_visited_pages c') \<and>
    (x = Inr moved \<longrightarrow> set (bc_visited_pages c) \<noteq> set (bc_visited_pages c'))"
proof (induction steps arbitrary: pid el pg c r)
  case (Suc steps)
  obtain y c1 r1 where l: "cursor_load rv pid (Some el) (Some pg) (c, r) = (y, (c1, r1))" by (metis surj_pair)
  show ?case
  proof (cases y)
    case (Inl e)
    with Suc.prems l load_visits(1) [OF l] show ?thesis by (auto simp: bind_op_def)
  next
    case (Inr node)
    note v = load_visits [OF l]
    from v(2) [OF Inr] have new: "pid \<notin> set (bc_visited_pages c)" "pid \<in> set (bc_visited_pages c1)" by simp_all
    show ?thesis
    proof (cases "nv_leaf node")
      case True
      with Suc.prems l Inr v(1) new show ?thesis
        by (auto simp: bind_op_def change_cursor_def return_op_def Let_def split: if_splits)
    next
      case False
      show ?thesis
      proof (cases "view_child node (if b then nv_item_count node else 0)")
        case (Inl e)
        with Suc.prems l False v(1) show ?thesis by (auto simp: bind_op_def lift_op_def Let_def \<open>y = Inr node\<close>)
      next
        case child: (Inr child)
        have "descend_loop rv b steps child (nv_level node - 1) (nv_generation node)
            (c1\<lparr>bc_path := (node, if b then nv_item_count node else 0) # bc_path c1\<rparr>, r1) = (x, (c', r'))"
          using Suc.prems l Inr False child by (simp add: bind_op_def lift_op_def change_cursor_def Let_def)
        from Suc.IH [OF this] v(1) new show ?thesis by auto
      qed
    qed
  qed
qed (auto simp: fail_op_def)

lemma advance_visits:
  "advance_loop rv path (c, r) = (Inr True, (c', r')) \<Longrightarrow> set (bc_visited_pages c) \<subset> set (bc_visited_pages c')"
proof (induction path)
  case (Cons e path)
  obtain node i where e: "e = (node, i)" by (cases e)
  show ?case
  proof (cases "next_sibling (bc_backward c) node i")
    case None
    with Cons e show ?thesis by simp
  next
    case (Some s)
    then obtain child where "descend_edge rv child (nv_level node - 1) (nv_generation node)
        (c\<lparr>bc_path := (node, s) # path\<rparr>, r) = (Inr True, (c', r'))"
      using Cons.prems e by (auto simp: bind_op_def lift_op_def change_cursor_def split: sum.splits)
    then show ?thesis by (auto simp: descend_edge_def dest!: descend_visits)
  qed
qed simp

lemma advance_measure:
  assumes "advance_leaf rv (c, r) = (Inr True, (c', r'))"
  shows "card (- set (bc_visited_pages c')) < card (- set (bc_visited_pages c))"
proof -
  have "set (bc_visited_pages c) \<subset> set (bc_visited_pages c')"
    using assms advance_visits [of rv "bc_path c" c r c' r'] by (simp add: advance_leaf_def)
  then have "- set (bc_visited_pages c') \<subset> - set (bc_visited_pages c)" by blast
  then show ?thesis by (simp add: psubset_card_mono)
qed

function next_leaf_loop :: "'r btree_read_view \<Rightarrow> ('r, bool) cursor_op" where
  "next_leaf_loop rv (c, r) =
    (if leaf_remaining c then (Inr True, (c, r))
     else case advance_leaf rv (c, r) of
       (Inl e, s) \<Rightarrow> (Inl e, s)
     | (Inr moved, (c', r')) \<Rightarrow>
         if moved then next_leaf_loop rv (c', r')
         else (Inr False, (c'\<lparr>bc_finished := True\<rparr>, r')))"
  by pat_completeness auto
termination
  by (relation "measure (\<lambda>(_, c, _). card (- set (bc_visited_pages c)))")
     (auto dest: advance_measure advance_measure [OF sym])

declare next_leaf_loop.simps [simp del]

definition next_leaf_from :: "'r btree_read_view \<Rightarrow> ('r, bool) cursor_op" where
  "next_leaf_from rv = (\<lambda>(c, r).
    if bc_finished c then (Inr False, (c, r))
    else bind_op (ensure_view rv) (\<lambda>_. next_leaf_loop rv) (c, r))"

section \<open>Reading entries\<close>

definition read_cell :: "'r btree_read_view \<Rightarrow> node_view \<Rightarrow> u64 \<Rightarrow> u64 \<Rightarrow> nat \<Rightarrow> ('r, bytes \<times> bytes) op" where
  "read_cell rv leaf tree_id generation index =
    bind_op (lift_op (case inline_leaf_cell leaf index of
        Some (key, v) \<Rightarrow> Inr (key, InlineValue v)
      | None \<Rightarrow> leaf_cell leaf index)) (\<lambda>(key, cell).
      case cell of
        InlineValue v \<Rightarrow> return_op (key, v)
      | OverflowValue descriptor \<Rightarrow>
          bind_op (read_overflow_chain rv tree_id generation (nv_generation leaf) descriptor)
            (\<lambda>(v, _). return_op (key, v)))"

definition next_in_leaf :: "'r btree_read_view \<Rightarrow> ('r, (bytes \<times> bytes) option) cursor_op" where
  "next_in_leaf rv = (\<lambda>(c, r).
    case bc_leaf c of
      None \<Rightarrow> (Inr None, (c, r))
    | Some leaf \<Rightarrow>
        let index = (if bc_backward c then (if 0 < bc_leaf_index c then Some (bc_leaf_index c - 1) else None)
                     else if bc_leaf_index c < nv_item_count leaf then Some (bc_leaf_index c) else None) in
        case index of
          None \<Rightarrow> (Inr None, (c, r))
        | Some index \<Rightarrow>
            bind_op (on_reader (read_cell rv leaf (bc_tree_id c) (cursor_view_generation (bc_view c)) index)) (\<lambda>entry.
            bind_op (change_cursor (\<lambda>c. c\<lparr>bc_leaf_index := (if bc_backward c then index else index + 1)\<rparr>)) (\<lambda>_.
              return_op (Some entry))) (c, r))"

definition next_from :: "'r btree_read_view \<Rightarrow> ('r, (bytes \<times> bytes) option) cursor_op" where
  "next_from rv =
    bind_op (next_leaf_from rv) (\<lambda>more. if \<not> more then return_op None else next_in_leaf rv)"

definition cursor_leaf :: "btree_cursor \<Rightarrow> (node_view \<times> nat) option" where
  "cursor_leaf c = map_option (\<lambda>leaf. (leaf, bc_leaf_index c)) (bc_leaf c)"

definition skip_to :: "nat \<Rightarrow> btree_cursor \<Rightarrow> btree_cursor" where
  "skip_to index c = c\<lparr>bc_leaf_index := index\<rparr>"

definition cell_at :: "'r btree_read_view \<Rightarrow> btree_cursor \<Rightarrow> nat \<Rightarrow> ('r, bytes \<times> bytes) op" where
  "cell_at rv c index =
    bind_op (lift_op (ok_or INVALID_BTREE_PAGE (bc_leaf c))) (\<lambda>leaf.
      read_cell rv leaf (bc_tree_id c) (cursor_view_generation (bc_view c)) index)"

text \<open>The keys that are left, and the positions of those that were found.\<close>

fun positions_loop :: "node_view \<Rightarrow> bytes \<Rightarrow> nat \<Rightarrow> bytes list \<Rightarrow> nat list \<Rightarrow> (bytes list \<times> nat list) res" where
  "positions_loop leaf last_key low [] positions = Inr ([], positions)"
| "positions_loop leaf last_key low (key # keys) positions =
    (if last_key < key then Inr (key # keys, positions)
     else and_then (lower_bound_from leaf low key) (\<lambda>low.
       and_then (leaf_key leaf low) (\<lambda>found.
         if found = key then positions_loop leaf last_key (low + 1) keys (positions @ [low])
         else positions_loop leaf last_key low keys positions)))"

definition leaf_positions :: "btree_cursor \<Rightarrow> bytes list \<Rightarrow> (bytes list \<times> nat list) res" where
  "leaf_positions c keys =
    (case bc_leaf c of
       None \<Rightarrow> Inr (keys, [])
     | Some leaf \<Rightarrow>
         if keys = [] \<or> nv_item_count leaf = 0 then Inr (keys, [])
         else and_then (leaf_key leaf (nv_item_count leaf - 1)) (\<lambda>last_key.
           positions_loop leaf last_key (bc_leaf_index c) keys []))"

end
