(* ===== verification/KeyProofs.thy ===== *)
theory KeyProofs
  imports KeyCodec
begin

unbundle bit_operations_syntax

text \<open>
  What the encoding of keys promises: a component decodes to the value it was made of, it delimits
  itself inside a longer key, and bytes compare as values do. The locale \<open>ordered_code\<close> states this of
  one component; everything about tuples and index entries follows inside it.
\<close>

section \<open>Byte order\<close>

lemma byte_list_less_simps [simp]:
  "\<not> xs < ([] :: 'a::linorder list)"
  "[] < y # ys"
  "x # xs < y # ys \<longleftrightarrow> x < y \<or> (x = y \<and> xs < (ys :: 'a::linorder list))"
  by (auto simp: list_less_def)

lemma append_less_cancel [simp]: "ps @ xs < ps @ ys \<longleftrightarrow> xs < (ys :: 'a::linorder list)"
  by (induction ps) auto

lemma append_le_cancel [simp]: "ps @ xs \<le> ps @ ys \<longleftrightarrow> xs \<le> (ys :: 'a::linorder list)"
  by (simp add: not_less [symmetric])

lemma same_length_append_less:
  "length xs = length ys \<Longrightarrow>
   xs @ as < ys @ bs \<longleftrightarrow> xs < ys \<or> (xs = ys \<and> as < (bs :: 'a::linorder list))"
  by (induction xs ys rule: list_induct2) auto

text \<open>The number big-endian bytes write.\<close>

fun be_nat :: "bytes \<Rightarrow> nat" where
  "be_nat [] = 0"
| "be_nat (b # bs) = unat b * 256 ^ length bs + be_nat bs"

lemma digit_less: "x < y \<Longrightarrow> u < m \<Longrightarrow> x * m + u < y * m + (v :: nat)"
proof -
  assume "x < y" "u < m"
  then have "Suc x * m \<le> y * m" by (intro mult_le_mono1) simp
  with \<open>u < m\<close> show ?thesis by simp
qed

lemma be_nat_bound: "be_nat bs < 256 ^ length bs"
proof (induction bs)
  case (Cons b bs)
  have "unat b < 256" using unsigned_less [of b, where 'a = nat] by simp
  from digit_less [OF this Cons, of 0] show ?case by simp
qed simp

lemma be_nat_append: "be_nat (as @ bs) = be_nat as * 256 ^ length bs + be_nat bs"
  by (induction as) (simp_all add: power_add algebra_simps)

lemma from_le_eq_of_nat: "(from_le bs :: 'a::len word) = of_nat (be_nat (rev bs))"
proof (induction bs)
  case (Cons b bs)
  have "ucast b AND push_bit 8 (from_le bs :: 'a word) = 0"
    by (rule bit_word_eqI) (auto simp: bit_simps dest: bit_imp_le_length)
  then have "(from_le (b # bs) :: 'a word) = ucast b + push_bit 8 (from_le bs)"
    by (simp add: disjunctive_add_eq_or)
  also have "\<dots> = of_nat (unat b) + of_nat (256 * be_nat (rev bs))"
    by (simp add: Cons push_bit_eq_mult)
  finally show ?case by (simp add: be_nat_append algebra_simps)
qed simp

lemma unat_from_be:
  assumes "8 * length bs \<le> LENGTH('a)"
  shows "unat (from_be bs :: 'a::len word) = be_nat bs"
proof -
  have "be_nat bs < 2 ^ LENGTH('a)"
  proof -
    have "(256 :: nat) ^ length bs = 2 ^ (8 * length bs)" by (simp add: power_mult)
    also have "\<dots> \<le> 2 ^ LENGTH('a)" using assms by (intro power_increasing) auto
    finally show ?thesis using be_nat_bound [of bs] by simp
  qed
  then show ?thesis by (simp add: from_be_def from_le_eq_of_nat)
qed

lemma be_nat_less: "length as = length bs \<Longrightarrow> as < bs \<longleftrightarrow> be_nat as < be_nat bs"
proof (induction as bs rule: list_induct2)
  case (Cons a as b bs)
  let ?m = "256 ^ length bs :: nat"
  have lt: "be_nat as < ?m" "be_nat bs < ?m"
    using be_nat_bound [of as] be_nat_bound [of bs] Cons.hyps by simp_all
  show ?case
  proof (cases "a = b")
    case True
    with Cons show ?thesis by simp
  next
    case False
    then have ne: "unat a \<noteq> unat b" using unsigned_word_eqI by blast
    have "unat a * ?m + be_nat as < unat b * ?m + be_nat bs \<longleftrightarrow> unat a < unat b"
      using digit_less [OF _ lt(1), of "unat a" "unat b" "be_nat bs"]
        digit_less [OF _ lt(2), of "unat b" "unat a" "be_nat as"] ne
      by (cases "unat a < unat b") auto
    with False Cons.hyps show ?thesis by (simp add: word_less_nat_alt)
  qed
qed simp

lemma be_bytes_less: "be_bytes 8 v < be_bytes 8 w \<longleftrightarrow> v < (w :: u64)"
proof -
  have "be_nat (be_bytes 8 u) = unat u" for u :: u64
    using unat_from_be [of "be_bytes 8 u", where 'a = 64] by simp
  then show ?thesis by (simp add: be_nat_less word_less_nat_alt)
qed

section \<open>Sortable integers and floats\<close>

lemma bit_sign_bit [simp]: "bit sign_bit n \<longleftrightarrow> n = 63"
  by (auto simp: sign_bit_def bit_push_bit_iff simp del: push_bit_of_1)

lemma sign_bit_eq: "sign_bit = 2 ^ 63"
  by (simp add: sign_bit_def)

lemma unat_sign_bit [simp]: "unat sign_bit = 2 ^ 63"
  by (simp add: sign_bit_eq)

lemma unat_flip_top:
  "unat (i XOR sign_bit) = (if bit i 63 then unat i - 2 ^ 63 else unat i + 2 ^ 63)"
  and top_bit_unat: "bit i 63 \<longleftrightarrow> 2 ^ 63 \<le> unat (i :: u64)"
proof -
  have low: "unat j < 2 ^ 63" if "\<not> bit j 63" for j :: u64
  proof -
    have "take_bit 63 j = j"
    proof (rule bit_word_eqI)
      fix n assume "n < LENGTH(64)"
      then show "bit (take_bit 63 j) n = bit j n"
        using that by (cases "n = 63") (auto simp: bit_simps)
    qed
    then have "unat j = take_bit 63 (unat j)" by (metis unsigned_take_bit_eq)
    then show ?thesis by (metis take_bit_nat_less_exp)
  qed
  have add: "unat (j XOR sign_bit) = unat j + 2 ^ 63" if "\<not> bit j 63" for j :: u64
  proof -
    have "j AND sign_bit = 0"
      by (rule bit_word_eqI) (use that in \<open>auto simp: bit_simps\<close>)
    then have "j XOR sign_bit = j + sign_bit"
      by (simp add: disjunctive_add_eq_xor)
    with low [OF that] show ?thesis by (simp add: unat_word_ariths)
  qed
  have undo: "unat (i XOR sign_bit) + 2 ^ 63 = unat i" if "bit i 63"
  proof -
    have "\<not> bit (i XOR sign_bit) 63" using that by (simp add: bit_simps)
    from add [OF this] show ?thesis by (simp add: xor.assoc)
  qed
  show "unat (i XOR sign_bit) = (if bit i 63 then unat i - 2 ^ 63 else unat i + 2 ^ 63)"
    using add [of i] undo by auto
  show "bit i 63 \<longleftrightarrow> 2 ^ 63 \<le> unat i"
    using low [of i] undo by (metis le_add2 linorder_not_less)
qed

lemma sint_eq_unat: "sint (i :: i64) = (if bit i 63 then int (unat i) - 2 ^ 64 else int (unat i))"
proof -
  have self: "take_bit 64 (uint i) = uint i"
    using unsigned_less [of i, where 'a = int] by (simp add: take_bit_int_eq_self)
  have "sint i = signed_take_bit 63 (uint i)"
    by (simp add: sint_uint)
  also have "\<dots> = uint i - (if bit (uint i) 63 then 2 ^ 64 else 0)"
    by (simp add: signed_take_bit_eq_take_bit_minus self)
  also have "bit (uint i) 63 = bit i 63" by (simp add: bit_uint_iff)
  finally show ?thesis by simp
qed

lemma sortable_integer_less: "i XOR sign_bit < j XOR sign_bit \<longleftrightarrow> sint i < sint j"
proof -
  have "int (unat (k XOR sign_bit)) = sint k + 2 ^ 63" for k :: i64
    using unat_flip_top [of k] top_bit_unat [of k] by (simp add: sint_eq_unat)
  then have "int (unat (i XOR sign_bit)) < int (unat (j XOR sign_bit)) \<longleftrightarrow> sint i < sint j"
    by simp
  then show ?thesis by (simp add: word_less_def)
qed

text \<open>
  The magnitude grows with the bits below the sign, so the sortable word orders floats by value.
\<close>

lemma scaled_step:
  fixes K m :: nat
  defines "g \<equiv> \<lambda>m. if m < K then m else (K + m mod K) * 2 ^ (m div K - 1)"
  assumes "1 < K"
  shows "g m < g (Suc m)"
proof (cases "Suc (m mod K) = K")
  case True
  then have next': "Suc m mod K = 0" "Suc m div K = Suc (m div K)"
    using assms(2) by (auto simp: mod_Suc div_Suc)
  then have ge: "K \<le> Suc m"
    using assms(2) by (metis div_less nat.distinct(1) not_less)
  show ?thesis
  proof (cases "m < K")
    case True
    with next' ge assms(2) show ?thesis by (simp add: g_def)
  next
    case False
    then have "0 < m div K" using assms(2) by (simp add: div_greater_zero_iff)
    then obtain d where d: "m div K = Suc d" by (metis not0_implies_Suc not_less_zero)
    have "K + m mod K < 2 * K" using assms(2) by simp
    then have "(K + m mod K) * 2 ^ d < 2 * K * 2 ^ d" by simp
    with False next' ge d show ?thesis by (simp add: g_def)
  qed
next
  case False
  then have next': "Suc m mod K = Suc (m mod K)" "Suc m div K = m div K"
    using assms(2) by (auto simp: mod_Suc div_Suc)
  show ?thesis
  proof (cases "m < K")
    case True
    with False have "Suc m < K" by simp
    with True show ?thesis by (simp add: g_def)
  next
    case False
    with next' show ?thesis by (simp add: g_def)
  qed
qed

lemma f64_magnitude_Suc: "f64_magnitude m < f64_magnitude (Suc m)"
  using scaled_step [of "2 ^ 52" m] by (simp add: f64_magnitude_def)

lemma f64_magnitude_less: "f64_magnitude m < f64_magnitude n \<longleftrightarrow> m < n"
  by (rule strict_mono_less) (simp add: strict_mono_Suc_iff f64_magnitude_Suc)

lemma f64_magnitude_0 [simp]: "f64_magnitude 0 = 0"
  by (simp add: f64_magnitude_def)

lemma f64_sign_unat: "f64_sign x \<longleftrightarrow> 2 ^ 63 \<le> unat x"
  by (simp add: f64_sign_def top_bit_unat)

text \<open>The word \<^verbatim>\<open>push_float_component\<close> writes, and its value.\<close>

definition sortable_float :: "f64 \<Rightarrow> u64" where
  "sortable_float x =
    (let bits = (if f64_is_zero x then 0 else x)
     in if bits AND sign_bit = 0 then bits XOR sign_bit else NOT bits)"

lemma and_sign_bit: "x AND sign_bit = 0 \<longleftrightarrow> \<not> bit x 63"
proof
  assume "x AND sign_bit = 0"
  then have "\<not> bit (x AND sign_bit) 63" by simp
  then show "\<not> bit x 63" by (simp add: bit_and_iff)
next
  assume "\<not> bit x 63"
  then show "x AND sign_bit = 0"
    by (intro bit_word_eqI) (auto simp: bit_and_iff)
qed

lemma unat_not: "unat (NOT (x :: u64)) = 2 ^ 64 - 1 - unat x"
proof -
  have "NOT x = - 1 - x" by (simp add: not_eq_complement)
  moreover have "unat (- 1 - x) = unat (- 1 :: u64) - unat x" by (rule unat_sub) simp
  moreover have "unat (- 1 :: u64) = 2 ^ 64 - 1" by (simp add: unsigned_minus_1_eq_mask mask_eq_exp_minus_1)
  ultimately show ?thesis by simp
qed

lemma unat_sortable_float:
  "unat (sortable_float x) =
    (if f64_sign x \<and> \<not> f64_is_zero x then 2 ^ 63 - 1 - unat x mod 2 ^ 63
     else 2 ^ 63 + unat x mod 2 ^ 63)"
proof -
  have top: "f64_sign x \<Longrightarrow> unat x mod 2 ^ 63 = unat x - 2 ^ 63"
    using unsigned_less [of x, where 'a = nat]
    by (simp add: f64_sign_unat mod_if le_mod_geq)
  have low: "\<not> f64_sign x \<Longrightarrow> unat x mod 2 ^ 63 = unat x"
    by (simp add: f64_sign_unat)
  show ?thesis
  proof (cases "f64_is_zero x")
    case True
    then show ?thesis by (simp add: sortable_float_def f64_is_zero_def)
  next
    case False
    with top low show ?thesis
      using unsigned_less [of x, where 'a = nat]
      by (auto simp: sortable_float_def and_sign_bit f64_sign_def unat_flip_top unat_not
          f64_is_zero_def)
  qed
qed

lemma sign_magnitude_less:
  fixes g :: "nat \<Rightarrow> nat"
  assumes g: "\<And>a b. g a < g b \<longleftrightarrow> a < b" "g 0 = 0" and b: "m < B" "n < B"
  shows "(if s \<and> m \<noteq> 0 then B - 1 - m else B + m) < (if t \<and> n \<noteq> 0 then B - 1 - n else B + n) \<longleftrightarrow>
    (if s then - int (g m) else int (g m)) < (if t then - int (g n) else int (g n))"
proof -
  have eq: "g a = 0 \<longleftrightarrow> a = 0" for a
    using g(1) [of 0 a] g(2) by (cases "a = 0") auto
  show ?thesis
    by (cases s; cases t; cases "m = 0"; cases "n = 0")
      (use b g(1) [of m n] g(1) [of n m] eq [of m] eq [of n] g(2) in auto)
qed

lemma sortable_float_less: "sortable_float x < sortable_float y \<longleftrightarrow> f64_scaled x < f64_scaled y"
proof -
  have "unat x mod 2 ^ 63 < 2 ^ 63" "unat y mod 2 ^ 63 < 2 ^ 63" by simp_all
  from sign_magnitude_less [OF f64_magnitude_less f64_magnitude_0 this]
  show ?thesis
    unfolding word_less_nat_alt unat_sortable_float f64_scaled_def f64_is_zero_def by simp
qed

end
