(* ===== verification/BtreeSearch.thy ===== *)
theory BtreeSearch
  imports Btree KeyProofs
begin

unbundle bit_operations_syntax

text \<open>
  Comparing keys eight bytes at a time, and the two binary searches of a node: the one that calls a
  reader for each key and the one that reads each key in place.
\<close>

section \<open>The order of keys\<close>

lemma cmp_simps [simp]:
  "cmp a b = Less \<longleftrightarrow> a < b" "cmp a b = Equal \<longleftrightarrow> a = b" "cmp a b = Greater \<longleftrightarrow> b < a"
  by (auto simp: cmp_def)

lemma cmp_at_difference:
  fixes xs ys :: "'a::linorder list"
  assumes "j < length xs" "j < length ys" "take j xs = take j ys" "xs ! j \<noteq> ys ! j"
  shows "cmp xs ys = cmp (xs ! j) (ys ! j)"
proof -
  have "xs = take j xs @ xs ! j # drop (Suc j) xs" "ys = take j xs @ ys ! j # drop (Suc j) ys"
    using assms id_take_nth_drop [of j xs] id_take_nth_drop [of j ys] by simp_all
  then have "xs < ys \<longleftrightarrow> xs ! j < ys ! j"
    using assms(4) append_less_cancel [of "take j xs" "xs ! j # drop (Suc j) xs" "ys ! j # drop (Suc j) ys"] by auto
  moreover have "xs \<noteq> ys" using assms(4) by auto
  ultimately show ?thesis using assms(4) by (auto simp: cmp_def)
qed

lemma trailing_zeros_first:
  assumes "w \<noteq> (0 :: u64)"
  shows "trailing_zeros w < 64" "bit w (trailing_zeros w)" "i < trailing_zeros w \<Longrightarrow> \<not> bit w i"
proof -
  obtain n where n: "bit w n" using assms by (auto simp: bit_eq_iff)
  then have "n < 64" using bit_imp_le_length by fastforce
  with n have ex: "\<exists>x \<in> set [0..<64]. \<not> \<not> bit w x" by auto
  then have less: "trailing_zeros w < length [0..<64]"
    unfolding trailing_zeros_def by (metis (no_types, lifting) length_takeWhile_le nat_less_le takeWhile_eq_all_conv takeWhile_eq_take take_all_iff)
  then show "trailing_zeros w < 64" by simp
  from less nth_length_takeWhile [of "\<lambda>i. \<not> bit w i" "[0..<64]"] show "bit w (trailing_zeros w)"
    by (simp add: trailing_zeros_def)
  show "\<not> bit w i" if "i < trailing_zeros w"
    using that nth_mem [of i "takeWhile (\<lambda>i. \<not> bit w i) [0..<64]"] takeWhile_nth [of i "\<lambda>i. \<not> bit w i" "[0..<64]"] less
    by (auto simp: trailing_zeros_def dest: set_takeWhileD)
qed

lemma and_56: "n < 64 \<Longrightarrow> unat (of_nat n AND 56 :: u32) = 8 * (n div 8)"
proof -
  assume "n < 64"
  then have "n \<in> set [0..<64]" by simp
  moreover have "\<forall>n \<in> set [0..<64]. unat (of_nat n AND 56 :: u32) = 8 * (n div 8)"
    by code_simp
  ultimately show ?thesis by blast
qed

lemma byte_of_word:
  assumes "8 \<le> length bs" "j < 8"
  shows "ucast (drop_bit (8 * j) (from_le (take 8 bs) :: u64)) = bs ! j"
proof (rule bit_word_eqI)
  fix n assume n: "n < LENGTH(8)"
  then have "(8 * j + n) div 8 = j" "(8 * j + n) mod 8 = n" using assms by auto
  with n assms show "bit (ucast (drop_bit (8 * j) (from_le (take 8 bs) :: u64)) :: u8) n \<longleftrightarrow> bit (bs ! j) n"
    by (simp add: bit_simps bit_from_le)
qed

lemma key_order_cmp: "key_order cell key = cmp cell key"
proof (cases "8 \<le> length cell \<and> 8 \<le> length key")
  case True
  let ?a = "from_le (take 8 cell) :: u64" and ?b = "from_le (take 8 key) :: u64"
  have inj: "?a = ?b \<longleftrightarrow> take 8 cell = take 8 key"
    using True by (intro from_le_inject) auto
  show ?thesis
  proof (cases "?a = ?b")
    case eq: True
    then show ?thesis using True inj by (auto simp: key_order_def cmp_def)
  next
    case False
    let ?t = "trailing_zeros (?a XOR ?b)"
    let ?j = "?t div 8"
    have "?a XOR ?b \<noteq> 0" using False by (auto simp: bit_eq_iff bit_xor_iff)
    note t = trailing_zeros_first [OF this]
    have j: "?j < 8" using t(1) by linarith
    note shift = and_56 [OF t(1)]
    note byte = byte_of_word [of cell ?j] byte_of_word [of key ?j]
    have bits: "bit ?a i \<longleftrightarrow> bit (cell ! (i div 8)) (i mod 8)" "bit ?b i \<longleftrightarrow> bit (key ! (i div 8)) (i mod 8)"
      if "i < 64" for i
      using that True by (auto simp: bit_from_le)
    have differ: "cell ! ?j \<noteq> key ! ?j"
    proof
      assume "cell ! ?j = key ! ?j"
      then have "bit ?a ?t = bit ?b ?t" using bits t(1) by simp
      with t(2) show False by (simp add: bit_xor_iff)
    qed
    have same: "take ?j cell = take ?j key"
    proof (rule nth_equalityI)
      show "length (take ?j cell) = length (take ?j key)" using True j by simp
      fix i assume "i < length (take ?j cell)"
      then have i: "i < ?j" by simp
      have "cell ! i = key ! i"
      proof (rule bit_word_eqI)
        fix n assume n: "n < LENGTH(8)"
        have "8 * i + n < ?t" "(8 * i + n) div 8 = i" "(8 * i + n) mod 8 = n" using i n by auto
        with t bits [of "8 * i + n"] show "bit (cell ! i) n \<longleftrightarrow> bit (key ! i) n"
          by (auto simp: bit_xor_iff)
      qed
      with i show "take ?j cell ! i = take ?j key ! i" by simp
    qed
    have "key_order cell key = cmp (cell ! ?j) (key ! ?j)"
      using True False shift byte j by (simp add: key_order_def Let_def)
    also have "\<dots> = cmp cell key"
      using cmp_at_difference [OF _ _ same differ] True j by simp
    finally show ?thesis .
  qed
next
  case False
  then show ?thesis by (auto simp: key_order_def)
qed

section \<open>Binary search\<close>

text \<open>Where a search among \<open>n\<close> keys ends: after those that are \<open>passed\<close>, before those that are not.\<close>

definition splits_at :: "nat \<Rightarrow> (nat \<Rightarrow> bool) \<Rightarrow> nat \<Rightarrow> bool" where
  "splits_at n passed i \<longleftrightarrow> i \<le> n \<and> (\<forall>j < i. passed j) \<and> (\<forall>j. i \<le> j \<and> j < n \<longrightarrow> \<not> passed j)"

lemma splits_at_unique: "splits_at n passed i \<Longrightarrow> splits_at n passed j \<Longrightarrow> i = j"
  by (cases i j rule: linorder_cases) (auto simp: splits_at_def)

lemma partition_loop_ok:
  assumes "\<And>i. i < n \<Longrightarrow> before i = Inr (passed i)"
    and "\<And>i j. i < j \<Longrightarrow> j < n \<Longrightarrow> passed j \<Longrightarrow> passed i"
    and "low \<le> high" "high \<le> n" "\<forall>j < low. passed j" "\<forall>j. high \<le> j \<and> j < n \<longrightarrow> \<not> passed j"
  shows "\<exists>i. partition_loop before low high = Inr i \<and> splits_at n passed i"
  using assms(3-)
proof (induction "high - low" arbitrary: low high rule: less_induct)
  case less
  let ?m = "low + (high - low) div 2"
  show ?case
  proof (cases "low < high")
    case True
    then have m: "low \<le> ?m" "?m < high" by linarith+
    then have b: "before ?m = Inr (passed ?m)" using assms(1) less.prems by simp
    show ?thesis
    proof (cases "passed ?m")
      case p: True
      have "passed j" if "j < ?m + 1" for j
        using that p assms(2) [of j ?m] m less.prems(2) by (cases "j = ?m") auto
      then have "\<exists>i. partition_loop before (?m + 1) high = Inr i \<and> splits_at n passed i"
        using less.prems m by (intro less.hyps) auto
      with b p True show ?thesis by (subst partition_loop.simps) (simp add: Let_def)
    next
      case p: False
      have "\<not> passed j" if "?m \<le> j" "j < n" for j
        using that p assms(2) [of ?m j] by (cases "j = ?m") auto
      then have "\<exists>i. partition_loop before low ?m = Inr i \<and> splits_at n passed i"
        using less.prems m by (intro less.hyps) auto
      with b p True show ?thesis by (subst partition_loop.simps) (simp add: Let_def)
    qed
  next
    case False
    with less show ?thesis by (subst partition_loop.simps) (auto simp: splits_at_def)
  qed
qed

text \<open>The key the search in place reads at a slot.\<close>

definition probe :: "node_view \<Rightarrow> nat \<Rightarrow> nat \<Rightarrow> bytes option" where
  "probe v header i =
    (let page = nv_bytes v; offset = unat (read_u16 page (NODE_HEADER_SIZE + i * SLOT_SIZE));
         len = unat (read_u16 page offset)
     in if length page < NODE_HEADER_SIZE + i * SLOT_SIZE + SLOT_SIZE \<or> offset < nv_free_end v
           \<or> length page < offset + 2 \<or> length page < offset + header + len then None
        else Some (slice page (offset + header) len))"

lemma search_loop_probe:
  "search_loop v key header passed low high found =
    (if low < high
     then let middle = low + (high - low) div 2
       in case probe v header middle of
            None \<Rightarrow> None
          | Some k \<Rightarrow>
              if passed (cmp k key) then search_loop v key header passed (middle + 1) high found
              else search_loop v key header passed low middle (k = key)
     else Some (low, found))"
  by (subst search_loop.simps) (simp add: probe_def Let_def key_order_cmp)

lemma search_loop_ok:
  assumes probes: "\<And>i. i < length ks \<Longrightarrow> probe v header i = Some (ks ! i)"
    and mono: "\<And>i j. i < j \<Longrightarrow> j < length ks \<Longrightarrow> passed (cmp (ks ! j) key) \<Longrightarrow> passed (cmp (ks ! i) key)"
    and "low \<le> high" "high \<le> length ks" "\<forall>j < low. passed (cmp (ks ! j) key)"
    "\<forall>j. high \<le> j \<and> j < length ks \<longrightarrow> \<not> passed (cmp (ks ! j) key)"
    "found \<longleftrightarrow> high < length ks \<and> ks ! high = key"
  shows "\<exists>i. search_loop v key header passed low high found = Some (i, i < length ks \<and> ks ! i = key)
    \<and> splits_at (length ks) (\<lambda>j. passed (cmp (ks ! j) key)) i"
  using assms(3-)
proof (induction "high - low" arbitrary: low high found rule: less_induct)
  case less
  let ?m = "low + (high - low) div 2"
  show ?case
  proof (cases "low < high")
    case True
    then have m: "low \<le> ?m" "?m < high" by linarith+
    then have b: "probe v header ?m = Some (ks ! ?m)" using probes less by simp
    show ?thesis
    proof (cases "passed (cmp (ks ! ?m) key)")
      case p: True
      have "passed (cmp (ks ! j) key)" if "j < ?m + 1" for j
        using that p mono [of j ?m] m less.prems(2) by (cases "j = ?m") auto
      then have "\<exists>i. search_loop v key header passed (?m + 1) high found = Some (i, i < length ks \<and> ks ! i = key)
          \<and> splits_at (length ks) (\<lambda>j. passed (cmp (ks ! j) key)) i"
        using less.prems m by (intro less.hyps) auto
      with b p True show ?thesis by (subst search_loop_probe) (simp add: Let_def)
    next
      case p: False
      have "\<not> passed (cmp (ks ! j) key)" if "?m \<le> j" "j < length ks" for j
        using that p mono [of ?m j] by (cases "j = ?m") auto
      then have "\<exists>i. search_loop v key header passed low ?m (ks ! ?m = key) = Some (i, i < length ks \<and> ks ! i = key)
          \<and> splits_at (length ks) (\<lambda>j. passed (cmp (ks ! j) key)) i"
        using less.prems m by (intro less.hyps) auto
      with b p True show ?thesis by (subst search_loop_probe) (simp add: Let_def)
    qed
  next
    case False
    with less show ?thesis by (subst search_loop_probe) (auto simp: splits_at_def)
  qed
qed

end
