(* ===== verification/BtreeView.thy ===== *)
theory BtreeView
  imports BtreeSearch
begin

unbundle bit_operations_syntax

text \<open>
  Reading a node's cells in place gives what decoding the whole node gives, for every node that a
  strict decoding accepts.
\<close>

lemma checked_end_Inr: "checked_end a n b = Inr e \<longleftrightarrow> a + n \<le> b \<and> e = a + n"
  by (auto simp: checked_end_def)

lemma sorted_loop_ok:
  "sorted_loop p ks = Inr () \<longleftrightarrow> sorted_wrt (<) ks \<and> (case p of Some q \<Rightarrow> ks \<noteq> [] \<longrightarrow> q < hd ks | None \<Rightarrow> True)"
proof (induction p ks rule: sorted_loop.induct)
  case (2 p k ks)
  have "sorted_wrt (<) (k # ks) \<longleftrightarrow> sorted_wrt (<) ks \<and> (ks \<noteq> [] \<longrightarrow> k < hd ks)"
    by (cases ks) (auto intro: less_trans)
  with 2 show ?case by (auto simp: not_le split: option.splits)
qed (simp split: option.split)

lemma strictly_sorted_ok [simp]: "validate_strictly_sorted ks = Inr () \<longleftrightarrow> sorted_wrt (<) ks"
  by (simp add: validate_strictly_sorted_def sorted_loop_ok)

lemma decode_cells_ok:
  assumes "decode_cells f bs fs fe idx e = Inr (entries, floor)"
  shows "length entries = length idx \<and> (\<forall>k < length idx. \<exists>offset cell_end.
    read_slot bs (idx ! k) fs = Inr offset \<and> f offset = Inr (entries ! k, cell_end) \<and> fe \<le> offset)"
  using assms
proof (induction idx arbitrary: e entries)
  case (Cons i idx)
  from Cons.prems obtain offset x cell_end xs where x: "read_slot bs i fs = Inr offset"
    "f offset = Inr (x, cell_end)" "fe \<le> offset" "decode_cells f bs fs fe idx offset = Inr (xs, floor)"
    "entries = x # xs"
    by (auto simp: and_then_eq_Inr validate_packed_cell_def split: if_splits)
  from Cons.IH [OF x(4)] x show ?case by (auto simp: nth_Cons split: nat.splits)
qed simp

lemma decode_cells_nth:
  assumes "decode_cells f bs fs fe [0..<count] e = Inr (entries, floor)" "k < count"
  obtains offset cell_end where "read_slot bs k fs = Inr offset" "f offset = Inr (entries ! k, cell_end)" "fe \<le> offset"
  using decode_cells_ok [OF assms(1)] assms(2) by auto

text \<open>A view of the page a node was decoded from: the same header, and the same cells in place.\<close>

definition views_header :: "node_view \<Rightarrow> page \<Rightarrow> node \<Rightarrow> bool" where
  "views_header v page n \<longleftrightarrow>
    nv_page_id v = pg_id page \<and> nv_level v = nd_level n \<and> nv_generation v = nd_generation n
    \<and> nv_bytes v = pg_payload page \<and> length (pg_payload page) = MAX_PAGE_PAYLOAD_SIZE
    \<and> NODE_HEADER_SIZE + nv_item_count v * SLOT_SIZE \<le> nv_free_end v \<and> nv_free_end v \<le> MAX_PAGE_PAYLOAD_SIZE"

definition views_leaf :: "node_view \<Rightarrow> leaf_entry list \<Rightarrow> bool" where
  "views_leaf v es \<longleftrightarrow>
    nv_leaf v \<and> nv_level v = 0 \<and> nv_item_count v = length es \<and> sorted_wrt (<) (map le_key es)
    \<and> (\<forall>i < length es.
        probe v LEAF_CELL_HEADER_SIZE i = Some (le_key (es ! i)) \<and> leaf_key v i = Inr (le_key (es ! i))
        \<and> leaf_cell v i = Inr (le_key (es ! i), le_value (es ! i))
        \<and> inline_leaf_cell v i =
            (case le_value (es ! i) of InlineValue b \<Rightarrow> Some (le_key (es ! i), b) | OverflowValue _ \<Rightarrow> None))"

definition views_internal :: "node_view \<Rightarrow> internal_node \<Rightarrow> bool" where
  "views_internal v n \<longleftrightarrow>
    \<not> nv_leaf v \<and> 0 < nv_level v \<and> nv_item_count v = length (in_entries n) \<and> sorted_wrt (<) (map ie_key (in_entries n))
    \<and> view_child v 0 = Inr (in_leftmost_child n) \<and> view_child_hash v 0 = Inr (in_leftmost_child_hash n)
    \<and> (\<forall>i < length (in_entries n).
        probe v INTERNAL_CELL_HEADER_SIZE i = Some (ie_key (in_entries n ! i))
        \<and> internal_key v i = Inr (ie_key (in_entries n ! i))
        \<and> view_child v (i + 1) = Inr (ie_right_child (in_entries n ! i))
        \<and> view_child_hash v (i + 1) = Inr (ie_child_hash (in_entries n ! i)))"

lemma slot_of_read_slot:
  assumes "read_slot (nv_bytes v) i fs = Inr offset" "nv_free_end v \<le> offset" "i < nv_item_count v"
    "offset < length (nv_bytes v)"
  shows "cell_offset v i = Inr offset" "unat (read_u16 (nv_bytes v) (NODE_HEADER_SIZE + i * SLOT_SIZE)) = offset"
    "NODE_HEADER_SIZE + i * SLOT_SIZE + SLOT_SIZE \<le> length (nv_bytes v)"
  using assms by (auto simp: read_slot_def cell_offset_def Let_def split: if_splits)

lemma leaf_cell_in_place:
  assumes slot: "read_slot (nv_bytes v) i fs = Inr offset" and i: "nv_free_end v \<le> offset" "i < nv_item_count v"
    and cell: "decode_leaf_cell (nv_bytes v) offset (nv_generation v) = Inr (e, cell_end)"
  shows "probe v LEAF_CELL_HEADER_SIZE i = Some (le_key e) \<and> leaf_key v i = Inr (le_key e)
    \<and> leaf_cell v i = Inr (le_key e, le_value e)
    \<and> inline_leaf_cell v i = (case le_value e of InlineValue b \<Rightarrow> Some (le_key e, b) | OverflowValue _ \<Rightarrow> None)"
proof -
  let ?bs = "nv_bytes v"
  let ?kl = "unat (read_u16 ?bs offset)" and ?vl = "unat (read_u32 ?bs (offset + 4))"
  have b: "offset + LEAF_CELL_HEADER_SIZE \<le> length ?bs" "offset + LEAF_CELL_HEADER_SIZE + ?kl \<le> length ?bs"
    "offset + LEAF_CELL_HEADER_SIZE + ?kl + ?vl \<le> length ?bs"
    and k: "le_key e = slice ?bs (offset + LEAF_CELL_HEADER_SIZE) ?kl"
    using cell by (auto simp: decode_leaf_cell_def and_then_eq_Inr checked_end_Inr Let_def)
  have "offset < length ?bs" using b by (simp add: LEAF_CELL_HEADER_SIZE_def)
  note s = slot_of_read_slot [OF slot i this]
  have "probe v LEAF_CELL_HEADER_SIZE i = Some (le_key e)"
    using s i b k by (simp add: probe_def Let_def LEAF_CELL_HEADER_SIZE_def)
  moreover have "leaf_key v i = Inr (le_key e)"
    using s b k by (simp add: leaf_key_def Let_def checked_end_def)
  moreover have "leaf_cell v i = Inr (le_key e, le_value e)"
    using s b k cell
    by (auto simp: leaf_cell_def decode_leaf_cell_def and_then_eq_Inr checked_end_def Let_def split: if_splits)
  moreover have "inline_leaf_cell v i =
      (case le_value e of InlineValue b \<Rightarrow> Some (le_key e, b) | OverflowValue _ \<Rightarrow> None)"
    using s i b k cell
    by (auto simp: inline_leaf_cell_def decode_leaf_cell_def and_then_eq_Inr checked_end_def Let_def
        INLINE_CELL_FLAGS_def OVERFLOW_CELL_FLAGS_def split: if_splits)
  ultimately show ?thesis by blast
qed

lemma internal_cell_in_place:
  assumes slot: "read_slot (nv_bytes v) i fs = Inr offset" and i: "nv_free_end v \<le> offset" "i < nv_item_count v"
    and cell: "decode_internal_cell (nv_bytes v) offset = Inr (e, cell_end)"
    and child: "validate_child_page (nv_page_id v) (ie_right_child e) = Inr ()"
  shows "probe v INTERNAL_CELL_HEADER_SIZE i = Some (ie_key e) \<and> internal_key v i = Inr (ie_key e)
    \<and> view_child v (i + 1) = Inr (ie_right_child e) \<and> view_child_hash v (i + 1) = Inr (ie_child_hash e)"
proof -
  let ?bs = "nv_bytes v"
  let ?kl = "unat (read_u16 ?bs offset)"
  have b: "offset + INTERNAL_CELL_HEADER_SIZE \<le> length ?bs" "offset + INTERNAL_CELL_HEADER_SIZE + ?kl \<le> length ?bs"
    and e: "e = \<lparr>ie_key = slice ?bs (offset + INTERNAL_CELL_HEADER_SIZE) ?kl,
      ie_right_child = read_u64 ?bs (offset + 4), ie_child_hash = read_u64 ?bs (offset + 12)\<rparr>"
    using cell by (auto simp: decode_internal_cell_def and_then_eq_Inr checked_end_Inr Let_def split: if_splits)
  have "offset < length ?bs" using b by (simp add: INTERNAL_CELL_HEADER_SIZE_def)
  note s = slot_of_read_slot [OF slot i this]
  have "probe v INTERNAL_CELL_HEADER_SIZE i = Some (ie_key e)"
    using s i b by (simp add: e probe_def Let_def INTERNAL_CELL_HEADER_SIZE_def)
  moreover have "internal_key v i = Inr (ie_key e)"
    using s b by (simp add: e internal_key_def Let_def checked_end_def)
  moreover have "view_child v (i + 1) = Inr (ie_right_child e)"
    using s b child by (simp add: e view_child_def checked_end_def)
  moreover have "view_child_hash v (i + 1) = Inr (ie_child_hash e)"
    using s b by (simp add: e view_child_hash_def checked_end_def)
  ultimately show ?thesis by blast
qed

lemma view_of_decoded:
  assumes dec: "node_decode page t g req = Inr n"
  obtains v where "view_from_payload page t g req = Inr v" "views_header v page n"
    "case nd_kind n of LeafNode es \<Rightarrow> views_leaf v es | InternalNode m \<Rightarrow> views_internal v m"
proof -
  let ?bs = "pg_payload page"
  let ?count = "unat (read_u16 ?bs 24)" and ?fs = "unat (read_u16 ?bs 26)" and ?fe = "unat (read_u16 ?bs 28)"
  have h: "length ?bs = MAX_PAGE_PAYLOAD_SIZE" "slice ?bs 0 4 = NODE_MAGIC" "read_u16 ?bs 4 = NODE_FORMAT_VERSION"
    "?bs ! 7 = NODE_FLAGS" "read_u64 ?bs 8 = t"
    "\<not> (read_u64 ?bs 16 = 0 \<or> g < read_u64 ?bs 16 \<or> (req \<and> read_u64 ?bs 16 \<noteq> g))"
    "?fs = NODE_HEADER_SIZE + ?count * SLOT_SIZE" "?fs \<le> ?fe" "?fe \<le> MAX_PAGE_PAYLOAD_SIZE"
    and n: "nd_level n = ?bs ! 6" "nd_generation n = read_u64 ?bs 16" "nd_tree_id n = t"
    and kind: "decode_kind page (?bs ! 6) (read_u64 ?bs 16) ?count ?fs ?fe (read_u64 ?bs 32) (read_u64 ?bs 40)
      = Inr (nd_kind n)"
    using dec by (auto simp: node_decode_def Let_def and_then_eq_Inr not_less split: if_splits)
  define v where "v = \<lparr>nv_page_id = pg_id page, nv_level = ?bs ! 6, nv_generation = read_u64 ?bs 16,
    nv_leaf = (pg_type page = BtreeLeaf), nv_leftmost_child = read_u64 ?bs 32, nv_item_count = ?count,
    nv_free_end = ?fe, nv_bytes = ?bs\<rparr>"
  have header: "views_header v page n" using h n by (simp add: views_header_def v_def)
  show thesis
  proof (cases "pg_type page")
    case BtreeLeaf
    with kind obtain es floor where es: "LeafNode es = nd_kind n" "?bs ! 6 = 0"
      "decode_cells (\<lambda>offset. decode_leaf_cell ?bs offset (read_u64 ?bs 16)) ?bs ?fs ?fe [0..<?count]
         MAX_PAGE_PAYLOAD_SIZE = Inr (es, floor)"
      "validate_sorted_leaf_entries es (read_u64 ?bs 16) = Inr ()"
      by (auto simp: decode_kind_def Let_def and_then_eq_Inr map_err_eq_Inr split: if_splits)
    have "views_leaf v es"
      unfolding views_leaf_def
    proof (intro conjI allI impI)
      show "nv_leaf v" "nv_level v = 0" "nv_item_count v = length es"
        using BtreeLeaf es decode_cells_ok [OF es(3)] by (simp_all add: v_def)
      show "sorted_wrt (<) (map le_key es)"
        using es(4) by (simp add: validate_sorted_leaf_entries_def and_then_eq_Inr)
    next
      fix i assume "i < length es"
      then have "i < ?count" using decode_cells_ok [OF es(3)] by simp
      from es(3) this obtain offset cell_end where
        "read_slot (nv_bytes v) i ?fs = Inr offset" "nv_free_end v \<le> offset" "i < nv_item_count v"
        "decode_leaf_cell (nv_bytes v) offset (nv_generation v) = Inr (es ! i, cell_end)"
        using \<open>i < ?count\<close> by (rule_tac decode_cells_nth) (auto simp: v_def)
      note in_place = leaf_cell_in_place [OF this]
      then show "probe v LEAF_CELL_HEADER_SIZE i = Some (le_key (es ! i))" "leaf_key v i = Inr (le_key (es ! i))"
        "leaf_cell v i = Inr (le_key (es ! i), le_value (es ! i))"
        "inline_leaf_cell v i =
          (case le_value (es ! i) of InlineValue b \<Rightarrow> Some (le_key (es ! i), b) | OverflowValue _ \<Rightarrow> None)"
        by simp_all
    qed
    moreover have "view_from_payload page t g req = Inr v"
      using h BtreeLeaf es(2) by (simp add: view_from_payload_def v_def Let_def)
    ultimately show thesis using header es(1) [symmetric] by (intro that) simp_all
  next
    case BtreeInternal
    let ?f = "\<lambda>offset. and_then (decode_internal_cell ?bs offset) (\<lambda>(entry, cell_end).
      and_then (validate_child_page (pg_id page) (ie_right_child entry)) (\<lambda>_. Inr (entry, cell_end)))"
    from BtreeInternal kind obtain es floor where es:
      "InternalNode \<lparr>in_leftmost_child = read_u64 ?bs 32, in_leftmost_child_hash = read_u64 ?bs 40, in_entries = es\<rparr> = nd_kind n"
      "?bs ! 6 \<noteq> 0" "validate_child_page (pg_id page) (read_u64 ?bs 32) = Inr ()"
      "decode_cells ?f ?bs ?fs ?fe [0..<?count] MAX_PAGE_PAYLOAD_SIZE = Inr (es, floor)"
      "validate_sorted_internal_entries (pg_id page) (read_u64 ?bs 32) es = Inr ()"
      by (auto simp: decode_kind_def Let_def and_then_eq_Inr map_err_eq_Inr split: if_splits)
    let ?m = "\<lparr>in_leftmost_child = read_u64 ?bs 32, in_leftmost_child_hash = read_u64 ?bs 40, in_entries = es\<rparr>"
    have "views_internal v ?m"
      unfolding views_internal_def
    proof (intro conjI allI impI)
      show "\<not> nv_leaf v" "0 < nv_level v" "nv_item_count v = length (in_entries ?m)"
        using BtreeInternal es(2) decode_cells_ok [OF es(4)] by (simp_all add: v_def word_gt_0)
      show "sorted_wrt (<) (map ie_key (in_entries ?m))"
        using es(5) by (simp add: validate_sorted_internal_entries_def and_then_eq_Inr)
      show "view_child v 0 = Inr (in_leftmost_child ?m)" "view_child_hash v 0 = Inr (in_leftmost_child_hash ?m)"
        using es(3) by (simp_all add: view_child_def view_child_hash_def v_def)
    next
      fix i assume "i < length (in_entries ?m)"
      then have "i < ?count" using decode_cells_ok [OF es(4)] by simp
      from es(4) this obtain offset cell_end where
        "read_slot (nv_bytes v) i ?fs = Inr offset" "nv_free_end v \<le> offset" "i < nv_item_count v"
        "decode_internal_cell (nv_bytes v) offset = Inr (es ! i, cell_end)"
        "validate_child_page (nv_page_id v) (ie_right_child (es ! i)) = Inr ()"
        using \<open>i < ?count\<close> by (rule_tac decode_cells_nth) (auto simp: v_def and_then_eq_Inr)
      note in_place = internal_cell_in_place [OF this]
      then show "probe v INTERNAL_CELL_HEADER_SIZE i = Some (ie_key (in_entries ?m ! i))"
        "internal_key v i = Inr (ie_key (in_entries ?m ! i))"
        "view_child v (i + 1) = Inr (ie_right_child (in_entries ?m ! i))"
        "view_child_hash v (i + 1) = Inr (ie_child_hash (in_entries ?m ! i))"
        by simp_all
    qed
    moreover have "view_from_payload page t g req = Inr v"
      using h BtreeInternal es(2,3) by (simp add: view_from_payload_def v_def Let_def word_gt_0)
    ultimately show thesis using header es(1) [symmetric] by (intro that) simp_all
  qed (use kind in \<open>auto simp: decode_kind_def Let_def\<close>)
qed

end
