(* ===== verification/BtreeLookup.thy ===== *)
theory BtreeLookup
  imports BtreeView
begin

unbundle bit_operations_syntax

text \<open>
  Looking a key up in a tree of pages. A tree holds a list of keys and values; a lookup returns what
  the list maps the key to, or the error of a page that could not be read.
\<close>

section \<open>Searching a decoded node\<close>

lemma sorted_nth_less: "sorted_wrt (<) ks \<Longrightarrow> i < j \<Longrightarrow> j < length ks \<Longrightarrow> ks ! i < (ks ! j :: 'a::linorder)"
  by (simp add: sorted_wrt_iff_nth_less)

lemma search_leaf:
  assumes "views_header v page n" "views_leaf v es"
  obtains i where "search v key = Some (i, i < length es \<and> le_key (es ! i) = key)"
    "splits_at (length es) (\<lambda>j. le_key (es ! j) < key) i"
proof -
  let ?ks = "map le_key es" and ?passed = "\<lambda>order. order = Less \<or> (order = Equal \<and> \<not> nv_leaf v)"
  have l: "nv_leaf v" "nv_item_count v = length es" "sorted_wrt (<) ?ks" using assms by (simp_all add: views_leaf_def)
  have "\<exists>i. search_loop v key LEAF_CELL_HEADER_SIZE ?passed 0 (length es) False = Some (i, i < length ?ks \<and> ?ks ! i = key)
      \<and> splits_at (length ?ks) (\<lambda>j. ?passed (cmp (?ks ! j) key)) i"
  proof (rule search_loop_ok)
    show "probe v LEAF_CELL_HEADER_SIZE i = Some (?ks ! i)" if "i < length ?ks" for i
      using that assms(2) by (simp add: views_leaf_def)
    show "?passed (cmp (?ks ! i) key)" if "i < j" "j < length ?ks" "?passed (cmp (?ks ! j) key)" for i j
      using that sorted_nth_less [OF l(3) that(1,2)] l(1) by (auto intro: less_trans)
  qed auto
  then obtain i where i: "search_loop v key LEAF_CELL_HEADER_SIZE ?passed 0 (length es) False = Some (i, i < length ?ks \<and> ?ks ! i = key)"
    "splits_at (length ?ks) (\<lambda>j. ?passed (cmp (?ks ! j) key)) i" by blast
  show ?thesis
  proof (rule that [of i])
    show "search v key = Some (i, i < length es \<and> le_key (es ! i) = key)"
      using i(1) l assms(1) by (auto simp: search_def views_header_def)
    show "splits_at (length es) (\<lambda>j. le_key (es ! j) < key) i"
      using i(2) l(1) by (auto simp: splits_at_def)
  qed
qed

lemma search_internal:
  assumes "views_header v page n" "views_internal v m"
  obtains i found where "search v key = Some (i, found)"
    "splits_at (length (in_entries m)) (\<lambda>j. ie_key (in_entries m ! j) \<le> key) i"
proof -
  let ?ks = "map ie_key (in_entries m)" and ?passed = "\<lambda>order. order = Less \<or> (order = Equal \<and> \<not> nv_leaf v)"
  have l: "\<not> nv_leaf v" "nv_item_count v = length ?ks" "sorted_wrt (<) ?ks" using assms by (simp_all add: views_internal_def)
  have "\<exists>i. search_loop v key INTERNAL_CELL_HEADER_SIZE ?passed 0 (length ?ks) False = Some (i, i < length ?ks \<and> ?ks ! i = key)
      \<and> splits_at (length ?ks) (\<lambda>j. ?passed (cmp (?ks ! j) key)) i"
  proof (rule search_loop_ok)
    show "probe v INTERNAL_CELL_HEADER_SIZE i = Some (?ks ! i)" if "i < length ?ks" for i
      using that assms(2) by (simp add: views_internal_def)
    show "?passed (cmp (?ks ! i) key)" if "i < j" "j < length ?ks" "?passed (cmp (?ks ! j) key)" for i j
      using that sorted_nth_less [OF l(3) that(1,2)] l(1) by (auto intro: less_trans)
  qed auto
  then obtain i where i: "search_loop v key INTERNAL_CELL_HEADER_SIZE ?passed 0 (length ?ks) False = Some (i, i < length ?ks \<and> ?ks ! i = key)"
    "splits_at (length ?ks) (\<lambda>j. ?passed (cmp (?ks ! j) key)) i" by blast
  show ?thesis
  proof (rule that)
    show "search v key = Some (i, i < length ?ks \<and> ?ks ! i = key)"
      using i(1) l assms(1) by (auto simp: search_def views_header_def)
    show "splits_at (length (in_entries m)) (\<lambda>j. ie_key (in_entries m ! j) \<le> key) i"
      using i(2) l(1) by (auto simp: splits_at_def le_less)
  qed
qed

text \<open>The search in place ends where the searches through the readers end.\<close>

lemma lower_bound_splits:
  assumes "views_leaf v es"
  shows "\<exists>i. lower_bound v key = Inr i \<and> splits_at (length es) (\<lambda>j. le_key (es ! j) < key) i"
proof -
  have l: "nv_item_count v = length es" "sorted_wrt (<) (map le_key es)" using assms by (simp_all add: views_leaf_def)
  have "\<exists>i. partition_loop (\<lambda>index. and_then (leaf_key v index) (\<lambda>k. Inr (k < key))) 0 (length es) = Inr i
      \<and> splits_at (length es) (\<lambda>j. le_key (es ! j) < key) i"
  proof (rule partition_loop_ok)
    show "and_then (leaf_key v i) (\<lambda>k. Inr (k < key)) = Inr (le_key (es ! i) < key)" if "i < length es" for i
      using that assms by (simp add: views_leaf_def)
    show "le_key (es ! i) < key" if "i < j" "j < length es" "le_key (es ! j) < key" for i j
      using that sorted_nth_less [OF l(2), of i j] by (auto intro: less_trans)
  qed auto
  then show ?thesis using l(1) by (simp add: lower_bound_def lower_bound_from_def view_partition_def)
qed

lemma child_index_splits:
  assumes "views_internal v m"
  shows "\<exists>i. child_index_for v key = Inr i \<and> splits_at (length (in_entries m)) (\<lambda>j. ie_key (in_entries m ! j) \<le> key) i"
proof -
  let ?es = "in_entries m"
  have l: "nv_item_count v = length ?es" "sorted_wrt (<) (map ie_key ?es)" using assms by (simp_all add: views_internal_def)
  have "\<exists>i. partition_loop (\<lambda>index. and_then (internal_key v index) (\<lambda>k. Inr (k \<le> key))) 0 (length ?es) = Inr i
      \<and> splits_at (length ?es) (\<lambda>j. ie_key (?es ! j) \<le> key) i"
  proof (rule partition_loop_ok)
    show "and_then (internal_key v i) (\<lambda>k. Inr (k \<le> key)) = Inr (ie_key (?es ! i) \<le> key)" if "i < length ?es" for i
      using that assms by (simp add: views_internal_def)
    show "ie_key (?es ! i) \<le> key" if "i < j" "j < length ?es" "ie_key (?es ! j) \<le> key" for i j
      using that sorted_nth_less [OF l(2), of i j] by auto
  qed auto
  then show ?thesis using l(1) by (simp add: child_index_for_def view_partition_def)
qed

text \<open>A leaf whose lower bound is not the key does not have the key.\<close>

lemma splits_leaf_absent:
  assumes "views_leaf v es" "splits_at (length es) (\<lambda>j. le_key (es ! j) < key) i"
    "\<not> (i < length es \<and> le_key (es ! i) = key)" "j < length es"
  shows "key \<noteq> le_key (es ! j)"
proof -
  consider "j < i" | "j = i" | "i < j" by linarith
  then show ?thesis
  proof cases
    case 1
    then show ?thesis using assms(2) by (auto simp: splits_at_def)
  next
    case 2
    then show ?thesis using assms(3,4) by auto
  next
    case 3
    then have "\<not> le_key (es ! i) < key" using assms(2,4) by (auto simp: splits_at_def)
    with 3 assms(1,4) show ?thesis
      using sorted_nth_less [of "map le_key es" i j] by (auto simp: views_leaf_def)
  qed
qed

lemma decoded_search:
  assumes "node_decode page tree_id generation require_view = Inr n"
  shows "\<exists>v i found. view_from_payload page tree_id generation require_view = Inr v \<and> search v key = Some (i, found) \<and>
    (case nd_kind n of
       LeafNode es \<Rightarrow> lower_bound v key = Inr i \<and> splits_at (length es) (\<lambda>j. le_key (es ! j) < key) i
         \<and> (found \<longleftrightarrow> key \<in> set (map le_key es))
     | InternalNode m \<Rightarrow> child_index_for v key = Inr i
         \<and> splits_at (length (in_entries m)) (\<lambda>j. ie_key (in_entries m ! j) \<le> key) i)"
proof -
  obtain v where v: "view_from_payload page tree_id generation require_view = Inr v" "views_header v page n"
    and kind: "case nd_kind n of LeafNode es \<Rightarrow> views_leaf v es | InternalNode m \<Rightarrow> views_internal v m"
    by (rule view_of_decoded [OF assms])
  show ?thesis
  proof (cases "nd_kind n")
    case (LeafNode es)
    with kind have leaf: "views_leaf v es" by simp
    obtain i where i: "search v key = Some (i, i < length es \<and> le_key (es ! i) = key)"
      "splits_at (length es) (\<lambda>j. le_key (es ! j) < key) i" by (rule search_leaf [OF v(2) leaf])
    have "lower_bound v key = Inr i"
      using lower_bound_splits [OF leaf, of key] splits_at_unique [OF i(2)] by auto
    moreover have "(i < length es \<and> le_key (es ! i) = key) \<longleftrightarrow> key \<in> set (map le_key es)"
      using splits_leaf_absent [OF leaf i(2)] by (metis in_set_conv_nth length_map nth_map)
    ultimately show ?thesis using v(1) i LeafNode by auto
  next
    case (InternalNode m)
    with kind have internal: "views_internal v m" by simp
    obtain i found where i: "search v key = Some (i, found)"
      "splits_at (length (in_entries m)) (\<lambda>j. ie_key (in_entries m ! j) \<le> key) i" by (rule search_internal [OF v(2) internal])
    have "child_index_for v key = Inr i"
      using child_index_splits [OF internal, of key] splits_at_unique [OF i(2)] by auto
    then show ?thesis using v(1) i InternalNode by auto
  qed
qed

section \<open>What a tree of pages holds\<close>

definition pages_kept :: "(nat \<Rightarrow> page option) \<Rightarrow> (nat \<Rightarrow> page option) \<Rightarrow> bool" where
  "pages_kept P Q \<longleftrightarrow> (\<forall>q p. P q = Some p \<longrightarrow> Q q = Some p)"

text \<open>A value of a leaf, its own bytes or those of a chain of overflow pages.\<close>

definition holds_chain :: "(nat \<Rightarrow> page option) \<Rightarrow> u64 \<Rightarrow> overflow_descriptor \<Rightarrow> bytes \<Rightarrow> bool" where
  "holds_chain P tree_id d bs \<longleftrightarrow>
    (let count = overflow_chunks (unat (od_total_length d)) in
     \<exists>pids chunks. length pids = count \<and> length chunks = count \<and> distinct pids \<and> hd pids = od_first_page_id d
       \<and> bs = concat chunks \<and> length bs = unat (od_total_length d) \<and> checksum32 bs = od_checksum d
       \<and> (\<forall>i < count. \<exists>page o'. P (unat (pids ! i)) = Some page
            \<and> overflow_decode page tree_id d (of_nat i) (of_nat count) = Inr o' \<and> op_chunk o' = chunks ! i
            \<and> (i + 1 < count \<longrightarrow> op_next_page_id o' = Some (pids ! (i + 1)))))"

fun holds_value :: "(nat \<Rightarrow> page option) \<Rightarrow> u64 \<Rightarrow> leaf_value \<Rightarrow> bytes \<Rightarrow> bool" where
  "holds_value P tree_id (InlineValue b) bs \<longleftrightarrow> bs = b"
| "holds_value P tree_id (OverflowValue d) bs \<longleftrightarrow> holds_chain P tree_id d bs"

definition internal_child :: "internal_node \<Rightarrow> nat \<Rightarrow> u64" where
  "internal_child m i = (if i = 0 then in_leftmost_child m else ie_right_child (in_entries m ! (i - 1)))"

text \<open>
  The page \<open>pid\<close> is the root of a tree of height \<open>level\<close>, no page of which is newer than its parent, that
  holds the entries \<open>kvs\<close> on the node pages \<open>pids\<close>: the keys below a separator are in the children before it, the others in those
  after it.
\<close>

inductive holds_tree ::
  "(nat \<Rightarrow> page option) \<Rightarrow> u64 \<Rightarrow> u64 \<Rightarrow> (nat \<Rightarrow> bool) \<Rightarrow> nat \<Rightarrow> u64 option \<Rightarrow> u64 \<Rightarrow> u64 list
   \<Rightarrow> (bytes \<times> bytes) list \<Rightarrow> bool"
  for P tree_id generation req where
  holds_leaf: "P (unat pid) = Some page \<Longrightarrow> node_decode page tree_id generation (req (unat pid)) = Inr n \<Longrightarrow>
    validate_child_generation (nd_generation n) parent = Inr () \<Longrightarrow> nd_kind n = LeafNode es \<Longrightarrow>
    list_all2 (\<lambda>e (k, bs). k = le_key e \<and> holds_value P tree_id (le_value e) bs) es kvs \<Longrightarrow>
    holds_tree P tree_id generation req 0 parent pid [pid] kvs"
| holds_internal: "P (unat pid) = Some page \<Longrightarrow> node_decode page tree_id generation (req (unat pid)) = Inr n \<Longrightarrow>
    validate_child_generation (nd_generation n) parent = Inr () \<Longrightarrow> nd_kind n = InternalNode m \<Longrightarrow>
    unat (nd_level n) = Suc level \<Longrightarrow> length parts = Suc (length (in_entries m)) \<Longrightarrow>
    length pidss = length parts \<Longrightarrow>
    (\<And>i. i < length parts \<Longrightarrow>
       holds_tree P tree_id generation req level (Some (nd_generation n)) (internal_child m i) (pidss ! i)
         (parts ! i)) \<Longrightarrow>
    (\<And>i k bs. i < length (in_entries m) \<Longrightarrow> (k, bs) \<in> set (parts ! i) \<Longrightarrow> k < ie_key (in_entries m ! i)) \<Longrightarrow>
    (\<And>i k bs. i < length (in_entries m) \<Longrightarrow> (k, bs) \<in> set (parts ! Suc i) \<Longrightarrow> ie_key (in_entries m ! i) \<le> k) \<Longrightarrow>
    holds_tree P tree_id generation req (Suc level) parent pid (pid # concat pidss) (concat parts)"

lemma map_of_list_all2:
  assumes "list_all2 (\<lambda>e (k, bs). k = le_key e \<and> Q e bs) es kvs" "sorted_wrt (<) (map le_key es)" "i < length es"
  shows "\<exists>bs. map_of kvs (le_key (es ! i)) = Some bs \<and> Q (es ! i) bs"
proof -
  have keys: "map fst kvs = map le_key es"
    using assms(1) by (induction rule: list_all2_induct) auto
  have len: "length kvs = length es" using assms(1) by (simp add: list_all2_lengthD)
  have "fst (kvs ! i) = le_key (es ! i) \<and> Q (es ! i) (snd (kvs ! i))"
    using list_all2_nthD [OF assms(1,3)] by (cases "kvs ! i") auto
  moreover have "distinct (map fst kvs)" unfolding keys using assms(2) by (simp add: strict_sorted_iff)
  moreover have "kvs ! i \<in> set kvs" using assms(3) len by simp
  ultimately show ?thesis by (metis map_of_eq_Some_iff surjective_pairing)
qed

lemma map_of_concat:
  assumes "i < length parts" "\<And>j bs. j < length parts \<Longrightarrow> j \<noteq> i \<Longrightarrow> (k, bs) \<notin> set (parts ! j)"
  shows "map_of (concat parts) k = map_of (parts ! i) k"
proof -
  have parts: "parts = take i parts @ parts ! i # drop (Suc i) parts" by (rule id_take_nth_drop [OF assms(1)])
  have "map_of (concat (take i parts)) k = None"
  proof -
    have "k \<notin> fst ` set (concat (take i parts))"
      using assms by (auto simp: in_set_conv_nth)
    then show ?thesis by (simp add: map_of_eq_None_iff)
  qed
  moreover have "map_of (concat (drop (Suc i) parts)) k = None"
  proof -
    have "k \<notin> fst ` set (concat (drop (Suc i) parts))"
      using assms by (auto simp: in_set_conv_nth)
    then show ?thesis by (simp add: map_of_eq_None_iff)
  qed
  ultimately have "map_of (concat (take i parts @ parts ! i # drop (Suc i) parts)) k = map_of (parts ! i) k"
    by (simp add: map_add_def split: option.split)
  with parts show ?thesis by simp
qed

lemma of_nat_unat_cong: "unat w = n \<Longrightarrow> w = of_nat n"
  by (auto simp: of_nat_unat)

lemma view_generation_le:
  "view_from_payload page tree_id generation require_view = Inr v \<Longrightarrow> nv_generation v \<le> generation"
  by (auto simp: view_from_payload_def Let_def and_then_eq_Inr not_less split: if_splits)

text \<open>The key is in no other child than the one after the last separator that is not above it.\<close>

lemma splits_parts:
  assumes "views_internal v m" "splits_at (length (in_entries m)) (\<lambda>j. ie_key (in_entries m ! j) \<le> key) i"
    "length parts = Suc (length (in_entries m))"
    "\<And>i k bs. i < length (in_entries m) \<Longrightarrow> (k, bs) \<in> set (parts ! i) \<Longrightarrow> k < ie_key (in_entries m ! i)"
    "\<And>i k bs. i < length (in_entries m) \<Longrightarrow> (k, bs) \<in> set (parts ! Suc i) \<Longrightarrow> ie_key (in_entries m ! i) \<le> k"
    "j < length parts" "j \<noteq> i"
  shows "(key, bs) \<notin> set (parts ! j)"
proof
  assume key: "(key, bs) \<in> set (parts ! j)"
  show False
  proof (cases "j < i")
    case True
    then have j: "j < length (in_entries m)" using assms(2) by (auto simp: splits_at_def)
    have "ie_key (in_entries m ! j) \<le> key" using True j assms(2) by (auto simp: splits_at_def)
    moreover have "key < ie_key (in_entries m ! j)" by (rule assms(4) [OF j key])
    ultimately show False by simp
  next
    case False
    with assms(7) obtain j' where j': "j = Suc j'" "i \<le> j'" by (cases j) auto
    then have l: "j' < length (in_entries m)" using assms(3,6) by simp
    have "\<not> ie_key (in_entries m ! j') \<le> key" using j'(2) l assms(2) by (auto simp: splits_at_def)
    moreover have "ie_key (in_entries m ! j') \<le> key" using assms(5) [OF l] key j'(1) by simp
    ultimately show False by simp
  qed
qed

section \<open>Reading pages\<close>

text \<open>
  The contract of a \<^verbatim>\<open>BtreeReadView\<close>: a read gives the page its number stands for or fails, and whatever
  reading does to the state it is read through, every page stays what it was.
\<close>

locale page_reader =
  fixes rv :: "'r btree_read_view"
    and ok :: "'r \<Rightarrow> bool"
    and pages :: "'r \<Rightarrow> nat \<Rightarrow> page option"
  assumes read_page: "ok r \<Longrightarrow> rv_read_page rv pid r = (x, r') \<Longrightarrow>
      ok r' \<and> pages_kept (pages r) (pages r')
      \<and> rv_cursor_view rv r' = rv_cursor_view rv r
      \<and> rv_requires_view_generation rv r' = rv_requires_view_generation rv r
      \<and> (case x of Inr p \<Rightarrow> pages r pid = Some p | Inl _ \<Rightarrow> True)"

text \<open>
  Reading from \<open>r\<close> on, in a state in which every page is what it is in \<open>r\<close>, came to a page that is there, whose read
  failed with \<open>e\<close> and left \<open>r'\<close>.
\<close>

definition read_fails ::
  "'r btree_read_view \<Rightarrow> ('r \<Rightarrow> bool) \<Rightarrow> ('r \<Rightarrow> nat \<Rightarrow> page option) \<Rightarrow> 'r \<Rightarrow> error_code \<Rightarrow> 'r \<Rightarrow> bool" where
  "read_fails rv ok pages r e r' \<longleftrightarrow>
    (\<exists>r1 pid. ok r1 \<and> pages_kept (pages r) (pages r1) \<and> pages r1 pid \<noteq> None \<and> rv_read_page rv pid r1 = (Inl e, r'))"

text \<open>An operation that only reads gives \<open>x\<close>, or the error of a page that could not be read.\<close>

definition reads_to ::
  "'r btree_read_view \<Rightarrow> ('r \<Rightarrow> bool) \<Rightarrow> ('r \<Rightarrow> nat \<Rightarrow> page option) \<Rightarrow> 'a \<Rightarrow> 'r \<Rightarrow> 'a res \<times> 'r \<Rightarrow> bool" where
  "reads_to rv ok pages x r result \<longleftrightarrow>
    (case result of (y, r') \<Rightarrow>
       ok r' \<and> pages_kept (pages r) (pages r') \<and> rv_cursor_view rv r' = rv_cursor_view rv r
       \<and> rv_requires_view_generation rv r' = rv_requires_view_generation rv r
       \<and> (y = Inr x \<or> (\<exists>e. y = Inl e \<and> read_fails rv ok pages r e r')))"

lemma pages_kept_refl [simp]: "pages_kept P P"
  by (simp add: pages_kept_def)

lemma pages_kept_trans: "pages_kept P Q \<Longrightarrow> pages_kept Q R \<Longrightarrow> pages_kept P R"
  by (simp add: pages_kept_def)

lemma read_fails_later:
  "pages_kept (pages r) (pages r1) \<Longrightarrow> read_fails rv ok pages r1 e r' \<Longrightarrow> read_fails rv ok pages r e r'"
  unfolding read_fails_def by (meson pages_kept_trans)

context page_reader
begin

lemma reads_to_Inr: "ok r \<Longrightarrow> reads_to rv ok pages x r (Inr x, r)"
  by (simp add: reads_to_def)

lemma reads_to_return: "ok r \<Longrightarrow> reads_to rv ok pages x r (return_op x r)"
  by (simp add: reads_to_def return_op_def)

lemma reads_to_bind:
  assumes "reads_to rv ok pages x r (m r)"
    and "\<And>r'. ok r' \<Longrightarrow> pages_kept (pages r) (pages r') \<Longrightarrow>
      rv_requires_view_generation rv r' = rv_requires_view_generation rv r \<Longrightarrow> reads_to rv ok pages y r' (f x r')"
  shows "reads_to rv ok pages y r (bind_op m f r)"
proof -
  obtain z r' where m: "m r = (z, r')" by (cases "m r")
  show ?thesis
  proof (cases z)
    case (Inl e)
    then show ?thesis using assms(1) m by (auto simp: reads_to_def bind_op_def)
  next
    case (Inr u)
    with assms(1) m have r': "u = x" "ok r'" "pages_kept (pages r) (pages r')"
      "rv_requires_view_generation rv r' = rv_requires_view_generation rv r" "rv_cursor_view rv r' = rv_cursor_view rv r"
      by (auto simp: reads_to_def)
    from assms(2) [OF r'(2-4)] r' m Inr show ?thesis
      by (auto simp: reads_to_def bind_op_def intro: pages_kept_trans dest: read_fails_later [of pages r r'])
  qed
qed

lemma reads_to_lift:
  assumes "x = Inr y" "reads_to rv ok pages z r (f y r)"
  shows "reads_to rv ok pages z r (bind_op (lift_op x) f r)"
  using assms by (simp add: bind_op_def lift_op_def)

lemma reads_to_read:
  assumes "ok r" "pages r pid = Some p"
  shows "reads_to rv ok pages p r (rv_read_page rv pid r)"
proof -
  obtain x r' where x: "rv_read_page rv pid r = (x, r')" by (cases "rv_read_page rv pid r")
  from read_page [OF assms(1) x] assms x show ?thesis
    by (cases x) (auto simp: reads_to_def read_fails_def intro!: exI [of _ r])
qed

lemma overflow_loop_reads:
  assumes "ok r" "pages_kept P (pages r)" "k \<le> count" "length pids = count" "length chunks = count" "distinct pids"
    and page_id: "k < count \<Longrightarrow> page_id = pids ! k"
    and chain: "\<And>i. i < count \<Longrightarrow> \<exists>page o'. P (unat (pids ! i)) = Some page
      \<and> overflow_decode page tree_id d (of_nat i) (of_nat count) = Inr o' \<and> op_chunk o' = chunks ! i
      \<and> (i + 1 < count \<longrightarrow> op_next_page_id o' = Some (pids ! (i + 1)))"
  shows "reads_to rv ok pages (concat chunks, pids) r
    (overflow_loop rv tree_id d count [k..<count] page_id (concat (take k chunks)) (take k pids) r)"
  using assms(1-3) page_id
proof (induction "count - k" arbitrary: k page_id r)
  case 0
  then have "k = count" by simp
  with 0 assms(4,5) reads_to_return [of r] show ?case by (simp add: return_op_def)
next
  case (Suc n)
  then have k: "k < count" "page_id = pids ! k" by simp_all
  obtain page o' where p: "P (unat (pids ! k)) = Some page"
    "overflow_decode page tree_id d (of_nat k) (of_nat count) = Inr o'" "op_chunk o' = chunks ! k"
    "k + 1 < count \<longrightarrow> op_next_page_id o' = Some (pids ! (k + 1))"
    using chain [OF k(1)] by blast
  have upt: "[k..<count] = k # [Suc k..<count]" using k(1) by (rule upt_conv_Cons)
  have fresh: "pids ! k \<notin> set (take k pids)"
    using assms(4,6) k(1) by (auto simp: in_set_conv_nth nth_eq_iff_index_eq)
  have takes: "take k pids @ [pids ! k] = take (Suc k) pids"
    "concat (take k chunks) @ op_chunk o' = concat (take (Suc k) chunks)"
    using assms(4,5) k(1) p(3) by (simp_all add: take_Suc_conv_app_nth)
  have "reads_to rv ok pages (concat chunks, pids) r
      (bind_op (rv_read_page rv (unat (pids ! k))) (\<lambda>page.
       bind_op (lift_op (overflow_decode page tree_id d (of_nat k) (of_nat count))) (\<lambda>o'.
         if k + 1 < count
         then bind_op (lift_op (ok_or INVALID_OVERFLOW_PAGE (op_next_page_id o'))) (\<lambda>next_page_id.
           overflow_loop rv tree_id d count [Suc k..<count] next_page_id (concat (take k chunks) @ op_chunk o')
             (take k pids @ [pids ! k]))
         else overflow_loop rv tree_id d count [Suc k..<count] (pids ! k) (concat (take k chunks) @ op_chunk o')
             (take k pids @ [pids ! k]))) r)"
  proof (rule reads_to_bind [OF reads_to_read])
    show "ok r" "pages r (unat (pids ! k)) = Some page" using Suc.prems p by (simp_all add: pages_kept_def)
    fix r' assume r': "ok r'" "pages_kept (pages r) (pages r')"
    note kept = pages_kept_trans [OF Suc.prems(2) r'(2)]
    show "reads_to rv ok pages (concat chunks, pids) r'
        (bind_op (lift_op (overflow_decode page tree_id d (of_nat k) (of_nat count))) (\<lambda>o'.
         if k + 1 < count
         then bind_op (lift_op (ok_or INVALID_OVERFLOW_PAGE (op_next_page_id o'))) (\<lambda>next_page_id.
           overflow_loop rv tree_id d count [Suc k..<count] next_page_id (concat (take k chunks) @ op_chunk o')
             (take k pids @ [pids ! k]))
         else overflow_loop rv tree_id d count [Suc k..<count] (pids ! k) (concat (take k chunks) @ op_chunk o')
             (take k pids @ [pids ! k])) r')"
    proof (rule reads_to_lift [OF p(2)])
      show "reads_to rv ok pages (concat chunks, pids) r'
        ((if k + 1 < count
         then bind_op (lift_op (ok_or INVALID_OVERFLOW_PAGE (op_next_page_id o'))) (\<lambda>next_page_id.
           overflow_loop rv tree_id d count [Suc k..<count] next_page_id (concat (take k chunks) @ op_chunk o')
             (take k pids @ [pids ! k]))
         else overflow_loop rv tree_id d count [Suc k..<count] (pids ! k) (concat (take k chunks) @ op_chunk o')
             (take k pids @ [pids ! k])) r')"
      proof (cases "k + 1 < count")
        case True
        have "reads_to rv ok pages (concat chunks, pids) r'
          (overflow_loop rv tree_id d count [Suc k..<count] (pids ! Suc k) (concat (take (Suc k) chunks)) (take (Suc k) pids) r')"
          using Suc.hyps(2) True r'(1) kept by (intro Suc.hyps(1)) auto
        with True p(4) takes show ?thesis by (simp add: bind_op_def lift_op_def)
      next
        case False
        have "reads_to rv ok pages (concat chunks, pids) r'
          (overflow_loop rv tree_id d count [Suc k..<count] (pids ! k) (concat (take (Suc k) chunks)) (take (Suc k) pids) r')"
          using Suc.hyps(2) False k(1) r'(1) kept by (intro Suc.hyps(1)) auto
        with False takes show ?thesis by simp
      qed
    qed
  qed
  then show ?case using fresh by (simp add: upt k(2))
qed

lemma overflow_chain_reads:
  assumes "ok r" "pages_kept P (pages r)" "holds_chain P tree_id d bs"
    "validate_overflow_descriptor d leaf_generation = Inr ()" "od_generation d \<le> view_generation"
  shows "\<exists>pids. reads_to rv ok pages (bs, pids) r (read_overflow_chain rv tree_id view_generation leaf_generation d r)"
proof -
  let ?count = "overflow_chunks (unat (od_total_length d))"
  from assms(3) obtain pids chunks where c: "length pids = ?count" "length chunks = ?count" "distinct pids"
    "hd pids = od_first_page_id d" "bs = concat chunks" "length bs = unat (od_total_length d)" "checksum32 bs = od_checksum d"
    and chain: "\<And>i. i < ?count \<Longrightarrow> \<exists>page o'. P (unat (pids ! i)) = Some page
      \<and> overflow_decode page tree_id d (of_nat i) (of_nat ?count) = Inr o' \<and> op_chunk o' = chunks ! i
      \<and> (i + 1 < ?count \<longrightarrow> op_next_page_id o' = Some (pids ! (i + 1)))"
    unfolding holds_chain_def Let_def by blast
  have first: "od_first_page_id d = pids ! 0" if "0 < ?count"
  proof -
    have "pids \<noteq> []" using that c(1) by auto
    then show ?thesis using c(4) by (simp add: hd_conv_nth)
  qed
  have loop: "reads_to rv ok pages (bs, pids) r
      (overflow_loop rv tree_id d ?count [0..<?count] (od_first_page_id d) [] [] r)"
    using overflow_loop_reads [OF assms(1,2) _ c(1-3) first chain] c(5) by simp
  have "reads_to rv ok pages (bs, pids) r (bind_op (overflow_loop rv tree_id d ?count [0..<?count] (od_first_page_id d) [] [])
      (\<lambda>(v, pages). if length v \<noteq> unat (od_total_length d) then fail_op INVALID_OVERFLOW_PAGE
          else if checksum32 v \<noteq> od_checksum d then fail_op INVALID_OVERFLOW_PAGE else return_op (v, pages)) r)"
    using loop by (rule reads_to_bind) (simp add: c(6,7) reads_to_Inr)
  then have "reads_to rv ok pages (bs, pids) r (read_overflow_chain rv tree_id view_generation leaf_generation d r)"
    unfolding read_overflow_chain_def using assms(4,5)
    by (intro reads_to_lift) (auto simp: Let_def dest: leD)
  then show ?thesis by blast
qed

lemma found_reads:
  assumes "ok r" "pages_kept P (pages r)" "views_leaf v es" "i < length es" "holds_value P tree_id (le_value (es ! i)) bs"
    "nv_generation v \<le> generation"
  shows "reads_to rv ok pages (prefix @ bs) r (read_found rv tree_id generation prefix v i r)"
proof -
  have cell: "leaf_cell v i = Inr (le_key (es ! i), le_value (es ! i))"
    and inline: "inline_leaf_cell v i =
      (case le_value (es ! i) of InlineValue b \<Rightarrow> Some (le_key (es ! i), b) | OverflowValue _ \<Rightarrow> None)"
    using assms(3,4) by (simp_all add: views_leaf_def)
  show ?thesis
  proof (cases "le_value (es ! i)")
    case (InlineValue b)
    then show ?thesis using assms(5) inline reads_to_return [OF assms(1)] by (simp add: read_found_def)
  next
    case (OverflowValue d)
    have d: "validate_overflow_descriptor d (nv_generation v) = Inr ()"
      using cell OverflowValue by (auto simp: leaf_cell_def Let_def and_then_eq_Inr split: if_splits)
    then have "od_generation d \<le> nv_generation v"
      by (auto simp: validate_overflow_descriptor_def and_then_eq_Inr Let_def not_less split: if_splits)
    then have "od_generation d \<le> generation" using assms(6) by simp
    with overflow_chain_reads [OF assms(1,2) _ d this] assms(5) OverflowValue obtain pids where
      chain: "reads_to rv ok pages (bs, pids) r (read_overflow_chain rv tree_id generation (nv_generation v) d r)"
      by auto
    have "reads_to rv ok pages (prefix @ bs) r (bind_op (read_overflow_chain rv tree_id generation (nv_generation v) d)
        (\<lambda>(chained, _). return_op (prefix @ chained)) r)"
      using chain by (rule reads_to_bind) (simp add: reads_to_Inr)
    then show ?thesis using inline cell OverflowValue by (simp add: read_found_def bind_op_def lift_op_def)
  qed
qed

text \<open>One page of the way down.\<close>

lemma get_step_reads:
  assumes "ok r" "pages r (unat pid) = Some page"
    and "view_from_payload page tree_id generation (rv_requires_view_generation rv r (unat pid)) = Inr v"
    and "validate_expected_level (nv_level v) expected = Inr ()" "validate_child_generation (nv_generation v) parent = Inr ()"
    and "search v key = Some (i, found)"
    and rest: "\<And>r'. ok r' \<Longrightarrow> pages_kept (pages r) (pages r') \<Longrightarrow>
      rv_requires_view_generation rv r' = rv_requires_view_generation rv r \<Longrightarrow>
      reads_to rv ok pages x r'
        ((if nv_leaf v
          then (if \<not> found then return_op None
                else bind_op (read_found rv tree_id generation prefix v i) (\<lambda>bs. return_op (Some bs)))
          else bind_op (lift_op (view_child v i)) (\<lambda>child.
            get_loop rv tree_id key prefix generation steps child (Some (nv_level v - 1)) (Some (nv_generation v)))) r')"
  shows "reads_to rv ok pages x r (get_loop rv tree_id key prefix generation (Suc steps) pid expected parent r)"
  unfolding get_loop.simps Let_def
proof (rule reads_to_bind, rule reads_to_read [OF assms(1,2)])
  fix r' assume r': "ok r'" "pages_kept (pages r) (pages r')"
    "rv_requires_view_generation rv r' = rv_requires_view_generation rv r"
  show "reads_to rv ok pages x r'
     (bind_op (lift_op (view_from_payload page tree_id generation (rv_requires_view_generation rv r (unat pid)))) (\<lambda>v.
      bind_op (lift_op (validate_expected_level (nv_level v) expected)) (\<lambda>_.
      bind_op (lift_op (validate_child_generation (nv_generation v) parent)) (\<lambda>_.
      case search v key of
        None \<Rightarrow> fail_op (search_error v key)
      | Some (index, found) \<Rightarrow>
          if nv_leaf v
          then (if \<not> found then return_op None
                else bind_op (read_found rv tree_id generation prefix v index) (\<lambda>bs. return_op (Some bs)))
          else bind_op (lift_op (view_child v index)) (\<lambda>child.
            get_loop rv tree_id key prefix generation steps child (Some (nv_level v - 1))
              (Some (nv_generation v)))))) r')"
    using rest [OF r'] assms(3-6) by (simp add: bind_op_def lift_op_def split del: if_split)
qed

lemma leaf_result_reads:
  assumes "ok r" "pages_kept P (pages r)" "views_leaf v es" "nv_generation v \<le> generation"
    "list_all2 (\<lambda>e (k, bs). k = le_key e \<and> holds_value P tree_id (le_value e) bs) es kvs"
    "splits_at (length es) (\<lambda>j. le_key (es ! j) < key) i" "found \<longleftrightarrow> i < length es \<and> le_key (es ! i) = key"
  shows "reads_to rv ok pages (map_option (\<lambda>bs. prefix @ bs) (map_of kvs key)) r
    ((if \<not> found then return_op None
      else bind_op (read_found rv tree_id generation prefix v i) (\<lambda>bs. return_op (Some bs))) r)"
proof (cases found)
  case True
  have "sorted_wrt (<) (map le_key es)" using assms(3) by (simp add: views_leaf_def)
  from map_of_list_all2 [OF assms(5) this, of i] True assms(7) obtain bs where
    bs: "map_of kvs key = Some bs" "holds_value P tree_id (le_value (es ! i)) bs" by auto
  have "reads_to rv ok pages (prefix @ bs) r (read_found rv tree_id generation prefix v i r)"
    using True assms(7) by (intro found_reads [OF assms(1-3) _ bs(2) assms(4)]) simp
  then have "reads_to rv ok pages (Some (prefix @ bs)) r
      (bind_op (read_found rv tree_id generation prefix v i) (\<lambda>bs. return_op (Some bs)) r)"
    by (rule reads_to_bind) (simp add: reads_to_Inr)
  then show ?thesis using True bs by simp
next
  case False
  have "key \<noteq> le_key (es ! j)" if "j < length es" for j
    using splits_leaf_absent [OF assms(3,6)] False assms(7) that by blast
  then have "key \<notin> set (map le_key es)" by (metis in_set_conv_nth length_map nth_map)
  moreover have "map fst kvs = map le_key es"
    using assms(5) by (induction rule: list_all2_induct) auto
  ultimately have "map_of kvs key = None" by (simp add: map_of_eq_None_iff flip: set_map)
  with False assms(1) show ?thesis by (simp add: reads_to_Inr)
qed

lemma get_loop_reads:
  assumes "holds_tree P tree_id generation req level parent pid pids kvs"
    and "ok r" "pages_kept P (pages r)" "rv_requires_view_generation rv r = req" "level < steps"
    and "expected = None \<or> expected = Some (of_nat level)"
  shows "reads_to rv ok pages (map_option (\<lambda>bs. prefix @ bs) (map_of kvs key)) r
    (get_loop rv tree_id key prefix generation steps pid expected parent r)"
  using assms
proof (induction arbitrary: r steps expected rule: holds_tree.induct)
  case (holds_leaf pid page n parent es kvs)
  obtain v where v: "view_from_payload page tree_id generation (req (unat pid)) = Inr v" "views_header v page n"
    and kind: "case nd_kind n of LeafNode es \<Rightarrow> views_leaf v es | InternalNode m \<Rightarrow> views_internal v m"
    by (rule view_of_decoded [OF holds_leaf.hyps(2)])
  then have leaf: "views_leaf v es" using holds_leaf.hyps(4) by simp
  obtain i where i: "search v key = Some (i, i < length es \<and> le_key (es ! i) = key)"
    "splits_at (length es) (\<lambda>j. le_key (es ! j) < key) i" by (rule search_leaf [OF v(2) leaf])
  obtain s where s: "steps = Suc s" using holds_leaf.prems(4) by (cases steps) auto
  have gen: "nv_generation v \<le> generation" by (rule view_generation_le [OF v(1)])
  have "nv_leaf v" "nv_level v = 0" using leaf by (simp_all add: views_leaf_def)
  show ?case unfolding s
  proof (rule get_step_reads [OF holds_leaf.prems(1) _ _ _ _ i(1)])
    show "pages r (unat pid) = Some page" using holds_leaf.hyps(1) holds_leaf.prems(2) by (simp add: pages_kept_def)
    show "view_from_payload page tree_id generation (rv_requires_view_generation rv r (unat pid)) = Inr v"
      using v(1) holds_leaf.prems(3) by simp
    show "validate_expected_level (nv_level v) expected = Inr ()"
      using holds_leaf.prems(5) \<open>nv_level v = 0\<close> by (auto simp: validate_expected_level_def)
    show "validate_child_generation (nv_generation v) parent = Inr ()"
      using holds_leaf.hyps(3) v(2) by (simp add: views_header_def)
    fix r' assume r': "ok r'" "pages_kept (pages r) (pages r')"
    show "reads_to rv ok pages (map_option (\<lambda>bs. prefix @ bs) (map_of kvs key)) r'
      ((if nv_leaf v
        then (if \<not> (i < length es \<and> le_key (es ! i) = key) then return_op None
              else bind_op (read_found rv tree_id generation prefix v i) (\<lambda>bs. return_op (Some bs)))
        else bind_op (lift_op (view_child v i)) (\<lambda>child.
          get_loop rv tree_id key prefix generation s child (Some (nv_level v - 1)) (Some (nv_generation v)))) r')"
      using leaf_result_reads [OF r'(1) pages_kept_trans [OF holds_leaf.prems(2) r'(2)] leaf gen holds_leaf.hyps(5) i(2) refl]
        \<open>nv_leaf v\<close> by simp
  qed
next
  case (holds_internal pid page n parent m level parts pidss)
  obtain v where v: "view_from_payload page tree_id generation (req (unat pid)) = Inr v" "views_header v page n"
    and kind: "case nd_kind n of LeafNode es \<Rightarrow> views_leaf v es | InternalNode m \<Rightarrow> views_internal v m"
    by (rule view_of_decoded [OF holds_internal.hyps(2)])
  then have internal: "views_internal v m" using holds_internal.hyps(4) by simp
  obtain i found where i: "search v key = Some (i, found)"
    "splits_at (length (in_entries m)) (\<lambda>j. ie_key (in_entries m ! j) \<le> key) i" by (rule search_internal [OF v(2) internal])
  obtain s where s: "steps = Suc s" using holds_internal.prems(4) by (cases steps) auto
  have "\<not> nv_leaf v" using internal by (simp add: views_internal_def)
  have len: "i < length parts" using i(2) holds_internal.hyps(6) by (simp add: splits_at_def)
  have child: "view_child v i = Inr (internal_child m i)"
    using internal len holds_internal.hyps(6) by (cases i) (auto simp: views_internal_def internal_child_def)
  have map: "map_of (concat parts) key = map_of (parts ! i) key"
  proof (rule map_of_concat [OF len])
    fix j bs assume "j < length parts" "j \<noteq> i"
    then show "(key, bs) \<notin> set (parts ! j)"
      using holds_internal.hyps(9,10) by (intro splits_parts [OF internal i(2) holds_internal.hyps(6)])
  qed
  have level: "nv_level v - 1 = of_nat level" "nv_level v = of_nat (Suc level)"
    using v(2) holds_internal.hyps(5) of_nat_unat_cong [of "nd_level n" "Suc level"] by (simp_all add: views_header_def)
  show ?case unfolding s
  proof (rule get_step_reads [OF holds_internal.prems(1) _ _ _ _ i(1)])
    show "pages r (unat pid) = Some page" using holds_internal.hyps(1) holds_internal.prems(2) by (simp add: pages_kept_def)
    show "view_from_payload page tree_id generation (rv_requires_view_generation rv r (unat pid)) = Inr v"
      using v(1) holds_internal.prems(3) by simp
    show "validate_expected_level (nv_level v) expected = Inr ()"
      using holds_internal.prems(5) level(2) by (auto simp: validate_expected_level_def)
    show "validate_child_generation (nv_generation v) parent = Inr ()"
      using holds_internal.hyps(3) v(2) by (simp add: views_header_def)
    fix r' assume r': "ok r'" "pages_kept (pages r) (pages r')" "rv_requires_view_generation rv r' = rv_requires_view_generation rv r"
    have "reads_to rv ok pages (map_option (\<lambda>bs. prefix @ bs) (map_of (parts ! i) key)) r'
        (get_loop rv tree_id key prefix generation s (internal_child m i) (Some (of_nat level)) (Some (nd_generation n)) r')"
      using r' holds_internal.prems(2-4) s
      by (intro holds_internal.IH [OF len]) (auto intro: pages_kept_trans)
    then show "reads_to rv ok pages (map_option (\<lambda>bs. prefix @ bs) (map_of (concat parts) key)) r'
      ((if nv_leaf v
        then (if \<not> found then return_op None
              else bind_op (read_found rv tree_id generation prefix v i) (\<lambda>bs. return_op (Some bs)))
        else bind_op (lift_op (view_child v i)) (\<lambda>child.
          get_loop rv tree_id key prefix generation s child (Some (nv_level v - 1)) (Some (nv_generation v)))) r')"
      using \<open>\<not> nv_leaf v\<close> child map level(1) v(2) by (simp add: bind_op_def lift_op_def views_header_def)
  qed
qed

text \<open>The whole lookup.\<close>

theorem get_prefixed_reads:
  assumes "ok r" "validate_tree_id tree_id = Inr ()" "validate_key key = Inr ()"
    "rv_cursor_view rv r tree_id = Inr view" "level < MAX_TREE_DEPTH"
    "holds_tree (pages r) tree_id (cursor_view_generation view) (rv_requires_view_generation rv r) level None root pids kvs"
  shows "reads_to rv ok pages (map_option (\<lambda>bs. prefix @ bs) (map_of kvs key)) r
    (get_prefixed_from rv root tree_id key prefix r)"
  using get_loop_reads [OF assms(6,1) pages_kept_refl refl assms(5), of None prefix key] assms(2-4)
  by (simp add: get_prefixed_from_def bind_op_def lift_op_def)

end

end
