(* ===== verification/CursorProofs.thy ===== *)
theory CursorProofs
  imports Cursor BtreeLookup
begin

text \<open>
  A cursor over a tree returns its entries in key order, or in the reverse order, from the bound it was opened at: each
  of them once, and no others.
\<close>

section \<open>Directions and bounds\<close>

definition dir :: "bool \<Rightarrow> 'a list \<Rightarrow> 'a list" where
  "dir backward xs = (if backward then rev xs else xs)"

text \<open>Whether a cursor opened at \<open>bound\<close> returns the entry of a key.\<close>

definition within :: "bool \<Rightarrow> bytes option \<Rightarrow> bytes \<Rightarrow> bool" where
  "within backward bound k = (case bound of None \<Rightarrow> True | Some b \<Rightarrow> if backward then k < b else b \<le> k)"

text \<open>The children that come after the child \<open>i\<close> of a node with \<open>n\<close> separators.\<close>

definition siblings :: "bool \<Rightarrow> nat \<Rightarrow> nat \<Rightarrow> nat list" where
  "siblings backward n i = (if backward then rev [0..<i] else [Suc i..<Suc n])"

lemma siblings_step:
  assumes "i \<le> nv_item_count v"
  shows "siblings b (nv_item_count v) i =
    (case next_sibling b v i of None \<Rightarrow> [] | Some s \<Rightarrow> s # siblings b (nv_item_count v) s)"
proof (cases b)
  case True
  then show ?thesis by (cases i) (simp_all add: siblings_def next_sibling_def)
next
  case False
  then show ?thesis using assms upt_conv_Cons [of "Suc i" "Suc (nv_item_count v)"]
    by (auto simp: siblings_def next_sibling_def simp del: upt_Suc)
qed

lemma next_sibling_le: "next_sibling b v i = Some s \<Longrightarrow> i \<le> nv_item_count v \<Longrightarrow> s \<le> nv_item_count v"
  by (auto simp: next_sibling_def split: if_splits)

text \<open>What lies ahead at the child \<open>i\<close>: that child, and those after it.\<close>

definition from_child :: "bool \<Rightarrow> nat \<Rightarrow> 'a list \<Rightarrow> 'a list" where
  "from_child backward i xs = (if backward then rev (take (Suc i) xs) else drop i xs)"

lemma from_child_nth:
  assumes "length xs = Suc n" "i \<le> n"
  shows "from_child b i xs = map ((!) xs) (i # siblings b n i)"
proof (cases b)
  case True
  have "map ((!) xs) [0..<Suc i] = take (Suc i) xs" using assms by (intro nth_equalityI) (simp_all del: upt_Suc)
  moreover have "i # siblings b n i = rev [0..<Suc i]" using True by (simp add: siblings_def)
  ultimately show ?thesis using True by (simp add: from_child_def rev_map [symmetric] del: upt_Suc)
next
  case False
  have "i # siblings b n i = [i..<Suc n]" using False assms(2) by (simp add: siblings_def upt_conv_Cons del: upt_Suc)
  moreover have "map ((!) xs) [i..<Suc n] = drop i xs" using assms by (intro nth_equalityI) (simp_all del: upt_Suc)
  ultimately show ?thesis using False by (simp add: from_child_def)
qed

lemma distinct_concat_rev: "distinct (concat (rev xss)) \<longleftrightarrow> distinct (concat xss)"
  by (induction xss) auto

lemma set_from_child: "set (concat (from_child b i xss)) \<subseteq> set (concat xss)"
  by (auto simp: from_child_def dest: in_set_takeD in_set_dropD)

lemma distinct_from_child:
  assumes "distinct (concat xss)"
  shows "distinct (concat (from_child b i xss))"
proof -
  have "distinct (concat (take (Suc i) xss) @ concat (drop (Suc i) xss))" "distinct (concat (take i xss) @ concat (drop i xss))"
    using assms by (simp_all flip: concat_append)
  then show ?thesis by (simp add: from_child_def distinct_concat_rev)
qed

lemma filter_split:
  assumes "splits_at (length xs) (\<lambda>j. p (xs ! j)) i"
  shows "filter p xs = take i xs" "filter (\<lambda>x. \<not> p x) xs = drop i xs"
proof -
  have "\<forall>x \<in> set (take i xs). p x" "\<forall>x \<in> set (drop i xs). \<not> p x"
    using assms by (auto simp: splits_at_def in_set_conv_nth)
  then have "filter p (take i xs @ drop i xs) = take i xs" "filter (\<lambda>x. \<not> p x) (take i xs @ drop i xs) = drop i xs"
    unfolding filter_append by (simp_all add: filter_empty_conv)
  then show "filter p xs = take i xs" "filter (\<lambda>x. \<not> p x) xs = drop i xs" by simp_all
qed

section \<open>What lies ahead of a cursor\<close>

text \<open>The trees below a list of pages, one after the other.\<close>

inductive trees ::
  "(nat \<Rightarrow> page option) \<Rightarrow> u64 \<Rightarrow> u64 \<Rightarrow> (nat \<Rightarrow> bool) \<Rightarrow> bool \<Rightarrow> nat \<Rightarrow> u64 option \<Rightarrow> u64 list \<Rightarrow> u64 list
   \<Rightarrow> (bytes \<times> bytes) list \<Rightarrow> bool"
  for P tree_id generation req backward where
  no_trees: "trees P tree_id generation req backward level parent [] [] []"
| more_trees: "holds_tree P tree_id generation req level parent pid pids kvs \<Longrightarrow>
    trees P tree_id generation req backward level parent cs pids' kvs' \<Longrightarrow>
    trees P tree_id generation req backward level parent (pid # cs) (pids @ pids') (dir backward kvs @ kvs')"

inductive_cases trees_NilE: "trees P tree_id generation req backward level parent [] pids kvs"
inductive_simps trees_Cons: "trees P tree_id generation req backward level parent (c # cs) pids kvs"

text \<open>The trees after the children on a path, whose deepest node has children of height \<open>level\<close>.\<close>

inductive ahead ::
  "(nat \<Rightarrow> page option) \<Rightarrow> u64 \<Rightarrow> u64 \<Rightarrow> (nat \<Rightarrow> bool) \<Rightarrow> bool \<Rightarrow> nat \<Rightarrow> (node_view \<times> nat) list \<Rightarrow> u64 list
   \<Rightarrow> (bytes \<times> bytes) list \<Rightarrow> bool"
  for P tree_id generation req backward where
  ahead_root: "ahead P tree_id generation req backward level [] [] []"
| ahead_node: "views_internal v m \<Longrightarrow> nv_level v = of_nat (Suc level) \<Longrightarrow> i \<le> length (in_entries m) \<Longrightarrow>
    trees P tree_id generation req backward level (Some (nv_generation v))
      (map (internal_child m) (siblings backward (length (in_entries m)) i)) pids kvs \<Longrightarrow>
    ahead P tree_id generation req backward (Suc level) path pids' kvs' \<Longrightarrow>
    ahead P tree_id generation req backward level ((v, i) # path) (pids @ pids') (kvs @ kvs')"

inductive_cases ahead_NilE: "ahead P tree_id generation req backward level [] pids kvs"
inductive_simps ahead_Cons: "ahead P tree_id generation req backward level ((v, i) # path) pids kvs"

lemma trees_map:
  "(\<And>j. j \<in> set js \<Longrightarrow> holds_tree P tree_id generation req level parent (internal_child m j) (pidss ! j) (parts ! j)) \<Longrightarrow>
    trees P tree_id generation req b level parent (map (internal_child m) js) (concat (map ((!) pidss) js))
      (concat (map (\<lambda>j. dir b (parts ! j)) js))"
  by (induction js) (auto intro: trees.intros)

text \<open>Where a cursor is: in a leaf, with these entries still to come, on pages it has not been to.\<close>

definition cursor_at ::
  "(nat \<Rightarrow> page option) \<Rightarrow> (nat \<Rightarrow> bool) \<Rightarrow> btree_cursor \<Rightarrow> (bytes \<times> bytes) list \<Rightarrow> bool" where
  "cursor_at P req c rem \<longleftrightarrow>
    (\<exists>v es lkvs pids kvs.
       bc_leaf c = Some v \<and> views_leaf v es \<and> nv_generation v \<le> cursor_view_generation (bc_view c)
       \<and> list_all2 (\<lambda>e (k, bs). k = le_key e \<and> holds_value P (bc_tree_id c) (le_value e) bs) es lkvs
       \<and> bc_leaf_index c \<le> length es
       \<and> ahead P (bc_tree_id c) (cursor_view_generation (bc_view c)) req (bc_backward c) 0 (bc_path c) pids kvs
       \<and> distinct pids \<and> set pids \<inter> set (bc_visited_pages c) = {} \<and> length (bc_path c) < MAX_TREE_DEPTH
       \<and> rem = (if bc_backward c then rev (take (bc_leaf_index c) lkvs) else drop (bc_leaf_index c) lkvs) @ kvs)"

definition same_scan :: "btree_cursor \<Rightarrow> btree_cursor \<Rightarrow> bool" where
  "same_scan c c' \<longleftrightarrow>
    bc_tree_id c' = bc_tree_id c \<and> bc_view c' = bc_view c \<and> bc_backward c' = bc_backward c \<and> bc_finished c' = bc_finished c"

lemma same_scan_refl [simp]: "same_scan c c"
  by (simp add: same_scan_def)

lemma same_scan_trans: "same_scan c c' \<Longrightarrow> same_scan c' c'' \<Longrightarrow> same_scan c c''"
  by (simp add: same_scan_def)

section \<open>Searching for the bound\<close>

lemma seek_leaf_ok:
  assumes "views_leaf v es" "map fst lkvs = map le_key es"
  shows "\<exists>i \<le> length es. seek_leaf_index bound b v = Inr i \<and>
    filter (\<lambda>e. within b bound (fst e)) lkvs = (if b then take i lkvs else drop i lkvs)"
proof (cases bound)
  case None
  have "nv_item_count v = length es" using assms(1) by (simp add: views_leaf_def)
  moreover have "length lkvs = length es" by (rule map_eq_imp_length_eq [OF assms(2)])
  ultimately show ?thesis using None by (cases b) (auto simp: seek_leaf_index_def within_def)
next
  case (Some x)
  have len: "length lkvs = length es" by (rule map_eq_imp_length_eq [OF assms(2)])
  have key: "fst (lkvs ! j) = le_key (es ! j)" if "j < length es" for j
    using arg_cong [OF assms(2), of "\<lambda>ks. ks ! j"] that len by simp
  obtain i where i: "lower_bound v x = Inr i" "splits_at (length es) (\<lambda>j. le_key (es ! j) < x) i"
    using lower_bound_splits [OF assms(1), of x] by blast
  have "splits_at (length lkvs) (\<lambda>j. fst (lkvs ! j) < x) i"
    using i(2) key len unfolding splits_at_def by (metis le_trans less_le_trans nat_le_linear)
  note f = filter_split [OF this]
  have "i \<le> length es" using i(2) by (simp add: splits_at_def)
  then show ?thesis using Some i(1) f by (cases b) (auto simp: seek_leaf_index_def within_def not_less)
qed

lemma backward_partition:
  assumes "views_internal v m"
  shows "\<exists>i. view_partition v 0 (\<lambda>index. and_then (internal_key v index) (\<lambda>k. Inr (k < x))) = Inr i
    \<and> splits_at (length (in_entries m)) (\<lambda>j. ie_key (in_entries m ! j) < x) i"
proof -
  let ?es = "in_entries m"
  have l: "nv_item_count v = length ?es" "sorted_wrt (<) (map ie_key ?es)" using assms by (simp_all add: views_internal_def)
  have "\<exists>i. partition_loop (\<lambda>index. and_then (internal_key v index) (\<lambda>k. Inr (k < x))) 0 (length ?es) = Inr i
      \<and> splits_at (length ?es) (\<lambda>j. ie_key (?es ! j) < x) i"
  proof (rule partition_loop_ok)
    show "and_then (internal_key v i) (\<lambda>k. Inr (k < x)) = Inr (ie_key (?es ! i) < x)" if "i < length ?es" for i
      using that assms by (simp add: views_internal_def)
    show "ie_key (?es ! i) < x" if "i < j" "j < length ?es" "ie_key (?es ! j) < x" for i j
      using that sorted_nth_less [OF l(2), of i j] by (auto intro: less_trans)
  qed auto
  then show ?thesis using l(1) by (simp add: view_partition_def)
qed

text \<open>The child a search goes to: those it passes by hold no entry within the bound, and those to come hold no other.\<close>

lemma seek_child_ok:
  assumes v: "views_internal v m" and "length parts = Suc (length (in_entries m))"
    and lo: "\<And>i k bs. i < length (in_entries m) \<Longrightarrow> (k, bs) \<in> set (parts ! i) \<Longrightarrow> k < ie_key (in_entries m ! i)"
    and hi: "\<And>i k bs. i < length (in_entries m) \<Longrightarrow> (k, bs) \<in> set (parts ! Suc i) \<Longrightarrow> ie_key (in_entries m ! i) \<le> k"
  shows "\<exists>i \<le> length (in_entries m). seek_child_index bound b v = Inr i \<and>
    (\<forall>j < length parts. \<forall>(k, bs) \<in> set (parts ! j). j \<noteq> i \<longrightarrow> within b bound k = (if b then j < i else i < j))"
proof (cases bound)
  case None
  have "nv_item_count v = length (in_entries m)" using v by (simp add: views_internal_def)
  with None assms(2) show ?thesis by (cases b) (auto simp: seek_child_index_def within_def)
next
  case (Some x)
  obtain i where i: "seek_child_index bound b v = Inr i"
    "splits_at (length (in_entries m)) (\<lambda>j. if b then ie_key (in_entries m ! j) < x else ie_key (in_entries m ! j) \<le> x) i"
  proof (cases b)
    case True
    then show thesis using backward_partition [OF v, of x] that Some by (auto simp: seek_child_index_def)
  next
    case False
    then show thesis using child_index_splits [OF v, of x] that Some by (auto simp: seek_child_index_def)
  qed
  have "within b bound k = (if b then j < i else i < j)"
    if j: "j < length parts" "(k, bs) \<in> set (parts ! j)" "j \<noteq> i" for j k bs
  proof (cases "j < i")
    case True
    then have l: "j < length (in_entries m)" using i(2) by (auto simp: splits_at_def)
    have "k < ie_key (in_entries m ! j)" by (rule lo [OF l j(2)])
    moreover have "if b then ie_key (in_entries m ! j) < x else ie_key (in_entries m ! j) \<le> x"
      using i(2) True by (simp add: splits_at_def)
    ultimately show ?thesis using Some True by (auto simp: within_def split: if_splits)
  next
    case False
    with j(3) obtain j' where j': "j = Suc j'" "i \<le> j'" by (cases j) auto
    then have l: "j' < length (in_entries m)" using assms(2) j(1) by simp
    have "ie_key (in_entries m ! j') \<le> k" using hi [OF l] j(2) j'(1) by simp
    moreover have "\<not> (if b then ie_key (in_entries m ! j') < x else ie_key (in_entries m ! j') \<le> x)"
      using i(2) j'(2) l by (auto simp: splits_at_def)
    ultimately show ?thesis using Some False j(3) by (auto simp: within_def not_less not_le split: if_splits)
  qed
  then show ?thesis using i by (intro exI [of _ i]) (auto simp: splits_at_def)
qed

text \<open>The entries a search leaves ahead at a node.\<close>

lemma node_entries:
  assumes "length parts = Suc n" "i \<le> n"
    and "\<forall>j < length parts. \<forall>(k, bs) \<in> set (parts ! j). j \<noteq> i \<longrightarrow> within b bound k = (if b then j < i else i < j)"
  shows "dir b (filter (\<lambda>e. within b bound (fst e)) (concat parts)) =
    dir b (filter (\<lambda>e. within b bound (fst e)) (parts ! i)) @ concat (map (\<lambda>j. dir b (parts ! j)) (siblings b n i))"
proof -
  let ?f = "filter (\<lambda>e. within b bound (fst e))"
  have part: "?f (parts ! j) = (if (if b then j < i else i < j) then parts ! j else [])" if "j < length parts" "j \<noteq> i" for j
  proof (cases "if b then j < i else i < j")
    case True
    then have "\<forall>e \<in> set (parts ! j). within b bound (fst e)" using assms(3) that by fastforce
    with True show ?thesis by (auto intro: filter_True)
  next
    case False
    then have "\<forall>e \<in> set (parts ! j). \<not> within b bound (fst e)" using assms(3) that by fastforce
    with False show ?thesis by (auto simp: filter_empty_conv)
  qed
  have parts: "parts = map ((!) parts) [0..<i] @ parts ! i # map ((!) parts) [Suc i..<Suc n]"
  proof -
    have "map ((!) parts) [0..<Suc n] = parts" using assms(1) by (metis map_nth)
    moreover have "[0..<Suc n] = [0..<i] @ i # [Suc i..<Suc n]" using assms(2) upt_add_eq_append [of 0 i "Suc n - i"]
      by (simp add: upt_conv_Cons del: upt_Suc)
    ultimately show ?thesis by (metis list.simps(9) map_append)
  qed
  have f: "?f (concat (map ((!) parts) js)) = concat (map (\<lambda>j. ?f (parts ! j)) js)" for js
    by (simp add: filter_concat comp_def)
  have below: "map (\<lambda>j. ?f (parts ! j)) [0..<i] = map (\<lambda>j. if b then parts ! j else []) [0..<i]"
    and above: "map (\<lambda>j. ?f (parts ! j)) [Suc i..<Suc n] = map (\<lambda>j. if b then [] else parts ! j) [Suc i..<Suc n]"
    using part assms(1,2) by (auto simp del: upt_Suc)
  have "?f (concat parts) = (if b then concat (map ((!) parts) [0..<i]) else []) @ ?f (parts ! i)
      @ (if b then [] else concat (map ((!) parts) [Suc i..<Suc n]))"
    by (subst parts) (simp add: f below above del: upt_Suc)
  then show ?thesis by (auto simp: dir_def siblings_def rev_concat rev_map comp_def simp del: upt_Suc)
qed

section \<open>Descending is seeking without a bound\<close>

lemma descend_seek:
  "descend_loop rv b steps pid el pg s = bind_op (seek_loop rv None b steps pid (Some el) (Some pg)) (\<lambda>_. return_op True) s"
proof (induction steps arbitrary: b pid el pg s)
  case (Suc steps)
  obtain y s' where l: "cursor_load rv pid (Some el) (Some pg) s = (y, s')" by (metis surj_pair)
  show ?case
    by (cases y) (auto simp: l Let_def bind_op_def lift_op_def return_op_def seek_leaf_index_def seek_child_index_def Suc
        change_cursor_def split: sum.splits prod.splits)
qed (simp add: fail_op_def bind_op_def)

section \<open>Scans\<close>

text \<open>Taking up to \<open>n\<close> entries from a cursor, and from one newly opened.\<close>

fun next_entries :: "'r btree_read_view \<Rightarrow> nat \<Rightarrow> ('r, (bytes \<times> bytes) list) cursor_op" where
  "next_entries rv 0 = return_op []"
| "next_entries rv (Suc n) =
    bind_op (next_from rv) (\<lambda>x. case x of
      None \<Rightarrow> return_op []
    | Some e \<Rightarrow> bind_op (next_entries rv n) (\<lambda>es. return_op (e # es)))"

definition cursor_scan ::
  "'r btree_read_view \<Rightarrow> u64 \<Rightarrow> u64 \<Rightarrow> bytes option \<Rightarrow> bool \<Rightarrow> bool \<Rightarrow> nat \<Rightarrow> ('r, (bytes \<times> bytes) list) op" where
  "cursor_scan rv root tree_id bound backward strict n r =
    (case open_cursor rv root tree_id bound backward strict r of
       (Inl e, r') \<Rightarrow> (Inl e, r')
     | (Inr c, r') \<Rightarrow> (case next_entries rv n (c, r') of (x, (_, r'')) \<Rightarrow> (x, r'')))"

section \<open>Running a cursor\<close>

text \<open>
  An operation of a cursor ends with a result and a cursor for which \<open>Q\<close> holds, or with the error of a page that
  could not be read.
\<close>

definition yields ::
  "'r btree_read_view \<Rightarrow> ('r \<Rightarrow> bool) \<Rightarrow> ('r \<Rightarrow> nat \<Rightarrow> page option) \<Rightarrow> 'r \<Rightarrow> ('a \<Rightarrow> btree_cursor \<Rightarrow> bool)
   \<Rightarrow> 'a res \<times> btree_cursor \<times> 'r \<Rightarrow> bool" where
  "yields rv ok pages r Q result \<longleftrightarrow>
    (case result of (y, (c', r')) \<Rightarrow>
       ok r' \<and> pages_kept (pages r) (pages r') \<and> rv_cursor_view rv r' = rv_cursor_view rv r
       \<and> rv_requires_view_generation rv r' = rv_requires_view_generation rv r
       \<and> (case y of Inr x \<Rightarrow> Q x c' | Inl e \<Rightarrow> read_fails rv ok pages r e r'))"

text \<open>A cursor with the entries \<open>rem\<close> to come, at the state of the database it was opened on.\<close>

definition scanning :: "'r btree_read_view \<Rightarrow> (nat \<Rightarrow> page option) \<Rightarrow> 'r \<Rightarrow> btree_cursor \<Rightarrow> (bytes \<times> bytes) list \<Rightarrow> bool" where
  "scanning rv P r c rem \<longleftrightarrow>
    (if bc_finished c then rem = []
     else rv_cursor_view rv r (bc_tree_id c) = Inr (bc_view c) \<and> cursor_at P (rv_requires_view_generation rv r) c rem)"

context page_reader
begin

lemma yields_return: "ok r \<Longrightarrow> Q x c \<Longrightarrow> yields rv ok pages r Q (Inr x, (c, r))"
  by (simp add: yields_def)

lemma yields_bind:
  assumes "yields rv ok pages r Q' (m (c, r))"
    and "\<And>x c' r'. Q' x c' \<Longrightarrow> ok r' \<Longrightarrow> pages_kept (pages r) (pages r') \<Longrightarrow> rv_cursor_view rv r' = rv_cursor_view rv r \<Longrightarrow>
      rv_requires_view_generation rv r' = rv_requires_view_generation rv r \<Longrightarrow> yields rv ok pages r' Q (f x (c', r'))"
  shows "yields rv ok pages r Q (bind_op m f (c, r))"
proof -
  obtain y c' r' where m: "m (c, r) = (y, (c', r'))" by (metis surj_pair)
  show ?thesis
  proof (cases y)
    case (Inl e)
    with m assms(1) show ?thesis by (simp add: yields_def)
  next
    case (Inr x)
    obtain z c'' r'' where f: "f x (c', r') = (z, (c'', r''))" by (metis surj_pair)
    have "yields rv ok pages r' Q (f x (c', r'))" using assms m Inr by (simp add: yields_def)
    with m Inr f assms(1) show ?thesis by (auto simp: yields_def intro: pages_kept_trans read_fails_later [of pages r r'] split: sum.splits)
  qed
qed

lemma yields_mono:
  "yields rv ok pages r Q' res \<Longrightarrow> (\<And>x c'. Q' x c' \<Longrightarrow> Q x c') \<Longrightarrow> yields rv ok pages r Q res"
  by (auto simp: yields_def split: sum.splits)

lemma load_yields:
  assumes "ok r" "pages r (unat pid) = Some page" "pid \<notin> set (bc_visited_pages c)"
    and "node_decode page (bc_tree_id c) (cursor_view_generation (bc_view c)) (rv_requires_view_generation rv r (unat pid)) = Inr n"
    and "view_from_payload page (bc_tree_id c) (cursor_view_generation (bc_view c)) (rv_requires_view_generation rv r (unat pid)) = Inr v"
    and "validate_expected_level (nv_level v) expected = Inr ()" "validate_child_generation (nv_generation v) parent = Inr ()"
  shows "yields rv ok pages r (\<lambda>x c'. x = v \<and> c' = c\<lparr>bc_visited_pages := pid # bc_visited_pages c\<rparr>)
    (cursor_load rv pid expected parent (c, r))"
proof -
  obtain x r' where rd: "rv_read_page rv (unat pid) r = (x, r')" by (metis surj_pair)
  note law = read_page [OF assms(1) rd]
  show ?thesis
  proof (cases x)
    case (Inl e)
    then have "read_fails rv ok pages r e r'" using assms(1,2) rd by (auto simp: read_fails_def intro: pages_kept_refl)
    with Inl rd law assms(3) show ?thesis by (simp add: cursor_load_def yields_def bind_op_def on_reader_def)
  next
    case (Inr p)
    then have "p = page" using law assms(2) by simp
    with Inr rd law assms(3-7) show ?thesis
      by (simp add: cursor_load_def yields_def bind_op_def on_reader_def lift_op_def return_op_def view_open_def)
  qed
qed

text \<open>Going down to the leaf where the bound is, with the siblings of every child on the way left ahead.\<close>

lemma seek_yields:
  assumes "holds_tree P tree_id generation req level parent pid pids kvs"
    and "ok r" "pages_kept P (pages r)" "rv_requires_view_generation rv r = req"
    and "bc_tree_id c = tree_id" "cursor_view_generation (bc_view c) = generation"
    and "ahead P tree_id generation req (bc_backward c) level (bc_path c) upids ukvs"
    and "distinct (pids @ upids)" "set (pids @ upids) \<inter> set (bc_visited_pages c) = {}"
    and "length (bc_path c) + level < MAX_TREE_DEPTH" "level < steps" "expected = None \<or> expected = Some (of_nat level)"
  shows "yields rv ok pages r
    (\<lambda>_ c'. cursor_at P req c' (dir (bc_backward c) (filter (\<lambda>e. within (bc_backward c) bound (fst e)) kvs) @ ukvs) \<and> same_scan c c')
    (seek_loop rv bound (bc_backward c) steps pid expected parent (c, r))"
  using assms
proof (induction arbitrary: r c steps expected upids ukvs rule: holds_tree.induct)
  case (holds_leaf pid page n parent es kvs)
  let ?b = "bc_backward c" and ?c = "c\<lparr>bc_visited_pages := pid # bc_visited_pages c\<rparr>"
  obtain v where v: "view_from_payload page tree_id generation (req (unat pid)) = Inr v" "views_header v page n"
    and kind: "case nd_kind n of LeafNode es \<Rightarrow> views_leaf v es | InternalNode m \<Rightarrow> views_internal v m"
    by (rule view_of_decoded [OF holds_leaf.hyps(2)])
  then have leaf: "views_leaf v es" using holds_leaf.hyps(4) by simp
  obtain s where s: "steps = Suc s" using holds_leaf.prems(10) by (cases steps) auto
  have keys: "map fst kvs = map le_key es"
    using holds_leaf.hyps(5) by (induction rule: list_all2_induct) auto
  obtain i where i: "i \<le> length es" "seek_leaf_index bound ?b v = Inr i"
    "filter (\<lambda>e. within ?b bound (fst e)) kvs = (if ?b then take i kvs else drop i kvs)"
    using seek_leaf_ok [OF leaf keys] by blast
  have load: "yields rv ok pages r (\<lambda>x c'. x = v \<and> c' = ?c) (cursor_load rv pid expected parent (c, r))"
  proof (rule load_yields)
    show "pages r (unat pid) = Some page" using holds_leaf.hyps(1) holds_leaf.prems(2) by (simp add: pages_kept_def)
    show "validate_expected_level (nv_level v) expected = Inr ()"
      using holds_leaf.prems(11) leaf by (auto simp: validate_expected_level_def views_leaf_def)
    show "validate_child_generation (nv_generation v) parent = Inr ()"
      using holds_leaf.hyps(3) v(2) by (simp add: views_header_def)
  qed (use holds_leaf.prems holds_leaf.hyps(2) v(1) in auto)
  have at: "cursor_at P req (?c\<lparr>bc_leaf_index := i, bc_leaf := Some v\<rparr>)
      (dir ?b (filter (\<lambda>e. within ?b bound (fst e)) kvs) @ ukvs)"
    unfolding cursor_at_def
    by (rule exI [of _ v], rule exI [of _ es], rule exI [of _ kvs], rule exI [of _ upids], rule exI [of _ ukvs])
      (use leaf view_generation_le [OF v(1)] holds_leaf.hyps(5) holds_leaf.prems i in \<open>auto simp: dir_def\<close>)
  show ?case
    unfolding s seek_loop.simps
  proof (rule yields_bind, rule load)
    fix x c' r' assume "x = v \<and> c' = ?c" "ok r'"
    with leaf i(2) at show "yields rv ok pages r'
      (\<lambda>_ c'. cursor_at P req c' (dir ?b (filter (\<lambda>e. within ?b bound (fst e)) kvs) @ ukvs) \<and> same_scan c c')
      ((if nv_leaf x then bind_op (lift_op (seek_leaf_index bound ?b x)) (\<lambda>index.
          change_cursor (\<lambda>c. c\<lparr>bc_leaf_index := index, bc_leaf := Some x\<rparr>))
        else bind_op (lift_op (seek_child_index bound ?b x)) (\<lambda>child_index.
          bind_op (lift_op (view_child x child_index)) (\<lambda>child.
          bind_op (change_cursor (\<lambda>c. c\<lparr>bc_path := (x, child_index) # bc_path c\<rparr>)) (\<lambda>_.
            seek_loop rv bound ?b s child (Some (nv_level x - 1)) (Some (nv_generation x)))))) (c', r'))"
      by (simp add: bind_op_def lift_op_def change_cursor_def views_leaf_def same_scan_def yields_return)
  qed
next
  case (holds_internal pid page n parent m level parts pidss)
  let ?b = "bc_backward c" and ?n = "length (in_entries m)" and ?c = "c\<lparr>bc_visited_pages := pid # bc_visited_pages c\<rparr>"
  let ?f = "filter (\<lambda>e. within (bc_backward c) bound (fst e))"
  obtain v where v: "view_from_payload page tree_id generation (req (unat pid)) = Inr v" "views_header v page n"
    and kind: "case nd_kind n of LeafNode es \<Rightarrow> views_leaf v es | InternalNode m \<Rightarrow> views_internal v m"
    by (rule view_of_decoded [OF holds_internal.hyps(2)])
  then have internal: "views_internal v m" using holds_internal.hyps(4) by simp
  obtain s where s: "steps = Suc s" using holds_internal.prems(10) by (cases steps) auto
  have level: "nv_level v - 1 = of_nat level" "nv_level v = of_nat (Suc level)" and gen: "nv_generation v = nd_generation n"
    using v(2) holds_internal.hyps(5) of_nat_unat_cong [of "nd_level n" "Suc level"] by (simp_all add: views_header_def)
  have "\<exists>i \<le> ?n. seek_child_index bound ?b v = Inr i \<and>
      (\<forall>j < length parts. \<forall>(k, bs) \<in> set (parts ! j). j \<noteq> i \<longrightarrow> within ?b bound k = (if ?b then j < i else i < j))"
    using holds_internal.hyps(9,10) by (intro seek_child_ok [OF internal holds_internal.hyps(6)])
  then obtain i where i: "i \<le> ?n" "seek_child_index bound ?b v = Inr i"
    "\<forall>j < length parts. \<forall>(k, bs) \<in> set (parts ! j). j \<noteq> i \<longrightarrow> within ?b bound k = (if ?b then j < i else i < j)"
    by blast
  have len: "i < length parts" using i(1) holds_internal.hyps(6) by simp
  have child: "view_child v i = Inr (internal_child m i)"
    using internal i(1) by (cases i) (auto simp: views_internal_def internal_child_def)
  let ?pids = "concat (map ((!) pidss) (siblings ?b ?n i))" and ?kvs = "concat (map (\<lambda>j. dir ?b (parts ! j)) (siblings ?b ?n i))"
  have below: "trees P tree_id generation req ?b level (Some (nv_generation v)) (map (internal_child m) (siblings ?b ?n i)) ?pids ?kvs"
    using holds_internal.hyps(6,8) i(1) gen by (intro trees_map) (auto simp: siblings_def split: if_splits)
  have ahead: "ahead P tree_id generation req ?b level ((v, i) # bc_path c) (?pids @ upids) (?kvs @ ukvs)"
    by (rule ahead_node [OF internal level(2) i(1) below holds_internal.prems(6)])
  have "pidss ! i # map ((!) pidss) (siblings ?b ?n i) = from_child ?b i pidss"
    using from_child_nth [of pidss ?n i ?b] holds_internal.hyps(6,7) i(1) by simp
  then have pidss: "pidss ! i @ ?pids = concat (from_child ?b i pidss)" by (metis concat.simps(2))
  have fresh: "distinct ((pidss ! i @ ?pids) @ upids)" "set ((pidss ! i @ ?pids) @ upids) \<inter> set (pid # bc_visited_pages c) = {}"
    unfolding pidss using holds_internal.prems(7,8) distinct_from_child [of pidss ?b i] set_from_child [of ?b i pidss] by (auto simp del: set_concat)
  have load: "yields rv ok pages r (\<lambda>x c'. x = v \<and> c' = ?c) (cursor_load rv pid expected parent (c, r))"
  proof (rule load_yields)
    show "pages r (unat pid) = Some page" using holds_internal.hyps(1) holds_internal.prems(2) by (simp add: pages_kept_def)
    show "validate_expected_level (nv_level v) expected = Inr ()"
      using holds_internal.prems(11) level(2) by (auto simp: validate_expected_level_def)
    show "validate_child_generation (nv_generation v) parent = Inr ()"
      using holds_internal.hyps(3) v(2) by (simp add: views_header_def)
  qed (use holds_internal.prems holds_internal.hyps(2) v(1) in auto)
  show ?case
    unfolding s seek_loop.simps
  proof (rule yields_bind, rule load)
    fix x c' r' assume x: "x = v \<and> c' = ?c" and r': "ok r'" "pages_kept (pages r) (pages r')"
      "rv_requires_view_generation rv r' = rv_requires_view_generation rv r"
    let ?c2 = "?c\<lparr>bc_path := (v, i) # bc_path c\<rparr>"
    have "yields rv ok pages r'
      (\<lambda>_ c'. cursor_at P req c' (dir (bc_backward ?c2) (filter (\<lambda>e. within (bc_backward ?c2) bound (fst e)) (parts ! i)) @ ?kvs @ ukvs)
        \<and> same_scan ?c2 c')
      (seek_loop rv bound (bc_backward ?c2) s (internal_child m i) (Some (of_nat level)) (Some (nd_generation n)) (?c2, r'))"
    proof (rule holds_internal.IH [OF len])
      show "pages_kept P (pages r')" using r'(2) holds_internal.prems(2) by (blast intro: pages_kept_trans)
      show "distinct (pidss ! i @ ?pids @ upids)" "set (pidss ! i @ ?pids @ upids) \<inter> set (bc_visited_pages ?c2) = {}"
        using fresh by (simp_all del: set_concat)
    qed (use r' holds_internal.prems(3-5,9,10) ahead s in auto)
    then have "yields rv ok pages r'
      (\<lambda>_ c'. cursor_at P req c' (dir ?b (?f (concat parts)) @ ukvs) \<and> same_scan c c')
      (seek_loop rv bound ?b s (internal_child m i) (Some (of_nat level)) (Some (nd_generation n)) (?c2, r'))"
      using node_entries [OF holds_internal.hyps(6) i(1,3)] by (auto simp: same_scan_def elim: yields_mono)
    moreover have "\<not> nv_leaf v" using internal by (simp add: views_internal_def)
    ultimately show "yields rv ok pages r'
      (\<lambda>_ c'. cursor_at P req c' (dir ?b (?f (concat parts)) @ ukvs) \<and> same_scan c c')
      ((if nv_leaf x then bind_op (lift_op (seek_leaf_index bound ?b x)) (\<lambda>index.
          change_cursor (\<lambda>c. c\<lparr>bc_leaf_index := index, bc_leaf := Some x\<rparr>))
        else bind_op (lift_op (seek_child_index bound ?b x)) (\<lambda>child_index.
          bind_op (lift_op (view_child x child_index)) (\<lambda>child.
          bind_op (change_cursor (\<lambda>c. c\<lparr>bc_path := (x, child_index) # bc_path c\<rparr>)) (\<lambda>_.
            seek_loop rv bound ?b s child (Some (nv_level x - 1)) (Some (nv_generation x)))))) (c', r'))"
      using x i(2) child level(1) gen by (simp add: bind_op_def lift_op_def change_cursor_def)
  qed
qed

text \<open>Moving to the next leaf.\<close>

lemma advance_loop_yields:
  assumes "ahead P (bc_tree_id c) (cursor_view_generation (bc_view c)) req (bc_backward c) level path pids kvs"
    and "ok r" "pages_kept P (pages r)" "rv_requires_view_generation rv r = req"
    and "distinct pids" "set pids \<inter> set (bc_visited_pages c) = {}" "length path + level < MAX_TREE_DEPTH"
  shows "yields rv ok pages r (\<lambda>moved c'. same_scan c c' \<and> (if moved then cursor_at P req c' kvs else kvs = []))
    (advance_loop rv path (c, r))"
  using assms
proof (induction path arbitrary: level pids kvs)
  case Nil
  then show ?case by (auto simp: yields_def same_scan_def elim: ahead_NilE)
next
  case (Cons node path)
  let ?b = "bc_backward c" and ?t = "bc_tree_id c" and ?g = "cursor_view_generation (bc_view c)"
  obtain v i where node: "node = (v, i)" by (cases node)
  from Cons.prems(1) [unfolded node] obtain m pids1 pids2 kvs1 kvs2 where a: "pids = pids1 @ pids2" "kvs = kvs1 @ kvs2"
    "views_internal v m" "nv_level v = 1 + of_nat level" "i \<le> length (in_entries m)"
    "trees P ?t ?g req ?b level (Some (nv_generation v)) (map (internal_child m) (siblings ?b (length (in_entries m)) i)) pids1 kvs1"
    "ahead P ?t ?g req ?b (Suc level) path pids2 kvs2"
    unfolding ahead_Cons by (elim exE conjE) (rule that)
  have count: "nv_item_count v = length (in_entries m)" using a(3) by (simp add: views_internal_def)
  show ?case
  proof (cases "next_sibling ?b v i")
    case None
    then have "pids1 = []" "kvs1 = []"
      using a(5,6) siblings_step [of i v ?b] by (auto simp: count elim: trees_NilE)
    then have eq: "pids = pids2" "kvs = kvs2" using a(1,2) by simp_all
    have "distinct pids2" "set pids2 \<inter> set (bc_visited_pages c) = {}" using Cons.prems(5,6) by (simp_all add: eq)
    from Cons.IH [OF a(7) Cons.prems(2-4) this] Cons.prems(7) None show ?thesis
      unfolding eq node by (simp split del: if_split)
  next
    case (Some s)
    have le: "s \<le> length (in_entries m)" using next_sibling_le [OF Some] a(5) by (simp add: count)
    have "siblings ?b (length (in_entries m)) i = s # siblings ?b (length (in_entries m)) s"
      using siblings_step [of i v ?b] a(5) Some by (simp add: count)
    with a(6) obtain tpids tkvs spids skvs where t: "pids1 = tpids @ spids" "kvs1 = dir ?b tkvs @ skvs"
      "holds_tree P ?t ?g req level (Some (nv_generation v)) (internal_child m s) tpids tkvs"
      "trees P ?t ?g req ?b level (Some (nv_generation v)) (map (internal_child m) (siblings ?b (length (in_entries m)) s)) spids skvs"
      by (auto simp: trees_Cons)
    have child: "view_child v s = Inr (internal_child m s)"
      using a(3) le by (cases s) (auto simp: views_internal_def internal_child_def)
    have level: "nv_level v - 1 = of_nat level" using a(4) by simp
    let ?c = "c\<lparr>bc_path := (v, s) # path\<rparr>"
    have ahead: "ahead P ?t ?g req ?b level ((v, s) # path) (spids @ pids2) (skvs @ kvs2)"
      using a(4) by (intro ahead_node [OF a(3) _ le t(4) a(7)]) simp
    have seek: "yields rv ok pages r
      (\<lambda>_ c'. cursor_at P req c' (dir (bc_backward ?c) (filter (\<lambda>e. within (bc_backward ?c) None (fst e)) tkvs) @ skvs @ kvs2)
        \<and> same_scan ?c c')
      (seek_loop rv None (bc_backward ?c) (MAX_TREE_DEPTH - length (bc_path ?c)) (internal_child m s) (Some (of_nat level))
        (Some (nv_generation v)) (?c, r))"
      by (rule seek_yields [OF t(3) Cons.prems(2-4)])
        (use Cons.prems(5-7) ahead in \<open>auto simp: a(1,2) t(1,2) node\<close>)
    have "yields rv ok pages r (\<lambda>moved c'. same_scan c c' \<and> (if moved then cursor_at P req c' kvs else kvs = []))
        (bind_op (seek_loop rv None (bc_backward ?c) (MAX_TREE_DEPTH - length (bc_path ?c)) (internal_child m s) (Some (of_nat level))
          (Some (nv_generation v))) (\<lambda>_. return_op True) (?c, r))"
      by (rule yields_bind, rule seek)
        (simp add: return_op_def yields_return a(2) t(2) within_def same_scan_def)
    then show ?thesis
      using Some child level by (simp add: node bind_op_def lift_op_def change_cursor_def descend_edge_def descend_seek)
  qed
qed

lemma cursor_at_leaf:
  assumes "cursor_at P req c rem" "\<not> leaf_remaining c"
  obtains pids where "ahead P (bc_tree_id c) (cursor_view_generation (bc_view c)) req (bc_backward c) 0 (bc_path c) pids rem"
    "distinct pids" "set pids \<inter> set (bc_visited_pages c) = {}" "length (bc_path c) < MAX_TREE_DEPTH"
proof -
  from assms(1) obtain v es lkvs pids kvs where c: "bc_leaf c = Some v" "views_leaf v es"
    "list_all2 (\<lambda>e (k, bs). k = le_key e \<and> holds_value P (bc_tree_id c) (le_value e) bs) es lkvs" "bc_leaf_index c \<le> length es"
    "ahead P (bc_tree_id c) (cursor_view_generation (bc_view c)) req (bc_backward c) 0 (bc_path c) pids kvs"
    "distinct pids" "set pids \<inter> set (bc_visited_pages c) = {}" "length (bc_path c) < MAX_TREE_DEPTH"
    "rem = (if bc_backward c then rev (take (bc_leaf_index c) lkvs) else drop (bc_leaf_index c) lkvs) @ kvs"
    unfolding cursor_at_def by blast
  have "length lkvs = length es" "nv_item_count v = length es"
    using c(2,3) by (simp_all add: list_all2_lengthD views_leaf_def)
  then have "rem = kvs" using assms(2) c(1,4,9) by (auto simp: leaf_remaining_def split: if_splits)
  with c(5-8) that show thesis by blast
qed

lemma advance_yields:
  assumes "cursor_at P req c rem" "\<not> leaf_remaining c" "ok r" "pages_kept P (pages r)" "rv_requires_view_generation rv r = req"
  shows "yields rv ok pages r (\<lambda>moved c'. same_scan c c' \<and> (if moved then cursor_at P req c' rem else rem = [])) (advance_leaf rv (c, r))"
proof -
  obtain pids where "ahead P (bc_tree_id c) (cursor_view_generation (bc_view c)) req (bc_backward c) 0 (bc_path c) pids rem"
    "distinct pids" "set pids \<inter> set (bc_visited_pages c) = {}" "length (bc_path c) < MAX_TREE_DEPTH"
    by (rule cursor_at_leaf [OF assms(1,2)])
  from advance_loop_yields [OF this(1) assms(3-5) this(2,3)] this(4) show ?thesis by (simp add: advance_leaf_def)
qed

lemma next_leaf_yields:
  assumes "cursor_at P req c rem" "ok r" "pages_kept P (pages r)" "rv_requires_view_generation rv r = req"
  shows "yields rv ok pages r (\<lambda>more c'. if rem = [] then \<not> more \<and> bc_finished c'
      else more \<and> cursor_at P req c' rem \<and> leaf_remaining c' \<and> same_scan c c')
    (next_leaf_loop rv (c, r))"
  using assms
proof (induction "card (- set (bc_visited_pages c))" arbitrary: c r rule: less_induct)
  case less
  let ?Q = "\<lambda>c more c'. if rem = [] then \<not> more \<and> bc_finished c' else more \<and> cursor_at P req c' rem \<and> leaf_remaining c' \<and> same_scan c c'"
  show ?case
  proof (cases "leaf_remaining c")
    case True
    have "rem \<noteq> []" using less.prems(1) True
      by (auto simp: cursor_at_def leaf_remaining_def views_leaf_def dest: list_all2_lengthD split: if_splits)
    with True less.prems show ?thesis by (simp add: next_leaf_loop.simps yields_return)
  next
    case False
    note adv = advance_yields [OF less.prems(1) False less.prems(2-4)]
    obtain y c' r' where step: "advance_leaf rv (c, r) = (y, (c', r'))" by (metis surj_pair)
    have r': "ok r'" "pages_kept P (pages r')" "rv_requires_view_generation rv r' = req"
      "pages_kept (pages r) (pages r')" "rv_cursor_view rv r' = rv_cursor_view rv r"
      using adv less.prems(3,4) by (auto simp: step yields_def intro: pages_kept_trans)
    show ?thesis
    proof (cases y)
      case (Inl e)
      with adv False step show ?thesis by (simp add: next_leaf_loop.simps yields_def)
    next
      case (Inr moved)
      show ?thesis
      proof (cases moved)
        case True
        with adv step Inr have at: "cursor_at P req c' rem" "same_scan c c'" by (simp_all add: yields_def)
        have "card (- set (bc_visited_pages c')) < card (- set (bc_visited_pages c))"
          using advance_measure step Inr True by metis
        from less.hyps [OF this at(1) r'(1-3)] have "yields rv ok pages r' (?Q c') (next_leaf_loop rv (c', r'))" .
        then have "yields rv ok pages r' (?Q c) (next_leaf_loop rv (c', r'))"
          by (rule yields_mono) (use at(2) in \<open>auto intro: same_scan_trans split: if_splits\<close>)
        moreover have "next_leaf_loop rv (c, r) = next_leaf_loop rv (c', r')"
          using False step Inr True by (subst next_leaf_loop.simps) simp
        ultimately show ?thesis using r'(4,5) less.prems(4) r'(3)
          by (auto simp: yields_def intro: pages_kept_trans read_fails_later [of pages r r']
              split: prod.splits sum.splits split del: if_split)
      next
        case no: False
        with adv step Inr False r' less.prems(4) show ?thesis by (simp add: next_leaf_loop.simps yields_def)
      qed
    qed
  qed
qed

text \<open>Reading the entry the cursor is at.\<close>

lemma read_cell_reads:
  assumes "ok r" "pages_kept P (pages r)" "views_leaf v es" "i < length es" "holds_value P tree_id (le_value (es ! i)) bs"
    "nv_generation v \<le> generation"
  shows "reads_to rv ok pages (le_key (es ! i), bs) r (read_cell rv v tree_id generation i r)"
proof -
  have cell: "leaf_cell v i = Inr (le_key (es ! i), le_value (es ! i))"
    and inline: "inline_leaf_cell v i =
      (case le_value (es ! i) of InlineValue b \<Rightarrow> Some (le_key (es ! i), b) | OverflowValue _ \<Rightarrow> None)"
    using assms(3,4) by (simp_all add: views_leaf_def)
  show ?thesis
  proof (cases "le_value (es ! i)")
    case (InlineValue b)
    then show ?thesis using assms(5) inline reads_to_Inr [OF assms(1)] by (simp add: read_cell_def bind_op_def lift_op_def return_op_def)
  next
    case (OverflowValue d)
    have d: "validate_overflow_descriptor d (nv_generation v) = Inr ()"
      using cell OverflowValue by (auto simp: leaf_cell_def Let_def and_then_eq_Inr split: if_splits)
    then have "od_generation d \<le> nv_generation v"
      by (auto simp: validate_overflow_descriptor_def and_then_eq_Inr Let_def not_less split: if_splits)
    then have "od_generation d \<le> generation" using assms(6) by simp
    with overflow_chain_reads [OF assms(1,2) _ d this] assms(5) OverflowValue obtain pids where
      chain: "reads_to rv ok pages (bs, pids) r (read_overflow_chain rv tree_id generation (nv_generation v) d r)"
      by auto
    have "reads_to rv ok pages (le_key (es ! i), bs) r (bind_op (read_overflow_chain rv tree_id generation (nv_generation v) d)
        (\<lambda>(chained, _). return_op (le_key (es ! i), chained)) r)"
      using chain by (rule reads_to_bind) (simp add: reads_to_Inr)
    then show ?thesis using inline cell OverflowValue by (simp add: read_cell_def bind_op_def lift_op_def)
  qed
qed

lemma yields_of_reads:
  assumes "reads_to rv ok pages x r (m r)"
  shows "yields rv ok pages r (\<lambda>y c'. y = x \<and> c' = c) (on_reader m (c, r))"
proof -
  obtain y r' where m: "m r = (y, r')" by (metis surj_pair)
  show ?thesis using assms by (auto simp: m on_reader_def yields_def reads_to_def split: sum.splits)
qed

lemma next_in_leaf_yields:
  assumes "cursor_at P req c rem" "leaf_remaining c" "ok r" "pages_kept P (pages r)"
  shows "yields rv ok pages r (\<lambda>x c'. x = Some (hd rem) \<and> cursor_at P req c' (tl rem) \<and> same_scan c c') (next_in_leaf rv (c, r))"
proof -
  from assms(1) obtain v es lkvs pids kvs where c: "bc_leaf c = Some v" "views_leaf v es"
    "nv_generation v \<le> cursor_view_generation (bc_view c)"
    "list_all2 (\<lambda>e (k, bs). k = le_key e \<and> holds_value P (bc_tree_id c) (le_value e) bs) es lkvs" "bc_leaf_index c \<le> length es"
    "ahead P (bc_tree_id c) (cursor_view_generation (bc_view c)) req (bc_backward c) 0 (bc_path c) pids kvs"
    "distinct pids" "set pids \<inter> set (bc_visited_pages c) = {}" "length (bc_path c) < MAX_TREE_DEPTH"
    "rem = (if bc_backward c then rev (take (bc_leaf_index c) lkvs) else drop (bc_leaf_index c) lkvs) @ kvs"
    unfolding cursor_at_def by blast
  have len: "length lkvs = length es" and count: "nv_item_count v = length es"
    using c(2,4) by (simp_all add: list_all2_lengthD views_leaf_def)
  define i where "i = (if bc_backward c then bc_leaf_index c - 1 else bc_leaf_index c)"
  have i: "i < length es" using assms(2) c(1,5) by (auto simp: i_def leaf_remaining_def count split: if_splits)
  let ?next = "\<lambda>c. c\<lparr>bc_leaf_index := (if bc_backward c then i else i + 1)\<rparr>"
  have entry: "le_key (es ! i) = fst (lkvs ! i)" "holds_value P (bc_tree_id c) (le_value (es ! i)) (snd (lkvs ! i))"
    using list_all2_nthD [OF c(4) i] by (cases "lkvs ! i"; simp)+
  have rem: "rem = lkvs ! i # (if bc_backward c then rev (take i lkvs) else drop (Suc i) lkvs) @ kvs"
  proof (cases "bc_backward c")
    case True
    then have "bc_leaf_index c = Suc i" using assms(2) by (simp add: i_def leaf_remaining_def)
    with True c(10) i len show ?thesis by (simp add: take_Suc_conv_app_nth)
  next
    case False
    with c(10) i len show ?thesis by (simp add: i_def Cons_nth_drop_Suc)
  qed
  have at: "cursor_at P req (?next c) (tl rem)"
    unfolding cursor_at_def
    by (rule exI [of _ v], rule exI [of _ es], rule exI [of _ lkvs], rule exI [of _ pids], rule exI [of _ kvs])
      (use c i rem in auto)
  have read: "yields rv ok pages r (\<lambda>y c'. y = hd rem \<and> c' = c)
      (on_reader (read_cell rv v (bc_tree_id c) (cursor_view_generation (bc_view c)) i) (c, r))"
    using yields_of_reads [where m = "read_cell rv v (bc_tree_id c) (cursor_view_generation (bc_view c)) i",
        OF read_cell_reads [OF assms(3,4) c(2) i entry(2) c(3)]] entry(1) rem by simp
  have "yields rv ok pages r (\<lambda>x c'. x = Some (hd rem) \<and> cursor_at P req c' (tl rem) \<and> same_scan c c')
      (bind_op (on_reader (read_cell rv v (bc_tree_id c) (cursor_view_generation (bc_view c)) i)) (\<lambda>entry.
        bind_op (change_cursor (\<lambda>c. c\<lparr>bc_leaf_index := (if bc_backward c then i else i + 1)\<rparr>)) (\<lambda>_. return_op (Some entry))) (c, r))"
    by (rule yields_bind, rule read)
      (use at in \<open>auto simp: bind_op_def change_cursor_def return_op_def same_scan_def intro!: yields_return\<close>)
  moreover have "(if bc_backward c then (if 0 < bc_leaf_index c then Some (bc_leaf_index c - 1) else None)
      else if bc_leaf_index c < nv_item_count v then Some (bc_leaf_index c) else None) = Some i"
    using assms(2) c(1) by (auto simp: i_def leaf_remaining_def split: if_splits)
  ultimately show ?thesis using c(1) by (simp add: next_in_leaf_def del: One_nat_def split del: if_split)
qed

lemma next_yields:
  assumes "scanning rv P r c rem" "ok r" "pages_kept P (pages r)"
  shows "yields rv ok pages r (\<lambda>x c'. case rem of
      [] \<Rightarrow> x = None \<and> bc_finished c'
    | e # rest \<Rightarrow> x = Some e \<and> scanning rv P r c' rest) (next_from rv (c, r))"
proof (cases "bc_finished c")
  case True
  then show ?thesis using assms by (auto simp: scanning_def next_from_def next_leaf_from_def bind_op_def return_op_def intro!: yields_return)
next
  case False
  then have s: "rv_cursor_view rv r (bc_tree_id c) = Inr (bc_view c)" "cursor_at P (rv_requires_view_generation rv r) c rem"
    using assms(1) by (simp_all add: scanning_def)
  have leaf: "yields rv ok pages r (\<lambda>more c'. if rem = [] then \<not> more \<and> bc_finished c'
      else more \<and> cursor_at P (rv_requires_view_generation rv r) c' rem \<and> leaf_remaining c' \<and> same_scan c c')
    (next_leaf_from rv (c, r))"
    using next_leaf_yields [OF s(2) assms(2,3) refl] False s(1)
    by (simp add: next_leaf_from_def bind_op_def ensure_view_def split del: if_split)
  show ?thesis
    unfolding next_from_def
  proof (rule yields_bind, rule leaf)
    fix more c' r' assume q: "if rem = [] then \<not> more \<and> bc_finished c'
        else more \<and> cursor_at P (rv_requires_view_generation rv r) c' rem \<and> leaf_remaining c' \<and> same_scan c c'"
      and r': "ok r'" "pages_kept (pages r) (pages r')" "rv_cursor_view rv r' = rv_cursor_view rv r"
      "rv_requires_view_generation rv r' = rv_requires_view_generation rv r"
    show "yields rv ok pages r' (\<lambda>x c'. case rem of [] \<Rightarrow> x = None \<and> bc_finished c' | e # rest \<Rightarrow> x = Some e \<and> scanning rv P r c' rest)
        ((if \<not> more then return_op None else next_in_leaf rv) (c', r'))"
    proof (cases rem)
      case Nil
      with q r'(1) show ?thesis by (simp add: return_op_def yields_return)
    next
      case (Cons e rest)
      with q have at: "more" "cursor_at P (rv_requires_view_generation rv r) c' rem" "leaf_remaining c'" "same_scan c c'" by simp_all
      have "yields rv ok pages r' (\<lambda>x c''. x = Some (hd rem) \<and> cursor_at P (rv_requires_view_generation rv r) c'' (tl rem) \<and> same_scan c' c'')
          (next_in_leaf rv (c', r'))"
        by (rule next_in_leaf_yields [OF at(2,3) r'(1) pages_kept_trans [OF assms(3) r'(2)]])
      then show ?thesis
        using at(1,4) False s(1) Cons by (auto simp: scanning_def same_scan_def elim!: yields_mono)
    qed
  qed
qed

text \<open>Opening a cursor and taking entries from it.\<close>

lemma entries_yield:
  "scanning rv P r c rem \<Longrightarrow> ok r \<Longrightarrow> pages_kept P (pages r) \<Longrightarrow>
    yields rv ok pages r (\<lambda>es c'. es = take n rem) (next_entries rv n (c, r))"
proof (induction n arbitrary: r c rem)
  case 0
  then show ?case by (simp add: return_op_def yields_return)
next
  case (Suc n)
  show ?case
    unfolding next_entries.simps
  proof (rule yields_bind, rule next_yields [OF Suc.prems])
    fix x c' r' assume q: "case rem of [] \<Rightarrow> x = None \<and> bc_finished c' | e # rest \<Rightarrow> x = Some e \<and> scanning rv P r c' rest"
      and r': "ok r'" "pages_kept (pages r) (pages r')" "rv_cursor_view rv r' = rv_cursor_view rv r"
      "rv_requires_view_generation rv r' = rv_requires_view_generation rv r"
    show "yields rv ok pages r' (\<lambda>es c'. es = take (Suc n) rem)
        ((case x of None \<Rightarrow> return_op [] | Some e \<Rightarrow> bind_op (next_entries rv n) (\<lambda>es. return_op (e # es))) (c', r'))"
    proof (cases rem)
      case Nil
      with q r'(1) show ?thesis by (simp add: return_op_def yields_return)
    next
      case (Cons e rest)
      with q have x: "x = Some e" and "scanning rv P r' c' rest" by (simp_all add: scanning_def r'(3,4))
      note ih = Suc.IH [OF this(2) r'(1) pages_kept_trans [OF Suc.prems(3) r'(2)]]
      have "yields rv ok pages r' (\<lambda>es c'. es = take (Suc n) rem) (bind_op (next_entries rv n) (\<lambda>es. return_op (e # es)) (c', r'))"
        by (rule yields_bind, rule ih) (simp add: Cons return_op_def yields_return)
      with x show ?thesis by simp
    qed
  qed
qed

theorem scan_reads:
  assumes "ok r" "validate_tree_id tree_id = Inr ()" "\<And>b. bound = Some b \<Longrightarrow> validate_key b = Inr ()"
    "rv_cursor_view rv r tree_id = Inr view" "level < MAX_TREE_DEPTH" "distinct pids"
    "holds_tree (pages r) tree_id (cursor_view_generation view) (rv_requires_view_generation rv r) level None root pids kvs"
  shows "reads_to rv ok pages (take n (dir backward (filter (\<lambda>e. within backward bound (fst e)) kvs))) r
    (cursor_scan rv root tree_id bound backward strict n r)"
proof -
  let ?c = "\<lparr>bc_tree_id = tree_id, bc_root_page_id = root, bc_view = view, bc_path = [], bc_leaf = None,
    bc_leaf_index = 0, bc_finished = False, bc_visited_pages = [], bc_backward = backward, bc_strict = strict\<rparr>"
  let ?rem = "dir backward (filter (\<lambda>e. within backward bound (fst e)) kvs)"
  have "yields rv ok pages r (\<lambda>_ c'. cursor_at (pages r) (rv_requires_view_generation rv r) c'
      (dir (bc_backward ?c) (filter (\<lambda>e. within (bc_backward ?c) bound (fst e)) kvs) @ []) \<and> same_scan ?c c')
    (seek_loop rv bound (bc_backward ?c) MAX_TREE_DEPTH root None None (?c, r))"
    by (rule seek_yields [OF assms(7,1)]) (use assms(5,6) in \<open>auto intro: ahead_root\<close>)
  then have seek: "yields rv ok pages r (\<lambda>_ c'. scanning rv (pages r) r c' ?rem) (seek rv bound (?c, r))"
    using assms(4)
    by (auto simp: seek_def bind_op_def ensure_view_def change_cursor_def scanning_def same_scan_def elim: yields_mono)
  obtain y c' r' where s: "seek rv bound (?c, r) = (y, (c', r'))" by (metis surj_pair)
  have open_eq: "open_cursor rv root tree_id bound backward strict r = (case y of Inl e \<Rightarrow> (Inl e, r') | Inr _ \<Rightarrow> (Inr c', r'))"
    using assms(2-4) s by (auto simp: open_cursor_def bind_op_def lift_op_def split: option.splits sum.splits)
  show ?thesis
  proof (cases y)
    case (Inl e)
    with seek s open_eq show ?thesis by (simp add: cursor_scan_def yields_def reads_to_def)
  next
    case (Inr u)
    from seek s Inr have r': "ok r'" "pages_kept (pages r) (pages r')" "rv_cursor_view rv r' = rv_cursor_view rv r"
      "rv_requires_view_generation rv r' = rv_requires_view_generation rv r" "scanning rv (pages r) r' c' ?rem"
      by (simp_all add: yields_def scanning_def)
    obtain z c'' r'' where n: "next_entries rv n (c', r') = (z, (c'', r''))" by (metis surj_pair)
    from entries_yield [OF r'(5,1,2), of n] n r' Inr open_eq show ?thesis
      by (auto simp: cursor_scan_def yields_def reads_to_def intro: pages_kept_trans read_fails_later [of pages r r'] split: sum.splits)
  qed
qed

end

end
