(* ===== verification/Cache.thy ===== *)
theory Cache
  imports Bitmap Device
begin

text \<open>
  \<^verbatim>\<open>cache.rs\<close>: the bounded page cache between the pager and the device. The entries, the lookup into
  them, the reservations of the write candidate, the clock hand of eviction and the device are one
  record; the operations take the device's operations as their first argument.

  An index the lookup gives is written \<open>entries ! index\<close>, as the code indexes its vector: the invariant
  \<open>index_ok\<close> shows that it is always in range. The reservations are an association list, as one hash
  map order; nothing proved depends on which.
\<close>

section \<open>State\<close>

datatype owner = Committed | Candidate nat

record cache_entry =
  ce_id :: nat
  ce_owner :: owner
  ce_bytes :: bytes
  ce_referenced :: bool
  ce_dirty :: bool
  ce_unsealed :: bool

record reservation =
  rv_candidate :: nat
  rv_written :: bool

record 'd page_cache =
  pc_device :: 'd
  pc_entries :: "cache_entry list"
  pc_lookup :: "owner \<times> nat \<Rightarrow> nat option"
  pc_reservations :: "(nat \<times> reservation) list"
  pc_unflushed_owners :: "owner list"
  pc_capacity :: nat
  pc_hand :: nat

definition MAX_WRITE_RUN_PAGES :: nat where "MAX_WRITE_RUN_PAGES = 256"
definition DEFAULT_PAGE_CACHE_BYTES :: nat where "DEFAULT_PAGE_CACHE_BYTES = 16 * 1024 * 1024"
definition MAX_PAGE_CACHE_BYTES :: nat where "MAX_PAGE_CACHE_BYTES = 32 * 1024 * 1024"

definition entry_key :: "cache_entry \<Rightarrow> owner \<times> nat" where
  "entry_key e = (ce_owner e, ce_id e)"

definition seal_entry :: "cache_entry \<Rightarrow> cache_entry" where
  "seal_entry e = (if ce_unsealed e then e\<lparr>ce_bytes := seal (ce_bytes e), ce_unsealed := False\<rparr> else e)"

definition cache_with_capacity :: "'d \<Rightarrow> nat \<Rightarrow> 'd page_cache res" where
  "cache_with_capacity device capacity_bytes =
     (if \<not> (PAGE_SIZE \<le> capacity_bytes \<and> capacity_bytes \<le> MAX_PAGE_CACHE_BYTES)
         \<or> \<not> PAGE_SIZE dvd capacity_bytes
      then Inl PAGE_CACHE_ERROR
      else Inr \<lparr>pc_device = device, pc_entries = [], pc_lookup = Map.empty, pc_reservations = [],
                pc_unflushed_owners = [], pc_capacity = capacity_bytes div PAGE_SIZE, pc_hand = 0\<rparr>)"

text \<open>A device operation of the cache's device.\<close>

definition on_device :: "('d, 'a) op \<Rightarrow> ('d page_cache, 'a) op" where
  "on_device m c = (case m (pc_device c) of (r, d') \<Rightarrow> (r, c\<lparr>pc_device := d'\<rparr>))"

definition set_entry :: "nat \<Rightarrow> cache_entry \<Rightarrow> 'd page_cache \<Rightarrow> 'd page_cache" where
  "set_entry index e c = c\<lparr>pc_entries := (pc_entries c)[index := e]\<rparr>"

definition get_reservation :: "'d page_cache \<Rightarrow> nat \<Rightarrow> reservation option" where
  "get_reservation c pid = map_of (pc_reservations c) pid"

section \<open>Writing entries to the device\<close>

definition push_unflushed :: "owner \<Rightarrow> 'd page_cache \<Rightarrow> 'd page_cache" where
  "push_unflushed own c =
     (if own \<in> set (pc_unflushed_owners c) then c
      else c\<lparr>pc_unflushed_owners := pc_unflushed_owners c @ [own]\<rparr>)"

text \<open>\<^verbatim>\<open>for placeholder in device.page_count()..id\<close>: the count is read once, before the loop.\<close>

definition write_placeholders :: "'d page_device_ops \<Rightarrow> nat \<Rightarrow> ('d page_cache, unit) op" where
  "write_placeholders ops pid c =
     for_op [dev_page_count ops (pc_device c)..<pid]
       (\<lambda>placeholder. on_device (dev_write_page ops placeholder (replicate PAGE_SIZE 0))) c"

definition mark_clean :: "nat \<Rightarrow> 'd page_cache \<Rightarrow> 'd page_cache" where
  "mark_clean index c =
     (let e = pc_entries c ! index
      in push_unflushed (ce_owner e) (set_entry index (e\<lparr>ce_dirty := False\<rparr>) c))"

definition write_entry :: "'d page_device_ops \<Rightarrow> nat \<Rightarrow> ('d page_cache, unit) op" where
  "write_entry ops index c =
     (let entry = seal_entry (pc_entries c ! index); c = set_entry index entry c
      in bind_op (write_placeholders ops (ce_id entry)) (\<lambda>_.
         bind_op (on_device (dev_write_page ops (ce_id entry) (ce_bytes entry))) (\<lambda>_ c.
           (Inr (), mark_clean index c))) c)"

definition cache_write_run :: "'d page_device_ops \<Rightarrow> nat list \<Rightarrow> bytes \<Rightarrow> ('d page_cache, unit) op" where
  "cache_write_run ops run bs c =
     (case run of [] \<Rightarrow> (Inr (), c)
      | index # _ \<Rightarrow>
          let first = ce_id (pc_entries c ! index)
          in bind_op (write_placeholders ops first) (\<lambda>_.
             bind_op (on_device (dev_write_pages ops first bs)) (\<lambda>_ c.
               (Inr (), fold mark_clean run c))) c)"

section \<open>Eviction\<close>

fun find_victim_loop :: "'d page_device_ops \<Rightarrow> nat \<Rightarrow> ('d page_cache, nat) op" where
  "find_victim_loop ops 0 c = (Inl PAGE_CACHE_ERROR, c)"
| "find_victim_loop ops (Suc attempts) c =
     (let index = pc_hand c;
          c = c\<lparr>pc_hand := (pc_hand c + 1) mod length (pc_entries c)\<rparr>;
          entry = pc_entries c ! index
      in if ce_referenced entry
         then find_victim_loop ops attempts (set_entry index (entry\<lparr>ce_referenced := False\<rparr>) c)
         else if ce_dirty entry
         then bind_op (write_entry ops index) (\<lambda>_. return_op index) c
         else (Inr index, c))"

definition find_victim :: "'d page_device_ops \<Rightarrow> ('d page_cache, nat) op" where
  "find_victim ops c = find_victim_loop ops (length (pc_entries c) * 2) c"

definition cache_insert :: "'d page_device_ops \<Rightarrow> cache_entry \<Rightarrow> ('d page_cache, nat) op" where
  "cache_insert ops entry c =
     (if length (pc_entries c) < pc_capacity c
      then let index = length (pc_entries c)
           in (Inr index, c\<lparr>pc_lookup := (pc_lookup c)(entry_key entry \<mapsto> index),
                            pc_entries := pc_entries c @ [entry]\<rparr>)
      else bind_op (find_victim ops) (\<lambda>index c.
        let previous = pc_entries c ! index
        in (Inr index,
            c\<lparr>pc_lookup := ((pc_lookup c)(entry_key previous := None))(entry_key entry \<mapsto> index),
              pc_entries := (pc_entries c)[index := entry],
              pc_hand := (index + 1) mod length (pc_entries c)\<rparr>)) c)"

text \<open>\<^verbatim>\<open>Vec::swap_remove\<close>: the last element takes the removed one's place.\<close>

definition swap_remove :: "'a list \<Rightarrow> nat \<Rightarrow> 'a list" where
  "swap_remove xs index =
     (if index < length (butlast xs) then (butlast xs)[index := last xs] else butlast xs)"

definition remove_entry :: "owner \<times> nat \<Rightarrow> 'd page_cache \<Rightarrow> 'd page_cache" where
  "remove_entry key c =
     (case pc_lookup c key of None \<Rightarrow> c
      | Some index \<Rightarrow>
          let looks = (pc_lookup c)(key := None);
              entries = swap_remove (pc_entries c) index;
              looks = (if index < length entries then looks(entry_key (entries ! index) \<mapsto> index) else looks);
              hand = (if length entries \<le> pc_hand c then 0 else pc_hand c)
          in c\<lparr>pc_lookup := looks, pc_entries := entries, pc_hand := hand\<rparr>)"

section \<open>Reads and writes by an owner\<close>

definition ensure_not_reserved :: "'d page_cache \<Rightarrow> nat \<Rightarrow> unit res" where
  "ensure_not_reserved c pid =
     (case get_reservation c pid of Some _ \<Rightarrow> Inl PAGE_CACHE_ERROR | None \<Rightarrow> Inr ())"

definition ensure_reserved_by :: "'d page_cache \<Rightarrow> nat \<Rightarrow> nat \<Rightarrow> unit res" where
  "ensure_reserved_by c candidate pid =
     (case get_reservation c pid of
        Some r \<Rightarrow> if rv_candidate r = candidate then Inr () else Inl PAGE_CACHE_ERROR
      | None \<Rightarrow> Inl PAGE_CACHE_ERROR)"

definition read_owned ::
  "'d page_device_ops \<Rightarrow> owner \<Rightarrow> nat \<Rightarrow> (bytes \<Rightarrow> unit res) \<Rightarrow> ('d page_cache, bytes) op" where
  "read_owned ops own pid verify c =
     (case pc_lookup c (own, pid) of
        Some index \<Rightarrow>
          let e = pc_entries c ! index
          in (Inr (ce_bytes e), set_entry index (e\<lparr>ce_referenced := True\<rparr>) c)
      | None \<Rightarrow>
          bind_op (on_device (dev_read_page ops pid)) (\<lambda>bs.
          bind_op (lift_op (verify bs)) (\<lambda>_.
          bind_op (cache_insert ops \<lparr>ce_id = pid, ce_owner = own, ce_bytes = bs, ce_referenced = True,
                                      ce_dirty = False, ce_unsealed = False\<rparr>) (\<lambda>index c.
            (Inr (ce_bytes (pc_entries c ! index)), c)))) c)"

definition write_owned ::
  "'d page_device_ops \<Rightarrow> owner \<Rightarrow> nat \<Rightarrow> bytes \<Rightarrow> bool \<Rightarrow> ('d page_cache, unit) op" where
  "write_owned ops own pid bs unsealed c =
     (if length bs \<noteq> PAGE_SIZE then (Inl PAGE_CACHE_ERROR, c)
      else case pc_lookup c (own, pid) of
        Some index \<Rightarrow>
          (Inr (), set_entry index ((pc_entries c ! index)\<lparr>ce_bytes := bs, ce_referenced := True,
                                      ce_dirty := True, ce_unsealed := unsealed\<rparr>) c)
      | None \<Rightarrow>
          bind_op (cache_insert ops \<lparr>ce_id = pid, ce_owner = own, ce_bytes = bs, ce_referenced = True,
                                      ce_dirty = True, ce_unsealed = unsealed\<rparr>) (\<lambda>_. return_op ()) c)"

definition read_page_verified ::
  "'d page_device_ops \<Rightarrow> nat \<Rightarrow> (bytes \<Rightarrow> unit res) \<Rightarrow> ('d page_cache, bytes) op" where
  "read_page_verified ops pid verify c =
     bind_op (lift_op (ensure_not_reserved c pid)) (\<lambda>_. read_owned ops Committed pid verify) c"

definition cached_index :: "'d page_cache \<Rightarrow> nat \<Rightarrow> nat option" where
  "cached_index c pid =
     (if pc_reservations c \<noteq> [] then None
      else case pc_lookup c (Committed, pid) of
        None \<Rightarrow> None
      | Some index \<Rightarrow> if index < length (pc_entries c) then Some index else None)"

definition cached_page :: "nat \<Rightarrow> 'd page_cache \<Rightarrow> bytes \<times> 'd page_cache" where
  "cached_page index c =
     (let entry = pc_entries c ! index
      in (ce_bytes entry, set_entry index (entry\<lparr>ce_referenced := True\<rparr>) c))"

definition read_candidate_page_verified ::
  "'d page_device_ops \<Rightarrow> nat \<Rightarrow> nat \<Rightarrow> (bytes \<Rightarrow> unit res) \<Rightarrow> ('d page_cache, bytes) op" where
  "read_candidate_page_verified ops candidate pid verify c =
     bind_op (lift_op (ensure_reserved_by c candidate pid)) (\<lambda>_ c.
       case get_reservation c pid of
         None \<Rightarrow> (Inl Panic, c)
       | Some r \<Rightarrow>
           if \<not> rv_written r then (Inl PAGE_CACHE_ERROR, c)
           else read_owned ops (Candidate candidate) pid verify c) c"

section \<open>Reservations\<close>

definition reserve_candidate_page ::
  "nat \<Rightarrow> nat \<Rightarrow> allocation_bitmap \<Rightarrow> ('d page_cache, unit) op" where
  "reserve_candidate_page candidate pid active_bitmap c =
     (if pid < FIRST_DATA_PAGE_ID then (Inl PAGE_CACHE_ERROR, c)
      else bind_op (lift_op (is_allocated active_bitmap pid)) (\<lambda>allocated c.
        if allocated then (Inl PAGE_CACHE_ERROR, c)
        else if pc_lookup c (Committed, pid) \<noteq> None then (Inl PAGE_CACHE_ERROR, c)
        else if (case pc_reservations c of [] \<Rightarrow> False | (_, r) # _ \<Rightarrow> rv_candidate r \<noteq> candidate)
        then (Inl PAGE_CACHE_ERROR, c)
        else case get_reservation c pid of
          Some r \<Rightarrow> if rv_candidate r = candidate then (Inr (), c) else (Inl PAGE_CACHE_ERROR, c)
        | None \<Rightarrow>
            (Inr (), c\<lparr>pc_reservations :=
               (pid, \<lparr>rv_candidate = candidate, rv_written = False\<rparr>) # pc_reservations c\<rparr>)) c)"

definition set_written :: "nat \<Rightarrow> 'd page_cache \<Rightarrow> 'd page_cache" where
  "set_written pid c = c\<lparr>pc_reservations :=
     map (\<lambda>(q, r). (q, if q = pid then r\<lparr>rv_written := True\<rparr> else r)) (pc_reservations c)\<rparr>"

definition write_candidate ::
  "'d page_device_ops \<Rightarrow> nat \<Rightarrow> nat \<Rightarrow> bytes \<Rightarrow> bool \<Rightarrow> ('d page_cache, unit) op" where
  "write_candidate ops candidate pid bs unsealed c =
     bind_op (lift_op (ensure_reserved_by c candidate pid)) (\<lambda>_.
     bind_op (write_owned ops (Candidate candidate) pid bs unsealed) (\<lambda>_ c.
       (Inr (), set_written pid c))) c"

definition write_unsealed_candidate_page ::
  "'d page_device_ops \<Rightarrow> nat \<Rightarrow> nat \<Rightarrow> bytes \<Rightarrow> ('d page_cache, unit) op" where
  "write_unsealed_candidate_page ops candidate pid bs = write_candidate ops candidate pid bs True"

definition drop_reservation :: "nat \<Rightarrow> 'd page_cache \<Rightarrow> 'd page_cache" where
  "drop_reservation pid c =
     c\<lparr>pc_reservations := filter (\<lambda>(q, _). q \<noteq> pid) (pc_reservations c)\<rparr>"

definition drop_unflushed :: "owner \<Rightarrow> 'd page_cache \<Rightarrow> 'd page_cache" where
  "drop_unflushed own c =
     c\<lparr>pc_unflushed_owners := filter (\<lambda>o'. o' \<noteq> own) (pc_unflushed_owners c)\<rparr>"

definition release_candidate_page :: "nat \<Rightarrow> nat \<Rightarrow> ('d page_cache, unit) op" where
  "release_candidate_page candidate pid c =
     bind_op (lift_op (ensure_reserved_by c candidate pid)) (\<lambda>_ c.
       let c = remove_entry (Candidate candidate, pid) (drop_reservation pid c)
       in (Inr (), if pc_reservations c = [] then drop_unflushed (Candidate candidate) c else c)) c"

section \<open>Committing a candidate\<close>

fun write_pages_loop ::
  "'d page_device_ops \<Rightarrow> owner \<Rightarrow> nat list \<Rightarrow> bytes \<Rightarrow> nat list \<Rightarrow> ('d page_cache, unit) op" where
  "write_pages_loop ops own run bs [] c = cache_write_run ops run bs c"
| "write_pages_loop ops own run bs (pid # pids) c =
     (case pc_lookup c (own, pid) of
        None \<Rightarrow> write_pages_loop ops own run bs pids c
      | Some index \<Rightarrow>
          if \<not> ce_dirty (pc_entries c ! index) then write_pages_loop ops own run bs pids c
          else
            let follows = (run \<noteq> [] \<and> ce_id (pc_entries c ! last run) + 1 = pid)
            in if \<not> follows \<or> length run = MAX_WRITE_RUN_PAGES
               then (case cache_write_run ops run bs c of
                       (Inl e, c) \<Rightarrow> (Inl e, c)
                     | (Inr _, c) \<Rightarrow>
                         let entry = seal_entry (pc_entries c ! index)
                         in write_pages_loop ops own [index] (ce_bytes entry) pids (set_entry index entry c))
               else
                 let entry = seal_entry (pc_entries c ! index)
                 in write_pages_loop ops own (run @ [index]) (bs @ ce_bytes entry) pids
                      (set_entry index entry c))"

definition write_candidate_pages ::
  "'d page_device_ops \<Rightarrow> nat \<Rightarrow> nat list \<Rightarrow> ('d page_cache, unit) op" where
  "write_candidate_pages ops candidate pages = write_pages_loop ops (Candidate candidate) [] [] pages"

definition has_dirty_pages :: "'d page_cache \<Rightarrow> nat \<Rightarrow> bool" where
  "has_dirty_pages c candidate \<longleftrightarrow>
     list_ex (\<lambda>(pid, r). rv_candidate r = candidate \<and>
       (case pc_lookup c (Candidate candidate, pid) of
          Some index \<Rightarrow> ce_dirty (pc_entries c ! index) | None \<Rightarrow> False)) (pc_reservations c)"

definition candidate_page_checksum ::
  "'d page_device_ops \<Rightarrow> nat \<Rightarrow> nat \<Rightarrow> ('d page_cache, u32) op" where
  "candidate_page_checksum ops candidate pid c =
     bind_op (lift_op (ensure_reserved_by c candidate pid)) (\<lambda>_ c.
       case pc_lookup c (Candidate candidate, pid) of
         Some index \<Rightarrow>
           let entry = pc_entries c ! index
           in if ce_dirty entry \<or> ce_unsealed entry then (Inl PAGE_CACHE_ERROR, c)
              else (Inr (page_checksum (ce_bytes entry)), c)
       | None \<Rightarrow>
           bind_op (on_device (dev_read_page ops pid)) (\<lambda>bs.
           bind_op (lift_op (page_verify bs)) (\<lambda>_. return_op (page_checksum bs))) c) c"

definition flush_device :: "'d page_device_ops \<Rightarrow> ('d page_cache, unit) op" where
  "flush_device ops =
     bind_op (on_device (dev_flush ops)) (\<lambda>_ c. (Inr (), c\<lparr>pc_unflushed_owners := []\<rparr>))"

definition candidate_page_written :: "'d page_cache \<Rightarrow> nat \<Rightarrow> nat \<Rightarrow> bool" where
  "candidate_page_written c candidate pid \<longleftrightarrow>
     (case get_reservation c pid of
        Some r \<Rightarrow> rv_candidate r = candidate \<and> rv_written r | None \<Rightarrow> False)"

text \<open>One reserved page of the loop that re-keys a candidate's entries.\<close>

definition install_page :: "nat \<Rightarrow> nat \<Rightarrow> 'd page_cache \<Rightarrow> 'd page_cache" where
  "install_page candidate pid c =
     (case pc_lookup c (Candidate candidate, pid) of
        None \<Rightarrow> c
      | Some index \<Rightarrow>
          let c = c\<lparr>pc_lookup := (pc_lookup c)(((Candidate candidate, pid)) := None)\<rparr>;
              c = set_entry index ((pc_entries c ! index)\<lparr>ce_owner := Committed, ce_referenced := True\<rparr>) c
          in c\<lparr>pc_lookup := (pc_lookup c)((Committed, pid) \<mapsto> index)\<rparr>)"

definition install_candidate ::
  "'d page_device_ops \<Rightarrow> nat \<Rightarrow> allocation_bitmap \<Rightarrow> allocation_bitmap \<Rightarrow> ('d page_cache, unit) op" where
  "install_candidate ops candidate active_bitmap next_bitmap c =
     (let own = Candidate candidate in
      if has_dirty_pages c candidate \<or> own \<in> set (pc_unflushed_owners c) then (Inl PAGE_CACHE_ERROR, c)
      else
        let candidate_ids = map (\<lambda>(pid, r). (pid, rv_written r))
              (filter (\<lambda>(pid, r). rv_candidate r = candidate) (pc_reservations c))
        in if list_ex (\<lambda>(pid, _). pc_lookup c (Committed, pid) \<noteq> None) candidate_ids
           then (Inl PAGE_CACHE_ERROR, c)
           else if list_ex (\<lambda>(_, written). \<not> written) candidate_ids then (Inl PAGE_CACHE_ERROR, c)
           else bind_op (for_op candidate_ids (\<lambda>(pid, _) c.
                  case is_allocated next_bitmap pid of
                    Inl e \<Rightarrow> (Inl e, c)
                  | Inr allocated \<Rightarrow> if \<not> allocated then (Inl PAGE_CACHE_ERROR, c) else (Inr (), c))) (\<lambda>_ c.
                let c = fold (\<lambda>pid. remove_entry (Committed, pid))
                          (allocated_since active_bitmap next_bitmap (dev_page_count ops (pc_device c))) c;
                    c = fold (\<lambda>(pid, _). install_page candidate pid) candidate_ids c
                in (Inr (), c\<lparr>pc_reservations :=
                      filter (\<lambda>(_, r). rv_candidate r \<noteq> candidate) (pc_reservations c)\<rparr>)) c)"

definition invalidate_candidate :: "nat \<Rightarrow> 'd page_cache \<Rightarrow> 'd page_cache" where
  "invalidate_candidate candidate c =
     (let own = Candidate candidate;
          c = drop_unflushed own c;
          reserved = map fst (filter (\<lambda>(_, r). rv_candidate r = candidate) (pc_reservations c))
      in fold (\<lambda>pid c. remove_entry (own, pid) (drop_reservation pid c)) reserved c)"

end
