(* ===== verification/Pager.thy ===== *)
theory Pager
  imports Metadata Cache
begin

text \<open>
  \<^verbatim>\<open>pager.rs\<close>: opening a page device, reading committed pages, and the single write transaction, whose
  pages are written where the active root does not reach and then published by one superblock write.

  The pager and its cache share one device behind a reference cell; here the device is the cache's.
  A transaction holds the pager it was begun on, and the operations that consume it return the pager.
  The pager's test-only fault switch is left out, and so are the debug assertions on a decoded page's id.
\<close>

record 'd pager =
  pgr_cache :: "'d page_cache"
  pgr_active :: recovered_metadata
  pgr_next_candidate_id :: nat
  pgr_recovery_required :: bool

section \<open>Checks on pages\<close>

definition ensure_data_page :: "nat \<Rightarrow> unit res" where
  "ensure_data_page pid =
     (if \<not> (FIRST_DATA_PAGE_ID \<le> pid \<and> pid < MAX_PAGE_COUNT) then Inl PAGER_ERROR else Inr ())"

definition verify_expected_page :: "nat \<Rightarrow> bytes \<Rightarrow> unit res" where
  "verify_expected_page pid bs =
     and_then (page_verify bs) (\<lambda>_.
     and_then (decode_verified bs) (\<lambda>page.
       if pg_id page \<noteq> pid then Inl PAGER_ERROR else Inr ()))"

definition decode_verified_page :: "nat \<Rightarrow> bytes \<Rightarrow> page res" where
  "decode_verified_page pid bs = decode_verified bs"

section \<open>Opening a device\<close>

text \<open>The pages of both empty roots, in an array of the metadata extent, and the root in slot A.\<close>

definition empty_metadata_layout :: "(recovered_metadata \<times> bytes list) res" where
  "empty_metadata_layout =
     and_then (encode_pages (recovered_metadata_empty Slot_A)) (\<lambda>(active, pages_a).
     and_then (encode_pages (recovered_metadata_empty Slot_B)) (\<lambda>(_, pages_b).
       Inr (active, fold (\<lambda>(pid, bs) pages. pages[pid := bs]) (pages_a @ pages_b)
                      (replicate FIRST_DATA_PAGE_ID (replicate PAGE_SIZE 0)))))"

definition initialize_empty_device :: "'d page_device_ops \<Rightarrow> ('d, recovered_metadata) op" where
  "initialize_empty_device ops =
     bind_op (lift_op empty_metadata_layout) (\<lambda>(active, pages).
     bind_op (for_op [0..<FIRST_DATA_PAGE_ID] (\<lambda>pid. dev_write_page ops pid (replicate PAGE_SIZE 0))) (\<lambda>_.
     bind_op (for_op [SUPERBLOCK_PAGE_COUNT..<FIRST_DATA_PAGE_ID] (\<lambda>pid. dev_write_page ops pid (pages ! pid))) (\<lambda>_.
     bind_op (dev_flush ops) (\<lambda>_.
     bind_op (for_op [0..<SUPERBLOCK_PAGE_COUNT] (\<lambda>pid. dev_write_page ops pid (pages ! pid))) (\<lambda>_.
     bind_op (dev_flush ops) (\<lambda>_. return_op active))))))"

text \<open>The loop of \<^verbatim>\<open>is_recoverable_empty_bootstrap\<close>, over the pages that are there.\<close>

fun bootstrap_pages :: "'d page_device_ops \<Rightarrow> bytes list \<Rightarrow> nat list \<Rightarrow> ('d, bool) op" where
  "bootstrap_pages ops expected [] = return_op True"
| "bootstrap_pages ops expected (pid # pids) =
     bind_op (dev_read_page ops pid) (\<lambda>actual.
       if list_ex (\<lambda>(a, e). a \<noteq> 0 \<and> a \<noteq> e) (zip actual (expected ! pid)) then return_op False
       else bootstrap_pages ops expected pids)"

definition is_recoverable_empty_bootstrap :: "'d page_device_ops \<Rightarrow> ('d, bool) op" where
  "is_recoverable_empty_bootstrap ops d =
     (let page_count = dev_page_count ops d
      in if FIRST_DATA_PAGE_ID < page_count then (Inr False, d)
         else bind_op (lift_op empty_metadata_layout) (\<lambda>(_, expected).
                bootstrap_pages ops expected [0..<page_count]) d)"

text \<open>The loop of \<^verbatim>\<open>commit_is_durable\<close>, with the hash so far.\<close>

fun durable_pages ::
  "'d page_device_ops \<Rightarrow> recovered_metadata \<Rightarrow> recovered_metadata \<Rightarrow> nat \<Rightarrow> u64 \<Rightarrow> nat list \<Rightarrow> ('d, bool) op" where
  "durable_pages ops newest previous page_count hash [] =
     return_op (hash = sb_commit_hash (rm_superblock newest))"
| "durable_pages ops newest previous page_count hash (pid # pids) =
     bind_op (lift_op (is_allocated (rm_allocation_bitmap newest) pid)) (\<lambda>in_newest.
     bind_op (lift_op (if \<not> in_newest then Inr True
                       else is_allocated (rm_allocation_bitmap previous) pid)) (\<lambda>skip.
       if skip then durable_pages ops newest previous page_count hash pids
       else if page_count \<le> pid then return_op False
       else bind_op (dev_read_page ops pid) (\<lambda>bs.
         case verify_expected_page pid bs of
           Inl _ \<Rightarrow> return_op False
         | Inr _ \<Rightarrow> durable_pages ops newest previous page_count
                     (commit_hash_page hash pid (page_checksum bs)) pids)))"

definition commit_is_durable ::
  "'d page_device_ops \<Rightarrow> recovered_metadata \<Rightarrow> recovered_metadata \<Rightarrow> ('d, bool) op" where
  "commit_is_durable ops newest previous d =
     durable_pages ops newest previous (dev_page_count ops d) commit_hash_new
       [FIRST_DATA_PAGE_ID..<MAX_PAGE_COUNT] d"

fun read_pages :: "'d page_device_ops \<Rightarrow> nat list \<Rightarrow> ('d, bytes list) op" where
  "read_pages ops [] = return_op []"
| "read_pages ops (pid # pids) =
     bind_op (dev_read_page ops pid) (\<lambda>bs. bind_op (read_pages ops pids) (\<lambda>rest. return_op (bs # rest)))"

definition recover_device_metadata :: "'d page_device_ops \<Rightarrow> ('d, recovered_metadata) op" where
  "recover_device_metadata ops d =
     (if dev_page_count ops d < FIRST_DATA_PAGE_ID then (Inl PAGER_ERROR, d)
      else bind_op (read_pages ops [0..<FIRST_DATA_PAGE_ID]) (\<lambda>pages.
           bind_op (lift_op (recover_metadata pages)) (\<lambda>(newest, previous).
             case previous of
               None \<Rightarrow> return_op newest
             | Some previous \<Rightarrow>
                 bind_op (commit_is_durable ops newest previous) (\<lambda>durable.
                   return_op (if \<not> durable then previous else newest)))) d)"

definition validate_physical_coverage :: "'d page_device_ops \<Rightarrow> allocation_bitmap \<Rightarrow> ('d, unit) op" where
  "validate_physical_coverage ops bitmap d =
     (let page_count = dev_page_count ops d
      in for_op [FIRST_DATA_PAGE_ID..<MAX_PAGE_COUNT] (\<lambda>pid.
           bind_op (lift_op (is_allocated bitmap pid)) (\<lambda>allocated.
             if allocated \<and> page_count \<le> pid then fail_op PAGER_ERROR else return_op ())) d)"

text \<open>The choice of how to open a device, by the pages it has.\<close>

definition open_metadata :: "'d page_device_ops \<Rightarrow> ('d, recovered_metadata) op" where
  "open_metadata ops d =
     (let page_count = dev_page_count ops d
      in if MAX_PAGE_COUNT < page_count then (Inl PAGER_ERROR, d)
         else if page_count = 0 then initialize_empty_device ops d
         else if page_count < FIRST_DATA_PAGE_ID then
           bind_op (is_recoverable_empty_bootstrap ops) (\<lambda>recoverable.
             if recoverable then initialize_empty_device ops else fail_op PAGER_ERROR) d
         else case recover_device_metadata ops d of
             (Inr active, d) \<Rightarrow> (Inr active, d)
           | (Inl e, d) \<Rightarrow>
               if page_count = FIRST_DATA_PAGE_ID
               then bind_op (is_recoverable_empty_bootstrap ops) (\<lambda>recoverable.
                      if recoverable then initialize_empty_device ops else fail_op e) d
               else (Inl e, d))"

definition pager_with_cache_capacity :: "'d page_device_ops \<Rightarrow> nat \<Rightarrow> ('d, 'd pager) op" where
  "pager_with_cache_capacity ops cache_capacity_bytes d =
     (case cache_with_capacity d cache_capacity_bytes of
        Inl e \<Rightarrow> (Inl e, d)
      | Inr cache \<Rightarrow>
          bind_op (open_metadata ops) (\<lambda>active.
          bind_op (validate_physical_coverage ops (rm_allocation_bitmap active)) (\<lambda>_ d.
            (Inr \<lparr>pgr_cache = cache\<lparr>pc_device := d\<rparr>, pgr_active = active,
                  pgr_next_candidate_id = 1, pgr_recovery_required = False\<rparr>, d))) d)"

definition open_or_create :: "'d page_device_ops \<Rightarrow> ('d, 'd pager) op" where
  "open_or_create ops = pager_with_cache_capacity ops DEFAULT_PAGE_CACHE_BYTES"

section \<open>Reading\<close>

definition on_cache :: "('d page_cache, 'a) op \<Rightarrow> ('d pager, 'a) op" where
  "on_cache m p = (case m (pgr_cache p) of (r, c) \<Rightarrow> (r, p\<lparr>pgr_cache := c\<rparr>))"

definition ensure_usable :: "'d pager \<Rightarrow> unit res" where
  "ensure_usable p = (if pgr_recovery_required p then Inl RECOVERY_REQUIRED else Inr ())"

definition read_page_checked :: "'d page_device_ops \<Rightarrow> nat \<Rightarrow> ('d pager, page) op" where
  "read_page_checked ops pid p =
     bind_op (lift_op (ensure_usable p)) (\<lambda>_.
     bind_op (lift_op (ensure_data_page pid)) (\<lambda>_.
     bind_op (lift_op (is_allocated (rm_allocation_bitmap (pgr_active p)) pid)) (\<lambda>allocated.
       if \<not> allocated then fail_op PAGE_NOT_ALLOCATED
       else bind_op (on_cache (read_page_verified ops pid (verify_expected_page pid))) (\<lambda>bs.
              lift_op (decode_verified_page pid bs))))) p"

definition read_page_in_place :: "'d page_device_ops \<Rightarrow> nat \<Rightarrow> ('d pager, page) op" where
  "read_page_in_place ops pid p =
     (if \<not> pgr_recovery_required p \<and> FIRST_DATA_PAGE_ID \<le> pid
         \<and> allocates (rm_allocation_bitmap (pgr_active p)) pid
      then case cached_index (pgr_cache p) pid of
             Some index \<Rightarrow>
               (case cached_page index (pgr_cache p) of
                  (bs, c) \<Rightarrow> (decode_whole bs, p\<lparr>pgr_cache := c\<rparr>))
           | None \<Rightarrow> read_page_checked ops pid p
      else read_page_checked ops pid p)"

definition read_checks_reference :: "'d pager \<Rightarrow> nat \<Rightarrow> unit res" where
  "read_checks_reference p pid =
     and_then (ensure_usable p) (\<lambda>_.
     and_then (ensure_data_page pid) (\<lambda>_.
     and_then (is_allocated_reference (rm_allocation_bitmap (pgr_active p)) pid) (\<lambda>allocated.
       if \<not> allocated then Inl PAGE_NOT_ALLOCATED else Inr ())))"

section \<open>The write transaction\<close>

record 'd write_transaction =
  tx_pager :: "'d pager"
  tx_candidate :: nat
  tx_next_bitmap :: allocation_bitmap
  tx_new_page_end :: nat
  tx_btree_versions :: "u64 \<Rightarrow> u64 option"
  tx_next_allocation_page_id :: nat
  tx_failed :: bool
  tx_finished :: bool

text \<open>On success the pager is the transaction's until it ends; on an error it is unchanged.\<close>

definition begin_write :: "'d pager \<Rightarrow> 'd write_transaction res" where
  "begin_write p =
     and_then (ensure_usable p) (\<lambda>_.
       if 2 ^ 64 \<le> pgr_next_candidate_id p + 1 then Inl PAGER_ERROR
       else Inr \<lparr>tx_pager = p\<lparr>pgr_next_candidate_id := pgr_next_candidate_id p + 1\<rparr>,
                 tx_candidate = pgr_next_candidate_id p,
                 tx_next_bitmap = rm_allocation_bitmap (pgr_active p),
                 tx_new_page_end = 0, tx_btree_versions = Map.empty,
                 tx_next_allocation_page_id = FIRST_DATA_PAGE_ID,
                 tx_failed = False, tx_finished = False\<rparr>)"

definition active_bitmap :: "'d write_transaction \<Rightarrow> allocation_bitmap" where
  "active_bitmap t = rm_allocation_bitmap (pgr_active (tx_pager t))"

definition tx_cache :: "'d write_transaction \<Rightarrow> 'd page_cache" where
  "tx_cache t = pgr_cache (tx_pager t)"

definition set_tx_cache :: "'d page_cache \<Rightarrow> 'd write_transaction \<Rightarrow> 'd write_transaction" where
  "set_tx_cache c t = t\<lparr>tx_pager := (tx_pager t)\<lparr>pgr_cache := c\<rparr>\<rparr>"

definition on_tx_cache :: "('d page_cache, 'a) op \<Rightarrow> ('d write_transaction, 'a) op" where
  "on_tx_cache m t = (case m (tx_cache t) of (r, c) \<Rightarrow> (r, set_tx_cache c t))"

definition ensure_open :: "'d write_transaction \<Rightarrow> unit res" where
  "ensure_open t =
     (if tx_finished t then Inl PAGER_ERROR
      else if tx_failed t then Inl TRANSACTION_FAILED
      else ensure_usable (tx_pager t))"

definition tx_generation :: "'d write_transaction \<Rightarrow> u64 res" where
  "tx_generation t =
     and_then (ensure_open t) (\<lambda>_.
       ok_or PAGER_ERROR (checked_add (sb_generation (rm_superblock (pgr_active (tx_pager t)))) 1))"

definition is_new :: "'d write_transaction \<Rightarrow> nat \<Rightarrow> bool" where
  "is_new t pid \<longleftrightarrow> allocates (tx_next_bitmap t) pid \<and> \<not> allocates (active_bitmap t) pid"

definition is_new_reference :: "'d write_transaction \<Rightarrow> nat \<Rightarrow> bool" where
  "is_new_reference t pid \<longleftrightarrow>
     (case is_allocated_reference (tx_next_bitmap t) pid of Inr b \<Rightarrow> b | Inl _ \<Rightarrow> False) \<and>
     \<not> (case is_allocated_reference (active_bitmap t) pid of Inr b \<Rightarrow> b | Inl _ \<Rightarrow> True)"

definition owns_page :: "'d write_transaction \<Rightarrow> nat \<Rightarrow> bool" where
  "owns_page t pid \<longleftrightarrow> \<not> tx_finished t \<and> is_new t pid"

definition mark_failed :: "'d write_transaction \<Rightarrow> 'd write_transaction" where
  "mark_failed t = t\<lparr>tx_failed := True\<rparr>"

definition btree_version :: "'d write_transaction \<Rightarrow> u64 \<Rightarrow> u64 res" where
  "btree_version t tree_id =
     and_then (ensure_open t) (\<lambda>_.
       Inr (case tx_btree_versions t tree_id of Some v \<Rightarrow> v | None \<Rightarrow> 0))"

text \<open>The entry is there, with its default, even when its increment overflows.\<close>

definition mark_btree_mutated :: "u64 \<Rightarrow> ('d write_transaction, unit) op" where
  "mark_btree_mutated tree_id t =
     bind_op (lift_op (ensure_open t)) (\<lambda>_ t.
       let version = (case tx_btree_versions t tree_id of Some v \<Rightarrow> v | None \<Rightarrow> 0)
       in case checked_add version 1 of
            None \<Rightarrow> (Inl PAGER_ERROR, t\<lparr>tx_btree_versions := (tx_btree_versions t)(tree_id \<mapsto> version)\<rparr>)
          | Some next \<Rightarrow> (Inr (), t\<lparr>tx_btree_versions := (tx_btree_versions t)(tree_id \<mapsto> next)\<rparr>)) t"

definition set_next_allocated :: "nat \<Rightarrow> bool \<Rightarrow> ('d write_transaction, unit) op" where
  "set_next_allocated pid allocated t =
     (case set_allocated (tx_next_bitmap t) pid allocated of
        Inl e \<Rightarrow> (Inl e, t)
      | Inr b \<Rightarrow> (Inr (), t\<lparr>tx_next_bitmap := b\<rparr>))"

definition select_page :: "'d write_transaction \<Rightarrow> nat option res" where
  "select_page t =
     (let start = tx_next_allocation_page_id t
      in and_then (first_free (active_bitmap t) (tx_next_bitmap t) start MAX_PAGE_COUNT) (\<lambda>selected.
           case selected of
             Some pid \<Rightarrow> Inr (Some pid)
           | None \<Rightarrow> first_free (active_bitmap t) (tx_next_bitmap t) FIRST_DATA_PAGE_ID start))"

definition allocate_page :: "'d page_device_ops \<Rightarrow> ('d write_transaction, nat) op" where
  "allocate_page ops t =
     bind_op (lift_op (ensure_open t)) (\<lambda>_.
     bind_op (lift_op (and_then (select_page t) (ok_or DATABASE_FULL))) (\<lambda>pid t.
       let t = t\<lparr>tx_next_allocation_page_id :=
                   (if pid + 1 = MAX_PAGE_COUNT then FIRST_DATA_PAGE_ID else pid + 1)\<rparr>;
           stop = max (dev_page_count ops (pc_device (tx_cache t))) (tx_new_page_end t)
       in if stop < pid then (Inl PAGER_ERROR, t)
          else bind_op (on_tx_cache (reserve_candidate_page (tx_candidate t) pid (active_bitmap t))) (\<lambda>_.
               bind_op (set_next_allocated pid True) (\<lambda>_ t.
                 (Inr pid, t\<lparr>tx_new_page_end := max (tx_new_page_end t) (pid + 1)\<rparr>))) t)) t"

definition write_new_page :: "'d page_device_ops \<Rightarrow> page \<Rightarrow> ('d write_transaction, unit) op" where
  "write_new_page ops page t =
     bind_op (lift_op (ensure_open t)) (\<lambda>_.
       if \<not> is_new t (pg_id page) then fail_op PAGER_ERROR
       else bind_op (lift_op (page_encode_unsealed page)) (\<lambda>bs.
              on_tx_cache (write_unsealed_candidate_page ops (tx_candidate t) (pg_id page) bs))) t"

definition tx_read_page_in_place :: "'d page_device_ops \<Rightarrow> nat \<Rightarrow> ('d write_transaction, page) op" where
  "tx_read_page_in_place ops pid t =
     bind_op (lift_op (ensure_open t)) (\<lambda>_.
     bind_op (lift_op (ensure_data_page pid)) (\<lambda>_.
     bind_op (lift_op (is_allocated (tx_next_bitmap t) pid)) (\<lambda>allocated.
       if \<not> allocated then fail_op PAGE_NOT_ALLOCATED
       else bind_op
         (if is_new t pid
          then on_tx_cache (read_candidate_page_verified ops (tx_candidate t) pid (verify_expected_page pid))
          else bind_op (lift_op (is_allocated (active_bitmap t) pid)) (\<lambda>shared.
            if shared then on_tx_cache (read_page_verified ops pid (verify_expected_page pid))
            else fail_op PAGER_ERROR))
         (\<lambda>bs. lift_op (decode_verified_page pid bs))))) t"

definition free_shared_page :: "nat \<Rightarrow> ('d write_transaction, unit) op" where
  "free_shared_page pid t =
     bind_op (lift_op (ensure_open t)) (\<lambda>_.
     bind_op (lift_op (ensure_data_page pid)) (\<lambda>_.
       if is_new t pid then fail_op PAGER_ERROR
       else bind_op (lift_op (is_allocated (active_bitmap t) pid)) (\<lambda>shared.
         if \<not> shared then fail_op PAGE_NOT_ALLOCATED else set_next_allocated pid False))) t"

definition release_new_page :: "nat \<Rightarrow> ('d write_transaction, unit) op" where
  "release_new_page pid t =
     bind_op (lift_op (ensure_open t)) (\<lambda>_.
     bind_op (lift_op (ensure_data_page pid)) (\<lambda>_.
       if \<not> is_new t pid then fail_op PAGER_ERROR
       else bind_op (on_tx_cache (release_candidate_page (tx_candidate t) pid)) (\<lambda>_.
            bind_op (set_next_allocated pid False) (\<lambda>_ t.
              (Inr (), t\<lparr>tx_next_allocation_page_id := min (tx_next_allocation_page_id t) pid\<rparr>))))) t"

section \<open>The end of a transaction\<close>

definition finish :: "'d write_transaction \<Rightarrow> 'd write_transaction" where
  "finish t = (set_tx_cache (invalidate_candidate (tx_candidate t) (tx_cache t)) t)\<lparr>tx_finished := True\<rparr>"

definition drop_transaction :: "'d write_transaction \<Rightarrow> 'd pager" where
  "drop_transaction t = tx_pager (if \<not> tx_finished t then finish t else t)"

definition abort :: "'d write_transaction \<Rightarrow> 'd pager" where
  "abort t = drop_transaction (finish t)"

definition fail_before_superblock :: "error_code \<Rightarrow> ('d write_transaction, 'a) op" where
  "fail_before_superblock e t = (Inl e, finish t)"

definition fail_after_superblock :: "error_code \<Rightarrow> ('d write_transaction, 'a) op" where
  "fail_after_superblock e t =
     (Inl RECOVERY_REQUIRED, finish (t\<lparr>tx_pager := (tx_pager t)\<lparr>pgr_recovery_required := True\<rparr>\<rparr>))"

text \<open>\<^verbatim>\<open>if let Err(error) = m { return fail(error) }\<close>\<close>

definition or_fail ::
  "(error_code \<Rightarrow> ('s, 'b) op) \<Rightarrow> ('s, 'a) op \<Rightarrow> ('a \<Rightarrow> ('s, 'b) op) \<Rightarrow> ('s, 'b) op" where
  "or_fail fail m f t = (case m t of (Inl e, t') \<Rightarrow> fail e t' | (Inr x, t') \<Rightarrow> f x t')"

fun hash_pages :: "'d page_device_ops \<Rightarrow> nat \<Rightarrow> u64 \<Rightarrow> nat list \<Rightarrow> ('d page_cache, u64) op" where
  "hash_pages ops candidate hash [] = return_op hash"
| "hash_pages ops candidate hash (pid # pids) =
     bind_op (candidate_page_checksum ops candidate pid) (\<lambda>checksum.
       hash_pages ops candidate (commit_hash_page hash pid checksum) pids)"

text \<open>The loop that writes the bitmap chunks the commit changed.\<close>

definition write_chunks :: "'d page_device_ops \<Rightarrow> pending_metadata \<Rightarrow> ('d page_cache, unit) op" where
  "write_chunks ops pending =
     for_op (enumerate 0 (pm_bitmap_pages pending)) (\<lambda>(chunk, page).
       case page of
         None \<Rightarrow> return_op ()
       | Some bs \<Rightarrow> on_device (dev_write_page ops
           (bitmap_slot_page_id (bc_slot (sb_bitmap_chunks (pm_superblock pending) ! chunk)) chunk) bs))"

definition commit_transaction ::
  "'d page_device_ops \<Rightarrow> u64 \<Rightarrow> u64 \<Rightarrow> nat option \<Rightarrow> ('d write_transaction, unit) op" where
  "commit_transaction ops database_revision database_hash catalog_root_page_id t =
     bind_op (lift_op (ensure_open t)) (\<lambda>_.
     or_fail fail_before_superblock (lift_op (validate_database_revision database_revision)) (\<lambda>_.
     let new_pages = allocated_since (tx_next_bitmap t) (active_bitmap t) (tx_new_page_end t);
         unwritten = filter (\<lambda>pid. \<not> candidate_page_written (tx_cache t) (tx_candidate t) pid) new_pages
     in if unwritten \<noteq> [] then fail_before_superblock PAGER_ERROR
     else or_fail fail_before_superblock
       (lift_op (build_next_metadata (pgr_active (tx_pager t)) database_revision database_hash
                   catalog_root_page_id (tx_next_bitmap t))) (\<lambda>pending.
     or_fail fail_before_superblock (on_tx_cache (write_candidate_pages ops (tx_candidate t) new_pages)) (\<lambda>_.
     or_fail fail_before_superblock
       (on_tx_cache (hash_pages ops (tx_candidate t) commit_hash_new new_pages)) (\<lambda>hash.
     let superblock = (pm_superblock pending)\<lparr>sb_commit_hash := hash\<rparr>
     in or_fail fail_before_superblock
       (lift_op (encode_superblock_page superblock (pm_allocation_bitmap pending))) (\<lambda>superblock_page.
     or_fail fail_before_superblock (on_tx_cache (write_chunks ops pending)) (\<lambda>_.
     or_fail fail_after_superblock
       (on_tx_cache (on_device (dev_write_page ops (slot_page_id (sb_slot superblock)) superblock_page))) (\<lambda>_.
     or_fail fail_after_superblock (on_tx_cache (flush_device ops)) (\<lambda>_.
     or_fail fail_after_superblock
       (on_tx_cache (install_candidate ops (tx_candidate t) (active_bitmap t) (pm_allocation_bitmap pending))) (\<lambda>_ t.
       (Inr (), t\<lparr>tx_pager := (tx_pager t)\<lparr>pgr_active :=
                    \<lparr>rm_superblock = superblock, rm_allocation_bitmap = pm_allocation_bitmap pending\<rparr>\<rparr>,
                  tx_finished := True\<rparr>))))))))))) t"

definition commit :: "'d page_device_ops \<Rightarrow> u64 \<Rightarrow> u64 \<Rightarrow> nat option \<Rightarrow> 'd write_transaction \<Rightarrow> unit res \<times> 'd pager" where
  "commit ops database_revision database_hash catalog_root_page_id t =
     (case commit_transaction ops database_revision database_hash catalog_root_page_id t of
        (r, t) \<Rightarrow> (r, drop_transaction t))"

end
