(* ===== verification/CacheProofs.thy ===== *)
theory CacheProofs
  imports Cache
begin

text \<open>
  The page cache against what it promises the pager. Its invariant says that the lookup and the
  entries agree, that a clean entry holds what the device does, that only the active candidate's
  reserved pages are dirty, and that the committed view and the reservations are disjoint. The
  abstraction is the value of a page to an owner: what is cached, sealed, or else what the device
  holds. Every operation keeps the value of each page it is not asked to change, whatever is
  evicted, and writes no page of the device that is neither reserved nor past its end.
\<close>

section \<open>The invariant\<close>

definition index_ok :: "'d page_cache \<Rightarrow> bool" where
  "index_ok c \<longleftrightarrow>
     (\<forall>i < length (pc_entries c). pc_lookup c (entry_key (pc_entries c ! i)) = Some i) \<and>
     (\<forall>k i. pc_lookup c k = Some i \<longrightarrow> i < length (pc_entries c) \<and> entry_key (pc_entries c ! i) = k) \<and>
     length (pc_entries c) \<le> pc_capacity c \<and> 0 < pc_capacity c \<and>
     (pc_hand c < length (pc_entries c) \<or> pc_hand c = 0)"

text \<open>On a list of reservations:\<close>

type_synonym reservations = "(nat \<times> reservation) list"

definition reserved :: "reservations \<Rightarrow> nat set" where
  "reserved rs = fst ` set rs"

definition reservations_ok :: "reservations \<Rightarrow> bool" where
  "reservations_ok rs \<longleftrightarrow>
     distinct (map fst rs) \<and>
     (\<forall>(pid, r) \<in> set rs. FIRST_DATA_PAGE_ID \<le> pid \<and>
        (\<forall>(_, r') \<in> set rs. rv_candidate r' = rv_candidate r))"

definition reserved_for :: "reservations \<Rightarrow> nat \<Rightarrow> nat \<Rightarrow> bool" where
  "reserved_for rs k pid \<longleftrightarrow> (\<exists>r. map_of rs pid = Some r \<and> rv_candidate r = k)"

definition entry_ok :: "bytes list \<Rightarrow> reservations \<Rightarrow> cache_entry \<Rightarrow> bool" where
  "entry_ok pages rs e \<longleftrightarrow>
     length (ce_bytes e) = PAGE_SIZE \<and> (ce_unsealed e \<longrightarrow> ce_dirty e) \<and>
     (\<not> ce_dirty e \<longrightarrow> ce_id e < length pages \<and> pages ! ce_id e = ce_bytes e) \<and>
     (case ce_owner e of Committed \<Rightarrow> \<not> ce_dirty e \<and> ce_id e \<notin> reserved rs
      | Candidate k \<Rightarrow> reserved_for rs k (ce_id e))"

definition written_present :: "bytes list \<Rightarrow> reservations \<Rightarrow> (owner \<times> nat \<Rightarrow> nat option) \<Rightarrow> bool" where
  "written_present pages rs looks \<longleftrightarrow>
     (\<forall>pid r. map_of rs pid = Some r \<longrightarrow> rv_written r \<longrightarrow>
        looks (Candidate (rv_candidate r), pid) = None \<longrightarrow> pid < length pages)"

definition cache_ok :: "('d \<Rightarrow> bool) \<Rightarrow> ('d \<Rightarrow> bytes list) \<Rightarrow> 'd page_cache \<Rightarrow> bool" where
  "cache_ok valid contents c \<longleftrightarrow>
     valid (pc_device c) \<and> index_ok c \<and> reservations_ok (pc_reservations c) \<and>
     (\<forall>e \<in> set (pc_entries c). entry_ok (contents (pc_device c)) (pc_reservations c) e) \<and>
     written_present (contents (pc_device c)) (pc_reservations c) (pc_lookup c)"

section \<open>The value of a page\<close>

definition sealed_bytes :: "cache_entry \<Rightarrow> bytes" where
  "sealed_bytes e = (if ce_unsealed e then seal (ce_bytes e) else ce_bytes e)"

definition page_value :: "bytes list \<Rightarrow> 'd page_cache \<Rightarrow> owner \<times> nat \<Rightarrow> bytes option" where
  "page_value pages c k =
     (case pc_lookup c k of
        Some i \<Rightarrow> Some (sealed_bytes (pc_entries c ! i))
      | None \<Rightarrow> if snd k < length pages then Some (pages ! snd k) else None)"

fun readable :: "reservations \<Rightarrow> owner \<times> nat \<Rightarrow> bool" where
  "readable rs (Committed, pid) \<longleftrightarrow> pid \<notin> reserved rs"
| "readable rs (Candidate k, pid) \<longleftrightarrow>
     (\<exists>r. map_of rs pid = Some r \<and> rv_candidate r = k \<and> rv_written r)"

definition values_kept ::
  "('d \<Rightarrow> bytes list) \<Rightarrow> (owner \<times> nat) set \<Rightarrow> 'd page_cache \<Rightarrow> 'd page_cache \<Rightarrow> bool" where
  "values_kept contents K c c' \<longleftrightarrow>
     (\<forall>k v. k \<notin> K \<longrightarrow> readable (pc_reservations c) k \<longrightarrow>
        page_value (contents (pc_device c)) c k = Some v \<longrightarrow>
        page_value (contents (pc_device c')) c' k = Some v)"

definition keeps :: "('d \<Rightarrow> bytes list) \<Rightarrow> (owner \<times> nat) set \<Rightarrow> 'd page_cache \<Rightarrow> 'd page_cache \<Rightarrow> bool" where
  "keeps contents K c c' \<longleftrightarrow>
     pc_reservations c' = pc_reservations c \<and> pc_capacity c' = pc_capacity c \<and>
     only_touches (reserved (pc_reservations c) \<union> {length (contents (pc_device c))..})
       (contents (pc_device c)) (contents (pc_device c')) \<and>
     values_kept contents K c c'"

lemma keeps_refl [simp]: "keeps contents K c c"
  by (simp add: keeps_def values_kept_def)

lemma keeps_mono: "keeps contents K c c' \<Longrightarrow> K \<subseteq> K' \<Longrightarrow> keeps contents K' c c'"
  by (auto simp: keeps_def values_kept_def)

lemma keeps_trans:
  assumes "keeps contents K a b" "keeps contents K b c"
  shows "keeps contents K a c"
proof -
  have r: "pc_reservations b = pc_reservations a" using assms(1) by (simp add: keeps_def)
  have "length (contents (pc_device a)) \<le> length (contents (pc_device b))"
    using assms(1) by (simp add: keeps_def only_touches_def)
  then have "reserved (pc_reservations b) \<union> {length (contents (pc_device b))..} \<subseteq>
      reserved (pc_reservations a) \<union> {length (contents (pc_device a))..}"
    using r by auto
  then have "only_touches (reserved (pc_reservations a) \<union> {length (contents (pc_device a))..})
      (contents (pc_device b)) (contents (pc_device c))"
    using assms(2) only_touches_mono unfolding keeps_def by blast
  then have "only_touches (reserved (pc_reservations a) \<union> {length (contents (pc_device a))..})
      (contents (pc_device a)) (contents (pc_device c))"
    using assms(1) only_touches_trans unfolding keeps_def by blast
  moreover have "values_kept contents K a c"
    using assms r unfolding keeps_def values_kept_def by simp
  ultimately show ?thesis
    using assms by (simp add: keeps_def)
qed

lemma keeps_value:
  "keeps contents K c c' \<Longrightarrow> k \<notin> K \<Longrightarrow> readable (pc_reservations c) k \<Longrightarrow>
   page_value (contents (pc_device c)) c k = Some v \<Longrightarrow> page_value (contents (pc_device c')) c' k = Some v"
  unfolding keeps_def values_kept_def by blast

lemma keeps_shrink:
  assumes "keeps contents {k} a b"
    and "\<And>v. page_value (contents (pc_device a)) a k = Some v \<Longrightarrow> page_value (contents (pc_device b)) b k = Some v"
  shows "keeps contents {} a b"
  using assms unfolding keeps_def values_kept_def by (metis empty_iff singletonD)

lemma index_ok_lookup:
  assumes "index_ok c" "pc_lookup c k = Some i"
  shows "i < length (pc_entries c)" "entry_key (pc_entries c ! i) = k"
  using assms unfolding index_ok_def by blast+

lemma index_ok_nth:
  "index_ok c \<Longrightarrow> i < length (pc_entries c) \<Longrightarrow> pc_lookup c (entry_key (pc_entries c ! i)) = Some i"
  unfolding index_ok_def by blast

lemma index_ok_unique:
  "index_ok c \<Longrightarrow> i < length (pc_entries c) \<Longrightarrow> j < length (pc_entries c) \<Longrightarrow>
   entry_key (pc_entries c ! i) = entry_key (pc_entries c ! j) \<Longrightarrow> i = j"
  using index_ok_nth by (metis option.inject)

text \<open>Changing an entry in place, but not whose page it is.\<close>

lemma set_entry_simps [simp]:
  "pc_device (set_entry i e c) = pc_device c" "pc_lookup (set_entry i e c) = pc_lookup c"
  "pc_reservations (set_entry i e c) = pc_reservations c" "pc_capacity (set_entry i e c) = pc_capacity c"
  "pc_hand (set_entry i e c) = pc_hand c" "pc_entries (set_entry i e c) = (pc_entries c)[i := e]"
  "pc_unflushed_owners (set_entry i e c) = pc_unflushed_owners c"
  by (simp_all add: set_entry_def)

lemma index_ok_set_entry:
  assumes "index_ok c" "i < length (pc_entries c)" "entry_key e = entry_key (pc_entries c ! i)"
  shows "index_ok (set_entry i e c)"
proof -
  have "entry_key ((pc_entries c)[i := e] ! j) = entry_key (pc_entries c ! j)"
    if "j < length (pc_entries c)" for j
    using that assms(2,3) by (simp add: nth_list_update)
  then show ?thesis
    using assms(1) unfolding index_ok_def by (simp only: set_entry_simps length_list_update) metis
qed

lemma reserved_for_reserved: "reserved_for rs k pid \<Longrightarrow> pid \<in> reserved rs"
  by (force simp: reserved_for_def reserved_def dest: map_of_SomeD)

lemma cache_ok_set_entry:
  assumes ok: "cache_ok valid contents c" and i: "i < length (pc_entries c)"
    and key: "entry_key e = entry_key (pc_entries c ! i)"
    and e: "entry_ok (contents (pc_device c)) (pc_reservations c) e"
  shows "cache_ok valid contents (set_entry i e c)"
  using assms index_ok_set_entry [of c i e] set_update_subset_insert [of "pc_entries c" i e]
  by (auto simp: cache_ok_def)

lemma page_value_set_entry:
  assumes "index_ok c" "i < length (pc_entries c)"
    and "k = entry_key (pc_entries c ! i) \<Longrightarrow> sealed_bytes e = sealed_bytes (pc_entries c ! i)"
  shows "page_value pages (set_entry i e c) k = page_value pages c k"
proof (cases "pc_lookup c k")
  case (Some j)
  note j = index_ok_lookup [OF assms(1) Some]
  show ?thesis
    using Some assms(2,3) j by (cases "j = i") (simp_all add: page_value_def)
qed (simp add: page_value_def)

lemma keeps_set_entry:
  assumes "index_ok c" "i < length (pc_entries c)"
    and "entry_key (pc_entries c ! i) \<in> K \<or> sealed_bytes e = sealed_bytes (pc_entries c ! i)"
  shows "keeps contents K c (set_entry i e c)"
proof -
  have "page_value pages (set_entry i e c) k = page_value pages c k" if "k \<notin> K" for k pages
    using assms(3) that by (intro page_value_set_entry [OF assms(1,2)]) auto
  then show ?thesis by (simp add: keeps_def values_kept_def)
qed

section \<open>Writing to the device\<close>

lemma for_on_device:
  "for_op xs (\<lambda>x. on_device (f x)) c =
     (case for_op xs f (pc_device c) of (r, d') \<Rightarrow> (r, c\<lparr>pc_device := d'\<rparr>))"
  by (induction xs arbitrary: c) (auto simp: bind_op_def on_device_def split: prod.splits sum.splits)

lemma enumerate_replicate: "enumerate n (replicate m x) = map (\<lambda>i. (i, x)) [n..<n + m]"
  by (rule nth_equalityI) (simp_all add: nth_enumerate_eq)

lemma for_op_map: "for_op (map g xs) f = for_op xs (\<lambda>x. f (g x))"
  by (induction xs) simp_all

text \<open>
  What the device may have become when the cache wrote the sealed bytes \<open>bs\<close> of page \<open>pid\<close>, with
  zeroed pages before it if it was past the end: nothing else changed, and on success it holds them.
\<close>

definition page_written :: "nat \<Rightarrow> bytes \<Rightarrow> bool \<Rightarrow> bytes list \<Rightarrow> bytes list \<Rightarrow> bool" where
  "page_written pid bs success pages pages' \<longleftrightarrow>
     only_touches ({pid} \<union> {length pages..}) pages pages' \<and>
     (success \<longrightarrow> pid < length pages' \<and> pages' ! pid = bs)"

context page_device
begin

lemma write_placeholders_contract:
  assumes "valid (pc_device c)" "write_placeholders ops pid c = (r, c')"
  shows "\<exists>d'. c' = c\<lparr>pc_device := d'\<rparr> \<and> valid d' \<and>
    only_touches {length (contents (pc_device c))..} (contents (pc_device c)) (contents d') \<and>
    (is_ok r \<longrightarrow> pid \<le> length (contents d'))"
proof -
  let ?n = "length (contents (pc_device c))"
  let ?zs = "replicate (pid - ?n) (replicate 4096 (0 :: u8))"
  have list: "map (\<lambda>i. (i, replicate 4096 (0 :: u8))) [?n..<pid] = enumerate ?n ?zs"
    by (cases "?n \<le> pid") (simp_all add: enumerate_replicate)
  obtain d' where d': "for_op (enumerate ?n ?zs) (\<lambda>(p, src). dev_write_page ops p src) (pc_device c) = (r, d')"
    "c' = c\<lparr>pc_device := d'\<rparr>"
    using assms by (auto simp: write_placeholders_def for_on_device count for_op_map simp flip: list
        split: prod.splits)
  have w: "valid d' \<and> (case r of Inr _ \<Rightarrow> (?zs \<noteq> [] \<longrightarrow> ?n \<le> ?n) \<and>
        contents d' = write_all (contents (pc_device c)) ?n ?zs
      | Inl _ \<Rightarrow> only_touches {?n..<?n + length ?zs} (contents (pc_device c)) (contents d'))"
    using for_write_pages [OF assms(1) d'(1)] .
  have "only_touches {?n..<?n + length ?zs} (contents (pc_device c)) (contents d')"
    using w write_all_touches [of ?n "contents (pc_device c)" ?zs] by (cases r) auto
  then have "only_touches {?n..} (contents (pc_device c)) (contents d')"
    by (rule only_touches_mono) auto
  moreover have "is_ok r \<longrightarrow> pid \<le> length (contents d')"
    using w by (cases r) (auto simp: length_write_all)
  ultimately show ?thesis using d'(2) w by blast
qed

lemma on_device_write:
  assumes "valid (pc_device c)" "on_device (dev_write_page ops pid bs) c = (r, c')"
  shows "\<exists>d'. c' = c\<lparr>pc_device := d'\<rparr> \<and> valid d' \<and>
    only_touches {pid} (contents (pc_device c)) (contents d') \<and>
    (is_ok r \<longrightarrow> pid < length (contents d') \<and> contents d' ! pid = bs)"
proof -
  obtain d' where d': "dev_write_page ops pid bs (pc_device c) = (r, d')" "c' = c\<lparr>pc_device := d'\<rparr>"
    using assms(2) by (auto simp: on_device_def split: prod.splits)
  from write_one [OF assms(1) d'(1)] show ?thesis
    using d'(2) write_at_touches [of pid "contents (pc_device c)" bs]
    by (cases r) (auto simp: nth_write_at)
qed

text \<open>\<^verbatim>\<open>write_entry\<close> up to marking the entry clean.\<close>

lemma write_entry_device:
  assumes v: "valid (pc_device c)" and w: "write_entry ops index c = (r, c')"
  defines "e \<equiv> seal_entry (pc_entries c ! index)"
  shows "\<exists>d'. valid d' \<and> page_written (ce_id e) (ce_bytes e) (is_ok r) (contents (pc_device c)) (contents d') \<and>
    c' = (if is_ok r then mark_clean index ((set_entry index e c)\<lparr>pc_device := d'\<rparr>)
          else (set_entry index e c)\<lparr>pc_device := d'\<rparr>)"
proof -
  let ?c = "set_entry index e c"
  let ?n = "length (contents (pc_device c))"
  obtain r1 c1 where s1: "write_placeholders ops (ce_id e) ?c = (r1, c1)"
    by (cases "write_placeholders ops (ce_id e) ?c")
  obtain d1 where d1: "c1 = ?c\<lparr>pc_device := d1\<rparr>" "valid d1"
      "only_touches {?n..} (contents (pc_device c)) (contents d1)" "is_ok r1 \<longrightarrow> ce_id e \<le> length (contents d1)"
    using write_placeholders_contract [OF _ s1] v by auto
  have t1: "only_touches ({ce_id e} \<union> {?n..}) (contents (pc_device c)) (contents d1)"
    by (rule only_touches_mono [OF d1(3)]) auto
  show ?thesis
  proof (cases r1)
    case (Inl x)
    then have "r = Inl x" "c' = c1" using w s1 by (simp_all add: write_entry_def Let_def e_def)
    with t1 d1 show ?thesis by (auto simp: page_written_def)
  next
    case (Inr u)
    obtain r2 c2 where s2: "on_device (dev_write_page ops (ce_id e) (ce_bytes e)) c1 = (r2, c2)"
      by (cases "on_device (dev_write_page ops (ce_id e) (ce_bytes e)) c1")
    obtain d2 where d2: "c2 = c1\<lparr>pc_device := d2\<rparr>" "valid d2" "only_touches {ce_id e} (contents d1) (contents d2)"
        "is_ok r2 \<longrightarrow> ce_id e < length (contents d2) \<and> contents d2 ! ce_id e = ce_bytes e"
      using on_device_write [OF _ s2] d1(1,2) by auto
    have "only_touches ({ce_id e} \<union> {?n..}) (contents (pc_device c)) (contents d2)"
      by (rule only_touches_trans [OF t1]) (rule only_touches_mono [OF d2(3)], simp)
    with w s1 s2 Inr d1(1) d2 show ?thesis
      by (cases r2) (auto simp: write_entry_def Let_def e_def page_written_def)
  qed
qed

end

text \<open>The pages whose entries are dirty: the only ones below the end that a write goes to.\<close>

definition dirty_ids :: "'d page_cache \<Rightarrow> nat set" where
  "dirty_ids c = {ce_id e | e. e \<in> set (pc_entries c) \<and> ce_dirty e}"

lemma dirty_candidate:
  assumes "cache_ok valid contents c" "e \<in> set (pc_entries c)" "ce_dirty e"
  obtains k where "ce_owner e = Candidate k" "reserved_for (pc_reservations c) k (ce_id e)"
    "ce_id e \<in> reserved (pc_reservations c)"
proof -
  have "entry_ok (contents (pc_device c)) (pc_reservations c) e"
    using assms(1,2) by (simp add: cache_ok_def)
  with assms(3) show ?thesis
    by (cases "ce_owner e") (auto simp: entry_ok_def intro: that dest: reserved_for_reserved)
qed

text \<open>A page with a dirty entry has no other entry, and only that entry's owner can read it.\<close>

lemma dirty_alone:
  assumes ok: "cache_ok valid contents c" and e: "e \<in> set (pc_entries c)" "ce_dirty e"
  shows "e' \<in> set (pc_entries c) \<Longrightarrow> ce_id e' = ce_id e \<Longrightarrow> e' = e"
    and "readable (pc_reservations c) (own, ce_id e) \<Longrightarrow> own = ce_owner e"
proof -
  obtain k where k: "ce_owner e = Candidate k" "reserved_for (pc_reservations c) k (ce_id e)"
      "ce_id e \<in> reserved (pc_reservations c)"
    by (rule dirty_candidate [OF ok e])
  show "own = ce_owner e" if "readable (pc_reservations c) (own, ce_id e)"
    using that k by (cases own) (auto simp: reserved_for_def)
  assume e': "e' \<in> set (pc_entries c)" "ce_id e' = ce_id e"
  have "entry_ok (contents (pc_device c)) (pc_reservations c) e'"
    using ok e'(1) by (simp add: cache_ok_def)
  then have "ce_owner e' = ce_owner e"
    using k e'(2) by (cases "ce_owner e'") (auto simp: entry_ok_def reserved_for_def)
  then have "entry_key e' = entry_key e" using e'(2) by (simp add: entry_key_def)
  moreover obtain i j where "e = pc_entries c ! i" "i < length (pc_entries c)"
      "e' = pc_entries c ! j" "j < length (pc_entries c)"
    using e(1) e'(1) by (auto simp: in_set_conv_nth)
  ultimately show "e' = e"
    using index_ok_unique [of c i j] ok by (auto simp: cache_ok_def)
qed

lemma index_ok_device [simp]: "index_ok (c\<lparr>pc_device := d\<rparr>) = index_ok c"
  by (simp add: index_ok_def)

lemma device_update:
  assumes ok: "cache_ok valid contents c" and v: "valid d'"
    and t: "only_touches (dirty_ids c \<union> {length (contents (pc_device c))..})
        (contents (pc_device c)) (contents d')"
  shows "cache_ok valid contents (c\<lparr>pc_device := d'\<rparr>)" "keeps contents {} c (c\<lparr>pc_device := d'\<rparr>)"
proof -
  let ?old = "contents (pc_device c)" and ?new = "contents d'"
  have grow: "length ?old \<le> length ?new" using t by (simp add: only_touches_def)
  have same: "?new ! i = ?old ! i" if "i < length ?old" "i \<notin> dirty_ids c" for i
    using t that by (auto simp: only_touches_def)
  have entries: "entry_ok ?new (pc_reservations c) e" if e: "e \<in> set (pc_entries c)" for e
  proof (cases "ce_dirty e")
    case False
    then have "ce_id e \<notin> dirty_ids c"
      using dirty_alone(1) [OF ok] e by (fastforce simp: dirty_ids_def)
    moreover have "entry_ok ?old (pc_reservations c) e" using ok e by (simp add: cache_ok_def)
    ultimately show ?thesis using same grow by (auto simp: entry_ok_def)
  next
    case True
    moreover have "entry_ok ?old (pc_reservations c) e" using ok e by (simp add: cache_ok_def)
    ultimately show ?thesis by (simp add: entry_ok_def)
  qed
  have "written_present ?new (pc_reservations c) (pc_lookup c)"
    using ok grow by (fastforce simp: cache_ok_def written_present_def)
  with ok v entries show "cache_ok valid contents (c\<lparr>pc_device := d'\<rparr>)"
    by (simp add: cache_ok_def)
  have "dirty_ids c \<subseteq> reserved (pc_reservations c)"
    using dirty_candidate [OF ok] by (auto simp: dirty_ids_def)
  then have "only_touches (reserved (pc_reservations c) \<union> {length ?old..}) ?old ?new"
    by (intro only_touches_mono [OF t]) auto
  moreover have "page_value ?new (c\<lparr>pc_device := d'\<rparr>) k = Some v"
    if r: "readable (pc_reservations c) k" and pv: "page_value ?old c k = Some v" for k v
  proof (cases "pc_lookup c k")
    case None
    have "snd k \<notin> dirty_ids c"
    proof
      assume "snd k \<in> dirty_ids c"
      then obtain e where e: "e \<in> set (pc_entries c)" "ce_dirty e" "ce_id e = snd k"
        by (auto simp: dirty_ids_def)
      then have "entry_key e = k"
        using dirty_alone(2) [OF ok e(1,2), of "fst k"] r by (cases k) (simp add: entry_key_def)
      then have "pc_lookup c k \<noteq> None"
        using e(1) ok index_ok_nth [of c] by (auto simp: cache_ok_def in_set_conv_nth)
      with None show False by simp
    qed
    with None pv grow same show ?thesis by (auto simp: page_value_def split: if_splits)
  qed (use pv in \<open>simp add: page_value_def\<close>)
  ultimately show "keeps contents {} c (c\<lparr>pc_device := d'\<rparr>)"
    by (simp add: keeps_def values_kept_def)
qed

lemma push_unflushed_simps [simp]:
  "pc_device (push_unflushed own c) = pc_device c" "pc_lookup (push_unflushed own c) = pc_lookup c"
  "pc_reservations (push_unflushed own c) = pc_reservations c"
  "pc_capacity (push_unflushed own c) = pc_capacity c" "pc_hand (push_unflushed own c) = pc_hand c"
  "pc_entries (push_unflushed own c) = pc_entries c"
  by (simp_all add: push_unflushed_def)

lemma same_view:
  assumes "pc_device c' = pc_device c" "pc_entries c' = pc_entries c" "pc_lookup c' = pc_lookup c"
    "pc_reservations c' = pc_reservations c" "pc_capacity c' = pc_capacity c"
  shows "keeps contents K c c'" "keeps contents K b c \<Longrightarrow> keeps contents K b c'"
    "pc_hand c' < length (pc_entries c) \<or> pc_hand c' = 0 \<Longrightarrow> cache_ok valid contents c \<Longrightarrow>
      cache_ok valid contents c'"
proof -
  have "page_value pages c' k = page_value pages c k" for pages k
    using assms by (simp add: page_value_def split: option.split)
  then show k: "keeps contents K c c'" for K
    using assms by (simp add: keeps_def values_kept_def)
  then show "keeps contents K b c \<Longrightarrow> keeps contents K b c'" by (rule keeps_trans [rotated])
  show "pc_hand c' < length (pc_entries c) \<or> pc_hand c' = 0 \<Longrightarrow> cache_ok valid contents c \<Longrightarrow>
      cache_ok valid contents c'"
    using assms by (simp add: cache_ok_def index_ok_def)
qed

lemma entry_key_updates [simp]:
  "entry_key (e\<lparr>ce_dirty := b\<rparr>) = entry_key e" "entry_key (e\<lparr>ce_referenced := b\<rparr>) = entry_key e"
  "entry_key (e\<lparr>ce_bytes := v\<rparr>) = entry_key e" "entry_key (e\<lparr>ce_unsealed := b\<rparr>) = entry_key e"
  "entry_key (seal_entry e) = entry_key e"
  by (simp_all add: entry_key_def seal_entry_def)

lemma seal_entry_simps [simp]:
  "ce_id (seal_entry e) = ce_id e" "ce_owner (seal_entry e) = ce_owner e"
  "ce_dirty (seal_entry e) = ce_dirty e" "\<not> ce_unsealed (seal_entry e)"
  "ce_referenced (seal_entry e) = ce_referenced e"
  "sealed_bytes (seal_entry e) = sealed_bytes e" "ce_bytes (seal_entry e) = sealed_bytes e"
  by (auto simp: seal_entry_def sealed_bytes_def)

lemma entry_ok_referenced [simp]: "entry_ok pages rs (e\<lparr>ce_referenced := b\<rparr>) = entry_ok pages rs e"
  by (auto simp: entry_ok_def split: owner.split)

lemma entry_ok_seal:
  assumes "entry_ok pages rs e" "ce_dirty e"
  shows "entry_ok pages rs (seal_entry e)"
  using assms by (auto simp: entry_ok_def sealed_bytes_def split: owner.splits)

lemma mark_clean_ok:
  assumes ok: "cache_ok valid contents c" and i: "i < length (pc_entries c)"
    and e: "ce_dirty (pc_entries c ! i)" "\<not> ce_unsealed (pc_entries c ! i)"
    and there: "ce_id (pc_entries c ! i) < length (contents (pc_device c))"
      "contents (pc_device c) ! ce_id (pc_entries c ! i) = ce_bytes (pc_entries c ! i)"
  shows "cache_ok valid contents (mark_clean i c)" "keeps contents {} c (mark_clean i c)"
proof -
  let ?e = "pc_entries c ! i"
  let ?c = "set_entry i (?e\<lparr>ce_dirty := False\<rparr>) c"
  have eok: "entry_ok (contents (pc_device c)) (pc_reservations c) ?e" using ok i by (simp add: cache_ok_def)
  obtain k where k: "ce_owner ?e = Candidate k" by (rule dirty_candidate [OF ok _ e(1)]) (use i in auto)
  have "entry_ok (contents (pc_device c)) (pc_reservations c) (?e\<lparr>ce_dirty := False\<rparr>)"
    using eok e there k by (simp add: entry_ok_def)
  with ok i have ok': "cache_ok valid contents ?c" by (intro cache_ok_set_entry) simp_all
  have kp: "keeps contents {} c ?c"
    using ok i by (intro keeps_set_entry) (simp_all add: cache_ok_def sealed_bytes_def)
  have eq: "mark_clean i c = push_unflushed (ce_owner ?e) ?c" by (simp add: mark_clean_def Let_def)
  show "cache_ok valid contents (mark_clean i c)"
    unfolding eq by (rule same_view(3) [OF _ _ _ _ _ _ ok']) (use ok' in \<open>simp_all add: cache_ok_def index_ok_def\<close>)
  show "keeps contents {} c (mark_clean i c)"
    unfolding eq by (rule same_view(2) [OF _ _ _ _ _ kp]) simp_all
qed

section \<open>Eviction keeps every value\<close>

context page_device
begin

lemma write_entry_ok:
  assumes ok: "cache_ok valid contents c" and i: "index < length (pc_entries c)"
    and dirty: "ce_dirty (pc_entries c ! index)" and w: "write_entry ops index c = (r, c')"
  shows "cache_ok valid contents c'" "keeps contents {} c c'"
    "pc_lookup c' = pc_lookup c" "length (pc_entries c') = length (pc_entries c)" "pc_hand c' = pc_hand c"
    "is_ok r \<Longrightarrow> \<not> ce_dirty (pc_entries c' ! index)"
proof -
  let ?e = "seal_entry (pc_entries c ! index)"
  let ?c = "set_entry index ?e c"
  have eok: "entry_ok (contents (pc_device c)) (pc_reservations c) (pc_entries c ! index)"
    using ok i by (simp add: cache_ok_def)
  have ok1: "cache_ok valid contents ?c"
    using ok i entry_ok_seal [OF eok dirty] by (intro cache_ok_set_entry) simp_all
  have k1: "keeps contents {} c ?c"
    using ok i by (intro keeps_set_entry) (simp_all add: cache_ok_def)
  obtain d' where d': "valid d'"
      "page_written (ce_id ?e) (ce_bytes ?e) (is_ok r) (contents (pc_device c)) (contents d')"
      "c' = (if is_ok r then mark_clean index (?c\<lparr>pc_device := d'\<rparr>) else ?c\<lparr>pc_device := d'\<rparr>)"
    using write_entry_device [OF _ w] ok by (auto simp: cache_ok_def)
  let ?d = "?c\<lparr>pc_device := d'\<rparr>"
  have "?e \<in> set (pc_entries ?c)" using i by (simp add: set_update_memI)
  then have "ce_id ?e \<in> dirty_ids ?c"
    using dirty by (auto simp: dirty_ids_def intro!: exI [of _ ?e])
  then have t: "only_touches (dirty_ids ?c \<union> {length (contents (pc_device ?c))..})
      (contents (pc_device ?c)) (contents d')"
    using d'(2) only_touches_mono by (fastforce simp: page_written_def)
  note dev = device_update [OF ok1 d'(1) t]
  have k2: "keeps contents {} c ?d" by (rule keeps_trans [OF k1 dev(2)])
  have clean: "cache_ok valid contents (mark_clean index ?d)" "keeps contents {} ?d (mark_clean index ?d)"
    if "is_ok r"
    using mark_clean_ok [OF dev(1), of index] i dirty d'(2) that by (simp_all add: page_written_def)
  show "cache_ok valid contents c'" using d'(3) clean dev(1) by simp
  show "keeps contents {} c c'" using d'(3) clean k2 keeps_trans by fastforce
  show "pc_lookup c' = pc_lookup c" "length (pc_entries c') = length (pc_entries c)" "pc_hand c' = pc_hand c"
    "is_ok r \<Longrightarrow> \<not> ce_dirty (pc_entries c' ! index)"
    using d'(3) i by (simp_all add: mark_clean_def Let_def)
qed

lemma find_victim_loop_ok:
  assumes "cache_ok valid contents c" "pc_entries c \<noteq> []" "find_victim_loop ops attempts c = (r, c')"
  shows "cache_ok valid contents c' \<and> keeps contents {} c c' \<and> pc_lookup c' = pc_lookup c \<and>
    length (pc_entries c') = length (pc_entries c) \<and>
    (\<forall>i. r = Inr i \<longrightarrow> i < length (pc_entries c') \<and> \<not> ce_dirty (pc_entries c' ! i))"
  using assms
proof (induction attempts arbitrary: c)
  case (Suc attempts)
  let ?i = "pc_hand c"
  let ?c = "c\<lparr>pc_hand := (?i + 1) mod length (pc_entries c)\<rparr>"
  let ?e = "pc_entries c ! ?i"
  have i: "?i < length (pc_entries c)"
    using Suc.prems(1,2) by (auto simp: cache_ok_def index_ok_def)
  have hand: "(?i + 1) mod length (pc_entries c) < length (pc_entries c)"
    using Suc.prems(2) by simp
  have ok: "cache_ok valid contents ?c"
    by (rule same_view(3) [OF _ _ _ _ _ _ Suc.prems(1)]) (use hand in simp_all)
  have k: "keeps contents {} c ?c" by (rule same_view(1)) simp_all
  consider "ce_referenced ?e" | "\<not> ce_referenced ?e" "ce_dirty ?e" | "\<not> ce_referenced ?e" "\<not> ce_dirty ?e"
    by blast
  then show ?case
  proof cases
    case 1
    let ?c2 = "set_entry ?i (?e\<lparr>ce_referenced := False\<rparr>) ?c"
    have "entry_ok (contents (pc_device c)) (pc_reservations c) ?e"
      using Suc.prems(1) i by (simp add: cache_ok_def)
    then have "entry_ok (contents (pc_device ?c)) (pc_reservations ?c) (?e\<lparr>ce_referenced := False\<rparr>)"
      by simp
    then have ok2: "cache_ok valid contents ?c2"
      using ok i by (intro cache_ok_set_entry) simp_all
    have k2: "keeps contents {} ?c ?c2"
      using ok i by (intro keeps_set_entry) (simp_all add: cache_ok_def sealed_bytes_def)
    have "find_victim_loop ops attempts ?c2 = (r, c')"
      using Suc.prems(3) 1 by (simp add: Let_def)
    from Suc.IH [OF ok2 _ this] Suc.prems(2) keeps_trans [OF keeps_trans [OF k k2]]
    show ?thesis by auto
  next
    case 2
    obtain r2 c2 where w: "write_entry ops ?i ?c = (r2, c2)" by (cases "write_entry ops ?i ?c")
    note we = write_entry_ok [OF ok _ _ w]
    have "c' = c2" "r = (case r2 of Inl e \<Rightarrow> Inl e | Inr _ \<Rightarrow> Inr ?i)"
      using Suc.prems(3) 2 w by (cases r2; simp add: Let_def)+
    then show ?thesis
      using we i 2 keeps_trans [OF k we(2)] by (auto split: sum.splits)
  next
    case 3
    then have "r = Inr ?i" "c' = ?c" using Suc.prems(3) by (simp_all add: Let_def)
    with ok k i 3 show ?thesis by simp
  qed
qed auto

end

section \<open>Adding and removing entries\<close>

definition replace_entry :: "nat \<Rightarrow> cache_entry \<Rightarrow> nat \<Rightarrow> 'd page_cache \<Rightarrow> 'd page_cache" where
  "replace_entry i e h c =
     c\<lparr>pc_lookup := ((pc_lookup c)(entry_key (pc_entries c ! i) := None))(entry_key e \<mapsto> i),
       pc_entries := (pc_entries c)[i := e], pc_hand := h\<rparr>"

definition append_entry :: "cache_entry \<Rightarrow> 'd page_cache \<Rightarrow> 'd page_cache" where
  "append_entry e c =
     c\<lparr>pc_lookup := (pc_lookup c)(entry_key e \<mapsto> length (pc_entries c)), pc_entries := pc_entries c @ [e]\<rparr>"

lemma index_ok_replace:
  assumes ok: "index_ok c" and i: "i < length (pc_entries c)" and h: "h < length (pc_entries c)"
    and new: "pc_lookup c (entry_key e) = None"
  shows "index_ok (replace_entry i e h c)"
proof -
  have neq: "entry_key (pc_entries c ! j) \<noteq> entry_key e" if "j < length (pc_entries c)" for j
    using index_ok_nth [OF ok that] new by auto
  have "pc_lookup (replace_entry i e h c) (entry_key (pc_entries (replace_entry i e h c) ! j)) = Some j"
    if j: "j < length (pc_entries c)" for j
    using index_ok_nth [OF ok j] index_ok_unique [OF ok j i] neq [OF j] i j
    by (cases "j = i") (auto simp: replace_entry_def)
  moreover have "j < length (pc_entries c) \<and> entry_key (pc_entries (replace_entry i e h c) ! j) = k"
    if "pc_lookup (replace_entry i e h c) k = Some j" for k j
    using that index_ok_lookup [OF ok, of k j] i
    by (cases "k = entry_key e"; cases "k = entry_key (pc_entries c ! i)"; cases "j = i")
      (auto simp: replace_entry_def)
  ultimately show ?thesis
    using ok h unfolding index_ok_def by (simp add: replace_entry_def)
qed

lemma index_ok_append:
  assumes ok: "index_ok c" and cap: "length (pc_entries c) < pc_capacity c"
    and new: "pc_lookup c (entry_key e) = None"
  shows "index_ok (append_entry e c)"
proof -
  let ?n = "length (pc_entries c)"
  have neq: "entry_key (pc_entries c ! j) \<noteq> entry_key e" if "j < ?n" for j
    using index_ok_nth [OF ok that] new by auto
  have "pc_lookup (append_entry e c) (entry_key (pc_entries (append_entry e c) ! j)) = Some j"
    if "j < Suc ?n" for j
    using index_ok_nth [OF ok, of j] neq [of j] that
    by (cases "j = ?n") (auto simp: append_entry_def nth_append)
  moreover have "j < Suc ?n \<and> entry_key (pc_entries (append_entry e c) ! j) = k"
    if "pc_lookup (append_entry e c) k = Some j" for k j
    using that index_ok_lookup [OF ok, of k j]
    by (cases "k = entry_key e") (auto simp: append_entry_def nth_append)
  moreover have "pc_hand c < Suc ?n \<or> pc_hand c = 0" using ok by (auto simp: index_ok_def)
  ultimately show ?thesis
    using ok cap unfolding index_ok_def by (simp add: append_entry_def)
qed

lemma clean_value:
  assumes "cache_ok valid contents c" "i < length (pc_entries c)" "\<not> ce_dirty (pc_entries c ! i)"
  shows "ce_id (pc_entries c ! i) < length (contents (pc_device c))"
    "contents (pc_device c) ! ce_id (pc_entries c ! i) = sealed_bytes (pc_entries c ! i)"
  using assms by (auto simp: cache_ok_def entry_ok_def sealed_bytes_def)

lemma replace_entry_ok:
  assumes ok: "cache_ok valid contents c" and i: "i < length (pc_entries c)" and h: "h < length (pc_entries c)"
    and clean: "\<not> ce_dirty (pc_entries c ! i)" and new: "pc_lookup c (entry_key e) = None"
    and e: "entry_ok (contents (pc_device c)) (pc_reservations c) e"
  shows "cache_ok valid contents (replace_entry i e h c)" "keeps contents {entry_key e} c (replace_entry i e h c)"
proof -
  let ?v = "pc_entries c ! i"
  let ?c = "replace_entry i e h c"
  note cv = clean_value [OF ok i clean]
  have iok: "index_ok c" using ok by (simp add: cache_ok_def)
  have "written_present (contents (pc_device c)) (pc_reservations c) (pc_lookup ?c)"
    using ok cv(1)
    by (auto simp: cache_ok_def written_present_def replace_entry_def entry_key_def split: if_splits)
  then show "cache_ok valid contents ?c"
    using ok e index_ok_replace [OF iok i h new] set_update_subset_insert [of "pc_entries c" i e]
    by (auto simp: cache_ok_def replace_entry_def)
  have "page_value (contents (pc_device c)) ?c k = Some w"
    if k: "k \<noteq> entry_key e" and pv: "page_value (contents (pc_device c)) c k = Some w" for k w
  proof (cases "k = entry_key ?v")
    case True
    then have "w = sealed_bytes ?v" using pv index_ok_nth [OF iok i] by (simp add: page_value_def)
    with True k cv show ?thesis by (auto simp: page_value_def replace_entry_def entry_key_def)
  next
    case False
    then have "j \<noteq> i" if "pc_lookup c k = Some j" for j
      using index_ok_lookup(2) [OF iok that] by auto
    with False k pv show ?thesis
      by (auto simp: page_value_def replace_entry_def split: option.splits if_splits)
  qed
  then show "keeps contents {entry_key e} c ?c"
    by (simp add: keeps_def values_kept_def replace_entry_def)
qed

lemma append_entry_ok:
  assumes ok: "cache_ok valid contents c" and cap: "length (pc_entries c) < pc_capacity c"
    and new: "pc_lookup c (entry_key e) = None"
    and e: "entry_ok (contents (pc_device c)) (pc_reservations c) e"
  shows "cache_ok valid contents (append_entry e c)" "keeps contents {entry_key e} c (append_entry e c)"
proof -
  have iok: "index_ok c" using ok by (simp add: cache_ok_def)
  have "written_present (contents (pc_device c)) (pc_reservations c) (pc_lookup (append_entry e c))"
    using ok by (auto simp: cache_ok_def written_present_def append_entry_def split: if_splits)
  then show "cache_ok valid contents (append_entry e c)"
    using ok e index_ok_append [OF iok cap new] by (auto simp: cache_ok_def append_entry_def)
  have "page_value pages (append_entry e c) k = page_value pages c k" if "k \<noteq> entry_key e" for k pages
    using that index_ok_lookup(1) [OF iok, of k]
    by (auto simp: page_value_def append_entry_def nth_append split: option.splits)
  then show "keeps contents {entry_key e} c (append_entry e c)"
    by (simp add: keeps_def values_kept_def append_entry_def)
qed

lemma last_nth: "i < length xs \<Longrightarrow> last xs = xs ! (length xs - 1)"
  by (metis last_conv_nth list.size(3) not_less_zero)

lemma length_swap_remove: "i < length xs \<Longrightarrow> length (swap_remove xs i) = length xs - 1"
  by (simp add: swap_remove_def)

lemma nth_swap_remove:
  assumes "i < length xs" "j < length xs - 1"
  shows "swap_remove xs i ! j = (if j = i then xs ! (length xs - 1) else xs ! j)"
  using assms last_nth [OF assms(1)] by (auto simp: swap_remove_def nth_butlast nth_list_update)

text \<open>Where an index points to after the removal at \<open>i\<close>.\<close>

lemma swap_remove_from:
  assumes "i < length xs" "j < length xs" "j \<noteq> i"
  shows "\<exists>j' < length xs - 1. swap_remove xs i ! j' = xs ! j \<and> (j' = j \<or> j' = i \<and> j = length xs - 1)"
proof (cases "j = length xs - 1")
  case True
  then have "i < length xs - 1" using assms by auto
  with True show ?thesis by (intro exI [of _ i]) (simp add: nth_swap_remove assms)
next
  case False
  then have "j < length xs - 1" using assms by auto
  with assms show ?thesis by (intro exI [of _ j]) (simp add: nth_swap_remove)
qed

lemma remove_entry_none: "pc_lookup c key = None \<Longrightarrow> remove_entry key c = c"
  by (simp add: remove_entry_def)

lemma remove_entry_simps [simp]:
  "pc_device (remove_entry key c) = pc_device c" "pc_reservations (remove_entry key c) = pc_reservations c"
  "pc_capacity (remove_entry key c) = pc_capacity c"
  "pc_unflushed_owners (remove_entry key c) = pc_unflushed_owners c"
  by (simp_all add: remove_entry_def Let_def split: option.split)

lemma remove_entry_fields:
  assumes "index_ok c" "pc_lookup c key = Some i"
  shows "pc_entries (remove_entry key c) = swap_remove (pc_entries c) i"
    "pc_lookup (remove_entry key c) =
       (if i < length (pc_entries c) - 1
        then (pc_lookup c)(key := None, entry_key (last (pc_entries c)) \<mapsto> i) else (pc_lookup c)(key := None))"
    "pc_hand (remove_entry key c) = (if length (pc_entries c) - 1 \<le> pc_hand c then 0 else pc_hand c)"
proof -
  note i = index_ok_lookup(1) [OF assms]
  have "entry_key (swap_remove (pc_entries c) i ! i) = entry_key (last (pc_entries c))"
    if "i < length (pc_entries c) - 1"
    using nth_swap_remove [OF i that] by (simp add: last_nth [OF i])
  then show "pc_entries (remove_entry key c) = swap_remove (pc_entries c) i"
    "pc_lookup (remove_entry key c) =
       (if i < length (pc_entries c) - 1
        then (pc_lookup c)(key := None, entry_key (last (pc_entries c)) \<mapsto> i) else (pc_lookup c)(key := None))"
    "pc_hand (remove_entry key c) = (if length (pc_entries c) - 1 \<le> pc_hand c then 0 else pc_hand c)"
    using assms(2) i by (auto simp: remove_entry_def Let_def length_swap_remove)
qed

lemma remove_entry_lookup:
  assumes ok: "index_ok c" and k: "pc_lookup c key = Some i"
  shows "pc_lookup (remove_entry key c) q =
    (if q = key then None
     else case pc_lookup c q of None \<Rightarrow> None
       | Some j \<Rightarrow> Some (if j = length (pc_entries c) - 1 then i else j))"
proof -
  note i = index_ok_lookup [OF ok k]
  let ?n = "length (pc_entries c) - 1"
  have n: "?n < length (pc_entries c)" using i by linarith
  have last: "pc_lookup c (entry_key (last (pc_entries c))) = Some ?n"
    using index_ok_nth [OF ok n] by (simp only: last_nth [OF i(1)])
  have lastq: "q = entry_key (last (pc_entries c))" if "pc_lookup c q = Some ?n"
    using index_ok_lookup(2) [OF ok that] by (simp only: last_nth [OF i(1)])
  note f = remove_entry_fields(2) [OF ok k]
  show ?thesis
  proof (cases "q = key")
    case True
    have "entry_key (last (pc_entries c)) \<noteq> key" if "i < ?n"
      using last k that by auto
    with True f show ?thesis by auto
  next
    case q: False
    show ?thesis
    proof (cases "pc_lookup c q")
      case None
      then have "q \<noteq> entry_key (last (pc_entries c))" using last by auto
      with q None f show ?thesis by auto
    next
      case (Some j)
      have "q = entry_key (last (pc_entries c)) \<longleftrightarrow> j = ?n"
        using last lastq Some by auto
      moreover have "i < ?n" if "j = ?n"
      proof -
        have "i \<noteq> ?n" using index_ok_lookup(2) [OF ok Some] i(2) q that by auto
        with i(1) show ?thesis by linarith
      qed
      ultimately show ?thesis using q Some f by auto
    qed
  qed
qed

lemma remove_entry_value:
  assumes ok: "index_ok c"
  shows "q \<noteq> key \<Longrightarrow> page_value pages (remove_entry key c) q = page_value pages c q"
    "pc_lookup (remove_entry key c) key = None"
    "q \<noteq> key \<Longrightarrow> pc_lookup (remove_entry key c) q = None \<longleftrightarrow> pc_lookup c q = None"
proof -
  show "pc_lookup (remove_entry key c) key = None"
    using remove_entry_lookup [OF ok] by (cases "pc_lookup c key") (auto simp: remove_entry_none)
  show "q \<noteq> key \<Longrightarrow> pc_lookup (remove_entry key c) q = None \<longleftrightarrow> pc_lookup c q = None"
    using remove_entry_lookup [OF ok]
    by (cases "pc_lookup c key") (auto simp: remove_entry_none split: option.splits)
  show "page_value pages (remove_entry key c) q = page_value pages c q" if q: "q \<noteq> key"
  proof (cases "pc_lookup c key")
    case (Some i)
    note i = index_ok_lookup [OF ok Some]
    show ?thesis
    proof (cases "pc_lookup c q")
      case (Some j)
      note j = index_ok_lookup [OF ok Some]
      have ji: "j \<noteq> i" using q i j by auto
      show ?thesis
        using Some q ji i j \<open>pc_lookup c key = Some i\<close>
        by (auto simp: page_value_def remove_entry_lookup [OF ok \<open>pc_lookup c key = Some i\<close>]
            remove_entry_fields(1) [OF ok \<open>pc_lookup c key = Some i\<close>] nth_swap_remove)
    qed (use q remove_entry_lookup [OF ok Some] in \<open>simp add: page_value_def\<close>)
  qed (simp add: remove_entry_none)
qed

lemma remove_entry_index:
  assumes ok: "index_ok c"
  shows "index_ok (remove_entry key c)"
    and "set (pc_entries (remove_entry key c)) = {e \<in> set (pc_entries c). entry_key e \<noteq> key}"
proof -
  have "index_ok (remove_entry key c) \<and>
    set (pc_entries (remove_entry key c)) = {e \<in> set (pc_entries c). entry_key e \<noteq> key}"
  proof (cases "pc_lookup c key")
    case None
    then have "entry_key e \<noteq> key" if "e \<in> set (pc_entries c)" for e
      using that index_ok_nth [OF ok] by (auto simp: in_set_conv_nth)
    with None ok show ?thesis by (auto simp: remove_entry_none)
  next
    case (Some i)
    note i = index_ok_lookup [OF ok Some]
    note f = remove_entry_fields [OF ok Some]
    let ?xs = "pc_entries c" and ?ys = "swap_remove (pc_entries c) i"
    let ?n = "length ?xs - 1"
    have len: "length ?ys = ?n" by (rule length_swap_remove [OF i(1)])
    have from_old: "\<exists>j < length ?xs. j \<noteq> i \<and> ?ys ! m = ?xs ! j \<and> (j = m \<or> m = i \<and> j = ?n)" if "m < ?n" for m
      using nth_swap_remove [OF i(1) that] that i(1)
      by (cases "m = i") (auto intro: exI [of _ ?n] exI [of _ m])
    have other: "entry_key (?xs ! j) \<noteq> key" if "j < length ?xs" "j \<noteq> i" for j
      using index_ok_unique [OF ok that(1) i(1)] that i(2) by auto
    have looks: "pc_lookup (remove_entry key c) (entry_key (?ys ! m)) = Some m" if m: "m < ?n" for m
    proof -
      obtain j where j: "j < length ?xs" "j \<noteq> i" "?ys ! m = ?xs ! j" "j = m \<or> m = i \<and> j = ?n"
        using from_old [OF m] by blast
      then show ?thesis
        using remove_entry_lookup [OF ok Some, of "entry_key (?xs ! j)"] index_ok_nth [OF ok j(1)]
          other [OF j(1,2)] m by auto
    qed
    have inv: "m < ?n \<and> entry_key (?ys ! m) = q" if q: "pc_lookup (remove_entry key c) q = Some m" for q m
    proof -
      obtain j where j: "pc_lookup c q = Some j" "q \<noteq> key" "m = (if j = ?n then i else j)"
        using q remove_entry_lookup [OF ok Some, of q] by (auto split: option.splits if_splits)
      note jj = index_ok_lookup [OF ok j(1)]
      have "j \<noteq> i" using i jj j(2) by auto
      with jj i j(3) show ?thesis by (auto simp: nth_swap_remove)
    qed
    have "index_ok (remove_entry key c)"
      using looks inv ok i f(1,3) len unfolding index_ok_def by auto
    moreover have "set ?ys = {e \<in> set ?xs. entry_key e \<noteq> key}"
    proof (intro set_eqI iffI)
      fix e assume "e \<in> set ?ys"
      then obtain m where "m < ?n" "e = ?ys ! m" by (auto simp: in_set_conv_nth len)
      moreover from from_old [OF this(1)] obtain j where "j < length ?xs" "j \<noteq> i" "?ys ! m = ?xs ! j" by blast
      ultimately show "e \<in> {e \<in> set ?xs. entry_key e \<noteq> key}" using other [of j] by simp
    next
      fix e assume "e \<in> {e \<in> set ?xs. entry_key e \<noteq> key}"
      then obtain j where "j < length ?xs" "e = ?xs ! j" "j \<noteq> i" using i by (auto simp: in_set_conv_nth)
      with swap_remove_from [OF i(1) this(1,3)] show "e \<in> set ?ys"
        by (metis len nth_mem)
    qed
    ultimately show ?thesis using f(1) by simp
  qed
  then show "index_ok (remove_entry key c)"
    "set (pc_entries (remove_entry key c)) = {e \<in> set (pc_entries c). entry_key e \<noteq> key}" by blast+
qed

section \<open>Reading and writing through the cache\<close>

context page_device
begin

lemma cache_insert_ok:
  assumes ok: "cache_ok valid contents c" and new: "pc_lookup c (entry_key e) = None"
    and e: "entry_ok (contents (pc_device c)) (pc_reservations c) e"
    and read: "\<not> ce_dirty e \<Longrightarrow> readable (pc_reservations c) (entry_key e)"
    and ins: "cache_insert ops e c = (r, c')"
  shows "cache_ok valid contents c'" "keeps contents {entry_key e} c c'"
    "r = Inr i \<Longrightarrow> pc_lookup c' (entry_key e) = Some i \<and> pc_entries c' ! i = e"
    "r = Inl x \<Longrightarrow> keeps contents {} c c' \<and> pc_lookup c' (entry_key e) = None"
proof -
  have "cache_ok valid contents c' \<and> keeps contents {entry_key e} c c' \<and>
    (\<forall>i. r = Inr i \<longrightarrow> pc_lookup c' (entry_key e) = Some i \<and> pc_entries c' ! i = e) \<and>
    (\<forall>x. r = Inl x \<longrightarrow> keeps contents {} c c' \<and> pc_lookup c' (entry_key e) = None)"
  proof (cases "length (pc_entries c) < pc_capacity c")
    case True
    then have "r = Inr (length (pc_entries c))" "c' = append_entry e c"
      using ins by (simp_all add: cache_insert_def append_entry_def Let_def)
    with append_entry_ok [OF ok True new e] show ?thesis by (simp add: append_entry_def)
  next
    case False
    have cap: "pc_entries c \<noteq> []"
      using False ok by (auto simp: cache_ok_def index_ok_def)
    obtain r1 c1 where v: "find_victim ops c = (r1, c1)" by (cases "find_victim ops c")
    then have loop: "find_victim_loop ops (length (pc_entries c) * 2) c = (r1, c1)"
      by (simp add: find_victim_def)
    note f = find_victim_loop_ok [OF ok cap loop]
    show ?thesis
    proof (cases r1)
      case (Inl x)
      then have "r = Inl x" "c' = c1" using ins False v by (simp_all add: cache_insert_def)
      with f new show ?thesis by (auto intro: keeps_mono)
    next
      case (Inr j)
      then have r: "r = Inr j" and c': "c' = replace_entry j e ((j + 1) mod length (pc_entries c1)) c1"
        using ins False v by (auto simp: cache_insert_def replace_entry_def Let_def)
      have j: "j < length (pc_entries c1)" "\<not> ce_dirty (pc_entries c1 ! j)" using f Inr by auto
      have rs: "pc_reservations c1 = pc_reservations c" using f by (simp add: keeps_def)
      have new1: "pc_lookup c1 (entry_key e) = None" using f new by simp
      have e1: "entry_ok (contents (pc_device c1)) (pc_reservations c1) e"
      proof (cases "ce_dirty e")
        case True
        with e rs show ?thesis by (simp add: entry_ok_def)
      next
        case clean: False
        have "page_value (contents (pc_device c)) c (entry_key e) = Some (ce_bytes e)"
          using e clean new by (simp add: entry_ok_def page_value_def entry_key_def)
        then have "page_value (contents (pc_device c1)) c1 (entry_key e) = Some (ce_bytes e)"
          using f read [OF clean] keeps_value by blast
        with e clean rs new1 show ?thesis
          by (auto simp: entry_ok_def page_value_def entry_key_def split: if_splits)
      qed
      have h: "(j + 1) mod length (pc_entries c1) < length (pc_entries c1)"
        using j by (intro mod_less_divisor) auto
      have ok1: "cache_ok valid contents c1" using f by simp
      note rep = replace_entry_ok [OF ok1 j(1) h j(2) new1 e1]
      have "keeps contents {entry_key e} c c1" using f by (auto intro: keeps_mono)
      with rep f r c' j show ?thesis
        by (auto simp: replace_entry_def intro: keeps_trans)
    qed
  qed
  then show "cache_ok valid contents c'" "keeps contents {entry_key e} c c'"
    "r = Inr i \<Longrightarrow> pc_lookup c' (entry_key e) = Some i \<and> pc_entries c' ! i = e"
    "r = Inl x \<Longrightarrow> keeps contents {} c c' \<and> pc_lookup c' (entry_key e) = None" by blast+
qed

lemma on_device_read:
  assumes "cache_ok valid contents c" "on_device (dev_read_page ops pid) c = (r, c')"
  shows "cache_ok valid contents c' \<and> keeps contents {} c c' \<and> pc_lookup c' = pc_lookup c \<and>
    contents (pc_device c') = contents (pc_device c) \<and>
    (\<forall>bs. r = Inr bs \<longrightarrow> pid < length (contents (pc_device c)) \<and> bs = contents (pc_device c) ! pid)"
proof -
  obtain d' where d': "dev_read_page ops pid (pc_device c) = (r, d')" "c' = c\<lparr>pc_device := d'\<rparr>"
    using assms(2) by (auto simp: on_device_def split: prod.splits)
  note rd = read_one [OF _ d'(1)]
  have "valid d'" "contents d' = contents (pc_device c)"
    using rd assms(1) by (simp_all add: cache_ok_def)
  with device_update [OF assms(1), of d'] d' rd assms(1) show ?thesis
    by (auto simp: cache_ok_def)
qed

text \<open>
  A read of a readable page returns its value: from the cache as it was written, checksum field aside
  while it is unsealed, or from the device, verified. Nothing else changes value.
\<close>

lemma read_owned_ok:
  assumes ok: "cache_ok valid contents c" and rdb: "readable (pc_reservations c) (own, pid)"
    and rd: "read_owned ops own pid verify c = (r, c')"
  shows "cache_ok valid contents c'" "keeps contents {} c c'"
    "r = Inr bs \<Longrightarrow> page_value (contents (pc_device c)) c (own, pid) = Some bs \<or>
        page_value (contents (pc_device c)) c (own, pid) = Some (seal bs)"
    "r = Inr bs \<Longrightarrow> pc_lookup c (own, pid) = None \<Longrightarrow>
        verify bs = Inr () \<and> page_value (contents (pc_device c)) c (own, pid) = Some bs"
proof -
  have "cache_ok valid contents c' \<and> keeps contents {} c c' \<and>
    (\<forall>bs. r = Inr bs \<longrightarrow> (page_value (contents (pc_device c)) c (own, pid) = Some bs \<or>
        page_value (contents (pc_device c)) c (own, pid) = Some (seal bs)) \<and>
      (pc_lookup c (own, pid) = None \<longrightarrow>
        verify bs = Inr () \<and> page_value (contents (pc_device c)) c (own, pid) = Some bs))"
  proof (cases "pc_lookup c (own, pid)")
    case (Some i)
    let ?e = "pc_entries c ! i"
    have i: "i < length (pc_entries c)" using ok Some index_ok_lookup(1) by (auto simp: cache_ok_def)
    have c': "c' = set_entry i (?e\<lparr>ce_referenced := True\<rparr>) c" and r: "r = Inr (ce_bytes ?e)"
      using rd Some by (simp_all add: read_owned_def Let_def)
    have "entry_ok (contents (pc_device c)) (pc_reservations c) ?e" using ok i by (simp add: cache_ok_def)
    then have "cache_ok valid contents c'" unfolding c' using ok i by (intro cache_ok_set_entry) simp_all
    moreover have "keeps contents {} c c'"
      unfolding c' using ok i by (intro keeps_set_entry) (simp_all add: cache_ok_def sealed_bytes_def)
    moreover have "page_value (contents (pc_device c)) c (own, pid) = Some (sealed_bytes ?e)"
      using Some by (simp add: page_value_def)
    ultimately show ?thesis using r Some by (auto simp: sealed_bytes_def)
  next
    case None
    obtain r1 c1 where s1: "on_device (dev_read_page ops pid) c = (r1, c1)"
      by (cases "on_device (dev_read_page ops pid) c")
    note d = on_device_read [OF ok s1]
    show ?thesis
    proof (cases r1)
      case (Inl x)
      then show ?thesis using rd None s1 d by (auto simp: read_owned_def)
    next
      case (Inr bs)
      have pv: "page_value (contents (pc_device c)) c (own, pid) = Some bs"
        using None d Inr by (simp add: page_value_def)
      show ?thesis
      proof (cases "verify bs")
        case (Inl x)
        then have "r = Inl x" "c' = c1" using rd None s1 Inr by (simp_all add: read_owned_def bind_op_def)
        with d show ?thesis by simp
      next
        case v: (Inr u)
        let ?e = "\<lparr>ce_id = pid, ce_owner = own, ce_bytes = bs, ce_referenced = True, ce_dirty = False,
            ce_unsealed = False\<rparr>"
        obtain r2 c2 where s2: "cache_insert ops ?e c1 = (r2, c2)" by (cases "cache_insert ops ?e c1")
        have key: "entry_key ?e = (own, pid)" by (simp add: entry_key_def)
        have rs: "pc_reservations c1 = pc_reservations c" using d by (simp add: keeps_def)
        have "length bs = 4096"
          using d Inr ok whole_pages [of "pc_device c"] by (auto simp: cache_ok_def)
        then have eok: "entry_ok (contents (pc_device c1)) (pc_reservations c1) ?e"
          using d Inr rdb rs by (cases own) (auto simp: entry_ok_def reserved_for_def)
        have ok1: "cache_ok valid contents c1" using d by simp
        note ins = cache_insert_ok [OF ok1 _ eok _ s2]
        have n1: "pc_lookup c1 (entry_key ?e) = None" using d None key by simp
        have rd1: "readable (pc_reservations c1) (entry_key ?e)" using rdb rs key by simp
        have c'2: "c' = c2" "r = (case r2 of Inl x \<Rightarrow> Inl x | Inr i \<Rightarrow> Inr (ce_bytes (pc_entries c2 ! i)))"
          using rd None s1 Inr v s2 by (cases r2; simp add: read_owned_def bind_op_def)+
        have kp: "keeps contents {} c1 c2"
        proof (cases r2)
          case (Inl x)
          then show ?thesis using ins(4) d n1 rd1 by blast
        next
          case (Inr i)
          have k2: "keeps contents {(own, pid)} c1 c2" using ins(2) d n1 rd1 key by auto
          have "pc_lookup c2 (own, pid) = Some i" "pc_entries c2 ! i = ?e"
            using ins(3) [of i] d n1 rd1 Inr key by auto
          then have "page_value (contents (pc_device c2)) c2 (own, pid) = Some bs"
            by (simp add: page_value_def sealed_bytes_def)
          moreover have "page_value (contents (pc_device c1)) c1 (own, pid) = Some bs"
            using n1 key d \<open>r1 = Inr bs\<close> by (simp add: page_value_def)
          ultimately show ?thesis using k2 by (intro keeps_shrink) auto
        qed
        have "keeps contents {} c c2" using d kp keeps_trans by blast
        moreover have "cache_ok valid contents c2" using ins(1) d n1 rd1 by blast
        moreover have "\<forall>bs'. r = Inr bs' \<longrightarrow> bs' = bs"
          using c'2(2) ins(3) d n1 rd1 by (cases r2) auto
        ultimately show ?thesis using c'2(1) pv v by auto
      qed
    qed
  qed
  then show "cache_ok valid contents c'" "keeps contents {} c c'"
    "r = Inr bs \<Longrightarrow> page_value (contents (pc_device c)) c (own, pid) = Some bs \<or>
        page_value (contents (pc_device c)) c (own, pid) = Some (seal bs)"
    "r = Inr bs \<Longrightarrow> pc_lookup c (own, pid) = None \<Longrightarrow>
        verify bs = Inr () \<and> page_value (contents (pc_device c)) c (own, pid) = Some bs" by blast+
qed

lemma write_owned_ok:
  assumes ok: "cache_ok valid contents c" and res: "reserved_for (pc_reservations c) k pid"
    and w: "write_owned ops (Candidate k) pid bs unsealed c = (r, c')"
  shows "cache_ok valid contents c'" "keeps contents {(Candidate k, pid)} c c'"
    "r = Inr u \<Longrightarrow> length bs = 4096 \<and> pc_lookup c' (Candidate k, pid) \<noteq> None \<and>
       page_value (contents (pc_device c')) c' (Candidate k, pid) = Some (if unsealed then seal bs else bs)"
    "r = Inl x \<Longrightarrow> keeps contents {} c c'"
proof -
  have "cache_ok valid contents c' \<and> keeps contents {(Candidate k, pid)} c c' \<and>
    (\<forall>u. r = Inr u \<longrightarrow> length bs = 4096 \<and> pc_lookup c' (Candidate k, pid) \<noteq> None \<and>
       page_value (contents (pc_device c')) c' (Candidate k, pid) = Some (if unsealed then seal bs else bs)) \<and>
    (\<forall>x. r = Inl x \<longrightarrow> keeps contents {} c c')"
  proof (cases "length bs = 4096")
    case False
    then show ?thesis using w ok by (auto simp: write_owned_def)
  next
    case len: True
    show ?thesis
    proof (cases "pc_lookup c (Candidate k, pid)")
      case (Some i)
      let ?e = "(pc_entries c ! i)\<lparr>ce_bytes := bs, ce_referenced := True, ce_dirty := True, ce_unsealed := unsealed\<rparr>"
      have i: "i < length (pc_entries c)" "entry_key (pc_entries c ! i) = (Candidate k, pid)"
        using ok Some index_ok_lookup by (auto simp: cache_ok_def)
      have c': "c' = set_entry i ?e c" "r = Inr ()" using w Some len by (auto simp: write_owned_def)
      have key: "entry_key ?e = entry_key (pc_entries c ! i)" by (simp add: entry_key_def)
      have eok: "entry_ok (contents (pc_device c)) (pc_reservations c) ?e"
        using res i(2) len by (simp add: entry_ok_def entry_key_def)
      have "cache_ok valid contents c'" unfolding c' using ok i key eok by (intro cache_ok_set_entry)
      moreover have "keeps contents {(Candidate k, pid)} c c'"
        unfolding c' using ok i by (intro keeps_set_entry) (simp_all add: cache_ok_def)
      ultimately show ?thesis
        using c' Some i(1) len by (auto simp: page_value_def sealed_bytes_def)
    next
      case None
      let ?e = "\<lparr>ce_id = pid, ce_owner = Candidate k, ce_bytes = bs, ce_referenced = True, ce_dirty = True,
          ce_unsealed = unsealed\<rparr>"
      have key: "entry_key ?e = (Candidate k, pid)" by (simp add: entry_key_def)
      have eok: "entry_ok (contents (pc_device c)) (pc_reservations c) ?e"
        using res len by (simp add: entry_ok_def)
      obtain r1 c1 where s: "cache_insert ops ?e c = (r1, c1)" by (cases "cache_insert ops ?e c")
      note ins = cache_insert_ok [OF ok _ eok _ s]
      have n: "pc_lookup c (entry_key ?e) = None" using None key by simp
      have c': "c' = c1" "r = (case r1 of Inl x \<Rightarrow> Inl x | Inr _ \<Rightarrow> Inr ())"
        using w None len s by (cases r1; simp add: write_owned_def)+
      have "pc_lookup c1 (Candidate k, pid) = Some i \<and> pc_entries c1 ! i = ?e" if "r1 = Inr i" for i
        using ins(3) [OF n _ that] key by simp
      with c' ins(1,2,4) n key len show ?thesis
        by (cases r1) (auto simp: page_value_def sealed_bytes_def)
    qed
  qed
  then show "cache_ok valid contents c'" "keeps contents {(Candidate k, pid)} c c'"
    "r = Inr u \<Longrightarrow> length bs = 4096 \<and> pc_lookup c' (Candidate k, pid) \<noteq> None \<and>
       page_value (contents (pc_device c')) c' (Candidate k, pid) = Some (if unsealed then seal bs else bs)"
    "r = Inl x \<Longrightarrow> keeps contents {} c c'" by blast+
qed

end

end
