(* ===== verification/CacheOps.thy ===== *)
theory CacheOps
  imports CacheProofs
begin

text \<open>
  The operations the pager calls on the cache, each shown to keep the invariant and to do what it is
  named for: reserving, writing and releasing a candidate's pages, writing them out in runs, installing
  them as the committed view, and abandoning them.
\<close>

lemma entry_cached: "index_ok c \<Longrightarrow> e \<in> set (pc_entries c) \<Longrightarrow> pc_lookup c (entry_key e) \<noteq> None"
  by (metis in_set_conv_nth index_ok_nth option.distinct(1))

section \<open>A new cache\<close>

lemma cache_with_capacity_ok:
  assumes "cache_with_capacity d bytes' = Inr c" "valid d"
  shows "cache_ok valid contents c \<and> pc_device c = d \<and> pc_reservations c = []"
  using assms
  by (auto simp: cache_with_capacity_def cache_ok_def index_ok_def reservations_ok_def written_present_def
      split: if_splits)

section \<open>Reserving a page\<close>

lemma reserve_candidate_page_ok:
  assumes ok: "cache_ok valid contents c"
    and res: "reserve_candidate_page k pid bitmap c = (r, c')"
  shows "cache_ok valid contents c'" "pc_device c' = pc_device c"
    "r = Inr u \<Longrightarrow> 6 \<le> pid \<and> pid < 65536 \<and> \<not> allocates bitmap pid \<and> reserved_for (pc_reservations c') k pid \<and>
       reserved (pc_reservations c') = insert pid (reserved (pc_reservations c))"
    "r = Inl x \<Longrightarrow> c' = c"
    "q \<noteq> pid \<Longrightarrow> map_of (pc_reservations c') q = map_of (pc_reservations c) q"
    "page_value pages c' q' = page_value pages c q'"
proof -
  have "c' = c \<or> c' = c\<lparr>pc_reservations := (pid, \<lparr>rv_candidate = k, rv_written = False\<rparr>) # pc_reservations c\<rparr> \<and>
      map_of (pc_reservations c) pid = None \<and> pc_lookup c (Committed, pid) = None \<and> 6 \<le> pid \<and>
      (\<forall>q rv rs. pc_reservations c = (q, rv) # rs \<longrightarrow> rv_candidate rv = k)"
    using res
    by (auto simp: reserve_candidate_page_def bind_op_def get_reservation_def
        split: if_splits sum.splits option.splits list.splits)
  then consider (same) "c' = c"
    | (added) "c' = c\<lparr>pc_reservations := (pid, \<lparr>rv_candidate = k, rv_written = False\<rparr>) # pc_reservations c\<rparr>"
      "map_of (pc_reservations c) pid = None" "pc_lookup c (Committed, pid) = None" "6 \<le> pid"
      "\<forall>q rv rs. pc_reservations c = (q, rv) # rs \<longrightarrow> rv_candidate rv = k"
    by auto
  then show "cache_ok valid contents c'"
  proof cases
    case added
    have iok: "index_ok c" using ok by (simp add: cache_ok_def)
    have fresh: "pid \<notin> fst ` set (pc_reservations c)"
      using added(2) by (simp add: map_of_eq_None_iff)
    have rok: "reservations_ok (pc_reservations c)" using ok by (simp add: cache_ok_def)
    have one: "rv_candidate rv = k" if "(q, rv) \<in> set (pc_reservations c)" for q rv
    proof -
      have "pc_reservations c \<noteq> []" using that by auto
      then obtain q' rv' rs where cons: "pc_reservations c = (q', rv') # rs"
        by (metis list.exhaust surj_pair)
      then have "rv_candidate rv' = k" using added(5) by blast
      with rok that cons show ?thesis by (fastforce simp: reservations_ok_def)
    qed
    have rok': "reservations_ok (pc_reservations c')"
      using rok fresh added(1,4) one by (auto simp: reservations_ok_def)
    have eok: "entry_ok (contents (pc_device c)) (pc_reservations c') e" if e: "e \<in> set (pc_entries c)" for e
    proof -
      have old: "entry_ok (contents (pc_device c)) (pc_reservations c) e" using ok e by (simp add: cache_ok_def)
      have "ce_owner e = Committed \<Longrightarrow> ce_id e \<noteq> pid"
        using added(3) entry_cached [OF iok e] by (auto simp: entry_key_def)
      moreover have "ce_id e \<noteq> pid" if "ce_owner e = Candidate j" for j
        using old that fresh by (auto simp: entry_ok_def dest!: reserved_for_reserved simp: reserved_def)
      ultimately show ?thesis
        using old added(1) by (auto simp: entry_ok_def reserved_def reserved_for_def split: owner.splits)
    qed
    have "written_present (contents (pc_device c)) (pc_reservations c') (pc_lookup c)"
      using ok added(1) by (auto simp: cache_ok_def written_present_def split: if_splits)
    with ok added(1) rok' eok show ?thesis by (auto simp: cache_ok_def index_ok_def)
  qed (use ok in simp)
  show "pc_device c' = pc_device c" "r = Inl x \<Longrightarrow> c' = c"
    "r = Inr u \<Longrightarrow> 6 \<le> pid \<and> pid < 65536 \<and> \<not> allocates bitmap pid \<and> reserved_for (pc_reservations c') k pid \<and>
       reserved (pc_reservations c') = insert pid (reserved (pc_reservations c))"
    "q \<noteq> pid \<Longrightarrow> map_of (pc_reservations c') q = map_of (pc_reservations c) q"
    using res
    by (auto simp: reserve_candidate_page_def bind_op_def get_reservation_def is_allocated_def
        validate_page_id_def reserved_for_def reserved_def and_then_def dest!: map_of_SomeD
        split: if_splits sum.splits option.splits list.splits intro: rev_image_eqI)
  show "page_value pages c' q' = page_value pages c q'"
    using res
    by (auto simp: reserve_candidate_page_def bind_op_def page_value_def
        split: if_splits sum.splits option.splits list.splits)
qed

section \<open>Writing a candidate's page\<close>

lemma map_of_set_written:
  "map_of (map (\<lambda>(q, r). (q, if q = pid then r\<lparr>rv_written := True\<rparr> else r)) rs) q =
     (if q = pid then map_option (\<lambda>r. r\<lparr>rv_written := True\<rparr>) (map_of rs q) else map_of rs q)"
  by (induction rs) auto

lemma set_written_simps [simp]:
  "pc_device (set_written pid c) = pc_device c" "pc_lookup (set_written pid c) = pc_lookup c"
  "pc_entries (set_written pid c) = pc_entries c" "pc_capacity (set_written pid c) = pc_capacity c"
  "pc_hand (set_written pid c) = pc_hand c"
  by (simp_all add: set_written_def)

lemma set_written_value [simp]: "page_value pages (set_written pid c) = page_value pages c"
  by (rule ext) (simp add: page_value_def split: option.split)

lemma set_written_reserved [simp]:
  "reserved (pc_reservations (set_written pid c)) = reserved (pc_reservations c)"
  "reserved_for (pc_reservations (set_written pid c)) = reserved_for (pc_reservations c)"
proof -
  show "reserved (pc_reservations (set_written pid c)) = reserved (pc_reservations c)"
    by (force simp: reserved_def set_written_def)
  show "reserved_for (pc_reservations (set_written pid c)) = reserved_for (pc_reservations c)"
    by (intro ext) (auto simp: reserved_for_def set_written_def map_of_set_written)
qed

lemma reservations_ok_set_written:
  "reservations_ok (pc_reservations (set_written pid c)) = reservations_ok (pc_reservations c)"
proof -
  let ?m = "\<lambda>(q, r). (q, if q = pid then r\<lparr>rv_written := True\<rparr> else r)"
  have "map fst (map ?m rs) = map fst rs" for rs :: reservations by (simp add: comp_def case_prod_unfold)
  moreover have "fst (?m p) = fst p" "rv_candidate (snd (?m p)) = rv_candidate (snd p)" for p :: "nat \<times> reservation"
    by (simp_all add: case_prod_unfold)
  ultimately show ?thesis
    unfolding reservations_ok_def set_written_def case_prod_unfold by (simp add: comp_def)
qed

lemma set_written_ok:
  assumes ok: "cache_ok valid contents c" and there: "reserved_for (pc_reservations c) k pid"
    and cached: "pc_lookup c (Candidate k, pid) \<noteq> None"
  shows "cache_ok valid contents (set_written pid c)"
proof -
  have "entry_ok pages (pc_reservations (set_written pid c)) e = entry_ok pages (pc_reservations c) e"
    for pages e by (simp add: entry_ok_def split: owner.split)
  moreover have "written_present (contents (pc_device c)) (pc_reservations (set_written pid c)) (pc_lookup c)"
  proof -
    have old: "q < length (contents (pc_device c))"
      if "map_of (pc_reservations c) q = Some r" "rv_written r" "pc_lookup c (Candidate (rv_candidate r), q) = None"
      for q r using ok that by (simp add: cache_ok_def written_present_def)
    obtain r0 where r0: "map_of (pc_reservations c) pid = Some r0" "rv_candidate r0 = k"
      using there by (auto simp: reserved_for_def)
    show ?thesis
      unfolding written_present_def set_written_def
      using old r0 cached by (auto simp: map_of_set_written split: if_splits)
  qed
  moreover have "index_ok (set_written pid c) = index_ok c" by (simp add: index_ok_def)
  ultimately show ?thesis using ok by (simp add: cache_ok_def reservations_ok_set_written)
qed

context page_device
begin

text \<open>
  A write to a page the candidate has reserved: on success the page is its own to read, with the value
  written; no other page changes value, and the device changes only at reserved pages or past its end.
\<close>

lemma write_candidate_ok:
  assumes ok: "cache_ok valid contents c" and w: "write_candidate ops k pid bs unsealed c = (r, c')"
  shows "cache_ok valid contents c'"
    "r = Inr u \<Longrightarrow> reserved_for (pc_reservations c) k pid \<and> length bs = 4096 \<and>
       readable (pc_reservations c') (Candidate k, pid) \<and>
       page_value (contents (pc_device c')) c' (Candidate k, pid) = Some (if unsealed then seal bs else bs)"
    "values_kept contents {(Candidate k, pid)} c c'"
    "only_touches (reserved (pc_reservations c) \<union> {length (contents (pc_device c))..})
       (contents (pc_device c)) (contents (pc_device c'))"
    "reserved (pc_reservations c') = reserved (pc_reservations c)"
    "r = Inl x \<Longrightarrow> keeps contents {} c c'"
proof -
  have "cache_ok valid contents c' \<and>
    (r = Inr u \<longrightarrow> reserved_for (pc_reservations c) k pid \<and> length bs = 4096 \<and>
       readable (pc_reservations c') (Candidate k, pid) \<and>
       page_value (contents (pc_device c')) c' (Candidate k, pid) = Some (if unsealed then seal bs else bs)) \<and>
    values_kept contents {(Candidate k, pid)} c c' \<and>
    only_touches (reserved (pc_reservations c) \<union> {length (contents (pc_device c))..})
       (contents (pc_device c)) (contents (pc_device c')) \<and>
    reserved (pc_reservations c') = reserved (pc_reservations c) \<and> (r = Inl x \<longrightarrow> keeps contents {} c c')"
  proof (cases "ensure_reserved_by c k pid")
    case (Inl e)
    then have "r = Inl e" "c' = c" using w by (simp_all add: write_candidate_def bind_op_def)
    with ok show ?thesis by (simp add: values_kept_def)
  next
    case (Inr v)
    then have res: "reserved_for (pc_reservations c) k pid"
      by (auto simp: ensure_reserved_by_def get_reservation_def reserved_for_def split: option.splits if_splits)
    obtain r1 c1 where s: "write_owned ops (Candidate k) pid bs unsealed c = (r1, c1)"
      by (cases "write_owned ops (Candidate k) pid bs unsealed c")
    note wo = write_owned_ok [OF ok res s]
    have rs: "pc_reservations c1 = pc_reservations c" using wo(2) by (simp add: keeps_def)
    show ?thesis
    proof (cases r1)
      case (Inl e)
      then have "r = Inl e" "c' = c1" using w Inr s by (simp_all add: write_candidate_def bind_op_def)
      with wo Inl show ?thesis by (auto simp: keeps_def)
    next
      case (Inr v')
      then have c': "r = Inr ()" "c' = set_written pid c1"
        using w \<open>ensure_reserved_by c k pid = Inr v\<close> s by (simp_all add: write_candidate_def bind_op_def)
      have "cache_ok valid contents c'"
        unfolding c' by (rule set_written_ok [OF wo(1)]) (use res rs wo(3) Inr in auto)
      moreover have "readable (pc_reservations c') (Candidate k, pid)"
        using res rs by (auto simp: c' set_written_def map_of_set_written reserved_for_def)
      moreover have "values_kept contents {(Candidate k, pid)} c c'"
        using wo(2) by (simp add: c' keeps_def values_kept_def)
      ultimately show ?thesis
        using wo(2) wo(3) [OF Inr] res rs c' by (auto simp: keeps_def)
    qed
  qed
  then show "cache_ok valid contents c'"
    "r = Inr u \<Longrightarrow> reserved_for (pc_reservations c) k pid \<and> length bs = 4096 \<and>
       readable (pc_reservations c') (Candidate k, pid) \<and>
       page_value (contents (pc_device c')) c' (Candidate k, pid) = Some (if unsealed then seal bs else bs)"
    "values_kept contents {(Candidate k, pid)} c c'"
    "only_touches (reserved (pc_reservations c) \<union> {length (contents (pc_device c))..})
       (contents (pc_device c)) (contents (pc_device c'))"
    "reserved (pc_reservations c') = reserved (pc_reservations c)"
    "r = Inl x \<Longrightarrow> keeps contents {} c c'" by blast+
qed

end

section \<open>Releasing and abandoning\<close>

definition forget_page :: "nat \<Rightarrow> nat \<Rightarrow> 'd page_cache \<Rightarrow> 'd page_cache" where
  "forget_page k pid c = remove_entry (Candidate k, pid) (drop_reservation pid c)"

lemma drop_reservation_simps [simp]:
  "pc_device (drop_reservation pid c) = pc_device c" "pc_lookup (drop_reservation pid c) = pc_lookup c"
  "pc_entries (drop_reservation pid c) = pc_entries c" "pc_capacity (drop_reservation pid c) = pc_capacity c"
  "pc_hand (drop_reservation pid c) = pc_hand c" "index_ok (drop_reservation pid c) = index_ok c"
  "pc_reservations (drop_reservation pid c) = filter (\<lambda>(q, _). q \<noteq> pid) (pc_reservations c)"
  by (simp_all add: drop_reservation_def index_ok_def)

lemma map_of_drop: "map_of (filter (\<lambda>(q, _). q \<noteq> pid) rs) q = (if q = pid then None else map_of rs q)"
  by (induction rs) auto

lemma forget_page_simps [simp]:
  "pc_device (forget_page k pid c) = pc_device c" "pc_capacity (forget_page k pid c) = pc_capacity c"
  "pc_reservations (forget_page k pid c) = filter (\<lambda>(q, _). q \<noteq> pid) (pc_reservations c)"
  by (simp_all add: forget_page_def)

lemma page_value_same:
  "pc_lookup c' = pc_lookup c \<Longrightarrow> pc_entries c' = pc_entries c \<Longrightarrow> page_value pages c' q = page_value pages c q"
  by (simp add: page_value_def split: option.split)

lemma forget_page_ok:
  assumes ok: "cache_ok valid contents c" and res: "reserved_for (pc_reservations c) k pid"
  shows "cache_ok valid contents (forget_page k pid c)"
    "q \<noteq> (Candidate k, pid) \<Longrightarrow> page_value pages (forget_page k pid c) q = page_value pages c q"
proof -
  let ?d = "drop_reservation pid c"
  let ?c = "forget_page k pid c"
  let ?rs = "pc_reservations c" and ?rs' = "filter (\<lambda>(q, _). q \<noteq> pid) (pc_reservations c)"
  have iok: "index_ok ?d" using ok by (simp add: cache_ok_def)
  show "q \<noteq> (Candidate k, pid) \<Longrightarrow> page_value pages ?c q = page_value pages c q"
    using remove_entry_value(1) [OF iok] page_value_same [of ?d c pages q] by (simp add: forget_page_def)
  have entries: "set (pc_entries ?c) = {e \<in> set (pc_entries c). entry_key e \<noteq> (Candidate k, pid)}"
    using remove_entry_index(2) [OF iok] by (simp add: forget_page_def)
  have eok: "entry_ok (contents (pc_device c)) ?rs' e" if e: "e \<in> set (pc_entries ?c)" for e
  proof -
    have old: "entry_ok (contents (pc_device c)) ?rs e" using ok e entries by (simp add: cache_ok_def)
    show ?thesis
    proof (cases "ce_owner e")
      case Committed
      then show ?thesis using old by (auto simp: entry_ok_def reserved_def)
    next
      case (Candidate j)
      then have "reserved_for ?rs j (ce_id e)" using old by (simp add: entry_ok_def)
      moreover have "ce_id e \<noteq> pid"
        using e entries res calculation Candidate by (auto simp: entry_key_def reserved_for_def)
      ultimately show ?thesis using old Candidate by (simp add: entry_ok_def reserved_for_def map_of_drop)
    qed
  qed
  have "distinct (map fst ?rs')" using ok by (simp add: cache_ok_def reservations_ok_def distinct_map_filter)
  then have "reservations_ok ?rs'"
    using ok by (auto simp: cache_ok_def reservations_ok_def)
  moreover have "written_present (contents (pc_device c)) ?rs' (pc_lookup ?c)"
    unfolding written_present_def
  proof (intro allI impI)
    fix q r assume q: "map_of ?rs' q = Some r" "rv_written r"
      and none: "pc_lookup ?c (Candidate (rv_candidate r), q) = None"
    have "q \<noteq> pid" "map_of ?rs q = Some r" using q(1) by (auto simp: map_of_drop split: if_splits)
    moreover have "pc_lookup c (Candidate (rv_candidate r), q) = None"
      using none remove_entry_value(3) [OF iok, of "(Candidate (rv_candidate r), q)" "(Candidate k, pid)"]
        \<open>q \<noteq> pid\<close> by (simp add: forget_page_def)
    ultimately show "q < length (contents (pc_device c))"
      using ok q(2) by (simp add: cache_ok_def written_present_def)
  qed
  moreover have "index_ok ?c" using remove_entry_index(1) [OF iok] by (simp add: forget_page_def)
  ultimately show "cache_ok valid contents ?c"
    using ok eok by (simp add: cache_ok_def)
qed

lemma drop_unflushed_ok [simp]:
  "cache_ok valid contents (drop_unflushed own c) = cache_ok valid contents c"
  "pc_device (drop_unflushed own c) = pc_device c" "pc_reservations (drop_unflushed own c) = pc_reservations c"
  "pc_lookup (drop_unflushed own c) = pc_lookup c" "pc_entries (drop_unflushed own c) = pc_entries c"
  by (simp_all add: drop_unflushed_def cache_ok_def index_ok_def)

lemma release_candidate_page_ok:
  assumes ok: "cache_ok valid contents c" and rel: "release_candidate_page k pid c = (r, c')"
  shows "cache_ok valid contents c'" "pc_device c' = pc_device c"
    "q \<noteq> (Candidate k, pid) \<Longrightarrow> page_value pages c' q = page_value pages c q"
    "r = Inr u \<Longrightarrow> pc_reservations c' = filter (\<lambda>(q, _). q \<noteq> pid) (pc_reservations c)"
    "r = Inl x \<Longrightarrow> c' = c"
proof -
  have "(c' = c \<and> (\<exists>x. r = Inl x)) \<or> (reserved_for (pc_reservations c) k pid \<and> r = Inr () \<and>
      (c' = forget_page k pid c \<or> c' = drop_unflushed (Candidate k) (forget_page k pid c)))"
    using rel
    by (auto simp: release_candidate_page_def bind_op_def ensure_reserved_by_def get_reservation_def
        reserved_for_def forget_page_def Let_def split: option.splits if_splits sum.splits)
  then consider (same) x' where "c' = c" "r = Inl x'"
    | (freed) "reserved_for (pc_reservations c) k pid" "r = Inr ()"
        "c' = forget_page k pid c \<or> c' = drop_unflushed (Candidate k) (forget_page k pid c)" by blast
  then have "cache_ok valid contents c' \<and> pc_device c' = pc_device c \<and>
    (q \<noteq> (Candidate k, pid) \<longrightarrow> page_value pages c' q = page_value pages c q) \<and>
    (r = Inr u \<longrightarrow> pc_reservations c' = filter (\<lambda>(q, _). q \<noteq> pid) (pc_reservations c)) \<and> (r = Inl x \<longrightarrow> c' = c)"
  proof cases
    case freed
    note f = forget_page_ok [OF ok freed(1)]
    have "page_value pages c' q = page_value pages (forget_page k pid c) q"
      using freed(3) by (intro page_value_same) auto
    with f freed show ?thesis by (elim disjE) simp_all
  qed (use ok in simp)
  then show "cache_ok valid contents c'" "pc_device c' = pc_device c"
    "q \<noteq> (Candidate k, pid) \<Longrightarrow> page_value pages c' q = page_value pages c q"
    "r = Inr u \<Longrightarrow> pc_reservations c' = filter (\<lambda>(q, _). q \<noteq> pid) (pc_reservations c)"
    "r = Inl x \<Longrightarrow> c' = c" by blast+
qed

text \<open>Abandoning a candidate: nothing of it remains, and the committed view and the device are as they were.\<close>

lemma forget_pages_ok:
  assumes "cache_ok valid contents c" "distinct pids" "\<forall>pid \<in> set pids. reserved_for (pc_reservations c) k pid"
  shows "cache_ok valid contents (fold (forget_page k) pids c) \<and>
    pc_device (fold (forget_page k) pids c) = pc_device c \<and>
    pc_reservations (fold (forget_page k) pids c) = filter (\<lambda>(q, _). q \<notin> set pids) (pc_reservations c) \<and>
    (\<forall>q. page_value pages (fold (forget_page k) pids c) (Committed, q) = page_value pages c (Committed, q))"
  using assms
proof (induction pids arbitrary: c)
  case (Cons pid pids)
  have res: "reserved_for (pc_reservations c) k pid" using Cons.prems by simp
  note f = forget_page_ok [OF Cons.prems(1) res]
  have "\<forall>q \<in> set pids. reserved_for (pc_reservations (forget_page k pid c)) k q"
    using Cons.prems by (auto simp: reserved_for_def map_of_drop)
  from Cons.IH [OF f(1) _ this] Cons.prems f(2) show ?case
    by (auto intro!: filter_cong)
qed (simp add: case_prod_unfold)

lemma invalidate_candidate_ok:
  assumes ok: "cache_ok valid contents c"
  shows "cache_ok valid contents (invalidate_candidate k c)"
    "pc_device (invalidate_candidate k c) = pc_device c"
    "pc_reservations (invalidate_candidate k c) = filter (\<lambda>(_, r). rv_candidate r \<noteq> k) (pc_reservations c)"
    "page_value pages (invalidate_candidate k c) (Committed, q) = page_value pages c (Committed, q)"
proof -
  let ?c = "drop_unflushed (Candidate k) c"
  let ?pids = "map fst (filter (\<lambda>(_, r). rv_candidate r = k) (pc_reservations c))"
  have dist: "distinct (map fst (pc_reservations c))" using ok by (simp add: cache_ok_def reservations_ok_def)
  then have "distinct ?pids" by (rule distinct_map_filter)
  have mem: "pid \<in> set ?pids \<longleftrightarrow> reserved_for (pc_reservations c) k pid" for pid
    using map_of_eq_Some_iff [OF dist] by (force simp: reserved_for_def)
  have eq: "invalidate_candidate k c = fold (forget_page k) ?pids ?c"
    by (simp add: invalidate_candidate_def Let_def forget_page_def [abs_def])
  have "filter (\<lambda>(q, _). q \<notin> set ?pids) (pc_reservations c) = filter (\<lambda>(_, r). rv_candidate r \<noteq> k) (pc_reservations c)"
  proof (rule filter_cong [OF refl])
    fix p assume p: "p \<in> set (pc_reservations c)"
    obtain q r where qr: "p = (q, r)" by (cases p)
    have "map_of (pc_reservations c) q = Some r" using p qr dist by (simp add: map_of_eq_Some_iff)
    then have "q \<in> set ?pids \<longleftrightarrow> rv_candidate r = k" unfolding mem by (simp add: reserved_for_def)
    then show "(case p of (q, _) \<Rightarrow> q \<notin> set ?pids) = (case p of (_, r) \<Rightarrow> rv_candidate r \<noteq> k)"
      unfolding qr prod.case by simp
  qed
  moreover have "cache_ok valid contents ?c" "\<forall>pid \<in> set ?pids. reserved_for (pc_reservations ?c) k pid"
    using ok mem by (simp, (unfold drop_unflushed_ok, blast))
  note f = forget_pages_ok [OF this(1) \<open>distinct ?pids\<close> this(2), of pages, folded eq]
  ultimately show "cache_ok valid contents (invalidate_candidate k c)"
    "pc_device (invalidate_candidate k c) = pc_device c"
    "pc_reservations (invalidate_candidate k c) = filter (\<lambda>(_, r). rv_candidate r \<noteq> k) (pc_reservations c)"
    "page_value pages (invalidate_candidate k c) (Committed, q) = page_value pages c (Committed, q)"
    using page_value_same [of ?c c pages "(Committed, q)"] f by auto
qed

end
