(* ===== verification/CacheCommit.thy ===== *)
theory CacheCommit
  imports CacheOps
begin

text \<open>
  What the cache does when a candidate commits: \<^verbatim>\<open>write_pages\<close> writes the candidate's dirty pages out in
  runs of consecutive ids, one device call each, \<^verbatim>\<open>candidate_page_checksum\<close> reads the checksum each
  page's own seal holds, and \<^verbatim>\<open>install_candidate\<close> makes the candidate's pages the committed ones.
\<close>

section \<open>Writing runs\<close>

lemma whole_chunks_concat:
  "list_all (\<lambda>p. length p = n) ps \<Longrightarrow> 0 < n \<Longrightarrow> whole_chunks n (concat ps) = ps"
  by (induction ps) (simp_all add: whole_chunks_append)

lemma source_pages_concat:
  assumes "list_all (\<lambda>p. length p = 4096) ps"
  shows "source_pages (concat ps) = ps"
proof -
  have "concat ps @ chunk_rest 4096 (concat ps) = concat ps"
    using concat_whole_chunks [of 4096 "concat ps"] whole_chunks_concat [OF assms] by simp
  then have "chunk_rest 4096 (concat ps) = []" by simp
  with whole_chunks_concat [OF assms] show ?thesis by (simp add: source_pages_def)
qed

text \<open>
  A run under construction: entries that are dirty and sealed, of consecutive pages, whose bytes laid end
  to end are the buffer.
\<close>

definition run_ok :: "'d page_cache \<Rightarrow> nat list \<Rightarrow> bytes \<Rightarrow> bool" where
  "run_ok c run bs \<longleftrightarrow>
     (\<forall>i \<in> set run. i < length (pc_entries c) \<and> ce_dirty (pc_entries c ! i) \<and> \<not> ce_unsealed (pc_entries c ! i)) \<and>
     (run \<noteq> [] \<longrightarrow> map (\<lambda>i. ce_id (pc_entries c ! i)) run =
        [ce_id (pc_entries c ! hd run)..<ce_id (pc_entries c ! hd run) + length run]) \<and>
     bs = concat (map (\<lambda>i. ce_bytes (pc_entries c ! i)) run)"

text \<open>Entries that are clean stay as they are, and no entry moves.\<close>

definition cleans :: "'d page_cache \<Rightarrow> 'd page_cache \<Rightarrow> bool" where
  "cleans c c' \<longleftrightarrow> pc_lookup c' = pc_lookup c \<and> length (pc_entries c') = length (pc_entries c) \<and>
     (\<forall>i < length (pc_entries c). \<not> ce_dirty (pc_entries c ! i) \<longrightarrow> pc_entries c' ! i = pc_entries c ! i)"

lemma cleans_refl [simp]: "cleans c c" by (simp add: cleans_def)

lemma cleans_trans: "cleans c c' \<Longrightarrow> cleans c' c'' \<Longrightarrow> cleans c c''"
  by (auto simp: cleans_def)

lemma run_distinct: "run_ok c run bs \<Longrightarrow> distinct run"
  by (cases "run = []") (simp, metis distinct_map distinct_upt run_ok_def)

text \<open>Marking the entries of a run clean, once the device holds them all.\<close>

lemma mark_clean_fields [simp]:
  "pc_device (mark_clean i c) = pc_device c" "pc_lookup (mark_clean i c) = pc_lookup c"
  "pc_entries (mark_clean i c) = (pc_entries c)[i := (pc_entries c ! i)\<lparr>ce_dirty := False\<rparr>]"
  by (simp_all add: mark_clean_def Let_def)

lemma mark_run_ok:
  assumes "cache_ok valid contents c" "distinct run"
    and "\<forall>i \<in> set run. i < length (pc_entries c) \<and> ce_dirty (pc_entries c ! i) \<and> \<not> ce_unsealed (pc_entries c ! i) \<and>
      ce_id (pc_entries c ! i) < length (contents (pc_device c)) \<and>
      contents (pc_device c) ! ce_id (pc_entries c ! i) = ce_bytes (pc_entries c ! i)"
  shows "cache_ok valid contents (fold mark_clean run c) \<and> keeps contents {} c (fold mark_clean run c) \<and>
    pc_lookup (fold mark_clean run c) = pc_lookup c \<and> pc_device (fold mark_clean run c) = pc_device c \<and>
    length (pc_entries (fold mark_clean run c)) = length (pc_entries c) \<and>
    (\<forall>i < length (pc_entries c). pc_entries (fold mark_clean run c) ! i =
       (if i \<in> set run then (pc_entries c ! i)\<lparr>ce_dirty := False\<rparr> else pc_entries c ! i))"
  using assms
proof (induction run arbitrary: c)
  case (Cons i run)
  have "cache_ok valid contents (mark_clean i c)" and k: "keeps contents {} c (mark_clean i c)"
    using mark_clean_ok [OF Cons.prems(1), of i] Cons.prems(3) by simp_all
  moreover have "j \<noteq> i" if "j \<in> set run" for j using Cons.prems(2) that by auto
  then have "\<forall>j \<in> set run. j < length (pc_entries (mark_clean i c)) \<and> ce_dirty (pc_entries (mark_clean i c) ! j) \<and>
      \<not> ce_unsealed (pc_entries (mark_clean i c) ! j) \<and>
      ce_id (pc_entries (mark_clean i c) ! j) < length (contents (pc_device (mark_clean i c))) \<and>
      contents (pc_device (mark_clean i c)) ! ce_id (pc_entries (mark_clean i c) ! j)
        = ce_bytes (pc_entries (mark_clean i c) ! j)"
    using Cons.prems(3) by (auto simp: nth_list_update)
  moreover have "distinct run" using Cons.prems(2) by simp
  ultimately have IH: "cache_ok valid contents (fold mark_clean run (mark_clean i c)) \<and>
      keeps contents {} (mark_clean i c) (fold mark_clean run (mark_clean i c)) \<and>
      pc_lookup (fold mark_clean run (mark_clean i c)) = pc_lookup c \<and>
      pc_device (fold mark_clean run (mark_clean i c)) = pc_device c \<and>
      length (pc_entries (fold mark_clean run (mark_clean i c))) = length (pc_entries c) \<and>
      (\<forall>j < length (pc_entries c). pc_entries (fold mark_clean run (mark_clean i c)) ! j =
       (if j \<in> set run then (pc_entries (mark_clean i c) ! j)\<lparr>ce_dirty := False\<rparr> else pc_entries (mark_clean i c) ! j))"
    using Cons.IH [of "mark_clean i c"] by simp
  then have "keeps contents {} c (fold mark_clean run (mark_clean i c))" using keeps_trans [OF k] by simp
  with IH Cons.prems show ?case by (auto simp: nth_list_update)
qed simp

context page_device
begin

lemma on_device_write_pages:
  assumes "valid (pc_device c)" "on_device (dev_write_pages ops first src) c = (r, c')"
  shows "\<exists>d'. c' = c\<lparr>pc_device := d'\<rparr> \<and> valid d' \<and>
    only_touches {first..<first + length (source_pages src)} (contents (pc_device c)) (contents d') \<and>
    (is_ok r \<longrightarrow> (\<forall>j < length (source_pages src). first + j < length (contents d') \<and>
       contents d' ! (first + j) = source_pages src ! j))"
proof -
  obtain d' where d': "dev_write_pages ops first src (pc_device c) = (r, d')" "c' = c\<lparr>pc_device := d'\<rparr>"
    using assms(2) by (auto simp: on_device_def split: prod.splits)
  note w = write_run [OF assms(1) d'(1)]
  show ?thesis
  proof (cases "is_ok r \<and> source_pages src \<noteq> []")
    case True
    then have f: "first \<le> length (contents (pc_device c))" and
        c: "contents d' = write_all (contents (pc_device c)) first (source_pages src)"
      using w by (auto split: sum.splits)
    with d'(2) w write_all_touches [OF f, of "source_pages src"] show ?thesis
      by (auto simp: length_write_all nth_write_all)
  next
    case False
    with d'(2) w show ?thesis by (auto split: sum.splits)
  qed
qed

lemma cache_write_run_ok:
  assumes ok: "cache_ok valid contents c" and run: "run_ok c run bs"
    and w: "cache_write_run ops run bs c = (r, c')"
  shows "cache_ok valid contents c'" "keeps contents {} c c'" "cleans c c'"
    "is_ok r \<Longrightarrow> i \<in> set run \<Longrightarrow> \<not> ce_dirty (pc_entries c' ! i)"
    "i < length (pc_entries c) \<Longrightarrow> i \<notin> set run \<Longrightarrow> pc_entries c' ! i = pc_entries c ! i"
proof -
  have "cache_ok valid contents c' \<and> keeps contents {} c c' \<and> cleans c c' \<and>
    (is_ok r \<longrightarrow> (\<forall>i \<in> set run. \<not> ce_dirty (pc_entries c' ! i))) \<and>
    (\<forall>i < length (pc_entries c). i \<notin> set run \<longrightarrow> pc_entries c' ! i = pc_entries c ! i)"
  proof (cases run)
    case Nil
    then show ?thesis using w ok by (simp add: cache_write_run_def)
  next
    case (Cons i0 run')
    let ?first = "ce_id (pc_entries c ! i0)"
    let ?ps = "map (\<lambda>i. ce_bytes (pc_entries c ! i)) run"
    let ?n = "length (contents (pc_device c))"
    have each: "i < length (pc_entries c)" "ce_dirty (pc_entries c ! i)" "\<not> ce_unsealed (pc_entries c ! i)"
      if "i \<in> set run" for i using run that by (auto simp: run_ok_def)
    have ids: "map (\<lambda>i. ce_id (pc_entries c ! i)) run = [?first..<?first + length run]"
      using run Cons by (simp add: run_ok_def)
    have nth_id: "ce_id (pc_entries c ! (run ! j)) = ?first + j" if "j < length run" for j
      using arg_cong [OF ids, of "\<lambda>xs. xs ! j"] that by simp
    have pages: "source_pages bs = ?ps"
      using run ok each by (auto simp: run_ok_def list_all_iff cache_ok_def entry_ok_def intro!: source_pages_concat)
    have dirty: "{?first..<?first + length run} \<subseteq> dirty_ids c"
    proof
      fix p assume "p \<in> {?first..<?first + length run}"
      then have "p \<in> set (map (\<lambda>i. ce_id (pc_entries c ! i)) run)" unfolding ids by simp
      with each show "p \<in> dirty_ids c" by (auto simp: dirty_ids_def intro!: nth_mem)
    qed
    obtain r1 c1 where s1: "write_placeholders ops ?first c = (r1, c1)" by (cases "write_placeholders ops ?first c")
    obtain d1 where d1: "c1 = c\<lparr>pc_device := d1\<rparr>" "valid d1"
        "only_touches {?n..} (contents (pc_device c)) (contents d1)"
      using write_placeholders_contract [OF _ s1] ok by (auto simp: cache_ok_def)
    note u1 = device_update [OF ok d1(2) only_touches_mono [OF d1(3) Un_upper2], folded d1(1)]
    show ?thesis
    proof (cases r1)
      case (Inl x)
      with w s1 Cons u1 d1(1) show ?thesis by (auto simp: cache_write_run_def Let_def cleans_def)
    next
      case (Inr u)
      obtain r2 c2 where s2: "on_device (dev_write_pages ops ?first bs) c1 = (r2, c2)"
        by (cases "on_device (dev_write_pages ops ?first bs) c1")
      obtain d2 where d2: "c2 = c\<lparr>pc_device := d2\<rparr>" "valid d2"
          "only_touches {?first..<?first + length run} (contents d1) (contents d2)"
          "is_ok r2 \<longrightarrow> (\<forall>j < length run. ?first + j < length (contents d2) \<and> contents d2 ! (?first + j) = ?ps ! j)"
        using on_device_write_pages [OF _ s2] d1(1,2) by (auto simp: pages)
      have "only_touches (dirty_ids c \<union> {?n..}) (contents (pc_device c)) (contents d2)"
        by (rule only_touches_trans [OF only_touches_mono [OF d1(3)] only_touches_mono [OF d2(3)]]) (use dirty in auto)
      note u2 = device_update [OF ok d2(2) this, folded d2(1)]
      show ?thesis
      proof (cases r2)
        case (Inl x)
        with w s1 s2 Cons Inr u2 d2(1) show ?thesis by (auto simp: cache_write_run_def Let_def cleans_def)
      next
        case ok2: (Inr v)
        have c': "r = Inr ()" "c' = fold mark_clean run c2"
          using w s1 s2 Cons Inr ok2 by (simp_all add: cache_write_run_def Let_def)
        have "\<forall>i \<in> set run. i < length (pc_entries c2) \<and> ce_dirty (pc_entries c2 ! i) \<and>
            \<not> ce_unsealed (pc_entries c2 ! i) \<and> ce_id (pc_entries c2 ! i) < length (contents (pc_device c2)) \<and>
            contents (pc_device c2) ! ce_id (pc_entries c2 ! i) = ce_bytes (pc_entries c2 ! i)"
          using each d2(1,4) ok2 nth_id by (auto simp: in_set_conv_nth)
        note m = mark_run_ok [OF u2(1) run_distinct [OF run] this, folded c'(2)]
        have "keeps contents {} c c'" using m keeps_trans [OF u2(2)] by simp
        with m d2(1) each show ?thesis by (auto simp: cleans_def)
      qed
    qed
  qed
  then show "cache_ok valid contents c'" "keeps contents {} c c'" "cleans c c'"
    "is_ok r \<Longrightarrow> i \<in> set run \<Longrightarrow> \<not> ce_dirty (pc_entries c' ! i)"
    "i < length (pc_entries c) \<Longrightarrow> i \<notin> set run \<Longrightarrow> pc_entries c' ! i = pc_entries c ! i" by blast+
qed

text \<open>The loop of \<^verbatim>\<open>write_pages\<close>, at any point: a run so far, and the pages still to look at.\<close>

lemma seal_step:
  assumes ok: "cache_ok valid contents c" and i: "i < length (pc_entries c)" "ce_dirty (pc_entries c ! i)"
  defines "c' \<equiv> set_entry i (seal_entry (pc_entries c ! i)) c"
  shows "cache_ok valid contents c'" "keeps contents {} c c'" "cleans c c'"
    "run_ok c' [i] (ce_bytes (seal_entry (pc_entries c ! i)))"
    "run_ok c run bs \<Longrightarrow> i \<notin> set run \<Longrightarrow> run \<noteq> [] \<Longrightarrow>
       ce_id (pc_entries c ! last run) + 1 = ce_id (pc_entries c ! i) \<Longrightarrow>
       run_ok c' (run @ [i]) (bs @ ce_bytes (seal_entry (pc_entries c ! i)))"
proof -
  have eok: "entry_ok (contents (pc_device c)) (pc_reservations c) (pc_entries c ! i)"
    using ok i by (simp add: cache_ok_def)
  show "cache_ok valid contents c'"
    unfolding c'_def using ok i entry_ok_seal [OF eok i(2)] by (intro cache_ok_set_entry) simp_all
  show "keeps contents {} c c'"
    unfolding c'_def using ok i by (intro keeps_set_entry) (simp_all add: cache_ok_def)
  show "cleans c c'" using i by (auto simp: cleans_def c'_def nth_list_update)
  show "run_ok c' [i] (ce_bytes (seal_entry (pc_entries c ! i)))"
    using i by (simp add: run_ok_def c'_def)
  assume run: "run_ok c run bs" "i \<notin> set run" "run \<noteq> []"
    and follows: "ce_id (pc_entries c ! last run) + 1 = ce_id (pc_entries c ! i)"
  let ?f = "ce_id (pc_entries c ! hd run)"
  have same: "pc_entries c' ! j = pc_entries c ! j" if "j \<in> set run" for j
    using that run(2) by (cases "i = j") (auto simp: c'_def)
  have ids: "map (\<lambda>j. ce_id (pc_entries c ! j)) run = [?f..<?f + length run]"
    using run by (simp add: run_ok_def)
  have "ce_id (pc_entries c ! last run) = last [?f..<?f + length run]"
    unfolding ids [symmetric] by (simp add: last_map run(3))
  then have "ce_id (pc_entries c ! i) = ?f + length run" using follows run(3) by (cases run) simp_all
  moreover have "map (\<lambda>j. ce_id (pc_entries c' ! j)) run = map (\<lambda>j. ce_id (pc_entries c ! j)) run"
    "map (\<lambda>j. ce_bytes (pc_entries c' ! j)) run = map (\<lambda>j. ce_bytes (pc_entries c ! j)) run"
    using same by simp_all
  moreover have "pc_entries c' ! i = seal_entry (pc_entries c ! i)" "length (pc_entries c') = length (pc_entries c)"
    using i by (simp_all add: c'_def)
  ultimately show "run_ok c' (run @ [i]) (bs @ ce_bytes (seal_entry (pc_entries c ! i)))"
    using run i same [OF hd_in_set [OF run(3)]] same ids by (simp add: run_ok_def cong: map_cong)
qed

lemma write_pages_loop_ok:
  assumes "cache_ok valid contents c" "run_ok c run bs" "distinct pids"
    "\<forall>i \<in> set run. ce_id (pc_entries c ! i) \<notin> set pids"
    "write_pages_loop ops own run bs pids c = (r, c')"
  shows "cache_ok valid contents c' \<and> keeps contents {} c c' \<and> cleans c c' \<and>
    (is_ok r \<longrightarrow> (\<forall>i \<in> set run. \<not> ce_dirty (pc_entries c' ! i)) \<and>
      (\<forall>pid \<in> set pids. \<forall>i. pc_lookup c (own, pid) = Some i \<longrightarrow> \<not> ce_dirty (pc_entries c' ! i)))"
  using assms
proof (induction pids arbitrary: c run bs)
  case Nil
  then show ?case
    using cache_write_run_ok [OF Nil.prems(1,2), of r c'] by simp
next
  case (Cons pid pids)
  note ok = Cons.prems(1) and run = Cons.prems(2)
  have rest: "distinct pids" "\<forall>i \<in> set run. ce_id (pc_entries c ! i) \<notin> set pids" using Cons.prems(3,4) by auto
  show ?case
  proof (cases "pc_lookup c (own, pid)")
    case None
    then show ?thesis using Cons.IH [OF ok run rest] Cons.prems(5) by auto
  next
    case (Some i)
    have i: "i < length (pc_entries c)" "entry_key (pc_entries c ! i) = (own, pid)"
      using index_ok_lookup [OF _ Some] ok by (auto simp: cache_ok_def)
    then have id: "ce_id (pc_entries c ! i) = pid" by (simp add: entry_key_def)
    show ?thesis
    proof (cases "ce_dirty (pc_entries c ! i)")
      case False
      have IH: "cache_ok valid contents c' \<and> keeps contents {} c c' \<and> cleans c c' \<and>
          (is_ok r \<longrightarrow> (\<forall>i \<in> set run. \<not> ce_dirty (pc_entries c' ! i)) \<and>
            (\<forall>pid \<in> set pids. \<forall>i. pc_lookup c (own, pid) = Some i \<longrightarrow> \<not> ce_dirty (pc_entries c' ! i)))"
        using Cons.IH [OF ok run rest] Cons.prems(5) Some False by simp
      moreover have "\<not> ce_dirty (pc_entries c' ! i)" using IH i(1) False by (simp add: cleans_def)
      ultimately show ?thesis using Some by auto
    next
      case True
      have notin: "i \<notin> set run" using Cons.prems(4) id by auto
      have fresh: "pid \<notin> set pids" using Cons.prems(3) by simp
      show ?thesis
      proof (cases "run \<noteq> [] \<and> ce_id (pc_entries c ! last run) + 1 = pid \<and> length run \<noteq> MAX_WRITE_RUN_PAGES")
        case follows: True
        let ?c = "set_entry i (seal_entry (pc_entries c ! i)) c"
        note s = seal_step [OF ok i(1) True]
        have run': "run_ok ?c (run @ [i]) (bs @ ce_bytes (seal_entry (pc_entries c ! i)))"
          using s(5) [OF run notin] follows id by simp
        have "ce_id (pc_entries ?c ! j) = ce_id (pc_entries c ! j)" for j
          using i(1) by (cases "j = i") simp_all
        then have "\<forall>j \<in> set (run @ [i]). ce_id (pc_entries ?c ! j) \<notin> set pids"
          using rest(2) id fresh by auto
        moreover have "write_pages_loop ops own (run @ [i]) (bs @ ce_bytes (seal_entry (pc_entries c ! i))) pids ?c
            = (r, c')"
          using Cons.prems(5) Some True follows by (simp add: Let_def)
        ultimately show ?thesis
          using Cons.IH [OF s(1) run' rest(1)] Some keeps_trans [OF s(2)] cleans_trans [OF s(3)] by auto
      next
        case new: False
        obtain r1 c1 where w: "cache_write_run ops run bs c = (r1, c1)" by (cases "cache_write_run ops run bs c")
        note wr = cache_write_run_ok [OF ok run w]
        show ?thesis
        proof (cases r1)
          case (Inl e)
          with Cons.prems(5) Some True new w wr(1-3) show ?thesis by (auto simp: Let_def)
        next
          case (Inr u)
          have i1: "pc_entries c1 ! i = pc_entries c ! i" by (rule wr(5) [OF i(1) notin])
          have i2: "i < length (pc_entries c1)" using wr(3) i(1) by (simp add: cleans_def)
          let ?c = "set_entry i (seal_entry (pc_entries c1 ! i)) c1"
          note s = seal_step [OF wr(1) i2, unfolded i1, OF True]
          have loop: "write_pages_loop ops own [i] (ce_bytes (seal_entry (pc_entries c ! i))) pids
              (set_entry i (seal_entry (pc_entries c ! i)) c1) = (r, c')"
            using Cons.prems(5) Some True new w Inr i1 by (auto simp: Let_def)
          note IH = Cons.IH [OF s(1) s(4) rest(1) _ loop]
          have "\<not> ce_dirty (pc_entries c' ! j)" if "is_ok r" "j \<in> set run" for j
          proof -
            have "j \<noteq> i" "j < length (pc_entries c)" using that(2) notin run by (auto simp: run_ok_def)
            then have "\<not> ce_dirty (pc_entries (set_entry i (seal_entry (pc_entries c ! i)) c1) ! j)"
              using wr(4) that(2) Inr by simp
            with IH \<open>j < length (pc_entries c)\<close> wr(3) id fresh i2 show ?thesis by (simp add: cleans_def)
          qed
          moreover have "pc_lookup c1 = pc_lookup c" using wr(3) by (simp add: cleans_def)
          ultimately show ?thesis
            using IH id fresh i2 Some keeps_trans [OF keeps_trans [OF wr(2) s(2)]]
              cleans_trans [OF cleans_trans [OF wr(3) s(3)]] by auto
        qed
      qed
    qed
  qed
qed

lemma write_candidate_pages_ok:
  assumes "cache_ok valid contents c" "distinct pids" "write_candidate_pages ops k pids c = (r, c')"
  shows "cache_ok valid contents c'" "keeps contents {} c c'" "pc_lookup c' = pc_lookup c"
    "is_ok r \<Longrightarrow> pid \<in> set pids \<Longrightarrow> pc_lookup c' (Candidate k, pid) = Some i \<Longrightarrow> \<not> ce_dirty (pc_entries c' ! i)"
  using write_pages_loop_ok [of c "[]" "[]" pids "Candidate k" r c'] assms
  by (auto simp: write_candidate_pages_def run_ok_def cleans_def)

text \<open>
  So a candidate all of whose pages were written out has each of them on the device, sealed, at its
  place: what the page's owner would read is what a reader of the device finds.
\<close>

lemma clean_on_device:
  assumes "cache_ok valid contents c" "readable (pc_reservations c) (Candidate k, pid)"
    and "\<forall>i. pc_lookup c (Candidate k, pid) = Some i \<longrightarrow> \<not> ce_dirty (pc_entries c ! i)"
  shows "pid < length (contents (pc_device c))"
    "page_value (contents (pc_device c)) c (Candidate k, pid) = Some (contents (pc_device c) ! pid)"
proof -
  have "pid < length (contents (pc_device c)) \<and>
    page_value (contents (pc_device c)) c (Candidate k, pid) = Some (contents (pc_device c) ! pid)"
  proof (cases "pc_lookup c (Candidate k, pid)")
    case None
    then show ?thesis
      using assms by (auto simp: cache_ok_def written_present_def page_value_def)
  next
    case (Some i)
    have i: "i < length (pc_entries c)" "entry_key (pc_entries c ! i) = (Candidate k, pid)"
      using index_ok_lookup [OF _ Some] assms(1) by (auto simp: cache_ok_def)
    then have "entry_ok (contents (pc_device c)) (pc_reservations c) (pc_entries c ! i)"
      using assms(1) by (simp add: cache_ok_def)
    with i assms(3) Some show ?thesis
      by (auto simp: entry_ok_def entry_key_def page_value_def sealed_bytes_def)
  qed
  then show "pid < length (contents (pc_device c))"
    "page_value (contents (pc_device c)) c (Candidate k, pid) = Some (contents (pc_device c) ! pid)" by blast+
qed

end

end
