(* ===== verification/CacheInstall.thy ===== *)
theory CacheInstall
  imports CacheCommit
begin

text \<open>
  \<^verbatim>\<open>install_candidate\<close>: the candidate's pages become the committed ones. The loop over the reserved
  pages re-keys one entry at a time; here each step also drops the page's reservation, which the code
  drops for all of them at the end, so that the invariant holds after each.
\<close>

section \<open>Dropping committed entries\<close>

lemma drop_committed_ok:
  assumes ok: "cache_ok valid contents c"
  shows "cache_ok valid contents (remove_entry (Committed, pid) c)"
    "page_value (contents (pc_device c)) (remove_entry (Committed, pid) c) q = page_value (contents (pc_device c)) c q"
proof -
  let ?c = "remove_entry (Committed, pid) c"
  have iok: "index_ok c" using ok by (simp add: cache_ok_def)
  have "written_present (contents (pc_device c)) (pc_reservations c) (pc_lookup ?c)"
    using ok remove_entry_value(3) [OF iok, of _ "(Committed, pid)"]
    by (auto simp: cache_ok_def written_present_def)
  then show "cache_ok valid contents ?c"
    using ok remove_entry_index [OF iok, of "(Committed, pid)"] by (simp add: cache_ok_def)
  show "page_value (contents (pc_device c)) ?c q = page_value (contents (pc_device c)) c q"
  proof (cases "q = (Committed, pid)")
    case True
    show ?thesis
    proof (cases "pc_lookup c q")
      case (Some i)
      have i: "i < length (pc_entries c)" "entry_key (pc_entries c ! i) = (Committed, pid)"
        using index_ok_lookup [OF iok Some] True by simp_all
      then have "entry_ok (contents (pc_device c)) (pc_reservations c) (pc_entries c ! i)"
        using ok by (simp add: cache_ok_def)
      then have "\<not> ce_dirty (pc_entries c ! i)" using i(2) by (simp add: entry_ok_def entry_key_def)
      from clean_value [OF ok i(1) this] i Some True remove_entry_value(2) [OF iok, of "(Committed, pid)"]
      show ?thesis by (simp add: page_value_def entry_key_def)
    qed (use True in \<open>simp add: remove_entry_none\<close>)
  qed (use remove_entry_value(1) [OF iok] in simp)
qed

lemma drop_committed_all:
  fixes c :: "'d page_cache" and pids :: "nat list"
  assumes "cache_ok valid contents c"
  defines "c' \<equiv> fold (\<lambda>pid. remove_entry (Committed, pid)) pids c"
  shows "cache_ok valid contents c' \<and> pc_device c' = pc_device c \<and> pc_reservations c' = pc_reservations c \<and>
    set (pc_entries c') \<subseteq> set (pc_entries c) \<and>
    (\<forall>q. page_value (contents (pc_device c)) c' q = page_value (contents (pc_device c)) c q) \<and>
    (\<forall>q. pc_lookup c q = None \<longrightarrow> pc_lookup c' q = None)"
  using assms(1) unfolding c'_def
proof (induction pids arbitrary: c)
  case (Cons pid pids)
  have iok: "index_ok c" using Cons.prems by (simp add: cache_ok_def)
  have "pc_lookup (remove_entry (Committed, pid) c) q = None" if "pc_lookup c q = None" for q
    using that remove_entry_value(2,3) [OF iok] by (cases "q = (Committed, pid)") auto
  moreover have "set (pc_entries (remove_entry (Committed, pid) c)) \<subseteq> set (pc_entries c)"
    using remove_entry_index(2) [OF iok] by auto
  ultimately show ?case
    using Cons.IH [OF drop_committed_ok(1) [OF Cons.prems]] drop_committed_ok(2) [OF Cons.prems]
    by (simp, blast)
qed simp

section \<open>Adopting a page\<close>

definition adopt_page :: "nat \<Rightarrow> nat \<Rightarrow> 'd page_cache \<Rightarrow> 'd page_cache" where
  "adopt_page k pid c = install_page k pid (drop_reservation pid c)"

lemma install_page_fields [simp]:
  "pc_device (install_page k pid c) = pc_device c" "pc_reservations (install_page k pid c) = pc_reservations c"
  "pc_capacity (install_page k pid c) = pc_capacity c"
  by (simp_all add: install_page_def Let_def split: option.split)

lemma install_page_replace:
  assumes "index_ok c" "pc_lookup c (Candidate k, pid) = Some i"
  shows "install_page k pid c =
    replace_entry i ((pc_entries c ! i)\<lparr>ce_owner := Committed, ce_referenced := True\<rparr>) (pc_hand c) c"
  using assms index_ok_lookup [OF assms]
  by (simp add: install_page_def Let_def replace_entry_def set_entry_def entry_key_def)

lemma adopt_page_ok:
  assumes ok: "cache_ok valid contents c" and rd: "readable (pc_reservations c) (Candidate k, pid)"
    and clean: "\<forall>e \<in> set (pc_entries c). ce_owner e = Candidate k \<longrightarrow> \<not> ce_dirty e"
    and new: "pc_lookup c (Committed, pid) = None"
  defines "c' \<equiv> adopt_page k pid c"
  shows "cache_ok valid contents c'" "\<forall>e \<in> set (pc_entries c'). ce_owner e = Candidate k \<longrightarrow> \<not> ce_dirty e"
    "page_value (contents (pc_device c)) c' (Committed, pid) = page_value (contents (pc_device c)) c (Candidate k, pid)"
    "q \<noteq> pid \<Longrightarrow> page_value pages c' (own, q) = page_value pages c (own, q)"
    "q \<noteq> pid \<Longrightarrow> pc_lookup c' (own, q) = pc_lookup c (own, q)"
proof -
  let ?d = "drop_reservation pid c"
  let ?rs = "pc_reservations c" and ?rs' = "filter (\<lambda>(q, _). q \<noteq> pid) (pc_reservations c)"
  have iok: "index_ok c" using ok by (simp add: cache_ok_def)
  have rsok: "reservations_ok ?rs'"
    using ok distinct_map_filter [of fst ?rs] by (auto simp: cache_ok_def reservations_ok_def)
  have other: "entry_ok (contents (pc_device c)) ?rs' e"
    if e: "e \<in> set (pc_entries c)" "entry_key e \<noteq> (Candidate k, pid)" for e
  proof -
    have old: "entry_ok (contents (pc_device c)) ?rs e" using ok e by (simp add: cache_ok_def)
    have "ce_id e \<noteq> pid" if "ce_owner e = Candidate j" for j
      using old that e(2) rd by (auto simp: entry_ok_def entry_key_def reserved_for_def)
    with old show ?thesis
      by (cases "ce_owner e") (auto simp: entry_ok_def reserved_def reserved_for_def map_of_drop)
  qed
  have written: "written_present (contents (pc_device c)) ?rs' looks"
    if "\<And>j q. q \<noteq> pid \<Longrightarrow> looks (Candidate j, q) = pc_lookup c (Candidate j, q)" for looks
    using ok that by (auto simp: cache_ok_def written_present_def map_of_drop split: if_splits)
  have "cache_ok valid contents c' \<and> (\<forall>e \<in> set (pc_entries c'). ce_owner e = Candidate k \<longrightarrow> \<not> ce_dirty e) \<and>
    page_value (contents (pc_device c)) c' (Committed, pid) = page_value (contents (pc_device c)) c (Candidate k, pid) \<and>
    (\<forall>own q pages. q \<noteq> pid \<longrightarrow> page_value pages c' (own, q) = page_value pages c (own, q)) \<and>
    (\<forall>own q. q \<noteq> pid \<longrightarrow> pc_lookup c' (own, q) = pc_lookup c (own, q))"
  proof (cases "pc_lookup c (Candidate k, pid)")
    case None
    then have c': "c' = ?d" by (simp add: c'_def adopt_page_def install_page_def)
    have "entry_key e \<noteq> (Candidate k, pid)" if "e \<in> set (pc_entries c)" for e
      using entry_cached [OF iok that] None by auto
    then have "cache_ok valid contents ?d"
      using ok rsok other written by (simp add: cache_ok_def)
    with clean None new show ?thesis by (auto simp: c' page_value_def split: option.split)
  next
    case (Some i)
    note i = index_ok_lookup [OF iok Some]
    let ?e = "(pc_entries c ! i)\<lparr>ce_owner := Committed, ce_referenced := True\<rparr>"
    have c': "c' = replace_entry i ?e (pc_hand c) ?d"
      using install_page_replace [of ?d k pid i] iok Some by (simp add: c'_def adopt_page_def)
    have key: "entry_key ?e = (Committed, pid)" using i(2) by (simp add: entry_key_def)
    have h: "pc_hand c < length (pc_entries c)" using iok i(1) by (auto simp: index_ok_def)
    have d: "\<not> ce_dirty (pc_entries c ! i)" using clean i by (auto simp: entry_key_def)
    have "entry_ok (contents (pc_device c)) ?rs (pc_entries c ! i)" using ok i(1) by (simp add: cache_ok_def)
    then have eok: "entry_ok (contents (pc_device c)) ?rs' ?e"
      using d i(2) by (auto simp: entry_ok_def reserved_def entry_key_def)
    have "entry_key (pc_entries c ! j) \<noteq> (Candidate k, pid)" if "j < length (pc_entries c)" "j \<noteq> i" for j
      using index_ok_unique [OF iok that(1) i(1)] i(2) that(2) by auto
    then have upd: "entry_ok (contents (pc_device c)) ?rs' e \<and> (ce_owner e = Candidate k \<longrightarrow> \<not> ce_dirty e)"
      if e: "e \<in> set (pc_entries c')" for e
    proof -
      obtain j where j: "j < length (pc_entries c)" "e = (if j = i then ?e else pc_entries c ! j)"
        using e by (auto simp: c' replace_entry_def in_set_conv_nth nth_list_update)
      with eok other [of "pc_entries c ! j"] clean d \<open>\<And>j. j < _ \<Longrightarrow> j \<noteq> i \<Longrightarrow> _\<close> show ?thesis
        by (cases "j = i") simp_all
    qed
    have looks: "pc_lookup c' (own, q) = pc_lookup c (own, q)" if "q \<noteq> pid" for own q
      using that key i by (simp add: c' replace_entry_def)
    have "index_ok c'"
      unfolding c' by (rule index_ok_replace) (use iok i h key new in simp_all)
    moreover have dev: "pc_device c' = pc_device c" "pc_reservations c' = ?rs'" by (simp_all add: c' replace_entry_def)
    ultimately have "cache_ok valid contents c'"
      using ok rsok upd written [of "pc_lookup c'"] looks by (simp add: cache_ok_def)
    moreover have "page_value pages c' (own, q) = page_value pages c (own, q)" if q: "q \<noteq> pid" for own q pages
    proof -
      have "j \<noteq> i" if "pc_lookup c (own, q) = Some j" for j
        using index_ok_lookup(2) [OF iok that] i(2) q by auto
      then have "pc_entries c' ! j = pc_entries c ! j" if "pc_lookup c (own, q) = Some j" for j
        using that by (simp add: c' replace_entry_def)
      then show ?thesis using looks [OF q] by (simp add: page_value_def split: option.split)
    qed
    moreover have "page_value (contents (pc_device c)) c' (Committed, pid) =
        page_value (contents (pc_device c)) c (Candidate k, pid)"
      using Some key i(1) by (simp add: page_value_def c' replace_entry_def sealed_bytes_def)
    ultimately show ?thesis using upd looks by blast
  qed
  then show "cache_ok valid contents c'" "\<forall>e \<in> set (pc_entries c'). ce_owner e = Candidate k \<longrightarrow> \<not> ce_dirty e"
    "page_value (contents (pc_device c)) c' (Committed, pid) = page_value (contents (pc_device c)) c (Candidate k, pid)"
    "q \<noteq> pid \<Longrightarrow> page_value pages c' (own, q) = page_value pages c (own, q)"
    "q \<noteq> pid \<Longrightarrow> pc_lookup c' (own, q) = pc_lookup c (own, q)" by blast+
qed

section \<open>Installing a candidate\<close>

lemma adopt_pages_ok:
  assumes "cache_ok valid contents c" "distinct pids"
    "\<forall>pid \<in> set pids. readable (pc_reservations c) (Candidate k, pid) \<and> pc_lookup c (Committed, pid) = None"
    "\<forall>e \<in> set (pc_entries c). ce_owner e = Candidate k \<longrightarrow> \<not> ce_dirty e"
  shows "cache_ok valid contents (fold (adopt_page k) pids c) \<and>
    pc_device (fold (adopt_page k) pids c) = pc_device c \<and>
    (\<forall>q. page_value (contents (pc_device c)) (fold (adopt_page k) pids c) (Committed, q) =
      page_value (contents (pc_device c)) c (if q \<in> set pids then Candidate k else Committed, q))"
  using assms
proof (induction pids arbitrary: c)
  case (Cons pid pids)
  let ?c = "adopt_page k pid c"
  have pre: "readable (pc_reservations c) (Candidate k, pid)" "pc_lookup c (Committed, pid) = None"
    using Cons.prems(3) by auto
  note a = adopt_page_ok [OF Cons.prems(1) pre(1) Cons.prems(4) pre(2)]
  have neq: "q \<noteq> pid" if "q \<in> set pids" for q using Cons.prems(2) that by auto
  have dev: "pc_device ?c = pc_device c" by (simp add: adopt_page_def)
  have "readable (pc_reservations ?c) (Candidate k, q) \<and> pc_lookup ?c (Committed, q) = None" if "q \<in> set pids" for q
    using Cons.prems(3) that neq [OF that] a(5) [OF neq [OF that]] by (auto simp: adopt_page_def map_of_drop)
  then have IH: "cache_ok valid contents (fold (adopt_page k) pids ?c) \<and>
      pc_device (fold (adopt_page k) pids ?c) = pc_device c \<and>
      (\<forall>q. page_value (contents (pc_device c)) (fold (adopt_page k) pids ?c) (Committed, q) =
        page_value (contents (pc_device c)) ?c (if q \<in> set pids then Candidate k else Committed, q))"
    using Cons.IH [OF a(1) _ _ a(2)] Cons.prems(2) dev by simp
  moreover have "page_value (contents (pc_device c)) ?c (if q \<in> set pids then Candidate k else Committed, q) =
      page_value (contents (pc_device c)) c (if q \<in> set (pid # pids) then Candidate k else Committed, q)" for q
    using a(3) a(4) [of q] neq [of q] Cons.prems(2) by (cases "q = pid") auto
  ultimately show ?case by (simp only: fold_simps set_simps) blast
qed simp

lemma no_dirty_pages:
  assumes ok: "cache_ok valid contents c" and "\<not> has_dirty_pages c k"
    and e: "e \<in> set (pc_entries c)" "ce_owner e = Candidate k"
  shows "\<not> ce_dirty e"
proof -
  have "entry_ok (contents (pc_device c)) (pc_reservations c) e" using ok e by (simp add: cache_ok_def)
  then obtain rv where rv: "(ce_id e, rv) \<in> set (pc_reservations c)" "rv_candidate rv = k"
    using e(2) by (auto simp: entry_ok_def reserved_for_def dest: map_of_SomeD)
  obtain i where i: "i < length (pc_entries c)" "pc_entries c ! i = e"
    using e(1) by (auto simp: in_set_conv_nth)
  moreover from this have "pc_lookup c (Candidate k, ce_id e) = Some i"
    using index_ok_nth [of c i] ok e(2) by (simp add: cache_ok_def entry_key_def)
  ultimately show ?thesis using assms(2) rv by (fastforce simp: has_dirty_pages_def list_ex_iff)
qed

lemma for_op_state: "(\<And>x s. snd (f x s) = s) \<Longrightarrow> snd (for_op xs f s) = s"
proof (induction xs arbitrary: s)
  case (Cons x xs)
  obtain r where "f x s = (r, s)" using Cons.prems [of x s] by (metis prod.collapse)
  with Cons show ?case by (cases r) simp_all
qed simp

lemma install_page_reservations:
  "install_page k pid (c\<lparr>pc_reservations := rs\<rparr>) = (install_page k pid c)\<lparr>pc_reservations := rs\<rparr>"
  by (simp add: install_page_def Let_def set_entry_def split: option.split)

lemma adopt_pages_fold:
  "fold (adopt_page k) pids c =
     (fold (install_page k) pids c)\<lparr>pc_reservations := filter (\<lambda>(q, _). q \<notin> set pids) (pc_reservations c)\<rparr>"
proof (induction pids arbitrary: c)
  case (Cons pid pids)
  have comm: "fold (install_page k) pids (c\<lparr>pc_reservations := rs\<rparr>) =
      (fold (install_page k) pids c)\<lparr>pc_reservations := rs\<rparr>" for c :: "'a page_cache" and rs
    by (induction pids arbitrary: c) (simp_all add: install_page_reservations)
  have step: "adopt_page k pid c =
      (install_page k pid c)\<lparr>pc_reservations := filter (\<lambda>(q, _). q \<noteq> pid) (pc_reservations c)\<rparr>"
    by (simp add: adopt_page_def drop_reservation_def install_page_reservations)
  show ?case
    unfolding fold_simps comp_apply Cons.IH step comm by (simp add: case_prod_unfold conj_commute)
qed simp

lemma install_candidate_cases:
  fixes ops :: "'d page_device_ops" and c c' :: "'d page_cache"
  assumes ins: "install_candidate ops k active nextb c = (r, c')"
  defines "ids \<equiv> map (\<lambda>(pid, rv). (pid, rv_written rv)) (filter (\<lambda>(pid, rv). rv_candidate rv = k) (pc_reservations c))"
    and "pids \<equiv> map fst (filter (\<lambda>(_, rv). rv_candidate rv = k) (pc_reservations c))"
    and "d \<equiv> fold (\<lambda>pid. remove_entry (Committed, pid)) (allocated_since active nextb (dev_page_count ops (pc_device c))) c"
  defines "new \<equiv> fold (install_page k) pids d"
  obtains (refused) y where "r = Inl y" "c' = c"
    | (installed) "r = Inr ()" "\<not> has_dirty_pages c k"
      "\<not> list_ex (\<lambda>(pid, _). pc_lookup c (Committed, pid) \<noteq> None) ids" "\<not> list_ex (\<lambda>(_, written). \<not> written) ids"
      "c' = new\<lparr>pc_reservations := filter (\<lambda>(_, rv). rv_candidate rv \<noteq> k) (pc_reservations new)\<rparr>"
proof -
  let ?check = "\<lambda>(pid, _ :: bool) c. case is_allocated nextb pid of Inl e \<Rightarrow> (Inl e, c)
    | Inr allocated \<Rightarrow> if \<not> allocated then (Inl PAGE_CACHE_ERROR, c) else (Inr (), c)"
  obtain r1 where chk: "for_op ids ?check c = (r1, c)"
  proof -
    have "snd (for_op ids ?check c) = c" by (rule for_op_state) (simp split: prod.split sum.split)
    then show thesis by (cases "for_op ids ?check c") (simp add: that)
  qed
  have loop: "fold (\<lambda>(pid, _). install_page k pid) ids d = new"
    by (simp add: new_def ids_def pids_def fold_map comp_def case_prod_unfold)
  have "install_candidate ops k active nextb c =
    (if has_dirty_pages c k \<or> Candidate k \<in> set (pc_unflushed_owners c) then (Inl PAGE_CACHE_ERROR, c)
     else if list_ex (\<lambda>(pid, _). pc_lookup c (Committed, pid) \<noteq> None) ids then (Inl PAGE_CACHE_ERROR, c)
     else if list_ex (\<lambda>(_, written). \<not> written) ids then (Inl PAGE_CACHE_ERROR, c)
     else case r1 of Inl e \<Rightarrow> (Inl e, c)
       | Inr _ \<Rightarrow> (Inr (), new\<lparr>pc_reservations := filter (\<lambda>(_, rv). rv_candidate rv \<noteq> k) (pc_reservations new)\<rparr>))"
    unfolding install_candidate_def Let_def bind_op_def ids_def [symmetric] d_def [symmetric] chk loop prod.case by (rule refl)
  then have "(\<exists>y. r = Inl y \<and> c' = c) \<or> r = Inr () \<and> \<not> has_dirty_pages c k \<and>
      \<not> list_ex (\<lambda>(pid, _). pc_lookup c (Committed, pid) \<noteq> None) ids \<and> \<not> list_ex (\<lambda>(_, written). \<not> written) ids \<and>
      c' = new\<lparr>pc_reservations := filter (\<lambda>(_, rv). rv_candidate rv \<noteq> k) (pc_reservations new)\<rparr>"
    unfolding ins by (cases r1) (auto split: if_split_asm)
  with refused installed show thesis by blast
qed

context page_device
begin

text \<open>
  The whole of it: on success the candidate's pages read, as committed pages, what the candidate read in
  them, every other committed page is as it was, the device is untouched, and none of the candidate's
  reservations is left. A refusal changes nothing.
\<close>

lemma install_candidate_ok:
  assumes ok: "cache_ok valid contents c" and ins: "install_candidate ops k active next c = (r, c')"
  shows "cache_ok valid contents c'" "pc_device c' = pc_device c" "r = Inl x \<Longrightarrow> c' = c"
    "r = Inr u \<Longrightarrow> pc_reservations c' = filter (\<lambda>(_, rv). rv_candidate rv \<noteq> k) (pc_reservations c) \<and>
       page_value (contents (pc_device c)) c' (Committed, q) =
         page_value (contents (pc_device c)) c
           (if reserved_for (pc_reservations c) k q then Candidate k else Committed, q)"
proof -
  let ?rs = "pc_reservations c"
  let ?pids = "map fst (filter (\<lambda>(_, rv). rv_candidate rv = k) ?rs)"
  let ?d = "fold (\<lambda>pid. remove_entry (Committed, pid)) (allocated_since active next (dev_page_count ops (pc_device c))) c"
  have dist: "distinct (map fst ?rs)" using ok by (simp add: cache_ok_def reservations_ok_def)
  have mem: "pid \<in> set ?pids \<longleftrightarrow> reserved_for ?rs k pid" for pid
    using map_of_eq_Some_iff [OF dist] by (force simp: reserved_for_def)
  let ?ids = "map (\<lambda>(pid, rv). (pid, rv_written rv)) (filter (\<lambda>(pid, rv). rv_candidate rv = k) ?rs)"
  note d = drop_committed_all [OF ok, of "allocated_since active next (dev_page_count ops (pc_device c))"]
  have left: "filter (\<lambda>(q, _). q \<notin> set ?pids) ?rs = filter (\<lambda>(_, rv). rv_candidate rv \<noteq> k) ?rs"
  proof (rule filter_cong [OF refl])
    fix p assume p: "p \<in> set ?rs"
    obtain q rv where qr: "p = (q, rv)" by (cases p)
    then have "map_of ?rs q = Some rv" using p dist by (simp add: map_of_eq_Some_iff)
    then show "(case p of (q, _) \<Rightarrow> q \<notin> set ?pids) = (case p of (_, rv) \<Rightarrow> rv_candidate rv \<noteq> k)"
      unfolding qr prod.case mem by (simp add: reserved_for_def)
  qed
  let ?new = "(fold (install_page k) ?pids ?d)\<lparr>pc_reservations :=
      filter (\<lambda>(_, rv). rv_candidate rv \<noteq> k) (pc_reservations (fold (install_page k) ?pids ?d))\<rparr>"
  consider (refused) y where "r = Inl y" "c' = c"
    | (installed) "r = Inr ()" "\<not> has_dirty_pages c k"
      "\<not> list_ex (\<lambda>(pid, _). pc_lookup c (Committed, pid) \<noteq> None) ?ids" "\<not> list_ex (\<lambda>(_, written). \<not> written) ?ids"
      "c' = ?new"
    using ins by (cases rule: install_candidate_cases) blast+
  then have "cache_ok valid contents c' \<and> pc_device c' = pc_device c \<and> (r = Inl x \<longrightarrow> c' = c) \<and>
    (r = Inr u \<longrightarrow> pc_reservations c' = filter (\<lambda>(_, rv). rv_candidate rv \<noteq> k) ?rs \<and>
       page_value (contents (pc_device c)) c' (Committed, q) = page_value (contents (pc_device c)) c
           (if reserved_for ?rs k q then Candidate k else Committed, q))"
  proof cases
    case installed
    have keep: "pc_reservations (fold (install_page k) ps c0) = pc_reservations c0" for ps and c0 :: "'a page_cache"
      by (induction ps arbitrary: c0) simp_all
    have rs: "pc_reservations ?d = ?rs" using d by simp
    have c': "c' = fold (adopt_page k) ?pids ?d"
      unfolding adopt_pages_fold installed(5) keep rs left ..
    have "\<forall>pid \<in> set ?pids. readable (pc_reservations ?d) (Candidate k, pid) \<and> pc_lookup ?d (Committed, pid) = None"
      using installed(3,4) d dist by (auto simp: list_ex_iff map_of_eq_Some_iff)
    moreover have "\<forall>e \<in> set (pc_entries ?d). ce_owner e = Candidate k \<longrightarrow> \<not> ce_dirty e"
      using no_dirty_pages [OF ok installed(2)] d by blast
    ultimately have a: "cache_ok valid contents c' \<and> pc_device c' = pc_device ?d \<and>
        (\<forall>q. page_value (contents (pc_device ?d)) c' (Committed, q) =
          page_value (contents (pc_device ?d)) ?d (if q \<in> set ?pids then Candidate k else Committed, q))"
      unfolding c' using d distinct_map_filter [OF dist] by (intro adopt_pages_ok) simp_all
    have "pc_reservations c' = filter (\<lambda>(_, rv). rv_candidate rv \<noteq> k) ?rs" by (simp add: installed(5) keep rs)
    with a d installed(1) show ?thesis unfolding mem by simp
  qed (use ok in simp)
  then show "cache_ok valid contents c'" "pc_device c' = pc_device c" "r = Inl x \<Longrightarrow> c' = c"
    "r = Inr u \<Longrightarrow> pc_reservations c' = filter (\<lambda>(_, rv). rv_candidate rv \<noteq> k) (pc_reservations c) \<and>
       page_value (contents (pc_device c)) c' (Committed, q) =
         page_value (contents (pc_device c)) c
           (if reserved_for (pc_reservations c) k q then Candidate k else Committed, q)" by blast+
qed

end

end
