(* ===== verification/PagerProofs.thy ===== *)
theory PagerProofs
  imports Pager CacheInstall
begin

text \<open>
  What the pager promises: a fresh device is given an empty database that recovers to itself, a
  transaction writes only pages its active root does not reach, and a commit publishes exactly the
  pages the transaction saw or leaves the active root as it was.
\<close>

section \<open>The pages the cache holds\<close>

text \<open>Operations that leave the cache's index alone, and those that may add one key to it.\<close>

definition same_index :: "('d page_cache, 'a) op \<Rightarrow> bool" where
  "same_index m \<longleftrightarrow> (\<forall>c r c'. m c = (r, c') \<longrightarrow> pc_lookup c' = pc_lookup c)"

lemma same_index_op [simp]:
  "same_index (on_device m)" "same_index (return_op x)" "same_index (lift_op r')" "same_index (fail_op e)"
  by (auto simp: same_index_def on_device_def split: prod.splits)

lemma same_index_bind:
  "same_index m \<Longrightarrow> (\<And>x. same_index (f x)) \<Longrightarrow> same_index (bind_op m f)"
  unfolding same_index_def bind_op_eq by metis

lemma same_index_for: "(\<And>x. same_index (f x)) \<Longrightarrow> same_index (for_op xs f)"
  by (induction xs) (simp_all add: same_index_bind)

lemma same_index_placeholders: "same_index (write_placeholders ops pid)"
proof -
  have "same_index (for_op xs (\<lambda>p. on_device (dev_write_page ops p (replicate PAGE_SIZE 0))))" for xs
    by (rule same_index_for) simp
  then show ?thesis unfolding same_index_def write_placeholders_def by blast
qed

lemma same_index_write_entry: "same_index (write_entry ops i)"
proof -
  have m: "same_index (bind_op (write_placeholders ops pid) (\<lambda>_. bind_op (on_device (dev_write_page ops pid bs))
      (\<lambda>_ c. (Inr (), mark_clean i c))))" for pid bs
    by (intro same_index_bind same_index_placeholders same_index_op) (simp add: same_index_def)
  show ?thesis
    unfolding same_index_def
  proof (intro allI impI)
    fix c r c' assume "write_entry ops i c = (r, c')"
    then have "pc_lookup c' = pc_lookup (set_entry i (seal_entry (pc_entries c ! i)) c)"
      using m [unfolded same_index_def] by (simp only: write_entry_def Let_def)
    then show "pc_lookup c' = pc_lookup c" by simp
  qed
qed

lemma find_victim_lookup: "find_victim_loop ops n c = (r, c') \<Longrightarrow> pc_lookup c' = pc_lookup c"
proof (induction n arbitrary: c)
  case (Suc n)
  let ?c = "c\<lparr>pc_hand := (pc_hand c + 1) mod length (pc_entries c)\<rparr>"
  have w: "pc_lookup c2 = pc_lookup ?c" if "write_entry ops i ?c = (r1, c2)" for i r1 c2
    using same_index_write_entry [of ops i] that unfolding same_index_def by blast
  show ?case
    using Suc.prems Suc.IH w by (auto simp: Let_def bind_op_eq split: if_splits)
qed simp

lemma cache_insert_dom:
  assumes "cache_insert ops e c = (r, c')"
  shows "dom (pc_lookup c') \<subseteq> insert (entry_key e) (dom (pc_lookup c))"
  using assms find_victim_lookup [of ops _ c]
  by (fastforce simp: cache_insert_def find_victim_def Let_def bind_op_eq split: if_splits)

lemma read_owned_dom:
  assumes "read_owned ops own pid verify c = (r, c')"
  shows "dom (pc_lookup c') \<subseteq> insert (own, pid) (dom (pc_lookup c))"
proof (cases "pc_lookup c (own, pid)")
  case None
  let ?e = "\<lambda>bs. \<lparr>ce_id = pid, ce_owner = own, ce_bytes = bs, ce_referenced = True, ce_dirty = False, ce_unsealed = False\<rparr>"
  have "pc_lookup c1 = pc_lookup c" if "on_device (dev_read_page ops pid) c = (r1, c1)" for r1 c1
    using that by (auto simp: on_device_def split: prod.splits)
  moreover have "dom (pc_lookup c2) \<subseteq> insert (own, pid) (dom (pc_lookup c1))" if "cache_insert ops (?e bs) c1 = (r2, c2)" for bs c1 r2 c2
    using cache_insert_dom [OF that] by (simp add: entry_key_def)
  ultimately show ?thesis
    using assms None by (fastforce simp: read_owned_def bind_op_eq)
qed (use assms in \<open>auto simp: read_owned_def Let_def\<close>)

lemma write_owned_dom:
  assumes "write_owned ops own pid bs unsealed c = (r, c')"
  shows "dom (pc_lookup c') \<subseteq> insert (own, pid) (dom (pc_lookup c))"
  using assms cache_insert_dom [of ops "\<lparr>ce_id = pid, ce_owner = own, ce_bytes = bs, ce_referenced = True,
      ce_dirty = True, ce_unsealed = unsealed\<rparr>" c]
  by (auto simp: write_owned_def bind_op_eq entry_key_def split: if_splits option.splits)

section \<open>The empty database\<close>

lemma map_fst_three:
  "map fst ps = [i, j, k] \<Longrightarrow> \<exists>x y z. ps = [(i, x), (j, y), (k, z)]"
  by (auto simp: map_eq_Cons_conv)

lemma empty_root_pages:
  "root_pages (rm_superblock (recovered_metadata_empty slot)) =
     (case slot of Slot_A \<Rightarrow> [0, 2, 3] | Slot_B \<Rightarrow> [1, 4, 5])"
proof -
  have "sb_bitmap_chunks (rm_superblock (recovered_metadata_empty slot)) =
      [\<lparr>bc_slot = slot_bitmap_slot slot, bc_generation = 1, bc_checksum = 0\<rparr>,
       \<lparr>bc_slot = slot_bitmap_slot slot, bc_generation = 1, bc_checksum = 0\<rparr>]"
    by (simp add: recovered_metadata_empty_def numeral_2_eq_2)
  from root_pages_two [OF this] show ?thesis
    by (cases slot) (simp_all add: recovered_metadata_empty_def bitmap_slot_page_id_def)
qed

lemma page_verify_length: "page_verify bs = Inr u \<Longrightarrow> length bs = 4096"
  by (auto simp: page_verify_def split: if_splits)

lemma empty_layout:
  obtains active pages where "empty_metadata_layout = Inr (active, pages)"
    "length pages = 6" "\<And>bs. bs \<in> set pages \<Longrightarrow> page_verify bs = Inr ()"
    "root_ok active" "logically_matches (recovered_metadata_empty Slot_A) active"
    "sb_slot (rm_superblock active) = Slot_A" "area_ok pages active"
    "recover_metadata pages = Inr (active, None)"
proof -
  let ?E = recovered_metadata_empty
  have slot: "sb_slot (rm_superblock (?E slot)) = slot" for slot by (simp add: recovered_metadata_empty_def)
  obtain a pa where a: "encode_pages (?E Slot_A) = Inr (a, pa)" "root_ok a" "logically_matches (?E Slot_A) a"
      "sb_slot (rm_superblock a) = Slot_A" "map fst pa = [2, 3, 0]" "list_all (\<lambda>(i, bs). page_verify bs = Inr ()) pa"
      "\<And>pages. \<forall>(i, bs) \<in> set pa. pages ! i = bs \<Longrightarrow> decode_metadata_candidate Slot_A pages = Inr a"
    using encode_pages_ok [OF empty_root_ok [of Slot_A]] by (auto simp: slot empty_root_pages)
  obtain b pb where b: "encode_pages (?E Slot_B) = Inr (b, pb)" "root_ok b" "logically_matches (?E Slot_B) b"
      "sb_slot (rm_superblock b) = Slot_B" "map fst pb = [4, 5, 1]" "list_all (\<lambda>(i, bs). page_verify bs = Inr ()) pb"
      "\<And>pages. \<forall>(i, bs) \<in> set pb. pages ! i = bs \<Longrightarrow> decode_metadata_candidate Slot_B pages = Inr b"
    using encode_pages_ok [OF empty_root_ok [of Slot_B]] by (auto simp: slot empty_root_pages)
  obtain x2 x3 x0 where pa: "pa = [(2, x2), (3, x3), (0, x0)]" using map_fst_three [OF a(5)] by blast
  obtain x4 x5 x1 where pb: "pb = [(4, x4), (5, x5), (1, x1)]" using map_fst_three [OF b(5)] by blast
  let ?pages = "[x0, x1, x2, x3, x4, x5]"
  have six: "replicate 6 z = [z, z, z, z, z, z]" for z :: bytes by (simp add: eval_nat_numeral)
  have lay: "empty_metadata_layout = Inr (a, ?pages)"
    by (simp add: empty_metadata_layout_def a(1) b(1) pa pb six eval_nat_numeral)
  have ver: "page_verify bs = Inr ()" if "bs \<in> set ?pages" for bs
    using that a(6) b(6) by (auto simp: pa pb)
  have dec: "decode_metadata_candidate Slot_A ?pages = Inr a" "decode_metadata_candidate Slot_B ?pages = Inr b"
    using a(7) [of ?pages] b(7) [of ?pages] by (simp_all add: pa pb eval_nat_numeral)
  have twin: "logically_matches a b"
    using a(3) b(3) by (simp add: logically_matches_def recovered_metadata_empty_def Let_def)
  obtain s bits where s: "decode_superblock_page x1 = Inr (s, bits)"
    using dec(2) by (auto simp: decode_metadata_candidate_def and_then_eq_Inr)
  have "list_all (\<lambda>bs. page_verify bs \<noteq> Inl UNSUPPORTED_PAGE) ?pages"
    unfolding list_all_iff using ver by (metis Inl_Inr_False)
  moreover have "sb_generation s = sb_generation (rm_superblock a)"
    using dec(2) s twin by (auto simp: decode_metadata_candidate_def and_then_eq_Inr logically_matches_def Let_def split: if_splits)
  ultimately have "area_ok ?pages a"
    unfolding area_ok_def Let_def a(4) using dec twin s by simp
  with lay ver a(2-4) recover_twins [OF dec twin] show thesis by (intro that) simp_all
qed

section \<open>Metadata areas\<close>

text \<open>
  The metadata areas a database can have, each with the root in use: the empty layout; what is left of the writes of a
  commit cut off at any point, while the old root stays in use; and, after recovery, the newest root it finds or, where
  that one's pages turn out torn, its predecessor.  A commit that succeeds is one whose writes all arrived.
\<close>

inductive metadata_area :: "bytes list \<Rightarrow> recovered_metadata \<Rightarrow> bool" where
  area_created: "empty_metadata_layout = Inr (active, pages) \<Longrightarrow> metadata_area pages active"
| area_cut_off: "metadata_area pages active \<Longrightarrow> bitmap_ok bitmap \<Longrightarrow>
    build_next_metadata active revision h catalog bitmap = Inr pm \<Longrightarrow>
    encode_superblock_page (rm_superblock (pending_root pm hash)) bitmap = Inr sb \<Longrightarrow>
    crash_image pages (metadata_writes pm sb) pages' \<Longrightarrow> metadata_area pages' active"
| area_recovered: "metadata_area pages active \<Longrightarrow> recover_metadata pages = Inr (newest, previous) \<Longrightarrow>
    root = newest \<or> previous = Some root \<Longrightarrow> metadata_area pages root"

lemma metadata_area_ok: "metadata_area pages active \<Longrightarrow> area_ok pages active"
proof (induction rule: metadata_area.induct)
  case (area_created active pages)
  then show ?case by (metis Inr_inject empty_layout prod.inject)
next
  case area_cut_off
  then show ?case by (blast intro: crash_area_ok)
next
  case area_recovered
  then show ?case by (blast intro: recovered_area_ok)
qed

section \<open>Opening a device\<close>

definition root_served :: "bytes list \<Rightarrow> recovered_metadata \<Rightarrow> bool" where
  "root_served pages r \<longleftrightarrow>
     6 \<le> length pages \<and> root_ok r \<and> decode_metadata_candidate (sb_slot (rm_superblock r)) (take 6 pages) = Inr r"

definition covered :: "bytes list \<Rightarrow> allocation_bitmap \<Rightarrow> bool" where
  "covered pages b \<longleftrightarrow> (\<forall>pid. allocates b pid \<longrightarrow> pid < length pages)"

text \<open>The data pages the newer root has and the older has not, in order.\<close>

definition pages_since :: "recovered_metadata \<Rightarrow> recovered_metadata \<Rightarrow> nat list \<Rightarrow> nat list" where
  "pages_since newest previous =
     filter (\<lambda>pid. allocates (rm_allocation_bitmap newest) pid \<and> \<not> allocates (rm_allocation_bitmap previous) pid)"

definition data_page_ids :: "nat list" where
  "data_page_ids = [6..<65536]"

definition pages_hash :: "bytes list \<Rightarrow> nat list \<Rightarrow> u64 \<Rightarrow> u64" where
  "pages_hash pages pids hash = fold (\<lambda>pid h. commit_hash_page h pid (page_checksum (pages ! pid))) pids hash"

definition pages_verify :: "bytes list \<Rightarrow> nat list \<Rightarrow> bool" where
  "pages_verify pages pids \<longleftrightarrow>
     list_all (\<lambda>pid. pid < length pages \<and> verify_expected_page pid (pages ! pid) = Inr ()) pids"

lemma is_allocated_ok: "pid < 65536 \<Longrightarrow> is_allocated b pid = Inr (allocates b pid)"
  by (simp add: is_allocated_def validate_page_id_def)

lemma bind_lift_Inr [simp]: "bind_op (lift_op (Inr x)) f = f x"
  by (rule ext) simp

lemma recover_decodes:
  assumes "recover_metadata pages = Inr (newest, previous)"
  shows "decode_metadata_candidate (sb_slot (rm_superblock newest)) pages = Inr newest"
    "previous = Some r \<Longrightarrow> decode_metadata_candidate (sb_slot (rm_superblock r)) pages = Inr r"
  using assms decode_candidate_ok [of Slot_A pages] decode_candidate_ok [of Slot_B pages]
  by (auto simp: recover_metadata_def Let_def split: if_splits sum.splits)

context page_device
begin

lemma write_range:
  assumes "valid d" "for_op [a..<b] (\<lambda>pid. dev_write_page ops pid (f pid)) d = (r, d')" "a \<le> length (contents d)"
  shows "valid d'" "only_touches {a..<b} (contents d) (contents d')"
    "is_ok r \<Longrightarrow> a \<le> i \<Longrightarrow> i < b \<Longrightarrow> i < length (contents d') \<and> contents d' ! i = f i"
    "is_ok r \<Longrightarrow> length (contents d') = max (length (contents d)) (if a < b then b else 0)"
proof -
  have "map (\<lambda>i. (i, f i)) [a..<b] = enumerate a (map f [a..<b])"
    by (rule nth_equalityI) (simp_all add: nth_enumerate_eq)
  then have loop: "for_op (enumerate a (map f [a..<b])) (\<lambda>(pid, src). dev_write_page ops pid src) d = (r, d')"
    using assms(2) by (simp add: for_op_map flip: \<open>map _ _ = enumerate a _\<close>)
  note w = for_write_pages [OF assms(1) loop]
  show "valid d'" using w by simp
  have all: "contents d' = write_all (contents d) a (map f [a..<b])" if "is_ok r"
    using w that by (auto split: sum.splits)
  have e: "{a..<a + length (map f [a..<b])} = {a..<b}" by auto
  show "only_touches {a..<b} (contents d) (contents d')"
    using w all write_all_touches [OF assms(3), of "map f [a..<b]"] unfolding e by (cases r) auto
  show "is_ok r \<Longrightarrow> length (contents d') = max (length (contents d)) (if a < b then b else 0)"
    using all assms(3) by (auto simp: length_write_all)
  then show "is_ok r \<Longrightarrow> a \<le> i \<Longrightarrow> i < b \<Longrightarrow> i < length (contents d') \<and> contents d' ! i = f i"
    using all nth_write_all [OF assms(3), of "i - a" "map f [a..<b]"] by auto
qed

lemma initialize_empty_ok:
  assumes v: "valid d" and init: "initialize_empty_device ops d = (r, d')"
  shows "valid d' \<and> (\<forall>active. r = Inr active \<longrightarrow> (\<exists>pages. empty_metadata_layout = Inr (active, pages) \<and>
    take 6 (contents d') = pages \<and> length (contents d') = max 6 (length (contents d))))"
proof -
  obtain a pages where lay: "empty_metadata_layout = Inr (a, pages)" "length pages = 6"
    by (rule empty_layout)
  let ?z = "replicate PAGE_SIZE (0 :: u8)"
  obtain r1 d1 where s1: "for_op [0..<6] (\<lambda>pid. dev_write_page ops pid ?z) d = (r1, d1)"
    by (cases "for_op [0..<6] (\<lambda>pid. dev_write_page ops pid ?z) d")
  note w1 = write_range [OF v s1]
  show ?thesis
  proof (cases r1)
    case (Inl e)
    then show ?thesis using init s1 lay w1 by (auto simp: initialize_empty_device_def bind_op_eq)
  next
    case ok1: (Inr u1)
    obtain r2 d2 where s2: "for_op [2..<6] (\<lambda>pid. dev_write_page ops pid (pages ! pid)) d1 = (r2, d2)"
      by (cases "for_op [2..<6] (\<lambda>pid. dev_write_page ops pid (pages ! pid)) d1")
    have l1: "length (contents d1) = max 6 (length (contents d))" using w1(4) ok1 by (simp add: max.commute)
    note w2 = write_range [OF _ s2]
    have v1: "valid d1" using w1 by simp
    obtain r3 d3 where s3: "dev_flush ops d2 = (r3, d3)" by (cases "dev_flush ops d2")
    obtain r4 d4 where s4: "for_op [0..<2] (\<lambda>pid. dev_write_page ops pid (pages ! pid)) d3 = (r4, d4)"
      by (cases "for_op [0..<2] (\<lambda>pid. dev_write_page ops pid (pages ! pid)) d3")
    obtain r5 d5 where s5: "dev_flush ops d4 = (r5, d5)" by (cases "dev_flush ops d4")
    have v2: "valid d2" using w2(1) v1 l1 by simp
    have f3: "valid d3" "contents d3 = contents d2" using flush [OF v2 s3] by simp_all
    note w4 = write_range [OF f3(1) s4]
    have v4: "valid d4" using w4(1) by simp
    have f5: "valid d5" "contents d5 = contents d4" using flush [OF v4 s5] by simp_all
    have final: "take 6 (contents d5) = pages \<and> length (contents d5) = max 6 (length (contents d))"
      if "is_ok r2" "is_ok r4"
    proof -
      have l2: "length (contents d2) = max 6 (length (contents d))"
        using w2(4) [OF v1 _ that(1)] l1 by simp
      have l4: "length (contents d4) = max 6 (length (contents d))"
        using w4(4) [OF _ that(2)] f3(2) l2 by simp
      have "contents d4 ! i = pages ! i" if i: "i < 6" for i
      proof (cases "i < 2")
        case True
        then show ?thesis using w4(3) [OF _ \<open>is_ok r4\<close>, of i] by simp
      next
        case False
        have "contents d4 ! i = contents d2 ! i"
          using w4(2) i False f3(2) l2 by (auto simp: only_touches_def)
        with w2(3) [OF v1 _ \<open>is_ok r2\<close>, of i] False i l1 show ?thesis by simp
      qed
      then have "take 6 (contents d4) = pages" using l4 lay(2) by (intro nth_equalityI) simp_all
      with f5(2) l4 show ?thesis by simp
    qed
    show ?thesis
      using init s1 s2 s3 s4 s5 ok1 lay(1) v2 f3(1) v4 f5(1) final
      by (cases r2; cases r3; cases r4; cases r5) (auto simp: initialize_empty_device_def)
  qed
qed

lemma read_pages_ok:
  assumes "valid d" "read_pages ops pids d = (r, d')"
  shows "valid d' \<and> contents d' = contents d \<and>
    (\<forall>bss. r = Inr bss \<longrightarrow> (\<forall>pid \<in> set pids. pid < length (contents d)) \<and> bss = map ((!) (contents d)) pids)"
  using assms
proof (induction pids arbitrary: d r d')
  case (Cons pid pids)
  obtain r1 d1 where s: "dev_read_page ops pid d = (r1, d1)" by (cases "dev_read_page ops pid d")
  note rd = read_one [OF Cons.prems(1) s]
  show ?case
  proof (cases r1)
    case (Inl e)
    then show ?thesis using Cons.prems(2) s rd by auto
  next
    case (Inr bs)
    obtain r2 d2 where s2: "read_pages ops pids d1 = (r2, d2)" by (cases "read_pages ops pids d1")
    note IH = Cons.IH [OF _ s2]
    show ?thesis using Cons.prems(2) s s2 Inr rd IH by (cases r2) auto
  qed
qed auto

text \<open>
  Whether a commit became durable is what the device's pages say: every page the commit wrote is there,
  verifies under its own id, and the hash over them is the one the root records.
\<close>

lemma durable_pages_ok:
  assumes "valid d" "durable_pages ops newest previous (length (contents d)) hash pids d = (r, d')"
    "\<forall>pid \<in> set pids. pid < 65536"
  shows "valid d' \<and> contents d' = contents d \<and>
    (\<forall>b. r = Inr b \<longrightarrow> b = (let news = pages_since newest previous pids in pages_verify (contents d) news \<and>
       pages_hash (contents d) news hash = sb_commit_hash (rm_superblock newest)))"
  using assms
proof (induction pids arbitrary: d r hash)
  case (Cons pid pids)
  have pid: "pid < 65536" using Cons.prems(3) by simp
  let ?new = "allocates (rm_allocation_bitmap newest) pid \<and> \<not> allocates (rm_allocation_bitmap previous) pid"
  have step: "durable_pages ops newest previous (length (contents d)) hash (pid # pids) d =
     (if \<not> ?new then durable_pages ops newest previous (length (contents d)) hash pids d
      else if length (contents d) \<le> pid then (Inr False, d)
      else bind_op (dev_read_page ops pid) (\<lambda>bs.
         case verify_expected_page pid bs of
           Inl _ \<Rightarrow> return_op False
         | Inr _ \<Rightarrow> durable_pages ops newest previous (length (contents d))
                     (commit_hash_page hash pid (page_checksum bs)) pids) d)"
    using pid by (auto simp: is_allocated_ok)
  show ?case
  proof (cases "?new")
    case False
    then have "pages_since newest previous (pid # pids) = pages_since newest previous pids"
      by (simp add: pages_since_def)
    with Cons.IH [OF Cons.prems(1), of hash r] Cons.prems(2,3) False show ?thesis
      unfolding step by simp
  next
    case True
    then have ps: "pages_since newest previous (pid # pids) = pid # pages_since newest previous pids"
      by (simp add: pages_since_def)
    show ?thesis
    proof (cases "length (contents d) \<le> pid")
      case short: True
      then show ?thesis using Cons.prems True unfolding step ps by (auto simp: pages_verify_def Let_def)
    next
      case False
      obtain r1 d1 where s: "dev_read_page ops pid d = (r1, d1)" by (cases "dev_read_page ops pid d")
      note rd = read_one [OF Cons.prems(1) s]
      show ?thesis
      proof (cases r1)
        case (Inl e)
        then show ?thesis using Cons.prems(2) True False s rd unfolding step by auto
      next
        case (Inr bs)
        then have bs: "bs = contents d ! pid" and d1: "valid d1" "contents d1 = contents d" using rd by simp_all
        show ?thesis
        proof (cases "verify_expected_page pid bs")
          case (Inl e)
          then show ?thesis
            using Cons.prems(2) True False s d1 bs \<open>r1 = Inr bs\<close> unfolding step ps
            by (auto simp: pages_verify_def Let_def)
        next
          case v: (Inr u)
          have "durable_pages ops newest previous (length (contents d1))
              (commit_hash_page hash pid (page_checksum bs)) pids d1 = (r, d')"
            using Cons.prems(2) True False s d1 v \<open>r1 = Inr bs\<close> unfolding step by simp
          from Cons.IH [OF d1(1) this] Cons.prems(3) d1 v bs False show ?thesis
            unfolding ps by (auto simp: pages_verify_def pages_hash_def Let_def)
        qed
      qed
    qed
  qed
qed (simp add: pages_since_def pages_verify_def pages_hash_def)

lemma commit_is_durable_ok:
  assumes "valid d" "commit_is_durable ops newest previous d = (r, d')"
  shows "valid d' \<and> contents d' = contents d \<and>
    (\<forall>b. r = Inr b \<longrightarrow> b = (let news = pages_since newest previous data_page_ids in pages_verify (contents d) news \<and>
       pages_hash (contents d) news 0 = sb_commit_hash (rm_superblock newest)))"
proof -
  have "\<forall>pid \<in> set data_page_ids. pid < 65536" by (simp add: data_page_ids_def del: upt_rec_numeral)
  moreover have "durable_pages ops newest previous (length (contents d)) 0 data_page_ids d = (r, d')"
    using assms by (simp add: commit_is_durable_def count commit_hash_new_def data_page_ids_def
        del: durable_pages.simps upt_rec_numeral)
  ultimately show ?thesis using durable_pages_ok [OF assms(1)] by blast
qed

lemma recover_device_ok:
  assumes "valid d" "recover_device_metadata ops d = (r, d')"
  shows "valid d' \<and> contents d' = contents d \<and> (\<forall>active. r = Inr active \<longrightarrow> root_served (contents d) active)"
proof (cases "length (contents d) < 6")
  case True
  then show ?thesis using assms by (auto simp: recover_device_metadata_def count)
next
  case False
  obtain r1 d1 where s: "read_pages ops [0..<6] d = (r1, d1)" by (cases "read_pages ops [0..<6] d")
  note rd = read_pages_ok [OF assms(1) s]
  have take: "map ((!) (contents d)) [0..<6] = take 6 (contents d)"
    using False by (intro nth_equalityI) simp_all
  show ?thesis
  proof (cases r1)
    case (Inl e)
    then show ?thesis using assms False s rd by (auto simp: recover_device_metadata_def count)
  next
    case (Inr pages)
    then have pages: "pages = take 6 (contents d)" and d1: "valid d1" "contents d1 = contents d"
      using rd take by simp_all
    define f where "f = (\<lambda>(newest, previous). case previous of None \<Rightarrow> return_op newest
        | Some previous \<Rightarrow> bind_op (commit_is_durable ops newest previous)
            (\<lambda>durable. return_op (if \<not> durable then previous else newest)))"
    have "recover_device_metadata ops d =
        bind_op (read_pages ops [0..<6]) (\<lambda>pages. bind_op (lift_op (recover_metadata pages)) f) d"
      using assms(1) False by (simp add: recover_device_metadata_def count f_def)
    also have "\<dots> = bind_op (lift_op (recover_metadata pages)) f d1"
      using s Inr by (intro bind_op_simps(2)) simp
    finally have rest: "bind_op (lift_op (recover_metadata (take 6 (contents d)))) f d1 = (r, d')"
      using assms(2) pages by simp
    have dur: "valid d2 \<and> contents d2 = contents d" if "commit_is_durable ops n p d1 = (r2, d2)" for n p r2 d2
      using commit_is_durable_ok [OF d1(1) that] d1(2) by simp
    have root: "root_served (contents d) x"
      if "decode_metadata_candidate (sb_slot (rm_superblock x)) (take 6 (contents d)) = Inr x" for x
      using that decode_candidate_ok [OF that] False by (simp add: root_served_def)
    show ?thesis
    proof (cases "recover_metadata (take 6 (contents d))")
      case (Inl e)
      then show ?thesis using rest d1 by (auto simp: bind_op_def)
    next
      case (Inr np)
      obtain n p where np: "np = (n, p)" by (cases np)
      note dec = recover_decodes [OF Inr [unfolded np]]
      show ?thesis
      proof (cases p)
        case None
        then show ?thesis using rest Inr np d1 root dec by (auto simp: f_def)
      next
        case (Some q)
        obtain r2 d2 where s2: "commit_is_durable ops n q d1 = (r2, d2)" by (cases "commit_is_durable ops n q d1")
        show ?thesis
          using rest Inr np Some s2 dur [OF s2] root [OF dec(1)] root [OF dec(2) [OF Some]]
          by (cases r2) (auto simp: f_def)
      qed
    qed
  qed
qed

lemma validate_coverage_ok:
  assumes "valid d" "validate_physical_coverage ops b d = (r, d')" "6 \<le> length (contents d)"
  shows "d' = d \<and> (is_ok r \<longrightarrow> covered (contents d) b)"
proof -
  let ?f = "\<lambda>pid. bind_op (lift_op (is_allocated b pid)) (\<lambda>allocated.
      if allocated \<and> length (contents d) \<le> pid then fail_op PAGER_ERROR else return_op ())"
  have loop: "snd (for_op pids ?f d0) = d0 \<and> ((\<forall>pid \<in> set pids. pid < 65536) \<longrightarrow> is_ok (fst (for_op pids ?f d0)) \<longrightarrow>
      (\<forall>pid \<in> set pids. allocates b pid \<longrightarrow> pid < length (contents d)))" for pids d0
  proof (induction pids)
    case (Cons pid pids)
    then show ?case by (cases "is_allocated b pid") (auto simp: bind_op_def is_allocated_ok split: prod.splits sum.splits)
  qed simp
  have lim: "pid < 65536" if "allocates b pid" for pid using that by (simp add: allocates_def)
  have "for_op [6..<65536] ?f d = (r, d')"
    using assms by (simp add: validate_physical_coverage_def count del: upt_rec_numeral for_op.simps)
  with loop [of "[6..<65536]" d] assms(3) lim show ?thesis
    by (force simp: covered_def simp del: upt_rec_numeral for_op.simps)
qed

lemma bootstrap_ok:
  assumes "valid d" "is_recoverable_empty_bootstrap ops d = (r, d')"
  shows "valid d' \<and> contents d' = contents d"
proof -
  have loop: "valid d1 \<and> contents d1 = contents d0" if "valid d0" "bootstrap_pages ops expected pids d0 = (r1, d1)"
    for expected pids d0 r1 d1
    using that
  proof (induction pids arbitrary: d0)
    case (Cons pid pids)
    obtain r2 d2 where s: "dev_read_page ops pid d0 = (r2, d2)" by (cases "dev_read_page ops pid d0")
    note rd = read_one [OF Cons.prems(1) s]
    show ?case using Cons.prems(2) s rd Cons.IH [of d2] by (cases r2) (auto split: if_splits)
  qed simp
  obtain a pages where "empty_metadata_layout = Inr (a, pages)" by (rule empty_layout)
  with assms loop [OF assms(1)] show ?thesis
    by (auto simp: is_recoverable_empty_bootstrap_def Let_def split: if_splits)
qed

lemma initialize_served:
  assumes "valid d" "initialize_empty_device ops d = (Inr active, d')"
  shows "valid d'" "root_served (contents d') active" "metadata_area (take 6 (contents d')) active"
    "logically_matches (recovered_metadata_empty Slot_A) active"
proof -
  obtain a pages where lay: "empty_metadata_layout = Inr (a, pages)" "root_ok a"
      "logically_matches (recovered_metadata_empty Slot_A) a" "area_ok pages a"
    by (rule empty_layout)
  obtain pages' where init: "empty_metadata_layout = Inr (active, pages')" "take 6 (contents d') = pages'"
      "length (contents d') = max 6 (length (contents d))" "valid d'"
    using initialize_empty_ok [OF assms] by blast
  then have "a = active" "pages = pages'" using lay(1) by (metis Inr_inject prod.inject)+
  with init lay show "valid d'" "root_served (contents d') active" "metadata_area (take 6 (contents d')) active"
      "logically_matches (recovered_metadata_empty Slot_A) active"
    by (simp_all add: root_served_def area_ok_def Let_def area_created)
qed

lemma open_metadata_ok:
  assumes v: "valid d" and op: "open_metadata ops d = (r, d')"
  shows "valid d' \<and> (\<forall>active. r = Inr active \<longrightarrow> root_served (contents d') active)"
proof -
  have init: "valid d2 \<and> (\<forall>active. r2 = Inr active \<longrightarrow> root_served (contents d2) active)"
    if "valid d1" "initialize_empty_device ops d1 = (r2, d2)" for d1 r2 d2
    using initialize_empty_ok [OF that] initialize_served [OF that(1)] that(2) by auto
  have boot: "valid d2 \<and> (\<forall>active. r2 = Inr active \<longrightarrow> root_served (contents d2) active)"
    if "valid d1" "bind_op (is_recoverable_empty_bootstrap ops) (\<lambda>recoverable.
        if recoverable then initialize_empty_device ops else fail_op e) d1 = (r2, d2)" for d1 r2 d2 e
    using that bootstrap_ok [OF that(1)] init by (fastforce simp: bind_op_eq split: if_splits)
  have rec: "valid d2 \<and> contents d2 = contents d \<and> (\<forall>active. r2 = Inr active \<longrightarrow> root_served (contents d) active)"
    if "recover_device_metadata ops d = (r2, d2)" for r2 d2
    by (rule recover_device_ok [OF v that])
  show ?thesis
    using op v init [OF v] boot [OF v] boot rec
    by (auto simp: open_metadata_def Let_def count split: if_splits sum.splits prod.splits)
qed

end

end
