(* ===== verification/Transaction.thy ===== *)
theory Transaction
  imports PagerProofs
begin

text \<open>
  The write transaction between \<^verbatim>\<open>begin_write\<close> and its end: the invariant every operation keeps, what each
  does to the pages the transaction sees, and that none of them writes a page of the active root.
\<close>

section \<open>The invariants\<close>

definition data_only :: "'d page_cache \<Rightarrow> bool" where
  "data_only c \<longleftrightarrow> (\<forall>own pid. pc_lookup c (own, pid) \<noteq> None \<longrightarrow> FIRST_DATA_PAGE_ID \<le> pid)"

text \<open>The pages of the device as the pager's cache reaches them.\<close>

definition pager_pages :: "('d \<Rightarrow> bytes list) \<Rightarrow> 'd pager \<Rightarrow> bytes list" where
  "pager_pages contents p = contents (pc_device (pgr_cache p))"

definition pager_ok :: "('d \<Rightarrow> bool) \<Rightarrow> ('d \<Rightarrow> bytes list) \<Rightarrow> 'd pager \<Rightarrow> bool" where
  "pager_ok valid contents p \<longleftrightarrow>
     cache_ok valid contents (pgr_cache p) \<and> pc_reservations (pgr_cache p) = [] \<and> data_only (pgr_cache p) \<and>
     (\<not> pgr_recovery_required p \<longrightarrow>
        root_served (pager_pages contents p) (pgr_active p) \<and>
        covered (pager_pages contents p) (rm_allocation_bitmap (pgr_active p)))"

definition tx_ok :: "('d \<Rightarrow> bool) \<Rightarrow> ('d \<Rightarrow> bytes list) \<Rightarrow> 'd write_transaction \<Rightarrow> bool" where
  "tx_ok valid contents t \<longleftrightarrow>
     cache_ok valid contents (tx_cache t) \<and> data_only (tx_cache t) \<and>
     \<not> tx_finished t \<and> \<not> pgr_recovery_required (tx_pager t) \<and>
     root_served (pager_pages contents (tx_pager t)) (pgr_active (tx_pager t)) \<and>
     covered (pager_pages contents (tx_pager t)) (active_bitmap t) \<and> bitmap_ok (tx_next_bitmap t) \<and>
     reserved (pc_reservations (tx_cache t)) = {pid. is_new t pid} \<and>
     (\<forall>pid r. map_of (pc_reservations (tx_cache t)) pid = Some r \<longrightarrow> rv_candidate r = tx_candidate t) \<and>
     (\<forall>pid. is_new t pid \<longrightarrow> pid < tx_new_page_end t)"

text \<open>The pages no root but the transaction's own may reach: those it may write.\<close>

definition unreached :: "allocation_bitmap \<Rightarrow> nat set" where
  "unreached b = {pid. FIRST_DATA_PAGE_ID \<le> pid \<and> \<not> allocates b pid}"

text \<open>Whose page it is that the transaction reads under an id, and what it reads there.\<close>

definition tx_owner :: "'d write_transaction \<Rightarrow> nat \<Rightarrow> owner" where
  "tx_owner t pid = (if is_new t pid then Candidate (tx_candidate t) else Committed)"

definition tx_value :: "('d \<Rightarrow> bytes list) \<Rightarrow> 'd write_transaction \<Rightarrow> nat \<Rightarrow> bytes option" where
  "tx_value contents t pid =
     page_value (pager_pages contents (tx_pager t)) (tx_cache t) (tx_owner t pid, pid)"

definition pager_value :: "('d \<Rightarrow> bytes list) \<Rightarrow> 'd pager \<Rightarrow> nat \<Rightarrow> bytes option" where
  "pager_value contents p pid = page_value (pager_pages contents p) (pgr_cache p) (Committed, pid)"

text \<open>One step of a transaction: the active root stays, and only pages it does not reach are written.\<close>

definition tx_frame :: "('d \<Rightarrow> bytes list) \<Rightarrow> (owner \<times> nat) set \<Rightarrow> 'd write_transaction \<Rightarrow> 'd write_transaction \<Rightarrow> bool" where
  "tx_frame contents K t t' \<longleftrightarrow>
     pgr_active (tx_pager t') = pgr_active (tx_pager t) \<and> tx_candidate t' = tx_candidate t \<and>
     only_touches (unreached (active_bitmap t)) (pager_pages contents (tx_pager t)) (pager_pages contents (tx_pager t')) \<and>
     values_kept contents K (tx_cache t) (tx_cache t')"

lemma tx_fields [simp]:
  "tx_cache (set_tx_cache c t) = c" "active_bitmap (set_tx_cache c t) = active_bitmap t"
  "is_new (set_tx_cache c t) = is_new t" "tx_owner (set_tx_cache c t) = tx_owner t"
  "tx_candidate (set_tx_cache c t) = tx_candidate t" "tx_next_bitmap (set_tx_cache c t) = tx_next_bitmap t"
  "tx_new_page_end (set_tx_cache c t) = tx_new_page_end t" "tx_finished (set_tx_cache c t) = tx_finished t"
  "tx_failed (set_tx_cache c t) = tx_failed t"
  "pgr_active (tx_pager (set_tx_cache c t)) = pgr_active (tx_pager t)"
  "pgr_recovery_required (tx_pager (set_tx_cache c t)) = pgr_recovery_required (tx_pager t)"
  "pager_pages contents (tx_pager (set_tx_cache c t)) = contents (pc_device c)"
  by (auto simp: set_tx_cache_def tx_cache_def active_bitmap_def is_new_def tx_owner_def pager_pages_def fun_eq_iff)

lemma tx_next_id_fields [simp]:
  "tx_cache (t\<lparr>tx_next_allocation_page_id := n\<rparr>) = tx_cache t"
  "active_bitmap (t\<lparr>tx_next_allocation_page_id := n\<rparr>) = active_bitmap t"
  "is_new (t\<lparr>tx_next_allocation_page_id := n\<rparr>) = is_new t"
  by (auto simp: tx_cache_def active_bitmap_def is_new_def fun_eq_iff)

lemma pager_pages_cache: "pager_pages contents (tx_pager t) = contents (pc_device (tx_cache t))"
  by (simp add: pager_pages_def tx_cache_def)

lemma root_served_touches:
  assumes "root_served pages r" "only_touches S pages pages'" "\<forall>pid \<in> S. 6 \<le> pid"
  shows "root_served pages' r"
proof -
  have len: "6 \<le> length pages" "length pages \<le> length pages'"
    using assms by (simp_all add: root_served_def only_touches_def)
  have "pages' ! i = pages ! i" if "i < 6" for i
  proof -
    have "i \<notin> S" using assms(3) that by (meson not_le)
    with assms(2) len(1) that show ?thesis by (simp add: only_touches_def)
  qed
  then have "take 6 pages' = take 6 pages" using len by (intro nth_equalityI) simp_all
  with assms show ?thesis by (auto simp: root_served_def only_touches_def)
qed

lemma covered_touches: "covered pages b \<Longrightarrow> only_touches S pages pages' \<Longrightarrow> covered pages' b"
  by (auto simp: covered_def only_touches_def intro: order.strict_trans2)

text \<open>What the cache may write for a transaction is out of the active root's reach.\<close>

lemma reserved_unreached:
  assumes "tx_ok valid contents t"
  shows "reserved (pc_reservations (tx_cache t)) \<union> {length (contents (pc_device (tx_cache t)))..} \<subseteq> unreached (active_bitmap t)"
proof
  fix pid assume pid: "pid \<in> reserved (pc_reservations (tx_cache t)) \<union> {length (contents (pc_device (tx_cache t)))..}"
  have six: "6 \<le> length (contents (pc_device (tx_cache t)))"
    using assms by (simp add: tx_ok_def root_served_def pager_pages_cache)
  have res: "reservations_ok (pc_reservations (tx_cache t))" using assms by (simp add: tx_ok_def cache_ok_def)
  show "pid \<in> unreached (active_bitmap t)"
  proof (cases "pid \<in> reserved (pc_reservations (tx_cache t))")
    case True
    then have "is_new t pid" using assms by (auto simp: tx_ok_def)
    moreover have "6 \<le> pid" using True res by (auto simp: reserved_def reservations_ok_def)
    ultimately show ?thesis by (simp add: unreached_def is_new_def)
  next
    case False
    then have "length (contents (pc_device (tx_cache t))) \<le> pid" using pid by simp
    then show ?thesis
      using assms six by (force simp: unreached_def tx_ok_def covered_def pager_pages_cache)
  qed
qed

text \<open>An operation of the cache that keeps its contract, lifted to the transaction.\<close>

lemma tx_cache_step:
  assumes ok: "tx_ok valid contents t" and c: "cache_ok valid contents c'" "data_only c'"
    and rs: "reserved (pc_reservations c') = reserved (pc_reservations (tx_cache t))"
      "\<forall>pid r. map_of (pc_reservations c') pid = Some r \<longrightarrow> rv_candidate r = tx_candidate t"
    and t: "only_touches (reserved (pc_reservations (tx_cache t)) \<union> {length (contents (pc_device (tx_cache t)))..})
      (contents (pc_device (tx_cache t))) (contents (pc_device c'))"
    and v: "values_kept contents K (tx_cache t) c'"
  shows "tx_ok valid contents (set_tx_cache c' t)" "tx_frame contents K t (set_tx_cache c' t)"
proof -
  have u: "only_touches (unreached (active_bitmap t)) (contents (pc_device (tx_cache t))) (contents (pc_device c'))"
    by (rule only_touches_mono [OF t reserved_unreached [OF ok]])
  then show "tx_frame contents K t (set_tx_cache c' t)" using v by (simp add: tx_frame_def pager_pages_cache)
  show "tx_ok valid contents (set_tx_cache c' t)"
    using ok c rs root_served_touches [OF _ u] covered_touches [OF _ u]
    by (auto simp: tx_ok_def pager_pages_cache unreached_def)
qed

lemma tx_frame_refl [simp]: "tx_frame contents K t t"
  by (simp add: tx_frame_def values_kept_def)

lemma ensure_open_ok: "tx_ok valid contents t \<Longrightarrow> \<not> tx_failed t \<Longrightarrow> ensure_open t = Inr ()"
  by (simp add: tx_ok_def ensure_open_def ensure_usable_def)

lemma bind_lift_eq:
  "bind_op (lift_op x) f s = (r, s') \<longleftrightarrow> (\<exists>e. x = Inl e \<and> r = Inl e \<and> s' = s) \<or> (\<exists>v. x = Inr v \<and> f v s = (r, s'))"
  by (cases x) auto

section \<open>Beginning\<close>

lemma begin_write_ok:
  assumes "pager_ok valid contents p" "begin_write p = Inr t"
  shows "tx_ok valid contents t" "pgr_active (tx_pager t) = pgr_active p" "\<not> is_new t pid"
    "tx_value contents t pid = pager_value contents p pid"
  using assms
  by (auto simp: begin_write_def ensure_usable_def and_then_eq_Inr tx_ok_def pager_ok_def tx_cache_def
      active_bitmap_def is_new_def tx_value_def tx_owner_def pager_value_def pager_pages_def root_served_def
      root_ok_def reserved_def split: if_splits)

section \<open>Allocating\<close>

lemma set_allocated_round:
  assumes "bitmap_ok b" "pid < 65536" "allocated \<or> 6 \<le> pid"
  obtains b' where "set_allocated b pid allocated = Inr b'" "bitmap_ok b'"
    "\<And>q. allocates b' q = (if q = pid then allocated else allocates b q)"
proof -
  obtain b' where b': "set_allocated b pid allocated = Inr b'" "bitmap_ok b'"
      "allocated_set b' = (if allocated then insert pid (allocated_set b) else allocated_set b - {pid})"
    using set_allocated_ok [OF assms] by blast
  have "allocates b' q = (if q = pid then allocated else allocates b q)" for q
  proof -
    have "q \<in> allocated_set b' \<longleftrightarrow> (if q = pid then allocated else q \<in> allocated_set b)"
      unfolding b'(3) by auto
    then show ?thesis by (simp add: allocated_set_def)
  qed
  with b' show thesis by (intro that)
qed

lemma bitmap_metadata: "bitmap_ok b \<Longrightarrow> pid < 6 \<Longrightarrow> allocates b pid"
  by (simp add: bitmap_ok_def list_all_iff)

lemma find_SomeD: "find P xs = Some x \<Longrightarrow> P x \<and> x \<in> set xs"
  by (auto simp: find_Some_iff)

lemma select_page_ok:
  assumes "tx_ok valid contents t"
  shows "\<exists>sel. select_page t = Inr sel \<and>
    (case sel of
       Some pid \<Rightarrow> 6 \<le> pid \<and> pid < 65536 \<and> \<not> allocates (active_bitmap t) pid \<and> \<not> allocates (tx_next_bitmap t) pid
     | None \<Rightarrow> \<forall>pid. 6 \<le> pid \<and> pid < 65536 \<longrightarrow> allocates (active_bitmap t) pid \<or> allocates (tx_next_bitmap t) pid)"
proof -
  let ?P = "\<lambda>q. \<not> allocates (active_bitmap t) q \<and> \<not> allocates (tx_next_bitmap t) q"
  let ?s = "tx_next_allocation_page_id t"
  have bits: "bitmap_ok (active_bitmap t)" "bitmap_ok (tx_next_bitmap t)"
    using assms by (simp_all add: tx_ok_def root_served_def root_ok_def active_bitmap_def)
  then have len: "length (ab_bits (active_bitmap t)) = 8192" "length (ab_bits (tx_next_bitmap t)) = 8192"
    by (simp_all add: bitmap_ok_def)
  have six: "6 \<le> q" if "?P q" for q using bitmap_metadata [OF bits(1)] that by (meson not_le)
  have sel: "select_page t = Inr (case find ?P [?s..<65536] of Some pid \<Rightarrow> Some pid
      | None \<Rightarrow> find ?P [6..<min ?s 65536])"
    by (simp add: select_page_def Let_def first_free_find [OF len] split: option.split del: upt_rec_numeral)
  show ?thesis
  proof (cases "find ?P [?s..<65536]")
    case (Some pid)
    from find_SomeD [OF this] six [of pid] show ?thesis
      unfolding sel Some by (simp del: upt_rec_numeral)
  next
    case None
    then have no: "\<forall>q. ?s \<le> q \<and> q < 65536 \<longrightarrow> \<not> ?P q" by (simp add: find_None_iff)
    show ?thesis
    proof (cases "find ?P [6..<min ?s 65536]")
      case found: (Some pid)
      from find_SomeD [OF this] six [of pid] show ?thesis
        unfolding sel None found by (simp del: upt_rec_numeral)
    next
      case None2: None
      then have "\<forall>q. 6 \<le> q \<and> q < min ?s 65536 \<longrightarrow> \<not> ?P q" by (simp add: find_None_iff)
      with no have "\<forall>q. 6 \<le> q \<and> q < 65536 \<longrightarrow> \<not> ?P q" by (metis min_less_iff_conj not_le)
      then show ?thesis unfolding sel None None2 by simp
    qed
  qed
qed

lemma reservations_of:
  assumes "reservations_ok rs" "reserved_for rs k pid"
  shows "map_of rs q = Some r \<Longrightarrow> rv_candidate r = k"
  using assms by (fastforce simp: reservations_ok_def reserved_for_def dest!: map_of_SomeD)

lemma allocate_page_ok:
  assumes ok: "tx_ok valid contents t" and al: "allocate_page ops t = (r, t')"
  shows "tx_ok valid contents t'" "tx_frame contents {} t t'"
    "r = Inr pid \<Longrightarrow> 6 \<le> pid \<and> pid < 65536 \<and> \<not> allocates (active_bitmap t) pid \<and> \<not> allocates (tx_next_bitmap t) pid \<and>
       (\<forall>q. allocates (tx_next_bitmap t') q \<longleftrightarrow> q = pid \<or> allocates (tx_next_bitmap t) q)"
    "r = Inl e \<Longrightarrow> tx_next_bitmap t' = tx_next_bitmap t"
proof -
  have "tx_ok valid contents t' \<and> tx_frame contents {} t t' \<and>
    (\<forall>pid. r = Inr pid \<longrightarrow> 6 \<le> pid \<and> pid < 65536 \<and> \<not> allocates (active_bitmap t) pid \<and> \<not> allocates (tx_next_bitmap t) pid \<and>
       (\<forall>q. allocates (tx_next_bitmap t') q \<longleftrightarrow> q = pid \<or> allocates (tx_next_bitmap t) q)) \<and>
    (\<forall>e. r = Inl e \<longrightarrow> tx_next_bitmap t' = tx_next_bitmap t)"
  proof (cases "tx_failed t")
    case True
    then show ?thesis
      using ok al by (auto simp: allocate_page_def ensure_open_def tx_ok_def bind_op_def)
  next
    case False
    obtain sel where sel: "select_page t = Inr sel" "case sel of
        Some pid \<Rightarrow> 6 \<le> pid \<and> pid < 65536 \<and> \<not> allocates (active_bitmap t) pid \<and> \<not> allocates (tx_next_bitmap t) pid
      | None \<Rightarrow> True"
      using select_page_ok [OF ok] by (auto split: option.splits)
    show ?thesis
    proof (cases sel)
      case None
      then show ?thesis
        using ok al sel ensure_open_ok [OF ok False]
        by (auto simp: allocate_page_def ok_or_def bind_op_def)
    next
      case (Some p)
      have p: "6 \<le> p" "p < 65536" "\<not> allocates (active_bitmap t) p" "\<not> allocates (tx_next_bitmap t) p"
        using sel(2) Some by simp_all
      define t1 where "t1 = t\<lparr>tx_next_allocation_page_id := (if p + 1 = MAX_PAGE_COUNT then FIRST_DATA_PAGE_ID else p + 1)\<rparr>"
      have same: "tx_cache t1 = tx_cache t" "active_bitmap t1 = active_bitmap t" "tx_candidate t1 = tx_candidate t"
        "tx_next_bitmap t1 = tx_next_bitmap t" "is_new t1 = is_new t" "tx_pager t1 = tx_pager t"
        "tx_new_page_end t1 = tx_new_page_end t" "tx_finished t1 = tx_finished t"
        by (simp_all add: t1_def)
      have ok1: "tx_ok valid contents t1" using ok unfolding tx_ok_def same .
      have f1: "tx_frame contents K t t1" for K
        by (simp add: tx_frame_def same values_kept_def)
      obtain r2 c2 where s2: "reserve_candidate_page (tx_candidate t) p (active_bitmap t) (tx_cache t) = (r2, c2)"
        by (cases "reserve_candidate_page (tx_candidate t) p (active_bitmap t) (tx_cache t)")
      have cok: "cache_ok valid contents (tx_cache t)" using ok by (simp add: tx_ok_def)
      note rv = reserve_candidate_page_ok [OF cok s2]
      define stop where "stop = max (dev_page_count ops (pc_device (tx_cache t))) (tx_new_page_end t)"
      have "allocate_page ops t = (if stop < p then (Inl PAGER_ERROR, t1)
          else bind_op (on_tx_cache (reserve_candidate_page (tx_candidate t) p (active_bitmap t))) (\<lambda>_.
               bind_op (set_next_allocated p True) (\<lambda>_ t.
                 (Inr p, t\<lparr>tx_new_page_end := max (tx_new_page_end t) (p + 1)\<rparr>))) t1)"
        by (simp add: allocate_page_def ok_or_def Let_def t1_def stop_def sel(1) Some ensure_open_ok [OF ok False]
            split del: if_split cong: if_cong)
      then have run: "(if stop < p then (Inl PAGER_ERROR, t1)
          else bind_op (on_tx_cache (reserve_candidate_page (tx_candidate t) p (active_bitmap t))) (\<lambda>_.
               bind_op (set_next_allocated p True) (\<lambda>_ t.
                 (Inr p, t\<lparr>tx_new_page_end := max (tx_new_page_end t) (p + 1)\<rparr>))) t1) = (r, t')"
        using al by simp
      show ?thesis
      proof (cases "stop < p")
        case True
        then show ?thesis using run ok1 f1 same by auto
      next
        case dense: False
        show ?thesis
        proof (cases r2)
          case (Inl e)
          then have "c2 = tx_cache t" using rv(4) by simp
          then have "set_tx_cache c2 t1 = t1" by (simp add: set_tx_cache_def t1_def tx_cache_def)
          with run dense s2 Inl ok1 f1 same show ?thesis by (auto simp: on_tx_cache_def)
        next
          case (Inr u)
          obtain b' where b': "set_allocated (tx_next_bitmap t) p True = Inr b'" "bitmap_ok b'"
              "\<And>q. allocates b' q = (if q = p then True else allocates (tx_next_bitmap t) q)"
            by (rule set_allocated_round [of "tx_next_bitmap t" p True]) (use ok p in \<open>auto simp: tx_ok_def\<close>)
          let ?t2 = "set_tx_cache c2 t1"
          have t': "r = Inr p" "t' = ?t2\<lparr>tx_next_bitmap := b', tx_new_page_end := max (tx_new_page_end t) (p + 1)\<rparr>"
            using run dense s2 Inr b'(1) by (auto simp: on_tx_cache_def set_next_allocated_def same)
          have flds: "tx_cache t' = c2" "active_bitmap t' = active_bitmap t" "tx_next_bitmap t' = b'"
            "tx_candidate t' = tx_candidate t" "tx_finished t' = tx_finished t"
            "pgr_active (tx_pager t') = pgr_active (tx_pager t)"
            "pgr_recovery_required (tx_pager t') = pgr_recovery_required (tx_pager t)"
            "tx_new_page_end t' = max (tx_new_page_end t) (p + 1)"
            by (simp_all add: t'(2) set_tx_cache_def tx_cache_def active_bitmap_def t1_def)
          have new: "is_new t' q \<longleftrightarrow> q = p \<or> is_new t q" for q
            using b'(3) p by (simp add: is_new_def flds)
          have res: "reserved_for (pc_reservations c2) (tx_candidate t) p"
            "reserved (pc_reservations c2) = insert p (reserved (pc_reservations (tx_cache t)))"
            using rv(3) Inr by auto
          have cands: "map_of (pc_reservations c2) q = Some rr \<Longrightarrow> rv_candidate rr = tx_candidate t" for q rr
            using reservations_of [OF _ res(1)] rv(1) by (simp add: cache_ok_def)
          have looks: "pc_lookup c2 = pc_lookup (tx_cache t)"
            using s2 by (auto simp: reserve_candidate_page_def bind_op_def split: if_splits sum.splits option.splits list.splits)
          have kept: "values_kept contents {} (tx_cache t) c2"
            using rv(6) rv(2) by (simp add: values_kept_def)
          have "tx_ok valid contents t'"
            using ok rv(1,2) res(2) new cands looks b'(2)
            unfolding tx_ok_def pager_pages_cache flds data_only_def by (auto simp: less_max_iff_disj)
          moreover have "tx_frame contents {} t t'"
            using kept rv(2) unfolding tx_frame_def pager_pages_cache flds by simp
          ultimately show ?thesis using t'(1) p b'(3) flds by auto
        qed
      qed
    qed
  qed
  then show "tx_ok valid contents t'" "tx_frame contents {} t t'"
    "r = Inr pid \<Longrightarrow> 6 \<le> pid \<and> pid < 65536 \<and> \<not> allocates (active_bitmap t) pid \<and> \<not> allocates (tx_next_bitmap t) pid \<and>
       (\<forall>q. allocates (tx_next_bitmap t') q \<longleftrightarrow> q = pid \<or> allocates (tx_next_bitmap t) q)"
    "r = Inl e \<Longrightarrow> tx_next_bitmap t' = tx_next_bitmap t" by blast+
qed

section \<open>Writing and reading\<close>

text \<open>The checksum a page is sealed with is not among what its decoder reads.\<close>

lemma seal_decode:
  assumes "length bs = 4096"
  shows "decode_verified (seal bs) = decode_verified bs"
proof -
  have "read_u32 (seal bs) 24 = read_u32 bs 24" "read_u64 (seal bs) 12 = read_u64 bs 12" "seal bs ! 20 = bs ! 20"
    using assms by (simp_all add: seal_def reads_def nth_put)
  with assms show ?thesis
    by (simp add: decode_verified_def Let_def)
qed

lemma tx_reserved_for:
  assumes "tx_ok valid contents t"
  shows "reserved_for (pc_reservations (tx_cache t)) (tx_candidate t) pid \<longleftrightarrow> is_new t pid"
proof -
  have "pid \<in> reserved (pc_reservations (tx_cache t)) \<longleftrightarrow> is_new t pid" using assms by (simp add: tx_ok_def)
  moreover have "pid \<in> reserved (pc_reservations (tx_cache t)) \<longleftrightarrow> map_of (pc_reservations (tx_cache t)) pid \<noteq> None"
    by (simp add: reserved_def map_of_eq_None_iff)
  ultimately show ?thesis
    using assms by (auto simp: reserved_for_def tx_ok_def)
qed

lemma new_page_data: "tx_ok valid contents t \<Longrightarrow> is_new t pid \<Longrightarrow> 6 \<le> pid"
  using reserved_unreached [of valid contents t] by (auto simp: tx_ok_def unreached_def)

lemma data_only_insert:
  "data_only c \<Longrightarrow> dom (pc_lookup c') \<subseteq> insert (own, pid) (dom (pc_lookup c)) \<Longrightarrow> 6 \<le> pid \<Longrightarrow> data_only c'"
  by (fastforce simp: data_only_def dom_def)

lemma data_only_shrink:
  assumes "data_only c" and shrink: "\<And>q. pc_lookup c q = None \<Longrightarrow> pc_lookup c' q = None"
  shows "data_only c'"
  unfolding data_only_def
proof (intro allI impI)
  fix own pid
  assume "pc_lookup c' (own, pid) \<noteq> None"
  then have "pc_lookup c (own, pid) \<noteq> None" using shrink [of "(own, pid)"] by (metis (full_types))
  with assms(1) show "FIRST_DATA_PAGE_ID \<le> pid" unfolding data_only_def by blast
qed

lemma write_candidate_cases:
  assumes "write_candidate ops k pid bs unsealed c = (r, c')"
  obtains "c' = c" | r1 c1 where "write_owned ops (Candidate k) pid bs unsealed c = (r1, c1)"
    "c' = c1 \<or> c' = set_written pid c1" "reserved_for (pc_reservations c) k pid"
  using assms
  by (auto simp: write_candidate_def bind_lift_eq bind_op_eq ensure_reserved_by_def get_reservation_def
      reserved_for_def split: option.splits if_splits)

lemma write_candidate_dom:
  assumes "write_candidate ops k pid bs unsealed c = (r, c')"
  shows "dom (pc_lookup c') \<subseteq> insert (Candidate k, pid) (dom (pc_lookup c))"
  using assms
proof (cases rule: write_candidate_cases)
  case (2 r1 c1)
  then have "pc_lookup c' = pc_lookup c1" by auto
  with write_owned_dom [OF 2(1)] show ?thesis by simp
qed auto

context page_device
begin

lemma page_value_length:
  assumes "cache_ok valid contents c" "page_value (contents (pc_device c)) c k = Some v"
  shows "length v = 4096"
proof (cases "pc_lookup c k")
  case None
  then show ?thesis
    using assms whole_pages [of "pc_device c"] by (auto simp: page_value_def cache_ok_def split: if_splits)
next
  case (Some i)
  then have "i < length (pc_entries c)" "v = sealed_bytes (pc_entries c ! i)"
    using assms index_ok_lookup(1) [of c k i] by (auto simp: cache_ok_def page_value_def)
  moreover from this have "entry_ok (contents (pc_device c)) (pc_reservations c) (pc_entries c ! i)"
    using assms(1) by (simp add: cache_ok_def)
  ultimately show ?thesis by (simp add: entry_ok_def sealed_bytes_def)
qed

lemma write_candidate_candidates:
  assumes ok: "cache_ok valid contents c" and w: "write_candidate ops k pid bs unsealed c = (r, c')"
    and "\<forall>q rr. map_of (pc_reservations c) q = Some rr \<longrightarrow> rv_candidate rr = j"
  shows "\<forall>q rr. map_of (pc_reservations c') q = Some rr \<longrightarrow> rv_candidate rr = j"
  using w
proof (cases rule: write_candidate_cases)
  case (2 r1 c1)
  have "pc_reservations c1 = pc_reservations c" using write_owned_ok(2) [OF ok 2(3,1)] by (simp add: keeps_def)
  with 2(2) assms(3) show ?thesis by (auto simp: set_written_def map_of_set_written split: if_splits)
qed (use assms(3) in simp)

lemma write_new_page_ok:
  assumes ok: "tx_ok valid contents t" and w: "write_new_page ops page t = (r, t')"
  shows "tx_ok valid contents t'" "tx_frame contents {(Candidate (tx_candidate t), pg_id page)} t t'"
    "tx_next_bitmap t' = tx_next_bitmap t"
    "r = Inr u \<Longrightarrow> is_new t (pg_id page) \<and> (\<exists>bs. page_encode page = Inr bs \<and> tx_value contents t' (pg_id page) = Some bs)"
    "r = Inr u \<Longrightarrow> candidate_page_written (tx_cache t') (tx_candidate t) (pg_id page)"
proof -
  let ?k = "tx_candidate t" and ?id = "pg_id page"
  have cok: "cache_ok valid contents (tx_cache t)" using ok by (simp add: tx_ok_def)
  have "tx_ok valid contents t' \<and> tx_frame contents {(Candidate ?k, ?id)} t t' \<and> tx_next_bitmap t' = tx_next_bitmap t \<and>
    (r = Inr u \<longrightarrow> is_new t ?id \<and> (\<exists>bs. page_encode page = Inr bs \<and> tx_value contents t' ?id = Some bs) \<and>
      candidate_page_written (tx_cache t') ?k ?id)"
  proof (cases "\<exists>bs. ensure_open t = Inr () \<and> is_new t ?id \<and> page_encode_unsealed page = Inr bs")
    case False
    then have "\<exists>e. r = Inl e \<and> t' = t"
      using w by (auto simp: write_new_page_def bind_lift_eq split: if_splits)
    with ok show ?thesis by auto
  next
    case True
    then obtain bs where bs: "ensure_open t = Inr ()" "is_new t ?id" "page_encode_unsealed page = Inr bs" by blast
    obtain r2 c2 where s: "write_candidate ops ?k ?id bs True (tx_cache t) = (r2, c2)"
      by (cases "write_candidate ops ?k ?id bs True (tx_cache t)")
    note wc = write_candidate_ok [OF cok s]
    have t': "r = r2" "t' = set_tx_cache c2 t"
      using w bs s by (simp_all add: write_new_page_def on_tx_cache_def write_unsealed_candidate_page_def)
    have six: "6 \<le> ?id" by (rule new_page_data [OF ok bs(2)])
    have data: "data_only c2"
      using data_only_insert [OF _ write_candidate_dom [OF s] six] ok by (simp add: tx_ok_def)
    have rs: "\<forall>q rr. map_of (pc_reservations c2) q = Some rr \<longrightarrow> rv_candidate rr = ?k"
      by (rule write_candidate_candidates [OF cok s]) (use ok in \<open>simp add: tx_ok_def\<close>)
    note step = tx_cache_step [OF ok wc(1) data wc(5) rs wc(4) wc(3)]
    have val: "page_value (contents (pc_device c2)) c2 (Candidate ?k, ?id) = Some (seal bs)"
      "readable (pc_reservations c2) (Candidate ?k, ?id)" if "r2 = Inr u"
      using wc(2) [OF that] by simp_all
    have enc: "page_encode page = Inr (seal bs)" using bs(3) by (simp add: page_encode_def)
    show ?thesis
      using step t' bs(2) enc val
      by (auto simp: tx_value_def tx_owner_def candidate_page_written_def get_reservation_def)
  qed
  then show "tx_ok valid contents t'" "tx_frame contents {(Candidate (tx_candidate t), pg_id page)} t t'"
    "tx_next_bitmap t' = tx_next_bitmap t"
    "r = Inr u \<Longrightarrow> is_new t (pg_id page) \<and> (\<exists>bs. page_encode page = Inr bs \<and> tx_value contents t' (pg_id page) = Some bs)"
    "r = Inr u \<Longrightarrow> candidate_page_written (tx_cache t') (tx_candidate t) (pg_id page)" by blast+
qed

text \<open>
  A read returns what the transaction sees under the id: decoding the page's value gives the page
  returned. It changes no value.
\<close>

lemma read_owned_data:
  assumes ok: "tx_ok valid contents t" and six: "6 \<le> pid" and rd: "readable (pc_reservations (tx_cache t)) (own, pid)"
    and s: "read_owned ops own pid verify (tx_cache t) = (r, c')"
  shows "tx_ok valid contents (set_tx_cache c' t)" "tx_frame contents {} t (set_tx_cache c' t)"
    "r = Inr bs \<Longrightarrow> \<exists>v. page_value (contents (pc_device (tx_cache t))) (tx_cache t) (own, pid) = Some v \<and>
       decode_verified v = decode_verified bs"
proof -
  have cok: "cache_ok valid contents (tx_cache t)" using ok by (simp add: tx_ok_def)
  note ro = read_owned_ok [OF cok rd s]
  have rs: "pc_reservations c' = pc_reservations (tx_cache t)" using ro(2) by (simp add: keeps_def)
  have "data_only c'"
    using data_only_insert [OF _ read_owned_dom [OF s] six] ok by (simp add: tx_ok_def)
  from tx_cache_step [OF ok ro(1) this, of "{}"] ro(2) rs ok
  show "tx_ok valid contents (set_tx_cache c' t)" "tx_frame contents {} t (set_tx_cache c' t)"
    by (simp_all add: keeps_def tx_ok_def)
  have len: "length v = 4096" if "page_value (contents (pc_device (tx_cache t))) (tx_cache t) (own, pid) = Some v" for v
    using page_value_length [OF cok that] .
  show "\<exists>v. page_value (contents (pc_device (tx_cache t))) (tx_cache t) (own, pid) = Some v \<and>
       decode_verified v = decode_verified bs" if "r = Inr bs"
  proof -
    from ro(3) [OF that] obtain v where v: "page_value (contents (pc_device (tx_cache t))) (tx_cache t) (own, pid) = Some v"
        "v = bs \<or> v = seal bs" by blast
    have "length bs = 4096" using len [OF v(1)] v(2) by (auto simp: seal_def put_def min_def split: if_splits)
    with v seal_decode show ?thesis by auto
  qed
qed

lemma tx_read_ok:
  assumes ok: "tx_ok valid contents t" and rd: "tx_read_page_in_place ops pid t = (r, t')"
  shows "tx_ok valid contents t'" "tx_frame contents {} t t'" "tx_next_bitmap t' = tx_next_bitmap t"
    "r = Inr page \<Longrightarrow> allocates (tx_next_bitmap t) pid \<and>
       (\<exists>v. tx_value contents t pid = Some v \<and> decode_verified v = Inr page)"
proof -
  define own where "own = tx_owner t pid"
  have six: "6 \<le> pid \<and> pid < 65536" if "ensure_data_page pid = Inr ()" using that
    by (auto simp: ensure_data_page_def split: if_splits)
  consider (same) e where "r = Inl e" "t' = t"
    | (read) r1 c1 where "6 \<le> pid" "allocates (tx_next_bitmap t) pid"
      "read_owned ops own pid (verify_expected_page pid) (tx_cache t) = (r1, c1)"
      "readable (pc_reservations (tx_cache t)) (own, pid)" "t' = set_tx_cache c1 t"
      "r = and_then r1 decode_verified"
  proof (cases "ensure_open t = Inr () \<and> ensure_data_page pid = Inr () \<and> allocates (tx_next_bitmap t) pid")
    case False
    then have "\<exists>e. r = Inl e \<and> t' = t"
      using rd six by (auto simp: tx_read_page_in_place_def bind_lift_eq is_allocated_ok split: if_splits)
    then show thesis using same by blast
  next
    case True
    then have pid: "6 \<le> pid" "pid < 65536" using six by auto
    define m where "m = (if is_new t pid
      then read_candidate_page_verified ops (tx_candidate t) pid (verify_expected_page pid)
      else read_page_verified ops pid (verify_expected_page pid))"
    have run: "bind_op (on_tx_cache m) (\<lambda>bs. lift_op (decode_verified_page pid bs)) t = (r, t')"
    proof (cases "is_new t pid")
      case new: True
      then show ?thesis using rd True pid by (simp add: tx_read_page_in_place_def is_allocated_ok m_def)
    next
      case old: False
      then have "is_allocated (active_bitmap t) pid = Inr True" using True pid by (simp add: is_new_def is_allocated_ok)
      with old show ?thesis using rd True pid by (simp add: tx_read_page_in_place_def is_allocated_ok m_def)
    qed
    obtain r1 c1 where s: "m (tx_cache t) = (r1, c1)" by (cases "m (tx_cache t)")
    have t': "t' = set_tx_cache c1 t" "r = and_then r1 decode_verified"
      using run s by (cases r1; simp add: on_tx_cache_def decode_verified_page_def)+
    show thesis
    proof (cases "readable (pc_reservations (tx_cache t)) (own, pid)")
      case rdb: True
      have "read_owned ops own pid (verify_expected_page pid) (tx_cache t) = (r1, c1)"
      proof (cases "is_new t pid")
        case new: True
        then obtain rv where "map_of (pc_reservations (tx_cache t)) pid = Some rv" "rv_candidate rv = tx_candidate t" "rv_written rv"
          using rdb by (auto simp: own_def tx_owner_def)
        with s new show ?thesis
          by (simp add: m_def own_def tx_owner_def read_candidate_page_verified_def ensure_reserved_by_def get_reservation_def)
      next
        case old: False
        then have "map_of (pc_reservations (tx_cache t)) pid = None"
          using rdb by (auto simp: own_def tx_owner_def reserved_def map_of_eq_None_iff)
        with s old show ?thesis
          by (simp add: m_def own_def tx_owner_def read_page_verified_def ensure_not_reserved_def get_reservation_def)
      qed
      with rdb pid True t' show thesis by (intro read) auto
    next
      case nrd: False
      have "is_new t pid"
        using nrd ok by (auto simp: own_def tx_owner_def tx_ok_def split: if_splits)
      then obtain rv where rv: "map_of (pc_reservations (tx_cache t)) pid = Some rv" "rv_candidate rv = tx_candidate t"
        using tx_reserved_for [OF ok] by (auto simp: reserved_for_def)
      then have "\<not> rv_written rv" using nrd \<open>is_new t pid\<close> by (auto simp: own_def tx_owner_def)
      with s rv \<open>is_new t pid\<close> have "r1 = Inl PAGE_CACHE_ERROR" "c1 = tx_cache t"
        by (simp_all add: m_def read_candidate_page_verified_def ensure_reserved_by_def get_reservation_def)
      then show thesis using t' by (intro same) (simp_all add: set_tx_cache_def tx_cache_def)
    qed
  qed
  then have "tx_ok valid contents t' \<and> tx_frame contents {} t t' \<and> tx_next_bitmap t' = tx_next_bitmap t \<and>
    (r = Inr page \<longrightarrow> allocates (tx_next_bitmap t) pid \<and>
       (\<exists>v. tx_value contents t pid = Some v \<and> decode_verified v = Inr page))"
  proof cases
    case read
    note ro = read_owned_data [OF ok read(1,4,3)]
    show ?thesis
      using ro read(2,5,6) by (cases r1) (auto simp: tx_value_def pager_pages_cache own_def)
  qed (use ok in auto)
  then show "tx_ok valid contents t'" "tx_frame contents {} t t'" "tx_next_bitmap t' = tx_next_bitmap t"
    "r = Inr page \<Longrightarrow> allocates (tx_next_bitmap t) pid \<and>
       (\<exists>v. tx_value contents t pid = Some v \<and> decode_verified v = Inr page)" by blast+
qed

end

section \<open>Freeing and releasing\<close>

text \<open>
  A page shared with the active root is only taken out of the candidate's bitmap; its bytes stay where
  the active root reads them.
\<close>

lemma free_shared_ok:
  assumes ok: "tx_ok valid contents t" and fr: "free_shared_page pid t = (r, t')"
  shows "tx_ok valid contents t'" "tx_frame contents {} t t'"
    "r = Inr u \<Longrightarrow> 6 \<le> pid \<and> allocates (active_bitmap t) pid \<and>
       (\<forall>q. allocates (tx_next_bitmap t') q \<longleftrightarrow> q \<noteq> pid \<and> allocates (tx_next_bitmap t) q)"
    "r = Inl e \<Longrightarrow> t' = t"
proof -
  have pid: "6 \<le> pid \<and> pid < 65536" if "ensure_data_page pid = Inr x" for x
    using that by (auto simp: ensure_data_page_def split: if_splits)
  consider (same) e where "r = Inl e" "t' = t"
    | (freed) "6 \<le> pid" "pid < 65536" "allocates (active_bitmap t) pid" "set_next_allocated pid False t = (r, t')"
    using fr pid by (auto simp: free_shared_page_def bind_lift_eq is_allocated_ok split: if_splits)
  then have "tx_ok valid contents t' \<and> tx_frame contents {} t t' \<and>
    (r = Inr u \<longrightarrow> 6 \<le> pid \<and> allocates (active_bitmap t) pid \<and>
       (\<forall>q. allocates (tx_next_bitmap t') q \<longleftrightarrow> q \<noteq> pid \<and> allocates (tx_next_bitmap t) q)) \<and> (r = Inl e \<longrightarrow> t' = t)"
  proof cases
    case freed
    obtain b' where b': "set_allocated (tx_next_bitmap t) pid False = Inr b'" "bitmap_ok b'"
        "\<And>q. allocates b' q = (if q = pid then False else allocates (tx_next_bitmap t) q)"
      by (rule set_allocated_round [of "tx_next_bitmap t" pid False]) (use ok freed in \<open>auto simp: tx_ok_def\<close>)
    have t': "r = Inr ()" "t' = t\<lparr>tx_next_bitmap := b'\<rparr>"
      using freed(4) b'(1) by (auto simp: set_next_allocated_def)
    have flds: "tx_cache t' = tx_cache t" "active_bitmap t' = active_bitmap t" "tx_next_bitmap t' = b'"
      "tx_pager t' = tx_pager t" "tx_candidate t' = tx_candidate t" "tx_finished t' = tx_finished t"
      "tx_new_page_end t' = tx_new_page_end t"
      by (simp_all add: t'(2) tx_cache_def active_bitmap_def)
    have new: "is_new t' = is_new t"
      using b'(3) freed(3) by (auto simp: is_new_def flds fun_eq_iff)
    have "tx_ok valid contents t'" using ok b'(2) unfolding tx_ok_def flds new by simp
    moreover have "tx_frame contents {} t t'" by (simp add: tx_frame_def flds values_kept_def)
    ultimately show ?thesis using t'(1) b'(3) flds(3) freed(1,3) by auto
  qed (use ok in auto)
  then show "tx_ok valid contents t'" "tx_frame contents {} t t'"
    "r = Inr u \<Longrightarrow> 6 \<le> pid \<and> allocates (active_bitmap t) pid \<and>
       (\<forall>q. allocates (tx_next_bitmap t') q \<longleftrightarrow> q \<noteq> pid \<and> allocates (tx_next_bitmap t) q)"
    "r = Inl e \<Longrightarrow> t' = t" by blast+
qed

lemma release_dom:
  assumes "cache_ok valid contents c" "release_candidate_page k pid c = (r, c')"
  shows "pc_lookup c q = None \<Longrightarrow> pc_lookup c' q = None"
proof -
  assume none: "pc_lookup c q = None"
  have "c' = c \<or> c' = forget_page k pid c \<or> c' = drop_unflushed (Candidate k) (forget_page k pid c)"
    using assms(2)
    by (auto simp: release_candidate_page_def bind_lift_eq forget_page_def Let_def split: if_splits)
  moreover have "pc_lookup (forget_page k pid c) q = None"
    using none remove_entry_value(2,3) [of "drop_reservation pid c"] assms(1)
    by (cases "q = (Candidate k, pid)") (auto simp: forget_page_def cache_ok_def)
  ultimately show ?thesis using none by auto
qed

lemma release_new_ok:
  assumes ok: "tx_ok valid contents t" and rel: "release_new_page pid t = (r, t')"
  shows "tx_ok valid contents t'" "tx_frame contents {(Candidate (tx_candidate t), pid)} t t'"
    "r = Inr u \<Longrightarrow> is_new t pid \<and> (\<forall>q. allocates (tx_next_bitmap t') q \<longleftrightarrow> q \<noteq> pid \<and> allocates (tx_next_bitmap t) q)"
    "r = Inl e \<Longrightarrow> t' = t"
proof -
  have cok: "cache_ok valid contents (tx_cache t)" using ok by (simp add: tx_ok_def)
  have pid: "6 \<le> pid \<and> pid < 65536" if "ensure_data_page pid = Inr x" for x
    using that by (auto simp: ensure_data_page_def split: if_splits)
  obtain r1 c1 where s: "release_candidate_page (tx_candidate t) pid (tx_cache t) = (r1, c1)"
    by (cases "release_candidate_page (tx_candidate t) pid (tx_cache t)")
  note rc = release_candidate_page_ok [OF cok s]
  have none: "set_tx_cache (tx_cache t) t = t" by (simp add: set_tx_cache_def tx_cache_def)
  consider (same) e where "r = Inl e" "t' = t"
    | (freed) "6 \<le> pid" "pid < 65536" "is_new t pid" "r1 = Inr ()"
      "bind_op (set_next_allocated pid False) (\<lambda>_ t.
         (Inr (), t\<lparr>tx_next_allocation_page_id := min (tx_next_allocation_page_id t) pid\<rparr>)) (set_tx_cache c1 t) = (r, t')"
  proof (cases "ensure_open t = Inr () \<and> ensure_data_page pid = Inr () \<and> is_new t pid")
    case False
    then have "\<exists>e. r = Inl e \<and> t' = t"
      using rel by (auto simp: release_new_page_def bind_lift_eq split: if_splits)
    then show thesis using same by blast
  next
    case True
    show thesis
    proof (cases r1)
      case (Inl e)
      then have "c1 = tx_cache t" using rc(5) by simp
      then show thesis
        using rel True s Inl none by (intro same) (auto simp: release_new_page_def on_tx_cache_def)
    next
      case (Inr u)
      then show thesis
        using rel True s pid by (intro freed) (auto simp: release_new_page_def on_tx_cache_def)
    qed
  qed
  then have "tx_ok valid contents t' \<and> tx_frame contents {(Candidate (tx_candidate t), pid)} t t' \<and>
    (r = Inr u \<longrightarrow> is_new t pid \<and> (\<forall>q. allocates (tx_next_bitmap t') q \<longleftrightarrow> q \<noteq> pid \<and> allocates (tx_next_bitmap t) q)) \<and>
    (r = Inl e \<longrightarrow> t' = t)"
  proof cases
    case freed
    obtain b' where b': "set_allocated (tx_next_bitmap t) pid False = Inr b'" "bitmap_ok b'"
        "\<And>q. allocates b' q = (if q = pid then False else allocates (tx_next_bitmap t) q)"
      by (rule set_allocated_round [of "tx_next_bitmap t" pid False]) (use ok freed in \<open>auto simp: tx_ok_def\<close>)
    have t': "r = Inr ()" "t' = (set_tx_cache c1 t)\<lparr>tx_next_bitmap := b',
        tx_next_allocation_page_id := min (tx_next_allocation_page_id t) pid\<rparr>"
      using freed(5) b'(1) by (auto simp: set_next_allocated_def set_tx_cache_def)
    have flds: "tx_cache t' = c1" "active_bitmap t' = active_bitmap t" "tx_next_bitmap t' = b'"
      "pgr_active (tx_pager t') = pgr_active (tx_pager t)" "tx_candidate t' = tx_candidate t"
      "tx_finished t' = tx_finished t" "tx_new_page_end t' = tx_new_page_end t"
      "pgr_recovery_required (tx_pager t') = pgr_recovery_required (tx_pager t)"
      by (simp_all add: t'(2) tx_cache_def active_bitmap_def set_tx_cache_def)
    have new: "is_new t' q \<longleftrightarrow> q \<noteq> pid \<and> is_new t q" for q
      using b'(3) by (auto simp: is_new_def flds)
    have rs: "pc_reservations c1 = filter (\<lambda>(q, _). q \<noteq> pid) (pc_reservations (tx_cache t))"
      using rc(4) freed(4) by simp
    have "reserved (pc_reservations c1) = reserved (pc_reservations (tx_cache t)) - {pid}"
      unfolding rs by (force simp: reserved_def)
    moreover have "reserved (pc_reservations (tx_cache t)) = {q. is_new t q}" using ok by (simp add: tx_ok_def)
    ultimately have res: "reserved (pc_reservations c1) = {q. is_new t' q}" using new by auto
    have "\<forall>q rr. map_of (pc_reservations c1) q = Some rr \<longrightarrow> rv_candidate rr = tx_candidate t"
      using ok by (auto simp: rs map_of_drop tx_ok_def)
    moreover have "data_only c1"
      by (rule data_only_shrink [of "tx_cache t"]) (use ok release_dom [OF cok s] in \<open>simp_all add: tx_ok_def\<close>)
    ultimately have "tx_ok valid contents t'"
      using ok rc(1,2) res b'(2) new unfolding tx_ok_def pager_pages_cache flds by (simp add: Collect_mono_iff set_eq_iff)
    moreover have "tx_frame contents {(Candidate (tx_candidate t), pid)} t t'"
      using rc(2,3) unfolding tx_frame_def pager_pages_cache flds by (auto simp: values_kept_def)
    ultimately show ?thesis using t'(1) b'(3) flds(3) freed(3) by auto
  qed (use ok in auto)
  then show "tx_ok valid contents t'" "tx_frame contents {(Candidate (tx_candidate t), pid)} t t'"
    "r = Inr u \<Longrightarrow> is_new t pid \<and> (\<forall>q. allocates (tx_next_bitmap t') q \<longleftrightarrow> q \<noteq> pid \<and> allocates (tx_next_bitmap t) q)"
    "r = Inl e \<Longrightarrow> t' = t" by blast+
qed

section \<open>Abandoning a transaction\<close>

lemma invalidate_dom:
  assumes "cache_ok valid contents c"
  shows "pc_lookup c q = None \<Longrightarrow> pc_lookup (invalidate_candidate k c) q = None"
proof -
  have step: "pc_lookup (fold (\<lambda>pid c. remove_entry (Candidate k, pid) (drop_reservation pid c)) pids c) q = None \<and>
      index_ok (fold (\<lambda>pid c. remove_entry (Candidate k, pid) (drop_reservation pid c)) pids c)"
    if "index_ok c" "pc_lookup c q = None" for pids and c :: "'a page_cache"
    using that
  proof (induction pids arbitrary: c)
    case (Cons pid pids)
    have i: "index_ok (drop_reservation pid c)" using Cons.prems by simp
    show ?case
      using Cons.IH [of "remove_entry (Candidate k, pid) (drop_reservation pid c)"] remove_entry_index(1) [OF i]
        remove_entry_value(2,3) [OF i] Cons.prems by (cases "q = (Candidate k, pid)") auto
  qed simp
  assume "pc_lookup c q = None"
  moreover have "index_ok (drop_unflushed (Candidate k) c)"
    using drop_unflushed_ok(1) [of valid contents "Candidate k" c] assms unfolding cache_ok_def by blast
  ultimately show ?thesis
    using step [of "drop_unflushed (Candidate k) c"] by (simp add: invalidate_candidate_def Let_def)
qed

lemma finish_fields [simp]:
  "tx_finished (finish t)" "tx_cache (finish t) = invalidate_candidate (tx_candidate t) (tx_cache t)"
  "pgr_active (tx_pager (finish t)) = pgr_active (tx_pager t)"
  "pgr_recovery_required (tx_pager (finish t)) = pgr_recovery_required (tx_pager t)"
  by (simp_all add: finish_def set_tx_cache_def tx_cache_def)

lemma drop_finished [simp]: "drop_transaction (finish t) = tx_pager (finish t)"
  by (simp add: drop_transaction_def)

text \<open>
  A transaction that is dropped leaves the pager as one with no transaction: nothing reserved, the
  active root and every page of it as they were.
\<close>

lemma finish_ok:
  assumes ok: "cache_ok valid contents (tx_cache t)" "data_only (tx_cache t)"
    and cand: "\<forall>pid r. map_of (pc_reservations (tx_cache t)) pid = Some r \<longrightarrow> rv_candidate r = tx_candidate t"
    and served: "\<not> pgr_recovery_required (tx_pager t) \<Longrightarrow>
      root_served (pager_pages contents (tx_pager t)) (pgr_active (tx_pager t)) \<and>
      covered (pager_pages contents (tx_pager t)) (rm_allocation_bitmap (pgr_active (tx_pager t)))"
  shows "pager_ok valid contents (tx_pager (finish t))"
    "pager_pages contents (tx_pager (finish t)) = pager_pages contents (tx_pager t)"
    "pager_value contents (tx_pager (finish t)) pid =
       page_value (pager_pages contents (tx_pager t)) (tx_cache t) (Committed, pid)"
proof -
  let ?c = "invalidate_candidate (tx_candidate t) (tx_cache t)"
  note inv = invalidate_candidate_ok [OF ok(1), where k = "tx_candidate t"]
  have dist: "distinct (map fst (pc_reservations (tx_cache t)))"
    using ok(1) by (simp add: cache_ok_def reservations_ok_def)
  then have "rv_candidate r = tx_candidate t" if "(pid, r) \<in> set (pc_reservations (tx_cache t))" for pid r
    using cand that by (metis map_of_is_SomeI)
  then have none: "pc_reservations ?c = []"
    unfolding inv(3) by (auto simp: filter_empty_conv)
  have data: "data_only ?c"
    by (rule data_only_shrink [OF ok(2) invalidate_dom [OF ok(1)]])
  have pages: "pager_pages contents (tx_pager (finish t)) = pager_pages contents (tx_pager t)"
    by (simp add: pager_pages_cache inv(2))
  have cache: "pgr_cache (tx_pager (finish t)) = ?c" using finish_fields(2) [of t] by (simp add: tx_cache_def)
  show "pager_ok valid contents (tx_pager (finish t))"
    unfolding pager_ok_def pages finish_fields cache using inv(1) none data served by simp
  show "pager_pages contents (tx_pager (finish t)) = pager_pages contents (tx_pager t)" by (rule pages)
  show "pager_value contents (tx_pager (finish t)) pid =
       page_value (pager_pages contents (tx_pager t)) (tx_cache t) (Committed, pid)"
    unfolding pager_value_def pages cache by (rule inv(4))
qed

lemma abort_ok:
  assumes "tx_ok valid contents t"
  shows "pager_ok valid contents (abort t)" "pgr_active (abort t) = pgr_active (tx_pager t)"
    "pager_pages contents (abort t) = pager_pages contents (tx_pager t)"
    "pager_value contents (abort t) pid = page_value (pager_pages contents (tx_pager t)) (tx_cache t) (Committed, pid)"
    "drop_transaction t = abort t"
  using finish_ok [of valid contents t] assms
  by (simp_all add: tx_ok_def abort_def active_bitmap_def drop_transaction_def)

end
