(* ===== verification/PagerCommit.thy ===== *)
theory PagerCommit
  imports Transaction
begin

text \<open>
  Committing a transaction (\<^verbatim>\<open>pager.rs\<close>, \<^verbatim>\<open>WriteTransaction::commit\<close>).  The commit writes pages the
  active root does not reach: new data pages, the bitmap chunks it changed and the other superblock.  Each step
  before the superblock write keeps the transaction staged, so that failing there gives back the pager as it was;
  failing afterwards leaves a pager that refuses all further work; and success makes the transaction's pages the
  committed ones, on the device and in the cache.
\<close>

section \<open>Pages a commit may write\<close>

definition spare_pages :: "recovered_metadata \<Rightarrow> nat set" where
  "spare_pages r = unreached (rm_allocation_bitmap r) \<union> ({..<6} - set (root_pages (rm_superblock r)))"

lemma root_page_bound: "root_ok r \<Longrightarrow> i \<in> set (root_pages (rm_superblock r)) \<Longrightarrow> i < 6"
proof -
  assume "root_ok r" and i: "i \<in> set (root_pages (rm_superblock r))"
  then obtain c0 c1 where c: "sb_bitmap_chunks (rm_superblock r) = [c0, c1]" by (auto simp: root_ok_def length_two)
  have "slot_page_id slot < 6" for slot by (cases slot) simp_all
  moreover have "bitmap_slot_page_id bslot k < 6" if "k < 2" for bslot k
    using that by (cases bslot) (simp_all add: bitmap_slot_page_id_def)
  ultimately show "i < 6" using i by (auto simp: root_pages_two [OF c])
qed

lemma root_served_spare:
  assumes served: "root_served pages r" and touch: "only_touches (spare_pages r) pages pages'"
  shows "root_served pages' r"
proof -
  have len: "6 \<le> length pages" "length pages \<le> length pages'" and rok: "root_ok r"
    using assms by (auto simp: root_served_def only_touches_def)
  have "take 6 pages' ! i = take 6 pages ! i" if i: "i \<in> set (root_pages (rm_superblock r))" for i
  proof -
    have "i < 6" using root_page_bound [OF rok i] .
    moreover from this have "i \<notin> spare_pages r" using i by (simp add: spare_pages_def unreached_def)
    ultimately show ?thesis using touch len by (simp add: only_touches_def)
  qed
  with served have "decode_metadata_candidate (sb_slot (rm_superblock r)) (take 6 pages') = Inr r"
    unfolding root_served_def by (blast intro: decode_candidate_local)
  with len rok show ?thesis by (simp add: root_served_def)
qed

section \<open>Decoding the root a commit wrote\<close>

lemma pending_decodes:
  assumes active: "root_ok active" and bm: "bitmap_ok bitmap"
    and build: "build_next_metadata active revision h catalog bitmap = Inr pm"
    and read: "decode_metadata_candidate (sb_slot (rm_superblock active)) pages = Inr active"
    and sb: "encode_superblock_page (rm_superblock (pending_root pm hash)) bitmap = Inr sb"
    and old: "\<And>i. i \<in> set (root_pages (rm_superblock active)) \<Longrightarrow> pages' ! i = pages ! i"
    and all: "\<And>i w. (i, w) \<in> set (metadata_writes pm sb) \<Longrightarrow> pages' ! i = w"
  shows "decode_metadata_candidate (slot_inactive (sb_slot (rm_superblock active))) pages' = Inr (pending_root pm hash)"
    "recover_metadata pages' = Inr (pending_root pm hash, Some active)"
proof -
  let ?other = "slot_inactive (sb_slot (rm_superblock active))" and ?r = "pending_root pm hash"
  obtain c0 c1 where c: "sb_bitmap_chunks (rm_superblock active) = [c0, c1]"
    using active by (auto simp: root_ok_def length_two)
  note spec = build_next_spec [OF active build c]
  let ?nx = "next_chunk (rm_allocation_bitmap active) bitmap (sb_generation (pm_superblock pm))"
  have len: "length (ab_bits bitmap) = 8192" using bm by (simp add: bitmap_ok_def)
  have chunk: "decode_bitmap_chunk (pages' ! bitmap_slot_page_id (bc_slot d) k) k d = Inr (chunk_bits bitmap k)"
    if n: "?nx (k, e) = (d, p)" and k: "(k, e) = (0, c0) \<or> (k, e) = (1, c1)" for k d e p
  proof (rule next_chunk_read(2) [OF len _ n])
    show "k < 2" using k by auto
    let ?i = "bitmap_slot_page_id (bc_slot d) k"
    show "decode_bitmap_chunk (pages' ! ?i) k e = Inr (chunk_bits (rm_allocation_bitmap active) k)" if "p = None"
    proof -
      have "d = e" using n that by (auto simp: next_chunk_def Let_def split: if_splits)
      with k have "?i \<in> set (root_pages (rm_superblock active))" by (auto simp: root_pages_two [OF c])
      with old \<open>d = e\<close> show ?thesis using decode_candidate_chunks [OF read c] k by auto
    qed
    have there: "pages' ! ?i = w" if "p = Some w" for w
    proof (rule all)
      show "(?i, w) \<in> set (metadata_writes pm sb)"
        using k n that spec(7,8) by (auto simp: chunk_writes_of_def metadata_writes_def)
    qed
    then show "pages' ! ?i = w \<or> page_verify (pages' ! ?i) \<noteq> Inr () \<and> page_verify (pages' ! ?i) \<noteq> Inl UNSUPPORTED_PAGE
        \<or> page_verify (pages' ! ?i) = Inr () \<and> page_checksum (pages' ! ?i) \<noteq> page_checksum w" if "p = Some w" for w
      using that by blast
    show "p = None \<or> p = Some (pages' ! ?i)" using there by (cases p) auto
  qed
  obtain d0 p0 where n0: "?nx (0, c0) = (d0, p0)" by (cases "?nx (0, c0)")
  obtain d1 p1 where n1: "?nx (1, c1) = (d1, p1)" by (cases "?nx (1, c1)")
  have d: "sb_bitmap_chunks (rm_superblock ?r) = [d0, d1]" using spec(7) n0 n1 by (simp add: pending_root_def)
  have slot: "sb_slot (rm_superblock ?r) = ?other" and bitmap: "rm_allocation_bitmap ?r = bitmap"
    using spec(1,6) by (simp_all add: pending_root_def)
  have "pages' ! slot_page_id ?other = sb" using all spec(1) by (simp add: metadata_writes_def)
  then show new: "decode_metadata_candidate ?other pages' = Inr ?r"
    using decode_candidate_root [OF pending_root_ok [OF active bm build] d, of pages'] sb slot bitmap
      chunk [OF n0] chunk [OF n1] by simp
  have "decode_metadata_candidate (slot_inactive ?other) pages' = Inr active"
    using decode_candidate_local [OF read old] by simp
  moreover have "sb_generation (rm_superblock active) < sb_generation (rm_superblock ?r)"
    using spec(2) by (simp add: pending_root_def word_less_nat_alt)
  ultimately show "recover_metadata pages' = Inr (?r, Some active)"
    using recover_two_roots [OF new] spec(3) by (simp add: predecessor_def pending_root_def)
qed

section \<open>Writing metadata pages under the cache\<close>

definition data_kept :: "('d \<Rightarrow> bytes list) \<Rightarrow> 'd page_cache \<Rightarrow> 'd page_cache \<Rightarrow> bool" where
  "data_kept contents c c' \<longleftrightarrow>
     (\<forall>own pid v. 6 \<le> pid \<longrightarrow> readable (pc_reservations c) (own, pid) \<longrightarrow>
        page_value (contents (pc_device c)) c (own, pid) = Some v \<longrightarrow>
        page_value (contents (pc_device c')) c' (own, pid) = Some v)"

lemma data_kept_refl [simp]: "data_kept contents c c" by (simp add: data_kept_def)

lemma data_kept_trans:
  "data_kept contents a b \<Longrightarrow> data_kept contents b c \<Longrightarrow> pc_reservations b = pc_reservations a \<Longrightarrow> data_kept contents a c"
  by (simp add: data_kept_def)

lemma keeps_data: "keeps contents {} c c' \<Longrightarrow> data_kept contents c c'"
  by (auto simp: keeps_def values_kept_def data_kept_def)

lemma cached_ids:
  assumes "index_ok c" "data_only c" "e \<in> set (pc_entries c)"
  shows "6 \<le> ce_id e"
proof -
  obtain i where "i < length (pc_entries c)" "pc_entries c ! i = e" using assms(3) by (auto simp: in_set_conv_nth)
  with index_ok_nth [OF assms(1)] have "pc_lookup c (ce_owner e, ce_id e) = Some i" by (auto simp: entry_key_def)
  then have "pc_lookup c (ce_owner e, ce_id e) \<noteq> None" by simp
  with assms(2) show ?thesis unfolding data_only_def by simp
qed

lemma data_only_ids:
  assumes "index_ok c" "\<forall>e \<in> set (pc_entries c). 6 \<le> ce_id e"
  shows "data_only c"
  unfolding data_only_def
proof (intro allI impI)
  fix own pid
  assume "pc_lookup c (own, pid) \<noteq> None"
  then obtain i where "pc_lookup c (own, pid) = Some i" by auto
  from index_ok_lookup [OF assms(1) this] assms(2) show "FIRST_DATA_PAGE_ID \<le> pid"
    by (auto simp: entry_key_def dest: nth_mem)
qed

lemma metadata_update:
  fixes d' :: 'd
  assumes ok: "cache_ok valid contents c" and data: "data_only c" and v: "valid d'"
    and touch: "only_touches S (contents (pc_device c)) (contents d')" "\<forall>pid \<in> S. pid < 6"
    and six: "6 \<le> length (contents (pc_device c))"
  defines "c' \<equiv> c\<lparr>pc_device := d'\<rparr>"
  shows "cache_ok valid contents c'" "data_only c'" "data_kept contents c c'"
    "length (contents d') = length (contents (pc_device c))"
proof -
  have len: "length (contents d') = length (contents (pc_device c))"
    using touch six unfolding only_touches_def by (metis leD le_less_linear le_trans order_le_less)
  have same: "contents d' ! i = contents (pc_device c) ! i" if "6 \<le> i" "i < length (contents (pc_device c))" for i
    using touch that unfolding only_touches_def by (meson leD)
  have idx: "index_ok c" using ok by (simp add: cache_ok_def)
  have "entry_ok (contents d') (pc_reservations c) e" if e: "e \<in> set (pc_entries c)" for e
  proof -
    have "entry_ok (contents (pc_device c)) (pc_reservations c) e" using ok e by (simp add: cache_ok_def)
    with len same cached_ids [OF idx data e] show ?thesis by (auto simp: entry_ok_def split: owner.splits)
  qed
  then show "cache_ok valid contents c'"
    using ok v len by (simp add: cache_ok_def c'_def index_ok_def written_present_def)
  show "data_only c'" using data by (simp add: data_only_def c'_def)
  show "data_kept contents c c'"
    using same len by (auto simp: data_kept_def page_value_def c'_def split: option.splits if_splits)
  show "length (contents d') = length (contents (pc_device c))" by (rule len)
qed

lemma for_op_option:
  "for_op xs (\<lambda>x. case g x of None \<Rightarrow> return_op () | Some y \<Rightarrow> f y) =
   for_op (concat (map (\<lambda>x. case g x of None \<Rightarrow> [] | Some y \<Rightarrow> [y]) xs)) f"
proof (induction xs)
  case (Cons x xs)
  have "bind_op (return_op ()) (\<lambda>_. m) = m" for m :: "('b, unit) op" by (rule ext) simp
  with Cons show ?case by (cases "g x") simp_all
qed simp

lemma write_chunks_writes:
  "write_chunks ops pm = for_op (chunk_writes_of pm) (\<lambda>(i, w). on_device (dev_write_page ops i w))"
proof -
  let ?g = "\<lambda>(chunk, page). map_option (Pair (bitmap_slot_page_id (bc_slot (sb_bitmap_chunks (pm_superblock pm) ! chunk)) chunk)) page"
  have "write_chunks ops pm = for_op (enumerate 0 (pm_bitmap_pages pm))
      (\<lambda>x. case ?g x of None \<Rightarrow> return_op () | Some y \<Rightarrow> (\<lambda>(i, w). on_device (dev_write_page ops i w)) y)"
    unfolding write_chunks_def by (intro arg_cong [where f = "for_op _"] ext) (auto split: option.split)
  also have "\<dots> = for_op (concat (map (\<lambda>x. case ?g x of None \<Rightarrow> [] | Some y \<Rightarrow> [y]) (enumerate 0 (pm_bitmap_pages pm))))
      (\<lambda>(i, w). on_device (dev_write_page ops i w))"
    by (rule for_op_option)
  also have "concat (map (\<lambda>x. case ?g x of None \<Rightarrow> [] | Some y \<Rightarrow> [y]) (enumerate 0 (pm_bitmap_pages pm))) = chunk_writes_of pm"
    unfolding chunk_writes_of_def by (intro arg_cong [where f = concat] map_cong refl) (auto split: option.split)
  finally show ?thesis .
qed

context page_device
begin

lemma metadata_writes_ok:
  assumes "cache_ok valid contents c" "data_only c" "6 \<le> length (contents (pc_device c))"
    and "\<forall>(i, w) \<in> set ws. i < 6" "distinct (map fst ws)"
    and "for_op ws (\<lambda>(i, w). on_device (dev_write_page ops i w)) c = (r, c')"
  shows "cache_ok valid contents c' \<and> data_only c' \<and> data_kept contents c c' \<and>
    pc_reservations c' = pc_reservations c \<and> pc_lookup c' = pc_lookup c \<and> pc_entries c' = pc_entries c \<and>
    length (contents (pc_device c')) = length (contents (pc_device c)) \<and>
    only_touches (fst ` set ws) (contents (pc_device c)) (contents (pc_device c')) \<and>
    (is_ok r \<longrightarrow> (\<forall>(i, w) \<in> set ws. contents (pc_device c') ! i = w))"
  using assms
proof (induction ws arbitrary: c)
  case (Cons x ws)
  obtain i w where x: "x = (i, w)" by (cases x)
  obtain r1 c1 where s: "on_device (dev_write_page ops i w) c = (r1, c1)"
    by (cases "on_device (dev_write_page ops i w) c")
  from on_device_write [OF _ s] Cons.prems(1) obtain d1 where d1: "c1 = c\<lparr>pc_device := d1\<rparr>" "valid d1"
      "only_touches {i} (contents (pc_device c)) (contents d1)"
      "is_ok r1 \<longrightarrow> i < length (contents d1) \<and> contents d1 ! i = w"
    by (auto simp: cache_ok_def)
  note up = metadata_update [OF Cons.prems(1,2) d1(2,3) _ Cons.prems(3)]
  have i: "i < 6" "i \<notin> fst ` set ws" using Cons.prems(4,5) x by auto
  show ?case
  proof (cases r1)
    case (Inl e)
    then have "c' = c1" "r = Inl e" using Cons.prems(6) x s by simp_all
    with up d1(1,3) i show ?thesis by (auto simp: x intro: only_touches_mono)
  next
    case (Inr u)
    then have "for_op ws (\<lambda>(i, w). on_device (dev_write_page ops i w)) c1 = (r, c')" using Cons.prems(6) x s by simp
    then have IH: "cache_ok valid contents c' \<and> data_only c' \<and> data_kept contents c1 c' \<and>
        pc_reservations c' = pc_reservations c1 \<and> pc_lookup c' = pc_lookup c1 \<and> pc_entries c' = pc_entries c1 \<and>
        length (contents (pc_device c')) = length (contents (pc_device c1)) \<and>
        only_touches (fst ` set ws) (contents (pc_device c1)) (contents (pc_device c')) \<and>
        (is_ok r \<longrightarrow> (\<forall>(i, w) \<in> set ws. contents (pc_device c') ! i = w))"
      using Cons.prems up d1(1) i by (intro Cons.IH) (auto simp: x)
    have "contents (pc_device c') ! i = w"
      using IH i d1 Inr unfolding only_touches_def by (auto simp: d1(1))
    moreover have "only_touches (fst ` set (x # ws)) (contents (pc_device c)) (contents (pc_device c'))"
    proof (rule only_touches_trans)
      show "only_touches (fst ` set (x # ws)) (contents (pc_device c)) (contents d1)"
        by (rule only_touches_mono [OF d1(3)]) (simp add: x)
      show "only_touches (fst ` set (x # ws)) (contents d1) (contents (pc_device c'))"
        by (rule only_touches_mono [of "fst ` set ws"]) (use IH in \<open>simp_all add: d1(1) x subset_insertI\<close>)
    qed
    moreover have "data_kept contents c c'"
      using up(3) IH d1(1) i by (auto intro: data_kept_trans [of contents c c1 c'])
    ultimately show ?thesis using IH up(4) i d1(1) by (auto simp: x)
  qed
qed simp

lemma candidate_checksum_ok:
  assumes ok: "cache_ok valid contents c" and rd: "readable (pc_reservations c) (Candidate k, pid)"
    and clean: "\<forall>i. pc_lookup c (Candidate k, pid) = Some i \<longrightarrow> \<not> ce_dirty (pc_entries c ! i)"
    and s: "candidate_page_checksum ops k pid c = (r, c')"
  shows "\<exists>d'. c' = c\<lparr>pc_device := d'\<rparr> \<and> valid d' \<and> contents d' = contents (pc_device c) \<and>
    (\<forall>x. r = Inr x \<longrightarrow> x = page_checksum (contents (pc_device c) ! pid))"
proof -
  have v: "valid (pc_device c)" using ok by (simp add: cache_ok_def)
  have res: "ensure_reserved_by c k pid = Inr ()"
    using rd by (auto simp: ensure_reserved_by_def get_reservation_def)
  show ?thesis
  proof (cases "pc_lookup c (Candidate k, pid)")
    case (Some i)
    have i: "i < length (pc_entries c)" "ce_id (pc_entries c ! i) = pid"
      using index_ok_lookup [of c "(Candidate k, pid)" i] ok Some by (auto simp: cache_ok_def entry_key_def)
    then have "entry_ok (contents (pc_device c)) (pc_reservations c) (pc_entries c ! i)"
      using ok by (simp add: cache_ok_def)
    with i clean Some have "ce_bytes (pc_entries c ! i) = contents (pc_device c) ! pid" "\<not> ce_unsealed (pc_entries c ! i)"
      by (auto simp: entry_ok_def)
    with s res Some clean v show ?thesis
      by (intro exI [of _ "pc_device c"]) (auto simp: candidate_page_checksum_def Let_def)
  next
    case None
    obtain got d1 where rdp: "dev_read_page ops pid (pc_device c) = (got, d1)" by (cases "dev_read_page ops pid (pc_device c)")
    note d1 = read_one [OF v rdp]
    have "c' = c\<lparr>pc_device := d1\<rparr>" "r = (case got of Inl e \<Rightarrow> Inl e | Inr bs \<Rightarrow>
        (case page_verify bs of Inl e \<Rightarrow> Inl e | Inr _ \<Rightarrow> Inr (page_checksum bs)))"
      using s res None rdp
      by (auto simp: candidate_page_checksum_def on_device_def bind_op_def split: sum.splits)
    with d1 show ?thesis by (intro exI [of _ d1]) (auto split: sum.splits)
  qed
qed

lemma cache_ok_device:
  "cache_ok valid contents c \<Longrightarrow> valid d' \<Longrightarrow> contents d' = contents (pc_device c) \<Longrightarrow>
   cache_ok valid contents (c\<lparr>pc_device := d'\<rparr>)"
  by (simp add: cache_ok_def index_ok_def)

lemma hash_pages_ok:
  assumes "cache_ok valid contents c"
    and "\<forall>pid \<in> set pids. readable (pc_reservations c) (Candidate k, pid) \<and>
      (\<forall>i. pc_lookup c (Candidate k, pid) = Some i \<longrightarrow> \<not> ce_dirty (pc_entries c ! i))"
    and "hash_pages ops k hash pids c = (r, c')"
  shows "\<exists>d'. c' = c\<lparr>pc_device := d'\<rparr> \<and> valid d' \<and> contents d' = contents (pc_device c) \<and>
    (\<forall>x. r = Inr x \<longrightarrow> x = pages_hash (contents (pc_device c)) pids hash)"
  using assms
proof (induction pids arbitrary: c hash)
  case Nil
  then show ?case by (intro exI [of _ "pc_device c"]) (auto simp: pages_hash_def cache_ok_def)
next
  case (Cons pid pids)
  obtain r1 c1 where s: "candidate_page_checksum ops k pid c = (r1, c1)" by (cases "candidate_page_checksum ops k pid c")
  from candidate_checksum_ok [OF Cons.prems(1) _ _ s] Cons.prems(2) obtain d1 where
    d1: "c1 = c\<lparr>pc_device := d1\<rparr>" "valid d1" "contents d1 = contents (pc_device c)"
      "\<forall>x. r1 = Inr x \<longrightarrow> x = page_checksum (contents (pc_device c) ! pid)" by auto
  show ?case
  proof (cases r1)
    case (Inl e)
    with Cons.prems(3) s d1 show ?thesis by auto
  next
    case (Inr x)
    have "\<exists>d'. c' = c1\<lparr>pc_device := d'\<rparr> \<and> valid d' \<and> contents d' = contents (pc_device c1) \<and>
      (\<forall>y. r = Inr y \<longrightarrow> y = pages_hash (contents (pc_device c1)) pids (commit_hash_page hash pid x))"
      using Cons.prems s Inr cache_ok_device [OF Cons.prems(1) d1(2,3)] by (intro Cons.IH) (auto simp: d1(1))
    with d1 Inr show ?thesis by (auto simp: pages_hash_def)
  qed
qed

end

section \<open>The stages of a commit\<close>

definition staged :: "('d \<Rightarrow> bool) \<Rightarrow> ('d \<Rightarrow> bytes list) \<Rightarrow> 'd write_transaction \<Rightarrow> 'd page_cache \<Rightarrow> bool" where
  "staged valid contents t c \<longleftrightarrow>
     cache_ok valid contents c \<and> data_only c \<and> pc_reservations c = pc_reservations (tx_cache t) \<and>
     only_touches (spare_pages (pgr_active (tx_pager t))) (pager_pages contents (tx_pager t)) (contents (pc_device c)) \<and>
     data_kept contents (tx_cache t) c"

text \<open>What a commit that fails leaves: a pager in order whose active root and its pages are untouched on the device,
  and which either serves that root as before or refuses further work.\<close>

definition commit_failed :: "('d \<Rightarrow> bool) \<Rightarrow> ('d \<Rightarrow> bytes list) \<Rightarrow> 'd write_transaction \<Rightarrow> 'd pager \<Rightarrow> bool" where
  "commit_failed valid contents t p \<longleftrightarrow>
     pager_ok valid contents p \<and> pgr_active p = pgr_active (tx_pager t) \<and>
     only_touches (spare_pages (pgr_active (tx_pager t))) (pager_pages contents (tx_pager t)) (pager_pages contents p) \<and>
     (\<forall>pid. 6 \<le> pid \<and> allocates (active_bitmap t) pid \<longrightarrow>
        pager_value contents p pid = page_value (pager_pages contents (tx_pager t)) (tx_cache t) (Committed, pid))"

lemma staged_refl: "tx_ok valid contents t \<Longrightarrow> staged valid contents t (tx_cache t)"
  by (simp add: staged_def tx_ok_def pager_pages_cache)

lemma staged_step:
  assumes "staged valid contents t c" "cache_ok valid contents c'" "data_only c'"
    "pc_reservations c' = pc_reservations c" "data_kept contents c c'"
    "only_touches S (contents (pc_device c)) (contents (pc_device c'))" "S \<subseteq> spare_pages (pgr_active (tx_pager t))"
  shows "staged valid contents t c'"
  using assms only_touches_trans [OF _ only_touches_mono [OF assms(6,7)]]
  by (auto simp: staged_def intro: data_kept_trans)

lemma staged_active:
  assumes ok: "tx_ok valid contents t" and st: "staged valid contents t c"
  shows "root_served (contents (pc_device c)) (pgr_active (tx_pager t))"
    "covered (contents (pc_device c)) (active_bitmap t)"
    "6 \<le> length (contents (pc_device c))"
    "6 \<le> pid \<Longrightarrow> allocates (active_bitmap t) pid \<Longrightarrow> page_value (contents (pc_device c)) c (Committed, pid) =
       page_value (pager_pages contents (tx_pager t)) (tx_cache t) (Committed, pid)"
proof -
  show served: "root_served (contents (pc_device c)) (pgr_active (tx_pager t))"
    by (rule root_served_spare [where pages = "pager_pages contents (tx_pager t)"])
      (use ok st in \<open>simp_all add: tx_ok_def staged_def\<close>)
  show "covered (contents (pc_device c)) (active_bitmap t)"
    by (rule covered_touches [where pages = "pager_pages contents (tx_pager t)"])
      (use ok st in \<open>auto simp: tx_ok_def staged_def\<close>)
  show "6 \<le> length (contents (pc_device c))" using served by (simp add: root_served_def)
  assume pid: "6 \<le> pid" "allocates (active_bitmap t) pid"
  then have "pid < length (contents (pc_device (tx_cache t)))"
    using ok by (auto simp: tx_ok_def covered_def pager_pages_cache)
  then obtain v where v: "page_value (contents (pc_device (tx_cache t))) (tx_cache t) (Committed, pid) = Some v"
    by (cases "pc_lookup (tx_cache t) (Committed, pid)") (simp_all add: page_value_def)
  have "readable (pc_reservations (tx_cache t)) (Committed, pid)"
    using ok pid(2) by (auto simp: tx_ok_def is_new_def)
  with v pid(1) st show "page_value (contents (pc_device c)) c (Committed, pid) =
      page_value (pager_pages contents (tx_pager t)) (tx_cache t) (Committed, pid)"
    unfolding staged_def data_kept_def pager_pages_cache by metis
qed

lemma staged_finish:
  assumes ok: "tx_ok valid contents t" and st: "staged valid contents t c"
  defines "t' \<equiv> set_tx_cache c t"
  shows "commit_failed valid contents t (tx_pager (finish (t'\<lparr>tx_pager := (tx_pager t')\<lparr>pgr_recovery_required := b\<rparr>\<rparr>)))"
proof -
  let ?t = "t'\<lparr>tx_pager := (tx_pager t')\<lparr>pgr_recovery_required := b\<rparr>\<rparr>"
  note act = staged_active [OF ok st]
  have f: "tx_cache ?t = c" "tx_candidate ?t = tx_candidate t" "pgr_active (tx_pager ?t) = pgr_active (tx_pager t)"
    by (simp_all add: t'_def set_tx_cache_def tx_cache_def)
  note fin = finish_ok [of valid contents ?t]
  have pre: "cache_ok valid contents (tx_cache ?t)" "data_only (tx_cache ?t)"
    "\<forall>pid r. map_of (pc_reservations (tx_cache ?t)) pid = Some r \<longrightarrow> rv_candidate r = tx_candidate ?t"
    unfolding f using st ok by (simp_all add: staged_def tx_ok_def)
  have served: "root_served (pager_pages contents (tx_pager ?t)) (pgr_active (tx_pager ?t)) \<and>
      covered (pager_pages contents (tx_pager ?t)) (rm_allocation_bitmap (pgr_active (tx_pager ?t)))"
    unfolding pager_pages_cache f using act(1,2) by (simp add: active_bitmap_def)
  note fin = finish_ok [OF pre served]
  show ?thesis
    unfolding commit_failed_def fin(2,3) finish_fields pager_pages_cache [of _ ?t] f
    using fin(1) st act(4) by (auto simp: staged_def)
qed

definition cleaned :: "'d write_transaction \<Rightarrow> 'd page_cache \<Rightarrow> bool" where
  "cleaned t c \<longleftrightarrow>
     (\<forall>pid i. is_new t pid \<longrightarrow> pc_lookup c (Candidate (tx_candidate t), pid) = Some i \<longrightarrow> \<not> ce_dirty (pc_entries c ! i))"

lemma page_value_fields [simp]:
  "page_value pages (c\<lparr>pc_device := d\<rparr>) = page_value pages c"
  "page_value pages (c\<lparr>pc_unflushed_owners := us\<rparr>) = page_value pages c"
  by (rule ext, rule page_value_same, simp_all)+

lemma cleaned_cong: "cleaned t c \<Longrightarrow> pc_lookup c' = pc_lookup c \<Longrightarrow> pc_entries c' = pc_entries c \<Longrightarrow> cleaned t c'"
  by (simp add: cleaned_def)

lemma filter_upt_same:
  assumes "\<And>x :: nat. P x \<Longrightarrow> a \<le> x \<and> x < b \<and> a' \<le> x \<and> x < b'"
  shows "filter P [a..<b] = filter P [a'..<b']"
  by (rule sorted_distinct_set_unique) (use assms in \<open>auto intro: sorted_wrt_filter\<close>)

lemma new_pages:
  assumes ok: "tx_ok valid contents t" and nb: "rm_allocation_bitmap root = tx_next_bitmap t"
  defines "news \<equiv> allocated_since (tx_next_bitmap t) (active_bitmap t) (tx_new_page_end t)"
  shows "set news = {pid. is_new t pid}" "distinct news"
    "news = pages_since root (pgr_active (tx_pager t)) data_page_ids"
proof -
  have b: "length (ab_bits (tx_next_bitmap t)) = 8192" "length (ab_bits (active_bitmap t)) = 8192"
    using ok by (auto simp: tx_ok_def root_served_def root_ok_def bitmap_ok_def active_bitmap_def)
  have new: "6 \<le> pid \<and> pid < min (tx_new_page_end t) 65536 \<and> pid < 65536" if "is_new t pid" for pid
    using that new_page_data [OF ok that] ok by (auto simp: tx_ok_def is_new_def allocates_def)
  have eq: "news = filter (is_new t) [0..<min (tx_new_page_end t) 65536]"
    unfolding news_def allocated_since_filter [OF b] is_new_def ..
  show "set news = {pid. is_new t pid}" using new by (auto simp: eq)
  show "distinct news" by (simp add: eq)
  have "pages_since root (pgr_active (tx_pager t)) data_page_ids = filter (is_new t) [6..<65536]"
    unfolding pages_since_def data_page_ids_def is_new_def nb active_bitmap_def ..
  also have "\<dots> = news" unfolding eq by (rule filter_upt_same) (use new in auto)
  finally show "news = pages_since root (pgr_active (tx_pager t)) data_page_ids" ..
qed

context page_device
begin

lemma stage_write:
  assumes ok: "tx_ok valid contents t" and st: "staged valid contents t c" and pids: "distinct pids"
    and w: "write_candidate_pages ops (tx_candidate t) pids c = (r, c')"
  shows "staged valid contents t c'"
    "is_ok r \<Longrightarrow> set pids = {pid. is_new t pid} \<Longrightarrow> cleaned t c'"
proof -
  have c: "cache_ok valid contents c" using st by (simp add: staged_def)
  note wr = write_candidate_pages_ok [OF c pids w]
  have "reserved (pc_reservations c) \<union> {length (contents (pc_device c))..} \<subseteq> spare_pages (pgr_active (tx_pager t))"
    using reserved_unreached [OF ok] st staged_active(2,3) [OF ok st]
    by (auto simp: spare_pages_def staged_def unreached_def covered_def active_bitmap_def)
  moreover have "data_only c'" using st wr(3) by (simp add: staged_def data_only_def)
  ultimately show "staged valid contents t c'"
    using staged_step [OF st wr(1)] wr(2) keeps_data [OF wr(2)] by (auto simp: keeps_def)
  show "is_ok r \<Longrightarrow> set pids = {pid. is_new t pid} \<Longrightarrow> cleaned t c'"
    using wr(4) by (auto simp: cleaned_def)
qed

lemma stage_same:
  assumes ok: "tx_ok valid contents t" and st: "staged valid contents t c"
    and v: "valid d'" "contents d' = contents (pc_device c)"
  shows "staged valid contents t (c\<lparr>pc_device := d'\<rparr>)"
proof -
  have "cache_ok valid contents (c\<lparr>pc_device := d'\<rparr>)" using cache_ok_device st v by (simp add: staged_def)
  moreover have "data_kept contents c (c\<lparr>pc_device := d'\<rparr>)" using v by (simp add: data_kept_def)
  moreover have "data_only (c\<lparr>pc_device := d'\<rparr>)" using st by (simp add: staged_def data_only_def)
  ultimately show ?thesis by (intro staged_step [OF st, where S = "{}"]) (use v in simp_all)
qed

lemma stage_metadata:
  assumes ok: "tx_ok valid contents t" and st: "staged valid contents t c"
    and build: "build_next_metadata (pgr_active (tx_pager t)) revision h catalog (tx_next_bitmap t) = Inr pm"
    and ws: "set ws \<subseteq> set (metadata_writes pm sb)" "distinct (map fst ws)"
    and w: "for_op ws (\<lambda>(i, w). on_device (dev_write_page ops i w)) c = (r, c')"
  shows "staged valid contents t c'" "pc_lookup c' = pc_lookup c" "pc_entries c' = pc_entries c"
    "only_touches (fst ` set ws) (contents (pc_device c)) (contents (pc_device c'))"
    "is_ok r \<Longrightarrow> (i, w) \<in> set ws \<Longrightarrow> contents (pc_device c') ! i = w"
proof -
  have c: "cache_ok valid contents c" "data_only c" using st by (simp_all add: staged_def)
  have rok: "root_ok (pgr_active (tx_pager t))" using ok by (simp add: tx_ok_def root_served_def)
  have avoid: "i < 6 \<and> i \<in> spare_pages (pgr_active (tx_pager t))" if "(i, w) \<in> set ws" for i w
    using metadata_writes_avoid_active [OF rok build, of i w sb] that ws(1) by (auto simp: spare_pages_def)
  have mw: "cache_ok valid contents c' \<and> data_only c' \<and> data_kept contents c c' \<and>
    pc_reservations c' = pc_reservations c \<and> pc_lookup c' = pc_lookup c \<and> pc_entries c' = pc_entries c \<and>
    length (contents (pc_device c')) = length (contents (pc_device c)) \<and>
    only_touches (fst ` set ws) (contents (pc_device c)) (contents (pc_device c')) \<and>
    (is_ok r \<longrightarrow> (\<forall>(i, w) \<in> set ws. contents (pc_device c') ! i = w))"
    by (rule metadata_writes_ok [OF c staged_active(3) [OF ok st] _ ws(2) w]) (use avoid in auto)
  moreover have "fst ` set ws \<subseteq> spare_pages (pgr_active (tx_pager t))" using avoid by auto
  ultimately show "staged valid contents t c'" by (intro staged_step [OF st, where c' = c']) auto
  show "pc_lookup c' = pc_lookup c" "pc_entries c' = pc_entries c"
    "only_touches (fst ` set ws) (contents (pc_device c)) (contents (pc_device c'))"
    "is_ok r \<Longrightarrow> (i, w) \<in> set ws \<Longrightarrow> contents (pc_device c') ! i = w"
    using mw by auto
qed

lemma stage_flush:
  assumes ok: "tx_ok valid contents t" and st: "staged valid contents t c" and fl: "flush_device ops c = (r, c')"
  shows "staged valid contents t c'" "pc_lookup c' = pc_lookup c" "pc_entries c' = pc_entries c"
    "contents (pc_device c') = contents (pc_device c)"
proof -
  obtain r1 d1 where s: "dev_flush ops (pc_device c) = (r1, d1)" by (cases "dev_flush ops (pc_device c)")
  have v: "valid d1" "contents d1 = contents (pc_device c)"
    using flush [OF _ s] st by (simp_all add: staged_def cache_ok_def)
  from stage_same [OF ok st v] have st1: "staged valid contents t (c\<lparr>pc_device := d1\<rparr>)" .
  have "c' = c\<lparr>pc_device := d1\<rparr> \<or> c' = c\<lparr>pc_device := d1, pc_unflushed_owners := []\<rparr>"
    using fl s by (cases r1) (auto simp: flush_device_def on_device_def bind_op_def)
  moreover have "staged valid contents t (c0\<lparr>pc_unflushed_owners := us\<rparr>) = staged valid contents t c0" for c0 us
    by (simp add: staged_def cache_ok_def index_ok_def data_only_def data_kept_def)
  ultimately show "staged valid contents t c'" "pc_lookup c' = pc_lookup c" "pc_entries c' = pc_entries c"
    "contents (pc_device c') = contents (pc_device c)"
    using st1 v by auto
qed

lemma install_data_only:
  assumes ok: "cache_ok valid contents c" and data: "data_only c"
    and ins: "install_candidate ops k active nextb c = (r, c')"
  shows "data_only c'"
proof -
  have step: "\<forall>e \<in> set (pc_entries (install_page k pid c)). 6 \<le> ce_id e"
    if "\<forall>e \<in> set (pc_entries c). 6 \<le> ce_id e" for pid and c :: "'a page_cache"
  proof (cases "pc_lookup c (Candidate k, pid)")
    case (Some i)
    show ?thesis
    proof (cases "i < length (pc_entries c)")
      case True
      with that Some show ?thesis
        by (auto simp: install_page_def set_entry_def dest!: subsetD [OF set_update_subset_insert])
    qed (use that Some in \<open>simp add: install_page_def set_entry_def list_update_beyond\<close>)
  qed (use that in \<open>simp add: install_page_def\<close>)
  have all: "\<forall>e \<in> set (pc_entries (fold (install_page k) pids c)). 6 \<le> ce_id e"
    if "\<forall>e \<in> set (pc_entries c). 6 \<le> ce_id e" for pids and c :: "'a page_cache"
    using that
  proof (induction pids arbitrary: c)
    case (Cons pid pids)
    from Cons.IH [OF step [OF Cons.prems]] show ?case by simp
  qed simp
  have idx: "index_ok c" using ok by (simp add: cache_ok_def)
  from ins show ?thesis
  proof (cases rule: install_candidate_cases)
    case installed
    let ?d = "fold (\<lambda>pid. remove_entry (Committed, pid)) (allocated_since active nextb (dev_page_count ops (pc_device c))) c"
    have "set (pc_entries ?d) \<subseteq> set (pc_entries c)" using drop_committed_all [OF ok] by blast
    with cached_ids [OF idx data] have "\<forall>e \<in> set (pc_entries ?d). 6 \<le> ce_id e" by blast
    from all [OF this] have "\<forall>e \<in> set (pc_entries c'). 6 \<le> ce_id e" by (simp add: installed(5))
    moreover have "index_ok c'" using install_candidate_ok(1) [OF ok ins] by (simp add: cache_ok_def)
    ultimately show ?thesis by (rule data_only_ids [rotated])
  qed (simp add: data)
qed

end

text \<open>What a successful commit leaves.\<close>

definition commit_done ::
  "('d \<Rightarrow> bool) \<Rightarrow> ('d \<Rightarrow> bytes list) \<Rightarrow> 'd write_transaction \<Rightarrow> u64 \<Rightarrow> u64 \<Rightarrow> nat option \<Rightarrow> 'd pager \<Rightarrow> bool" where
  "commit_done valid contents t revision hash catalog p \<longleftrightarrow>
     (let old = pgr_active (tx_pager t); new = pgr_active p; sb = rm_superblock new; pages = pager_pages contents p in
      pager_ok valid contents p \<and> \<not> pgr_recovery_required p \<and>
      rm_allocation_bitmap new = tx_next_bitmap t \<and> sb_database_revision sb = revision \<and>
      sb_database_hash sb = hash \<and> sb_catalog_root_page_id sb = catalog \<and>
      unat (sb_generation sb) = unat (sb_generation (rm_superblock old)) + 1 \<and>
      sb_commit_hash sb = pages_hash pages (pages_since new old data_page_ids) commit_hash_new \<and>
      only_touches (spare_pages old) (pager_pages contents (tx_pager t)) pages \<and>
      recover_metadata (take 6 pages) = Inr (new, Some old) \<and>
      (\<forall>pid. 6 \<le> pid \<and> allocates (tx_next_bitmap t) pid \<longrightarrow> pager_value contents p pid = tx_value contents t pid))"

lemma build_next_fields:
  assumes "build_next_metadata active revision h catalog bitmap = Inr pm"
  shows "sb_database_revision (pm_superblock pm) = revision" "sb_database_hash (pm_superblock pm) = h"
    "sb_catalog_root_page_id (pm_superblock pm) = catalog"
  using assms by (auto simp: build_next_metadata_def Let_def and_then_eq_Inr split: if_splits)

lemma pages_hash_cong:
  "(\<And>pid. pid \<in> set pids \<Longrightarrow> pages' ! pid = pages ! pid) \<Longrightarrow> pages_hash pages' pids h = pages_hash pages pids h"
  unfolding pages_hash_def by (rule fold_cong) simp_all

context page_device
begin

lemma staged_values:
  assumes ok: "tx_ok valid contents t" and st: "staged valid contents t c" and cl: "cleaned t c"
    and rd: "\<And>pid. is_new t pid \<Longrightarrow> readable (pc_reservations (tx_cache t)) (Candidate (tx_candidate t), pid)"
    and pid: "6 \<le> pid" "allocates (tx_next_bitmap t) pid"
  shows "pid < length (contents (pc_device c))"
    "page_value (contents (pc_device c)) c (tx_owner t pid, pid) = tx_value contents t pid"
proof -
  have "pid < length (contents (pc_device c)) \<and>
    page_value (contents (pc_device c)) c (tx_owner t pid, pid) = tx_value contents t pid"
  proof (cases "is_new t pid")
    case True
    have c: "cache_ok valid contents c" using st by (simp add: staged_def)
    have r: "readable (pc_reservations c) (Candidate (tx_candidate t), pid)" using rd [OF True] st by (simp add: staged_def)
    have "\<forall>i. pc_lookup c (Candidate (tx_candidate t), pid) = Some i \<longrightarrow> \<not> ce_dirty (pc_entries c ! i)"
      using cl True by (simp add: cleaned_def)
    note dev = clean_on_device [OF c r this]
    obtain v where v: "tx_value contents t pid = Some v"
    proof -
      obtain rr where rr: "map_of (pc_reservations (tx_cache t)) pid = Some rr" "rv_candidate rr = tx_candidate t" "rv_written rr"
        using rd [OF True] by auto
      have "written_present (contents (pc_device (tx_cache t))) (pc_reservations (tx_cache t)) (pc_lookup (tx_cache t))"
        using ok by (simp add: tx_ok_def cache_ok_def)
      with rr have "pc_lookup (tx_cache t) (Candidate (tx_candidate t), pid) = None \<longrightarrow>
          pid < length (contents (pc_device (tx_cache t)))" by (auto simp: written_present_def)
      then show thesis using that True
        by (cases "pc_lookup (tx_cache t) (Candidate (tx_candidate t), pid)")
          (auto simp: tx_value_def tx_owner_def page_value_def pager_pages_cache)
    qed
    then have "page_value (contents (pc_device c)) c (Candidate (tx_candidate t), pid) = Some v"
      using st rd [OF True] pid(1) True
      by (auto simp: staged_def data_kept_def tx_value_def tx_owner_def pager_pages_cache simp del: readable.simps)
    with dev v True show ?thesis by (simp add: tx_owner_def)
  next
    case False
    with pid have act: "allocates (active_bitmap t) pid" by (simp add: is_new_def)
    with staged_active(2,4) [OF ok st] pid(1) False show ?thesis
      by (auto simp: covered_def tx_value_def tx_owner_def)
  qed
  then show "pid < length (contents (pc_device c))"
    "page_value (contents (pc_device c)) c (tx_owner t pid, pid) = tx_value contents t pid" by simp_all
qed

lemma stage_install:
  assumes ok: "tx_ok valid contents t" and st: "staged valid contents t c" and cl: "cleaned t c"
    and rd: "\<And>pid. is_new t pid \<Longrightarrow> readable (pc_reservations (tx_cache t)) (Candidate (tx_candidate t), pid)"
    and build: "build_next_metadata (pgr_active (tx_pager t)) revision h catalog (tx_next_bitmap t) = Inr pm"
    and sb: "encode_superblock_page (rm_superblock (pending_root pm hash)) (tx_next_bitmap t) = Inr sb"
    and all: "\<And>i w. (i, w) \<in> set (metadata_writes pm sb) \<Longrightarrow> contents (pc_device c) ! i = w"
    and hash: "hash = pages_hash (contents (pc_device c))
      (allocated_since (tx_next_bitmap t) (active_bitmap t) (tx_new_page_end t)) commit_hash_new"
    and ins: "install_candidate ops (tx_candidate t) (active_bitmap t) (tx_next_bitmap t) c = (Inr u, c')"
    and p: "pgr_cache p = c'" "pgr_active p = pending_root pm hash" "\<not> pgr_recovery_required p"
  shows "commit_done valid contents t revision h catalog p"
proof -
  let ?old = "pgr_active (tx_pager t)" and ?new = "pending_root pm hash" and ?pages = "contents (pc_device c)"
  have c: "cache_ok valid contents c" "data_only c" "pc_reservations c = pc_reservations (tx_cache t)"
    using st by (simp_all add: staged_def)
  note inst = install_candidate_ok [OF c(1) ins]
  have pages: "pager_pages contents p = ?pages" using p(1) inst(2) by (simp add: pager_pages_def)
  have rok: "root_ok ?old" and bm: "bitmap_ok (tx_next_bitmap t)" using ok by (simp_all add: tx_ok_def root_served_def)
  obtain c0 c1 where two: "sb_bitmap_chunks (rm_superblock ?old) = [c0, c1]"
    using rok by (auto simp: root_ok_def length_two)
  note spec = build_next_spec [OF rok build two]
  have nextb: "rm_allocation_bitmap ?new = tx_next_bitmap t" using spec(6) by (simp add: pending_root_def)
  note served = staged_active [OF ok st]
  have read: "decode_metadata_candidate (sb_slot (rm_superblock ?old)) (take 6 ?pages) = Inr ?old"
    using served(1) by (simp add: root_served_def)
  have place: "take 6 ?pages ! i = w" if "(i, w) \<in> set (metadata_writes pm sb)" for i w
    using all [OF that] metadata_writes_avoid_active [OF rok build that] by simp
  note dec = pending_decodes [OF rok bm build read sb refl place]
  have news: "root_served ?pages ?new"
    using dec(1) served(3) pending_root_ok [OF rok bm build] spec(1) by (simp add: root_served_def pending_root_def)
  have val: "q < length ?pages" "page_value ?pages c (tx_owner t q, q) = tx_value contents t q"
    if "6 \<le> q" "allocates (tx_next_bitmap t) q" for q
    by (rule staged_values(1) [OF ok st cl], use rd that in blast, simp_all add: that)
      (rule staged_values(2) [OF ok st cl], use rd that in blast, simp_all add: that)
  have cov: "covered ?pages (tx_next_bitmap t)"
    unfolding covered_def using val(1) served(3) by (meson le_trans not_le order_less_le_trans)
  have res: "pc_reservations c' = []"
  proof -
    have "distinct (map fst (pc_reservations c))" using c(1) by (simp add: cache_ok_def reservations_ok_def)
    then have "rv_candidate rv = tx_candidate t" if "(q, rv) \<in> set (pc_reservations c)" for q rv
      using ok that c(3) by (metis map_of_is_SomeI tx_ok_def)
    then show ?thesis using inst(4) by (auto simp: filter_empty_conv)
  qed
  have owner: "(if reserved_for (pc_reservations c) (tx_candidate t) q then Candidate (tx_candidate t) else Committed) = tx_owner t q" for q
    unfolding c(3) tx_reserved_for [OF ok] tx_owner_def ..
  have "pager_value contents p q = tx_value contents t q" if "6 \<le> q" "allocates (tx_next_bitmap t) q" for q
    using inst(4) val(2) [OF that] owner [of q] by (simp add: pager_value_def pages p(1))
  moreover have "pager_ok valid contents p"
    using inst(1) res install_data_only [OF c(1,2) ins] news cov p nextb by (simp add: pager_ok_def pages)
  moreover have "only_touches (spare_pages ?old) (pager_pages contents (tx_pager t)) ?pages"
    using st by (simp add: staged_def)
  moreover have "sb_commit_hash (rm_superblock ?new) = pages_hash ?pages (pages_since ?new ?old data_page_ids) commit_hash_new"
    using hash new_pages(3) [OF ok nextb] by (simp add: pending_root_def)
  ultimately show ?thesis
    unfolding commit_done_def Let_def pages p(2) using dec(2) nextb spec(2) build_next_fields [OF build] p(3)
    by (simp add: pending_root_def)
qed

end

text \<open>Rules for the steps of a commit: what holds on both outcomes of a step holds of the whole.\<close>

lemma or_fail_lift:
  "(\<And>e. x = Inl e \<Longrightarrow> Q (fail e t)) \<Longrightarrow> (\<And>v. x = Inr v \<Longrightarrow> Q (f v t)) \<Longrightarrow> Q (or_fail fail (lift_op x) f t)"
  by (cases x) (simp_all add: or_fail_def)

lemma or_fail_cache:
  "(\<And>e c'. m c = (Inl e, c') \<Longrightarrow> Q (fail e (set_tx_cache c' t))) \<Longrightarrow>
   (\<And>v c'. m c = (Inr v, c') \<Longrightarrow> Q (f v (set_tx_cache c' t))) \<Longrightarrow>
   Q (or_fail fail (on_tx_cache m) f (set_tx_cache c t))"
  by (cases "m c" rule: prod.exhaust [case_product sum.exhaust])
    (auto simp: or_fail_def on_tx_cache_def set_tx_cache_def tx_cache_def split: sum.splits)

definition commit_outcome ::
  "('d \<Rightarrow> bool) \<Rightarrow> ('d \<Rightarrow> bytes list) \<Rightarrow> 'd write_transaction \<Rightarrow> u64 \<Rightarrow> u64 \<Rightarrow> nat option \<Rightarrow>
    unit res \<times> 'd write_transaction \<Rightarrow> bool" where
  "commit_outcome valid contents t revision hash catalog = (\<lambda>(r, t').
     let p = drop_transaction t'
     in case r of
          Inr _ \<Rightarrow> commit_done valid contents t revision hash catalog p
        | Inl e \<Rightarrow> commit_failed valid contents t p \<and> (pgr_recovery_required p \<longrightarrow> e = RECOVERY_REQUIRED))"

context page_device
begin

lemma fails_before:
  assumes ok: "tx_ok valid contents t" and st: "staged valid contents t c"
  shows "commit_outcome valid contents t revision hash catalog (fail_before_superblock e (set_tx_cache c t))"
proof -
  let ?t = "set_tx_cache c t"
  have "\<not> pgr_recovery_required (tx_pager ?t)" using ok by (simp add: tx_ok_def)
  then have "?t\<lparr>tx_pager := (tx_pager ?t)\<lparr>pgr_recovery_required := False\<rparr>\<rparr> = ?t" by simp
  with staged_finish [OF ok st, of False] have "commit_failed valid contents t (tx_pager (finish ?t))" by simp
  with \<open>\<not> pgr_recovery_required (tx_pager ?t)\<close> show ?thesis
    by (simp add: commit_outcome_def fail_before_superblock_def)
qed

lemma fails_after:
  assumes "tx_ok valid contents t" "staged valid contents t c"
  shows "commit_outcome valid contents t revision hash catalog (fail_after_superblock e (set_tx_cache c t))"
  using staged_finish [OF assms, of True] by (simp add: commit_outcome_def fail_after_superblock_def)

lemma stage_chunks:
  assumes ok: "tx_ok valid contents t" and st: "staged valid contents t c"
    and build: "build_next_metadata (pgr_active (tx_pager t)) revision h catalog (tx_next_bitmap t) = Inr pm"
    and w: "write_chunks ops pm c = (r, c')"
  shows "staged valid contents t c'" "pc_lookup c' = pc_lookup c" "pc_entries c' = pc_entries c"
    "6 \<le> i \<Longrightarrow> i < length (contents (pc_device c)) \<Longrightarrow> contents (pc_device c') ! i = contents (pc_device c) ! i"
    "is_ok r \<Longrightarrow> (i, v) \<in> set (chunk_writes_of pm) \<Longrightarrow> contents (pc_device c') ! i = v"
proof -
  have rok: "root_ok (pgr_active (tx_pager t))" using ok by (simp add: tx_ok_def root_served_def)
  have sub: "set (chunk_writes_of pm) \<subseteq> set (metadata_writes pm [])" by (auto simp: metadata_writes_def)
  have "distinct (map fst (chunk_writes_of pm))"
    using metadata_writes_distinct [OF rok build, of "[]"] by (simp add: metadata_writes_def)
  note sm = stage_metadata [OF ok st build sub this w [unfolded write_chunks_writes]]
  show "staged valid contents t c'" "pc_lookup c' = pc_lookup c" "pc_entries c' = pc_entries c"
    "is_ok r \<Longrightarrow> (i, v) \<in> set (chunk_writes_of pm) \<Longrightarrow> contents (pc_device c') ! i = v"
    by (fact sm(1), fact sm(2), fact sm(3), fact sm(5))
  assume "6 \<le> i" "i < length (contents (pc_device c))"
  moreover from this have "i \<notin> fst ` set (chunk_writes_of pm)"
    using metadata_writes_avoid_active [OF rok build, of i _ "[]"] sub by fastforce
  ultimately show "contents (pc_device c') ! i = contents (pc_device c) ! i"
    using sm(4) by (auto simp: only_touches_def)
qed

lemma new_page_set:
  assumes "tx_ok valid contents t"
  shows "set (allocated_since (tx_next_bitmap t) (active_bitmap t) (tx_new_page_end t)) = {pid. is_new t pid}"
    "distinct (allocated_since (tx_next_bitmap t) (active_bitmap t) (tx_new_page_end t))"
  using new_pages(1,2) [OF assms, of "\<lparr>rm_superblock = undefined, rm_allocation_bitmap = tx_next_bitmap t\<rparr>"] by simp_all

lemma staged_new_page:
  assumes ok: "tx_ok valid contents t" "staged valid contents t c" "cleaned t c"
    and rd: "\<And>pid. is_new t pid \<Longrightarrow> readable (pc_reservations (tx_cache t)) (Candidate (tx_candidate t), pid)"
    and new: "is_new t pid"
  shows "6 \<le> pid \<and> pid < length (contents (pc_device c))"
proof -
  have six: "6 \<le> pid" by (rule new_page_data [OF ok(1) new])
  moreover have "pid < length (contents (pc_device c))"
    by (rule staged_values(1) [OF ok rd]) (use new six in \<open>auto simp: is_new_def\<close>)
  ultimately show ?thesis ..
qed

lemma publish_ok:
  assumes ok: "tx_ok valid contents t"
    and st: "staged valid contents t c" and cl: "cleaned t c"
      and rd: "\<And>pid. is_new t pid \<Longrightarrow> readable (pc_reservations (tx_cache t)) (Candidate (tx_candidate t), pid)"
      and build: "build_next_metadata (pgr_active (tx_pager t)) revision hash catalog (tx_next_bitmap t) = Inr pm"
      and sb: "encode_superblock_page ((pm_superblock pm)\<lparr>sb_commit_hash := h\<rparr>) (pm_allocation_bitmap pm) = Inr sb"
      and chunks: "\<And>i w. (i, w) \<in> set (chunk_writes_of pm) \<Longrightarrow> contents (pc_device c) ! i = w"
      and h: "h = pages_hash (contents (pc_device c)) (allocated_since (tx_next_bitmap t) (active_bitmap t) (tx_new_page_end t)) commit_hash_new"
  shows "commit_outcome valid contents t revision hash catalog (or_fail fail_after_superblock
       (on_tx_cache (on_device (dev_write_page ops (slot_page_id (sb_slot (pm_superblock pm))) sb))) (\<lambda>_.
     or_fail fail_after_superblock (on_tx_cache (flush_device ops)) (\<lambda>_.
     or_fail fail_after_superblock
       (on_tx_cache (install_candidate ops (tx_candidate t) (active_bitmap t) (pm_allocation_bitmap pm))) (\<lambda>_ t.
       (Inr (), t\<lparr>tx_pager := (tx_pager t)\<lparr>pgr_active :=
                    \<lparr>rm_superblock = (pm_superblock pm)\<lparr>sb_commit_hash := h\<rparr>, rm_allocation_bitmap = pm_allocation_bitmap pm\<rparr>\<rparr>,
                  tx_finished := True\<rparr>)))) (set_tx_cache c t))"
proof -
  let ?Q = "commit_outcome valid contents t revision hash catalog"
  let ?news = "allocated_since (tx_next_bitmap t) (active_bitmap t) (tx_new_page_end t)"
  have rok: "root_ok (pgr_active (tx_pager t))" using ok by (simp add: tx_ok_def root_served_def)
  note news = new_page_set [OF ok]
  note after = fails_after [OF ok, where revision = revision and hash = hash and catalog = catalog]
  show ?thesis
  proof (rule or_fail_cache, goal_cases)
    have pmb: "pm_allocation_bitmap pm = tx_next_bitmap t" and slot: "slot_page_id (sb_slot (pm_superblock pm)) < 6"
      using build_next_spec(6) [OF rok build] rok by (auto simp: root_ok_def length_two, cases "sb_slot (pm_superblock pm)", simp_all)
    let ?w = "(slot_page_id (sb_slot (pm_superblock pm)), sb)"
    have written: "staged valid contents t c1 \<and> pc_lookup c1 = pc_lookup c \<and> pc_entries c1 = pc_entries c \<and>
        (\<forall>i. i \<noteq> fst ?w \<longrightarrow> i < length (contents (pc_device c)) \<longrightarrow> contents (pc_device c1) ! i = contents (pc_device c) ! i) \<and>
        (is_ok r1 \<longrightarrow> contents (pc_device c1) ! fst ?w = sb)"
      if "on_device (dev_write_page ops (slot_page_id (sb_slot (pm_superblock pm))) sb) c = (r1, c1)" for r1 c1
    proof -
      have loop: "for_op [?w] (\<lambda>(i, w). on_device (dev_write_page ops i w)) c = (r1, c1)"
        using that by (cases r1) (auto simp: bind_op_def)
      note sm = stage_metadata [OF ok st build _ _ loop, where sb = sb]
      show ?thesis using sm by (auto simp: metadata_writes_def only_touches_def)
    qed
    {
      case (1 e c1)
      then show ?case using written after by blast
    next
      case (2 u1 c1)
      note w1 = written [OF 2]
      show ?case
      proof (rule or_fail_cache, goal_cases)
        case (1 e c2)
        then show ?case using stage_flush(1) [OF ok] w1 after by blast
      next
        case (2 u2 c2)
        note fl = stage_flush [OF ok _ 2]
        have st2: "staged valid contents t c2" and cl2: "cleaned t c2" and same: "contents (pc_device c2) = contents (pc_device c1)"
          using fl w1 cleaned_cong [OF cl] by simp_all
        show ?case
        proof (rule or_fail_cache, goal_cases)
          case (1 e c3)
          then have "c3 = c2" using install_candidate_ok(3) st2 by (auto simp: staged_def)
          then show ?case using after st2 by simp
        next
          case (2 u3 c3)
          have len: "6 \<le> length (contents (pc_device c))" by (rule staged_active(3) [OF ok st])
          have all: "contents (pc_device c2) ! i = w" if "(i, w) \<in> set (metadata_writes pm sb)" for i w
          proof (cases "(i, w) = ?w")
            case True
            then show ?thesis using w1 by (simp add: same)
          next
            case False
            then have mem: "(i, w) \<in> set (chunk_writes_of pm)" using that by (auto simp: metadata_writes_def)
            then have "i \<noteq> fst ?w" using metadata_writes_distinct [OF rok build, of sb] by (force simp: metadata_writes_def)
            moreover have "i < length (contents (pc_device c))"
              using metadata_writes_avoid_active [OF rok build that] len by simp
            ultimately show ?thesis using w1 chunks [OF mem] by (simp add: same)
          qed
          have "contents (pc_device c2) ! pid = contents (pc_device c) ! pid" if "pid \<in> set ?news" for pid
            using staged_new_page [OF ok st cl rd, of pid] that news w1 slot unfolding same by auto
          then have h2: "h = pages_hash (contents (pc_device c2)) ?news commit_hash_new"
            unfolding h by (intro pages_hash_cong [symmetric]) simp
          have "commit_done valid contents t revision hash catalog
              ((tx_pager (set_tx_cache c3 t))\<lparr>pgr_active := pending_root pm h\<rparr>)"
            by (rule stage_install [OF ok st2 cl2 rd build _ all h2 2 [unfolded pmb]])
              (use sb ok in \<open>simp_all add: pmb pending_root_def set_tx_cache_def tx_ok_def\<close>)
          then show ?case
            by (simp add: commit_outcome_def drop_transaction_def pending_root_def)
        qed
      qed
    }
  qed
qed

lemma prepare_ok:
  assumes ok: "tx_ok valid contents t"
    and rd: "\<And>pid. is_new t pid \<Longrightarrow> readable (pc_reservations (tx_cache t)) (Candidate (tx_candidate t), pid)"
      and build: "build_next_metadata (pgr_active (tx_pager t)) revision hash catalog (tx_next_bitmap t) = Inr pm"
  shows "commit_outcome valid contents t revision hash catalog (or_fail fail_before_superblock (on_tx_cache (write_candidate_pages ops (tx_candidate t) (allocated_since (tx_next_bitmap t) (active_bitmap t) (tx_new_page_end t)))) (\<lambda>_.
     or_fail fail_before_superblock
       (on_tx_cache (hash_pages ops (tx_candidate t) commit_hash_new (allocated_since (tx_next_bitmap t) (active_bitmap t) (tx_new_page_end t)))) (\<lambda>h.
     or_fail fail_before_superblock
       (lift_op (encode_superblock_page ((pm_superblock pm)\<lparr>sb_commit_hash := h\<rparr>) (pm_allocation_bitmap pm))) (\<lambda>sb.
     or_fail fail_before_superblock (on_tx_cache (write_chunks ops pm)) (\<lambda>_.
     or_fail fail_after_superblock
       (on_tx_cache (on_device (dev_write_page ops (slot_page_id (sb_slot (pm_superblock pm))) sb))) (\<lambda>_.
     or_fail fail_after_superblock (on_tx_cache (flush_device ops)) (\<lambda>_.
     or_fail fail_after_superblock
       (on_tx_cache (install_candidate ops (tx_candidate t) (active_bitmap t) (pm_allocation_bitmap pm))) (\<lambda>_ t.
       (Inr (), t\<lparr>tx_pager := (tx_pager t)\<lparr>pgr_active :=
                    \<lparr>rm_superblock = (pm_superblock pm)\<lparr>sb_commit_hash := h\<rparr>, rm_allocation_bitmap = pm_allocation_bitmap pm\<rparr>\<rparr>,
                  tx_finished := True\<rparr>)))))))) (set_tx_cache (tx_cache t) t))"
proof -
  let ?Q = "commit_outcome valid contents t revision hash catalog"
  let ?news = "allocated_since (tx_next_bitmap t) (active_bitmap t) (tx_new_page_end t)"
  note st0 = staged_refl [OF ok]
  note news = new_page_set [OF ok]
  note before = fails_before [OF ok, where revision = revision and hash = hash and catalog = catalog]
  show ?thesis
  proof (rule or_fail_cache, goal_cases)
    case (1 e c1)
    show ?case by (rule before [OF stage_write(1) [OF ok st0 news(2) 1]])
  next
    case (2 u1 c1)
    note st1 = stage_write [OF ok st0 news(2) 2]
    have cl1: "cleaned t c1" using st1(2) news(1) by simp
    have c1: "cache_ok valid contents c1" "pc_reservations c1 = pc_reservations (tx_cache t)"
      using st1(1) by (simp_all add: staged_def)
    have ready: "\<forall>pid \<in> set ?news. readable (pc_reservations c1) (Candidate (tx_candidate t), pid) \<and>
        (\<forall>i. pc_lookup c1 (Candidate (tx_candidate t), pid) = Some i \<longrightarrow> \<not> ce_dirty (pc_entries c1 ! i))"
      using rd cl1 news(1) c1(2) by (simp add: cleaned_def)
    note hp = hash_pages_ok [OF c1(1) ready]
    show ?case
    proof (rule or_fail_cache, goal_cases)
      case (1 e c2)
      from hp [OF 1] st1(1) show ?case by (auto intro: before stage_same [OF ok])
    next
      case (2 h c2)
      from hp [OF 2] obtain d2 where d2: "c2 = c1\<lparr>pc_device := d2\<rparr>" "valid d2" "contents d2 = contents (pc_device c1)"
        "h = pages_hash (contents d2) ?news commit_hash_new" by auto
      have st2: "staged valid contents t c2" and cl2: "cleaned t c2"
        using stage_same [OF ok st1(1) d2(2,3)] cleaned_cong [OF cl1, of c2] by (simp_all add: d2(1))
      show ?case
      proof (rule or_fail_lift, goal_cases)
        case (1 e)
        show ?case by (rule before [OF st2])
      next
        case (2 sb)
        show ?case
        proof (rule or_fail_cache, goal_cases)
          case (1 e c3)
          show ?case by (rule before [OF stage_chunks(1) [OF ok st2 build 1]])
        next
          case (2 u3 c3)
          note ch = stage_chunks [OF ok st2 build 2]
          show ?case
          proof (rule publish_ok [OF ok ch(1) cleaned_cong [OF cl2 ch(2,3)] rd build \<open>_ = Inr sb\<close>])
            show "contents (pc_device c3) ! i = w" if "(i, w) \<in> set (chunk_writes_of pm)" for i w
              using ch(5) that by simp
            show "h = pages_hash (contents (pc_device c3)) ?news commit_hash_new"
              unfolding d2(4) using ch(4) staged_new_page [OF ok st2 cl2 rd] news(1)
              by (intro pages_hash_cong [symmetric]) (simp add: d2(1))
          qed
        qed
      qed
    qed
  qed
qed

lemma commit_transaction_ok:
  assumes ok: "tx_ok valid contents t"
  shows "commit_outcome valid contents t revision hash catalog (commit_transaction ops revision hash catalog t)"
proof -
  let ?Q = "commit_outcome valid contents t revision hash catalog"
  have self: "set_tx_cache (tx_cache t) t = t" by (simp add: set_tx_cache_def tx_cache_def)
  have early: "?Q (fail_before_superblock e t)" for e
    using fails_before [OF ok staged_refl [OF ok], of revision hash catalog] by (simp add: self)
  show ?thesis
  proof (cases "ensure_open t")
    case (Inl e)
    have "drop_transaction t = drop_transaction (finish t)"
      using abort_ok(5) [OF ok] by (simp add: abort_def)
    then have "?Q (Inl e, t) = ?Q (fail_before_superblock e t)"
      by (simp only: commit_outcome_def fail_before_superblock_def prod.case)
    with Inl early show ?thesis by (simp add: commit_transaction_def)
  next
    case (Inr u)
    show ?thesis
      unfolding commit_transaction_def Inr bind_lift_Inr Let_def
    proof (rule or_fail_lift, goal_cases)
      case (2 v)
      show ?case
      proof (split if_split, intro conjI impI, goal_cases)
        case 2
        then have rd: "readable (pc_reservations (tx_cache t)) (Candidate (tx_candidate t), pid)" if "is_new t pid" for pid
          using that new_page_set(1) [OF ok]
          by (auto simp: filter_empty_conv candidate_page_written_def get_reservation_def split: option.splits)
        show ?case
        proof (rule or_fail_lift, goal_cases)
          case (2 pm)
          from prepare_ok [OF ok _ 2] rd show ?case by (simp add: self)
        qed (rule early)
      qed (rule early)
    qed (rule early)
  qed
qed

end

end
