(* ===== verification/Session.thy ===== *)
theory Session
  imports PagerCommit
begin

text \<open>
  A pager over its life: the steps a transaction can take in any order, the transactions and reads a pager goes
  through, and what holds in every state they reach.  A transaction's steps never disturb the committed pages; ending it
  gives a pager in order; and a commit that was reported is the one a later opening of the device finds.
\<close>

section \<open>Reading a pager\<close>

text \<open>Reading in place, the path without the repeated checks, does what the checked read does.\<close>

lemma read_in_place_eq:
  assumes ok: "cache_ok valid contents (pgr_cache p)"
  shows "read_page_in_place ops pid p = read_page_checked ops pid p"
proof (cases "\<not> pgr_recovery_required p \<and> FIRST_DATA_PAGE_ID \<le> pid \<and> allocates (rm_allocation_bitmap (pgr_active p)) pid")
  case True
  show ?thesis
  proof (cases "cached_index (pgr_cache p) pid")
    case (Some i)
    then have i: "pc_reservations (pgr_cache p) = []" "pc_lookup (pgr_cache p) (Committed, pid) = Some i"
      "i < length (pc_entries (pgr_cache p))"
      by (auto simp: cached_index_def split: if_splits option.splits)
    then have e: "length (ce_bytes (pc_entries (pgr_cache p) ! i)) = 4096"
      using ok by (auto simp: cache_ok_def entry_ok_def dest: nth_mem)
    have pid: "pid < 65536" using True by (simp add: allocates_def)
    have "read_page_checked ops pid p =
        (decode_verified (ce_bytes (pc_entries (pgr_cache p) ! i)),
         p\<lparr>pgr_cache := set_entry i ((pc_entries (pgr_cache p) ! i)\<lparr>ce_referenced := True\<rparr>) (pgr_cache p)\<rparr>)"
      using True pid i
      by (simp add: read_page_checked_def ensure_usable_def ensure_data_page_def is_allocated_ok on_cache_def
          read_page_verified_def ensure_not_reserved_def get_reservation_def read_owned_def Let_def
          decode_verified_page_def)
    with True Some show ?thesis
      by (simp add: read_page_in_place_def cached_page_def Let_def decode_whole_eq [OF e])
  qed (use True in \<open>simp add: read_page_in_place_def\<close>)
qed (auto simp: read_page_in_place_def)

context page_device
begin

lemma read_committed:
  assumes ok: "pager_ok valid contents p" and six: "6 \<le> pid"
    and s: "read_owned ops Committed pid verify (pgr_cache p) = (r, c')"
  shows "pager_ok valid contents (p\<lparr>pgr_cache := c'\<rparr>)" "keeps contents {} (pgr_cache p) c'"
    "r = Inr bs \<Longrightarrow> \<exists>v. pager_value contents p pid = Some v \<and> decode_verified v = decode_verified bs"
proof -
  have c: "cache_ok valid contents (pgr_cache p)" "pc_reservations (pgr_cache p) = []" "data_only (pgr_cache p)"
    using ok by (simp_all add: pager_ok_def)
  then have rd: "readable (pc_reservations (pgr_cache p)) (Committed, pid)" by (simp add: reserved_def)
  note ro = read_owned_ok [OF c(1) rd s]
  show "keeps contents {} (pgr_cache p) c'" by (rule ro(2))
  have touch: "only_touches {length (pager_pages contents p)..} (pager_pages contents p) (contents (pc_device c'))"
    and rs: "pc_reservations c' = []"
    using ro(2) c(2) by (simp_all add: keeps_def reserved_def pager_pages_def)
  have "root_served (contents (pc_device c')) (pgr_active p)" if "root_served (pager_pages contents p) (pgr_active p)"
    by (rule root_served_touches [OF that touch]) (use that in \<open>simp add: root_served_def\<close>)
  with covered_touches [OF _ touch] ok show "pager_ok valid contents (p\<lparr>pgr_cache := c'\<rparr>)"
    using ro(1) rs data_only_insert [OF c(3) read_owned_dom [OF s] six] by (simp add: pager_ok_def pager_pages_def)
  show "\<exists>v. pager_value contents p pid = Some v \<and> decode_verified v = decode_verified bs" if "r = Inr bs"
  proof -
    from ro(3) [OF that] obtain v where v: "page_value (contents (pc_device (pgr_cache p))) (pgr_cache p) (Committed, pid) = Some v"
        "v = bs \<or> v = seal bs" by blast
    have "length bs = 4096"
      using page_value_length [OF c(1) v(1)] v(2) by (auto simp: seal_def put_def min_def split: if_splits)
    with v seal_decode show ?thesis by (auto simp: pager_value_def pager_pages_def)
  qed
qed

lemma read_page_ok:
  assumes ok: "pager_ok valid contents p" and rd: "read_page_checked ops pid p = (r, p')"
  shows "pager_ok valid contents p'" "pgr_active p' = pgr_active p"
    "only_touches {length (pager_pages contents p)..} (pager_pages contents p) (pager_pages contents p')"
    "pager_value contents p q = Some v \<Longrightarrow> pager_value contents p' q = Some v"
    "r = Inr page \<Longrightarrow> \<not> pgr_recovery_required p \<and> allocates (rm_allocation_bitmap (pgr_active p)) pid \<and>
       (\<exists>v. pager_value contents p pid = Some v \<and> decode_verified v = Inr page)"
proof -
  have res: "pc_reservations (pgr_cache p) = []" using ok by (simp add: pager_ok_def)
  consider (same) e where "r = Inl e" "p' = p"
    | (got) r1 c1 where "6 \<le> pid" "allocates (rm_allocation_bitmap (pgr_active p)) pid" "\<not> pgr_recovery_required p"
      "read_owned ops Committed pid (verify_expected_page pid) (pgr_cache p) = (r1, c1)"
      "p' = p\<lparr>pgr_cache := c1\<rparr>" "r = and_then r1 decode_verified"
  proof (cases "\<not> pgr_recovery_required p \<and> 6 \<le> pid \<and> pid < 65536 \<and> allocates (rm_allocation_bitmap (pgr_active p)) pid")
    case False
    then have "\<exists>e. r = Inl e \<and> p' = p"
      using rd by (auto simp: read_page_checked_def ensure_usable_def ensure_data_page_def is_allocated_ok bind_lift_eq
          split: if_splits)
    then show thesis using same by blast
  next
    case True
    obtain r1 c1 where s: "read_owned ops Committed pid (verify_expected_page pid) (pgr_cache p) = (r1, c1)"
      by (cases "read_owned ops Committed pid (verify_expected_page pid) (pgr_cache p)")
    have "read_page_verified ops pid (verify_expected_page pid) (pgr_cache p) = (r1, c1)"
      using s res by (simp add: read_page_verified_def ensure_not_reserved_def get_reservation_def)
    then have "read_page_checked ops pid p = (and_then r1 decode_verified, p\<lparr>pgr_cache := c1\<rparr>)"
      using True by (cases r1) (simp_all add: read_page_checked_def ensure_usable_def ensure_data_page_def
          is_allocated_ok on_cache_def decode_verified_page_def bind_op_def)
    then show thesis using rd True s by (intro got) auto
  qed
  then have "pager_ok valid contents p' \<and> pgr_active p' = pgr_active p \<and>
    only_touches {length (pager_pages contents p)..} (pager_pages contents p) (pager_pages contents p') \<and>
    (\<forall>q v. pager_value contents p q = Some v \<longrightarrow> pager_value contents p' q = Some v) \<and>
    (\<forall>page. r = Inr page \<longrightarrow> \<not> pgr_recovery_required p \<and> allocates (rm_allocation_bitmap (pgr_active p)) pid \<and>
       (\<exists>v. pager_value contents p pid = Some v \<and> decode_verified v = Inr page))"
  proof cases
    case got
    note rc = read_committed [OF ok got(1,4)]
    have "\<forall>q v. pager_value contents p q = Some v \<longrightarrow> pager_value contents p' q = Some v"
      using rc(2) res by (auto simp: keeps_def values_kept_def pager_value_def pager_pages_def got(5) reserved_def)
    moreover have "only_touches {length (pager_pages contents p)..} (pager_pages contents p) (pager_pages contents p')"
      using rc(2) res by (simp add: keeps_def pager_pages_def got(5) reserved_def)
    ultimately show ?thesis
      using rc(1,3) got by (cases r1) auto
  qed (use ok in auto)
  then show "pager_ok valid contents p'" "pgr_active p' = pgr_active p"
    "only_touches {length (pager_pages contents p)..} (pager_pages contents p) (pager_pages contents p')"
    "pager_value contents p q = Some v \<Longrightarrow> pager_value contents p' q = Some v"
    "r = Inr page \<Longrightarrow> \<not> pgr_recovery_required p \<and> allocates (rm_allocation_bitmap (pgr_active p)) pid \<and>
       (\<exists>v. pager_value contents p pid = Some v \<and> decode_verified v = Inr page)"
    by blast+
qed

end

text \<open>A pager that requires recovery refuses to read or to begin a transaction.\<close>

lemma poisoned:
  assumes "pgr_recovery_required p"
  shows "read_page_checked ops pid p = (Inl RECOVERY_REQUIRED, p)" "read_page_in_place ops pid p = (Inl RECOVERY_REQUIRED, p)"
    "begin_write p = Inl RECOVERY_REQUIRED"
  using assms by (simp_all add: read_page_in_place_def read_page_checked_def begin_write_def ensure_usable_def)

section \<open>The steps of a transaction\<close>

inductive tx_step :: "'d page_device_ops \<Rightarrow> 'd write_transaction \<Rightarrow> 'd write_transaction \<Rightarrow> bool"
  for ops :: "'d page_device_ops" where
  allocates: "allocate_page ops t = (r, t') \<Longrightarrow> tx_step ops t t'"
| writes: "write_new_page ops page t = (r', t') \<Longrightarrow> tx_step ops t t'"
| reads: "tx_read_page_in_place ops pid t = (r'', t') \<Longrightarrow> tx_step ops t t'"
| frees: "free_shared_page pid t = (r', t') \<Longrightarrow> tx_step ops t t'"
| releases: "release_new_page pid t = (r', t') \<Longrightarrow> tx_step ops t t'"
| mutates: "mark_btree_mutated tree t = (r', t') \<Longrightarrow> tx_step ops t t'"
| fails: "tx_step ops t (mark_failed t)"

text \<open>Every page the transaction wrote carries its own number and a good checksum.\<close>

definition tx_verified :: "('d \<Rightarrow> bytes list) \<Rightarrow> 'd write_transaction \<Rightarrow> bool" where
  "tx_verified contents t \<longleftrightarrow>
     (\<forall>pid v. readable (pc_reservations (tx_cache t)) (Candidate (tx_candidate t), pid) \<longrightarrow>
        page_value (contents (pc_device (tx_cache t))) (tx_cache t) (Candidate (tx_candidate t), pid) = Some v \<longrightarrow>
        verify_expected_page pid v = Inr ())"

text \<open>What a transaction has left alone since \<^term>\<open>t0\<close>.\<close>

definition tx_since :: "('d \<Rightarrow> bytes list) \<Rightarrow> 'd write_transaction \<Rightarrow> 'd write_transaction \<Rightarrow> bool" where
  "tx_since contents t0 t \<longleftrightarrow>
     pgr_active (tx_pager t) = pgr_active (tx_pager t0) \<and> tx_candidate t = tx_candidate t0 \<and>
     only_touches (unreached (active_bitmap t0)) (pager_pages contents (tx_pager t0)) (pager_pages contents (tx_pager t)) \<and>
     (\<forall>pid. allocates (active_bitmap t0) pid \<longrightarrow>
        page_value (pager_pages contents (tx_pager t)) (tx_cache t) (Committed, pid) =
        page_value (pager_pages contents (tx_pager t0)) (tx_cache t0) (Committed, pid))"

lemma tx_since_refl: "tx_since contents t t" by (simp add: tx_since_def)

lemma tx_since_trans:
  "tx_since contents a b \<Longrightarrow> tx_since contents b c \<Longrightarrow> tx_since contents a c"
  by (auto simp: tx_since_def active_bitmap_def intro: only_touches_trans)

lemma frame_since:
  assumes ok: "tx_ok valid contents t" and fr: "tx_frame contents K t t'" and K: "\<And>k. k \<in> K \<Longrightarrow> fst k \<noteq> Committed"
  shows "tx_since contents t t'"
proof -
  have "page_value (pager_pages contents (tx_pager t')) (tx_cache t') (Committed, pid) =
      page_value (pager_pages contents (tx_pager t)) (tx_cache t) (Committed, pid)" if a: "allocates (active_bitmap t) pid" for pid
  proof -
    have "pid < length (contents (pc_device (tx_cache t)))"
      using ok a by (auto simp: tx_ok_def covered_def pager_pages_cache)
    then obtain v where v: "page_value (contents (pc_device (tx_cache t))) (tx_cache t) (Committed, pid) = Some v"
      by (cases "pc_lookup (tx_cache t) (Committed, pid)") (simp_all add: page_value_def)
    have "readable (pc_reservations (tx_cache t)) (Committed, pid)" using ok a by (auto simp: tx_ok_def is_new_def)
    moreover have "(Committed, pid) \<notin> K" using K [of "(Committed, pid)"] by auto
    ultimately show ?thesis
      using fr v unfolding tx_frame_def values_kept_def pager_pages_cache by simp
  qed
  with fr show ?thesis by (simp add: tx_since_def tx_frame_def)
qed

lemma tx_verified_step:
  assumes ok: "tx_ok valid contents t" and ver: "tx_verified contents t" and fr: "tx_frame contents K t t'"
    and old: "\<And>pid. readable (pc_reservations (tx_cache t')) (Candidate (tx_candidate t), pid) \<Longrightarrow>
      (Candidate (tx_candidate t), pid) \<in> K \<or> readable (pc_reservations (tx_cache t)) (Candidate (tx_candidate t), pid)"
    and new: "\<And>pid v. (Candidate (tx_candidate t), pid) \<in> K \<Longrightarrow>
      readable (pc_reservations (tx_cache t')) (Candidate (tx_candidate t), pid) \<Longrightarrow>
      page_value (contents (pc_device (tx_cache t'))) (tx_cache t') (Candidate (tx_candidate t), pid) = Some v \<Longrightarrow>
      verify_expected_page pid v = Inr ()"
  shows "tx_verified contents t'"
  unfolding tx_verified_def
proof (intro allI impI)
  fix pid :: nat and v
  let ?k = "(Candidate (tx_candidate t), pid)"
  have same: "tx_candidate t' = tx_candidate t" using fr by (simp add: tx_frame_def)
  assume "readable (pc_reservations (tx_cache t')) (Candidate (tx_candidate t'), pid)"
    and "page_value (contents (pc_device (tx_cache t'))) (tx_cache t') (Candidate (tx_candidate t'), pid) = Some v"
  then have rd: "readable (pc_reservations (tx_cache t')) ?k"
    and v: "page_value (contents (pc_device (tx_cache t'))) (tx_cache t') ?k = Some v" by (simp_all only: same)
  show "verify_expected_page pid v = Inr ()"
  proof (cases "?k \<in> K")
    case True
    then show ?thesis by (rule new [OF _ rd v])
  next
    case False
    with old [OF rd] have rd0: "readable (pc_reservations (tx_cache t)) ?k" by blast
    obtain w where w: "page_value (contents (pc_device (tx_cache t))) (tx_cache t) ?k = Some w"
    proof -
      have "written_present (contents (pc_device (tx_cache t))) (pc_reservations (tx_cache t)) (pc_lookup (tx_cache t))"
        using ok by (simp add: tx_ok_def cache_ok_def)
      with rd0 that show thesis
        by (cases "pc_lookup (tx_cache t) ?k") (auto simp: written_present_def page_value_def)
    qed
    then have "v = w" using fr False rd0 v unfolding tx_frame_def values_kept_def by fastforce
    then show ?thesis using ver rd0 w unfolding tx_verified_def by blast
  qed
qed

lemma readable_map: "map_of rs' pid = map_of rs pid \<Longrightarrow> readable rs' (Candidate k, pid) = readable rs (Candidate k, pid)"
  by simp

lemma encoded_page_verifies: "page_encode page = Inr bs \<Longrightarrow> verify_expected_page (pg_id page) bs = Inr ()"
  using page_encode_ok [of page bs] by (simp add: verify_expected_page_def)

section \<open>Reservations along a transaction\<close>

definition keeps_reservations :: "('d page_cache, 'a) op \<Rightarrow> bool" where
  "keeps_reservations m \<longleftrightarrow> (\<forall>c. pc_reservations (snd (m c)) = pc_reservations c)"

lemma keeps_reservations_op [simp]:
  "keeps_reservations (on_device m)" "keeps_reservations (return_op x)" "keeps_reservations (lift_op r')"
  "keeps_reservations (fail_op e)"
  by (simp_all add: keeps_reservations_def on_device_def split: prod.splits)

lemma keeps_reservations_bind:
  "keeps_reservations m \<Longrightarrow> (\<And>x. keeps_reservations (f x)) \<Longrightarrow> keeps_reservations (bind_op m f)"
  unfolding keeps_reservations_def bind_op_def by (auto split: prod.splits sum.splits) (metis snd_conv)+

lemma keeps_reservations_for: "(\<And>x. keeps_reservations (f x)) \<Longrightarrow> keeps_reservations (for_op xs f)"
  by (induction xs) (simp_all add: keeps_reservations_bind)

lemma keeps_reservations_write_entry: "keeps_reservations (write_entry ops i)"
proof -
  have "keeps_reservations (write_placeholders ops pid)" for pid
  proof -
    have "keeps_reservations (for_op xs (\<lambda>q. on_device (dev_write_page ops q (replicate PAGE_SIZE 0))))" for xs
      by (rule keeps_reservations_for) simp
    then show ?thesis by (simp add: keeps_reservations_def write_placeholders_def)
  qed
  moreover have "keeps_reservations (\<lambda>c. (Inr (), mark_clean i c))"
    by (simp add: keeps_reservations_def mark_clean_def Let_def push_unflushed_def)
  ultimately have "keeps_reservations (bind_op (write_placeholders ops pid) (\<lambda>_.
      bind_op (on_device (dev_write_page ops pid bs)) (\<lambda>_ c. (Inr (), mark_clean i c))))" for pid bs
    by (intro keeps_reservations_bind) simp_all
  then show ?thesis by (simp add: keeps_reservations_def write_entry_def Let_def)
qed

lemma victim_reservations: "pc_reservations (snd (find_victim_loop ops n c)) = pc_reservations c"
proof (induction n arbitrary: c)
  case (Suc n)
  have "keeps_reservations (bind_op (write_entry ops i) (\<lambda>_. return_op i))" for i
    by (rule keeps_reservations_bind) (simp_all add: keeps_reservations_write_entry)
  with Suc show ?case by (simp add: Let_def keeps_reservations_def)
qed simp

lemma insert_reservations: "keeps_reservations (cache_insert ops e)"
proof -
  let ?store = "\<lambda>index c. let previous = pc_entries c ! index
        in (Inr index,
            c\<lparr>pc_lookup := ((pc_lookup c)(entry_key previous := None))(entry_key e \<mapsto> index),
              pc_entries := (pc_entries c)[index := e],
              pc_hand := (index + 1) mod length (pc_entries c)\<rparr>)"
  have "keeps_reservations (bind_op (find_victim ops) ?store)"
    by (rule keeps_reservations_bind)
      (simp_all add: keeps_reservations_def find_victim_def victim_reservations Let_def)
  then show ?thesis by (simp add: keeps_reservations_def cache_insert_def Let_def)
qed

lemma read_owned_reservations:
  assumes "read_owned ops own pid verify c = (r, c')"
  shows "pc_reservations c' = pc_reservations c"
proof -
  let ?e = "\<lambda>bs. \<lparr>ce_id = pid, ce_owner = own, ce_bytes = bs, ce_referenced = True, ce_dirty = False, ce_unsealed = False\<rparr>"
  have "keeps_reservations (\<lambda>c. (Inr (ce_bytes (pc_entries c ! index)), c))" for index
    by (simp add: keeps_reservations_def)
  then have "keeps_reservations (bind_op (on_device (dev_read_page ops pid)) (\<lambda>bs.
      bind_op (lift_op (verify bs)) (\<lambda>_.
      bind_op (cache_insert ops (?e bs)) (\<lambda>index c. (Inr (ce_bytes (pc_entries c ! index)), c)))))"
    by (intro keeps_reservations_bind) (simp_all add: insert_reservations)
  then have "pc_reservations (snd (read_owned ops own pid verify c)) = pc_reservations c"
    by (simp add: keeps_reservations_def read_owned_def Let_def split: option.split)
  with assms show ?thesis by simp
qed

lemma write_owned_reservations:
  assumes "write_owned ops own pid bs unsealed c = (r, c')"
  shows "pc_reservations c' = pc_reservations c"
proof -
  have "keeps_reservations (bind_op (cache_insert ops e) (\<lambda>_. return_op ()))" for e
    by (rule keeps_reservations_bind) (simp_all add: insert_reservations)
  then have "pc_reservations (snd (write_owned ops own pid bs unsealed c)) = pc_reservations c"
    by (simp add: keeps_reservations_def write_owned_def split: option.split)
  with assms show ?thesis by simp
qed

text \<open>Only a write makes a page readable to its candidate.\<close>

lemma allocate_readable:
  assumes "allocate_page ops t = (r, t')"
    "readable (pc_reservations (tx_cache t')) (Candidate k, q)"
  shows "readable (pc_reservations (tx_cache t)) (Candidate k, q)"
proof -
  have "readable (pc_reservations c) (Candidate k, q)"
    if "reserve_candidate_page j pid b c = (r1, c1)" "readable (pc_reservations c1) (Candidate k, q)"
    for j pid b c r1 and c1 :: "'a page_cache"
    using that
    by (auto simp: reserve_candidate_page_def bind_lift_eq get_reservation_def split: if_splits option.splits)
  moreover have "tx_cache t' = tx_cache t \<or>
      (\<exists>pid b r1. reserve_candidate_page (tx_candidate t) pid b (tx_cache t) = (r1, tx_cache t'))"
  proof -
    let ?next = "\<lambda>pid. if pid + 1 = MAX_PAGE_COUNT then FIRST_DATA_PAGE_ID else pid + 1"
    let ?rest = "\<lambda>pid t. bind_op (on_tx_cache (reserve_candidate_page (tx_candidate t) pid (active_bitmap t))) (\<lambda>_.
          bind_op (set_next_allocated pid True) (\<lambda>_ t. (Inr pid, t\<lparr>tx_new_page_end := max (tx_new_page_end t) (pid + 1)\<rparr>))) t"
    from assms(1) consider "t' = t" | pid where "t' = t\<lparr>tx_next_allocation_page_id := ?next pid\<rparr>"
      | pid where "?rest pid (t\<lparr>tx_next_allocation_page_id := ?next pid\<rparr>) = (r, t')"
      unfolding allocate_page_def bind_lift_eq Let_def by (metis (no_types, lifting) prod.inject)
    then show ?thesis
    proof cases
      case (3 pid)
      let ?t = "t\<lparr>tx_next_allocation_page_id := ?next pid\<rparr>"
      obtain r1 c1 where rs: "reserve_candidate_page (tx_candidate t) pid (active_bitmap t) (tx_cache t) = (r1, c1)"
        by (cases "reserve_candidate_page (tx_candidate t) pid (active_bitmap t) (tx_cache t)")
      have "on_tx_cache (reserve_candidate_page (tx_candidate ?t) pid (active_bitmap ?t)) ?t = (r1, set_tx_cache c1 ?t)"
        using rs unfolding on_tx_cache_def by (simp split del: if_split)
      with 3 have "tx_cache t' = c1"
        by (cases r1) (auto simp: bind_op_def set_next_allocated_def set_tx_cache_def tx_cache_def split del: if_split split: sum.splits)
      with rs show ?thesis by blast
    qed (simp_all split del: if_split)
  qed
  ultimately show ?thesis using assms(2) by metis
qed

lemma read_cache_of:
  assumes "tx_read_page_in_place ops pid t = (r, t')"
  shows "pc_reservations (tx_cache t') = pc_reservations (tx_cache t)"
proof -
  have inner: "pc_reservations (tx_cache t1) = pc_reservations (tx_cache t)"
    if "m = read_candidate_page_verified ops k pid vf \<or> m = read_page_verified ops pid vf" "on_tx_cache m t = (r1, t1)"
    for m k vf r1 t1
    using that
    by (auto simp: on_tx_cache_def read_candidate_page_verified_def read_page_verified_def bind_op_def
        dest: read_owned_reservations split: prod.splits sum.splits option.splits if_splits)
  from assms show ?thesis
    unfolding tx_read_page_in_place_def bind_lift_eq
    by (auto simp: bind_op_eq split: if_split_asm dest: inner [OF disjI1 [OF refl]] inner [OF disjI2 [OF refl]])
qed

lemma write_new_cases:
  assumes "write_new_page ops page t = (r, t')"
  obtains "t' = t" "\<not> is_ok r"
    | bs c where "is_new t (pg_id page)" "write_candidate ops (tx_candidate t) (pg_id page) bs True (tx_cache t) = (r, c)"
      "t' = set_tx_cache c t"
proof -
  from assms have "t' = t \<and> \<not> is_ok r \<or> is_new t (pg_id page) \<and> (\<exists>bs.
      on_tx_cache (write_unsealed_candidate_page ops (tx_candidate t) (pg_id page) bs) t = (r, t'))"
    unfolding write_new_page_def bind_lift_eq by (auto simp: bind_lift_eq split: if_split_asm)
  then show thesis
  proof (elim disjE conjE exE)
    fix bs
    assume new: "is_new t (pg_id page)"
      and w: "on_tx_cache (write_unsealed_candidate_page ops (tx_candidate t) (pg_id page) bs) t = (r, t')"
    obtain r1 c1 where s: "write_candidate ops (tx_candidate t) (pg_id page) bs True (tx_cache t) = (r1, c1)"
      by (cases "write_candidate ops (tx_candidate t) (pg_id page) bs True (tx_cache t)")
    then have "r1 = r" "t' = set_tx_cache c1 t" using w by (simp_all add: on_tx_cache_def write_unsealed_candidate_page_def)
    with s new show thesis using that(2) by blast
  qed (use that(1) in blast)
qed

lemma release_readable:
  assumes ok: "tx_ok valid contents t" and rel: "release_new_page pid t = (r, t')"
    and rd: "readable (pc_reservations (tx_cache t')) (Candidate k, q)"
  shows "readable (pc_reservations (tx_cache t)) (Candidate k, q)"
proof -
  have cok: "cache_ok valid contents (tx_cache t)" using ok by (simp add: tx_ok_def)
  obtain r1 c1 where s: "release_candidate_page (tx_candidate t) pid (tx_cache t) = (r1, c1)"
    by (cases "release_candidate_page (tx_candidate t) pid (tx_cache t)")
  note rc = release_candidate_page_ok [OF cok s]
  have c1: "map_of (pc_reservations c1) q = (if is_ok r1 \<and> q = pid then None else map_of (pc_reservations (tx_cache t)) q)"
    using rc(4,5) by (cases r1) (simp_all add: map_of_drop)
  from rel have "t' = t \<or> bind_op (on_tx_cache (release_candidate_page (tx_candidate t) pid)) (\<lambda>_.
      bind_op (set_next_allocated pid False) (\<lambda>_ t.
        (Inr (), t\<lparr>tx_next_allocation_page_id := min (tx_next_allocation_page_id t) pid\<rparr>))) t = (r, t')"
    unfolding release_new_page_def bind_lift_eq by (auto split: if_split_asm)
  then have "tx_cache t' = tx_cache t \<or> tx_cache t' = c1"
    using s by (cases r1) (auto simp: on_tx_cache_def bind_op_def set_next_allocated_def set_tx_cache_def tx_cache_def
        split: sum.splits)
  with c1 rd show ?thesis by (auto split: if_splits)
qed

context page_device
begin

lemma write_verified:
  assumes ok: "tx_ok valid contents t" and ver: "tx_verified contents t" and w: "write_new_page ops page t = (r, t')"
  shows "tx_verified contents t'"
  using w
proof (cases rule: write_new_cases)
  case (2 bs c)
  note wn = write_new_page_ok [OF ok w]
  have cok: "cache_ok valid contents (tx_cache t)" using ok by (simp add: tx_ok_def)
  note wc = write_candidate_ok [OF cok 2(2)]
  show ?thesis
  proof (cases r)
    case (Inl e)
    have k: "keeps contents {} (tx_cache t) c" using wc(6) [OF Inl] .
    have fr: "tx_frame contents {} t t'"
      using wn(2) k by (simp add: tx_frame_def keeps_def 2(3))
    show ?thesis by (rule tx_verified_step [OF ok ver fr]) (use k in \<open>simp_all add: 2(3) keeps_def\<close>)
  next
    case (Inr u)
    from write_candidate_cases [OF 2(2)] obtain r1 c1 where
      "c = tx_cache t \<or> write_owned ops (Candidate (tx_candidate t)) (pg_id page) bs True (tx_cache t) = (r1, c1) \<and>
        (c = c1 \<or> c = set_written (pg_id page) c1)" by metis
    then have rs: "map_of (pc_reservations c) q = map_of (pc_reservations (tx_cache t)) q" if "q \<noteq> pg_id page" for q
      using that by (auto simp: set_written_def map_of_set_written dest: write_owned_reservations)
    show ?thesis
    proof (rule tx_verified_step [OF ok ver wn(2)])
      fix q
      assume "readable (pc_reservations (tx_cache t')) (Candidate (tx_candidate t), q)"
      then show "(Candidate (tx_candidate t), q) \<in> {(Candidate (tx_candidate t), pg_id page)} \<or>
          readable (pc_reservations (tx_cache t)) (Candidate (tx_candidate t), q)"
        using rs [of q] by (cases "q = pg_id page") (auto simp: 2(3))
    next
      fix q v
      assume "(Candidate (tx_candidate t), q) \<in> {(Candidate (tx_candidate t), pg_id page)}"
        and v: "page_value (contents (pc_device (tx_cache t'))) (tx_cache t') (Candidate (tx_candidate t), q) = Some v"
      then have q: "q = pg_id page" by simp
      from wn(4) [OF Inr] obtain bs' where bs': "page_encode page = Inr bs'" "tx_value contents t' (pg_id page) = Some bs'"
        by blast
      have "is_new t' (pg_id page)" using 2(1,3) by simp
      then have "v = bs'" using bs'(2) v by (simp add: tx_value_def tx_owner_def pager_pages_cache q 2(3))
      with encoded_page_verifies [OF bs'(1)] show "verify_expected_page q v = Inr ()" by (simp add: q)
    qed
  qed
qed (use ver in simp)

lemma tx_step_ok:
  assumes step: "tx_step ops t t'" and ok: "tx_ok valid contents t" and ver: "tx_verified contents t"
  shows "tx_ok valid contents t' \<and> tx_verified contents t' \<and> tx_since contents t t'"
  using step
proof cases
  case (allocates r)
  note al = allocate_page_ok [OF ok allocates]
  have "tx_verified contents t'"
    by (rule tx_verified_step [OF ok ver al(2)]) (use allocate_readable [OF allocates] in auto)
  with al(1) frame_since [OF ok al(2)] show ?thesis by simp
next
  case (writes page r)
  note wn = write_new_page_ok [OF ok writes]
  from wn(1) write_verified [OF ok ver writes] frame_since [OF ok wn(2)] show ?thesis by auto
next
  case (reads pid r)
  note rd = tx_read_ok [OF ok reads]
  have "tx_verified contents t'"
    by (rule tx_verified_step [OF ok ver rd(2)]) (use read_cache_of [OF reads] in auto)
  with rd(1) frame_since [OF ok rd(2)] show ?thesis by simp
next
  case (frees pid r)
  note fr = free_shared_ok [OF ok frees]
  have "tx_cache t' = tx_cache t"
    using frees by (auto simp: free_shared_page_def bind_lift_eq set_next_allocated_def tx_cache_def split: if_splits sum.splits)
  then have "tx_verified contents t'" by (intro tx_verified_step [OF ok ver fr(2)]) auto
  with fr(1) frame_since [OF ok fr(2)] show ?thesis by simp
next
  case (releases pid r)
  note rl = release_new_ok [OF ok releases]
  have "tx_verified contents t'"
  proof (cases r)
    case (Inl e)
    then show ?thesis using rl(4) ver by simp
  next
    case (Inr u)
    have "\<not> is_new t' pid" using rl(3) [OF Inr] by (simp add: is_new_def)
    then have gone: "pid \<notin> reserved (pc_reservations (tx_cache t'))" using rl(1) by (simp add: tx_ok_def)
    then have "\<not> readable (pc_reservations (tx_cache t')) (Candidate k, pid)" for k
      by (auto simp: reserved_def dest: map_of_SomeD intro: image_eqI [where x = "(pid, _)"])
    with release_readable [OF ok releases] show ?thesis by (intro tx_verified_step [OF ok ver rl(2)]) blast+
  qed
  with rl(1) frame_since [OF ok rl(2)] show ?thesis by auto
next
  case (mutates tree r)
  have f: "tx_pager t' = tx_pager t" "tx_candidate t' = tx_candidate t" "tx_next_bitmap t' = tx_next_bitmap t"
    "tx_new_page_end t' = tx_new_page_end t" "tx_finished t' = tx_finished t"
    using mutates by (auto simp: mark_btree_mutated_def bind_lift_eq Let_def split: option.splits)
  have "tx_cache t' = tx_cache t" "active_bitmap t' = active_bitmap t" "is_new t' = is_new t"
    by (simp_all add: tx_cache_def active_bitmap_def is_new_def [abs_def] f)
  with ok ver f show ?thesis by (simp add: tx_ok_def tx_verified_def tx_since_def)
next
  case fails
  have "tx_cache t' = tx_cache t" "active_bitmap t' = active_bitmap t" "is_new t' = is_new t"
    by (simp_all add: tx_cache_def active_bitmap_def is_new_def [abs_def] mark_failed_def fails)
  with ok ver show ?thesis by (simp add: tx_ok_def tx_verified_def tx_since_def mark_failed_def fails)
qed

lemma tx_run_ok:
  assumes "(tx_step ops)\<^sup>*\<^sup>* t t'" "tx_ok valid contents t" "tx_verified contents t"
  shows "tx_ok valid contents t' \<and> tx_verified contents t' \<and> tx_since contents t t'"
  using assms
proof (induction rule: rtranclp_induct)
  case base
  then show ?case by (simp add: tx_since_refl)
next
  case (step t1 t2)
  with tx_step_ok [OF step.hyps(2)] show ?case by (blast intro: tx_since_trans)
qed

lemma begin_verified: "pager_ok valid contents p \<Longrightarrow> begin_write p = Inr t \<Longrightarrow> tx_verified contents t"
  by (auto simp: begin_write_def ensure_usable_def and_then_eq_Inr tx_verified_def pager_ok_def tx_cache_def split: if_splits)

lemma begin_pages:
  "begin_write p = Inr t \<Longrightarrow> pager_pages contents (tx_pager t) = pager_pages contents p \<and> pgr_active (tx_pager t) = pgr_active p
     \<and> tx_cache t = pgr_cache p"
  by (auto simp: begin_write_def ensure_usable_def and_then_eq_Inr pager_pages_def tx_cache_def split: if_splits)

lemma transaction_ok:
  assumes ok: "pager_ok valid contents p" and b: "begin_write p = Inr t0" and run: "(tx_step ops)\<^sup>*\<^sup>* t0 t"
  shows "tx_ok valid contents t" "tx_verified contents t" "pgr_active (tx_pager t) = pgr_active p"
    "only_touches (unreached (rm_allocation_bitmap (pgr_active p))) (pager_pages contents p) (pager_pages contents (tx_pager t))"
    "allocates (rm_allocation_bitmap (pgr_active p)) pid \<Longrightarrow>
       page_value (pager_pages contents (tx_pager t)) (tx_cache t) (Committed, pid) = pager_value contents p pid"
  using tx_run_ok [OF run begin_write_ok(1) [OF ok b] begin_verified [OF ok b]] begin_pages [OF b]
  by (auto simp: tx_since_def active_bitmap_def pager_value_def)

end

section \<open>A committed page is on the device\<close>

lemma committed_on_device:
  assumes ok: "cache_ok valid contents (pgr_cache p)" and pid: "pid < length (pager_pages contents p)"
  shows "pager_value contents p pid = Some (pager_pages contents p ! pid)"
proof (cases "pc_lookup (pgr_cache p) (Committed, pid)")
  case None
  with pid show ?thesis by (simp add: pager_value_def page_value_def)
next
  case (Some i)
  have i: "i < length (pc_entries (pgr_cache p))" "entry_key (pc_entries (pgr_cache p) ! i) = (Committed, pid)"
    using index_ok_lookup [OF _ Some] ok by (simp_all add: cache_ok_def)
  then have "entry_ok (pager_pages contents p) (pc_reservations (pgr_cache p)) (pc_entries (pgr_cache p) ! i)"
    using ok by (simp add: cache_ok_def pager_pages_def)
  with i Some show ?thesis
    by (auto simp: entry_ok_def entry_key_def pager_value_def page_value_def sealed_bytes_def)
qed

section \<open>Finding the committed root again\<close>

text \<open>The pages a root added to its predecessor are all in place, with the hash the root recorded.\<close>

definition commit_intact :: "bytes list \<Rightarrow> recovered_metadata \<Rightarrow> recovered_metadata \<Rightarrow> bool" where
  "commit_intact pages newest previous \<longleftrightarrow>
     (let news = pages_since newest previous data_page_ids
      in pages_verify pages news \<and> pages_hash pages news commit_hash_new = sb_commit_hash (rm_superblock newest))"

context page_device
begin

lemma recover_device_spec:
  assumes v: "valid d" and rec: "recover_device_metadata ops d = (Inr active, d')"
  shows "\<exists>newest previous. recover_metadata (take 6 (contents d)) = Inr (newest, previous) \<and>
    active = (case previous of Some old \<Rightarrow> if commit_intact (contents d) newest old then newest else old | None \<Rightarrow> newest)"
proof -
  have six: "6 \<le> length (contents d)" using rec v by (auto simp: recover_device_metadata_def count split: if_splits)
  let ?f = "\<lambda>(newest, previous). case previous of None \<Rightarrow> return_op newest
        | Some previous \<Rightarrow> bind_op (commit_is_durable ops newest previous)
            (\<lambda>durable. return_op (if \<not> durable then previous else newest))"
  have "bind_op (read_pages ops [0..<6]) (\<lambda>pages. bind_op (lift_op (recover_metadata pages)) ?f) d = (Inr active, d')"
    using rec v six by (simp add: recover_device_metadata_def count)
  then obtain pages d1 where s: "read_pages ops [0..<6] d = (Inr pages, d1)"
    and rest: "bind_op (lift_op (recover_metadata pages)) ?f d1 = (Inr active, d')"
    by (auto simp: bind_op_eq simp del: read_pages.simps)
  note rd = read_pages_ok [OF v s]
  have "map ((!) (contents d)) [0..<6] = take 6 (contents d)" using six by (intro nth_equalityI) simp_all
  then have pages: "pages = take 6 (contents d)" using rd by simp
  from rest obtain newest previous where r: "recover_metadata pages = Inr (newest, previous)"
    and f: "?f (newest, previous) d1 = (Inr active, d')" by (auto simp: bind_lift_eq)
  show ?thesis
  proof (cases previous)
    case None
    with r f pages show ?thesis by auto
  next
    case (Some old)
    with f obtain b d2 where "commit_is_durable ops newest old d1 = (Inr b, d2)" "active = (if \<not> b then old else newest)"
      by (auto simp: bind_op_eq)
    with commit_is_durable_ok [of d1 newest old "Inr b" d2] rd
    have "active = (if commit_intact (contents d) newest old then newest else old)"
      by (simp add: commit_intact_def commit_hash_new_def Let_def)
    with r Some pages show ?thesis by auto
  qed
qed

lemma commit_written:
  assumes ok: "tx_ok valid contents t" and c: "commit_transaction ops revision hash catalog t = (Inr u, t')" and new: "is_new t pid"
  shows "readable (pc_reservations (tx_cache t)) (Candidate (tx_candidate t), pid)"
proof -
  let ?news = "allocated_since (tx_next_bitmap t) (active_bitmap t) (tx_new_page_end t)"
  have "filter (\<lambda>pid. \<not> candidate_page_written (tx_cache t) (tx_candidate t) pid) ?news = []"
  proof (rule ccontr)
    assume "\<not> ?thesis"
    with c show False
      unfolding commit_transaction_def bind_lift_eq
      by (auto simp: or_fail_def fail_before_superblock_def Let_def split: sum.splits)
  qed
  then have "candidate_page_written (tx_cache t) (tx_candidate t) pid"
    using new_page_set(1) [OF ok] new by (simp add: filter_empty_conv)
  then show ?thesis by (auto simp: candidate_page_written_def get_reservation_def split: option.splits)
qed

lemma commit_is_intact:
  assumes ok: "tx_ok valid contents t" and ver: "tx_verified contents t"
    and c: "commit ops revision hash catalog t = (Inr u, p)"
  shows "commit_done valid contents t revision hash catalog p"
    "commit_intact (pager_pages contents p) (pgr_active p) (pgr_active (tx_pager t))"
proof -
  obtain t' where ct: "commit_transaction ops revision hash catalog t = (Inr u, t')" and p: "p = drop_transaction t'"
    using c by (auto simp: commit_def split: prod.splits)
  show cd: "commit_done valid contents t revision hash catalog p"
    using commit_transaction_ok [OF ok, of revision hash catalog] by (simp add: ct p commit_outcome_def)
  let ?pages = "pager_pages contents p"
  have "pid < length ?pages \<and> verify_expected_page pid (?pages ! pid) = Inr ()"
    if "pid \<in> set (pages_since (pgr_active p) (pgr_active (tx_pager t)) data_page_ids)" for pid
  proof -
    have nb: "rm_allocation_bitmap (pgr_active p) = tx_next_bitmap t" and pok: "pager_ok valid contents p"
      and val: "\<And>pid. 6 \<le> pid \<Longrightarrow> allocates (tx_next_bitmap t) pid \<Longrightarrow> pager_value contents p pid = tx_value contents t pid"
      and usable: "\<not> pgr_recovery_required p"
      using cd by (auto simp: commit_done_def Let_def)
    from that have new: "is_new t pid" using new_pages(1,3) [OF ok nb] by auto
    have six: "6 \<le> pid" by (rule new_page_data [OF ok new])
    have len: "pid < length ?pages"
      using pok usable new by (auto simp: pager_ok_def covered_def nb is_new_def)
    have cok: "cache_ok valid contents (pgr_cache p)" using pok by (simp add: pager_ok_def)
    have "tx_value contents t pid = Some (?pages ! pid)"
      using val [OF six] new committed_on_device [OF cok len] by (simp add: is_new_def)
    then have "page_value (contents (pc_device (tx_cache t))) (tx_cache t) (Candidate (tx_candidate t), pid) = Some (?pages ! pid)"
      using new by (simp add: tx_value_def tx_owner_def pager_pages_cache)
    with ver commit_written [OF ok ct new] len show ?thesis unfolding tx_verified_def by blast
  qed
  then have "pages_verify ?pages (pages_since (pgr_active p) (pgr_active (tx_pager t)) data_page_ids)"
    by (simp add: pages_verify_def list_all_iff)
  with cd show "commit_intact ?pages (pgr_active p) (pgr_active (tx_pager t))"
    by (simp add: commit_intact_def commit_done_def Let_def)
qed

lemma commit_reopens:
  assumes ok: "tx_ok valid contents t" and ver: "tx_verified contents t"
    and c: "commit ops revision hash catalog t = (Inr u, p)"
    and rec: "recover_device_metadata ops (pc_device (pgr_cache p)) = (Inr active, d')"
  shows "active = pgr_active p"
proof -
  note fin = commit_is_intact [OF ok ver c]
  have v: "valid (pc_device (pgr_cache p))"
    using fin(1) by (simp add: commit_done_def Let_def pager_ok_def cache_ok_def)
  have "recover_metadata (take 6 (contents (pc_device (pgr_cache p)))) = Inr (pgr_active p, Some (pgr_active (tx_pager t)))"
    using fin(1) by (simp add: commit_done_def Let_def pager_pages_def)
  with recover_device_spec [OF v rec] fin(2) show ?thesis by (simp add: pager_pages_def)
qed

end

section \<open>The life of a pager\<close>

inductive pager_step :: "'d page_device_ops \<Rightarrow> 'd pager \<Rightarrow> 'd pager \<Rightarrow> bool"
  for ops :: "'d page_device_ops" where
  reads_page: "read_page_in_place ops pid p = (r, p') \<Longrightarrow> pager_step ops p p'"
| aborts: "begin_write p = Inr t \<Longrightarrow> (tx_step ops)\<^sup>*\<^sup>* t t' \<Longrightarrow> pager_step ops p (abort t')"
| commits: "begin_write p = Inr t \<Longrightarrow> (tx_step ops)\<^sup>*\<^sup>* t t' \<Longrightarrow> commit ops revision hash catalog t' = (r', p')
    \<Longrightarrow> pager_step ops p p'"

context page_device
begin

lemma commit_ok:
  assumes ok: "tx_ok valid contents t" and c: "commit ops revision hash catalog t = (r, p)"
  shows "r = Inr u \<Longrightarrow> commit_done valid contents t revision hash catalog p"
    "r = Inl e \<Longrightarrow> commit_failed valid contents t p \<and> (pgr_recovery_required p \<longrightarrow> e = RECOVERY_REQUIRED)"
    "pager_ok valid contents p"
    "only_touches (spare_pages (pgr_active (tx_pager t))) (pager_pages contents (tx_pager t)) (pager_pages contents p)"
proof -
  obtain t' where t': "commit_transaction ops revision hash catalog t = (r, t')" "p = drop_transaction t'"
    using c by (auto simp: commit_def split: prod.splits)
  from commit_transaction_ok [OF ok, of revision hash catalog]
  have out: "case r of Inr _ \<Rightarrow> commit_done valid contents t revision hash catalog p
      | Inl e \<Rightarrow> commit_failed valid contents t p \<and> (pgr_recovery_required p \<longrightarrow> e = RECOVERY_REQUIRED)"
    unfolding t' commit_outcome_def Let_def by simp
  then show "r = Inr u \<Longrightarrow> commit_done valid contents t revision hash catalog p"
    "r = Inl e \<Longrightarrow> commit_failed valid contents t p \<and> (pgr_recovery_required p \<longrightarrow> e = RECOVERY_REQUIRED)" by simp_all
  from out show "pager_ok valid contents p"
    "only_touches (spare_pages (pgr_active (tx_pager t))) (pager_pages contents (tx_pager t)) (pager_pages contents p)"
    by (cases r; simp add: commit_done_def commit_failed_def Let_def)+
qed

lemma pager_step_ok:
  assumes step: "pager_step ops p p'" and ok: "pager_ok valid contents p"
  shows "pager_ok valid contents p'"
  using step
proof cases
  case (reads_page pid r)
  then show ?thesis
    using read_page_ok(1) [OF ok] read_in_place_eq [of valid contents p] ok by (simp add: pager_ok_def [of _ _ p])
next
  case (aborts t t')
  from transaction_ok(1) [OF ok aborts(2,3)] show ?thesis unfolding aborts(1) by (rule abort_ok(1))
next
  case (commits t t' revision hash catalog r)
  from transaction_ok(1) [OF ok commits(1,2)] show ?thesis by (rule commit_ok(3) [OF _ commits(3)])
qed

lemma pager_life:
  assumes "(pager_step ops)\<^sup>*\<^sup>* p p'" "pager_ok valid contents p"
  shows "pager_ok valid contents p'"
  using assms by (induction rule: rtranclp_induct) (auto intro: pager_step_ok)

lemma open_ok:
  assumes v: "valid d" and op: "pager_with_cache_capacity ops n d = (Inr p, d')"
  shows "pager_ok valid contents p" "\<not> pgr_recovery_required p" "pc_device (pgr_cache p) = d'" "pc_lookup (pgr_cache p) = Map.empty"
proof -
  obtain c where c: "cache_with_capacity d n = Inr c"
    using op by (auto simp: pager_with_cache_capacity_def split: sum.splits)
  have empty: "pc_entries c = []" "pc_lookup c = Map.empty" "pc_reservations c = []" "0 < pc_capacity c" "pc_hand c = 0"
    using c by (auto simp: cache_with_capacity_def div_greater_zero_iff split: if_splits)
  obtain active d1 where o1: "open_metadata ops d = (Inr active, d1)"
    and d': "validate_physical_coverage ops (rm_allocation_bitmap active) d1 = (Inr (), d')"
    and p: "p = \<lparr>pgr_cache = c\<lparr>pc_device := d'\<rparr>, pgr_active = active, pgr_next_candidate_id = 1, pgr_recovery_required = False\<rparr>"
    using op c by (auto simp: pager_with_cache_capacity_def bind_op_eq)
  have d1: "valid d1" "root_served (contents d1) active" using open_metadata_ok [OF v o1] by simp_all
  then have cov: "d' = d1" "covered (contents d1) (rm_allocation_bitmap active)"
    using validate_coverage_ok [OF d1(1) d'] by (simp_all add: root_served_def)
  have "cache_ok valid contents (c\<lparr>pc_device := d'\<rparr>)"
    using d1(1) cov(1) empty by (simp add: cache_ok_def index_ok_def reservations_ok_def written_present_def)
  with d1 cov empty show "pager_ok valid contents p"
    by (simp add: p pager_ok_def pager_pages_def data_only_def)
  show "\<not> pgr_recovery_required p" "pc_device (pgr_cache p) = d'" "pc_lookup (pgr_cache p) = Map.empty"
    using empty by (simp_all add: p)
qed

lemma abort_restores:
  assumes ok: "pager_ok valid contents p" and b: "begin_write p = Inr t0" and run: "(tx_step ops)\<^sup>*\<^sup>* t0 t"
  shows "pgr_active (abort t) = pgr_active p" "\<not> pgr_recovery_required (abort t)"
    "allocates (rm_allocation_bitmap (pgr_active p)) pid \<Longrightarrow> pager_value contents (abort t) pid = pager_value contents p pid"
    "only_touches (unreached (rm_allocation_bitmap (pgr_active p))) (pager_pages contents p) (pager_pages contents (abort t))"
proof -
  note tr = transaction_ok [OF ok b run]
  note ab = abort_ok [OF tr(1)]
  show "pgr_active (abort t) = pgr_active p" using ab(2) tr(3) by simp
  show "\<not> pgr_recovery_required (abort t)" using tr(1) by (simp add: abort_def tx_ok_def)
  show "pager_value contents (abort t) pid = pager_value contents p pid"
    if "allocates (rm_allocation_bitmap (pgr_active p)) pid"
    using ab(4) tr(5) [OF that] by simp
  show "only_touches (unreached (rm_allocation_bitmap (pgr_active p))) (pager_pages contents p) (pager_pages contents (abort t))"
    using ab(3) tr(4) by simp
qed

end

section \<open>A device that never fails\<close>

lemma memory_write_succeeds:
  assumes "memory_valid d" "pid \<le> length (md_pages d)" "pid < 65536" "length src = 4096"
  shows "\<exists>d'. memory_write_page pid src d = (Inr (), d') \<and> memory_valid d' \<and> md_pages d' = write_at (md_pages d) pid src"
proof -
  obtain r d' where w: "memory_write_page pid src d = (r, d')" by (cases "memory_write_page pid src d")
  have "is_ok r" using w assms
    by (auto simp: memory_write_page_def validate_buffer_def memory_page_count_def Let_def split: if_splits)
  with memory_write_page_contract [OF assms(1) w] w show ?thesis by (cases r) auto
qed

lemma memory_range_succeeds:
  assumes "memory_valid d" "a \<le> length (md_pages d)" "b \<le> 65536" "\<And>pid. a \<le> pid \<Longrightarrow> pid < b \<Longrightarrow> length (f pid) = 4096"
  shows "\<exists>d'. for_op [a..<b] (\<lambda>pid. memory_write_page pid (f pid)) d = (Inr (), d') \<and> memory_valid d' \<and>
    length (md_pages d) \<le> length (md_pages d') \<and> (a < b \<longrightarrow> b \<le> length (md_pages d'))"
  using assms
proof (induction "b - a" arbitrary: a d)
  case (Suc n)
  then have ab: "a < b" by simp
  from memory_write_succeeds [of d a "f a"] Suc.prems ab obtain d1 where
    d1: "memory_write_page a (f a) d = (Inr (), d1)" "memory_valid d1" "md_pages d1 = write_at (md_pages d) a (f a)" by auto
  have "\<exists>d'. for_op [Suc a..<b] (\<lambda>pid. memory_write_page pid (f pid)) d1 = (Inr (), d') \<and> memory_valid d' \<and>
    length (md_pages d1) \<le> length (md_pages d') \<and> (Suc a < b \<longrightarrow> b \<le> length (md_pages d'))"
    using Suc d1 by (intro Suc.hyps(1)) auto
  with d1 ab Suc.prems(2) show ?case by (auto simp: upt_conv_Cons split: if_splits)
qed simp

lemma coverage_succeeds:
  assumes "covered pages b" "dev_page_count ops d = length pages"
  shows "validate_physical_coverage ops b d = (Inr (), d)"
proof -
  let ?f = "\<lambda>pid. bind_op (lift_op (is_allocated b pid)) (\<lambda>allocated.
      if allocated \<and> length pages \<le> pid then fail_op PAGER_ERROR else return_op ())"
  have "for_op pids ?f d = (Inr (), d)" if "\<forall>pid \<in> set pids. pid < 65536" for pids
    using that
  proof (induction pids)
    case (Cons pid pids)
    have "\<not> (allocates b pid \<and> length pages \<le> pid)" using assms(1) by (auto simp: covered_def)
    with Cons show ?case by (simp add: is_allocated_ok)
  qed simp
  then show ?thesis
    using assms(2) by (simp add: validate_physical_coverage_def del: for_op.simps upt_rec_numeral)
qed

lemma memory_initializes:
  assumes "md_pages d = []"
  shows "\<exists>active d'. initialize_empty_device memory_device_ops d = (Inr active, d')"
proof -
  obtain active pages where lay: "empty_metadata_layout = Inr (active, pages)" "length pages = 6"
    "\<And>bs. bs \<in> set pages \<Longrightarrow> page_verify bs = Inr ()" by (rule empty_layout) (rule that)
  have len: "length (pages ! pid) = 4096" if "pid < 6" for pid
    using lay(2,3) that page_verify_length by (metis nth_mem)
  have v: "memory_valid d" using assms by (simp add: memory_valid_def)
  from memory_range_succeeds [OF v, of 0 6 "\<lambda>_. replicate 4096 0"] obtain d1 where
    d1: "for_op [0..<6] (\<lambda>pid. memory_write_page pid (replicate 4096 0)) d = (Inr (), d1)" "memory_valid d1" "6 \<le> length (md_pages d1)"
    by auto
  from memory_range_succeeds [OF d1(2), of 2 6 "(!) pages"] d1(3) len obtain d2 where
    d2: "for_op [2..<6] (\<lambda>pid. memory_write_page pid (pages ! pid)) d1 = (Inr (), d2)" "memory_valid d2" "6 \<le> length (md_pages d2)"
    by auto
  let ?d3 = "d2\<lparr>md_flush_count := md_flush_count d2 + 1\<rparr>"
  have d3: "memory_valid ?d3" "6 \<le> length (md_pages ?d3)" using d2(2,3) by (simp_all add: memory_valid_def)
  from memory_range_succeeds [OF d3(1), of 0 2 "(!) pages"] d3(2) len obtain d4 where
    d4: "for_op [0..<2] (\<lambda>pid. memory_write_page pid (pages ! pid)) ?d3 = (Inr (), d4)" by auto
  show ?thesis
    unfolding initialize_empty_device_def
    using lay(1) d1(1) d2(1) d4
    by (simp add: memory_device_ops_def memory_flush_def del: for_op.simps upt_rec_numeral)
qed

lemma memory_opens:
  assumes new: "memory_device_new 0 = Inr d" and cap: "cache_with_capacity d n = Inr c"
  shows "\<exists>p d'. pager_with_cache_capacity memory_device_ops n d = (Inr p, d')"
proof -
  have none: "md_pages d = []" using new by (auto simp: memory_device_new_def)
  then obtain active d' where init: "initialize_empty_device memory_device_ops d = (Inr active, d')"
    using memory_initializes by blast
  have v: "memory_valid d" using none by (simp add: memory_valid_def)
  note served = memory.initialize_served [OF v init]
  have "rm_allocation_bitmap active = allocation_bitmap_new"
    using served(4) by (simp add: logically_matches_def recovered_metadata_empty_def Let_def)
  moreover have "allocates allocation_bitmap_new pid \<longleftrightarrow> pid < 6" for pid
    using allocation_bitmap_new_set(2) by (auto simp: allocated_set_def)
  ultimately have cov: "covered (md_pages d') (rm_allocation_bitmap active)"
    using served(2) by (auto simp: covered_def root_served_def)
  have "dev_page_count memory_device_ops d' = length (md_pages d')"
    by (simp add: memory_device_ops_def memory_page_count_def)
  note cs = coverage_succeeds [OF cov this]
  have "open_metadata memory_device_ops d = (Inr active, d')"
    using init none by (simp add: open_metadata_def Let_def memory_device_ops_def memory_page_count_def)
  with cs cap show ?thesis by (simp add: pager_with_cache_capacity_def)
qed

end
