(* ===== verification/BtreeViews.thy ===== *)
theory BtreeViews
  imports BtreeLookup Session
begin

text \<open>
  The two views a tree is read through, the pager's committed pages and the pages of a write transaction.
  Both keep the contract of \<open>page_reader\<close>, so a lookup through either returns what the tree holds.
\<close>

section \<open>The views\<close>

definition pager_cursor_view :: "'d pager \<Rightarrow> u64 \<Rightarrow> cursor_view res" where
  "pager_cursor_view p tree_id = Inr (CommittedView (sb_generation (rm_superblock (pgr_active p))))"

definition transaction_cursor_view :: "'d write_transaction \<Rightarrow> u64 \<Rightarrow> cursor_view res" where
  "transaction_cursor_view t tree_id =
    and_then (tx_generation t) (\<lambda>generation.
    and_then (btree_version t tree_id) (\<lambda>tree_version.
      Inr (CandidateView generation (tx_candidate t) tree_version)))"

definition pager_view :: "'d page_device_ops \<Rightarrow> 'd pager btree_read_view" where
  "pager_view ops =
    \<lparr>rv_read_page = read_page_in_place ops,
     rv_cursor_view = pager_cursor_view,
     rv_requires_view_generation = (\<lambda>_ _. False)\<rparr>"

definition transaction_view :: "'d page_device_ops \<Rightarrow> 'd write_transaction btree_read_view" where
  "transaction_view ops =
    \<lparr>rv_read_page = tx_read_page_in_place ops,
     rv_cursor_view = transaction_cursor_view,
     rv_requires_view_generation = owns_page\<rparr>"

section \<open>The pages a view shows\<close>

definition decoded_page :: "bytes option \<Rightarrow> page option" where
  "decoded_page bs = (case bs of Some v \<Rightarrow> (case decode_verified v of Inr page \<Rightarrow> Some page | Inl _ \<Rightarrow> None) | None \<Rightarrow> None)"

definition pager_shows :: "('d \<Rightarrow> bytes list) \<Rightarrow> 'd pager \<Rightarrow> nat \<Rightarrow> page option" where
  "pager_shows contents p pid =
    (if FIRST_DATA_PAGE_ID \<le> pid \<and> allocates (rm_allocation_bitmap (pgr_active p)) pid
     then decoded_page (pager_value contents p pid) else None)"

definition transaction_shows :: "('d \<Rightarrow> bytes list) \<Rightarrow> 'd write_transaction \<Rightarrow> nat \<Rightarrow> page option" where
  "transaction_shows contents t pid =
    (if FIRST_DATA_PAGE_ID \<le> pid \<and> allocates (tx_next_bitmap t) pid
        \<and> readable (pc_reservations (tx_cache t)) (tx_owner t pid, pid)
     then decoded_page (tx_value contents t pid) else None)"

lemma decoded_page_Some: "decoded_page bs = Some page \<longleftrightarrow> (\<exists>v. bs = Some v \<and> decode_verified v = Inr page)"
  by (auto simp: decoded_page_def split: option.splits sum.splits)

lemma set_tx_cache_versions [simp]: "tx_btree_versions (set_tx_cache c t) = tx_btree_versions t"
  by (simp add: set_tx_cache_def)

lemma transaction_read_keeps:
  assumes "tx_read_page_in_place ops pid t = (r, t')"
  obtains c where "t' = set_tx_cache c t"
proof -
  have "set_tx_cache (tx_cache t) t = t" by (simp add: set_tx_cache_def tx_cache_def)
  moreover have "\<exists>c. t' = set_tx_cache c t \<or> t' = t" using assms unfolding tx_read_page_in_place_def bind_lift_eq
    by (auto simp: bind_op_eq on_tx_cache_def bind_lift_eq split: if_split_asm prod.splits)
  ultimately show thesis using that by metis
qed

lemma transaction_read_readable:
  assumes "tx_read_page_in_place ops pid t = (Inr page, t')"
  shows "FIRST_DATA_PAGE_ID \<le> pid \<and> readable (pc_reservations (tx_cache t)) (tx_owner t pid, pid)"
  using assms unfolding tx_read_page_in_place_def bind_lift_eq
  by (auto simp: bind_op_eq on_tx_cache_def bind_lift_eq tx_owner_def read_candidate_page_verified_def
      read_page_verified_def ensure_reserved_by_def ensure_not_reserved_def get_reservation_def reserved_def
      map_of_eq_None_iff ensure_data_page_def split: if_split_asm prod.splits option.splits)

lemma pager_read_data:
  "read_page_checked ops pid p = (Inr page, p') \<Longrightarrow> FIRST_DATA_PAGE_ID \<le> pid"
  by (auto simp: read_page_checked_def ensure_usable_def ensure_data_page_def bind_lift_eq split: if_splits)

section \<open>Both views keep the contract\<close>

sublocale page_device \<subseteq> pager_reader: page_reader "pager_view ops" "pager_ok valid contents" "pager_shows contents"
proof
  fix p pid x p'
  assume ok: "pager_ok valid contents p" and rd: "rv_read_page (pager_view ops) pid p = (x, p')"
  have "cache_ok valid contents (pgr_cache p)" using ok by (simp add: pager_ok_def)
  then have rd': "read_page_checked ops pid p = (x, p')"
    using rd read_in_place_eq by (metis pager_view_def btree_read_view.select_convs(1))
  note r = read_page_ok [OF ok rd']
  have "pages_kept (pager_shows contents p) (pager_shows contents p')"
    using r(2,4) by (auto simp: pages_kept_def pager_shows_def decoded_page_Some split: if_splits)
  then show "pager_ok valid contents p' \<and> pages_kept (pager_shows contents p) (pager_shows contents p')
      \<and> rv_cursor_view (pager_view ops) p' = rv_cursor_view (pager_view ops) p
      \<and> rv_requires_view_generation (pager_view ops) p' = rv_requires_view_generation (pager_view ops) p
      \<and> (case x of Inr page \<Rightarrow> pager_shows contents p pid = Some page | Inl _ \<Rightarrow> True)"
    using r(1,2,5) rd' pager_read_data [of ops pid p] by (auto simp: pager_view_def pager_cursor_view_def fun_eq_iff pager_shows_def decoded_page_Some split: sum.splits)
qed

sublocale page_device \<subseteq> transaction_reader:
  page_reader "transaction_view ops" "tx_ok valid contents" "transaction_shows contents"
proof
  fix t pid x t'
  assume ok: "tx_ok valid contents t" and "rv_read_page (transaction_view ops) pid t = (x, t')"
  then have rd: "tx_read_page_in_place ops pid t = (x, t')" by (simp add: transaction_view_def)
  note r = tx_read_ok [OF ok rd]
  obtain c where t': "t' = set_tx_cache c t" by (rule transaction_read_keeps [OF rd])
  have res: "pc_reservations (tx_cache t') = pc_reservations (tx_cache t)" by (rule read_cache_of [OF rd])
  have "tx_value contents t' q = Some v"
    if "tx_value contents t q = Some v" "readable (pc_reservations (tx_cache t)) (tx_owner t q, q)" for q v
    using that r(2) by (simp add: tx_frame_def values_kept_def tx_value_def pager_pages_cache t')
  then have "pages_kept (transaction_shows contents t) (transaction_shows contents t')"
    using r(3) res by (auto simp: pages_kept_def transaction_shows_def decoded_page_Some t' split: if_splits)
  moreover have "transaction_shows contents t pid = Some page" if "x = Inr page" for page
    using r(4) that transaction_read_readable [of ops pid t page t'] rd by (auto simp: transaction_shows_def decoded_page_Some)
  ultimately show "tx_ok valid contents t' \<and> pages_kept (transaction_shows contents t) (transaction_shows contents t')
      \<and> rv_cursor_view (transaction_view ops) t' = rv_cursor_view (transaction_view ops) t
      \<and> rv_requires_view_generation (transaction_view ops) t' = rv_requires_view_generation (transaction_view ops) t
      \<and> (case x of Inr page \<Rightarrow> transaction_shows contents t pid = Some page | Inl _ \<Rightarrow> True)"
    using r(1) by (auto simp: transaction_view_def transaction_cursor_view_def fun_eq_iff t' tx_generation_def
        btree_version_def ensure_open_def ensure_usable_def owns_page_def split: sum.splits)
qed

context page_device
begin

lemma own_lookup:
  assumes "tx_ok valid contents t" "validate_tree_id tree_id = Inr ()" "validate_key key = Inr ()"
    "transaction_cursor_view t tree_id = Inr view" "level < MAX_TREE_DEPTH"
    "holds_tree (transaction_shows contents t) tree_id (cursor_view_generation view) (owns_page t) level None root pids kvs"
  shows "reads_to (transaction_view ops) (tx_ok valid contents) (transaction_shows contents) (map_of kvs key) t
    (get_from (transaction_view ops) root tree_id key t)"
  using transaction_reader.get_prefixed_reads [OF assms(1-3) _ assms(5), of view root pids kvs "[]"] assms(4,6)
  by (simp add: get_from_def transaction_view_def option.map_ident)

end

section \<open>A committed tree\<close>

lemma node_decode_later:
  "node_decode page tree_id generation req = Inr n \<Longrightarrow> generation \<le> generation' \<Longrightarrow>
    node_decode page tree_id generation' False = Inr n"
  unfolding node_decode_def Let_def by (auto split: if_split_asm)

lemma holds_value_kept: "holds_value P tree_id v bs \<Longrightarrow> pages_kept P Q \<Longrightarrow> holds_value Q tree_id v bs"
proof (cases v)
  case (OverflowValue d)
  assume "holds_value P tree_id v bs" "pages_kept P Q"
  with OverflowValue show ?thesis by (simp add: holds_chain_def Let_def pages_kept_def) blast
qed simp

text \<open>A tree stays what it is while its pages do, at every later generation.\<close>

lemma holds_tree_kept:
  assumes "holds_tree P tree_id generation req level parent pid pids kvs" "pages_kept P Q" "generation \<le> generation'"
  shows "holds_tree Q tree_id generation' (\<lambda>_. False) level parent pid pids kvs"
  using assms
proof (induction rule: holds_tree.induct)
  case (holds_leaf pid page n parent es kvs)
  have "list_all2 (\<lambda>e (k, bs). k = le_key e \<and> holds_value Q tree_id (le_value e) bs) es kvs"
    using holds_leaf.hyps(5) by (rule list_all2_mono) (auto intro: holds_value_kept [OF _ holds_leaf.prems(1)])
  moreover have "Q (unat pid) = Some page" using holds_leaf.hyps(1) holds_leaf.prems(1) by (simp add: pages_kept_def)
  ultimately show ?case
    using node_decode_later [OF holds_leaf.hyps(2) holds_leaf.prems(2)] holds_leaf.hyps(3,4) by (intro holds_tree.holds_leaf)
next
  case (holds_internal pid page n parent m level parts pidss)
  have "Q (unat pid) = Some page" using holds_internal.hyps(1) holds_internal.prems(1) by (simp add: pages_kept_def)
  then show ?case
    using node_decode_later [OF holds_internal.hyps(2) holds_internal.prems(2)] holds_internal.hyps(3-7,9,10)
      holds_internal.IH holds_internal.prems
    by (intro holds_tree.holds_internal [where n = n]) blast+
qed

context page_device
begin

text \<open>What the transaction showed, the pager shows once it is committed.\<close>

lemma committed_shows:
  assumes "commit_done valid contents t revision hash catalog p"
  shows "pages_kept (transaction_shows contents t) (pager_shows contents p)"
  using assms by (auto simp: pages_kept_def transaction_shows_def pager_shows_def commit_done_def Let_def decoded_page_Some
      split: if_splits)

lemma committed_tree:
  assumes "commit_done valid contents t revision hash catalog p" "tx_generation t = Inr generation"
    "holds_tree (transaction_shows contents t) tree_id generation (owns_page t) level None root pids kvs"
  shows "holds_tree (pager_shows contents p) tree_id (sb_generation (rm_superblock (pgr_active p))) (\<lambda>_. False) level None root pids kvs"
proof -
  have "unat generation = unat (sb_generation (rm_superblock (pgr_active (tx_pager t)))) + 1"
    using assms(2) by (auto simp: tx_generation_def and_then_eq_Inr checked_add_Some)
  then have "generation \<le> sb_generation (rm_superblock (pgr_active p))"
    using assms(1) by (simp add: commit_done_def Let_def word_le_nat_alt)
  then show ?thesis by (rule holds_tree_kept [OF assms(3) committed_shows [OF assms(1)]])
qed

lemma committed_lookup:
  assumes "commit_done valid contents t revision hash catalog p" "tx_generation t = Inr generation"
    "holds_tree (transaction_shows contents t) tree_id generation (owns_page t) level None root pids kvs" "level < MAX_TREE_DEPTH"
    "validate_tree_id tree_id = Inr ()" "validate_key key = Inr ()"
  shows "reads_to (pager_view ops) (pager_ok valid contents) (pager_shows contents) (map_of kvs key) p
    (get_from (pager_view ops) root tree_id key p)"
proof -
  have ok: "pager_ok valid contents p" using assms(1) by (simp add: commit_done_def Let_def)
  have "holds_tree (pager_shows contents p) tree_id (cursor_view_generation (CommittedView (sb_generation (rm_superblock (pgr_active p)))))
      (rv_requires_view_generation (pager_view ops) p) level None root pids kvs"
    using committed_tree [OF assms(1-3)] by (simp add: pager_view_def)
  from pager_reader.get_prefixed_reads [OF ok assms(5,6) _ assms(4) this, of "[]"]
  show ?thesis by (simp add: get_from_def pager_view_def pager_cursor_view_def option.map_ident)
qed

end

end
