(* ===== verification/CursorViews.thy ===== *)
theory CursorViews
  imports CursorProofs BtreeViews
begin

text \<open>Scanning the trees that a transaction and the pager show.\<close>

context page_device
begin

lemma own_scan:
  assumes "tx_ok valid contents t" "validate_tree_id tree_id = Inr ()" "\<And>b. bound = Some b \<Longrightarrow> validate_key b = Inr ()"
    "transaction_cursor_view t tree_id = Inr view" "level < MAX_TREE_DEPTH" "distinct pids"
    "holds_tree (transaction_shows contents t) tree_id (cursor_view_generation view) (owns_page t) level None root pids kvs"
  shows "reads_to (transaction_view ops) (tx_ok valid contents) (transaction_shows contents)
    (take n (dir backward (filter (\<lambda>e. within backward bound (fst e)) kvs))) t
    (cursor_scan (transaction_view ops) root tree_id bound backward strict n t)"
  by (rule transaction_reader.scan_reads [where view = view, OF assms(1,2,3) _ assms(5,6)])
    (use assms(4,7) in \<open>simp_all add: transaction_view_def\<close>)

lemma committed_scan:
  assumes "commit_done valid contents t revision hash catalog p" "tx_generation t = Inr generation"
    "holds_tree (transaction_shows contents t) tree_id generation (owns_page t) level None root pids kvs" "level < MAX_TREE_DEPTH"
    "validate_tree_id tree_id = Inr ()" "\<And>b. bound = Some b \<Longrightarrow> validate_key b = Inr ()" "distinct pids"
  shows "reads_to (pager_view ops) (pager_ok valid contents) (pager_shows contents)
    (take n (dir backward (filter (\<lambda>e. within backward bound (fst e)) kvs))) p
    (cursor_scan (pager_view ops) root tree_id bound backward strict n p)"
proof -
  let ?view = "CommittedView (sb_generation (rm_superblock (pgr_active p)))"
  have ok: "pager_ok valid contents p" using assms(1) by (simp add: commit_done_def Let_def)
  have "holds_tree (pager_shows contents p) tree_id (cursor_view_generation ?view)
      (rv_requires_view_generation (pager_view ops) p) level None root pids kvs"
    using committed_tree [OF assms(1-3)] by (simp add: pager_view_def)
  from pager_reader.scan_reads [OF ok assms(5,6) _ assms(4,7) this] show ?thesis
    by (simp add: pager_view_def pager_cursor_view_def)
qed

end

end
