(* ===== verification/BtreeRound.thy ===== *)
theory BtreeRound
  imports BtreeView
begin

unbundle bit_operations_syntax

text \<open>
  A node decodes from the page it was encoded to, every check of a strict decoding included, and so does
  an overflow page.
\<close>

section \<open>Parts of a payload\<close>

lemma slice_left: "off + n \<le> length a \<Longrightarrow> slice (a @ b) off n = slice a off n"
  by (simp add: slice_def)

lemma slice_right: "slice (a @ b) (length a + off) n = slice b off n"
  by (simp add: slice_def)

lemma slice_at: "length a = off \<Longrightarrow> length b = n \<Longrightarrow> slice (a @ b @ c) off n = b"
  by (simp add: slice_def)

lemma put_left: "off + length v \<le> length a \<Longrightarrow> put (a @ b) off v = put a off v @ b"
  by (simp add: put_def)

lemma put_at: "length a = off \<Longrightarrow> length b = length v \<Longrightarrow> put (a @ b @ c) off v = a @ v @ c"
  by (simp add: put_def)

lemma reads_right:
  "read_u16 (a @ b) (length a + off) = read_u16 b off" "read_u32 (a @ b) (length a + off) = read_u32 b off"
  "read_u64 (a @ b) (length a + off) = read_u64 b off"
  by (simp_all add: reads_def slice_right)

lemma reads_right_0:
  "read_u16 (a @ b) (length a) = read_u16 b 0" "read_u32 (a @ b) (length a) = read_u32 b 0"
  "read_u64 (a @ b) (length a) = read_u64 b 0"
  using reads_right [of a b 0] by simp_all

lemma replicate_split: "m \<le> n \<Longrightarrow> replicate n x = replicate m x @ replicate (n - m) x"
  by (simp flip: replicate_add)

section \<open>Cells\<close>

text \<open>The offsets a node's slots hold, of cells that end at \<open>e\<close>, each below the one before it.\<close>

fun slots :: "nat \<Rightarrow> bytes list \<Rightarrow> bytes" where
  "slots e [] = []"
| "slots e (cell # cells) = le_bytes 2 (of_nat (e - length cell) :: u16) @ slots (e - length cell) cells"

lemma length_slots [simp]: "length (slots e cells) = 2 * length cells"
  by (induction e cells rule: slots.induct) auto

lemma write_cells_layout:
  assumes "length pre = NODE_HEADER_SIZE + 2 * index" "2 * length cells + sum_list (map length cells) \<le> z"
  shows "write_cells (pre @ replicate z 0 @ C) (length pre + z) index cells =
    (pre @ slots (length pre + z) cells @ replicate (z - 2 * length cells - sum_list (map length cells)) 0
       @ concat (rev cells) @ C, length pre + z - sum_list (map length cells))"
  using assms
proof (induction cells arbitrary: pre z C index)
  case (Cons c cs)
  let ?n = "length c" and ?fe = "length pre + (z - length c)"
  have z: "?n + 2 \<le> z" "length pre + z - ?n = ?fe" using Cons.prems(2) by auto
  have "replicate z 0 = replicate (z - ?n) 0 @ replicate ?n (0::u8)"
    using z(1) by (simp flip: replicate_add)
  then have cell: "put (pre @ replicate z 0 @ C) ?fe c = pre @ replicate (z - ?n) 0 @ c @ C"
    using put_at [of "pre @ replicate (z - ?n) 0" ?fe "replicate ?n 0" c C] by simp
  have "replicate (z - ?n) 0 = replicate 2 0 @ replicate (z - ?n - 2) (0::u8)"
    using z(1) by (intro replicate_split) simp
  then have slot: "put (pre @ replicate (z - ?n) 0 @ c @ C) (length pre) (le_bytes 2 (of_nat ?fe :: u16)) =
      (pre @ le_bytes 2 (of_nat ?fe :: u16)) @ replicate (z - ?n - 2) 0 @ c @ C"
    using put_at [of pre "length pre" "replicate 2 0" "le_bytes 2 (of_nat ?fe :: u16)"] by simp
  let ?pre = "pre @ le_bytes 2 (of_nat ?fe :: u16)"
  have "write_cells (?pre @ replicate (z - ?n - 2) 0 @ c @ C) (length ?pre + (z - ?n - 2)) (index + 1) cs =
    (?pre @ slots (length ?pre + (z - ?n - 2)) cs @ replicate (z - ?n - 2 - 2 * length cs - sum_list (map length cs)) 0
       @ concat (rev cs) @ c @ C, length ?pre + (z - ?n - 2) - sum_list (map length cs))"
    using Cons.prems by (intro Cons.IH) auto
  moreover have "length ?pre + (z - ?n - 2) = ?fe" using z by simp
  moreover have "NODE_HEADER_SIZE + index * SLOT_SIZE = length pre" using Cons.prems(1) by (simp add: node_sizes)
  ultimately show ?case using z cell slot by (simp add: diff_diff_eq add.commute)
qed simp

lemma decode_cells_layout:
  assumes "bytes = pre @ slots e cells @ mid @ concat (rev cells) @ C"
    "length pre = NODE_HEADER_SIZE + 2 * index" "e = length (pre @ slots e cells @ mid @ concat (rev cells))"
    "e < 2 ^ 16" "free_start = NODE_HEADER_SIZE + 2 * (index + length cells)" "free_end + sum_list (map length cells) \<le> e"
    "list_all2 (\<lambda>cell x. \<forall>a b. bytes = a @ cell @ b \<longrightarrow> f (length a) = Inr (x, length a + length cell)) cells xs"
  shows "decode_cells f bytes free_start free_end [index..<index + length cells] e =
    Inr (xs, e - sum_list (map length cells))"
  using assms
proof (induction cells arbitrary: pre e C index xs)
  case (Cons c cs)
  let ?o = "e - length c"
  from Cons.prems(7) obtain y ys where xs: "xs = y # ys"
    and y: "\<And>a b. bytes = a @ c @ b \<Longrightarrow> f (length a) = Inr (y, length a + length c)"
    and ys: "list_all2 (\<lambda>cell x. \<forall>a b. bytes = a @ cell @ b \<longrightarrow> f (length a) = Inr (x, length a + length cell)) cs ys"
    by (auto simp: list_all2_Cons1)
  let ?pre = "pre @ le_bytes 2 (of_nat ?o :: u16)"
  have bytes: "bytes = ?pre @ slots ?o cs @ mid @ concat (rev cs) @ c @ C" using Cons.prems(1) by simp
  have o: "?o = length (?pre @ slots ?o cs @ mid @ concat (rev cs))" "length c \<le> e" using Cons.prems(3) by auto
  have "read_u16 bytes (length pre) = of_nat ?o"
    using bytes by (simp add: reads_right_0) (simp add: reads_def slice_def)
  then have slot: "read_slot bytes index free_start = Inr ?o"
    using Cons.prems(1,2,4,5) by (simp add: read_slot_def node_sizes mult.commute [of index])
  have cell: "f ?o = Inr (y, e)"
    using y [of "?pre @ slots ?o cs @ mid @ concat (rev cs)" C] bytes o by simp
  have "decode_cells f bytes free_start free_end [index + 1..<index + 1 + length cs] ?o =
      Inr (ys, ?o - sum_list (map length cs))"
    using Cons.prems(2,4,5,6) o ys bytes by (intro Cons.IH [of ?pre ?o "c @ C" "index + 1"]) auto
  moreover have "[index..<index + length (c # cs)] = index # [index + 1..<index + 1 + length cs]"
    by (subst upt_conv_Cons) auto
  ultimately show ?case
    using slot cell Cons.prems(6) xs by (simp add: validate_packed_cell_def)
qed simp

lemma key_length_ok:
  assumes "validate_key k = Inr ()"
  shows "length k \<le> 1024" "unat (of_nat (length k) :: u16) = length k"
  using assms by (simp_all add: validate_key_def MAX_BTREE_KEY_BYTES_def split: if_splits)

lemma leaf_cell_round:
  assumes "encode_leaf_cell e = Inr cell" "validate_stored_entry (le_key e) (le_value e) generation = Inr ()"
  shows "decode_leaf_cell (a @ cell @ b) (length a) generation = Inr (e, length a + length cell)"
proof (cases "le_value e")
  case (InlineValue v)
  have key: "validate_key (le_key e) = Inr ()" using assms(1) by (auto simp: encode_leaf_cell_def and_then_eq_Inr)
  have v: "length v \<le> 1024" "length (le_key e) + length v \<le> 1536"
    using assms(2) InlineValue by (auto simp: validate_stored_entry_def node_sizes and_then_eq_Inr split: if_splits)
  have cell: "cell = le_bytes 2 (of_nat (length (le_key e)) :: u16) @ le_bytes 2 INLINE_CELL_FLAGS
      @ le_bytes 4 (of_nat (length v) :: u32) @ le_key e @ v"
    using assms(1) key InlineValue by (simp add: encode_leaf_cell_def)
  have reads: "read_u16 (a @ cell @ b) (length a) = of_nat (length (le_key e))"
    "read_u16 (a @ cell @ b) (length a + 2) = INLINE_CELL_FLAGS"
    "read_u32 (a @ cell @ b) (length a + 4) = of_nat (length v)"
    unfolding cell by (simp_all add: reads_right reads_right_0) (simp_all add: reads_def slice_def)
  have slices: "slice (a @ cell @ b) (length a + 8) (length (le_key e)) = le_key e"
    "slice (a @ cell @ b) (length a + 8 + length (le_key e)) (length v) = v"
    unfolding cell by (simp_all add: slice_def)
  show ?thesis
    using reads slices key_length_ok [OF key] v InlineValue
    by (simp add: decode_leaf_cell_def checked_end_def cell node_sizes Let_def validate_decoded_inline_entry_def)
next
  case (OverflowValue d)
  have key: "validate_key (le_key e) = Inr ()" using assms(1) by (auto simp: encode_leaf_cell_def and_then_eq_Inr)
  have d: "validate_overflow_descriptor d generation = Inr ()"
    using assms(2) OverflowValue by (auto simp: validate_stored_entry_def and_then_eq_Inr)
  have cell: "cell = le_bytes 2 (of_nat (length (le_key e)) :: u16) @ le_bytes 2 OVERFLOW_CELL_FLAGS
      @ le_bytes 4 (of_nat OVERFLOW_DESCRIPTOR_SIZE :: u32) @ le_key e @ le_bytes 8 (od_first_page_id d)
      @ le_bytes 8 (od_generation d) @ le_bytes 4 (od_total_length d) @ le_bytes 4 (od_checksum d)"
    using assms(1) key OverflowValue by (simp add: encode_leaf_cell_def)
  have reads: "read_u16 (a @ cell @ b) (length a) = of_nat (length (le_key e))"
    "read_u16 (a @ cell @ b) (length a + 2) = OVERFLOW_CELL_FLAGS"
    "read_u32 (a @ cell @ b) (length a + 4) = of_nat OVERFLOW_DESCRIPTOR_SIZE"
    unfolding cell by (simp_all add: reads_right reads_right_0) (simp_all add: reads_def slice_def)
  have key': "slice (a @ cell @ b) (length a + 8) (length (le_key e)) = le_key e"
    unfolding cell by (simp add: slice_def)
  have descriptor: "read_descriptor (a @ cell @ b) (length a + 8 + length (le_key e)) = d"
    unfolding cell by (simp add: read_descriptor_def reads_def slice_def)
  show ?thesis
    using reads key' descriptor key_length_ok [OF key] d OverflowValue
    by (simp add: decode_leaf_cell_def checked_end_def cell node_sizes Let_def INLINE_CELL_FLAGS_def OVERFLOW_CELL_FLAGS_def)
qed

lemma internal_cell_round:
  assumes "encode_internal_cell e = Inr cell"
  shows "decode_internal_cell (a @ cell @ b) (length a) = Inr (e, length a + length cell)"
proof -
  have key: "validate_key (ie_key e) = Inr ()" using assms by (auto simp: encode_internal_cell_def and_then_eq_Inr)
  have cell: "cell = le_bytes 2 (of_nat (length (ie_key e)) :: u16) @ le_bytes 2 INLINE_CELL_FLAGS
        @ le_bytes 8 (ie_right_child e) @ le_bytes 8 (ie_child_hash e) @ ie_key e"
    using assms key by (simp add: encode_internal_cell_def)
  have reads: "read_u16 (a @ cell @ b) (length a) = of_nat (length (ie_key e))"
    "read_u16 (a @ cell @ b) (length a + 2) = INLINE_CELL_FLAGS"
    "read_u64 (a @ cell @ b) (length a + 4) = ie_right_child e"
    "read_u64 (a @ cell @ b) (length a + 12) = ie_child_hash e"
    unfolding cell by (simp_all add: reads_right reads_right_0) (simp_all add: reads_def slice_def)
  have "slice (a @ cell @ b) (length a + 20) (length (ie_key e)) = ie_key e"
    unfolding cell by (simp add: slice_def)
  then show ?thesis
    using reads key_length_ok [OF key]
    by (simp add: decode_internal_cell_def checked_end_def cell node_sizes Let_def)
qed

section \<open>Nodes\<close>

text \<open>The forty-eight bytes of a node's header.\<close>

definition node_header :: "node \<Rightarrow> nat \<Rightarrow> u64 \<Rightarrow> u64 \<Rightarrow> nat \<Rightarrow> bytes" where
  "node_header n count leftmost_child leftmost_child_hash free_end =
    puts (replicate NODE_HEADER_SIZE 0)
      [(0, NODE_MAGIC), (4, le_bytes 2 NODE_FORMAT_VERSION), (6, [nd_level n]), (7, [NODE_FLAGS]),
       (8, le_bytes 8 (nd_tree_id n)), (16, le_bytes 8 (nd_generation n)), (24, le_bytes 2 (of_nat count :: u16)),
       (26, le_bytes 2 (of_nat (NODE_HEADER_SIZE + count * SLOT_SIZE) :: u16)),
       (32, le_bytes 8 leftmost_child), (40, le_bytes 8 leftmost_child_hash), (28, le_bytes 2 (of_nat free_end :: u16))]"

lemma length_NODE_MAGIC [simp]: "length NODE_MAGIC = 4"
  by (simp add: NODE_MAGIC_def)

lemma length_node_header [simp]: "length (node_header n count l h fe) = 48"
  by (simp add: node_header_def puts_def NODE_HEADER_SIZE_def)

lemma node_header_fields:
  assumes "bytes = node_header n count l h fe @ rest"
  shows "slice bytes 0 4 = NODE_MAGIC" "read_u16 bytes 4 = NODE_FORMAT_VERSION" "bytes ! 6 = nd_level n"
    "bytes ! 7 = NODE_FLAGS" "read_u64 bytes 8 = nd_tree_id n" "read_u64 bytes 16 = nd_generation n"
    "read_u16 bytes 24 = of_nat count" "read_u16 bytes 26 = of_nat (NODE_HEADER_SIZE + count * SLOT_SIZE)"
    "read_u16 bytes 28 = of_nat fe" "slice bytes 30 2 = replicate 2 0"
    "read_u64 bytes 32 = l" "read_u64 bytes 40 = h"
  unfolding assms
  by (simp_all add: reads_def slice_left nth_append)
     (simp_all add: node_header_def puts_def NODE_HEADER_SIZE_def nth_put)

lemma node_encode_layout:
  assumes "node_encode page_id n = Inr (page, hash)"
  obtains page_type l h cells where "nd_tree_id n \<noteq> 0" "nd_generation n \<noteq> 0"
    "node_cells page_id n = Inr (page_type, l, h, cells)" "48 + 2 * length cells + sum_list (map length cells) \<le> 4064"
    "pg_id page = page_id" "pg_type page = page_type" "hash = subtree_hash n"
    "pg_payload page = node_header n (length cells) l h (4064 - sum_list (map length cells)) @ slots 4064 cells
       @ replicate (4016 - 2 * length cells - sum_list (map length cells)) 0 @ concat (rev cells)"
proof -
  from assms obtain page_type l h cells where c: "nd_tree_id n \<noteq> 0" "nd_generation n \<noteq> 0"
    "node_cells page_id n = Inr (page_type, l, h, cells)"
    by (auto simp: node_encode_def validate_tree_id_def and_then_eq_Inr split: if_splits)
  have size: "48 + 2 * length cells + sum_list (map length cells) \<le> 4064"
    using assms c by (auto simp: node_encode_def validate_tree_id_def Let_def node_sizes split: if_splits)
  let ?H = "puts (replicate NODE_HEADER_SIZE 0)
      [(0, NODE_MAGIC), (4, le_bytes 2 NODE_FORMAT_VERSION), (6, [nd_level n]), (7, [NODE_FLAGS]),
       (8, le_bytes 8 (nd_tree_id n)), (16, le_bytes 8 (nd_generation n)), (24, le_bytes 2 (of_nat (length cells) :: u16)),
       (26, le_bytes 2 (of_nat (NODE_HEADER_SIZE + length cells * SLOT_SIZE) :: u16)),
       (32, le_bytes 8 l), (40, le_bytes 8 h)]"
  have len: "length ?H = 48" by (simp add: puts_def NODE_HEADER_SIZE_def)
  have zeros: "replicate MAX_PAGE_PAYLOAD_SIZE (0::u8) = replicate NODE_HEADER_SIZE 0 @ replicate 4016 0"
    using replicate_split [of 48 4064 "0::u8"] by (simp add: NODE_HEADER_SIZE_def)
  let ?P = "replicate MAX_PAGE_PAYLOAD_SIZE (0::u8)"
  have header: "put (put (put (put (put (put (put (put (put (put ?P 0 NODE_MAGIC) 4 (le_bytes 2 NODE_FORMAT_VERSION))
      6 [nd_level n]) 7 [NODE_FLAGS]) 8 (le_bytes 8 (nd_tree_id n))) 16 (le_bytes 8 (nd_generation n)))
      24 (le_bytes 2 (of_nat (length cells) :: u16)))
      26 (le_bytes 2 (of_nat (NODE_HEADER_SIZE + length cells * SLOT_SIZE) :: u16))) 32 (le_bytes 8 l)) 40 (le_bytes 8 h)
      = ?H @ replicate 4016 0"
    unfolding zeros by (simp add: put_left puts_def NODE_HEADER_SIZE_def)
  have cells: "write_cells (?H @ replicate 4016 0) MAX_PAGE_PAYLOAD_SIZE 0 cells =
    (?H @ slots 4064 cells @ replicate (4016 - 2 * length cells - sum_list (map length cells)) 0 @ concat (rev cells),
     4064 - sum_list (map length cells))"
    using write_cells_layout [of ?H 0 cells 4016 "[]"] len size by (simp add: NODE_HEADER_SIZE_def)
  have final: "put (?H @ X) 28 (le_bytes 2 (of_nat fe :: u16)) = node_header n (length cells) l h fe @ X" for X fe
    using len by (simp add: put_left) (simp add: node_header_def puts_def)
  show thesis
  proof (rule that [OF c size])
    have "page_new page_id page_type (node_header n (length cells) l h (4064 - sum_list (map length cells)) @ slots 4064 cells
       @ replicate (4016 - 2 * length cells - sum_list (map length cells)) 0 @ concat (rev cells)) = Inr page
      \<and> hash = subtree_hash n"
      using assms c size unfolding node_encode_def
      by (auto simp: validate_tree_id_def Let_def header [simplified] cells [simplified] final [simplified] and_then_eq_Inr
          split: if_splits)
    then show "pg_id page = page_id" "pg_type page = page_type" "hash = subtree_hash n"
      "pg_payload page = node_header n (length cells) l h (4064 - sum_list (map length cells)) @ slots 4064 cells
        @ replicate (4016 - 2 * length cells - sum_list (map length cells)) 0 @ concat (rev cells)"
      by (auto simp: page_new_def and_then_eq_Inr split: if_splits)
  qed
qed

lemma child_checked:
  "children_loop page_id children es = Inr () \<Longrightarrow> e \<in> set es \<Longrightarrow> validate_child_page page_id (ie_right_child e) = Inr ()"
  by (induction page_id children es rule: children_loop.induct) (auto simp: and_then_eq_Inr split: if_splits)

lemma entry_checked:
  "check_all f es = Inr () \<Longrightarrow> e \<in> set es \<Longrightarrow> f e = Inr ()"
  by (induction f es rule: check_all.induct) (auto simp: and_then_eq_Inr)

lemma map_res_all2: "map_res f xs = Inr ys \<Longrightarrow> list_all2 (\<lambda>y x. x \<in> set xs \<and> f x = Inr y) ys xs"
proof (induction xs arbitrary: ys)
  case (Cons x xs)
  then obtain y ys' where "f x = Inr y" "map_res f xs = Inr ys'" "ys = y # ys'" by (auto simp: and_then_eq_Inr)
  with Cons.IH show ?case by (auto elim: list_all2_mono)
qed simp

theorem node_round:
  assumes "node_encode page_id n = Inr (page, hash)" "nd_generation n \<le> generation"
    "require \<Longrightarrow> nd_generation n = generation"
  shows "node_decode page (nd_tree_id n) generation require = Inr n"
proof -
  obtain page_type l h cells where e: "nd_tree_id n \<noteq> 0" "nd_generation n \<noteq> 0"
    "node_cells page_id n = Inr (page_type, l, h, cells)" "48 + 2 * length cells + sum_list (map length cells) \<le> 4064"
    "pg_id page = page_id" "pg_type page = page_type"
    and payload: "pg_payload page = node_header n (length cells) l h (4064 - sum_list (map length cells)) @ slots 4064 cells
       @ replicate (4016 - 2 * length cells - sum_list (map length cells)) 0 @ concat (rev cells)"
    by (rule node_encode_layout [OF assms(1)])
  let ?bytes = "pg_payload page" and ?sum = "sum_list (map length cells)" and ?fe = "4064 - sum_list (map length cells)"
  note fields = node_header_fields [OF payload]
  have len: "length ?bytes = 4064" using e(4) by (simp add: payload length_concat rev_map [symmetric])
  have counts: "unat (of_nat (length cells) :: u16) = length cells" "unat (of_nat ?fe :: u16) = ?fe"
    "unat (of_nat (48 + length cells * 2) :: u16) = 48 + length cells * 2"
    by (rule unat_of_nat_small, use e(4) in simp)+
  have free: "slice ?bytes (48 + length cells * 2) (?fe - (48 + length cells * 2)) =
      replicate (4016 - 2 * length cells - ?sum) 0"
    using e(4) by (simp add: payload slice_def)
  have cells_decode: "decode_cells f ?bytes (48 + length cells * 2) ?fe [0..<length cells] 4064 = Inr (xs, ?fe)"
    if "list_all2 (\<lambda>cell x. \<forall>a b. ?bytes = a @ cell @ b \<longrightarrow> f (length a) = Inr (x, length a + length cell)) cells xs"
    for f and xs :: "'x list"
    using decode_cells_layout [where pre = "node_header n (length cells) l h ?fe" and e = 4064 and C = "[]" and index = 0
        and mid = "replicate (4016 - 2 * length cells - ?sum) 0", OF _ _ _ _ _ _ that] payload len e(4)
    by (simp add: NODE_HEADER_SIZE_def mult.commute)
  have kind: "decode_kind page (nd_level n) (nd_generation n) (length cells) (48 + length cells * 2) ?fe l h = Inr (nd_kind n)"
  proof (cases "nd_kind n")
    case (LeafNode es)
    with e(3) have leaf: "page_type = BtreeLeaf" "l = BTREE_NO_PAGE_ID" "h = EMPTY_HASH" "nd_level n = 0"
      "validate_sorted_leaf_entries es (nd_generation n) = Inr ()" "map_res encode_leaf_cell es = Inr cells"
      by (auto simp: node_cells_def and_then_eq_Inr split: if_splits)
    have "list_all2 (\<lambda>cell x. \<forall>a b. ?bytes = a @ cell @ b \<longrightarrow>
        decode_leaf_cell ?bytes (length a) (nd_generation n) = Inr (x, length a + length cell)) cells es"
      using map_res_all2 [OF leaf(6)]
    proof (rule list_all2_mono)
      fix cell x assume x: "x \<in> set es \<and> encode_leaf_cell x = Inr cell"
      have "validate_stored_entry (le_key x) (le_value x) (nd_generation n) = Inr ()"
        using leaf(5) x by (auto simp: validate_sorted_leaf_entries_def and_then_eq_Inr dest: entry_checked)
      with x leaf_cell_round show "\<forall>a b. ?bytes = a @ cell @ b \<longrightarrow>
        decode_leaf_cell ?bytes (length a) (nd_generation n) = Inr (x, length a + length cell)" by metis
    qed
    note decoded = cells_decode [OF this]
    show ?thesis using decoded leaf e(6) LeafNode by (simp add: decode_kind_def Let_def validate_cell_floor_def)
  next
    case (InternalNode m)
    with e(3) have internal: "page_type = BtreeInternal" "l = in_leftmost_child m" "h = in_leftmost_child_hash m"
      "nd_level n \<noteq> 0" "validate_child_page page_id (in_leftmost_child m) = Inr ()"
      "validate_sorted_internal_entries page_id (in_leftmost_child m) (in_entries m) = Inr ()"
      "map_res encode_internal_cell (in_entries m) = Inr cells"
      by (auto simp: node_cells_def and_then_eq_Inr split: if_splits)
    have "list_all2 (\<lambda>cell x. \<forall>a b. ?bytes = a @ cell @ b \<longrightarrow>
        and_then (decode_internal_cell ?bytes (length a)) (\<lambda>(entry, cell_end).
          and_then (validate_child_page (pg_id page) (ie_right_child entry)) (\<lambda>_. Inr (entry, cell_end)))
        = Inr (x, length a + length cell)) cells (in_entries m)"
      using map_res_all2 [OF internal(7)]
    proof (rule list_all2_mono)
      fix cell x assume x: "x \<in> set (in_entries m) \<and> encode_internal_cell x = Inr cell"
      have "validate_child_page (pg_id page) (ie_right_child x) = Inr ()"
        using internal(6) x e(5) by (auto simp: validate_sorted_internal_entries_def and_then_eq_Inr dest: child_checked)
      with x internal_cell_round show "\<forall>a b. ?bytes = a @ cell @ b \<longrightarrow>
        and_then (decode_internal_cell ?bytes (length a)) (\<lambda>(entry, cell_end).
          and_then (validate_child_page (pg_id page) (ie_right_child entry)) (\<lambda>_. Inr (entry, cell_end)))
        = Inr (x, length a + length cell)" by (auto simp: internal_cell_round)
    qed
    note decoded = cells_decode [OF this]
    show ?thesis using decoded internal e(5,6) InternalNode by (simp add: decode_kind_def Let_def validate_cell_floor_def)
  qed
  have zeros: "\<not> list_ex (\<lambda>b. b \<noteq> 0) (replicate k (0::u8))" for k by (simp add: list_ex_iff)
  have "48 + length cells * 2 \<le> ?fe" using e(4) by simp
  then show ?thesis
    using e(2) assms(2,3) fields len counts free kind
    by (auto simp: node_decode_def Let_def node_sizes zeros not_less simp del: length_replicate dest: leD)
qed

section \<open>Overflow pages\<close>

definition overflow_header :: "overflow_page \<Rightarrow> bytes" where
  "overflow_header p =
    puts (replicate OVERFLOW_HEADER_SIZE 0)
      [(0, OVERFLOW_MAGIC), (4, le_bytes 2 OVERFLOW_FORMAT_VERSION), (6, le_bytes 2 OVERFLOW_FLAGS),
       (8, le_bytes 8 (op_tree_id p)), (16, le_bytes 8 (op_generation p)), (24, le_bytes 4 (op_chunk_index p)),
       (28, le_bytes 4 (op_chunk_count p)),
       (32, le_bytes 8 (case op_next_page_id p of Some next_page_id \<Rightarrow> next_page_id | None \<Rightarrow> BTREE_NO_PAGE_ID)),
       (40, le_bytes 4 (op_total_length p)), (44, le_bytes 4 (op_checksum p)),
       (48, le_bytes 4 (of_nat (length (op_chunk p)) :: u32))]"

lemma length_OVERFLOW_MAGIC [simp]: "length OVERFLOW_MAGIC = 4"
  by (simp add: OVERFLOW_MAGIC_def)

lemma length_overflow_header [simp]: "length (overflow_header p) = 56"
  by (simp add: overflow_header_def puts_def OVERFLOW_HEADER_SIZE_def)

lemma overflow_header_fields:
  assumes "bytes = overflow_header p @ rest"
  shows "slice bytes 0 4 = OVERFLOW_MAGIC" "read_u16 bytes 4 = OVERFLOW_FORMAT_VERSION" "read_u16 bytes 6 = OVERFLOW_FLAGS"
    "read_u64 bytes 8 = op_tree_id p" "read_u64 bytes 16 = op_generation p" "read_u32 bytes 24 = op_chunk_index p"
    "read_u32 bytes 28 = op_chunk_count p"
    "read_u64 bytes 32 = (case op_next_page_id p of Some next_page_id \<Rightarrow> next_page_id | None \<Rightarrow> BTREE_NO_PAGE_ID)"
    "read_u32 bytes 40 = op_total_length p" "read_u32 bytes 44 = op_checksum p"
    "read_u32 bytes 48 = of_nat (length (op_chunk p))" "slice bytes 52 4 = replicate 4 0"
  unfolding assms
  by (simp_all add: reads_def slice_left) (simp_all add: overflow_header_def puts_def OVERFLOW_HEADER_SIZE_def)

lemma overflow_encode_layout:
  assumes "overflow_encode page_id p = Inr page"
  shows "page = \<lparr>pg_id = unat page_id, pg_type = Overflow_page, pg_payload = overflow_header p @ op_chunk p\<rparr>"
    "length (op_chunk p) \<le> 4008"
proof -
  let ?P = "replicate (OVERFLOW_HEADER_SIZE + length (op_chunk p)) (0::u8)"
  let ?next = "case op_next_page_id p of Some next_page_id \<Rightarrow> next_page_id | None \<Rightarrow> BTREE_NO_PAGE_ID"
  have zeros: "?P = replicate OVERFLOW_HEADER_SIZE 0 @ replicate (length (op_chunk p)) 0" by (simp add: replicate_add)
  have header: "put (put (put (put (put (put (put (put (put (put (put (put ?P 0 OVERFLOW_MAGIC) 4 (le_bytes 2 OVERFLOW_FORMAT_VERSION))
      6 (le_bytes 2 OVERFLOW_FLAGS)) 8 (le_bytes 8 (op_tree_id p))) 16 (le_bytes 8 (op_generation p)))
      24 (le_bytes 4 (op_chunk_index p))) 28 (le_bytes 4 (op_chunk_count p))) 32 (le_bytes 8 ?next))
      40 (le_bytes 4 (op_total_length p))) 44 (le_bytes 4 (op_checksum p)))
      48 (le_bytes 4 (of_nat (length (op_chunk p)) :: u32))) OVERFLOW_HEADER_SIZE (op_chunk p)
      = overflow_header p @ op_chunk p"
    unfolding zeros by (simp add: put_left overflow_header_def puts_def OVERFLOW_HEADER_SIZE_def)
      (simp add: put_def)
  have "page_new (unat page_id) Overflow_page (overflow_header p @ op_chunk p) = Inr page"
    using assms unfolding overflow_encode_def by (auto simp: Let_def header and_then_eq_Inr split: if_splits)
  then show "page = \<lparr>pg_id = unat page_id, pg_type = Overflow_page, pg_payload = overflow_header p @ op_chunk p\<rparr>"
    "length (op_chunk p) \<le> 4008"
    by (auto simp: page_new_def and_then_eq_Inr split: if_splits)
qed

theorem overflow_round:
  assumes "overflow_encode page_id p = Inr page"
    "od_generation d = op_generation p" "od_total_length d = op_total_length p" "od_checksum d = op_checksum p"
  shows "overflow_decode page (op_tree_id p) d (op_chunk_index p) (op_chunk_count p) = Inr p"
proof -
  note page = overflow_encode_layout [OF assms(1)]
  let ?next = "case op_next_page_id p of Some next_page_id \<Rightarrow> next_page_id | None \<Rightarrow> BTREE_NO_PAGE_ID"
  let ?bytes = "overflow_header p @ op_chunk p"
  note fields = overflow_header_fields [OF refl [of ?bytes]]
  have id: "validate_overflow_page_id page_id = Inr ()"
    and chunk: "overflow_chunk_length (unat (op_total_length p)) (unat (op_chunk_index p)) (unat (op_chunk_count p))
      = Inr (length (op_chunk p))"
    and last: "(unat (op_chunk_index p) + 1 = unat (op_chunk_count p)) = (op_next_page_id p = None)"
    and "next": "\<And>q. op_next_page_id p = Some q \<Longrightarrow> validate_overflow_page_id q = Inr ()"
    using assms(1) by (auto simp: overflow_encode_def Let_def and_then_eq_Inr split: if_splits)
  have "unat (- 1 :: u64) = 2 ^ 64 - 1" by (simp add: unsigned_minus_1_eq_mask mask_eq_exp_minus_1)
  then have next_id: "(if ?next = BTREE_NO_PAGE_ID then Inr None
      else and_then (validate_overflow_page_id ?next) (\<lambda>_. Inr (Some ?next))) = Inr (op_next_page_id p)"
    using "next" by (auto simp: validate_overflow_page_id_def BTREE_NO_PAGE_ID_def MAX_PAGE_COUNT_def split: option.splits if_splits)
  have len: "unat (of_nat (length (op_chunk p)) :: u32) = length (op_chunk p)" using page(2) by simp
  have zeros: "\<not> list_ex (\<lambda>b. b \<noteq> 0) (replicate k (0::u8))" for k by (simp add: list_ex_iff)
  show ?thesis
    unfolding overflow_decode_def page(1)
    using id chunk last next_id len fields assms(2-4)
    by (simp add: Let_def OVERFLOW_HEADER_SIZE_def zeros)
qed

end
