(* ===== verification/FirstCommit.thy ===== *)
theory FirstCommit
  imports CursorViews BtreeRound
begin

text \<open>
  The first transaction of a database in memory, from opening an empty device to a committed page: each step of it
  succeeds.  It shows that the states and outcomes the other theories speak of are reached.
\<close>

definition empty_memory :: memory_page_device where
  "empty_memory = \<lparr>md_pages = [], md_flush_count = 0, md_writes = [], md_calls = []\<rparr>"

lemma open_fields:
  assumes "pager_with_cache_capacity ops n d = (Inr p, d')"
  shows "pc_entries (pgr_cache p) = []" "pc_reservations (pgr_cache p) = []" "pc_unflushed_owners (pgr_cache p) = []"
    "pc_capacity (pgr_cache p) = n div 4096" "pc_hand (pgr_cache p) = 0" "pgr_next_candidate_id p = 1"
  using assms by (auto simp: pager_with_cache_capacity_def cache_with_capacity_def bind_op_eq split: if_splits)

text \<open>A database just created: its root is the empty one, with only the metadata pages.\<close>

definition just_created :: "memory_page_device pager \<Rightarrow> bool" where
  "just_created p \<longleftrightarrow>
     pager_ok memory_valid md_pages p \<and> \<not> pgr_recovery_required p \<and> pgr_next_candidate_id p = 1 \<and>
     pc_lookup (pgr_cache p) = Map.empty \<and> pc_entries (pgr_cache p) = [] \<and> pc_reservations (pgr_cache p) = [] \<and>
     pc_unflushed_owners (pgr_cache p) = [] \<and> 0 < pc_capacity (pgr_cache p) \<and>
     rm_allocation_bitmap (pgr_active p) = allocation_bitmap_new \<and>
     sb_generation (rm_superblock (pgr_active p)) = 1 \<and> sb_database_revision (rm_superblock (pgr_active p)) = 0 \<and>
     length (md_pages (pc_device (pgr_cache p))) = 6 \<and>
     metadata_area (md_pages (pc_device (pgr_cache p))) (pgr_active p)"

lemma created:
  obtains p d' where "open_or_create memory_device_ops empty_memory = (Inr p, d')" "just_created p"
proof -
  have new: "memory_device_new 0 = Inr empty_memory" by (simp add: memory_device_new_def empty_memory_def)
  have cap: "\<exists>c. cache_with_capacity empty_memory DEFAULT_PAGE_CACHE_BYTES = Inr c"
    by (simp add: cache_with_capacity_def DEFAULT_PAGE_CACHE_BYTES_def MAX_PAGE_CACHE_BYTES_def)
  then obtain p d' where op: "pager_with_cache_capacity memory_device_ops DEFAULT_PAGE_CACHE_BYTES empty_memory = (Inr p, d')"
    using memory_opens [OF new] by blast
  have v: "memory_valid empty_memory" by (simp add: memory_valid_def empty_memory_def)
  note ok = memory.open_ok [OF v op] and fl = open_fields [OF op]
  have none: "memory_page_count empty_memory = 0" by (simp add: memory_page_count_def empty_memory_def)
  obtain active d1 where init: "initialize_empty_device memory_device_ops empty_memory = (Inr active, d1)"
    using memory_initializes by (metis empty_memory_def memory_page_device.simps(1))
  have act: "pgr_active p = active \<and> d' = d1"
  proof -
    have "open_metadata memory_device_ops empty_memory = (Inr active, d1)"
      using init none by (simp add: open_metadata_def memory_device_ops_def)
    moreover have "6 \<le> length (md_pages d1)" "memory_valid d1"
      using memory.initialize_served [OF v init] by (simp_all add: root_served_def)
    ultimately show ?thesis
      using op memory.validate_coverage_ok [of d1]
      by (auto simp: pager_with_cache_capacity_def bind_op_eq split: sum.splits)
  qed
  note served = memory.initialize_served [OF v init] and layout = memory.initialize_empty_ok [OF v init]
  have "just_created p"
    unfolding just_created_def
    using ok fl served(3,4) layout act
    by (auto simp: logically_matches_def recovered_metadata_empty_def Let_def DEFAULT_PAGE_CACHE_BYTES_def empty_memory_def)
  with op that show thesis by (simp add: open_or_create_def)
qed

section \<open>The steps\<close>

text \<open>The page the transaction writes: a tree of one leaf with one entry.\<close>

definition first_node :: node where
  "first_node = \<lparr>nd_tree_id = 1, nd_generation = 2, nd_level = 0,
     nd_kind = LeafNode [\<lparr>le_key = [97], le_value = InlineValue [98]\<rparr>]\<rparr>"

definition first_page :: page where
  "first_page = (case node_encode 6 first_node of Inr (page, _) \<Rightarrow> page | Inl _ \<Rightarrow> undefined)"

lemma first_node_encodes: "\<exists>h. node_encode 6 first_node = Inr (first_page, h)"
proof -
  let ?cell = "le_bytes 2 (1 :: u16) @ le_bytes 2 INLINE_CELL_FLAGS @ le_bytes 4 (1 :: u32) @ [97, 98]"
  have cells: "node_cells 6 first_node = Inr (BtreeLeaf, BTREE_NO_PAGE_ID, EMPTY_HASH, [?cell])"
    by (simp add: node_cells_def first_node_def validate_sorted_leaf_entries_def validate_stored_entry_def validate_key_def
        node_sizes encode_leaf_cell_def validate_strictly_sorted_def)
  have "\<exists>page h. node_encode 6 first_node = Inr (page, h)"
    using cells unfolding node_encode_def
    by (simp add: cells validate_tree_id_def Let_def node_sizes page_new_def validate_page_id_def first_node_def)
  then show ?thesis by (auto simp: first_page_def)
qed

lemma first_page_facts: "pg_id first_page = 6" "length (pg_payload first_page) = 4064"
  "nd_generation first_node \<le> generation \<Longrightarrow> (require \<Longrightarrow> nd_generation first_node = generation) \<Longrightarrow>
    node_decode first_page 1 generation require = Inr first_node"
proof -
  obtain h where h: "node_encode 6 first_node = Inr (first_page, h)" using first_node_encodes by blast
  show "pg_id first_page = 6" "length (pg_payload first_page) = 4064"
    by (rule node_encode_layout [OF h], simp add: length_concat rev_map [symmetric])+
  have "nd_tree_id first_node = 1" by (simp add: first_node_def)
  then show "nd_generation first_node \<le> generation \<Longrightarrow> (require \<Longrightarrow> nd_generation first_node = generation) \<Longrightarrow>
    node_decode first_page 1 generation require = Inr first_node" using node_round [OF h] by metis
qed

definition first_bitmap :: allocation_bitmap where
  "first_bitmap = allocation_bitmap_new\<lparr>
     ab_bits := (ab_bits allocation_bitmap_new)[0 := ab_bits allocation_bitmap_new ! 0 XOR push_bit 6 1], ab_allocated := 7\<rparr>"

definition first_bytes :: bytes where
  "first_bytes = (case page_encode_unsealed first_page of Inr bs \<Rightarrow> bs | Inl _ \<Rightarrow> [])"

definition first_entry :: cache_entry where
  "first_entry = \<lparr>ce_id = 6, ce_owner = Candidate 1, ce_bytes = first_bytes, ce_referenced = True,
     ce_dirty = True, ce_unsealed = True\<rparr>"

definition first_cache :: "memory_page_device pager \<Rightarrow> memory_page_device page_cache" where
  "first_cache p = (pgr_cache p)\<lparr>pc_entries := [first_entry], pc_lookup := [(Candidate 1, 6) \<mapsto> 0],
     pc_reservations := [(6, \<lparr>rv_candidate = 1, rv_written = True\<rparr>)]\<rparr>"

definition first_transaction :: "memory_page_device pager \<Rightarrow> memory_page_device write_transaction" where
  "first_transaction p =
     \<lparr>tx_pager = p\<lparr>pgr_cache := first_cache p, pgr_next_candidate_id := 2\<rparr>, tx_candidate = 1,
      tx_next_bitmap = first_bitmap, tx_new_page_end = 7, tx_btree_versions = Map.empty,
      tx_next_allocation_page_id = 7, tx_failed = False, tx_finished = False\<rparr>"

lemma new_allocates: "allocates allocation_bitmap_new pid \<longleftrightarrow> pid < 6"
  using allocation_bitmap_new_set(2) by (auto simp: allocated_set_def)

lemma first_bitmap_facts:
  "set_allocated allocation_bitmap_new 6 True = Inr first_bitmap" "bitmap_ok first_bitmap"
  "allocates first_bitmap pid \<longleftrightarrow> pid \<le> 6"
proof -
  obtain b where b: "set_allocated allocation_bitmap_new 6 True = Inr b" "bitmap_ok b"
    "\<And>q. allocates b q = (if q = 6 then True else allocates allocation_bitmap_new q)"
    by (rule set_allocated_round [OF allocation_bitmap_new_ok, of 6 True]) simp_all
  have "ab_bits allocation_bitmap_new ! (6 div 8) AND push_bit (6 mod 8) 1 = 0"
    using new_allocates [of 6] allocation_bitmap_new_set(1) by (simp add: allocates_def)
  then have "set_allocated allocation_bitmap_new 6 True = Inr first_bitmap"
    using allocation_bitmap_new_set(1) allocation_bitmap_new_ok
    by (simp add: set_allocated_def validate_page_id_def first_bitmap_def Let_def allocation_bitmap_new_def)
  with b show "set_allocated allocation_bitmap_new 6 True = Inr first_bitmap" "bitmap_ok first_bitmap"
    "allocates first_bitmap pid \<longleftrightarrow> pid \<le> 6"
    by (auto simp: new_allocates)
qed

lemma first_bytes_facts:
  "page_encode_unsealed first_page = Inr first_bytes" "length first_bytes = 4096"
  "decode_verified first_bytes = Inr first_page" "page_verify (seal first_bytes) = Inr ()"
proof -
  obtain bs where bs: "page_encode_unsealed first_page = Inr bs" "length bs = 4096"
    using page_encode_unsealed_header [of first_page] by (auto simp: first_page_facts has_header_def)
  show enc: "page_encode_unsealed first_page = Inr first_bytes" by (simp add: first_bytes_def bs(1))
  with bs have fb: "first_bytes = bs" by simp
  show len: "length first_bytes = 4096" using bs(2) by (simp add: fb)
  have "page_encode first_page = Inr (seal first_bytes)" using enc by (simp add: page_encode_def)
  from page_encode_ok [OF this] seal_decode [OF len]
  show "decode_verified first_bytes = Inr first_page" "page_verify (seal first_bytes) = Inr ()" by simp_all
qed

lemma first_steps:
  assumes "just_created p"
  obtains t0 t1 where "begin_write p = Inr t0" "allocate_page memory_device_ops t0 = (Inr 6, t1)"
    "write_new_page memory_device_ops first_page t1 = (Inr (), first_transaction p)"
    "tx_read_page_in_place memory_device_ops 6 (first_transaction p) = (Inr first_page, first_transaction p)"
    "(tx_step memory_device_ops)\<^sup>*\<^sup>* t0 (first_transaction p)"
proof -
  let ?c = "pgr_cache p"
  have p: "\<not> pgr_recovery_required p" "pgr_next_candidate_id p = 1" "pc_lookup ?c = Map.empty" "pc_entries ?c = []"
    "pc_reservations ?c = []" "0 < pc_capacity ?c" "rm_allocation_bitmap (pgr_active p) = allocation_bitmap_new"
    "length (md_pages (pc_device ?c)) = 6"
    using assms by (simp_all add: just_created_def)
  let ?t0 = "\<lparr>tx_pager = p\<lparr>pgr_next_candidate_id := 2\<rparr>, tx_candidate = 1,
      tx_next_bitmap = allocation_bitmap_new, tx_new_page_end = 0, tx_btree_versions = Map.empty,
      tx_next_allocation_page_id = 6, tx_failed = False, tx_finished = False\<rparr>"
  let ?t1 = "?t0\<lparr>tx_pager := p\<lparr>pgr_next_candidate_id := 2,
        pgr_cache := ?c\<lparr>pc_reservations := [(6, \<lparr>rv_candidate = 1, rv_written = False\<rparr>)]\<rparr>\<rparr>,
      tx_next_bitmap := first_bitmap, tx_new_page_end := 7, tx_next_allocation_page_id := 7\<rparr>"
  have b: "begin_write p = Inr ?t0" using p by (simp add: begin_write_def ensure_usable_def numeral_2_eq_2 [symmetric])
  have "find (\<lambda>q. \<not> allocates allocation_bitmap_new q \<and> \<not> allocates allocation_bitmap_new q) [6..<65536] = Some 6"
    by (subst find_upt_hit [of 6 6]) (simp_all add: new_allocates)
  then have sel: "select_page ?t0 = Inr (Some 6)"
    using first_free_find [OF allocation_bitmap_new_set(1) allocation_bitmap_new_set(1), of 6 65536] p(7)
    by (simp add: select_page_def active_bitmap_def del: upt_rec_numeral)
  have al: "allocate_page memory_device_ops ?t0 = (Inr 6, ?t1)"
    using p sel first_bitmap_facts(1)
    by (simp add: allocate_page_def ensure_open_def ensure_usable_def Let_def tx_cache_def active_bitmap_def on_tx_cache_def
        set_tx_cache_def reserve_candidate_page_def is_allocated_ok new_allocates get_reservation_def set_next_allocated_def
        memory_device_ops_def memory_page_count_def)
  have w: "write_new_page memory_device_ops first_page ?t1 = (Inr (), first_transaction p)"
    using p first_bytes_facts(1,2)
    by (simp add: write_new_page_def ensure_open_def ensure_usable_def is_new_def active_bitmap_def first_bitmap_facts(3)
        new_allocates first_page_facts(1) on_tx_cache_def tx_cache_def set_tx_cache_def
        write_unsealed_candidate_page_def write_candidate_def ensure_reserved_by_def get_reservation_def write_owned_def
        cache_insert_def Let_def set_written_def first_transaction_def first_cache_def first_entry_def entry_key_def)
  have r: "tx_read_page_in_place memory_device_ops 6 (first_transaction p) = (Inr first_page, first_transaction p)"
    using p first_bytes_facts(3)
    by (simp add: tx_read_page_in_place_def ensure_open_def ensure_usable_def ensure_data_page_def is_allocated_ok
        first_transaction_def first_bitmap_facts(3) is_new_def active_bitmap_def new_allocates on_tx_cache_def tx_cache_def
        set_tx_cache_def read_candidate_page_verified_def ensure_reserved_by_def get_reservation_def read_owned_def first_cache_def
        Let_def set_entry_def first_entry_def decode_verified_page_def)
  have "(tx_step memory_device_ops)\<^sup>*\<^sup>* ?t0 (first_transaction p)"
  proof (rule converse_rtranclp_into_rtranclp)
    show "tx_step memory_device_ops ?t0 ?t1" by (rule tx_step.allocates [OF al])
    show "(tx_step memory_device_ops)\<^sup>*\<^sup>* ?t1 (first_transaction p)" by (rule r_into_rtranclp) (rule tx_step.writes [OF w])
  qed
  with b al w r that show thesis by blast
qed

section \<open>The commit\<close>

lemma first_chunk_bits: "k < 2 \<Longrightarrow> chunk_bits first_bitmap k = chunk_bits allocation_bitmap_new k"
proof -
  assume k: "k < 2"
  have "slice ((ab_bits allocation_bitmap_new)[0 := x]) a n = slice (ab_bits allocation_bitmap_new) a n" if "0 < a" for x a n
    using that by (simp add: slice_def drop_update_swap)
  with k show ?thesis by (simp add: chunk_bits_def chunk_range first_bitmap_def split: prod.splits)
qed

lemma first_build:
  assumes c: "just_created p"
  obtains pm where
    "build_next_metadata (pgr_active p) 1 h (Some 6) first_bitmap = Inr pm" "pm_bitmap_pages pm = [None, None]"
    "\<And>hash. \<exists>bs. encode_superblock_page ((pm_superblock pm)\<lparr>sb_commit_hash := hash\<rparr>) first_bitmap = Inr bs \<and> length bs = 4096"
proof -
  let ?sb = "rm_superblock (pgr_active p)" and ?b = "rm_allocation_bitmap (pgr_active p)"
  have rok: "root_ok (pgr_active p)" and b: "?b = allocation_bitmap_new" and gen: "sb_generation ?sb = 1" "sb_database_revision ?sb = 0"
    using c by (simp_all add: just_created_def pager_ok_def root_served_def)
  obtain c0 c1 where two: "sb_bitmap_chunks ?sb = [c0, c1]" using rok by (auto simp: root_ok_def length_two)
  have cnt: "allocated_page_count first_bitmap = 7" by (simp add: allocated_page_count_def first_bitmap_def)
  have rev1: "validate_database_revision 1 = Inr 1" by (simp add: validate_database_revision_def MAX_DATABASE_REVISION_def)
  have chunks: "map (next_chunk ?b first_bitmap 2) (enumerate 0 [c0, c1]) = [(c0, None), (c1, None)]"
    by (simp add: next_chunk_def first_chunk_bits b)
  define sb where "sb = \<lparr>sb_slot = slot_inactive (sb_slot ?sb), sb_generation = 2, sb_database_revision = 1, sb_database_hash = h,
     sb_catalog_root_page_id = Some 6, sb_live_data_page_count = 1, sb_max_page_count = MAX_PAGE_COUNT,
     sb_commit_hash = commit_hash_new, sb_bitmap_chunks = [c0, c1]\<rparr>"
  have gens: "bc_generation c0 \<noteq> 0 \<and> bc_generation c0 \<le> 1" "bc_generation c1 \<noteq> 0 \<and> bc_generation c1 \<le> 1"
    using rok two gen by (simp_all add: root_ok_def superblock_validate_ok)
  then have sv: "superblock_validate (sb\<lparr>sb_commit_hash := x\<rparr>) = Inr ()" for x
    by (auto simp: superblock_validate_ok sb_def MAX_DATABASE_REVISION_def intro: order_trans)
  have bv: "validate_bitmap (sb\<lparr>sb_commit_hash := x\<rparr>) first_bitmap = Inr ()" for x
    unfolding validate_bitmap_ok using cnt by (simp add: sb_def first_bitmap_facts(3) list_all_iff)
  have self: "sb\<lparr>sb_commit_hash := commit_hash_new\<rparr> = sb" by (simp add: sb_def)
  have vb: "validate_bitmap ?sb ?b = Inr ()" using rok by (simp add: root_ok_def)
  have "build_next_metadata (pgr_active p) 1 h (Some 6) first_bitmap =
      Inr \<lparr>pm_superblock = sb, pm_allocation_bitmap = first_bitmap, pm_bitmap_pages = [None, None]\<rparr>"
    using vb rev1 sv [of commit_hash_new, unfolded self, unfolded sb_def] bv [of commit_hash_new, unfolded self, unfolded sb_def] chunks
    by (simp add: build_next_metadata_def gen two cnt checked_add_def sb_def Let_def)
  moreover have "\<exists>bs. encode_superblock_page (sb\<lparr>sb_commit_hash := x\<rparr>) first_bitmap = Inr bs \<and> length bs = 4096" for x
  proof -
    have "length (superblock_bits first_bitmap) = 3936" using first_bitmap_facts(2) by (simp add: bitmap_ok_def)
    from superblock_image_header [OF this] show ?thesis
      using encode_superblock_image [OF sv bv] by (auto simp: sb_def has_header_def seal_def)
  qed
  ultimately show thesis by (intro that) auto
qed

lemma first_cache_steps:
  assumes c: "just_created p"
  obtains d1 where
    "write_candidate_pages memory_device_ops 1 [6] (first_cache p) =
       (Inr (), (first_cache p)\<lparr>pc_device := d1, pc_unflushed_owners := [Candidate 1],
          pc_entries := [first_entry\<lparr>ce_bytes := seal first_bytes, ce_unsealed := False, ce_dirty := False\<rparr>]\<rparr>)"
    "memory_valid d1" "length (md_pages d1) = 7"
proof -
  let ?d = "pc_device (pgr_cache p)" and ?bs = "seal first_bytes"
  have p: "length (md_pages ?d) = 6" "memory_valid ?d" "pc_unflushed_owners (pgr_cache p) = []"
    using c by (simp_all add: just_created_def pager_ok_def cache_ok_def)
  have len: "length ?bs = 4096" using first_bytes_facts(2) by (simp add: seal_def)
  then have src: "source_pages ?bs = [?bs]" using source_pages_concat [of "[?bs]"] by simp
  obtain d1 where d1: "memory_write_page 6 ?bs ?d = (Inr (), d1)" "memory_valid d1" "md_pages d1 = write_at (md_pages ?d) 6 ?bs"
    using memory_write_succeeds [OF p(2), of 6 ?bs] p(1) len by auto
  let ?d2 = "d1\<lparr>md_calls := butlast (md_calls d1)\<rparr>"
  let ?d3 = "?d2\<lparr>md_calls := md_calls ?d2 @ [(6, 1)]\<rparr>"
  have "?bs \<noteq> []" using len by auto
  then have w: "memory_write_pages 6 ?bs ?d = (Inr (), ?d3)"
    using len src d1(1) by (simp add: memory_write_pages_def)
  let ?e = "first_entry\<lparr>ce_bytes := ?bs, ce_unsealed := False\<rparr>"
  have e: "seal_entry first_entry = ?e" by (simp add: seal_entry_def first_entry_def)
  have sealed: "sealed_bytes first_entry = ?bs" by (simp add: sealed_bytes_def first_entry_def)
  have f: "ce_id first_entry = 6" "ce_dirty first_entry" "ce_owner first_entry = Candidate 1" by (simp_all add: first_entry_def)
  have run: "cache_write_run memory_device_ops [0] ?bs ((first_cache p)\<lparr>pc_entries := [?e]\<rparr>) =
      (Inr (), (first_cache p)\<lparr>pc_device := ?d3, pc_unflushed_owners := [Candidate 1], pc_entries := [?e\<lparr>ce_dirty := False\<rparr>]\<rparr>)"
    using w p f
    by (simp add: cache_write_run_def write_placeholders_def first_cache_def memory_device_ops_def memory_page_count_def
        on_device_def mark_clean_def Let_def push_unflushed_def set_entry_def)
  have "write_candidate_pages memory_device_ops 1 [6] (first_cache p) =
      (Inr (), (first_cache p)\<lparr>pc_device := ?d3, pc_unflushed_owners := [Candidate 1], pc_entries := [?e\<lparr>ce_dirty := False\<rparr>]\<rparr>)"
    using run f
    by (simp add: e sealed write_candidate_pages_def first_cache_def Let_def cache_write_run_def [of _ "[]"] set_entry_def)
  moreover have "memory_valid ?d3" "length (md_pages ?d3) = 7" using d1(2,3) p(1) by (simp_all add: memory_valid_def)
  ultimately show thesis by (rule that)
qed

lemma first_commit:
  assumes c: "just_created p"
  shows "\<exists>p'. commit memory_device_ops 1 h (Some 6) (first_transaction p) = (Inr (), p')"
proof -
  let ?t = "first_transaction p"
  have p: "\<not> pgr_recovery_required p" "rm_allocation_bitmap (pgr_active p) = allocation_bitmap_new"
    using c by (simp_all add: just_created_def)
  obtain pm where pm: "build_next_metadata (pgr_active p) 1 h (Some 6) first_bitmap = Inr pm" "pm_bitmap_pages pm = [None, None]"
    "\<And>hash. \<exists>bs. encode_superblock_page ((pm_superblock pm)\<lparr>sb_commit_hash := hash\<rparr>) first_bitmap = Inr bs \<and> length bs = 4096"
    by (rule first_build [OF c]) (rule that)
  have rok: "root_ok (pgr_active p)" using c by (simp add: just_created_def pager_ok_def root_served_def)
  obtain c0 c1 where two: "sb_bitmap_chunks (rm_superblock (pgr_active p)) = [c0, c1]"
    using rok by (auto simp: root_ok_def length_two)
  have pmb: "pm_allocation_bitmap pm = first_bitmap" by (rule build_next_spec(6) [OF rok pm(1) two])
  obtain d1 where d1: "write_candidate_pages memory_device_ops 1 [6] (first_cache p) =
       (Inr (), (first_cache p)\<lparr>pc_device := d1, pc_unflushed_owners := [Candidate 1],
          pc_entries := [first_entry\<lparr>ce_bytes := seal first_bytes, ce_unsealed := False, ce_dirty := False\<rparr>]\<rparr>)"
    "memory_valid d1" "length (md_pages d1) = 7"
    by (rule first_cache_steps [OF c]) (rule that)
  let ?e = "first_entry\<lparr>ce_bytes := seal first_bytes, ce_unsealed := False, ce_dirty := False\<rparr>"
  define x1 where "x1 = (first_cache p)\<lparr>pc_device := d1, pc_unflushed_owners := [Candidate 1], pc_entries := [?e]\<rparr>"
  have news: "allocated_since first_bitmap allocation_bitmap_new 7 = [6]"
    using allocated_since_filter [of first_bitmap allocation_bitmap_new 7] first_bitmap_facts(2) allocation_bitmap_new_set(1)
    by (simp add: bitmap_ok_def first_bitmap_facts(3) new_allocates upt_conv_Cons)
  define hash where "hash = commit_hash_page commit_hash_new 6 (page_checksum (seal first_bytes))"
  have hp: "hash_pages memory_device_ops 1 commit_hash_new [6] x1 = (Inr hash, x1)"
    by (simp add: candidate_page_checksum_def ensure_reserved_by_def get_reservation_def first_cache_def Let_def hash_def x1_def)
  obtain sb where sb: "encode_superblock_page ((pm_superblock pm)\<lparr>sb_commit_hash := hash\<rparr>) first_bitmap = Inr sb" "length sb = 4096"
    using pm(3) by blast
  have slot: "slot_page_id (sb_slot (pm_superblock pm)) < 6" by (cases "sb_slot (pm_superblock pm)") simp_all
  obtain d2 where d2: "memory_write_page (slot_page_id (sb_slot (pm_superblock pm))) sb d1 = (Inr (), d2)"
    using memory_write_succeeds [OF d1(2), of "slot_page_id (sb_slot (pm_superblock pm))" sb] slot d1(3) sb(2) by auto
  have chunks: "write_chunks memory_device_ops pm x1 = (Inr (), x1)" by (simp add: write_chunks_def pm(2))
  define x2 where "x2 = x1\<lparr>pc_device := d2\<rparr>"
  have w2: "on_device (dev_write_page memory_device_ops (slot_page_id (sb_slot (pm_superblock pm))) sb) x1 = (Inr (), x2)"
    using d2 by (simp add: on_device_def memory_device_ops_def x2_def x1_def)
  define x3 where "x3 = x2\<lparr>pc_device := d2\<lparr>md_flush_count := md_flush_count d2 + 1\<rparr>, pc_unflushed_owners := []\<rparr>"
  have fl: "flush_device memory_device_ops x2 = (Inr (), x3)"
    by (simp add: flush_device_def on_device_def memory_device_ops_def memory_flush_def x3_def x2_def)
  obtain c4 where ins: "install_candidate memory_device_ops 1 allocation_bitmap_new first_bitmap x3 = (Inr (), c4)"
    by (simp add: install_candidate_def Let_def has_dirty_pages_def first_cache_def is_allocated_ok first_bitmap_facts(3)
        x3_def x2_def x1_def)
  have open_t: "ensure_open ?t = Inr ()" using p(1) by (simp add: ensure_open_def first_transaction_def ensure_usable_def)
  have fields: "tx_next_bitmap ?t = first_bitmap" "active_bitmap ?t = allocation_bitmap_new" "tx_new_page_end ?t = 7"
    "tx_candidate ?t = 1" "pgr_active (tx_pager ?t) = pgr_active p" "tx_cache ?t = first_cache p"
    using p(2) by (simp_all add: first_transaction_def active_bitmap_def tx_cache_def)
  have written: "candidate_page_written (first_cache p) 1 6"
    by (simp add: candidate_page_written_def get_reservation_def first_cache_def)
  have step: "on_tx_cache m (set_tx_cache c ?t) = (case m c of (r, c') \<Rightarrow> (r, set_tx_cache c' ?t))"
    for m :: "(memory_page_device page_cache, 'x) op" and c
    by (simp add: on_tx_cache_def set_tx_cache_def tx_cache_def split: prod.split)
  have first: "on_tx_cache (write_candidate_pages memory_device_ops 1 [6]) ?t = (Inr (), set_tx_cache x1 ?t)"
    unfolding on_tx_cache_def fields d1(1) by (simp add: x1_def)
  have rev1: "validate_database_revision 1 = Inr 1" by (simp add: validate_database_revision_def MAX_DATABASE_REVISION_def)
  have "\<exists>t'. commit_transaction memory_device_ops 1 h (Some 6) ?t = (Inr (), t')"
    unfolding commit_transaction_def open_t bind_lift_Inr Let_def fields news rev1 or_fail_def
    by (simp add: written pm(1) first step hp sb(1) chunks w2 fl ins pmb del: hash_pages.simps One_nat_def)
  then show ?thesis by (auto simp: commit_def)
qed

section \<open>Reopening\<close>

lemma memory_reads:
  assumes "\<forall>pid \<in> set pids. pid < length (md_pages d)"
  shows "read_pages memory_device_ops pids d = (Inr (map ((!) (md_pages d)) pids), d)"
  using assms by (induction pids) (simp_all add: memory_device_ops_def memory_read_page_def memory_page_count_def)

lemma memory_durable:
  assumes "\<forall>pid \<in> set pids. pid < 65536"
  shows "\<exists>b. durable_pages memory_device_ops newest previous (length (md_pages d)) hash pids d = (Inr b, d)"
  using assms
proof (induction pids arbitrary: hash)
  case (Cons pid pids)
  let ?next = "commit_hash_page hash pid (page_checksum (md_pages d ! pid))"
  obtain b b' where "durable_pages memory_device_ops newest previous (length (md_pages d)) hash pids d = (Inr b, d)"
    "durable_pages memory_device_ops newest previous (length (md_pages d)) ?next pids d = (Inr b', d)"
    using Cons.IH Cons.prems by (metis list.set_intros(2))
  moreover have "dev_read_page memory_device_ops pid d = (Inr (md_pages d ! pid), d)" if "\<not> length (md_pages d) \<le> pid"
    using that by (simp add: memory_device_ops_def memory_read_page_def memory_page_count_def)
  ultimately show ?case
    using Cons.prems by (cases "verify_expected_page pid (md_pages d ! pid)") (auto simp: is_allocated_ok)
qed simp

lemma memory_recovers:
  assumes six: "6 \<le> length (md_pages d)" and rec: "recover_metadata (take 6 (md_pages d)) = Inr (newest, previous)"
  shows "\<exists>active. recover_device_metadata memory_device_ops d = (Inr active, d)"
proof -
  have "map ((!) (md_pages d)) [0..<6] = take 6 (md_pages d)" using six by (intro nth_equalityI) simp_all
  then have rd: "read_pages memory_device_ops [0..<6] d = (Inr (take 6 (md_pages d)), d)"
    using memory_reads [of "[0..<6]" d] six by simp
  have count: "dev_page_count memory_device_ops d = length (md_pages d)"
    by (simp add: memory_device_ops_def memory_page_count_def)
  obtain b where "previous = Some old \<Longrightarrow> commit_is_durable memory_device_ops newest old d = (Inr (b old), d)" for old
    using memory_durable [of "[6..<65536]" newest _ d commit_hash_new]
    by (simp add: commit_is_durable_def count del: upt_rec_numeral durable_pages.simps) metis
  then show ?thesis
    using six rd rec by (cases previous) (simp_all add: recover_device_metadata_def count del: read_pages.simps)
qed

lemma fresh_recovers:
  assumes "just_created p"
  shows "\<exists>newest previous. recover_metadata (take 6 (md_pages (pc_device (pgr_cache p)))) = Inr (newest, previous)"
proof -
  let ?pages = "md_pages (pc_device (pgr_cache p))"
  have pub: "area_ok ?pages (pgr_active p)" and six: "length ?pages = 6" using assms by (simp_all add: just_created_def metadata_area_ok)
  have build: "\<exists>pm. build_next_metadata (pgr_active p) 1 0 (Some 6) first_bitmap = Inr pm \<and> pm_bitmap_pages pm = [None, None] \<and>
      (\<exists>sb. encode_superblock_page (rm_superblock (pending_root pm 0)) first_bitmap = Inr sb)"
    by (rule first_build [OF assms, of 0]) (auto simp: pending_root_def)
  then obtain pm sb where pm: "build_next_metadata (pgr_active p) 1 0 (Some 6) first_bitmap = Inr pm" "pm_bitmap_pages pm = [None, None]"
    "encode_superblock_page (rm_superblock (pending_root pm 0)) first_bitmap = Inr sb" by blast
  from crash_recovers [OF pub first_bitmap_facts(2) pm(1) _ pm(3), of ?pages] show ?thesis
    by (auto simp: checksums_differ_def chunk_writes_of_def pm(2) crash_image_def six)
qed

text \<open>Its metadata area, the area a first commit would write to.\<close>

lemma zero_page_invalid: "page_verify (replicate 4096 0) = Inl INVALID_PAGE"
proof -
  have "hd (take 8 (replicate 4096 0)) \<noteq> hd PAGE_MAGIC" by (simp add: PAGE_MAGIC_def)
  then have "take 8 (replicate 4096 0) \<noteq> PAGE_MAGIC" by metis
  then show ?thesis unfolding page_verify_def Let_def by simp
qed

lemma crash_one_page:
  assumes "(k, w) \<in> set writes" "x = w \<or> page_verify x = Inl INVALID_PAGE"
  shows "crash_image pages writes (pages[k := x])"
  unfolding crash_image_def
proof (intro conjI allI impI)
  fix i assume "i < length pages"
  with assms show "pages[k := x] ! i = pages ! i \<or>
      (\<exists>w. (i, w) \<in> set writes \<and> (pages[k := x] ! i = w \<or> page_verify (pages[k := x] ! i) = Inl INVALID_PAGE))"
    by (cases "i = k") auto
qed simp

lemma first_area:
  obtains pages active pm where "metadata_area pages active" "sb_generation (rm_superblock active) = 1"
    "build_next_metadata active 1 h (Some 6) first_bitmap = Inr pm" "chunk_writes_of pm = []"
    "\<And>hash. \<exists>sb. encode_superblock_page (rm_superblock (pending_root pm hash)) first_bitmap = Inr sb"
proof -
  obtain p d' where c: "just_created p" by (rule created)
  obtain pm where pm: "build_next_metadata (pgr_active p) 1 h (Some 6) first_bitmap = Inr pm" "pm_bitmap_pages pm = [None, None]"
    "\<And>hash. \<exists>bs. encode_superblock_page ((pm_superblock pm)\<lparr>sb_commit_hash := hash\<rparr>) first_bitmap = Inr bs \<and> length bs = 4096"
    by (rule first_build [OF c]) (rule that)
  then have "chunk_writes_of pm = []" "\<And>hash. \<exists>sb. encode_superblock_page (rm_superblock (pending_root pm hash)) first_bitmap = Inr sb"
    by (auto simp: chunk_writes_of_def pending_root_def)
  with c pm(1) show thesis by (intro that [of "md_pages (pc_device (pgr_cache p))" "pgr_active p" pm]) (simp_all add: just_created_def)
qed

text \<open>The whole run.\<close>

lemma first_run:
  obtains p t0 t p' where "pager_ok memory_valid md_pages p" "begin_write p = Inr t0"
    "(tx_step memory_device_ops)\<^sup>*\<^sup>* t0 t" "commit memory_device_ops 1 h (Some 6) t = (Inr (), p')"
    "allocates (tx_next_bitmap t) 6"
    "\<exists>active. recover_device_metadata memory_device_ops (pc_device (pgr_cache p')) = (Inr active, pc_device (pgr_cache p'))"
proof -
  obtain p d' where c: "just_created p" by (rule created)
  obtain t0 t1 where s: "begin_write p = Inr t0" "(tx_step memory_device_ops)\<^sup>*\<^sup>* t0 (first_transaction p)"
    by (rule first_steps [OF c])
  obtain p' where m: "commit memory_device_ops 1 h (Some 6) (first_transaction p) = (Inr (), p')"
    using first_commit [OF c] by blast
  have ok: "pager_ok memory_valid md_pages p" using c by (simp add: just_created_def)
  note tr = memory.transaction_ok [OF ok s]
  have cd: "commit_done memory_valid md_pages (first_transaction p) 1 h (Some 6) p'"
    by (rule memory.commit_ok(1) [OF tr(1) m refl])
  have "recover_metadata (take 6 (md_pages (pc_device (pgr_cache p')))) = Inr (pgr_active p', Some (pgr_active p))"
    and "6 \<le> length (md_pages (pc_device (pgr_cache p')))"
    using cd tr(3) by (simp_all add: commit_done_def Let_def pager_pages_def pager_ok_def root_served_def)
  from memory_recovers [OF this(2,1)] have
    "\<exists>active. recover_device_metadata memory_device_ops (pc_device (pgr_cache p')) = (Inr active, pc_device (pgr_cache p'))" .
  moreover have "allocates (tx_next_bitmap (first_transaction p)) 6"
    by (simp add: first_transaction_def first_bitmap_facts(3))
  ultimately show thesis using that [OF ok s m] by blast
qed

section \<open>The tree it wrote\<close>

lemma first_tree:
  assumes c: "just_created p"
  shows "tx_generation (first_transaction p) = Inr 2"
    "holds_tree (transaction_shows md_pages (first_transaction p)) 1 2 (owns_page (first_transaction p)) 0 None 6 [6] [([97], [98])]"
proof -
  let ?t = "first_transaction p"
  have g: "sb_generation (rm_superblock (pgr_active p)) = 1" "\<not> pgr_recovery_required p" using c by (simp_all add: just_created_def)
  show "tx_generation ?t = Inr 2"
    using g by (simp add: tx_generation_def ensure_open_def ensure_usable_def first_transaction_def checked_add_def)
  obtain t0 t1 where s: "begin_write p = Inr t0" "(tx_step memory_device_ops)\<^sup>*\<^sup>* t0 ?t"
    "tx_read_page_in_place memory_device_ops 6 ?t = (Inr first_page, ?t)"
    by (rule first_steps [OF c])
  have "pager_ok memory_valid md_pages p" using c by (simp add: just_created_def)
  from memory.transaction_ok(1) [OF this s(1,2)] have ok: "tx_ok memory_valid md_pages ?t" by simp
  have "rv_read_page (transaction_view memory_device_ops) 6 ?t = (Inr first_page, ?t)"
    using s(3) by (simp add: transaction_view_def)
  from memory.transaction_reader.read_page [OF ok this] have page: "transaction_shows md_pages ?t 6 = Some first_page" by simp
  have "node_decode first_page 1 2 (owns_page ?t 6) = Inr first_node"
    by (rule first_page_facts(3)) (simp_all add: first_node_def)
  then show "holds_tree (transaction_shows md_pages ?t) 1 2 (owns_page ?t) 0 None 6 [6] [([97], [98])]"
    using page by (intro holds_tree.holds_leaf [where n = first_node and es = "[\<lparr>le_key = [97], le_value = InlineValue [98]\<rparr>]"])
      (simp_all add: first_node_def validate_child_generation_def)
qed

lemma first_commit_done:
  assumes c: "just_created p"
  obtains t0 p' where "begin_write p = Inr t0" "(tx_step memory_device_ops)\<^sup>*\<^sup>* t0 (first_transaction p)"
    "commit memory_device_ops 1 h (Some 6) (first_transaction p) = (Inr (), p')"
proof -
  obtain t0 t1 where s: "begin_write p = Inr t0" "(tx_step memory_device_ops)\<^sup>*\<^sup>* t0 (first_transaction p)"
    by (rule first_steps [OF c])
  with first_commit [OF c, of h] that show thesis by blast
qed

end
