(* ===== verification/JsonCodec.thy ===== *)
theory JsonCodec
  imports KeyCodec
begin

text \<open>
  Canonical JSON text (\<^verbatim>\<open>CanonicalJsonEncoder\<close> of \<^verbatim>\<open>paged_codec.rs\<close>), which JSON columns and catalog items
  are stored as: object keys in order, no insignificant whitespace, bounded in depth, in nodes and in
  bytes. How a number and a string are written, and how text is parsed, are \<^verbatim>\<open>serde_json\<close>'s.

  An object is the list of its entries in the order of a \<^verbatim>\<open>BTreeMap\<close>.
\<close>

definition MAX_PAGED_VALUE_BYTES :: nat where
  "MAX_PAGED_VALUE_BYTES = 1024 * 1024"

definition MAX_JSON_DEPTH :: nat where
  "MAX_JSON_DEPTH = 64"

definition MAX_JSON_NODES :: nat where
  "MAX_JSON_NODES = 1000000"

record canonical_json_encoder =
  cje_bytes :: bytes
  cje_nodes :: nat

definition json_append :: "canonical_json_encoder \<Rightarrow> bytes \<Rightarrow> canonical_json_encoder res" where
  "json_append e text =
    (if MAX_PAGED_VALUE_BYTES < length (cje_bytes e) + length text then Inl PAGED_VALUE_TOO_LARGE
     else Inr (e\<lparr>cje_bytes := cje_bytes e @ text\<rparr>))"

definition append_json_string ::
  "'n serde \<Rightarrow> canonical_json_encoder \<Rightarrow> str \<Rightarrow> canonical_json_encoder res" where
  "append_json_string js e s = json_append e (string_text js s)"

text \<open>The ASCII text of the literals and punctuation.\<close>

definition ascii :: "string \<Rightarrow> bytes" where
  "ascii s = map (\<lambda>c. of_nat (of_char c)) s"

text \<open>
  \<open>encode_items\<close> and \<open>encode_entries\<close> are the loops over an array and an object; \<open>first\<close> says that
  nothing precedes the item, \<^verbatim>\<open>index == 0\<close>.
\<close>

fun json_encode ::
    "'n serde \<Rightarrow> canonical_json_encoder \<Rightarrow> 'n json \<Rightarrow> nat \<Rightarrow> canonical_json_encoder res"
  and encode_items ::
    "'n serde \<Rightarrow> canonical_json_encoder \<Rightarrow> bool \<Rightarrow> 'n json list \<Rightarrow> nat
     \<Rightarrow> canonical_json_encoder res"
  and encode_entries ::
    "'n serde \<Rightarrow> canonical_json_encoder \<Rightarrow> bool \<Rightarrow> (str \<times> 'n json) list \<Rightarrow> nat
     \<Rightarrow> canonical_json_encoder res" where
  "json_encode js e v depth =
    (if MAX_JSON_DEPTH < depth then Inl PAGED_VALUE_TOO_LARGE
     else let e = e\<lparr>cje_nodes := cje_nodes e + 1\<rparr> in
       if MAX_JSON_NODES < cje_nodes e then Inl PAGED_VALUE_TOO_LARGE
       else case v of
         Null \<Rightarrow> json_append e (ascii ''null'')
       | Bool b \<Rightarrow> json_append e (if b then ascii ''true'' else ascii ''false'')
       | Number n \<Rightarrow> json_append e (number_text js n)
       | String s \<Rightarrow> append_json_string js e s
       | Array vs \<Rightarrow>
           and_then (json_append e (ascii ''['')) (\<lambda>e.
           and_then (encode_items js e True vs depth) (\<lambda>e.
             json_append e (ascii '']'')))
       | Object kvs \<Rightarrow>
           and_then (json_append e (ascii ''{'')) (\<lambda>e.
           and_then (encode_entries js e True kvs depth) (\<lambda>e.
             json_append e (ascii ''}''))))"
| "encode_items js e first [] depth = Inr e"
| "encode_items js e first (v # vs) depth =
    and_then (if first then Inr e else json_append e (ascii '','')) (\<lambda>e.
    and_then (json_encode js e v (depth + 1)) (\<lambda>e.
      encode_items js e False vs depth))"
| "encode_entries js e first [] depth = Inr e"
| "encode_entries js e first ((k, v) # kvs) depth =
    and_then (if first then Inr e else json_append e (ascii '','')) (\<lambda>e.
    and_then (append_json_string js e k) (\<lambda>e.
    and_then (json_append e (ascii '':'')) (\<lambda>e.
    and_then (json_encode js e v (depth + 1)) (\<lambda>e.
      encode_entries js e False kvs depth))))"

declare json_encode.simps [simp del]

definition encode_canonical_json :: "'n serde \<Rightarrow> 'n json \<Rightarrow> bytes res" where
  "encode_canonical_json js v =
    and_then (json_encode js \<lparr>cje_bytes = [], cje_nodes = 0\<rparr> v 0) (\<lambda>e. Inr (cje_bytes e))"

definition decode_canonical_json :: "'n serde \<Rightarrow> bytes \<Rightarrow> 'n json res" where
  "decode_canonical_json js bytes =
    and_then (ok_or PAGED_STORAGE_CORRUPT (from_slice js bytes)) (\<lambda>v.
    and_then (map_err as_storage_corruption (encode_canonical_json js v)) (\<lambda>text.
      if text \<noteq> bytes then Inl PAGED_STORAGE_CORRUPT else Inr v))"

section \<open>The text a value stands for\<close>

text \<open>The same text without bounds, and the depth and the number of nodes the bounds are on.\<close>

fun json_text :: "'n serde \<Rightarrow> 'n json \<Rightarrow> bytes"
  and items_text :: "'n serde \<Rightarrow> bool \<Rightarrow> 'n json list \<Rightarrow> bytes"
  and entries_text :: "'n serde \<Rightarrow> bool \<Rightarrow> (str \<times> 'n json) list \<Rightarrow> bytes" where
  "json_text js Null = ascii ''null''"
| "json_text js (Bool b) = (if b then ascii ''true'' else ascii ''false'')"
| "json_text js (Number n) = number_text js n"
| "json_text js (String s) = string_text js s"
| "json_text js (Array vs) = ascii ''['' @ items_text js True vs @ ascii '']''"
| "json_text js (Object kvs) = ascii ''{'' @ entries_text js True kvs @ ascii ''}''"
| "items_text js first [] = []"
| "items_text js first (v # vs) =
    (if first then [] else ascii '','') @ json_text js v @ items_text js False vs"
| "entries_text js first [] = []"
| "entries_text js first ((k, v) # kvs) =
    (if first then [] else ascii '','') @ string_text js k @ ascii '':'' @ json_text js v
    @ entries_text js False kvs"

text \<open>How far a value nests below its own level, and how many values it holds, itself included.\<close>

fun json_depth :: "'n json \<Rightarrow> nat" where
  "json_depth (Array vs) = Max (insert 0 (set (map (\<lambda>v. Suc (json_depth v)) vs)))"
| "json_depth (Object kvs) = Max (insert 0 (set (map (\<lambda>kv. Suc (json_depth (snd kv))) kvs)))"
| "json_depth _ = 0"

fun json_nodes :: "'n json \<Rightarrow> nat" where
  "json_nodes (Array vs) = Suc (sum_list (map json_nodes vs))"
| "json_nodes (Object kvs) = Suc (sum_list (map (\<lambda>kv. json_nodes (snd kv)) kvs))"
| "json_nodes _ = 1"

lemma json_nodes_pos: "0 < json_nodes v"
  by (cases v) auto

definition json_grow ::
  "canonical_json_encoder \<Rightarrow> bool \<Rightarrow> nat \<Rightarrow> bytes \<Rightarrow> canonical_json_encoder res" where
  "json_grow e nests nodes text =
    (if nests \<and> cje_nodes e + nodes \<le> MAX_JSON_NODES
        \<and> length (cje_bytes e) + length text \<le> MAX_PAGED_VALUE_BYTES
     then Inr \<lparr>cje_bytes = cje_bytes e @ text, cje_nodes = cje_nodes e + nodes\<rparr>
     else Inl PAGED_VALUE_TOO_LARGE)"

lemma json_append_grow:
  "cje_nodes e \<le> MAX_JSON_NODES \<Longrightarrow> json_append e text = json_grow e True 0 text"
  by (auto simp: json_append_def json_grow_def)

lemma json_grow_grow:
  "and_then (json_grow e a m s) (\<lambda>e'. json_grow e' b n t) = json_grow e (a \<and> b) (m + n) (s @ t)"
  by (auto simp: json_grow_def)

lemma json_grow_and_then:
  "(\<And>e'. cje_nodes e' \<le> MAX_JSON_NODES \<Longrightarrow> length (cje_bytes e') \<le> MAX_PAGED_VALUE_BYTES \<Longrightarrow>
      f e' = json_grow e' b n t) \<Longrightarrow>
   and_then (json_grow e a m s) f = json_grow e (a \<and> b) (m + n) (s @ t)"
  by (auto simp: json_grow_def)

lemma json_append_nothing:
  "length (cje_bytes e) \<le> MAX_PAGED_VALUE_BYTES \<Longrightarrow> json_append e [] = Inr e"
  by (simp add: json_append_def)

lemma json_append_then:
  assumes "\<And>e'. cje_nodes e' \<le> MAX_JSON_NODES \<Longrightarrow>
      length (cje_bytes e') \<le> MAX_PAGED_VALUE_BYTES \<Longrightarrow> f e' = json_grow e' b n t"
    and "cje_nodes e \<le> MAX_JSON_NODES"
  shows "and_then (json_append e s) f = json_grow e b n (s @ t)"
  using json_grow_and_then [OF assms(1), of e True 0 s] by (simp add: json_append_grow [OF assms(2)])

lemma json_append_nest:
  assumes "cje_nodes e \<le> MAX_JSON_NODES"
    and f: "\<And>e'. cje_nodes e' \<le> MAX_JSON_NODES \<Longrightarrow>
      length (cje_bytes e') \<le> MAX_PAGED_VALUE_BYTES \<Longrightarrow> f e' = json_grow e' b n t"
  shows "and_then (json_append e a) (\<lambda>e. and_then (f e) (\<lambda>e. json_append e z))
    = json_grow e b n (a @ t @ z)"
proof -
  have "and_then (f e') (\<lambda>e. json_append e z) = json_grow e' b n (t @ z)"
    if "cje_nodes e' \<le> MAX_JSON_NODES" "length (cje_bytes e') \<le> MAX_PAGED_VALUE_BYTES" for e'
    using json_grow_and_then [of "\<lambda>e. json_append e z" True 0 z e' b n t] json_append_grow
    by (simp add: f [OF that])
  from json_grow_and_then [OF this, of e True 0 a] show ?thesis
    by (simp add: json_append_grow [OF assms(1)])
qed

lemma json_grow_enter:
  "json_grow (e\<lparr>cje_nodes := Suc (cje_nodes e)\<rparr>) b n t = json_grow e b (Suc n) t"
  by (simp add: json_grow_def)

lemma depth_below:
  "d \<le> m \<Longrightarrow>
   d + Max (insert 0 ((\<lambda>x. Suc (f x)) ` set xs)) \<le> m \<longleftrightarrow> (\<forall>x \<in> set xs. Suc (d + f x) \<le> (m :: nat))"
proof -
  assume d: "d \<le> m"
  then have "d + Max (insert 0 ((\<lambda>x. Suc (f x)) ` set xs)) \<le> m \<longleftrightarrow>
      Max (insert 0 ((\<lambda>x. Suc (f x)) ` set xs)) \<le> m - d" by linarith
  also have "\<dots> \<longleftrightarrow> (\<forall>x \<in> set xs. Suc (f x) \<le> m - d)"
    by (subst Max_le_iff) auto
  also have "\<dots> \<longleftrightarrow> (\<forall>x \<in> set xs. Suc (d + f x) \<le> m)" using d by auto
  finally show ?thesis .
qed

lemma json_encode_grow:
  "json_encode js e v d = json_grow e (d + json_depth v \<le> MAX_JSON_DEPTH) (json_nodes v) (json_text js v)"
  and "cje_nodes e \<le> MAX_JSON_NODES \<Longrightarrow> length (cje_bytes e) \<le> MAX_PAGED_VALUE_BYTES \<Longrightarrow>
    encode_items js e first vs d =
      json_grow e (\<forall>v \<in> set vs. Suc (d + json_depth v) \<le> MAX_JSON_DEPTH)
        (sum_list (map json_nodes vs)) (items_text js first vs)"
  and "cje_nodes e \<le> MAX_JSON_NODES \<Longrightarrow> length (cje_bytes e) \<le> MAX_PAGED_VALUE_BYTES \<Longrightarrow>
    encode_entries js e first kvs d =
      json_grow e (\<forall>kv \<in> set kvs. Suc (d + json_depth (snd kv)) \<le> MAX_JSON_DEPTH)
        (sum_list (map (\<lambda>kv. json_nodes (snd kv)) kvs)) (entries_text js first kvs)"
proof (induction js e v d and js e first vs d and js e first kvs d
    rule: json_encode_encode_items_encode_entries.induct)
  case (1 js e v d)
  show ?case
  proof (cases "MAX_JSON_DEPTH < d \<or> MAX_JSON_NODES < cje_nodes e + 1")
    case True
    with json_nodes_pos [of v] show ?thesis
      by (auto simp: json_encode.simps json_grow_def)
  next
    case False
    define e1 where "e1 = e\<lparr>cje_nodes := Suc (cje_nodes e)\<rparr>"
    have ok: "cje_nodes e1 \<le> MAX_JSON_NODES" using False by (simp add: e1_def)
    have enter: "json_grow e1 b n t = json_grow e b (Suc n) t" for b n t
      unfolding e1_def by (rule json_grow_enter)
    note leaf = json_append_grow [OF ok, unfolded enter]
    show ?thesis
    proof (cases v)
      case (Array vs)
      have "json_encode js e v d = json_grow e1 (\<forall>v \<in> set vs. Suc (d + json_depth v) \<le> MAX_JSON_DEPTH)
          (sum_list (map json_nodes vs)) (ascii ''['' @ items_text js True vs @ ascii '']'')"
        using json_append_nest [OF ok 1(1) [OF _ refl]] False Array
        by (simp add: json_encode.simps e1_def)
      with False Array show ?thesis
        by (simp add: enter depth_below)
    next
      case (Object kvs)
      have "json_encode js e v d =
          json_grow e1 (\<forall>kv \<in> set kvs. Suc (d + json_depth (snd kv)) \<le> MAX_JSON_DEPTH)
            (sum_list (map (\<lambda>kv. json_nodes (snd kv)) kvs))
            (ascii ''{'' @ entries_text js True kvs @ ascii ''}'')"
        using json_append_nest [OF ok 1(2) [OF _ refl]] False Object
        by (simp add: json_encode.simps e1_def)
      with False Object show ?thesis
        by (simp add: enter depth_below [where f = "\<lambda>kv. json_depth (snd kv)"])
    qed (use False leaf in \<open>auto simp: json_encode.simps Let_def append_json_string_def e1_def\<close>)
  qed
next
  case (3 js e first v vs d)
  have "and_then (json_encode js e' v (d + 1)) (\<lambda>e. encode_items js e False vs d)
      = json_grow e' (d + 1 + json_depth v \<le> MAX_JSON_DEPTH
          \<and> (\<forall>v \<in> set vs. Suc (d + json_depth v) \<le> MAX_JSON_DEPTH))
          (json_nodes v + sum_list (map json_nodes vs)) (json_text js v @ items_text js False vs)" for e'
    unfolding 3(1) by (rule json_grow_and_then) (rule 3(2))
  from json_grow_and_then [OF this, of e True 0 "if first then [] else ascii '',''"] 3(3,4)
  show ?case
    by (cases first) (simp_all add: json_append_grow [symmetric] json_append_nothing conj_ac)
next
  case (5 js e first k v kvs d)
  have "and_then (json_encode js e' v (d + 1)) (\<lambda>e. encode_entries js e False kvs d)
      = json_grow e' (d + 1 + json_depth v \<le> MAX_JSON_DEPTH
          \<and> (\<forall>kv \<in> set kvs. Suc (d + json_depth (snd kv)) \<le> MAX_JSON_DEPTH))
          (json_nodes v + sum_list (map (\<lambda>kv. json_nodes (snd kv)) kvs))
          (json_text js v @ entries_text js False kvs)" for e'
    unfolding 5(1) by (rule json_grow_and_then) (rule 5(2))
  note tail = json_append_then [OF json_append_then [OF this]]
  from json_grow_and_then [OF tail, of e True 0 "if first then [] else ascii '',''"] 5(3,4)
  show ?case
    by (cases first)
      (simp_all add: json_append_grow [symmetric] json_append_nothing append_json_string_def conj_ac)
qed (simp_all add: json_grow_def)

lemma encode_canonical_json_eq:
  "encode_canonical_json js v =
    (if json_depth v \<le> MAX_JSON_DEPTH \<and> json_nodes v \<le> MAX_JSON_NODES
        \<and> length (json_text js v) \<le> MAX_PAGED_VALUE_BYTES
     then Inr (json_text js v) else Inl PAGED_VALUE_TOO_LARGE)"
  by (simp add: encode_canonical_json_def json_encode_grow json_grow_def)

end
