(* ===== verification/Catalog.thy ===== *)
theory Catalog
  imports Metadata JsonCodec
begin

text \<open>
  The catalog's records (\<^verbatim>\<open>paged_codec.rs\<close>, \<^verbatim>\<open>model.rs\<close>): its header, and an item for each table and index,
  whose definition is stored as canonical JSON. What \<^verbatim>\<open>#[derive(Serialize)]\<close> writes for a definition is
  the object its fields and attributes describe: names in camel case, absent options and an empty list
  of foreign keys left out, entries in the order of their names.
\<close>

section \<open>Definitions as JSON\<close>

definition json_string :: "string \<Rightarrow> 'n json" where
  "json_string s = String (ascii s)"

definition json_strings :: "str list \<Rightarrow> 'n json" where
  "json_strings names = Array (map String names)"

definition column_type_json :: "column_type \<Rightarrow> 'n json" where
  "column_type_json t =
    json_string (case t of
       Boolean \<Rightarrow> ''boolean'' | Integer \<Rightarrow> ''integer'' | Float \<Rightarrow> ''float'' | Text \<Rightarrow> ''text''
     | Json \<Rightarrow> ''json'')"

definition column_json :: "'n serde \<Rightarrow> 'n column_definition \<Rightarrow> 'n json" where
  "column_json js c =
    Object (
      [(ascii ''dataType'', column_type_json (col_type c))]
      @ (case col_default c of Some v \<Rightarrow> [(ascii ''default'', v)] | None \<Rightarrow> [])
      @ (case col_max_length c of
           Some n \<Rightarrow> [(ascii ''maxLength'', Number (number_from_u64 js (ucast n)))] | None \<Rightarrow> [])
      @ [(ascii ''name'', String (col_name c)), (ascii ''nullable'', Bool (col_nullable c))])"

definition foreign_key_action_name :: "foreign_key_action \<Rightarrow> string" where
  "foreign_key_action_name a =
    (case a of
       NoAction \<Rightarrow> ''no action'' | Restrict \<Rightarrow> ''restrict'' | Cascade \<Rightarrow> ''cascade''
     | SetNull \<Rightarrow> ''set null'' | SetDefault \<Rightarrow> ''set default'')"

definition foreign_key_action_from_name :: "str \<Rightarrow> foreign_key_action option" where
  "foreign_key_action_from_name name =
    (if name = ascii ''no action'' then Some NoAction
     else if name = ascii ''restrict'' then Some Restrict
     else if name = ascii ''cascade'' then Some Cascade
     else if name = ascii ''set null'' then Some SetNull
     else if name = ascii ''set default'' then Some SetDefault
     else None)"

definition foreign_key_json :: "foreign_key_definition \<Rightarrow> 'n json" where
  "foreign_key_json fk =
    Object [(ascii ''columns'', json_strings (fk_columns fk)),
      (ascii ''name'', String (fk_name fk)),
      (ascii ''onDelete'', json_string (foreign_key_action_name (fk_on_delete fk))),
      (ascii ''onUpdate'', json_string (foreign_key_action_name (fk_on_update fk))),
      (ascii ''referencedColumns'', json_strings (fk_referenced_columns fk)),
      (ascii ''references'', String (fk_references fk))]"

definition table_json :: "'n serde \<Rightarrow> 'n table_definition \<Rightarrow> 'n json" where
  "table_json js schema =
    Object ([(ascii ''columns'', Array (map (column_json js) (td_columns schema)))]
      @ (if td_foreign_keys schema = [] then []
         else [(ascii ''foreignKeys'', Array (map foreign_key_json (td_foreign_keys schema)))])
      @ [(ascii ''name'', String (td_name schema)),
         (ascii ''primaryKey'', json_strings (td_primary_key schema))])"

definition index_json :: "index_definition \<Rightarrow> 'n json" where
  "index_json definition' =
    Object [(ascii ''columns'', json_strings (ix_columns definition')),
      (ascii ''name'', String (ix_name definition')),
      (ascii ''table'', String (ix_table definition')),
      (ascii ''unique'', Bool (ix_unique definition'))]"

text \<open>\<^verbatim>\<open>Map::get\<close>, and the loop of \<^verbatim>\<open>?\<close> over an array.\<close>

definition object_get :: "(str \<times> 'n json) list \<Rightarrow> string \<Rightarrow> 'n json option" where
  "object_get kvs k = map_of kvs (ascii k)"

fun map_some :: "('a \<Rightarrow> 'b option) \<Rightarrow> 'a list \<Rightarrow> 'b list option" where
  "map_some f [] = Some []"
| "map_some f (x # xs) =
    Option.bind (f x) (\<lambda>y. Option.bind (map_some f xs) (\<lambda>ys. Some (y # ys)))"

definition catalog_string :: "'n json \<Rightarrow> str option" where
  "catalog_string v = as_str v"

definition catalog_strings :: "'n json \<Rightarrow> str list option" where
  "catalog_strings v = Option.bind (as_array v) (map_some catalog_string)"

definition column_from_catalog_json :: "'n serde \<Rightarrow> 'n json \<Rightarrow> 'n column_definition option" where
  "column_from_catalog_json js v =
    Option.bind (as_object v) (\<lambda>o'.
    Option.bind (Option.bind (object_get o' ''dataType'') as_str) (\<lambda>t.
    Option.bind
      (if t = ascii ''boolean'' then Some Boolean
       else if t = ascii ''integer'' then Some Integer
       else if t = ascii ''float'' then Some Float
       else if t = ascii ''text'' then Some Text
       else if t = ascii ''json'' then Some Json
       else None) (\<lambda>data_type.
    Option.bind (Option.bind (object_get o' ''name'') catalog_string) (\<lambda>name.
    Option.bind (case object_get o' ''nullable'' of None \<Rightarrow> Some True | Some b \<Rightarrow> as_bool b)
      (\<lambda>nullable.
    Option.bind
      (case object_get o' ''maxLength'' of
         None \<Rightarrow> Some None
       | Some n \<Rightarrow>
           Option.bind (as_u64 js n) (\<lambda>u.
             if unat u < 2 ^ 32 then Some (Some (ucast u)) else None)) (\<lambda>max_length.
      Some \<lparr>col_name = name, col_type = data_type, col_nullable = nullable,
            col_default = object_get o' ''default'', col_max_length = max_length\<rparr>))))))"

definition foreign_key_from_json :: "'n json \<Rightarrow> foreign_key_definition option" where
  "foreign_key_from_json v =
    Option.bind (as_object v) (\<lambda>o'.
    let action = (\<lambda>key. Option.bind (Option.bind (object_get o' key) as_str) foreign_key_action_from_name)
    in
    Option.bind (Option.bind (object_get o' ''name'') catalog_string) (\<lambda>name.
    Option.bind (Option.bind (object_get o' ''columns'') catalog_strings) (\<lambda>columns.
    Option.bind (Option.bind (object_get o' ''references'') catalog_string) (\<lambda>references.
    Option.bind (Option.bind (object_get o' ''referencedColumns'') catalog_strings) (\<lambda>referenced.
    Option.bind (action ''onDelete'') (\<lambda>on_delete.
    Option.bind (action ''onUpdate'') (\<lambda>on_update.
      Some \<lparr>fk_name = name, fk_columns = columns, fk_references = references,
            fk_referenced_columns = referenced, fk_on_delete = on_delete,
            fk_on_update = on_update\<rparr>)))))))"

definition table_from_catalog_json :: "'n serde \<Rightarrow> 'n json \<Rightarrow> 'n table_definition option" where
  "table_from_catalog_json js v =
    Option.bind (as_object v) (\<lambda>o'.
    Option.bind (Option.bind (object_get o' ''columns'') as_array) (\<lambda>columns.
    Option.bind (map_some (column_from_catalog_json js) columns) (\<lambda>columns.
    Option.bind
      (case object_get o' ''foreignKeys'' of
         None \<Rightarrow> Some []
       | Some keys \<Rightarrow> Option.bind (as_array keys) (map_some foreign_key_from_json)) (\<lambda>foreign_keys.
    Option.bind (Option.bind (object_get o' ''name'') catalog_string) (\<lambda>name.
    Option.bind (Option.bind (object_get o' ''primaryKey'') catalog_strings) (\<lambda>primary_key.
      Some \<lparr>td_name = name, td_primary_key = primary_key, td_columns = columns,
            td_foreign_keys = foreign_keys\<rparr>))))))"

definition index_from_catalog_json :: "'n json \<Rightarrow> index_definition option" where
  "index_from_catalog_json v =
    Option.bind (as_object v) (\<lambda>o'.
    Option.bind (Option.bind (object_get o' ''name'') catalog_string) (\<lambda>name.
    Option.bind (Option.bind (object_get o' ''table'') catalog_string) (\<lambda>table.
    Option.bind (Option.bind (object_get o' ''columns'') catalog_strings) (\<lambda>columns.
    Option.bind (case object_get o' ''unique'' of None \<Rightarrow> Some False | Some b \<Rightarrow> as_bool b)
      (\<lambda>unique.
      Some \<lparr>ix_name = name, ix_table = table, ix_columns = columns, ix_unique = unique\<rparr>)))))"

section \<open>Keys and limits\<close>

definition CATALOG_HEADER_KEY :: u8 where "CATALOG_HEADER_KEY = 0x00"
definition CATALOG_TABLE_KEY :: u8 where "CATALOG_TABLE_KEY = 0x10"
definition CATALOG_INDEX_KEY :: u8 where "CATALOG_INDEX_KEY = 0x20"
definition RECORD_VERSION :: u8 where "RECORD_VERSION = 1"
definition RECORD_FLAGS :: u8 where "RECORD_FLAGS = 0"
definition CATALOG_HEADER_BYTES :: nat where "CATALOG_HEADER_BYTES = 20"
definition VERSIONED_CATALOG_HEADER_BYTES :: nat where "VERSIONED_CATALOG_HEADER_BYTES = 28"
definition CATALOG_ITEM_HEADER_BYTES :: nat where "CATALOG_ITEM_HEADER_BYTES = 40"
definition NO_PAGE_ID :: u64 where "NO_PAGE_ID = - 1"
definition FIRST_USER_TREE_ID :: nat where "FIRST_USER_TREE_ID = 2"
definition MAX_TREE_ID :: nat where "MAX_TREE_ID = 2 ^ 64 - 2"
definition MAX_CATALOG_TABLES :: nat where "MAX_CATALOG_TABLES = 4096"
definition MAX_CATALOG_INDEXES :: nat where "MAX_CATALOG_INDEXES = 4096"
definition MAX_STORED_COUNT :: nat where "MAX_STORED_COUNT = 2 ^ 32 - 1"

datatype catalog_key = HeaderKey | TableKey str | IndexKey str

definition encode_catalog_key :: "u8 \<Rightarrow> str \<Rightarrow> bytes res" where
  "encode_catalog_key kind name =
    and_then (validate_catalog_name name) (\<lambda>_.
    and_then (validate_key_size (kind # name)) (\<lambda>_. Inr (kind # name)))"

definition encode_catalog_table_key :: "str \<Rightarrow> bytes res" where
  "encode_catalog_table_key name = encode_catalog_key CATALOG_TABLE_KEY name"

definition encode_catalog_index_key :: "str \<Rightarrow> bytes res" where
  "encode_catalog_index_key name = encode_catalog_key CATALOG_INDEX_KEY name"

definition decode_catalog_key :: "bytes \<Rightarrow> catalog_key res" where
  "decode_catalog_key key =
    (if key = [] \<or> MAX_BTREE_KEY_BYTES < length key then Inl PAGED_STORAGE_CORRUPT
     else let kind = key ! 0 in
       if kind = CATALOG_HEADER_KEY
       then (if length key = 1 then Inr HeaderKey else Inl PAGED_STORAGE_CORRUPT)
       else if kind = CATALOG_TABLE_KEY \<or> kind = CATALOG_INDEX_KEY
       then (if utf8 (drop 1 key)
             then and_then (map_err as_storage_corruption (validate_catalog_name (drop 1 key))) (\<lambda>_.
               Inr (if kind = CATALOG_TABLE_KEY then TableKey (drop 1 key) else IndexKey (drop 1 key)))
             else Inl PAGED_STORAGE_CORRUPT)
       else Inl PAGED_STORAGE_VERSION_UNSUPPORTED)"

section \<open>The header\<close>

record catalog_header =
  ch_next_tree_id :: u64
  ch_table_count :: u32
  ch_index_count :: u32
  ch_schema_version :: u64

definition validate_catalog_header :: "catalog_header \<Rightarrow> unit res" where
  "validate_catalog_header h =
    (if \<not> (FIRST_USER_TREE_ID \<le> unat (ch_next_tree_id h) \<and> unat (ch_next_tree_id h) \<le> MAX_TREE_ID)
     then Inl INVALID_PAGED_ARGUMENT
     else if MAX_CATALOG_TABLES < unat (ch_table_count h) then Inl PAGED_VALUE_TOO_LARGE
     else if MAX_CATALOG_INDEXES < unat (ch_index_count h) then Inl PAGED_VALUE_TOO_LARGE
     else if MAX_SAFE_INTEGER < unat (ch_schema_version h) then Inl PAGED_VALUE_TOO_LARGE
     else let tree_count = (ucast (ch_table_count h) + ucast (ch_index_count h) :: u64) in
       and_then (ok_or PAGED_VALUE_TOO_LARGE (checked_add (of_nat FIRST_USER_TREE_ID) tree_count))
         (\<lambda>minimum.
           if ch_next_tree_id h < minimum then Inl INVALID_PAGED_ARGUMENT else Inr ()))"

definition append_record_prefix :: "bytes \<Rightarrow> bytes" where
  "append_record_prefix bytes = bytes @ [RECORD_VERSION, RECORD_FLAGS] @ le_bytes 2 (0 :: u16)"

definition validate_record_prefix :: "bytes \<Rightarrow> unit res" where
  "validate_record_prefix bytes =
    (if length bytes < 4 then Inl Panic
     else if bytes ! 0 \<noteq> RECORD_VERSION then Inl PAGED_STORAGE_VERSION_UNSUPPORTED
     else if bytes ! 1 \<noteq> RECORD_FLAGS then Inl PAGED_STORAGE_VERSION_UNSUPPORTED
     else if slice bytes 2 2 \<noteq> [0, 0] then Inl PAGED_STORAGE_CORRUPT
     else Inr ())"

definition encode_catalog_header_record :: "catalog_header \<Rightarrow> (bytes \<times> bytes) res" where
  "encode_catalog_header_record h =
    and_then (validate_catalog_header h) (\<lambda>_.
      Inr ([CATALOG_HEADER_KEY],
        append_record_prefix [] @ le_bytes 8 (ch_next_tree_id h) @ le_bytes 4 (ch_table_count h)
        @ le_bytes 4 (ch_index_count h)
        @ (if 0 < ch_schema_version h then le_bytes 8 (ch_schema_version h) else [])))"

text \<open>The version a header's length says it carries; one that carries it carries a positive one.\<close>

definition header_schema_version :: "bytes \<Rightarrow> u64 res" where
  "header_schema_version record =
    (if length record = CATALOG_HEADER_BYTES then Inr 0
     else if length record = VERSIONED_CATALOG_HEADER_BYTES \<and> 0 < read_u64 record 20
     then Inr (read_u64 record 20)
     else Inl PAGED_STORAGE_CORRUPT)"

definition decode_catalog_header_record :: "bytes \<Rightarrow> bytes \<Rightarrow> catalog_header res" where
  "decode_catalog_header_record key record =
    and_then (decode_catalog_key key) (\<lambda>k.
      if k \<noteq> HeaderKey then Inl PAGED_STORAGE_CORRUPT
      else and_then (header_schema_version record) (\<lambda>schema_version.
      and_then (validate_record_prefix record) (\<lambda>_.
        let h = \<lparr>ch_next_tree_id = read_u64 record 4, ch_table_count = read_u32 record 12,
                 ch_index_count = read_u32 record 16, ch_schema_version = schema_version\<rparr>
        in and_then (map_err as_storage_corruption (validate_catalog_header h)) (\<lambda>_. Inr h))))"

section \<open>Items\<close>

definition validate_catalog_item :: "u64 \<Rightarrow> u64 option \<Rightarrow> u64 \<Rightarrow> unit res" where
  "validate_catalog_item tree_id root_page_id count =
    (if \<not> (FIRST_USER_TREE_ID \<le> unat tree_id \<and> unat tree_id \<le> MAX_TREE_ID)
     then Inl INVALID_PAGED_ARGUMENT
     else if MAX_STORED_COUNT < unat count then Inl PAGED_VALUE_TOO_LARGE
     else case root_page_id of
       None \<Rightarrow> if count = 0 then Inr () else Inl INVALID_PAGED_ARGUMENT
     | Some root \<Rightarrow>
         if 0 < count then
           (if \<not> (FIRST_DATA_PAGE_ID \<le> unat root \<and> unat root < MAX_PAGE_COUNT)
            then Inl INVALID_PAGED_ARGUMENT else Inr ())
         else Inl INVALID_PAGED_ARGUMENT)"

definition encode_catalog_item_body ::
  "u64 \<Rightarrow> u64 option \<Rightarrow> u64 \<Rightarrow> u64 \<Rightarrow> bytes \<Rightarrow> bytes res" where
  "encode_catalog_item_body tree_id root_page_id count hash body =
    (if MAX_PAGED_VALUE_BYTES < CATALOG_ITEM_HEADER_BYTES + length body
     then Inl PAGED_VALUE_TOO_LARGE
     else Inr (append_record_prefix [] @ le_bytes 8 tree_id
       @ le_bytes 8 (case root_page_id of Some p \<Rightarrow> p | None \<Rightarrow> NO_PAGE_ID)
       @ le_bytes 8 count @ le_bytes 8 hash @ le_bytes 4 (of_nat (length body) :: u32) @ body))"

definition encode_catalog_item_value ::
  "'n serde \<Rightarrow> u64 \<Rightarrow> u64 option \<Rightarrow> u64 \<Rightarrow> u64 \<Rightarrow> 'n json \<Rightarrow> bytes res" where
  "encode_catalog_item_value js tree_id root_page_id count hash model =
    and_then (encode_canonical_json js model) (\<lambda>body.
      encode_catalog_item_body tree_id root_page_id count hash body)"

text \<open>
  The trait \<^verbatim>\<open>CatalogModel\<close> is the pair of functions an item is decoded with: reading the model from
  JSON, and writing it.
\<close>

definition decode_catalog_item_value ::
  "'n serde \<Rightarrow> ('n json \<Rightarrow> 'm option) \<Rightarrow> ('m \<Rightarrow> 'n json) \<Rightarrow> bytes
   \<Rightarrow> (u64 \<times> u64 option \<times> u64 \<times> u64 \<times> 'm) res" where
  "decode_catalog_item_value js from_catalog_json to_json record =
    (if length record < CATALOG_ITEM_HEADER_BYTES \<or> MAX_PAGED_VALUE_BYTES < length record
     then Inl PAGED_STORAGE_CORRUPT
     else and_then (validate_record_prefix record) (\<lambda>_.
       let tree_id = read_u64 record 4;
           root_page_id = (if read_u64 record 12 = NO_PAGE_ID then None else Some (read_u64 record 12));
           count = read_u64 record 20;
           hash = read_u64 record 28
       in and_then (map_err as_storage_corruption
              (validate_catalog_item tree_id root_page_id count)) (\<lambda>_.
         if CATALOG_ITEM_HEADER_BYTES + unat (read_u32 record 36) \<noteq> length record
         then Inl PAGED_STORAGE_CORRUPT
         else let body = drop CATALOG_ITEM_HEADER_BYTES record in
           and_then (decode_canonical_json js body) (\<lambda>json.
           and_then (ok_or PAGED_STORAGE_CORRUPT (from_catalog_json json)) (\<lambda>model.
           and_then (map_err as_storage_corruption (encode_canonical_json js (to_json model))) (\<lambda>text.
             if text \<noteq> body then Inl PAGED_STORAGE_CORRUPT
             else Inr (tree_id, root_page_id, count, hash, model)))))))"

record 'n catalog_table_record =
  ct_schema :: "'n table_definition"
  ct_tree_id :: u64
  ct_root_page_id :: "u64 option"
  ct_row_count :: u64
  ct_hash :: u64

record catalog_index_record =
  ci_definition :: index_definition
  ci_tree_id :: u64
  ci_root_page_id :: "u64 option"
  ci_entry_count :: u64

definition encode_catalog_schema :: "'n serde \<Rightarrow> 'n table_definition \<Rightarrow> bytes res" where
  "encode_catalog_schema js schema = encode_canonical_json js (table_json js schema)"

definition encode_catalog_table_record_with_schema ::
  "str \<Rightarrow> u64 \<Rightarrow> u64 option \<Rightarrow> u64 \<Rightarrow> u64 \<Rightarrow> bytes \<Rightarrow> (bytes \<times> bytes) res" where
  "encode_catalog_table_record_with_schema name tree_id root_page_id row_count hash schema =
    and_then (validate_catalog_name name) (\<lambda>_.
    and_then (validate_catalog_item tree_id root_page_id row_count) (\<lambda>_.
    and_then (encode_catalog_key CATALOG_TABLE_KEY name) (\<lambda>key.
    and_then (encode_catalog_item_body tree_id root_page_id row_count hash schema) (\<lambda>record.
      Inr (key, record)))))"

definition decode_catalog_table_record ::
  "'n serde \<Rightarrow> bytes \<Rightarrow> bytes \<Rightarrow> 'n catalog_table_record res" where
  "decode_catalog_table_record js key record =
    and_then (decode_catalog_key key) (\<lambda>k.
      case k of
        TableKey name \<Rightarrow>
          and_then (decode_catalog_item_value js (table_from_catalog_json js) (table_json js) record)
            (\<lambda>(tree_id, root_page_id, row_count, hash, schema).
              if td_name schema \<noteq> name then Inl PAGED_STORAGE_CORRUPT
              else and_then (map_err as_storage_corruption (validate_schema_shape js schema)) (\<lambda>_.
                Inr \<lparr>ct_schema = schema, ct_tree_id = tree_id, ct_root_page_id = root_page_id,
                     ct_row_count = row_count, ct_hash = hash\<rparr>))
      | _ \<Rightarrow> Inl PAGED_STORAGE_CORRUPT)"

definition encode_catalog_index_record ::
  "'n serde \<Rightarrow> catalog_index_record \<Rightarrow> (bytes \<times> bytes) res" where
  "encode_catalog_index_record js r =
    and_then (validate_catalog_name (ix_name (ci_definition r))) (\<lambda>_.
    and_then (validate_catalog_name (ix_table (ci_definition r))) (\<lambda>_.
    and_then (validate_index_shape (ci_definition r)) (\<lambda>_.
    and_then (validate_catalog_item (ci_tree_id r) (ci_root_page_id r) (ci_entry_count r)) (\<lambda>_.
    and_then (encode_catalog_key CATALOG_INDEX_KEY (ix_name (ci_definition r))) (\<lambda>key.
    and_then (encode_catalog_item_value js (ci_tree_id r) (ci_root_page_id r) (ci_entry_count r)
                EMPTY_HASH (index_json (ci_definition r))) (\<lambda>record.
      Inr (key, record)))))))"

definition decode_catalog_index_record ::
  "'n serde \<Rightarrow> bytes \<Rightarrow> bytes \<Rightarrow> catalog_index_record res" where
  "decode_catalog_index_record js key record =
    and_then (decode_catalog_key key) (\<lambda>k.
      case k of
        IndexKey name \<Rightarrow>
          and_then (decode_catalog_item_value js index_from_catalog_json index_json record)
            (\<lambda>(tree_id, root_page_id, entry_count, hash, definition').
              if hash \<noteq> EMPTY_HASH then Inl PAGED_STORAGE_CORRUPT
              else if ix_name definition' \<noteq> name then Inl PAGED_STORAGE_CORRUPT
              else and_then (map_err as_storage_corruption
                  (validate_catalog_name (ix_table definition'))) (\<lambda>_.
                and_then (map_err as_storage_corruption (validate_index_shape definition')) (\<lambda>_.
                  Inr \<lparr>ci_definition = definition', ci_tree_id = tree_id,
                       ci_root_page_id = root_page_id, ci_entry_count = entry_count\<rparr>)))
      | _ \<Rightarrow> Inl PAGED_STORAGE_CORRUPT)"

end
