(* ===== verification/Limits.thy ===== *)
theory Limits
  imports JsonCodec
begin

text \<open>
  Sizes planning measures before anything is encoded (\<^verbatim>\<open>storage.rs\<close>): the bytes a key takes, the JSON text
  a value takes, and the memory a row is charged for. Sums are of \<^verbatim>\<open>usize\<close>, here of the 32 bits it has on
  WebAssembly, and a sum that overflows is an error.
\<close>

definition usize_max :: nat where
  "usize_max = 2 ^ 32 - 1"

definition MAX_STORAGE_KEY_BYTES :: nat where
  "MAX_STORAGE_KEY_BYTES = MAX_BTREE_KEY_BYTES"

definition MAX_LOGICAL_VALUE_BYTES :: nat where
  "MAX_LOGICAL_VALUE_BYTES = 1024 * 1024"

definition checked_row_write_add :: "nat \<Rightarrow> nat \<Rightarrow> nat res" where
  "checked_row_write_add left right =
    (if left + right \<le> usize_max then Inr (left + right) else Inl RESOURCE_LIMIT)"

definition checked_row_write_mul :: "nat \<Rightarrow> nat \<Rightarrow> nat res" where
  "checked_row_write_mul left right =
    (if left * right \<le> usize_max then Inr (left * right) else Inl RESOURCE_LIMIT)"

section \<open>Keys\<close>

definition ensure_storage_key_bytes :: "nat \<Rightarrow> unit res" where
  "ensure_storage_key_bytes bytes =
    (if MAX_STORAGE_KEY_BYTES < bytes then Inl INVALID_CHANGE else Inr ())"

definition validate_catalog_name_bound :: "str \<Rightarrow> unit res" where
  "validate_catalog_name_bound name =
    (if MAX_STORAGE_KEY_BYTES < min usize_max (length name + 1) then Inl RESOURCE_LIMIT else Inr ())"

definition key_component_bytes :: "column_type \<Rightarrow> 'n json \<Rightarrow> nat res" where
  "key_component_bytes t v =
    (case t of
       Boolean \<Rightarrow> Inr 1
     | Integer \<Rightarrow> Inr 8
     | Float \<Rightarrow> Inr 8
     | Text \<Rightarrow> ok_or TYPE_MISMATCH
         (map_option (\<lambda>text. length text + length (filter (\<lambda>b. b = 0) text) + 2) (as_str v))
     | Json \<Rightarrow> Inl TYPE_MISMATCH)"

fun storage_tuple_bytes_loop ::
  "'n table_definition \<Rightarrow> 'n row \<Rightarrow> bool \<Rightarrow> str list \<Rightarrow> nat \<Rightarrow> nat option res" where
  "storage_tuple_bytes_loop schema row omit_nulls [] bytes = Inr (Some bytes)"
| "storage_tuple_bytes_loop schema row omit_nulls (name # names) bytes =
    and_then (ok_or INVALID_CHANGE (row name)) (\<lambda>v.
      if v = Null then (if omit_nulls then Inr None else Inl INVALID_CHANGE)
      else and_then (ok_or COLUMN_NOT_FOUND
                       (find (\<lambda>column. col_name column = name) (td_columns schema))) (\<lambda>column.
        and_then (key_component_bytes (col_type column) v) (\<lambda>n.
        and_then (checked_row_write_add bytes n) (\<lambda>bytes.
        and_then (ensure_storage_key_bytes bytes) (\<lambda>_.
          storage_tuple_bytes_loop schema row omit_nulls names bytes)))))"

definition storage_tuple_bytes ::
  "'n table_definition \<Rightarrow> str list \<Rightarrow> 'n row \<Rightarrow> bool \<Rightarrow> nat option res" where
  "storage_tuple_bytes schema columns row omit_nulls =
    storage_tuple_bytes_loop schema row omit_nulls columns 0"

definition validate_primary_storage_key_bound :: "'n table_definition \<Rightarrow> 'n row \<Rightarrow> unit res" where
  "validate_primary_storage_key_bound schema row =
    and_then (storage_tuple_bytes schema (td_primary_key schema) row False) (\<lambda>n.
    and_then (ok_or INVALID_CHANGE n) ensure_storage_key_bytes)"

definition primary_key_value_bytes :: "'n json \<Rightarrow> nat" where
  "primary_key_value_bytes v =
    (case v of
       Bool _ \<Rightarrow> 1
     | String text \<Rightarrow> length text + length (filter (\<lambda>b. b = 0) text) + 2
     | _ \<Rightarrow> 8)"

definition primary_key_values_fit :: "'n json list \<Rightarrow> bool" where
  "primary_key_values_fit vs \<longleftrightarrow>
    sum_list (map primary_key_value_bytes vs) \<le> MAX_STORAGE_KEY_BYTES"

section \<open>JSON text\<close>

fun escape_bytes :: "bytes \<Rightarrow> nat" where
  "escape_bytes [] = 0"
| "escape_bytes (b # bs) =
    (if b = 0x22 \<or> b = 0x5C \<or> b = 0x08 \<or> b = 0x0C \<or> b = 0x0A \<or> b = 0x0D \<or> b = 0x09 then 1
     else if b \<le> 0x1F then 5 else 0) + escape_bytes bs"

definition encoded_json_string_bytes :: "str \<Rightarrow> nat res" where
  "encoded_json_string_bytes s =
    and_then (checked_row_write_add (length s) (escape_bytes s)) (\<lambda>bytes.
      checked_row_write_add bytes 2)"

fun decimal_digits :: "nat \<Rightarrow> nat" where
  "decimal_digits n = (if 10 \<le> n then 1 + decimal_digits (n div 10) else 1)"

declare decimal_digits.simps [simp del]

definition encoded_json_number_bytes :: "'n serde \<Rightarrow> 'n \<Rightarrow> nat" where
  "encoded_json_number_bytes js n =
    (case number_as_u64 js n of
       Some u \<Rightarrow> decimal_digits (unat u)
     | None \<Rightarrow>
         (case number_as_i64 js n of
            Some i \<Rightarrow> 1 + decimal_digits (unsigned_abs i)
          | None \<Rightarrow> length (number_text js n)))"

text \<open>The limit each step of an array or an object is checked against.\<close>

definition within_value_limit :: "nat \<Rightarrow> nat res" where
  "within_value_limit bytes =
    (if MAX_LOGICAL_VALUE_BYTES < bytes then Inl RESOURCE_LIMIT else Inr bytes)"

fun encoded_json_bytes :: "'n serde \<Rightarrow> 'n json \<Rightarrow> nat \<Rightarrow> nat res"
  and encoded_items_bytes :: "'n serde \<Rightarrow> nat \<Rightarrow> bool \<Rightarrow> 'n json list \<Rightarrow> nat \<Rightarrow> nat res"
  and encoded_entries_bytes ::
    "'n serde \<Rightarrow> nat \<Rightarrow> bool \<Rightarrow> (str \<times> 'n json) list \<Rightarrow> nat \<Rightarrow> nat res" where
  "encoded_json_bytes js v depth =
    (if MAX_JSON_DEPTH < depth then Inl RESOURCE_LIMIT
     else case v of
       Null \<Rightarrow> Inr 4
     | Bool b \<Rightarrow> Inr (if b then 4 else 5)
     | Number n \<Rightarrow> Inr (encoded_json_number_bytes js n)
     | String s \<Rightarrow> encoded_json_string_bytes s
     | Array vs \<Rightarrow> encoded_items_bytes js 2 True vs depth
     | Object kvs \<Rightarrow> encoded_entries_bytes js 2 True kvs depth)"
| "encoded_items_bytes js bytes first [] depth = Inr bytes"
| "encoded_items_bytes js bytes first (v # vs) depth =
    and_then (if first then Inr bytes else checked_row_write_add bytes 1) (\<lambda>bytes.
    and_then (encoded_json_bytes js v (depth + 1)) (\<lambda>n.
    and_then (checked_row_write_add bytes n) (\<lambda>bytes.
    and_then (within_value_limit bytes) (\<lambda>bytes.
      encoded_items_bytes js bytes False vs depth))))"
| "encoded_entries_bytes js bytes first [] depth = Inr bytes"
| "encoded_entries_bytes js bytes first ((k, v) # kvs) depth =
    and_then (if first then Inr bytes else checked_row_write_add bytes 1) (\<lambda>bytes.
    and_then (encoded_json_string_bytes k) (\<lambda>n.
    and_then (checked_row_write_add bytes n) (\<lambda>bytes.
    and_then (checked_row_write_add bytes 1) (\<lambda>bytes.
    and_then (encoded_json_bytes js v (depth + 1)) (\<lambda>n.
    and_then (checked_row_write_add bytes n) (\<lambda>bytes.
    and_then (within_value_limit bytes) (\<lambda>bytes.
      encoded_entries_bytes js bytes False kvs depth)))))))"

declare encoded_json_bytes.simps [simp del]

definition validate_json_value :: "'n serde \<Rightarrow> 'n json \<Rightarrow> nat res" where
  "validate_json_value js v = and_then (encoded_json_bytes js v 0) within_value_limit"

definition json_scalar_bound :: "'n json \<Rightarrow> nat option" where
  "json_scalar_bound v =
    (case v of
       Null \<Rightarrow> Some 5
     | Bool _ \<Rightarrow> Some 5
     | Number _ \<Rightarrow> Some 25
     | String text \<Rightarrow> Some (min usize_max (min usize_max (length text * 6) + 2))
     | _ \<Rightarrow> None)"

fun row_json_overhead_loop :: "'n column_definition list \<Rightarrow> nat \<Rightarrow> nat res" where
  "row_json_overhead_loop [] bytes = Inr bytes"
| "row_json_overhead_loop (column # columns) bytes =
    and_then (encoded_json_string_bytes (col_name column)) (\<lambda>n.
    and_then (checked_row_write_add bytes n) (\<lambda>bytes.
    and_then (checked_row_write_add bytes 1) (\<lambda>bytes.
      row_json_overhead_loop columns bytes)))"

definition row_json_overhead :: "'n table_definition \<Rightarrow> nat res" where
  "row_json_overhead schema =
    row_json_overhead_loop (td_columns schema)
      (min usize_max (2 + (length (td_columns schema) - 1)))"

section \<open>Memory\<close>

fun estimated_value_bytes_at_depth :: "'n json \<Rightarrow> nat \<Rightarrow> nat res"
  and estimated_items_bytes :: "nat \<Rightarrow> 'n json list \<Rightarrow> nat \<Rightarrow> nat res"
  and estimated_entries_bytes :: "nat \<Rightarrow> (str \<times> 'n json) list \<Rightarrow> nat \<Rightarrow> nat res" where
  "estimated_value_bytes_at_depth v depth =
    (if MAX_JSON_DEPTH < depth then Inl RESOURCE_LIMIT
     else case v of
       String s \<Rightarrow> checked_row_write_add 24 (length s)
     | Array vs \<Rightarrow> estimated_items_bytes 32 vs depth
     | Object kvs \<Rightarrow> estimated_entries_bytes 32 kvs depth
     | _ \<Rightarrow> Inr 16)"
| "estimated_items_bytes bytes [] depth = Inr bytes"
| "estimated_items_bytes bytes (v # vs) depth =
    and_then (checked_row_write_add bytes 32) (\<lambda>bytes.
    and_then (estimated_value_bytes_at_depth v (depth + 1)) (\<lambda>n.
    and_then (checked_row_write_add bytes n) (\<lambda>bytes.
      estimated_items_bytes bytes vs depth)))"
| "estimated_entries_bytes bytes [] depth = Inr bytes"
| "estimated_entries_bytes bytes ((k, v) # kvs) depth =
    and_then (checked_row_write_add bytes 64) (\<lambda>bytes.
    and_then (checked_row_write_mul (length k) 2) (\<lambda>n.
    and_then (checked_row_write_add bytes n) (\<lambda>bytes.
    and_then (estimated_value_bytes_at_depth v (depth + 1)) (\<lambda>n.
    and_then (checked_row_write_add bytes n) (\<lambda>bytes.
      estimated_entries_bytes bytes kvs depth)))))"

declare estimated_value_bytes_at_depth.simps [simp del]

definition estimated_value_bytes :: "'n serde \<Rightarrow> 'n json \<Rightarrow> nat res" where
  "estimated_value_bytes js v =
    and_then (validate_json_value js v) (\<lambda>_. estimated_value_bytes_at_depth v 0)"

end
