(* ===== verification/Like.thy ===== *)
theory Like
  imports Values
begin

text \<open>
  \<^verbatim>\<open>LIKE\<close> and \<^verbatim>\<open>ILIKE\<close> patterns (\<^verbatim>\<open>query.rs\<close>): a pattern is split at its \<open>%\<close> wildcards, a segment without
  \<open>_\<close> is matched as bytes, and every middle segment is matched as far left as it can be.

  A Rust \<^verbatim>\<open>char\<close> is represented by its UTF-8 encoding, so that \<^verbatim>\<open>len_utf8\<close> is a length and equality is
  equality of bytes. A slice of a string that is not at a character boundary panics.
\<close>

section \<open>Characters\<close>

text \<open>\<^verbatim>\<open>str::chars\<close>.\<close>

function chars :: "str \<Rightarrow> str list" where
  "chars [] = []"
| "chars (a # bs) =
    (let n = (case utf8_follow a of Some (n, _, _) \<Rightarrow> n | None \<Rightarrow> 0)
     in (a # take n bs) # chars (drop n bs))"
  by pat_completeness auto
termination by (relation "measure length") auto

text \<open>The offsets of \<^verbatim>\<open>str::char_indices\<close>.\<close>

fun char_offsets :: "nat \<Rightarrow> str list \<Rightarrow> nat list" where
  "char_offsets offset [] = []"
| "char_offsets offset (c # cs) = offset # char_offsets (offset + length c) cs"

text \<open>\<^verbatim>\<open>&text[start..]\<close>.\<close>

definition str_from :: "str \<Rightarrow> nat \<Rightarrow> str res" where
  "str_from s start =
    (if start \<le> length s \<and> (start = 0 \<or> start = length s \<or> \<not> utf8_tail (s ! start))
     then Inr (drop start s) else Inl Panic)"

definition ascii_lower :: "u8 \<Rightarrow> u8" where
  "ascii_lower b = (if 0x41 \<le> b \<and> b \<le> 0x5A then b + 32 else b)"

definition eq_ignore_ascii_case :: "bytes \<Rightarrow> bytes \<Rightarrow> bool" where
  "eq_ignore_ascii_case xs ys \<longleftrightarrow> map ascii_lower xs = map ascii_lower ys"

section \<open>Patterns\<close>

datatype like_element = AnyCharacter | Character str

record like_pattern =
  lp_segments :: "like_element list list"
  lp_literals :: "str option list"
  lp_case_insensitive :: bool

definition push_last :: "'a list list \<Rightarrow> 'a \<Rightarrow> 'a list list" where
  "push_last segments x = butlast segments @ [last segments @ [x]]"

fun like_loop ::
  "str option \<Rightarrow> str list \<Rightarrow> like_element list list \<Rightarrow> like_element list list" where
  "like_loop escape [] segments = segments"
| "like_loop escape (c # cs) segments =
    (if Some c = escape
     then (case cs of
             [] \<Rightarrow> segments
           | escaped # cs \<Rightarrow> like_loop escape cs (push_last segments (Character escaped)))
     else if c = [0x25] then like_loop escape cs (segments @ [[]])
     else if c = [0x5F] then like_loop escape cs (push_last segments AnyCharacter)
     else like_loop escape cs (push_last segments (Character c)))"

fun segment_literal :: "like_element list \<Rightarrow> str option" where
  "segment_literal [] = Some []"
| "segment_literal (AnyCharacter # es) = None"
| "segment_literal (Character c # es) = map_option (\<lambda>s. c @ s) (segment_literal es)"

definition like_pattern_new :: "str \<Rightarrow> str option \<Rightarrow> bool \<Rightarrow> like_pattern" where
  "like_pattern_new pattern' escape case_insensitive =
    (let segments = like_loop escape (chars pattern') [[]]
     in \<lparr>lp_segments = segments, lp_literals = map segment_literal segments,
         lp_case_insensitive = case_insensitive\<rparr>)"

fun literal_elements :: "like_element list \<Rightarrow> str" where
  "literal_elements (Character c # es) = c @ literal_elements es"
| "literal_elements _ = []"

definition literal_prefix :: "like_pattern \<Rightarrow> str" where
  "literal_prefix p = literal_elements (hd (lp_segments p))"

section \<open>Matching\<close>

definition same_bytes :: "bool \<Rightarrow> bytes \<Rightarrow> bytes \<Rightarrow> bool" where
  "same_bytes case_insensitive bytes literal \<longleftrightarrow>
    (if case_insensitive then eq_ignore_ascii_case bytes literal else bytes = literal)"

function find_literal_loop :: "bool \<Rightarrow> bytes \<Rightarrow> u8 \<Rightarrow> bytes \<Rightarrow> nat \<Rightarrow> nat \<Rightarrow> nat option" where
  "find_literal_loop case_insensitive text first rest last_start start =
    (if last_start < start then None
     else case position (\<lambda>b. if case_insensitive then ascii_lower b = ascii_lower first else b = first)
                 (slice text start (last_start + 1 - start)) of
       None \<Rightarrow> None
     | Some offset \<Rightarrow>
         let at = start + offset; candidate = slice text (at + 1) (length rest)
         in if candidate = rest \<or> (case_insensitive \<and> eq_ignore_ascii_case candidate rest) then Some at
            else find_literal_loop case_insensitive text first rest last_start (at + 1))"
  by pat_completeness auto
termination
  by (relation "measure (\<lambda>(_, _, _, _, last_start, start). Suc last_start - start)") auto

declare find_literal_loop.simps [simp del]

definition find_literal :: "bytes \<Rightarrow> str \<Rightarrow> bool \<Rightarrow> nat option" where
  "find_literal text literal case_insensitive =
    (case literal of
       [] \<Rightarrow> None
     | first # rest \<Rightarrow>
         if length text < length literal then None
         else find_literal_loop case_insensitive text first rest (length text - length literal) 0)"

text \<open>The middle segments, from a cursor; \<^verbatim>\<open>None\<close> when one is not found.\<close>

fun find_literals :: "bool \<Rightarrow> bytes \<Rightarrow> str list \<Rightarrow> nat \<Rightarrow> nat option" where
  "find_literals case_insensitive text [] cursor = Some cursor"
| "find_literals case_insensitive text (literal # literals) cursor =
    (if literal = [] then find_literals case_insensitive text literals cursor
     else case find_literal (drop cursor text) literal case_insensitive of
       Some offset \<Rightarrow>
         find_literals case_insensitive text literals (cursor + (offset + length literal))
     | None \<Rightarrow> None)"

definition matches_bytes :: "like_pattern \<Rightarrow> bytes \<Rightarrow> bool option" where
  "matches_bytes p text =
    (if list_ex (\<lambda>literal. literal = None) (lp_literals p) then None
     else let ci = lp_case_insensitive p; literals = map the (lp_literals p);
              last_index = length (lp_segments p) - 1; first = literals ! 0
       in if last_index = 0 then Some (length text = length first \<and> same_bytes ci text first)
          else if length text < length first \<or> \<not> same_bytes ci (take (length first) text) first
          then Some False
          else case find_literals ci text (map (\<lambda>i. literals ! i) [1..<last_index]) (length first) of
            None \<Rightarrow> Some False
          | Some cursor \<Rightarrow>
              let literal = literals ! last_index
              in if length text < length literal then Some False
                 else let start = length text - length literal
                   in Some (cursor \<le> start \<and> same_bytes ci (drop start text) literal))"

definition element_passes :: "bool \<Rightarrow> like_element \<Rightarrow> str \<Rightarrow> bool" where
  "element_passes case_insensitive element c \<longleftrightarrow>
    (case element of
       AnyCharacter \<Rightarrow> True
     | Character expected \<Rightarrow>
         \<not> (expected \<noteq> c \<and> \<not> (case_insensitive \<and> eq_ignore_ascii_case expected c)))"

fun elements_end :: "bool \<Rightarrow> like_element list \<Rightarrow> str list \<Rightarrow> nat \<Rightarrow> nat option" where
  "elements_end case_insensitive [] remaining end' = Some end'"
| "elements_end case_insensitive (e # es) [] end' = None"
| "elements_end case_insensitive (e # es) (c # cs) end' =
    (if element_passes case_insensitive e c
     then elements_end case_insensitive es cs (end' + length c) else None)"

definition matches_at :: "like_pattern \<Rightarrow> str \<Rightarrow> nat \<Rightarrow> nat \<Rightarrow> nat option res" where
  "matches_at p text start index =
    (case lp_literals p ! index of
       Some literal \<Rightarrow>
         let end' = start + length literal
         in Inr (if end' \<le> length text
                    \<and> same_bytes (lp_case_insensitive p) (slice text start (length literal)) literal
                 then Some end' else None)
     | None \<Rightarrow>
         and_then (str_from text start) (\<lambda>remaining.
           Inr (elements_end (lp_case_insensitive p) (lp_segments p ! index) (chars remaining) start)))"

text \<open>\<^verbatim>\<open>find_map\<close> over the starts.\<close>

fun first_match :: "like_pattern \<Rightarrow> str \<Rightarrow> nat \<Rightarrow> nat list \<Rightarrow> nat option res" where
  "first_match p text index [] = Inr None"
| "first_match p text index (start # starts) =
    and_then (matches_at p text start index) (\<lambda>found.
      case found of Some end' \<Rightarrow> Inr (Some end') | None \<Rightarrow> first_match p text index starts)"

fun match_middle :: "like_pattern \<Rightarrow> str \<Rightarrow> nat list \<Rightarrow> nat \<Rightarrow> nat option res" where
  "match_middle p text [] cursor = Inr (Some cursor)"
| "match_middle p text (index # indexes) cursor =
    (if lp_segments p ! index = [] then match_middle p text indexes cursor
     else and_then
       (case lp_literals p ! index of
          Some literal \<Rightarrow>
            Inr (map_option (\<lambda>offset. cursor + offset + length literal)
              (find_literal (drop cursor text) literal (lp_case_insensitive p)))
        | None \<Rightarrow>
            and_then (str_from text cursor) (\<lambda>rest.
              first_match p text index (char_offsets cursor (chars rest)))) (\<lambda>found.
       case found of
         None \<Rightarrow> Inr None
       | Some end' \<Rightarrow> match_middle p text indexes end'))"

text \<open>Where the last segment starts, a fixed number of characters before the end.\<close>

definition last_segment_start :: "like_pattern \<Rightarrow> str \<Rightarrow> nat \<Rightarrow> nat option" where
  "last_segment_start p text index =
    (case lp_literals p ! index of
       Some literal \<Rightarrow>
         if length text < length literal then None else Some (length text - length literal)
     | None \<Rightarrow>
         let starts = rev (char_offsets 0 (chars text)); n = length (lp_segments p ! index) - 1
         in if n < length starts then Some (starts ! n) else None)"

definition matches :: "like_pattern \<Rightarrow> str \<Rightarrow> bool res" where
  "matches p text =
    (case matches_bytes p text of
       Some matched \<Rightarrow> Inr matched
     | None \<Rightarrow>
         let last_index = length (lp_segments p) - 1
         in if last_index = 0
            then and_then (matches_at p text 0 0) (\<lambda>end'. Inr (end' = Some (length text)))
            else and_then (matches_at p text 0 0) (\<lambda>first.
              case first of
                None \<Rightarrow> Inr False
              | Some cursor \<Rightarrow>
                  and_then (match_middle p text [1..<last_index] cursor) (\<lambda>found.
                    case found of
                      None \<Rightarrow> Inr False
                    | Some cursor \<Rightarrow>
                        (case last_segment_start p text last_index of
                           None \<Rightarrow> Inr False
                         | Some start \<Rightarrow>
                             if cursor \<le> start
                             then and_then (matches_at p text start last_index) (\<lambda>end'.
                               Inr (end' = Some (length text)))
                             else Inr False))))"

section \<open>Checking a pattern before it is used\<close>

fun dangling_escape :: "str \<Rightarrow> str list \<Rightarrow> bool" where
  "dangling_escape escape [] \<longleftrightarrow> False"
| "dangling_escape escape (c # cs) \<longleftrightarrow>
    (if c = escape then (case cs of [] \<Rightarrow> True | _ # cs \<Rightarrow> dangling_escape escape cs)
     else dangling_escape escape cs)"

text \<open>
  \<^verbatim>\<open>validate_like\<close>: a missing \<open>ESCAPE\<close> is the backslash, an empty one none, and a null one or a null pattern
  matches nothing.
\<close>

definition validate_like ::
  "'n column_definition \<Rightarrow> 'n json \<Rightarrow> 'n json option \<Rightarrow> unit res" where
  "validate_like definition' pattern' escape =
    (if col_type definition' \<noteq> Text then Inl TYPE_MISMATCH
     else if (case pattern' of String _ \<Rightarrow> False | Null \<Rightarrow> False | _ \<Rightarrow> True) then Inl TYPE_MISMATCH
     else if escape = Some Null then Inr ()
     else and_then
       (case escape of
          None \<Rightarrow> Inr (Some [0x5C])
        | Some (String s) \<Rightarrow>
            (case chars s of
               [] \<Rightarrow> Inr None
             | [c] \<Rightarrow> Inr (Some c)
             | _ \<Rightarrow> Inl INVALID_QUERY)
        | Some _ \<Rightarrow> Inl TYPE_MISMATCH) (\<lambda>escape.
       case (pattern', escape) of
         (String s, Some c) \<Rightarrow>
           if dangling_escape c (chars s) then Inl INVALID_QUERY else Inr ()
       | _ \<Rightarrow> Inr ()))"

end
