(* ===== verification/RowCodec.thy ===== *)
theory RowCodec
  imports Limits Like
begin

unbundle bit_operations_syntax

text \<open>
  Stored rows (\<^verbatim>\<open>paged_codec.rs\<close>): where each column lives (\<^verbatim>\<open>RecordLayout\<close>), how a record is written
  (\<^verbatim>\<open>encode_row\<close> and its variants), how one is read in place (\<^verbatim>\<open>StoredRecord\<close>), and how a scan tests one
  without reading it (\<^verbatim>\<open>stored_record_passes\<close>).
\<close>

definition RECORD_OFFSET_WIDTH :: u8 where "RECORD_OFFSET_WIDTH = 0x03"
definition RECORD_HAS_NULLS :: u8 where "RECORD_HAS_NULLS = 0x04"
definition RECORD_RESERVED :: u8 where "RECORD_RESERVED = 0xF8"
definition RECORD_HEADER_BYTES :: nat where "RECORD_HEADER_BYTES = 2"

definition div_ceil :: "nat \<Rightarrow> nat \<Rightarrow> nat" where
  "div_ceil a b = (a + (b - 1)) div b"

section \<open>Where columns live\<close>

datatype column_slot = KeySlot nat | StoredSlot nat

record record_layout =
  rl_slots :: "column_slot list"
  rl_key_types :: "column_type list"
  rl_keys :: "nat list"
  rl_stored :: "nat list"
  rl_estimate :: "nat option"
  rl_sized :: "nat list"
  rl_key_estimates :: "(nat \<times> nat) option"
  rl_json_overhead :: nat

definition checked_usize :: "nat \<Rightarrow> nat option" where
  "checked_usize n = (if n \<le> usize_max then Some n else None)"

text \<open>An estimate of 96 bytes and twice a name more, or \<^verbatim>\<open>None\<close> once one has overflowed.\<close>

definition add_estimate :: "nat option \<Rightarrow> str \<Rightarrow> nat option" where
  "add_estimate estimate name =
    Option.bind (Option.bind estimate (\<lambda>bytes. checked_usize (bytes + 96))) (\<lambda>bytes.
      Option.bind (checked_usize (length name * 2)) (\<lambda>n. checked_usize (bytes + n)))"

text \<open>The loop over the columns: \<open>index\<close> is the position of the next one.\<close>

fun layout_loop ::
  "str list \<Rightarrow> nat \<Rightarrow> 'n column_definition list
   \<Rightarrow> column_slot list \<times> nat list \<times> nat list \<times> nat option \<times> nat list
   \<Rightarrow> column_slot list \<times> nat list \<times> nat list \<times> nat option \<times> nat list" where
  "layout_loop primary_key index [] acc = acc"
| "layout_loop primary_key index (column # columns) (slots, keys, stored, estimate, sized) =
    (let estimate = add_estimate estimate (col_name column);
         sized = (if col_type column = Text \<or> col_type column = Json then sized @ [index] else sized)
     in case position (\<lambda>name. name = col_name column) primary_key of
          Some p \<Rightarrow> layout_loop primary_key (index + 1) columns
            (slots @ [KeySlot p], keys[p := index], stored, estimate, sized)
        | None \<Rightarrow> layout_loop primary_key (index + 1) columns
            (slots @ [StoredSlot (length stored)], keys, stored @ [index], estimate, sized))"

fun key_estimates_loop ::
  "(str \<times> column_type) list \<Rightarrow> nat option \<times> nat \<Rightarrow> nat option \<times> nat" where
  "key_estimates_loop [] acc = acc"
| "key_estimates_loop ((name, t) # rest) (key_estimate, key_batch_estimate) =
    key_estimates_loop rest
      (add_estimate (if t = Text \<or> t = Json then None else key_estimate) name,
       key_batch_estimate + 6 * length name + 64 + (if t = Boolean then 8 else 32))"

definition record_layout_new :: "'n table_definition \<Rightarrow> record_layout res" where
  "record_layout_new schema =
    and_then (map_res (\<lambda>name. map_err as_storage_corruption (schema_column_type schema name))
                (td_primary_key schema)) (\<lambda>key_types.
      let (slots, keys, stored, estimate, sized) =
            layout_loop (td_primary_key schema) 0 (td_columns schema)
              ([], replicate (length key_types) 0, [], Some 32, []);
          (key_estimate, key_batch_estimate) =
            key_estimates_loop (zip (td_primary_key schema) key_types) (Some 32, 64);
          key_estimates =
            Option.bind key_estimate (\<lambda>a. map_option (\<lambda>b. (a, b)) (checked_usize key_batch_estimate))
      in and_then (row_json_overhead schema) (\<lambda>overhead.
        Inr \<lparr>rl_slots = slots, rl_key_types = key_types, rl_keys = keys, rl_stored = stored,
             rl_estimate = estimate, rl_sized = sized, rl_key_estimates = key_estimates,
             rl_json_overhead = overhead\<rparr>))"

section \<open>Values\<close>

text \<open>
  \<^verbatim>\<open>integer_length\<close>: the fewest bytes whose sign extension is the value, by shifting left and
  arithmetically back.
\<close>

definition sign_extend_low :: "nat \<Rightarrow> i64 \<Rightarrow> i64" where
  "sign_extend_low n w = signed_drop_bit (64 - 8 * n) (push_bit (64 - 8 * n) w)"

definition integer_length :: "i64 \<Rightarrow> nat res" where
  "integer_length i =
    (if i = 0 then Inr 0
     else ok_or Panic (find (\<lambda>n. sign_extend_low n i = i) [1..<9]))"

definition integer_value :: "bytes \<Rightarrow> i64 option" where
  "integer_value bytes =
    (if 7 < length bytes then None
     else let raw = foldl (\<lambda>raw (index, b). raw OR push_bit (8 * index) (ucast b)) 0
                      (List.enumerate 0 bytes);
              i = (if bytes = [] then 0 else sign_extend_low (length bytes) raw)
          in if unsigned_abs i \<le> MAX_SAFE_INTEGER then Some i else None)"

text \<open>
  The same value, the shortest encodings each in one step: \<^verbatim>\<open>i8\<close>, \<^verbatim>\<open>i16\<close>, an \<^verbatim>\<open>i32\<close> shifted left and
  back by eight bits, and \<^verbatim>\<open>i32\<close>, each widened with its sign.
\<close>

definition short_integer_value :: "bytes \<Rightarrow> i64 option" where
  "short_integer_value bytes =
    (case bytes of
       [] \<Rightarrow> Some 0
     | [a] \<Rightarrow> Some (scast (a :: 8 word))
     | [a, b] \<Rightarrow> Some (scast (from_le [a, b] :: 16 word))
     | [a, b, c] \<Rightarrow> Some (scast (signed_drop_bit 8 (push_bit 8 (from_le [a, b, c, 0] :: 32 word))))
     | [a, b, c, d] \<Rightarrow> Some (scast (from_le [a, b, c, d] :: 32 word))
     | _ \<Rightarrow> integer_value bytes)"

definition encode_value ::
  "'n serde \<Rightarrow> 'n column_definition \<Rightarrow> 'n json \<Rightarrow> bytes \<Rightarrow> bytes res" where
  "encode_value js column v data =
    (case col_type column of
       Boolean \<Rightarrow> and_then (ok_or TYPE_MISMATCH (as_bool v)) (\<lambda>b. Inr (data @ [of_bool b]))
     | Integer \<Rightarrow> and_then (ok_or TYPE_MISMATCH (safe_integer js v)) (\<lambda>i.
         and_then (integer_length i) (\<lambda>n. Inr (data @ take n (le_bytes 8 i))))
     | Float \<Rightarrow>
         (case as_f64 js v of
            Some x \<Rightarrow> if f64_is_finite x then Inr (data @ le_bytes 8 x) else Inl TYPE_MISMATCH
          | None \<Rightarrow> Inl TYPE_MISMATCH)
     | Text \<Rightarrow> and_then (ok_or TYPE_MISMATCH (as_str v)) (\<lambda>s. Inr (data @ s))
     | Json \<Rightarrow> and_then (encode_canonical_json js v) (\<lambda>text. Inr (data @ text)))"

definition decode_value ::
  "'n serde \<Rightarrow> column_type \<Rightarrow> bytes \<Rightarrow> bool \<Rightarrow> 'n value_ref res" where
  "decode_value js t bytes strict =
    (case t of
       Boolean \<Rightarrow>
         if bytes = [0] then Inr (VBoolean False)
         else if bytes = [1] then Inr (VBoolean True)
         else Inl PAGED_STORAGE_CORRUPT
     | Integer \<Rightarrow>
         if 7 < length bytes then Inl PAGED_STORAGE_CORRUPT
         else (case integer_value bytes of
                 Some i \<Rightarrow>
                   if \<not> strict \<or> integer_length i = Inr (length bytes) then Inr (VInteger i)
                   else Inl PAGED_STORAGE_CORRUPT
               | None \<Rightarrow> Inl PAGED_STORAGE_CORRUPT)
     | Float \<Rightarrow>
         if length bytes \<noteq> 8 then Inl PAGED_STORAGE_CORRUPT
         else let x = from_le bytes in
           if \<not> f64_is_finite x then Inl PAGED_STORAGE_CORRUPT else Inr (VFloat x)
     | Text \<Rightarrow> if utf8 bytes then Inr (VText bytes) else Inl PAGED_STORAGE_CORRUPT
     | Json \<Rightarrow>
         if strict then and_then (decode_canonical_json js bytes) (\<lambda>v. Inr (VJson v))
         else and_then (ok_or PAGED_STORAGE_CORRUPT (from_slice js bytes)) (\<lambda>v. Inr (VJson v)))"

definition stored_default :: "'n serde \<Rightarrow> 'n column_definition \<Rightarrow> 'n value_ref" where
  "stored_default js column =
    (case col_default column of
       None \<Rightarrow> VNull
     | Some v \<Rightarrow>
         if col_type column = Float
         then (case as_f64 js v of Some x \<Rightarrow> VFloat x | None \<Rightarrow> from_value js v Float)
         else from_value js v (col_type column))"

definition is_default ::
  "'n serde \<Rightarrow> 'n column_definition \<Rightarrow> bytes option \<Rightarrow> bool res" where
  "is_default js column encoded =
    (case (case col_default column of
             Some v \<Rightarrow> if is_null v then None else Some v
           | None \<Rightarrow> None, encoded) of
       (None, encoded) \<Rightarrow> Inr (encoded = None)
     | (Some _, None) \<Rightarrow> Inr False
     | (Some default', Some encoded) \<Rightarrow>
         and_then (encode_value js column default' []) (\<lambda>bytes. Inr (bytes = encoded)))"

definition offset_width :: "nat \<Rightarrow> u8 \<times> nat" where
  "offset_width largest =
    (if largest \<le> 0xFF then (0, 1) else if largest \<le> 0xFFFF then (1, 2) else (2, 4))"

section \<open>Writing a record\<close>

datatype 'n stored_value = StoredValue "'n json" | Encoded "bytes option"

fun encode_stored_loop ::
  "'n serde \<Rightarrow> ('n column_definition \<times> 'n stored_value) list \<Rightarrow> bytes \<Rightarrow> (nat \<times> bool) list
   \<Rightarrow> (bytes \<times> (nat \<times> bool) list) res" where
  "encode_stored_loop js [] data ends = Inr (data, ends)"
| "encode_stored_loop js ((column, v) # columns) data ends =
    and_then
      (case v of
         StoredValue v \<Rightarrow>
           and_then (if is_null v then Inr data else encode_value js column v data) (\<lambda>data.
             Inr (data, is_null v))
       | Encoded None \<Rightarrow> Inr (data, True)
       | Encoded (Some bytes) \<Rightarrow> Inr (data @ bytes, False)) (\<lambda>(data, null).
      encode_stored_loop js columns data (ends @ [(length data, null)]))"

text \<open>The columns left when the trailing ones that hold their defaults are omitted.\<close>

fun omit_defaults ::
  "'n serde \<Rightarrow> ('n column_definition \<times> 'n stored_value) list \<Rightarrow> bytes \<Rightarrow> (nat \<times> bool) list
   \<Rightarrow> nat \<Rightarrow> nat res" where
  "omit_defaults js columns data ends 0 = Inr 0"
| "omit_defaults js columns data ends (Suc n) =
    (let start = (if 1 \<le> n then fst (ends ! (n - 1)) else 0);
         (end', null) = ends ! n;
         stored_value = (if null then None else Some (slice data start (end' - start)))
     in and_then (is_default js (fst (columns ! n)) stored_value) (\<lambda>same.
          if same then omit_defaults js columns data ends n else Inr (Suc n)))"

text \<open>The null bitmap and the offsets, written into the record in place.\<close>

fun write_nulls :: "bytes \<Rightarrow> nat \<Rightarrow> (nat \<times> bool) list \<Rightarrow> bytes" where
  "write_nulls bitmap index [] = bitmap"
| "write_nulls bitmap index ((_, null) # ends) =
    write_nulls
      (if null then bitmap[index div 8 := bitmap ! (index div 8) OR push_bit (index mod 8) 1]
       else bitmap) (index + 1) ends"

fun write_offsets :: "bytes \<Rightarrow> nat \<Rightarrow> nat \<Rightarrow> (nat \<times> bool) list \<Rightarrow> bytes" where
  "write_offsets data width at [] = data"
| "write_offsets data width at ((end', _) # ends) =
    write_offsets (put data at (map (\<lambda>b. of_nat (end' div 2 ^ (8 * b))) [0..<width])) width
      (at + width) ends"

definition encode_stored_values ::
  "'n serde \<Rightarrow> ('n column_definition \<times> 'n stored_value) list \<Rightarrow> bytes res" where
  "encode_stored_values js columns =
    and_then (encode_stored_loop js columns [] []) (\<lambda>(data, ends).
    and_then (omit_defaults js columns data ends (length columns)) (\<lambda>count.
      let ends = take count ends;
          end_of_values = (if ends = [] then 0 else fst (last ends));
          data = take end_of_values data;
          largest_offset = (if 2 \<le> count then fst (ends ! (count - 2)) else 0);
          (width_code, width) = offset_width largest_offset;
          has_nulls = list_ex snd ends;
          bitmap_bytes = (if has_nulls then div_ceil count 8 else 0);
          header = RECORD_HEADER_BYTES + bitmap_bytes + (count - 1) * width
      in if MAX_PAGED_VALUE_BYTES < header + end_of_values then Inl PAGED_VALUE_TOO_LARGE
         else if 255 < count then Inl INVALID_PAGED_ARGUMENT
         else let data = put (data @ replicate header 0) header data;
                  data = data[0 := width_code OR (if has_nulls then RECORD_HAS_NULLS else 0)];
                  data = data[1 := of_nat count];
                  data = put data RECORD_HEADER_BYTES
                    (write_nulls (replicate bitmap_bytes 0) 0 ends)
              in Inr (write_offsets data width (RECORD_HEADER_BYTES + bitmap_bytes)
                   (take (length ends - 1) ends))))"

definition encode_row :: "'n serde \<Rightarrow> 'n table_definition \<Rightarrow> 'n row \<Rightarrow> bytes res" where
  "encode_row js schema row =
    and_then (map_res (\<lambda>column.
        and_then (ok_or INVALID_PAGED_ARGUMENT (row (col_name column))) (\<lambda>v.
          Inr (column, StoredValue v)))
      (filter (\<lambda>column. col_name column \<notin> set (td_primary_key schema)) (td_columns schema)))
      (encode_stored_values js)"

definition encode_row_values ::
  "'n serde \<Rightarrow> 'n table_definition \<Rightarrow> record_layout \<Rightarrow> 'n json list \<Rightarrow> bytes res" where
  "encode_row_values js schema layout vs =
    encode_stored_values js
      (map (\<lambda>p. (td_columns schema ! p, StoredValue (vs ! p))) (rl_stored layout))"

fun encode_key_positions ::
  "'n serde \<Rightarrow> 'n table_definition \<Rightarrow> 'n json list \<Rightarrow> nat list \<Rightarrow> bytes \<Rightarrow> bytes res" where
  "encode_key_positions js schema vs [] key = Inr key"
| "encode_key_positions js schema vs (p # positions) key =
    and_then (encode_component js key (col_type (td_columns schema ! p)) (vs ! p)) (\<lambda>key.
      encode_key_positions js schema vs positions key)"

definition encode_primary_key_values ::
  "'n serde \<Rightarrow> 'n table_definition \<Rightarrow> record_layout \<Rightarrow> 'n json list \<Rightarrow> bytes res" where
  "encode_primary_key_values js schema layout vs =
    encode_key_positions js schema vs (rl_keys layout) []"

section \<open>Reading a record\<close>

record 'n stored_record =
  sr_schema :: "'n table_definition"
  sr_layout :: record_layout
  sr_key :: bytes
  sr_value :: bytes
  sr_count :: nat
  sr_width :: nat
  sr_bitmap :: bytes
  sr_offsets_start :: nat
  sr_data :: bytes

definition stored_record_new ::
  "'n table_definition \<Rightarrow> record_layout \<Rightarrow> bytes \<Rightarrow> bytes \<Rightarrow> 'n stored_record res" where
  "stored_record_new schema layout key record =
    (if length record < 2 then Inl PAGED_STORAGE_CORRUPT
     else let flags = record ! 0; count = unat (record ! 1) in
       if flags AND RECORD_RESERVED \<noteq> 0 \<or> flags AND RECORD_OFFSET_WIDTH = 3
       then Inl PAGED_STORAGE_VERSION_UNSUPPORTED
       else if length (rl_stored layout) < count then Inl PAGED_STORAGE_CORRUPT
       else let width = 2 ^ unat (flags AND RECORD_OFFSET_WIDTH);
                bitmap_bytes = (if flags AND RECORD_HAS_NULLS \<noteq> 0 then div_ceil count 8 else 0);
                offsets_start = RECORD_HEADER_BYTES + bitmap_bytes;
                data_start = offsets_start + (count - 1) * width
            in if length record < data_start then Inl PAGED_STORAGE_CORRUPT
               else Inr \<lparr>sr_schema = schema, sr_layout = layout, sr_key = key, sr_value = record,
                 sr_count = count, sr_width = width,
                 sr_bitmap = slice record RECORD_HEADER_BYTES bitmap_bytes,
                 sr_offsets_start = offsets_start, sr_data = drop data_start record\<rparr>)"

definition record_is_null :: "'n stored_record \<Rightarrow> nat \<Rightarrow> bool" where
  "record_is_null r p \<longleftrightarrow>
    p div 8 < length (sr_bitmap r) \<and> sr_bitmap r ! (p div 8) AND push_bit (p mod 8) 1 \<noteq> 0"

definition record_end :: "'n stored_record \<Rightarrow> nat \<Rightarrow> nat" where
  "record_end r p =
    (if p + 1 = sr_count r then length (sr_data r)
     else let at = sr_offsets_start r + p * sr_width r in
       if sr_width r = 1 then unat (sr_value r ! at)
       else if sr_width r = 2 then unat (read_u16 (sr_value r) at)
       else unat (read_u32 (sr_value r) at))"

definition stored_bytes :: "'n stored_record \<Rightarrow> nat \<Rightarrow> bytes option res" where
  "stored_bytes r p =
    (let start = (if p = 0 then 0 else record_end r (p - 1)); end' = record_end r p in
     if end' < start \<or> length (sr_data r) < end' then Inl PAGED_STORAGE_CORRUPT
     else let bytes = slice (sr_data r) start (end' - start) in
       if record_is_null r p then (if bytes = [] then Inr None else Inl PAGED_STORAGE_CORRUPT)
       else Inr (Some bytes))"

definition stored_column ::
  "'n serde \<Rightarrow> 'n stored_record \<Rightarrow> nat \<Rightarrow> 'n column_definition \<Rightarrow> 'n value_ref res" where
  "stored_column js r p column =
    (if sr_count r \<le> p then Inr (stored_default js column)
     else and_then (stored_bytes r p) (\<lambda>b.
       case b of
         None \<Rightarrow> Inr VNull
       | Some bytes \<Rightarrow>
           (case (col_type column, integer_value bytes) of
              (Integer, Some i) \<Rightarrow> Inr (VInteger i)
            | (t, _) \<Rightarrow> decode_value js t bytes False)))"

definition key_component :: "'n stored_record \<Rightarrow> nat \<Rightarrow> 'n value_ref res" where
  "key_component r p =
    and_then (skip_components (sr_key r) (take p (rl_key_types (sr_layout r))) 0) (\<lambda>start.
      let t = rl_key_types (sr_layout r) ! p in
      and_then (component_end (sr_key r) start t) (\<lambda>end'.
        decode_component (slice (sr_key r) start (end' - start)) t))"

definition record_column :: "'n serde \<Rightarrow> 'n stored_record \<Rightarrow> nat \<Rightarrow> 'n value_ref res" where
  "record_column js r index =
    (if length (rl_slots (sr_layout r)) \<le> index then Inl INVALID_PAGED_ARGUMENT
     else case rl_slots (sr_layout r) ! index of
       KeySlot p \<Rightarrow> key_component r p
     | StoredSlot p \<Rightarrow> stored_column js r p (td_columns (sr_schema r) ! index))"

definition text_len :: "'n serde \<Rightarrow> 'n stored_record \<Rightarrow> nat \<Rightarrow> nat option res" where
  "text_len js r index =
    (let otherwise =
       and_then (record_column js r index) (\<lambda>v.
         Inr (case v of VText s \<Rightarrow> Some (length s) | _ \<Rightarrow> None))
     in if length (rl_slots (sr_layout r)) \<le> index then otherwise
        else case rl_slots (sr_layout r) ! index of
          StoredSlot p \<Rightarrow>
            if p < sr_count r
            then and_then (stored_bytes r p) (\<lambda>b. Inr (map_option length b))
            else otherwise
        | KeySlot _ \<Rightarrow> otherwise)"

fun key_row_loop ::
  "'n serde \<Rightarrow> bytes \<Rightarrow> (str \<times> column_type) list \<Rightarrow> nat \<Rightarrow> 'n row \<Rightarrow> ('n row \<times> nat) res" where
  "key_row_loop js key [] offset row = Inr (row, offset)"
| "key_row_loop js key ((name, t) # rest) offset row =
    and_then (component_end key offset t) (\<lambda>end'.
    and_then (decode_component (slice key offset (end' - offset)) t) (\<lambda>v.
      key_row_loop js key rest end' (row(name \<mapsto> into_value js v))))"

definition key_row ::
  "'n serde \<Rightarrow> record_layout \<Rightarrow> 'n table_definition \<Rightarrow> bytes \<Rightarrow> 'n row res" where
  "key_row js layout schema key =
    and_then (key_row_loop js key (zip (td_primary_key schema) (rl_key_types layout)) 0 Map.empty)
      (\<lambda>(row, offset). if offset \<noteq> length key then Inl PAGED_STORAGE_CORRUPT else Inr row)"

fun push_key_values_loop ::
  "'n serde \<Rightarrow> bytes \<Rightarrow> column_type list \<Rightarrow> nat \<Rightarrow> 'n json list \<Rightarrow> ('n json list \<times> nat) res" where
  "push_key_values_loop js key [] offset vs = Inr (vs, offset)"
| "push_key_values_loop js key (t # types) offset vs =
    and_then (component_end key offset t) (\<lambda>end'.
    and_then (decode_component (slice key offset (end' - offset)) t) (\<lambda>v.
      push_key_values_loop js key types end' (vs @ [into_value js v])))"

definition push_key_values ::
  "'n serde \<Rightarrow> 'n stored_record \<Rightarrow> 'n json list \<Rightarrow> 'n json list res" where
  "push_key_values js r vs =
    and_then (push_key_values_loop js (sr_key r) (rl_key_types (sr_layout r)) 0 vs) (\<lambda>(vs, offset).
      if offset \<noteq> length (sr_key r) then Inl PAGED_STORAGE_CORRUPT else Inr vs)"

fun decode_columns_loop ::
  "'n serde \<Rightarrow> 'n stored_record \<Rightarrow> bool \<Rightarrow> (nat \<times> nat) list \<Rightarrow> nat \<Rightarrow> 'n row \<Rightarrow> 'n row res" where
  "decode_columns_loop js r strict [] start row = Inr row"
| "decode_columns_loop js r strict ((p, index) # rest) start row =
    (let column = td_columns (sr_schema r) ! index in
     if sr_count r \<le> p
     then decode_columns_loop js r strict rest start
            (row(col_name column \<mapsto> into_value js (stored_default js column)))
     else let end' = record_end r p in
       if end' < start \<or> length (sr_data r) < end' then Inl PAGED_STORAGE_CORRUPT
       else let bytes = slice (sr_data r) start (end' - start) in
         and_then (if record_is_null r p
                   then (if bytes \<noteq> [] then Inl PAGED_STORAGE_CORRUPT else Inr Null)
                   else and_then (decode_value js (col_type column) bytes strict) (\<lambda>v.
                          Inr (into_value js v))) (\<lambda>decoded.
           decode_columns_loop js r strict rest end' (row(col_name column \<mapsto> decoded))))"

definition check_canonical :: "'n serde \<Rightarrow> 'n stored_record \<Rightarrow> 'n row \<Rightarrow> unit res" where
  "check_canonical js r row =
    (let count = sr_count r; flags = sr_value r ! 0;
         largest_offset = (if 2 \<le> count then record_end r (count - 2) else 0);
         has_nulls = list_ex (record_is_null r) [0..<count];
         unused_bits = list_ex (record_is_null r) [count..<length (sr_bitmap r) * 8]
     in if fst (offset_width largest_offset) \<noteq> flags AND RECORD_OFFSET_WIDTH
           \<or> (flags AND RECORD_HAS_NULLS \<noteq> 0) \<noteq> has_nulls
           \<or> unused_bits
        then Inl PAGED_STORAGE_CORRUPT
        else if 0 < count then
          (let column = td_columns (sr_schema r) ! (rl_stored (sr_layout r) ! (count - 1)) in
           and_then (case row (col_name column) of
                       Some v \<Rightarrow>
                         if \<not> is_null v
                         then and_then (map_err as_storage_corruption (encode_value js column v []))
                                (\<lambda>last. Inr (Some last))
                         else Inr None
                     | None \<Rightarrow> Inr None) (\<lambda>last_value.
           and_then (map_err as_storage_corruption (is_default js column last_value)) (\<lambda>same.
             if same then Inl PAGED_STORAGE_CORRUPT else Inr ())))
        else Inr ())"

definition decode_columns ::
  "'n serde \<Rightarrow> 'n stored_record \<Rightarrow> 'n row \<Rightarrow> bool \<Rightarrow> 'n row res" where
  "decode_columns js r row strict =
    and_then (decode_columns_loop js r strict (List.enumerate 0 (rl_stored (sr_layout r))) 0 row)
      (\<lambda>row. and_then (if strict then check_canonical js r row else Inr ()) (\<lambda>_. Inr row))"

definition record_decode :: "'n serde \<Rightarrow> 'n stored_record \<Rightarrow> bool \<Rightarrow> 'n row res" where
  "record_decode js r strict =
    and_then (key_row js (sr_layout r) (sr_schema r) (sr_key r)) (\<lambda>row.
      decode_columns js r row strict)"

definition to_row :: "'n serde \<Rightarrow> 'n stored_record \<Rightarrow> 'n row res" where
  "to_row js r = record_decode js r False"

definition to_row_strictly :: "'n serde \<Rightarrow> 'n stored_record \<Rightarrow> 'n row res" where
  "to_row_strictly js r = record_decode js r True"

section \<open>Entries\<close>

record stored_entry =
  se_bytes :: bytes
  se_key_length :: nat

definition stored_entry_new :: "bytes \<Rightarrow> bytes \<Rightarrow> stored_entry" where
  "stored_entry_new key record = \<lparr>se_bytes = key @ record, se_key_length = length key\<rparr>"

definition stored_entry_from_bytes :: "bytes \<Rightarrow> nat \<Rightarrow> stored_entry" where
  "stored_entry_from_bytes bytes key_length = \<lparr>se_bytes = bytes, se_key_length = key_length\<rparr>"

definition stored_entry_key :: "stored_entry \<Rightarrow> bytes" where
  "stored_entry_key entry = take (se_key_length entry) (se_bytes entry)"

definition stored_entry_value :: "stored_entry \<Rightarrow> bytes" where
  "stored_entry_value entry = drop (se_key_length entry) (se_bytes entry)"

definition to_entry :: "'n stored_record \<Rightarrow> stored_entry" where
  "to_entry r = stored_entry_new (sr_key r) (sr_value r)"

definition entry_len :: "'n stored_record \<Rightarrow> nat" where
  "entry_len r = length (sr_key r) + length (sr_value r)"

definition encode_updated_record ::
  "'n serde \<Rightarrow> 'n stored_record \<Rightarrow> 'n json option list \<Rightarrow> bytes res" where
  "encode_updated_record js r assigned =
    and_then (map_res (\<lambda>(p, index).
        let column = td_columns (sr_schema r) ! index in
        case assigned ! index of
          Some v \<Rightarrow> Inr (column, StoredValue v)
        | None \<Rightarrow>
            if sr_count r \<le> p
            then Inr (column, StoredValue (case col_default column of Some v \<Rightarrow> v | None \<Rightarrow> Null))
            else and_then (stored_bytes r p) (\<lambda>b. Inr (column, Encoded b)))
      (List.enumerate 0 (rl_stored (sr_layout r))))
      (encode_stored_values js)"

section \<open>Index entries of stored rows\<close>

fun append_record_index_tuple ::
  "'n serde \<Rightarrow> bytes \<Rightarrow> nat \<Rightarrow> nat list \<Rightarrow> 'n stored_record \<Rightarrow> (bytes \<times> bool) res" where
  "append_record_index_tuple js into start [] r = Inr (into, True)"
| "append_record_index_tuple js into start (p # positions) r =
    and_then (record_column js r p) (\<lambda>v.
      if ref_is_null v then Inr (take start into, False)
      else and_then (encode_component_ref js into (col_type (td_columns (sr_schema r) ! p)) v) (\<lambda>into.
        and_then (validate_key_size (drop start into)) (\<lambda>_.
          append_record_index_tuple js into start positions r)))"

definition encode_record_index_prefix ::
  "'n serde \<Rightarrow> nat list \<Rightarrow> 'n stored_record \<Rightarrow> bytes option res" where
  "encode_record_index_prefix js positions r =
    and_then (append_record_index_tuple js [] 0 positions r) (\<lambda>(key, whole).
      Inr (if whole then Some key else None))"

definition encode_record_index_entry ::
  "'n serde \<Rightarrow> nat list \<Rightarrow> 'n stored_record \<Rightarrow> (bytes \<times> nat) option res" where
  "encode_record_index_entry js positions r =
    and_then (encode_record_index_prefix js positions r) (\<lambda>k.
      case k of
        None \<Rightarrow> Inr None
      | Some key \<Rightarrow>
          and_then (validate_key_size (key @ sr_key r)) (\<lambda>_.
            Inr (Some (key @ sr_key r, length key))))"

definition append_record_index_entry ::
  "'n serde \<Rightarrow> bytes \<Rightarrow> nat list \<Rightarrow> 'n stored_record \<Rightarrow> (bytes \<times> bool) res" where
  "append_record_index_entry js into positions r =
    and_then (append_record_index_tuple js into (length into) positions r) (\<lambda>(into', whole).
      if \<not> whole then Inr (into', False)
      else and_then (validate_key_size (drop (length into) (into' @ sr_key r))) (\<lambda>_.
        Inr (into' @ sr_key r, True)))"

section \<open>Testing a record in place\<close>

text \<open>
  A scan's tests of a column by its position in the schema, and the same resolved to its position in
  a stored record.
\<close>

datatype record_test =
    RecordIntegerRange nat i64 i64 bool
  | RecordLike nat like_pattern bool
  | RecordTextEquals nat str bool
  | RecordIsNull nat bool

datatype stored_test =
    IntegerRange nat i64 i64 bool
  | Like nat like_pattern bool
  | TextEquals nat bytes bool
  | IsNull nat bool bool

fun test_position :: "stored_test \<Rightarrow> nat \<times> bool" where
  "test_position (IntegerRange p low high default') = (p, default')"
| "test_position (Like p pattern' default') = (p, default')"
| "test_position (TextEquals p text default') = (p, default')"
| "test_position (IsNull p negated default') = (p, default')"

definition stored_slot :: "record_layout \<Rightarrow> nat \<Rightarrow> nat option" where
  "stored_slot layout column =
    (case rl_slots layout ! column of StoredSlot p \<Rightarrow> Some p | KeySlot _ \<Rightarrow> None)"

definition layout_stored_test ::
  "record_layout \<Rightarrow> 'n table_definition \<Rightarrow> record_test \<Rightarrow> stored_test option" where
  "layout_stored_test layout schema test =
    (case test of
       RecordIntegerRange column low high default' \<Rightarrow>
         map_option (\<lambda>p. IntegerRange p low high default') (stored_slot layout column)
     | RecordLike column pattern' default' \<Rightarrow>
         map_option (\<lambda>p. Like p pattern' default') (stored_slot layout column)
     | RecordTextEquals column text default' \<Rightarrow>
         map_option (\<lambda>p. TextEquals p text default') (stored_slot layout column)
     | RecordIsNull column negated \<Rightarrow>
         map_option (\<lambda>p. IsNull p negated
             ((case col_default (td_columns schema ! column) of
                 None \<Rightarrow> True | Some v \<Rightarrow> is_null v) \<noteq> negated))
           (stored_slot layout column))"

definition wide_end :: "bytes \<Rightarrow> nat \<Rightarrow> nat \<Rightarrow> nat \<Rightarrow> nat \<Rightarrow> nat \<Rightarrow> nat" where
  "wide_end record offsets_start width count data_len p =
    (if p + 1 = count then data_len
     else let at = offsets_start + p * width in
       if width = 2 then unat (read_u16 record at) else unat (read_u32 record at))"

definition wide_column_bounds ::
  "bytes \<Rightarrow> nat \<Rightarrow> nat \<Rightarrow> nat \<Rightarrow> nat \<Rightarrow> nat \<Rightarrow> nat \<times> nat" where
  "wide_column_bounds record offsets_start width count data_len p =
    (if p = 0 then 0 else wide_end record offsets_start width count data_len (p - 1),
     wide_end record offsets_start width count data_len p)"

text \<open>Whether a value's bytes pass a test other than \<^verbatim>\<open>IsNull\<close>, which is decided before.\<close>

definition test_passes :: "stored_test \<Rightarrow> bytes \<Rightarrow> bool option res" where
  "test_passes test bytes =
    (case test of
       IntegerRange _ low high _ \<Rightarrow>
         Inr (map_option (\<lambda>i. sint low \<le> sint i \<and> sint i \<le> sint high) (short_integer_value bytes))
     | Like _ pattern' _ \<Rightarrow>
         (case matches_bytes pattern' bytes of
            Some matched \<Rightarrow> Inr (Some matched)
          | None \<Rightarrow>
              if utf8 bytes then and_then (matches pattern' bytes) (\<lambda>matched. Inr (Some matched))
              else Inr None)
     | TextEquals _ text _ \<Rightarrow> Inr (Some (bytes = text))
     | IsNull _ _ _ \<Rightarrow> Inl Panic)"

fun passes_loop ::
  "bytes \<Rightarrow> nat \<Rightarrow> nat \<Rightarrow> bool \<Rightarrow> nat \<Rightarrow> nat \<Rightarrow> stored_test list \<Rightarrow> bool option res" where
  "passes_loop record count width has_nulls offsets_start data_start [] = Inr (Some True)"
| "passes_loop record count width has_nulls offsets_start data_start (test # tests) =
    (let (p, default') = test_position test;
         data_len = length record - data_start;
         continue' = passes_loop record count width has_nulls offsets_start data_start tests
     in if count \<le> p then (if default' then continue' else Inr (Some False))
        else let null = has_nulls
               \<and> record ! (RECORD_HEADER_BYTES + p div 8) AND push_bit (p mod 8) 1 \<noteq> 0
          in case test of
               IsNull _ negated _ \<Rightarrow> if null \<noteq> negated then continue' else Inr (Some False)
             | _ \<Rightarrow>
               let (start, stop) =
                 (if width = 1
                  then (if p = 0 then 0 else unat (record ! (offsets_start + p - 1)),
                        if p + 1 = count then data_len else unat (record ! (offsets_start + p)))
                  else wide_column_bounds record offsets_start width count data_len p)
               in if stop < start \<or> data_len < stop then Inr None
                  else let bytes = slice record (data_start + start) (stop - start)
                    in if null then Inr (if bytes = [] then Some False else None)
                       else and_then (test_passes test bytes) (\<lambda>passes.
                         case passes of
                           None \<Rightarrow> Inr None
                         | Some passes \<Rightarrow> if \<not> passes then Inr (Some False) else continue'))"

definition stored_record_passes :: "bytes \<Rightarrow> stored_test list \<Rightarrow> bool option res" where
  "stored_record_passes record tests =
    (if length record < 2 then Inr None
     else let flags = record ! 0; count = unat (record ! 1) in
       if flags AND RECORD_RESERVED \<noteq> 0 \<or> flags AND RECORD_OFFSET_WIDTH = 3 then Inr None
       else let width = 2 ^ unat (flags AND RECORD_OFFSET_WIDTH);
                has_nulls = flags AND RECORD_HAS_NULLS \<noteq> 0;
                bitmap_bytes = (if has_nulls then div_ceil count 8 else 0);
                offsets_start = RECORD_HEADER_BYTES + bitmap_bytes;
                data_start = offsets_start + (count - 1) * width
            in if length record < data_start then Inr None
               else passes_loop record count width has_nulls offsets_start data_start tests)"

end
