(* ===== verification/KeyOrder.thy ===== *)
theory KeyOrder
  imports KeyProofs
begin

unbundle bit_operations_syntax

text \<open>
  Components as codes of typed values. \<open>key_value\<close> reads a JSON value as a key column does,
  \<open>key_bytes\<close> is the component written for it, \<open>key_less\<close> is the order of SQL, and the locale
  \<open>ordered_code\<close> collects what makes concatenated components a sound key.
\<close>

section \<open>The value of a component\<close>

definition escaped :: "bytes \<Rightarrow> bytes" where
  "escaped s = concat (map (\<lambda>b. if b = 0 then [0, TEXT_ESCAPED_ZERO] else [b]) s)"

fun key_bytes :: "'n value_ref \<Rightarrow> bytes" where
  "key_bytes (VBoolean b) = [of_bool b]"
| "key_bytes (VInteger i) = be_bytes 8 (i XOR sign_bit)"
| "key_bytes (VFloat x) = be_bytes 8 (sortable_float x)"
| "key_bytes (VText s) = escaped s @ [0, TEXT_TERMINATOR]"
| "key_bytes _ = []"

fun key_fits :: "column_type \<Rightarrow> 'n value_ref \<Rightarrow> bool" where
  "key_fits Boolean (VBoolean b) = True"
| "key_fits Integer (VInteger i) \<longleftrightarrow> unsigned_abs i \<le> MAX_SAFE_INTEGER"
| "key_fits Float (VFloat x) \<longleftrightarrow> f64_is_finite x"
| "key_fits Text (VText s) = True"
| "key_fits _ _ = False"

fun key_less :: "'n value_ref \<Rightarrow> 'n value_ref \<Rightarrow> bool" where
  "key_less (VBoolean a) (VBoolean b) \<longleftrightarrow> \<not> a \<and> b"
| "key_less (VInteger i) (VInteger j) \<longleftrightarrow> sint i < sint j"
| "key_less (VFloat x) (VFloat y) \<longleftrightarrow> f64_scaled x < f64_scaled y"
| "key_less (VText s) (VText t) \<longleftrightarrow> s < t"
| "key_less _ _ = False"

definition key_value :: "'n serde \<Rightarrow> column_type \<Rightarrow> 'n json \<Rightarrow> 'n value_ref option" where
  "key_value js t v =
    (case t of
       Boolean \<Rightarrow> map_option VBoolean (as_bool v)
     | Integer \<Rightarrow> map_option VInteger (safe_integer js v)
     | Float \<Rightarrow>
         (case as_f64 js v of
            Some x \<Rightarrow> if f64_is_finite x then Some (VFloat x) else None
          | None \<Rightarrow> None)
     | Text \<Rightarrow> map_option VText (as_str v)
     | Json \<Rightarrow> None)"

text \<open>A component reads back as its value, a negative zero as zero.\<close>

fun key_normal :: "'n value_ref \<Rightarrow> 'n value_ref" where
  "key_normal (VFloat x) = VFloat (if f64_is_zero x then 0 else x)"
| "key_normal r = r"

fun ref_utf8 :: "'n value_ref \<Rightarrow> bool" where
  "ref_utf8 (VText s) = utf8 s"
| "ref_utf8 _ = True"

lemma key_fits_cases [consumes 1, case_names Boolean Integer Float Text]:
  assumes "key_fits t r"
  obtains b where "t = Boolean" "r = VBoolean b"
  | i where "t = Integer" "r = VInteger i" "unsigned_abs i \<le> MAX_SAFE_INTEGER"
  | x where "t = Float" "r = VFloat x" "f64_is_finite x"
  | s where "t = Text" "r = VText s"
  using assms by (cases "(t, r)" rule: key_fits.cases) auto

lemma unsigned_abs_safe:
  "unsigned_abs i \<le> MAX_SAFE_INTEGER \<longleftrightarrow>
     - int MAX_SAFE_INTEGER \<le> sint i \<and> sint i \<le> int MAX_SAFE_INTEGER"
  by (auto simp: unsigned_abs_def)

lemma small_u64_safe: "unat u \<le> MAX_SAFE_INTEGER \<Longrightarrow> unsigned_abs u \<le> MAX_SAFE_INTEGER"
  by (auto simp: unsigned_abs_def sint_eq_unat top_bit_unat MAX_SAFE_INTEGER_def
      simp flip: uint_nat)

lemma safe_integer_abs: "safe_integer js v = Some i \<Longrightarrow> unsigned_abs i \<le> MAX_SAFE_INTEGER"
  by (auto simp: safe_integer_def unsigned_abs_safe [symmetric] small_u64_safe
      split: option.splits if_splits)

lemma key_value_fits: "key_value js t v = Some r \<Longrightarrow> key_fits t r"
  by (auto simp: key_value_def dest: safe_integer_abs split: column_type.splits option.splits if_splits)

section \<open>Writing a component\<close>

lemma escaped_simps [simp]:
  "escaped [] = []"
  "escaped (b # s) = (if b = 0 then 0 # TEXT_ESCAPED_ZERO # escaped s else b # escaped s)"
  "escaped (s @ t) = escaped s @ escaped t"
  by (simp_all add: escaped_def)

lemma push_escaped_eq: "push_escaped key s = key @ escaped s"
  by (induction key s rule: push_escaped.induct) auto

lemma escaped_no_zero: "0 \<notin> set s \<Longrightarrow> escaped s = s"
  by (induction s) auto

lemma push_eq:
  "push_integer_component key i = key @ be_bytes 8 (i XOR sign_bit)"
  "push_float_component key x = key @ be_bytes 8 (sortable_float x)"
  "push_text_component key s = key @ escaped s @ [0, TEXT_TERMINATOR]"
  by (simp_all add: push_integer_component_def push_float_component_def push_text_component_def
      sortable_float_def Let_def push_escaped_eq escaped_no_zero)

lemma encode_component_eq:
  "encode_component js key t v =
    (case key_value js t v of
       Some r \<Rightarrow> Inr (key @ key_bytes r)
     | None \<Rightarrow> Inl (if t = Json then INVALID_PAGED_ARGUMENT else TYPE_MISMATCH))"
  by (cases t)
    (auto simp: encode_component_def key_value_def push_eq split: option.splits json.splits)

lemma encode_component_ok:
  "encode_component js key t v = Inr key' \<longleftrightarrow>
     (\<exists>r. key_value js t v = Some r \<and> key' = key @ key_bytes r)"
  by (auto simp: encode_component_eq split: option.splits)

section \<open>Reading a component\<close>

lemma position_simps [simp]:
  "position p [] = None"
  "position p (x # xs) = (if p x then Some 0 else map_option Suc (position p xs))"
  by (auto simp: position_def Let_def)

lemma position_Some:
  "position p xs = Some i \<Longrightarrow> i < length xs \<and> p (xs ! i) \<and> (\<forall>j < i. \<not> p (xs ! j))"
proof (induction xs arbitrary: i)
  case (Cons x xs)
  then show ?case
    by (auto simp: less_Suc_eq_0_disj split: if_splits)
qed simp

lemma text_end_skip:
  assumes "index < length key" "key ! index \<noteq> 0"
  shows "text_end key index = text_end key (Suc index)"
proof -
  have "drop index key = key ! index # drop (Suc index) key"
    using assms(1) by (simp add: Cons_nth_drop_Suc)
  then show ?thesis
    using assms(2)
    by (cases "position (\<lambda>b. b = 0) (drop (Suc index) key)")
      (simp_all add: text_end.simps [of key index] text_end.simps [of key "Suc index"])
qed

lemma text_end_zero:
  assumes "Suc index < length key" "key ! index = 0"
  shows "text_end key index =
    (if key ! Suc index = TEXT_TERMINATOR then Inr (index + 2)
     else if key ! Suc index = TEXT_ESCAPED_ZERO then text_end key (index + 2)
     else Inl PAGED_STORAGE_CORRUPT)"
proof -
  have "drop index key = 0 # drop (Suc index) key"
    using assms by (metis Cons_nth_drop_Suc Suc_lessD)
  then show ?thesis
    using assms(1) by (subst text_end.simps) simp
qed

lemma text_bytes_distinct [simp]:
  "TEXT_ESCAPED_ZERO \<noteq> TEXT_TERMINATOR"
  "TEXT_TERMINATOR \<noteq> TEXT_ESCAPED_ZERO"
  by (simp_all add: TEXT_ESCAPED_ZERO_def TEXT_TERMINATOR_def)

lemma text_end_escaped:
  "text_end (pre @ escaped s @ 0 # TEXT_TERMINATOR # rest) (length pre)
     = Inr (length pre + length (escaped s) + 2)"
proof (induction s arbitrary: pre)
  case Nil
  show ?case by (subst text_end_zero) (simp_all add: nth_append)
next
  case (Cons b s)
  show ?case
  proof (cases "b = 0")
    case True
    then show ?thesis
      using Cons [of "pre @ [0, TEXT_ESCAPED_ZERO]"]
      by (subst text_end_zero) (simp_all add: nth_append)
  next
    case False
    then show ?thesis
      using Cons [of "pre @ [b]"]
      by (subst text_end_skip) (simp_all add: nth_append)
  qed
qed

lemma component_end_key_bytes:
  "key_fits t r \<Longrightarrow>
   component_end (pre @ key_bytes r @ rest) (length pre) t = Inr (length pre + length (key_bytes r))"
  by (erule key_fits_cases) (auto simp: component_end_def text_end_escaped)

lemma unescape_escaped: "unescape False (escaped s) = s"
  by (induction s) auto

lemma float_bits_sortable: "float_bits (sortable_float x) = (if f64_is_zero x then 0 else x)"
  by (auto simp: float_bits_def sortable_float_def and_sign_bit Let_def bit_simps xor.assoc)

lemma finite_zero: "f64_is_finite 0"
  by (simp add: f64_is_finite_def f64_exponent_def)

lemma decode_key_bytes:
  assumes "key_fits t r" "ref_utf8 r"
  shows "decode_component (key_bytes r) t = Inr (key_normal r)"
  using assms
proof (cases rule: key_fits_cases)
  case (Integer i)
  then show ?thesis
    by (simp add: decode_component_def xor.assoc Let_def)
next
  case (Float x)
  then have "valid_encoded_float_component (key_bytes r)"
    by (simp add: valid_encoded_float_component_def float_bits_sortable finite_zero)
  with Float show ?thesis
    by (simp add: decode_component_def float_bits_sortable)
next
  case (Text s)
  have "(if 0 \<in> set (escaped s) then unescape False (escaped s) else escaped s) = s"
    using unescape_escaped [of s] by (induction s) (auto split: if_splits)
  with Text assms(2) show ?thesis
    by (simp add: decode_component_def Let_def)
qed (auto simp: decode_component_def)

text \<open>On any bytes, a component ends inside the key, a text component two bytes after its payload.\<close>

lemma text_end_bounds:
  "text_end key index = Inr e \<Longrightarrow> index + 2 \<le> e \<and> e \<le> length key"
proof (induction key index rule: text_end.induct)
  case (1 key index)
  from 1(2) show ?case
    by (subst (asm) text_end.simps)
      (force simp: Let_def dest: 1(1) split: option.splits if_splits)
qed

lemma component_end_bounds:
  assumes "component_end key offset t = Inr e"
  shows "offset < e \<and> e \<le> length key \<and> (t = Text \<longrightarrow> offset + 2 \<le> e) \<and> t \<noteq> Json"
  using assms text_end_bounds [of key offset e]
  by (cases t) (auto simp: component_end_def Let_def split: if_splits)

section \<open>Order\<close>

lemma escaped_less:
  "s < t \<Longrightarrow> escaped s @ 0 # TEXT_TERMINATOR # x < escaped t @ 0 # TEXT_TERMINATOR # y"
proof (induction s arbitrary: t)
  case Nil
  then obtain b t' where t: "t = b # t'" by (cases t) auto
  show ?case
  proof (cases "b = 0")
    case True
    with t show ?thesis by (simp add: TEXT_TERMINATOR_def TEXT_ESCAPED_ZERO_def)
  next
    case False
    then have "0 < b" by (simp add: word_neq_0_conv)
    with False t show ?thesis by simp
  qed
next
  case (Cons a s)
  then obtain b t' where t: "t = b # t'" by (cases t) auto
  from Cons.prems t consider "a < b" | "a = b" "s < t'" by auto
  then show ?case
  proof cases
    case 1
    then have "b \<noteq> 0" by auto
    with 1 t show ?thesis by auto
  next
    case 2
    with Cons.IH [of t'] t show ?thesis by simp
  qed
qed

text \<open>
  A value before another comes before it in a list of values; when neither of two is before the
  other, the values after them decide.
\<close>

fun tuple_less :: "('v \<Rightarrow> 'v \<Rightarrow> bool) \<Rightarrow> 'v list \<Rightarrow> 'v list \<Rightarrow> bool" where
  "tuple_less lt (r # rs) (s # ss) \<longleftrightarrow> lt r s \<or> (\<not> lt s r \<and> tuple_less lt rs ss)"
| "tuple_less lt _ _ = False"

text \<open>
  The contract of a key component: it is written so that its end can be found from its start, it
  decodes to the value it was written for, up to \<open>normal\<close>, and codes compare as values do whatever
  follows them.
\<close>

locale ordered_code =
  fixes code :: "'v \<Rightarrow> bytes"
    and fits :: "'t \<Rightarrow> 'v \<Rightarrow> bool"
    and readable :: "'v \<Rightarrow> bool"
    and normal :: "'v \<Rightarrow> 'v"
    and lt :: "'v \<Rightarrow> 'v \<Rightarrow> bool"
    and code_end :: "bytes \<Rightarrow> nat \<Rightarrow> 't \<Rightarrow> nat res"
    and decode :: "bytes \<Rightarrow> 't \<Rightarrow> 'v res"
  assumes code_end: "fits t r \<Longrightarrow>
      code_end (pre @ code r @ rest) (length pre) t = Inr (length pre + length (code r))"
    and decode: "fits t r \<Longrightarrow> readable r \<Longrightarrow> decode (code r) t = Inr (normal r)"
    and code_less: "fits t r \<Longrightarrow> fits t s \<Longrightarrow> lt r s \<Longrightarrow> code r @ x < code s @ y"
    and code_total: "fits t r \<Longrightarrow> fits t s \<Longrightarrow> lt r s \<or> lt s r \<or> code r = code s"
begin

lemma code_order:
  assumes "fits t r" "fits t s"
  shows "code r @ x < code s @ y \<longleftrightarrow> lt r s \<or> (\<not> lt s r \<and> x < y)"
  using code_less [OF assms, of x y] code_less [OF assms(2,1), of y x] code_total [OF assms]
  by (metis append_less_cancel less_asym)

lemma tuple_order:
  assumes "list_all2 fits ts rs" "list_all2 fits ts ss"
  shows "concat (map code rs) @ x < concat (map code ss) @ y \<longleftrightarrow>
    tuple_less lt rs ss \<or> (\<not> tuple_less lt ss rs \<and> x < y)"
  using assms
proof (induction ts rs arbitrary: ss rule: list_all2_induct)
  case (Cons t ts r rs)
  then obtain s ss' where ss: "ss = s # ss'" "fits t s" "list_all2 fits ts ss'"
    by (auto simp: list_all2_Cons1)
  have "\<not> (lt r s \<and> lt s r)"
    using code_less [OF Cons(1) ss(2), of "[]" "[]"] code_less [OF ss(2) Cons(1), of "[]" "[]"]
    by (auto dest: less_asym)
  with ss Cons code_order [OF Cons(1) ss(2)] show ?case by auto
qed auto

text \<open>Two keys of the same columns share a beginning only where their values do.\<close>

lemma code_prefix:
  assumes "fits t r" "fits t s" "code r @ x = code s @ y"
  shows "code r = code s \<and> x = y"
proof -
  have "length (code r) = length (code s)"
    using code_end [OF assms(1), of "[]" x] code_end [OF assms(2), of "[]" y] assms(3) by simp
  with assms(3) show ?thesis by simp
qed

lemma tuple_prefix:
  assumes "list_all2 fits ts rs" "list_all2 fits ts ss"
    and "concat (map code rs) @ x = concat (map code ss) @ y"
  shows "map code rs = map code ss \<and> x = y"
  using assms
proof (induction ts rs arbitrary: ss rule: list_all2_induct)
  case (Cons t ts r rs)
  then obtain s ss' where ss: "ss = s # ss'" "fits t s" "list_all2 fits ts ss'"
    by (auto simp: list_all2_Cons1)
  then have "code r = code s \<and> concat (map code rs) @ x = concat (map code ss') @ y"
    using code_prefix [OF Cons(1) ss(2)] Cons.prems(2) by simp
  with Cons.IH [OF ss(3)] ss show ?case by simp
qed auto

end

lemma key_bytes_less:
  assumes "key_fits t r" "key_fits t s" "key_less r s"
  shows "key_bytes r @ x < key_bytes s @ y"
  using assms
  by (auto elim!: key_fits_cases simp: same_length_append_less be_bytes_less sortable_integer_less
      sortable_float_less escaped_less)

lemma key_bytes_total:
  assumes "key_fits t r" "key_fits t s"
  shows "key_less r s \<or> key_less s r \<or> key_bytes r = key_bytes s"
  using assms(1)
proof (cases rule: key_fits_cases)
  case (Integer i)
  with assms(2) obtain j where "s = VInteger j" by (auto elim: key_fits_cases)
  with Integer show ?thesis
    using signed_word_eqI [of i j] by (cases "sint i" "sint j" rule: linorder_cases) auto
next
  case (Float x)
  with assms(2) obtain y where "s = VFloat y" by (auto elim: key_fits_cases)
  with Float show ?thesis
    using sortable_float_less [of x y] sortable_float_less [of y x]
    by (cases "sortable_float x" "sortable_float y" rule: linorder_cases) auto
next
  case (Text u)
  with assms(2) obtain v where "s = VText v" by (auto elim: key_fits_cases)
  with Text show ?thesis by (cases u v rule: linorder_cases) auto
qed (use assms(2) in \<open>auto elim: key_fits_cases\<close>)

interpretation key: ordered_code key_bytes key_fits ref_utf8 key_normal key_less
    component_end decode_component
  by unfold_locales
    (auto intro: component_end_key_bytes decode_key_bytes key_bytes_less key_bytes_total
      dest: key_bytes_total)

end
