(* ===== verification/KeyTuples.thy ===== *)
theory KeyTuples
  imports KeyOrder
begin

unbundle bit_operations_syntax

text \<open>
  Primary keys and index entries as tuples of components: what a row's key is made of, how keys
  compare, and how an index entry splits into its indexed values and its row's primary key.
\<close>

section \<open>The values of a row's key columns\<close>

definition column_key ::
  "'n serde \<Rightarrow> 'n table_definition \<Rightarrow> 'n row \<Rightarrow> str \<Rightarrow> 'n value_ref option" where
  "column_key js schema row column =
    (case (schema_column_type schema column, row column) of
       (Inr t, Some v) \<Rightarrow> key_value js t v
     | _ \<Rightarrow> None)"

definition key_tuple ::
  "'n serde \<Rightarrow> 'n table_definition \<Rightarrow> str list \<Rightarrow> 'n row \<Rightarrow> 'n value_ref list" where
  "key_tuple js schema columns row = map (\<lambda>column. the (column_key js schema row column)) columns"

text \<open>Every text value of the row is a string, as every Rust \<^verbatim>\<open>String\<close> is UTF-8.\<close>

definition row_utf8 :: "'n row \<Rightarrow> bool" where
  "row_utf8 row \<longleftrightarrow> (\<forall>column s. row column = Some (String s) \<longrightarrow> utf8 s)"

abbreviation tuple_bytes :: "'n value_ref list \<Rightarrow> bytes" where
  "tuple_bytes rs \<equiv> concat (map key_bytes rs)"

lemma key_tuple_simps [simp]:
  "key_tuple js schema [] row = []"
  "key_tuple js schema (c # cs) row = the (column_key js schema row c) # key_tuple js schema cs row"
  "key_tuple js schema (cs @ ds) row = key_tuple js schema cs row @ key_tuple js schema ds row"
  by (simp_all add: key_tuple_def)

lemma validate_key_size_ok [simp]:
  "validate_key_size key = Inr u \<longleftrightarrow> length key \<le> MAX_BTREE_KEY_BYTES"
  by (auto simp: validate_key_size_def)

lemma encode_columns_loop_ok:
  assumes "encode_columns_loop js schema row policy columns key = Inr (Some key')"
  shows "key' = key @ tuple_bytes (key_tuple js schema columns row)
    \<and> (\<exists>ts. map_res (schema_column_type schema) columns = Inr ts
            \<and> list_all2 key_fits ts (key_tuple js schema columns row))
    \<and> (\<forall>c \<in> set columns. column_key js schema row c \<noteq> None)"
  using assms
proof (induction columns arbitrary: key)
  case (Cons c cs)
  then obtain v t r where r: "row c = Some v" "schema_column_type schema c = Inr t"
      "key_value js t v = Some r"
    and loop: "encode_columns_loop js schema row policy cs (key @ key_bytes r) = Inr (Some key')"
    by (auto simp: and_then_eq_Inr encode_component_ok split: if_splits null_policy.splits)
  from r have "column_key js schema row c = Some r" by (simp add: column_key_def)
  with r Cons.IH [OF loop] key_value_fits [OF r(3)] show ?case
    by (auto simp: and_then_eq_Inr)
qed auto

lemma encode_columns_ok:
  assumes "encode_columns js schema columns row policy = Inr (Some key)"
  shows "columns \<noteq> [] \<and> key = tuple_bytes (key_tuple js schema columns row)
    \<and> (\<exists>ts. map_res (schema_column_type schema) columns = Inr ts
            \<and> list_all2 key_fits ts (key_tuple js schema columns row))
    \<and> (\<forall>c \<in> set columns. column_key js schema row c \<noteq> None)"
  using assms encode_columns_loop_ok [of js schema row policy columns "[]" key]
  by (auto simp: encode_columns_def split: if_splits)

lemma encode_primary_key_columns:
  "encode_primary_key js schema row = Inr key \<Longrightarrow>
   encode_columns js schema (td_primary_key schema) row Reject = Inr (Some key)
   \<and> length key \<le> MAX_BTREE_KEY_BYTES"
  by (auto simp: encode_primary_key_def and_then_eq_Inr)

lemmas encode_primary_key_ok =
  encode_columns_ok [OF conjunct1 [OF encode_primary_key_columns]]

lemma encode_secondary_index_entry_ok:
  assumes "encode_secondary_index_entry js schema definition' row = Inr (Some (entry, n))"
  obtains prefix primary_key where "entry = prefix @ primary_key" "n = length prefix"
    "encode_columns js schema (ix_columns definition') row Omit = Inr (Some prefix)"
    "encode_primary_key js schema row = Inr primary_key" "length entry \<le> MAX_BTREE_KEY_BYTES"
  using assms
  by (auto simp: encode_secondary_index_entry_def encode_secondary_index_prefix_def and_then_eq_Inr
      split: option.splits)

section \<open>Order of keys\<close>

lemma map_res_append:
  "map_res f xs = Inr ys \<Longrightarrow> map_res f xs' = Inr ys' \<Longrightarrow> map_res f (xs @ xs') = Inr (ys @ ys')"
  by (simp add: map_res_eq_Inr list_all2_appendI)

lemma encode_columns_order:
  assumes "encode_columns js schema columns row1 p = Inr (Some key1)"
    and "encode_columns js schema columns row2 q = Inr (Some key2)"
  shows "key1 @ x < key2 @ y \<longleftrightarrow>
    tuple_less key_less (key_tuple js schema columns row1) (key_tuple js schema columns row2)
    \<or> (\<not> tuple_less key_less (key_tuple js schema columns row2) (key_tuple js schema columns row1)
       \<and> x < y)"
proof -
  from encode_columns_ok [OF assms(1)] encode_columns_ok [OF assms(2)]
  obtain ts where "list_all2 key_fits ts (key_tuple js schema columns row1)"
    "list_all2 key_fits ts (key_tuple js schema columns row2)"
    "key1 = tuple_bytes (key_tuple js schema columns row1)"
    "key2 = tuple_bytes (key_tuple js schema columns row2)"
    by auto
  with key.tuple_order [OF this(1,2), of x y] show ?thesis by simp
qed

section \<open>Splitting an index entry\<close>

lemma encode_primary_key_order:
  assumes "encode_primary_key js schema row1 = Inr key1" "encode_primary_key js schema row2 = Inr key2"
  shows "(key1 < key2 \<longleftrightarrow> tuple_less key_less (key_tuple js schema (td_primary_key schema) row1)
           (key_tuple js schema (td_primary_key schema) row2))
    \<and> (key1 = key2 \<longleftrightarrow>
        \<not> tuple_less key_less (key_tuple js schema (td_primary_key schema) row1)
            (key_tuple js schema (td_primary_key schema) row2)
        \<and> \<not> tuple_less key_less (key_tuple js schema (td_primary_key schema) row2)
            (key_tuple js schema (td_primary_key schema) row1))"
proof -
  note e = encode_primary_key_columns [OF assms(1), THEN conjunct1]
    encode_primary_key_columns [OF assms(2), THEN conjunct1]
  from encode_columns_order [OF e(1,2), of "[]" "[]"] encode_columns_order [OF e(2,1), of "[]" "[]"]
  show ?thesis by (auto simp: not_less_iff_gr_or_eq)
qed

lemma key_value_utf8:
  assumes "key_value js t v = Some r" "\<forall>s. v = String s \<longrightarrow> utf8 s"
  shows "ref_utf8 r"
  using assms
  by (cases v; cases t) (auto simp: key_value_def split: option.splits if_splits)

lemma column_key_utf8: "row_utf8 row \<Longrightarrow> column_key js schema row c = Some r \<Longrightarrow> ref_utf8 r"
  by (auto simp: column_key_def row_utf8_def intro: key_value_utf8
      split: sum.splits option.splits prod.splits)

lemma key_tuple_utf8:
  "row_utf8 row \<Longrightarrow> \<forall>c \<in> set columns. column_key js schema row c \<noteq> None \<Longrightarrow>
   list_all ref_utf8 (key_tuple js schema columns row)"
  by (induction columns) (auto dest: column_key_utf8)

lemma slice_middle: "slice (pre @ xs @ rest) (length pre) (length xs) = xs"
  by (simp add: slice_def)

lemma validate_tuple_prefix_tuple:
  fixes schema :: "'n table_definition" and rs :: "'n value_ref list"
  assumes "map_res (schema_column_type schema) columns = Inr ts"
    and "list_all2 key_fits ts rs" "list_all ref_utf8 rs"
  shows "validate_tuple_prefix schema columns (pre @ tuple_bytes rs @ rest) (length pre)
    = Inr (length pre + length (tuple_bytes rs))"
  using assms
proof (induction columns arbitrary: ts rs pre)
  case (Cons c cs)
  from Cons.prems obtain t ts' r rs' where 1: "schema_column_type schema c = Inr t"
    "map_res (schema_column_type schema) cs = Inr ts'" "rs = r # rs'"
    "key_fits t r" "list_all2 key_fits ts' rs'" "ref_utf8 r" "list_all ref_utf8 rs'"
    by (auto simp: and_then_eq_Inr list_all2_Cons1)
  have "component_end (pre @ key_bytes r @ tuple_bytes rs' @ rest) (length pre) t
      = Inr (length pre + length (key_bytes r))"
    using 1(4) by (rule component_end_key_bytes)
  moreover have "slice (pre @ key_bytes r @ tuple_bytes rs' @ rest) (length pre) (length (key_bytes r))
      = key_bytes r" by (rule slice_middle)
  ultimately show ?case
    using Cons.IH [OF 1(2,5,7), of "pre @ key_bytes r"] 1 decode_key_bytes [OF 1(4,6)] by simp
qed auto

lemma skip_components_tuple:
  assumes "list_all2 key_fits ts rs"
  shows "skip_components (pre @ tuple_bytes rs @ rest) ts (length pre)
    = Inr (length pre + length (tuple_bytes rs))"
  using assms
proof (induction ts rs arbitrary: pre rule: list_all2_induct)
  case (Cons t ts r rs)
  then show ?case
    using component_end_key_bytes [OF Cons(1), of pre "tuple_bytes rs @ rest"]
      Cons(3) [of "pre @ key_bytes r"] by simp
qed simp

lemma key_bytes_nonempty: "key_fits t r \<Longrightarrow> key_bytes r \<noteq> []"
  by (erule key_fits_cases) (auto simp: be_bytes_def le_bytes_def)

lemma tuple_bytes_nonempty: "list_all2 key_fits ts rs \<Longrightarrow> rs \<noteq> [] \<Longrightarrow> tuple_bytes rs \<noteq> []"
  by (induction ts rs rule: list_all2_induct) (auto dest: key_bytes_nonempty)

text \<open>Both halves of an entry, as tuples whose columns the schema types.\<close>

lemma index_entry_tuples:
  assumes "encode_secondary_index_entry js schema definition' row = Inr (Some (entry, n))"
  obtains ts us where
    "entry = tuple_bytes (key_tuple js schema (ix_columns definition') row)
             @ tuple_bytes (key_tuple js schema (td_primary_key schema) row)"
    "n = length (tuple_bytes (key_tuple js schema (ix_columns definition') row))"
    "encode_primary_key js schema row
       = Inr (tuple_bytes (key_tuple js schema (td_primary_key schema) row))"
    "map_res (schema_column_type schema) (ix_columns definition') = Inr ts"
    "map_res (schema_column_type schema) (td_primary_key schema) = Inr us"
    "list_all2 key_fits ts (key_tuple js schema (ix_columns definition') row)"
    "list_all2 key_fits us (key_tuple js schema (td_primary_key schema) row)"
    "tuple_bytes (key_tuple js schema (td_primary_key schema) row) \<noteq> []"
    "\<forall>c \<in> set (ix_columns definition' @ td_primary_key schema). column_key js schema row c \<noteq> None"
    "length entry \<le> MAX_BTREE_KEY_BYTES"
proof -
  from assms obtain prefix primary_key where e: "entry = prefix @ primary_key" "n = length prefix"
    "encode_columns js schema (ix_columns definition') row Omit = Inr (Some prefix)"
    "encode_primary_key js schema row = Inr primary_key" "length entry \<le> MAX_BTREE_KEY_BYTES"
    by (rule encode_secondary_index_entry_ok)
  from encode_columns_ok [OF e(3)] obtain ts where
    i: "prefix = tuple_bytes (key_tuple js schema (ix_columns definition') row)"
      "map_res (schema_column_type schema) (ix_columns definition') = Inr ts"
      "list_all2 key_fits ts (key_tuple js schema (ix_columns definition') row)"
      "\<forall>c \<in> set (ix_columns definition'). column_key js schema row c \<noteq> None"
    by blast
  from encode_primary_key_ok [OF e(4)] obtain us where
    p: "primary_key = tuple_bytes (key_tuple js schema (td_primary_key schema) row)"
      "map_res (schema_column_type schema) (td_primary_key schema) = Inr us"
      "list_all2 key_fits us (key_tuple js schema (td_primary_key schema) row)"
      "\<forall>c \<in> set (td_primary_key schema). column_key js schema row c \<noteq> None"
      "td_primary_key schema \<noteq> []"
    by blast
  have ne: "tuple_bytes (key_tuple js schema (td_primary_key schema) row) \<noteq> []"
    using tuple_bytes_nonempty [OF p(3)] p(5) by (auto simp: key_tuple_def)
  show thesis
    by (rule that [OF _ _ _ i(2) p(2) i(3) p(3) ne _ e(5)]) (use e i p in auto)
qed

lemma index_entry_primary_key_for_definition:
  assumes "encode_secondary_index_entry js schema definition' row = Inr (Some (entry, n))"
    and "validate_index_identity js schema definition' = Inr ()" "row_utf8 row"
  shows "secondary_index_primary_key_for_definition js schema definition' entry
    = encode_primary_key js schema row"
proof -
  from assms(1) show ?thesis
  proof (rule index_entry_tuples)
    let ?i = "key_tuple js schema (ix_columns definition') row"
    let ?p = "key_tuple js schema (td_primary_key schema) row"
    fix ts us
    assume e: "entry = tuple_bytes ?i @ tuple_bytes ?p"
      "encode_primary_key js schema row = Inr (tuple_bytes ?p)"
      "map_res (schema_column_type schema) (ix_columns definition') = Inr ts"
      "map_res (schema_column_type schema) (td_primary_key schema) = Inr us"
      "list_all2 key_fits ts ?i" "list_all2 key_fits us ?p" "tuple_bytes ?p \<noteq> []"
      "\<forall>c \<in> set (ix_columns definition' @ td_primary_key schema). column_key js schema row c \<noteq> None"
      "length entry \<le> MAX_BTREE_KEY_BYTES"
    have u: "list_all ref_utf8 ?i" "list_all ref_utf8 ?p"
      using e(8) assms(3) by (auto intro: key_tuple_utf8)
    have "validate_tuple_prefix schema (ix_columns definition') entry 0 = Inr (length (tuple_bytes ?i))"
      using validate_tuple_prefix_tuple [OF e(3,5) u(1), of "[]"] e(1) by simp
    moreover have "validate_tuple_prefix schema (td_primary_key schema) (tuple_bytes ?p) 0
        = Inr (length (tuple_bytes ?p))"
      using validate_tuple_prefix_tuple [OF e(4,6) u(2), of "[]" "[]"] by simp
    moreover have "validate_key_size entry = Inr ()" using e(9) by simp
    moreover have "length entry \<noteq> length (tuple_bytes ?i)" using e(1,7) by simp
    moreover have "drop (length (tuple_bytes ?i)) entry = tuple_bytes ?p" using e(1) by simp
    ultimately show ?thesis
      using e(2) assms(2)
      by (simp add: secondary_index_primary_key_for_definition_def validate_key_size_def)
  qed
qed

section \<open>Reading columns from an index entry\<close>

lemma find_position: "find p xs = map_option ((!) xs) (position p xs)"
  by (induction xs) (auto simp: option.map_comp o_def)

lemma schema_column_type_position:
  "schema_column_type schema name =
    ok_or COLUMN_NOT_FOUND (map_option (\<lambda>p. col_type (td_columns schema ! p))
      (position (\<lambda>column. col_name column = name) (td_columns schema)))"
  by (simp add: schema_column_type_def find_position option.map_comp o_def)

definition layout_slots ::
  "'n table_definition \<Rightarrow> str list \<Rightarrow> nat option list \<Rightarrow> bool" where
  "layout_slots schema names slots \<longleftrightarrow>
    (\<forall>p c. p < length slots \<longrightarrow> slots ! p = Some c \<longrightarrow>
       c < length names \<and> names ! c = col_name (td_columns schema ! p))"

lemma layout_slots_step:
  assumes "layout_slots schema names slots" "col_name (td_columns schema ! p) = name"
  shows "layout_slots schema (names @ [name])
    (if slots ! p = None then slots[p := Some (length names)] else slots)"
proof (cases "slots ! p = None")
  case True
  have "slots[p := Some (length names)] ! q = (if q = p then Some (length names) else slots ! q)"
    if "q < length slots" for q
    using that by auto
  with True assms show ?thesis
    by (auto simp: layout_slots_def nth_append split: if_splits)
next
  case False
  with assms show ?thesis by (auto simp: layout_slots_def nth_append)
qed

lemma index_layout_loop_ok:
  assumes "index_layout_loop schema names slots types = Inr layout"
    and "map_res (schema_column_type schema) before = Inr types"
    and "layout_slots schema before slots"
  shows "map_res (schema_column_type schema) (before @ names) = Inr (iel_types layout)
    \<and> layout_slots schema (before @ names) (iel_slots layout)"
  using assms
proof (induction names arbitrary: slots types before)
  case (Cons name names)
  then obtain p where p: "position (\<lambda>column. col_name column = name) (td_columns schema) = Some p"
    and loop: "index_layout_loop schema names
        (if slots ! p = None then slots[p := Some (length types)] else slots)
        (types @ [col_type (td_columns schema ! p)]) = Inr layout"
    by (auto simp: and_then_eq_Inr)
  have len: "length types = length before"
    using Cons.prems(2) by (simp add: map_res_eq_Inr list_all2_lengthD)
  have "map_res (schema_column_type schema) (before @ [name])
      = Inr (types @ [col_type (td_columns schema ! p)])"
    using Cons.prems(2) p by (simp add: map_res_eq_Inr schema_column_type_position list_all2_appendI)
  moreover have "layout_slots schema (before @ [name])
      (if slots ! p = None then slots[p := Some (length types)] else slots)"
    unfolding len using Cons.prems(3) position_Some [OF p] by (intro layout_slots_step) auto
  ultimately show ?case
    using Cons.IH [OF loop, of "before @ [name]"] by simp
qed auto

lemma index_entry_layout_new_ok:
  assumes "index_entry_layout_new schema definition' = Inr layout"
  shows "map_res (schema_column_type schema) (ix_columns definition' @ td_primary_key schema)
      = Inr (iel_types layout)
    \<and> layout_slots schema (ix_columns definition' @ td_primary_key schema) (iel_slots layout)"
  using assms
    index_layout_loop_ok [of schema "ix_columns definition' @ td_primary_key schema"
      "replicate (length (td_columns schema)) None" "[]" layout "[]"]
  by (simp add: index_entry_layout_new_def layout_slots_def)

lemma tuple_component:
  assumes "list_all2 key_fits ts rs" "c < length rs"
  shows "and_then (skip_components (tuple_bytes rs) (take c ts) 0) (\<lambda>start.
      and_then (component_end (tuple_bytes rs) start (ts ! c)) (\<lambda>end'.
        f (slice (tuple_bytes rs) start (end' - start)) (ts ! c))) = f (key_bytes (rs ! c)) (ts ! c)"
proof -
  let ?pre = "tuple_bytes (take c rs)" and ?rest = "tuple_bytes (drop (Suc c) rs)"
  have split: "tuple_bytes rs = ?pre @ key_bytes (rs ! c) @ ?rest"
    by (metis assms(2) concat_append concat.simps(2) id_take_nth_drop list.simps(9) map_append)
  have "skip_components (tuple_bytes rs) (take c ts) 0 = Inr (length ?pre)"
    using skip_components_tuple [OF list_all2_takeI [OF assms(1), of c], of "[]" "key_bytes (rs ! c) @ ?rest"]
    by (simp flip: split)
  moreover have "component_end (tuple_bytes rs) (length ?pre) (ts ! c)
      = Inr (length ?pre + length (key_bytes (rs ! c)))"
    unfolding split
    using assms by (intro component_end_key_bytes) (auto dest: list_all2_nthD2)
  moreover have "slice (tuple_bytes rs) (length ?pre) (length (key_bytes (rs ! c))) = key_bytes (rs ! c)"
    unfolding split by (rule slice_middle)
  ultimately show ?thesis by simp
qed

lemma index_entry_column_ok:
  fixes js :: "'n serde"
  assumes "encode_secondary_index_entry js schema definition' row = Inr (Some (entry, n))"
    and "index_entry_layout_new schema definition' = Inr layout"
    and "index_entry_layout_covers layout [index]" "row_utf8 row"
  shows "\<exists>r. column_key js schema row (col_name (td_columns schema ! index)) = Some r
    \<and> index_entry_column entry layout index = Inr (key_normal r)"
proof -
  let ?names = "ix_columns definition' @ td_primary_key schema"
  let ?rs = "key_tuple js schema ?names row"
  from assms(3) obtain c where c: "index < length (iel_slots layout)" "iel_slots layout ! index = Some c"
    by (auto simp: index_entry_layout_covers_def)
  with index_entry_layout_new_ok [OF assms(2)]
  have cn: "c < length ?names" "?names ! c = col_name (td_columns schema ! index)"
    and types: "map_res (schema_column_type schema) ?names = Inr (iel_types layout)"
    by (auto simp: layout_slots_def)
  from assms(1) have "entry = tuple_bytes ?rs \<and> list_all2 key_fits (iel_types layout) ?rs
      \<and> (\<forall>x \<in> set ?names. column_key js schema row x \<noteq> None)"
  proof (rule index_entry_tuples)
    fix ts us
    assume e: "entry = tuple_bytes (key_tuple js schema (ix_columns definition') row)
             @ tuple_bytes (key_tuple js schema (td_primary_key schema) row)"
      "map_res (schema_column_type schema) (ix_columns definition') = Inr ts"
      "map_res (schema_column_type schema) (td_primary_key schema) = Inr us"
      "list_all2 key_fits ts (key_tuple js schema (ix_columns definition') row)"
      "list_all2 key_fits us (key_tuple js schema (td_primary_key schema) row)"
      "\<forall>c \<in> set ?names. column_key js schema row c \<noteq> None"
    from map_res_append [OF e(2,3)] types have "iel_types layout = ts @ us" by simp
    with e show "entry = tuple_bytes ?rs \<and> list_all2 key_fits (iel_types layout) ?rs
        \<and> (\<forall>x \<in> set ?names. column_key js schema row x \<noteq> None)"
      by (simp add: list_all2_appendI)
  qed
  then have e: "entry = tuple_bytes ?rs" "list_all2 key_fits (iel_types layout) ?rs"
    and some: "\<forall>x \<in> set ?names. column_key js schema row x \<noteq> None" by auto
  have len: "c < length ?rs" using cn(1) by (simp add: key_tuple_def)
  from some cn obtain r where r: "column_key js schema row (col_name (td_columns schema ! index)) = Some r"
    by (metis nth_mem option.exhaust_sel)
  then have rs: "?rs ! c = r" using cn by (simp add: key_tuple_def del: map_append)
  have decoded: "decode_component (key_bytes r) (iel_types layout ! c) = Inr (key_normal r)"
    using list_all2_nthD2 [OF e(2) len] rs column_key_utf8 [OF assms(4) r]
    by (intro decode_key_bytes) auto
  have "index_entry_column entry layout index = Inr (key_normal r)"
    using tuple_component [OF e(2) len, where f = "decode_component :: _ \<Rightarrow> _ \<Rightarrow> 'n value_ref res",
        folded e(1), unfolded rs decoded] c
    by (simp add: index_entry_column_def Let_def)
  with r show ?thesis by blast
qed

section \<open>Ranges of text\<close>

lemma utf8_follow_ff: "utf8_follow 0xFF = None"
  by (simp add: utf8_follow_def)

lemma utf8_no_ff: "utf8 s \<Longrightarrow> 0xFF \<notin> set s"
proof (induction s rule: utf8.induct)
  case (2 a bs)
  then obtain n low high where f: "utf8_follow a = Some (n, low, high)"
    and tail: "list_all utf8_tail (take n bs)" and rest: "utf8 (drop n bs)"
    by (auto split: option.splits)
  have "0xFF \<notin> set (take n bs)"
    using tail by (auto simp: list_all_iff utf8_tail_def)
  moreover have "0xFF \<notin> set (drop n bs)"
    using 2(1) [OF f] rest by simp
  moreover have "a \<noteq> 0xFF" using f by (auto simp: utf8_follow_ff)
  ultimately show ?case by (metis append_take_drop_id set_append set_ConsD UnE)
qed simp

lemma encode_key_bound_text:
  "encode_key_bound js Text (String s) = Inr (escaped s @ [0, TEXT_TERMINATOR])"
  by (simp add: encode_key_bound_def encode_component_eq key_value_def)

lemma encode_text_prefix_bounds_eq:
  "encode_text_prefix_bounds js prefix = Inr (escaped prefix, escaped prefix @ [0xFF])"
  by (simp add: encode_text_prefix_bounds_def encode_key_bound_def encode_component_eq key_value_def
      Let_def)

lemma escaped_prefix:
  "escaped s @ 0 # TEXT_TERMINATOR # x = escaped p @ y \<Longrightarrow> \<exists>u. s = p @ u"
proof (induction p arbitrary: s)
  case (Cons b p)
  then show ?case
  proof (cases s)
    case (Cons a s')
    with Cons.prems Cons.IH [of s'] show ?thesis by (auto split: if_splits)
  qed (auto split: if_splits)
qed simp

lemma between_bounds:
  "l \<le> c \<Longrightarrow> c < l @ [m] \<Longrightarrow> \<exists>r. c = l @ (r :: 'a::linorder list)"
proof (induction l arbitrary: c)
  case (Cons a l)
  then show ?case
    by (cases c) (auto simp: not_less [symmetric])
qed simp

lemma text_prefix_range:
  assumes "utf8 s"
  shows "(\<exists>u. s = p @ u) \<longleftrightarrow>
    escaped p \<le> escaped s @ [0, TEXT_TERMINATOR] \<and> escaped s @ [0, TEXT_TERMINATOR] < escaped p @ [0xFF]"
proof
  assume "\<exists>u. s = p @ u"
  then obtain u where s: "s = p @ u" by blast
  have "escaped u @ 0 # TEXT_TERMINATOR # [] < [0xFF]"
  proof (cases u)
    case (Cons b u')
    then have "b \<noteq> 0xFF" using utf8_no_ff [OF assms] s by auto
    moreover have "b \<le> 0xFF"
      using unsigned_less [of b, where 'a = nat] by (simp add: word_le_nat_alt)
    ultimately have "b < 0xFF" by simp
    with Cons show ?thesis by simp
  qed simp
  then show "escaped p \<le> escaped s @ [0, TEXT_TERMINATOR] \<and> escaped s @ [0, TEXT_TERMINATOR] < escaped p @ [0xFF]"
    using s append_le_cancel [of "escaped p" "[]" "escaped u @ [0, TEXT_TERMINATOR]"] by simp
next
  assume "escaped p \<le> escaped s @ [0, TEXT_TERMINATOR] \<and> escaped s @ [0, TEXT_TERMINATOR] < escaped p @ [0xFF]"
  then obtain r where "escaped s @ [0, TEXT_TERMINATOR] = escaped p @ r" using between_bounds by blast
  then show "\<exists>u. s = p @ u" using escaped_prefix [of s "[]" p r] by simp
qed

end
