(* ===== verification/RowProofs.thy ===== *)
theory RowProofs
  imports RowCodec KeyTuples
begin

unbundle bit_operations_syntax

text \<open>
  Stored records. \<open>render\<close> is the record as one expression; the code's writes into its buffer produce
  it, and reading it in place gives back the encoded values it was rendered from.
\<close>

section \<open>Buffers filled from the front\<close>

lemma put_from_0: "length h \<le> length d \<Longrightarrow> put d 0 h = h @ drop (length h) d"
  by (simp add: put_def)

lemma put_put_next:
  "off + length u + length v \<le> length d \<Longrightarrow>
   put (put d off u) (off + length u) v = put d off (u @ v)"
  by (rule buffer_eqI [where n = "length d"]) (auto simp: nth_put nth_append)

lemma update_two: "2 \<le> length d \<Longrightarrow> d[0 := a, 1 := b] = put d 0 [a, b]"
  by (rule buffer_eqI [where n = "length d"])
    (auto simp: nth_put nth_list_update nth_Cons' numeral_2_eq_2 less_Suc_eq)

definition offset_bytes :: "nat \<Rightarrow> nat \<Rightarrow> bytes" where
  "offset_bytes width n = map (\<lambda>b. of_nat (n div 2 ^ (8 * b))) [0..<width]"

lemma length_offset_bytes [simp]: "length (offset_bytes w n) = w"
  by (simp add: offset_bytes_def)

lemma write_offsets_put:
  "at + width * length ends \<le> length data \<Longrightarrow>
   write_offsets data width at ends
     = put data at (concat (map (\<lambda>e. offset_bytes width (fst e)) ends))"
proof (induction data width at ends rule: write_offsets.induct)
  case (2 data width at end' null ends)
  have len: "length (concat (map (\<lambda>e. offset_bytes width (fst e)) ends)) = width * length ends"
    by (induction ends) auto
  have "write_offsets data width at ((end', null) # ends)
      = put (put data at (offset_bytes width end')) (at + width)
          (concat (map (\<lambda>e. offset_bytes width (fst e)) ends))"
    using 2 by (simp add: offset_bytes_def [symmetric])
  also have "\<dots> = put data at (concat (map (\<lambda>e. offset_bytes width (fst e)) ((end', null) # ends)))"
    using put_put_next [of at "offset_bytes width end'"] 2(2) len by simp
  finally show ?case .
qed (simp add: put_def)

lemma be_nat_offset_bytes: "be_nat (rev (offset_bytes w n)) = n mod 256 ^ w"
proof (induction w)
  case (Suc w)
  have "offset_bytes (Suc w) n = offset_bytes w n @ [of_nat (n div 256 ^ w)]"
    by (simp add: offset_bytes_def power_mult)
  then have "be_nat (rev (offset_bytes (Suc w) n)) = (n div 256 ^ w) mod 256 * 256 ^ w + n mod 256 ^ w"
    using Suc by (simp add: unat_of_nat take_bit_eq_mod)
  also have "\<dots> = n mod 256 ^ Suc w"
    using mod_mult2_eq [of n "256 ^ w" 256] by (simp add: ac_simps)
  finally show ?case .
qed (simp add: offset_bytes_def)

lemma from_le_offset_bytes:
  "n < 256 ^ w \<Longrightarrow> (from_le (offset_bytes w n) :: 'a::len word) = of_nat n"
  by (simp add: from_le_eq_of_nat be_nat_offset_bytes)

lemma slice_blocks:
  assumes "\<And>x. length (f x) = w" "p < n"
  shows "slice (concat (map f [0..<n]) @ rest) (p * w) w = f p"
proof -
  have len: "length (concat (map f [0..<k])) = k * w" for k
    using assms(1) by (induction k) auto
  have "[0..<n] = [0..<p] @ p # [Suc p..<n]"
    using assms(2) by (metis less_imp_add_positive upt_add_eq_append upt_conv_Cons zero_le)
  then have "concat (map f [0..<n]) @ rest
      = concat (map f [0..<p]) @ f p @ (concat (map f [Suc p..<n]) @ rest)" by simp
  then show ?thesis using slice_middle [of "concat (map f [0..<p])" "f p"] len assms(1) by simp
qed

section \<open>The null bitmap\<close>

lemma length_write_nulls [simp]: "length (write_nulls bitmap i ends) = length bitmap"
  by (induction bitmap i ends rule: write_nulls.induct) auto

lemma bit_write_nulls:
  assumes "i + length ends \<le> 8 * length bitmap" "p < 8 * length bitmap"
  shows "bit (write_nulls bitmap i ends ! (p div 8)) (p mod 8) \<longleftrightarrow>
    bit (bitmap ! (p div 8)) (p mod 8) \<or> (i \<le> p \<and> p < i + length ends \<and> snd (ends ! (p - i)))"
  using assms
proof (induction bitmap i ends rule: write_nulls.induct)
  case (2 bitmap i e null ends)
  let ?b = "if null then bitmap[i div 8 := bitmap ! (i div 8) OR push_bit (i mod 8) 1] else bitmap"
  have len: "length ?b = length bitmap" by simp
  have idx: "p div 8 < length bitmap" "i div 8 < length bitmap" using 2(2,3) by auto
  have "bit (?b ! (p div 8)) (p mod 8) \<longleftrightarrow> bit (bitmap ! (p div 8)) (p mod 8) \<or> (null \<and> p = i)"
  proof -
    have "p = i \<longleftrightarrow> p div 8 = i div 8 \<and> p mod 8 = i mod 8"
      by (metis div_mult_mod_eq)
    then show ?thesis
      using idx by (auto simp: nth_list_update bit_or_iff bit_exp_iff)
  qed
  moreover have "(e, null) # ends \<noteq> [] \<and> (p = i \<or> Suc i \<le> p \<or> p < i)" by auto
  ultimately show ?case
    using 2 len by (auto simp: nth_Cons' Suc_diff_le)
qed auto

section \<open>The record as one expression\<close>

definition payload :: "bytes option \<Rightarrow> bytes" where
  "payload e = (case e of None \<Rightarrow> [] | Some b \<Rightarrow> b)"

text \<open>Where the first \<open>p\<close> values end.\<close>

definition cut :: "bytes option list \<Rightarrow> nat \<Rightarrow> nat" where
  "cut encs p = length (concat (map payload (take p encs)))"

definition ends_of :: "bytes option list \<Rightarrow> (nat \<times> bool) list" where
  "ends_of encs = map (\<lambda>p. (cut encs (Suc p), encs ! p = None)) [0..<length encs]"

definition bitmap_of :: "bytes option list \<Rightarrow> bytes" where
  "bitmap_of encs =
    write_nulls (replicate (if None \<in> set encs then div_ceil (length encs) 8 else 0) 0) 0 (ends_of encs)"

definition render :: "bytes option list \<Rightarrow> bytes" where
  "render encs =
    (let (code, width) = offset_width (cut encs (length encs - 1))
     in [code OR (if None \<in> set encs then RECORD_HAS_NULLS else 0), of_nat (length encs)]
        @ bitmap_of encs
        @ concat (map (\<lambda>p. offset_bytes width (cut encs (Suc p))) [0..<length encs - 1])
        @ concat (map payload encs))"

lemma payload_simps [simp]: "payload None = []" "payload (Some b) = b"
  by (simp_all add: payload_def)

lemma cut_0 [simp]: "cut encs 0 = 0"
  by (simp add: cut_def)

lemma cut_all: "length encs \<le> p \<Longrightarrow> cut encs p = length (concat (map payload encs))"
  by (simp add: cut_def)

lemma cut_Suc: "p < length encs \<Longrightarrow> cut encs (Suc p) = cut encs p + length (payload (encs ! p))"
  by (simp add: cut_def take_Suc_conv_app_nth)

lemma cut_mono: "p \<le> q \<Longrightarrow> cut encs p \<le> cut encs q"
proof -
  assume "p \<le> q"
  then have "take q encs = take p encs @ take (q - p) (drop p encs)"
    by (metis le_add_diff_inverse take_add)
  then show ?thesis by (simp add: cut_def)
qed

lemma cut_Cons: "cut (e # encs) (Suc p) = length (payload e) + cut encs p"
  by (simp add: cut_def)

lemma cut_take: "p \<le> n \<Longrightarrow> cut (take n encs) p = cut encs p"
  by (simp add: cut_def min_def)

lemma length_ends_of [simp]: "length (ends_of encs) = length encs"
  by (simp add: ends_of_def)

lemma nth_ends_of [simp]:
  "p < length encs \<Longrightarrow> ends_of encs ! p = (cut encs (Suc p), encs ! p = None)"
  by (simp add: ends_of_def)

lemma ends_of_take: "take k (ends_of encs) = ends_of (take k encs)"
  by (rule nth_equalityI) (auto simp: cut_take)

lemma slice_concat_payload:
  assumes "p < length encs"
  shows "slice (concat (map payload encs)) (cut encs p) (cut encs (Suc p) - cut encs p) = payload (encs ! p)"
proof -
  have "concat (map payload encs)
      = concat (map payload (take p encs)) @ payload (encs ! p) @ concat (map payload (drop (Suc p) encs))"
    by (metis assms concat.simps(2) concat_append id_take_nth_drop list.simps(9) map_append)
  then show ?thesis
    using slice_middle [of "concat (map payload (take p encs))" "payload (encs ! p)"] assms
    by (simp add: cut_Suc) (simp add: cut_def)
qed

section \<open>Encoding the stored values\<close>

lemma encode_value_append:
  "encode_value js column v data = and_then (encode_value js column v []) (\<lambda>b. Inr (data @ b))"
  by (auto simp: encode_value_def and_then_assoc split: column_type.splits option.splits)

definition stored_encoding ::
  "'n serde \<Rightarrow> 'n column_definition \<times> 'n stored_value \<Rightarrow> bytes option \<Rightarrow> bool" where
  "stored_encoding js cv e \<longleftrightarrow>
    (case snd cv of
       StoredValue v \<Rightarrow>
         if is_null v then e = None else \<exists>b. encode_value js (fst cv) v [] = Inr b \<and> e = Some b
     | Encoded b \<Rightarrow> e = b)"

lemma ends_of_Cons:
  "ends_of (e # encs) = (length (payload e), e = None)
     # map (\<lambda>(n, null). (length (payload e) + n, null)) (ends_of encs)"
  by (rule nth_equalityI) (auto simp: nth_Cons' cut_Cons gr0_conv_Suc)

lemma encode_stored_loop_ok:
  "encode_stored_loop js columns data ends = Inr (data', ends') \<Longrightarrow>
   \<exists>encs. list_all2 (stored_encoding js) columns encs
     \<and> data' = data @ concat (map payload encs)
     \<and> ends' = ends @ map (\<lambda>(n, null). (length data + n, null)) (ends_of encs)"
proof (induction columns arbitrary: data ends)
  case Nil
  then show ?case by (auto simp: ends_of_def)
next
  case (Cons cv columns)
  obtain column v where cv: "cv = (column, v)" by (cases cv)
  from Cons.prems obtain e where e: "stored_encoding js cv e"
    and loop: "encode_stored_loop js columns (data @ payload e)
        (ends @ [(length (data @ payload e), e = None)]) = Inr (data', ends')"
    by (auto simp: cv and_then_eq_Inr stored_encoding_def encode_value_append [of js column _ data]
        split: stored_value.splits option.splits if_splits)
  from Cons.IH [OF loop] obtain encs where encs: "list_all2 (stored_encoding js) columns encs"
    "data' = (data @ payload e) @ concat (map payload encs)"
    "ends' = (ends @ [(length (data @ payload e), e = None)])
        @ map (\<lambda>(n, null). (length (data @ payload e) + n, null)) (ends_of encs)" by blast
  with e show ?case
    by (intro exI [of _ "e # encs"]) (auto simp: ends_of_Cons add.assoc)
qed

lemma omit_defaults_ok:
  assumes "omit_defaults js columns (concat (map payload encs)) (ends_of encs) n = Inr k"
    and "n \<le> length encs"
  shows "k \<le> n \<and> (\<forall>p. k \<le> p \<and> p < n \<longrightarrow> is_default js (fst (columns ! p)) (encs ! p) = Inr True)
    \<and> (0 < k \<longrightarrow> is_default js (fst (columns ! (k - 1))) (encs ! (k - 1)) = Inr False)"
  using assms
proof (induction n)
  case (Suc n)
  have "(if 1 \<le> n then fst (ends_of encs ! (n - 1)) else 0) = cut encs n"
    using Suc.prems(2) by (cases n) auto
  moreover have "(if encs ! n = None then None else
      Some (slice (concat (map payload encs)) (cut encs n) (cut encs (Suc n) - cut encs n))) = encs ! n"
    using Suc.prems(2) slice_concat_payload [of n encs] by auto
  ultimately have "and_then (is_default js (fst (columns ! n)) (encs ! n)) (\<lambda>same.
      if same then omit_defaults js columns (concat (map payload encs)) (ends_of encs) n
      else Inr (Suc n)) = Inr k"
    using Suc.prems by (simp add: Let_def)
  then show ?case
    using Suc by (auto simp: and_then_eq_Inr less_Suc_eq split: if_splits)
qed simp

section \<open>The writes produce the rendered record\<close>

lemma list_ex_ends_of: "list_ex snd (ends_of encs) \<longleftrightarrow> None \<in> set encs"
  by (auto simp: ends_of_def list_ex_iff in_set_conv_nth)

lemma length_offsets:
  "length (concat (map (\<lambda>p. offset_bytes w (f p)) [0..<n])) = n * w"
  by (induction n) auto

lemma fill_record:
  assumes "length h = n"
  shows "put (put (vs @ replicate n 0) n vs) 0 h = h @ vs"
  using assms by (simp add: put_from_0) (simp add: put_def)

definition largest_cut :: "bytes option list \<Rightarrow> nat" where
  "largest_cut encs = cut encs (length encs - 1)"

lemma write_parts:
  assumes "2 + length bm + w * length es \<le> length d"
  shows "write_offsets (put (d[0 := a, 1 := b]) 2 bm) w (2 + length bm) es
    = put d 0 ([a, b] @ bm @ concat (map (\<lambda>e. offset_bytes w (fst e)) es))"
proof -
  let ?offs = "concat (map (\<lambda>e. offset_bytes w (fst e)) es)"
  have l: "length ?offs = w * length es" by (induction es) auto
  have "write_offsets (put (d[0 := a, 1 := b]) 2 bm) w (2 + length bm) es
      = put (put (put d 0 [a, b]) 2 bm) (2 + length bm) ?offs"
    using assms by (subst update_two, simp, subst write_offsets_put) simp_all
  also have "put (put d 0 [a, b]) 2 bm = put d 0 ([a, b] @ bm)"
    using put_put_next [of 0 "[a, b]" bm d] assms by (simp add: numeral_2_eq_2)
  also have "put (put d 0 ([a, b] @ bm)) (2 + length bm) ?offs = put d 0 (([a, b] @ bm) @ ?offs)"
    using put_put_next [of 0 "[a, b] @ bm" ?offs d] assms l by (simp add: numeral_2_eq_2)
  finally show ?thesis by simp
qed

lemma write_record:
  assumes "offset_width (largest_cut encs) = (code, w)"
    and "h = 2 + length (bitmap_of encs) + (length encs - 1) * w"
  shows "write_offsets
      (put ((put (concat (map payload encs) @ replicate h 0) h (concat (map payload encs)))
              [0 := code OR (if None \<in> set encs then RECORD_HAS_NULLS else 0), 1 := of_nat (length encs)])
         2 (bitmap_of encs)) w (2 + length (bitmap_of encs)) (take (length encs - 1) (ends_of encs))
    = render encs"
proof -
  have offs: "concat (map (\<lambda>e. offset_bytes w (fst e)) (take (length encs - 1) (ends_of encs)))
      = concat (map (\<lambda>p. offset_bytes w (cut encs (Suc p))) [0..<length encs - 1])"
    by (rule arg_cong [of _ _ concat], rule nth_equalityI) auto
  let ?d = "put (concat (map payload encs) @ replicate h 0) h (concat (map payload encs))"
  have "2 + length (bitmap_of encs) + w * length (take (length encs - 1) (ends_of encs)) \<le> length ?d"
    using assms(2) by (simp add: mult.commute)
  note parts = write_parts [OF this]
  show ?thesis
    unfolding parts offs
    by (subst fill_record) (use assms in \<open>simp_all add: length_offsets render_def largest_cut_def\<close>)
qed

lemma length_bitmap_of:
  "length (bitmap_of encs) = (if None \<in> set encs then div_ceil (length encs) 8 else 0)"
  by (simp add: bitmap_of_def)

lemma encode_stored_values_ok:
  assumes "encode_stored_values js columns = Inr record'"
  obtains encs k where "list_all2 (stored_encoding js) columns encs" "k \<le> length columns"
    "\<forall>p. k \<le> p \<and> p < length columns \<longrightarrow> is_default js (fst (columns ! p)) (encs ! p) = Inr True"
    "0 < k \<longrightarrow> is_default js (fst (columns ! (k - 1))) (encs ! (k - 1)) = Inr False"
    "record' = render (take k encs)" "k \<le> 255" "length record' \<le> MAX_PAGED_VALUE_BYTES"
proof -
  from assms obtain data ends k where
    loop: "encode_stored_loop js columns [] [] = Inr (data, ends)"
    and omit: "omit_defaults js columns data ends (length columns) = Inr k"
    by (auto simp: encode_stored_values_def and_then_eq_Inr)
  from encode_stored_loop_ok [OF loop] obtain encs where
    encs: "list_all2 (stored_encoding js) columns encs"
    and data: "data = concat (map payload encs)" "ends = ends_of encs" by auto
  have len: "length encs = length columns" using encs by (simp add: list_all2_lengthD)
  from omit_defaults_ok [OF omit [unfolded data]] len
  have k: "k \<le> length columns"
    "\<forall>p. k \<le> p \<and> p < length columns \<longrightarrow> is_default js (fst (columns ! p)) (encs ! p) = Inr True"
    "0 < k \<longrightarrow> is_default js (fst (columns ! (k - 1))) (encs ! (k - 1)) = Inr False" by auto
  define kept where "kept = take k encs"
  have kept: "length kept = k" "take k ends = ends_of kept"
    using k(1) len data by (simp_all add: kept_def ends_of_take)
  obtain code w where ow: "offset_width (largest_cut kept) = (code, w)" by fastforce
  have last: "(if ends_of kept = [] then 0 else fst (last (ends_of kept))) = cut kept k"
    using kept(1) by (cases "k = 0") (auto simp: last_conv_nth simp flip: length_0_conv)
  have vals: "take (cut kept k) data = concat (map payload kept)"
    by (simp add: kept_def data cut_all take_map [symmetric])
      (metis append_eq_conv_conj append_take_drop_id concat_append map_append)
  have largest: "(if 2 \<le> k then fst (ends_of kept ! (k - 2)) else 0) = largest_cut kept"
    using kept(1) by (cases "2 \<le> k") (auto simp: largest_cut_def Suc_diff_Suc numeral_2_eq_2 less_Suc_eq not_le)
  let ?h = "2 + length (bitmap_of kept) + (k - 1) * w"
  have bytes: "(if None \<in> set kept then div_ceil k 8 else 0) = length (bitmap_of kept)"
    using kept(1) by (simp add: length_bitmap_of)
  have nulls: "write_nulls (replicate (length (bitmap_of kept)) 0) 0 (ends_of kept) = bitmap_of kept"
    using kept(1) by (simp add: bitmap_of_def)
  have "encode_stored_values js columns =
      (if MAX_PAGED_VALUE_BYTES < ?h + cut kept k then Inl PAGED_VALUE_TOO_LARGE
       else if 255 < k then Inl INVALID_PAGED_ARGUMENT else Inr (render kept))"
    unfolding encode_stored_values_def loop omit and_then_simps prod.case Let_def kept(2) last largest
      ow vals list_ex_ends_of RECORD_HEADER_BYTES_def bytes nulls
    using write_record [OF ow refl] kept(1) by simp
  with assms have r: "record' = render kept" "k \<le> 255" "?h + cut kept k \<le> MAX_PAGED_VALUE_BYTES"
    by (auto split: if_splits)
  have "length (render kept) = ?h + cut kept k"
    using ow kept(1) by (simp add: render_def largest_cut_def length_offsets cut_all)
  with r that [OF encs k] show thesis by (simp add: kept_def)
qed

end
