(* ===== verification/RowRead.thy ===== *)
theory RowRead
  imports RowProofs
begin

unbundle bit_operations_syntax

text \<open>
  Reading a rendered record gives back what it was rendered from, column by column and as a whole row.
\<close>

section \<open>Opening a rendered record\<close>

definition opened ::
  "'n table_definition \<Rightarrow> record_layout \<Rightarrow> bytes \<Rightarrow> bytes option list \<Rightarrow> 'n stored_record" where
  "opened schema layout key encs =
    \<lparr>sr_schema = schema, sr_layout = layout, sr_key = key, sr_value = render encs,
     sr_count = length encs, sr_width = snd (offset_width (largest_cut encs)),
     sr_bitmap = bitmap_of encs, sr_offsets_start = 2 + length (bitmap_of encs),
     sr_data = concat (map payload encs)\<rparr>"

lemma offset_width_cases:
  obtains "offset_width n = (0, 1)" "n < 256" | "offset_width n = (1, 2)" "n < 65536"
  | "offset_width n = (2, 4)"
  by (cases "n \<le> 0xFF"; cases "n \<le> 0xFFFF") (auto simp: offset_width_def)

lemma offset_width_code:
  "fst (offset_width n) \<noteq> 3"
  "2 ^ unat (fst (offset_width n)) = snd (offset_width n)"
  by (cases n rule: offset_width_cases; simp)+

definition record_flags :: "bytes option list \<Rightarrow> u8" where
  "record_flags encs =
    fst (offset_width (largest_cut encs)) OR (if None \<in> set encs then RECORD_HAS_NULLS else 0)"

lemma record_flags:
  "record_flags encs AND RECORD_RESERVED = 0"
  "record_flags encs AND RECORD_OFFSET_WIDTH = fst (offset_width (largest_cut encs))"
  "record_flags encs AND RECORD_HAS_NULLS = 0 \<longleftrightarrow> None \<notin> set encs"
  by (cases "largest_cut encs" rule: offset_width_cases;
      simp add: record_flags_def RECORD_RESERVED_def RECORD_OFFSET_WIDTH_def RECORD_HAS_NULLS_def)+

lemma render_eq:
  "render encs = [record_flags encs, of_nat (length encs)] @ bitmap_of encs
     @ concat (map (\<lambda>p. offset_bytes (snd (offset_width (largest_cut encs))) (cut encs (Suc p)))
         [0..<length encs - 1])
     @ concat (map payload encs)"
  by (cases "offset_width (largest_cut encs)") (simp add: render_def record_flags_def largest_cut_def)

lemma open_render:
  assumes "length encs \<le> 255" "length encs \<le> length (rl_stored layout)"
  shows "stored_record_new schema layout key (render encs) = Inr (opened schema layout key encs)"
proof -
  let ?w = "snd (offset_width (largest_cut encs))"
  let ?r = "render encs"
  have head: "?r ! 0 = record_flags encs" "unat (?r ! 1) = length encs"
    using assms(1) by (simp_all add: render_eq)
  have bm: "(if None \<in> set encs then div_ceil (length encs) 8 else 0) = length (bitmap_of encs)"
    by (simp add: length_bitmap_of)
  have len: "length ?r = 2 + length (bitmap_of encs) + (length encs - 1) * ?w + length (concat (map payload encs))"
    by (simp add: render_eq length_offsets)
  have "slice ?r 2 (length (bitmap_of encs)) = bitmap_of encs"
    by (simp add: render_eq slice_def)
  moreover have "drop (2 + length (bitmap_of encs) + (length encs - 1) * ?w) ?r = concat (map payload encs)"
    by (simp add: render_eq length_offsets drop_Cons' )
  ultimately show ?thesis
    unfolding stored_record_new_def Let_def head record_flags offset_width_code
    using assms(2) len by (simp add: offset_width_code bm opened_def RECORD_HEADER_BYTES_def not_less)
qed

lemma opened_simps [simp]:
  "sr_schema (opened schema layout key encs) = schema"
  "sr_layout (opened schema layout key encs) = layout"
  "sr_key (opened schema layout key encs) = key"
  "sr_value (opened schema layout key encs) = render encs"
  "sr_count (opened schema layout key encs) = length encs"
  "sr_data (opened schema layout key encs) = concat (map payload encs)"
  by (simp_all add: opened_def)

text \<open>A record is short enough for its offsets to be written in the four bytes they may take.\<close>

definition offsets_fit :: "bytes option list \<Rightarrow> bool" where
  "offsets_fit encs \<longleftrightarrow> length (concat (map payload encs)) < 2 ^ 32"

lemma offset_slice:
  assumes "Suc p < length encs"
  shows "slice (render encs)
      (2 + length (bitmap_of encs) + p * snd (offset_width (largest_cut encs)))
      (snd (offset_width (largest_cut encs)))
    = offset_bytes (snd (offset_width (largest_cut encs))) (cut encs (Suc p))"
proof -
  let ?w = "snd (offset_width (largest_cut encs))"
  let ?offs = "concat (map (\<lambda>p. offset_bytes ?w (cut encs (Suc p))) [0..<length encs - 1])"
  have "slice (render encs) (2 + length (bitmap_of encs) + p * ?w) ?w
      = slice (drop (2 + length (bitmap_of encs)) (render encs)) (p * ?w) ?w"
    by (simp add: slice_drop)
  also have "drop (2 + length (bitmap_of encs)) (render encs) = ?offs @ concat (map payload encs)"
    by (simp add: render_eq)
  also have "slice \<dots> (p * ?w) ?w = offset_bytes ?w (cut encs (Suc p))"
    by (rule slice_blocks) (use assms in auto)
  finally show ?thesis .
qed

lemma record_end_opened:
  assumes "p < length encs" "offsets_fit encs"
  shows "record_end (opened schema layout key encs) p = cut encs (Suc p)"
proof (cases "Suc p = length encs")
  case True
  then show ?thesis by (simp add: record_end_def cut_all)
next
  case False
  let ?n = "cut encs (Suc p)"
  have le: "?n \<le> largest_cut encs" unfolding largest_cut_def
    using assms False by (intro cut_mono) linarith
  have all: "?n < 2 ^ 32"
    using cut_mono [of "Suc p" "length encs" encs] assms by (simp add: offsets_fit_def cut_all)
  have at: "slice (render encs)
      (2 + length (bitmap_of encs) + p * snd (offset_width (largest_cut encs)))
      (snd (offset_width (largest_cut encs)))
    = offset_bytes (snd (offset_width (largest_cut encs))) ?n"
    using assms False by (intro offset_slice) simp
  show ?thesis
  proof (cases "largest_cut encs" rule: offset_width_cases)
    case 1
    have "render encs ! (2 + length (bitmap_of encs) + p) = of_nat ?n"
    proof -
      have "2 + length (bitmap_of encs) + p < length (render encs)"
        using assms(1) False 1 by (simp add: render_eq length_offsets)
      with at 1 show ?thesis by (simp add: nth_slice_1 [simplified] offset_bytes_def)
    qed
    with 1 le False show ?thesis by (simp add: record_end_def opened_def)
  next
    case 2
    with at le have "read_u16 (render encs) (2 + length (bitmap_of encs) + p * 2) = of_nat ?n"
      by (simp add: read_u16_def from_le_offset_bytes)
    with 2 le False show ?thesis by (simp add: record_end_def opened_def)
  next
    case 3
    with at all have "read_u32 (render encs) (2 + length (bitmap_of encs) + p * 4) = of_nat ?n"
      by (simp add: read_u32_def from_le_offset_bytes)
    with 3 all False show ?thesis by (simp add: record_end_def opened_def)
  qed
qed

lemma div_ceil_8: "p < n \<Longrightarrow> p div 8 < div_ceil n 8" "n \<le> 8 * div_ceil n 8"
  by (auto simp: div_ceil_def)

lemma and_push_bit: "(b :: u8) AND push_bit i 1 \<noteq> 0 \<longleftrightarrow> i < 8 \<and> bit b i"
proof
  assume "b AND push_bit i 1 \<noteq> 0"
  then obtain n where "bit (b AND push_bit i 1) n" by (metis bit_eqI bit_0_eq bot_apply bot_bool_def)
  then show "i < 8 \<and> bit b i"
    using bit_imp_le_length [of b n] by (auto simp: bit_and_iff bit_exp_iff)
next
  assume "i < 8 \<and> bit b i"
  then have "bit (b AND push_bit i 1) i" by (simp add: bit_and_iff bit_exp_iff)
  then show "b AND push_bit i 1 \<noteq> 0" by auto
qed

lemma bitmap_bit:
  assumes "None \<in> set encs" "p < 8 * div_ceil (length encs) 8"
  shows "bit (bitmap_of encs ! (p div 8)) (p mod 8) \<longleftrightarrow> p < length encs \<and> encs ! p = None"
proof -
  have "p div 8 < div_ceil (length encs) 8" using assms(2) by linarith
  with assms show ?thesis
    by (auto simp: bitmap_of_def bit_write_nulls div_ceil_8)
qed

lemma record_is_null_opened:
  "record_is_null (opened schema layout key encs) p \<longleftrightarrow> p < length encs \<and> encs ! p = None"
proof (cases "None \<in> set encs")
  case True
  have "p div 8 < div_ceil (length encs) 8 \<longleftrightarrow> p < 8 * div_ceil (length encs) 8" by linarith
  moreover have "p < length encs \<Longrightarrow> p < 8 * div_ceil (length encs) 8"
    using div_ceil_8(2) [of "length encs"] by simp
  ultimately show ?thesis
    using True bitmap_bit [OF True, of p] unfolding record_is_null_def and_push_bit
    by (auto simp: opened_def length_bitmap_of)
next
  case False
  then show ?thesis
    by (auto simp: record_is_null_def opened_def length_bitmap_of) (metis nth_mem option.exhaust)
qed

lemma stored_bytes_opened:
  assumes "p < length encs" "offsets_fit encs"
  shows "stored_bytes (opened schema layout key encs) p = Inr (encs ! p)"
proof -
  let ?r = "opened schema layout key encs"
  have start: "(if p = 0 then 0 else record_end ?r (p - 1)) = cut encs p"
    using assms by (cases p) (auto simp: record_end_opened)
  have "cut encs p \<le> cut encs (Suc p)" by (rule cut_mono) simp
  moreover have "cut encs (Suc p) \<le> length (concat (map payload encs))"
    using cut_mono [of "Suc p" "length encs" encs] assms(1) by (simp add: cut_all)
  ultimately show ?thesis
    using slice_concat_payload [OF assms(1)] assms
    unfolding stored_bytes_def Let_def start
    by (auto simp: record_end_opened record_is_null_opened)
qed

section \<open>Integers\<close>

lemma bit_sign_extend_low:
  assumes "0 < n" "n \<le> 8" "j < 64"
  shows "bit (sign_extend_low n w) j \<longleftrightarrow> bit w (min j (8 * n - 1))"
  using assms
  by (auto simp: sign_extend_low_def bit_signed_drop_bit_iff bit_push_bit_iff min_def)

lemma sign_extend_low_cong:
  assumes "0 < n" "n \<le> 8" "\<And>j. j < 8 * n \<Longrightarrow> bit v j \<longleftrightarrow> bit w j"
  shows "sign_extend_low n v = sign_extend_low n w"
  by (rule bit_word_eqI) (use assms in \<open>simp add: bit_sign_extend_low\<close>)

lemma gather_eq:
  assumes "k + length bs \<le> 8"
  shows "foldl (\<lambda>raw (index, b). raw OR push_bit (8 * index) (ucast b)) raw (List.enumerate k bs)
    = raw OR push_bit (8 * k) (from_le bs :: u64)"
  using assms
proof (induction bs arbitrary: k raw)
  case (Cons b bs)
  have "push_bit (8 * Suc k) (from_le bs :: u64) = push_bit (8 * k) (push_bit 8 (from_le bs))"
    by (simp add: push_bit_push_bit add.commute)
  with Cons show ?case
    by (simp add: push_bit_or or.assoc)
qed simp

lemma integer_value_eq:
  "integer_value bs =
    (if 7 < length bs then None
     else let i = (if bs = [] then 0 else sign_extend_low (length bs) (from_le bs))
          in if unsigned_abs i \<le> MAX_SAFE_INTEGER then Some i else None)"
  using gather_eq [of 0 bs 0] by (simp add: integer_value_def Let_def)

lemma bit_from_le_take:
  "n \<le> 8 \<Longrightarrow> j < 8 * n \<Longrightarrow> bit (from_le (take n (le_bytes 8 (i :: i64))) :: u64) j \<longleftrightarrow> bit i j"
proof -
  assume n: "n \<le> 8" "j < 8 * n"
  then have "j div 8 < n" by linarith
  with n show ?thesis
    by (simp add: bit_from_le nth_le_bytes bit_simps)
qed

lemma sign_extend_low_8: "sign_extend_low 8 w = w"
  by (rule bit_word_eqI) (simp add: bit_sign_extend_low)

lemma integer_length_ok:
  obtains n where "integer_length i = Inr n" "n \<le> 8" "n = 0 \<longleftrightarrow> i = 0" "0 < n \<Longrightarrow> sign_extend_low n i = i"
    "\<And>m. 0 < m \<Longrightarrow> m < n \<Longrightarrow> sign_extend_low m i \<noteq> i"
proof (cases "i = 0")
  case True
  with that [of 0] show thesis by (simp add: integer_length_def)
next
  case False
  let ?P = "\<lambda>n. sign_extend_low n i = i"
  have "find ?P [1..<9] \<noteq> None"
    by (auto simp: find_None_iff sign_extend_low_8 intro!: exI [of _ 8])
  then obtain n where n: "find ?P [1..<9] = Some n" by auto
  then obtain p where p: "p < 8" "?P (Suc p)" "n = Suc p" "\<forall>q < p. \<not> ?P (Suc q)"
    by (auto simp: find_Some_iff simp del: upt_rec_numeral)
  have "\<not> ?P m" if "0 < m" "m < n" for m
    using p that by (cases m) auto
  with that [of n] p n False show thesis by (simp add: integer_length_def)
qed

lemma integer_value_encoded:
  assumes "integer_length i = Inr n" "unsigned_abs i \<le> MAX_SAFE_INTEGER" "n \<le> 7"
  shows "integer_value (take n (le_bytes 8 i)) = Some i"
proof (cases "n = 0")
  case True
  with assms(1) have "i = 0" by (auto intro: integer_length_ok [of i])
  with True show ?thesis by (simp add: integer_value_eq unsigned_abs_def)
next
  case False
  with assms have se: "sign_extend_low n i = i" by (auto intro: integer_length_ok [of i])
  have "sign_extend_low n (from_le (take n (le_bytes 8 i))) = sign_extend_low n i"
    using False assms(3) by (intro sign_extend_low_cong) (auto simp: bit_from_le_take)
  moreover have "take n (le_bytes 8 i) \<noteq> []" using False assms(3) by (simp flip: length_0_conv)
  moreover have "length (take n (le_bytes 8 i)) = n" using assms(3) by simp
  ultimately show ?thesis
    using se assms by (simp add: integer_value_eq Let_def)
qed

lemma safe_sign_extend:
  assumes "unsigned_abs i \<le> MAX_SAFE_INTEGER"
  shows "sign_extend_low 7 i = i"
proof -
  have "- (2 ^ 55) \<le> sint i" "sint i < 2 ^ 55"
    using assms [unfolded unsigned_abs_safe] by (simp_all add: MAX_SAFE_INTEGER_def)
  then have self: "signed_take_bit 55 (sint i) = sint i"
    by (simp add: signed_take_bit_int_eq_self)
  have low: "bit i (min j 55) \<longleftrightarrow> bit i j" if "j < 64" for j
  proof -
    have "bit (sint i) j = bit (signed_take_bit 55 (sint i)) j"
      by (simp only: self)
    also have "\<dots> = bit (sint i) (min j 55)"
      by (simp add: bit_signed_take_bit_iff min.commute)
    finally have "bit (sint i) j = bit (sint i) (min j 55)" .
    moreover have "bit (sint i) k \<longleftrightarrow> bit i k" if "k < 64" for k
      using that by (simp add: bit_sint_iff)
    ultimately show ?thesis using that by (metis min_less_iff_disj)
  qed
  show ?thesis
    by (rule bit_word_eqI) (simp add: bit_sign_extend_low low)
qed

lemma safe_integer_length:
  assumes "unsigned_abs i \<le> MAX_SAFE_INTEGER"
  obtains n where "integer_length i = Inr n" "n \<le> 7"
proof (rule integer_length_ok [of i])
  fix n assume n: "integer_length i = Inr n" "n \<le> 8"
    "\<And>m. 0 < m \<Longrightarrow> m < n \<Longrightarrow> sign_extend_low m i \<noteq> i"
  have "\<not> 7 < n" using n(3) [of 7] safe_sign_extend [OF assms] by auto
  with that n(1) show thesis by simp
qed

text \<open>The quick decoding of the shortest encodings is the general one.\<close>

lemma bit_scast:
  assumes "j < 64"
  shows "bit (scast (w :: 'a::len word) :: i64) j \<longleftrightarrow> bit w (min j (LENGTH('a) - 1))"
proof (cases "j < LENGTH('a)")
  case True
  then have "min j (LENGTH('a) - 1) = j" by simp
  with True assms show ?thesis by (simp add: bit_signed_iff)
next
  case False
  then have "min j (LENGTH('a) - 1) = LENGTH('a) - 1" by linarith
  with False assms show ?thesis by (simp add: bit_signed_iff)
qed

lemma scast_safe:
  assumes "LENGTH('a::len) \<le> 32"
  shows "unsigned_abs (scast (w :: 'a word)) \<le> MAX_SAFE_INTEGER"
proof -
  have "(2 :: int) ^ (LENGTH('a) - 1) \<le> 2 ^ 31"
    using assms by (intro power_increasing) auto
  with sint_ge [of w] sint_lt [of w] have w: "- (2 ^ 31) \<le> sint w" "sint w < 2 ^ 31" by linarith+
  have "sint (scast w :: i64) = sint w"
    using w by (simp add: signed_scast_eq signed_take_bit_int_eq_self)
  with w show ?thesis
    unfolding unsigned_abs_safe by (simp add: MAX_SAFE_INTEGER_def)
qed

lemma widen_eq:
  assumes "length bs = n" "0 < n" "n \<le> 4" "LENGTH('a::len) = 8 * n"
  shows "scast (from_le bs :: 'a word) = sign_extend_low n (from_le bs)"
proof (rule bit_word_eqI)
  fix j assume "j < LENGTH(64)"
  moreover have "min j (8 * n - 1) < LENGTH('a)" using assms by simp
  ultimately show "bit (scast (from_le bs :: 'a word) :: i64) j \<longleftrightarrow> bit (sign_extend_low n (from_le bs)) j"
    using assms by (simp add: bit_scast bit_sign_extend_low bit_from_le)
qed

lemma widen_three:
  "scast (signed_drop_bit 8 (push_bit 8 (from_le [a, b, c, 0] :: 32 word)))
     = sign_extend_low 3 (from_le [a, b, c])"
proof (rule bit_word_eqI)
  fix j assume j: "j < LENGTH(64)"
  have "bit (signed_drop_bit 8 (push_bit 8 (from_le [a, b, c, 0] :: 32 word))) k \<longleftrightarrow>
      bit (from_le [a, b, c] :: u64) (min k 23)" if "k < 32" for k
  proof -
    have "bit (from_le [a, b, c, 0] :: 32 word) (min k 23) \<longleftrightarrow> bit (from_le [a, b, c] :: u64) (min k 23)"
      unfolding bit_from_le by (auto simp: nth_append nth_Cons' min_def)
    with that show ?thesis
      by (auto simp: bit_signed_drop_bit_iff bit_push_bit_iff min_def simp del: from_le.simps)
  qed
  with j show "bit (scast (signed_drop_bit 8 (push_bit 8 (from_le [a, b, c, 0] :: 32 word))) :: i64) j
      \<longleftrightarrow> bit (sign_extend_low 3 (from_le [a, b, c])) j"
    by (simp add: bit_scast bit_sign_extend_low min.assoc del: from_le.simps)
qed

lemma integer_value_widen:
  assumes "0 < length bs" "length bs \<le> 4" "LENGTH('a::len) = 8 * length bs"
  shows "integer_value bs = Some (scast (from_le bs :: 'a word))"
  using assms widen_eq [of bs "length bs", where 'a = 'a] scast_safe [of "from_le bs :: 'a word"]
  by (auto simp: integer_value_eq Let_def simp del: from_le.simps)

lemma short_integer_value_eq: "short_integer_value bs = integer_value bs"
proof -
  have one: "integer_value [a] = Some (scast a)" for a
    using integer_value_widen [of "[a]", where 'a = 8] by simp
  have two: "integer_value [a, b] = Some (scast (from_le [a, b] :: 16 word))" for a b
    by (rule integer_value_widen) simp_all
  have three: "integer_value [a, b, c]
      = Some (scast (signed_drop_bit 8 (push_bit 8 (from_le [a, b, c, 0] :: 32 word))))" for a b c
    using scast_safe [of "signed_drop_bit 8 (push_bit 8 (from_le [a, b, c, 0] :: 32 word))"]
    unfolding widen_three by (simp add: integer_value_eq Let_def numeral_3_eq_3 del: from_le.simps)
  have four: "integer_value [a, b, c, d] = Some (scast (from_le [a, b, c, d] :: 32 word))" for a b c d
    by (rule integer_value_widen) simp_all
  have none: "integer_value [] = Some 0"
    by (simp add: integer_value_eq unsigned_abs_def)
  show ?thesis
    unfolding short_integer_value_def
    by (auto simp: one two three four none simp del: from_le.simps split: list.splits)
qed

end
