(* ===== verification/RowRoundTrip.thy ===== *)
theory RowRoundTrip
  imports RowRead
begin

unbundle bit_operations_syntax

text \<open>
  A row written and read back is the row, but for a key column that held the float \<open>-0\<close>, which a key spells \<open>0\<close>.  The
  values of its columns have the form normalization leaves for their types, and the JSON values among them, and the
  defaults of JSON columns, are the ones \<^verbatim>\<open>serde_json\<close> reads from their text.
\<close>

section \<open>Values a column holds\<close>

text \<open>A value as \<^verbatim>\<open>normalize_value\<close> leaves it in a column of the type, where it is not null.\<close>

definition normal_value :: "'n serde \<Rightarrow> column_type \<Rightarrow> 'n json \<Rightarrow> bool" where
  "normal_value js t v \<longleftrightarrow>
    (case t of
       Boolean \<Rightarrow> as_bool v \<noteq> None
     | Integer \<Rightarrow> (case safe_integer js v of Some i \<Rightarrow> v = value_from_i64 js i | None \<Rightarrow> False)
     | Float \<Rightarrow>
         (case as_f64 js v of Some x \<Rightarrow> f64_is_finite x \<and> v = value_from_f64 js x | None \<Rightarrow> False)
     | Text \<Rightarrow> (case as_str v of Some s \<Rightarrow> utf8 s | None \<Rightarrow> False)
     | Json \<Rightarrow> \<not> is_null v)"

text \<open>The parser reads a value from the text written for it.\<close>

definition parses_back :: "'n serde \<Rightarrow> 'n json \<Rightarrow> bool" where
  "parses_back js v \<longleftrightarrow> from_slice js (json_text js v) = Some v"

definition canonical_value :: "'n serde \<Rightarrow> column_type \<Rightarrow> 'n json \<Rightarrow> bool" where
  "canonical_value js t v \<longleftrightarrow> normal_value js t v \<and> (t = Json \<longrightarrow> parses_back js v)"

lemmas canonical_value_unfold = canonical_value_def normal_value_def parses_back_def

definition default_readable :: "'n serde \<Rightarrow> 'n column_definition \<Rightarrow> bool" where
  "default_readable js column \<longleftrightarrow>
    (case col_default column of
       Some d \<Rightarrow> col_type column = Json \<longrightarrow> parses_back js d
     | None \<Rightarrow> True)"

lemma canonical_not_null: "canonical_value js t v \<Longrightarrow> \<not> is_null v"
  by (cases v; cases t) (auto simp: canonical_value_unfold safe_integer_def)

lemma is_null_iff [simp]: "is_null v \<longleftrightarrow> v = Null"
  by (cases v) auto

lemma as_bool_Some [simp]: "as_bool v = Some b \<longleftrightarrow> v = Bool b"
  by (cases v) auto

lemma as_str_Some [simp]: "as_str v = Some s \<longleftrightarrow> v = String s"
  by (cases v) auto

lemma encoded_integer:
  assumes "safe_integer js v = Some i"
  obtains n where "integer_length i = Inr n" "n \<le> 7"
    "integer_value (take n (le_bytes 8 i)) = Some i" "length (take n (le_bytes 8 i)) = n"
proof -
  from safe_integer_abs [OF assms] obtain n where n: "integer_length i = Inr n" "n \<le> 7"
    by (rule safe_integer_length)
  with that [OF n integer_value_encoded [OF n(1) safe_integer_abs [OF assms] n(2)]] show thesis by simp
qed

lemma encode_value_decodes:
  assumes "encode_value js column v [] = Inr b" "canonical_value js (col_type column) v"
  shows "\<exists>r. decode_value js (col_type column) b strict = Inr r \<and> into_value js r = v"
proof (cases "col_type column")
  case Boolean
  with assms show ?thesis
    by (auto simp: encode_value_def decode_value_def canonical_value_unfold and_then_eq_Inr)
next
  case Integer
  with assms obtain i where i: "safe_integer js v = Some i" "v = value_from_i64 js i"
    by (auto simp: canonical_value_unfold split: option.splits)
  from i(1) show ?thesis
    by (rule encoded_integer) (use Integer assms i in \<open>auto simp: encode_value_def decode_value_def\<close>)
next
  case Float
  with assms show ?thesis
    by (auto simp: encode_value_def decode_value_def canonical_value_unfold split: option.splits if_splits)
next
  case Text
  with assms show ?thesis
    by (auto simp: encode_value_def decode_value_def canonical_value_unfold and_then_eq_Inr
        split: option.splits)
next
  case Json
  with assms have b: "encode_canonical_json js v = Inr b" by (auto simp: encode_value_def and_then_eq_Inr)
  then have "b = json_text js v" by (auto simp: encode_canonical_json_eq split: if_splits)
  with b Json assms show ?thesis
    by (auto simp: decode_value_def canonical_value_unfold decode_canonical_json_def)
qed

context serde_json
begin

lemma safe_integer_i64: "safe_integer js v = Some i \<Longrightarrow> as_i64 js v = Some i"
proof (cases v)
  case (Number n)
  assume s: "safe_integer js v = Some i"
  show ?thesis
  proof (cases "number_as_u64 js n")
    case None
    with s Number show ?thesis
      by (auto simp: safe_integer_def split: option.splits if_splits)
  next
    case (Some u)
    have "0 \<le> sint u" if "unat u \<le> MAX_SAFE_INTEGER"
      using that by (auto simp: sint_eq_unat top_bit_unat MAX_SAFE_INTEGER_def)
    with Some s Number u64_agrees [OF Some] show ?thesis
      by (auto simp: safe_integer_def split: option.splits if_splits)
  qed
qed (auto simp: safe_integer_def)

lemma safe_integer_from_i64:
  "safe_integer js (value_from_i64 js i)
     = (if unsigned_abs i \<le> MAX_SAFE_INTEGER then Some i else None)"
proof (cases "0 \<le> sint i")
  case True
  then have "\<not> bit i 63"
    using unsigned_less [of i, where 'a = int] by (auto simp: sint_eq_unat split: if_splits)
  then have "unat i \<le> MAX_SAFE_INTEGER \<longleftrightarrow> unsigned_abs i \<le> MAX_SAFE_INTEGER"
    by (simp add: unsigned_abs_def sint_eq_unat)
  with True show ?thesis
    by (auto simp: safe_integer_def value_from_i64_def i64_of_i64 u64_of_i64 unsigned_abs_safe)
next
  case False
  then show ?thesis
    by (auto simp: safe_integer_def value_from_i64_def i64_of_i64 u64_of_i64 unsigned_abs_safe)
qed

text \<open>A column whose encoding is its default's holds its default.\<close>

lemma default_is_value:
  assumes "is_default js column e = Inr True" "stored_encoding js (column, StoredValue v) e"
    and "v = Null \<or> canonical_value js (col_type column) v" "default_readable js column"
  shows "into_value js (stored_default js column) = v \<and> (v = Null \<longrightarrow> ref_is_null (stored_default js column))"
proof (cases e)
  case None
  with assms(2) have v: "v = Null" by (auto simp: stored_encoding_def split: if_splits)
  from assms(1) None have "col_default column = None \<or> col_default column = Some Null"
    by (auto simp: is_default_def split: option.splits if_splits)
  with v show ?thesis by (auto simp: stored_default_def from_value_def split: option.splits column_type.splits)
next
  case (Some b)
  with assms(2) have v: "v \<noteq> Null" "encode_value js column v [] = Inr b"
    by (auto simp: stored_encoding_def split: if_splits)
  from assms(1) Some obtain d where d: "col_default column = Some d" "d \<noteq> Null"
    "encode_value js column d [] = Inr b"
    by (auto simp: is_default_def and_then_eq_Inr split: option.splits if_splits)
  show ?thesis
  proof (cases "col_type column")
    case Boolean
    with v d show ?thesis
      by (auto simp: encode_value_def and_then_eq_Inr stored_default_def from_value_def)
  next
    case Integer
    with v d obtain i j where ij: "safe_integer js v = Some i" "safe_integer js d = Some j"
      by (auto simp: encode_value_def and_then_eq_Inr)
    have "integer_value b = Some i"
      using ij(1) by (rule encoded_integer) (use Integer v ij in \<open>auto simp: encode_value_def\<close>)
    moreover have "integer_value b = Some j"
      using ij(2) by (rule encoded_integer) (use Integer d ij in \<open>auto simp: encode_value_def\<close>)
    ultimately have "i = j" by simp
    moreover have "from_value js d Integer = VInteger j"
      using safe_integer_i64 [OF ij(2)] by (cases d) (auto simp: from_value_def)
    ultimately show ?thesis
      using Integer assms(3) v(1) d ij by (auto simp: stored_default_def canonical_value_unfold)
  next
    case Float
    with v d obtain x y where xy: "as_f64 js v = Some x" "as_f64 js d = Some y" "le_bytes 8 x = le_bytes 8 y"
      by (auto simp: encode_value_def split: option.splits if_splits)
    then have "x = y" using le_bytes_inject [of 8 x y] by simp
    with Float assms(3) v(1) d xy show ?thesis by (auto simp: stored_default_def canonical_value_unfold)
  next
    case Text
    with v d show ?thesis
      by (auto simp: encode_value_def and_then_eq_Inr stored_default_def from_value_def)
  next
    case Json
    with v d have "json_text js v = json_text js d"
      by (auto simp: encode_value_def and_then_eq_Inr encode_canonical_json_eq split: if_splits)
    with Json assms(3,4) v(1) d have "v = d"
      by (auto simp: canonical_value_unfold default_readable_def)
    with Json d show ?thesis by (cases d) (auto simp: stored_default_def from_value_def)
  qed
qed

end

section \<open>Where the columns of a row are\<close>

lemma enumerate_Cons: "List.enumerate k (x # xs) = (k, x) # List.enumerate (Suc k) xs"
  by simp

definition layout_slots_ok ::
  "str list \<Rightarrow> 'n column_definition list \<Rightarrow> column_slot list \<Rightarrow> nat list \<Rightarrow> bool" where
  "layout_slots_ok primary_key columns slots stored \<longleftrightarrow>
    (\<forall>i < length slots.
       case slots ! i of
         StoredSlot q \<Rightarrow> q < length stored \<and> stored ! q = i \<and> col_name (columns ! i) \<notin> set primary_key
       | KeySlot p \<Rightarrow> p < length primary_key \<and> primary_key ! p = col_name (columns ! i))"

lemma position_None: "position p xs = None \<longleftrightarrow> (\<forall>x \<in> set xs. \<not> p x)"
  by (induction xs) auto

lemma layout_loop_ok:
  assumes "layout_loop primary_key (length before) after (slots, keys, stored, estimate, sized)
      = (slots', keys', stored', rest)"
    and "layout_slots_ok primary_key (before @ after) slots stored" "length slots = length before"
    and "map ((!) (before @ after)) stored = filter (\<lambda>c. col_name c \<notin> set primary_key) before"
    and "\<forall>i \<in> set stored. i < length (before @ after)"
  shows "layout_slots_ok primary_key (before @ after) slots' stored'
    \<and> length slots' = length (before @ after)
    \<and> map ((!) (before @ after)) stored' = filter (\<lambda>c. col_name c \<notin> set primary_key) (before @ after)
    \<and> (\<forall>i \<in> set stored'. i < length (before @ after))"
  using assms
proof (induction after arbitrary: before slots keys stored estimate sized)
  case (Cons column after)
  let ?all = "before @ column # after"
  have at: "?all ! length before = column" by simp
  note IH = Cons.IH [of "before @ [column]"]
  show ?case
  proof (cases "position (\<lambda>name. name = col_name column) primary_key")
    case None
    then have nk: "col_name column \<notin> set primary_key" by (auto simp: position_None)
    have "layout_slots_ok primary_key ?all (slots @ [StoredSlot (length stored)]) (stored @ [length before])"
      using Cons.prems(2,3) nk at
      by (auto simp: layout_slots_ok_def nth_append less_Suc_eq split: column_slot.splits)
    moreover have "layout_loop primary_key (length (before @ [column])) after
        (slots @ [StoredSlot (length stored)], keys, stored @ [length before],
         add_estimate estimate (col_name column),
         if col_type column = Text \<or> col_type column = Json then sized @ [length before] else sized)
        = (slots', keys', stored', rest)"
      using Cons.prems(1) None by (simp add: Let_def)
    note step = IH [OF this]
    ultimately show ?thesis using step Cons.prems(3-5) nk by simp
  next
    case (Some p)
    with position_Some [OF Some] have k: "p < length primary_key" "primary_key ! p = col_name column"
      "col_name column \<in> set primary_key" by (auto dest: nth_mem)
    have "layout_slots_ok primary_key ?all (slots @ [KeySlot p]) stored"
      using Cons.prems(2,3) k at
      by (auto simp: layout_slots_ok_def nth_append less_Suc_eq split: column_slot.splits)
    moreover have "layout_loop primary_key (length (before @ [column])) after
        (slots @ [KeySlot p], keys[p := length before], stored,
         add_estimate estimate (col_name column),
         if col_type column = Text \<or> col_type column = Json then sized @ [length before] else sized)
        = (slots', keys', stored', rest)"
      using Cons.prems(1) Some by (simp add: Let_def)
    note step = IH [OF this]
    ultimately show ?thesis using step Cons.prems(3-5) k by simp
  qed
qed auto

lemma record_layout_new_ok:
  assumes "record_layout_new schema = Inr layout"
  shows "map_res (schema_column_type schema) (td_primary_key schema) = Inr (rl_key_types layout)
    \<and> layout_slots_ok (td_primary_key schema) (td_columns schema) (rl_slots layout) (rl_stored layout)
    \<and> length (rl_slots layout) = length (td_columns schema)
    \<and> map ((!) (td_columns schema)) (rl_stored layout)
        = filter (\<lambda>c. col_name c \<notin> set (td_primary_key schema)) (td_columns schema)"
proof -
  from assms obtain key_types where
    types: "map_res (\<lambda>name. map_err as_storage_corruption (schema_column_type schema name))
       (td_primary_key schema) = Inr key_types"
    by (auto simp: record_layout_new_def and_then_eq_Inr)
  obtain slots keys stored estimate sized where
    loop: "layout_loop (td_primary_key schema) 0 (td_columns schema)
       ([], replicate (length key_types) 0, [], Some 32, []) = (slots, keys, stored, estimate, sized)"
    by (metis prod_cases5)
  have l: "rl_slots layout = slots" "rl_key_types layout = key_types" "rl_stored layout = stored"
    using assms by (auto simp: record_layout_new_def types loop and_then_eq_Inr split: prod.splits)
  from types have "map_res (schema_column_type schema) (td_primary_key schema) = Inr key_types"
    by (simp add: map_res_eq_Inr)
  with layout_loop_ok [of "td_primary_key schema" "[]" "td_columns schema"] loop l show ?thesis
    by (simp add: layout_slots_ok_def)
qed

section \<open>Names the catalog admits\<close>

lemma validate_names_distinct: "validate_names seen names = Inr u \<Longrightarrow> distinct names \<and> set seen \<inter> set names = {}"
  by (induction seen names rule: validate_names.induct) (auto simp: and_then_eq_Inr split: if_splits)

lemma validate_columns_distinct:
  "validate_columns js primary_key seen columns = Inr u \<Longrightarrow>
   distinct (map col_name columns) \<and> set seen \<inter> col_name ` set columns = {}"
  by (induction js primary_key seen columns rule: validate_columns.induct)
    (auto simp: and_then_eq_Inr split: if_splits)

lemma validate_schema_shape_distinct:
  assumes "validate_schema_shape js schema = Inr u"
  shows "distinct (td_primary_key schema)" "distinct (map col_name (td_columns schema))"
    "set (td_primary_key schema) \<subseteq> col_name ` set (td_columns schema)"
  using assms validate_names_distinct [of "[]" "td_primary_key schema"]
    validate_columns_distinct [of js "td_primary_key schema" "[]" "td_columns schema"]
  by (fastforce simp: validate_schema_shape_def and_then_eq_Inr list_ex_iff split: if_splits)+

lemma find_distinct:
  "distinct (map f xs) \<Longrightarrow> x \<in> set xs \<Longrightarrow> find (\<lambda>y. f y = f x) xs = Some x"
  by (induction xs) (auto simp: rev_image_eqI)

lemma schema_column_type_column:
  "distinct (map col_name (td_columns schema)) \<Longrightarrow> c \<in> set (td_columns schema) \<Longrightarrow>
   schema_column_type schema (col_name c) = Inr (col_type c)"
  by (simp add: schema_column_type_def find_distinct)

section \<open>Rows\<close>

text \<open>
  A row as \<^verbatim>\<open>normalize_row\<close> leaves it: a value for every column and no other, null only outside the primary key.
\<close>

definition row_normal :: "'n serde \<Rightarrow> 'n table_definition \<Rightarrow> 'n row \<Rightarrow> bool" where
  "row_normal js schema row \<longleftrightarrow>
    dom row = set (map col_name (td_columns schema))
    \<and> list_all (\<lambda>c. case row (col_name c) of
         None \<Rightarrow> False
       | Some v \<Rightarrow> normal_value js (col_type c) v \<or> v = Null \<and> col_name c \<notin> set (td_primary_key schema))
       (td_columns schema)"

text \<open>The parser reads back the values of the JSON columns, and their defaults.\<close>

definition json_parses :: "'n serde \<Rightarrow> 'n table_definition \<Rightarrow> 'n row \<Rightarrow> bool" where
  "json_parses js schema row \<longleftrightarrow>
    list_all (\<lambda>c. col_type c = Json \<longrightarrow>
       (case row (col_name c) of Some v \<Rightarrow> v = Null \<or> parses_back js v | None \<Rightarrow> True)
       \<and> (case col_default c of Some d \<Rightarrow> parses_back js d | None \<Rightarrow> True)) (td_columns schema)"

text \<open>
  The row a table holds after a row was stored: the key of a row spells the float \<open>-0\<close> as \<open>0\<close>, and the columns of the
  primary key are read from it.
\<close>

definition stored_value :: "'n serde \<Rightarrow> column_type \<Rightarrow> 'n json \<Rightarrow> 'n json" where
  "stored_value js t v = (if t = Float \<and> as_f64 js v = Some sign_bit then value_from_f64 js 0 else v)"

definition stored_row :: "'n serde \<Rightarrow> 'n table_definition \<Rightarrow> 'n row \<Rightarrow> 'n row" where
  "stored_row js schema row = (\<lambda>name.
     if name \<in> set (td_primary_key schema)
     then (case schema_column_type schema name of
             Inr t \<Rightarrow> map_option (stored_value js t) (row name) | Inl _ \<Rightarrow> row name)
     else row name)"

lemma stored_row_other [simp]: "name \<notin> set (td_primary_key schema) \<Longrightarrow> stored_row js schema row name = row name"
  by (simp add: stored_row_def)

definition row_canonical :: "'n serde \<Rightarrow> 'n table_definition \<Rightarrow> 'n row \<Rightarrow> bool" where
  "row_canonical js schema row \<longleftrightarrow>
    dom row = set (map col_name (td_columns schema))
    \<and> list_all (\<lambda>c. case row (col_name c) of
         None \<Rightarrow> False
       | Some v \<Rightarrow>
           (if col_name c \<in> set (td_primary_key schema) then canonical_value js (col_type c) v
            else v = Null \<or> canonical_value js (col_type c) v)) (td_columns schema)
    \<and> list_all (default_readable js) (td_columns schema)"

lemma row_canonicalI: "row_normal js schema row \<Longrightarrow> json_parses js schema row \<Longrightarrow> row_canonical js schema row"
  by (auto simp: row_canonical_def row_normal_def json_parses_def list_all_iff canonical_value_def default_readable_def
      split: option.splits) (fastforce simp: normal_value_def)+

lemma row_canonical_column:
  assumes "row_canonical js schema row" "c \<in> set (td_columns schema)"
  obtains v where "row (col_name c) = Some v" "v = Null \<or> canonical_value js (col_type c) v"
    "col_name c \<in> set (td_primary_key schema) \<Longrightarrow>
       canonical_value js (col_type c) v"
    "default_readable js c"
  using assms by (fastforce simp: row_canonical_def list_all_iff split: option.splits if_splits)

lemma row_canonical_utf8:
  assumes "row_canonical js schema row" "c \<in> set (td_primary_key schema)"
    "column_key js schema row c = Some r" "distinct (map col_name (td_columns schema))"
    "set (td_primary_key schema) \<subseteq> col_name ` set (td_columns schema)"
  shows "ref_utf8 r"
proof -
  from assms(2,5) obtain col where col: "col \<in> set (td_columns schema)" "col_name col = c" by auto
  from assms(1) col(1) show ?thesis
  proof (rule row_canonical_column)
    fix v assume v: "row (col_name col) = Some v"
      "col_name col \<in> set (td_primary_key schema) \<Longrightarrow>
         canonical_value js (col_type col) v"
    then show ?thesis
      using assms(2,3) col schema_column_type_column [OF assms(4) col(1)]
      by (auto simp: column_key_def key_value_def canonical_value_unfold
          split: column_type.splits option.splits if_splits)
  qed
qed

lemma zero_sign: "f64_is_zero x \<Longrightarrow> x \<noteq> sign_bit \<Longrightarrow> x = 0"
proof -
  assume z: "f64_is_zero x" "x \<noteq> sign_bit"
  have "unat x < 2 ^ 64" using unsigned_less [of x, where 'a = nat] by simp
  with z(1) have "unat x = 0 \<or> unat x = 2 ^ 63"
    by (auto simp: f64_is_zero_def)
  moreover have "unat x \<noteq> 2 ^ 63"
    using z(2) by (simp add: word_unat_eq_iff)
  ultimately show ?thesis by (simp add: unat_eq_0)
qed

lemma sign_bit_zero [simp]: "f64_is_zero sign_bit"
  by (simp add: f64_is_zero_def sign_bit_def)

lemma canonical_key_value:
  assumes "key_value js t v = Some r" "canonical_value js t v"
  shows "into_value js (key_normal r) = stored_value js t v"
  using assms
  by (auto simp: stored_value_def key_value_def canonical_value_unfold dest: zero_sign split: column_type.splits option.splits if_splits)

lemma key_row_loop_tuple:
  fixes js :: "'n serde" and rs :: "'n value_ref list"
  assumes "list_all2 key_fits ts rs" "list_all ref_utf8 rs"
    and "list_all2 (\<lambda>name r. row name = Some (into_value js (key_normal r))) names rs"
  shows "key_row_loop js (pre @ tuple_bytes rs @ rest) (zip names ts) (length pre) row0
    = Inr (\<lambda>n. if n \<in> set names then row n else row0 n, length pre + length (tuple_bytes rs))"
  using assms
proof (induction ts rs arbitrary: names pre row0 rule: list_all2_induct)
  case (Cons t ts r rs)
  then obtain name names' where n: "names = name # names'" "row name = Some (into_value js (key_normal r))"
    "list_all2 (\<lambda>name r. row name = Some (into_value js (key_normal r))) names' rs"
    by (auto simp: list_all2_Cons2)
  define row1 where "row1 = row0(name \<mapsto> into_value js (key_normal r))"
  have row1: "(\<lambda>n. if n \<in> set names' then row n else row1 n) = (\<lambda>n. if n \<in> set names then row n else row0 n)"
    using n by (auto simp: row1_def)
  have "key_row_loop js (pre @ key_bytes r @ tuple_bytes rs @ rest) (zip names' ts)
      (length pre + length (key_bytes r)) row1
    = Inr (\<lambda>n. if n \<in> set names then row n else row0 n,
        length pre + length (key_bytes r) + length (tuple_bytes rs))"
    using Cons.IH [of names' "pre @ key_bytes r" row1] Cons.prems n unfolding row1 by simp
  then show ?case
    using Cons.prems component_end_key_bytes [OF Cons(1), of pre "tuple_bytes rs @ rest"]
      slice_middle [of pre "key_bytes r" "tuple_bytes rs @ rest"]
      decode_key_bytes [OF Cons(1)] n(1) by (simp add: row1_def [symmetric])
qed simp

lemma key_row_canonical:
  assumes shape: "validate_schema_shape js schema = Inr ()"
    and layout: "record_layout_new schema = Inr layout"
    and canonical: "row_canonical js schema row"
    and key: "encode_primary_key js schema row = Inr key"
  shows "key_row js layout schema key
    = Inr (\<lambda>n. if n \<in> set (td_primary_key schema) then stored_row js schema row n else None)"
proof -
  note distinct = validate_schema_shape_distinct [OF shape]
  let ?pk = "td_primary_key schema" and ?rs = "key_tuple js schema (td_primary_key schema) row"
  from encode_primary_key_ok [OF key] record_layout_new_ok [OF layout]
  have k: "key = tuple_bytes ?rs" "list_all2 key_fits (rl_key_types layout) ?rs"
    "\<forall>c \<in> set ?pk. column_key js schema row c \<noteq> None" by auto
  have u: "list_all ref_utf8 ?rs"
    using k(3) row_canonical_utf8 [OF canonical _ _ distinct(2,3)]
    by (fastforce simp: key_tuple_def list_all_iff)
  have "stored_row js schema row name = Some (into_value js (key_normal (the (column_key js schema row name))))"
    if name: "name \<in> set ?pk" for name
  proof -
    from name distinct(3) obtain c where c: "c \<in> set (td_columns schema)" "col_name c = name" by auto
    from name k(3) obtain r where r: "column_key js schema row name = Some r" by auto
    from canonical c(1) show ?thesis
    proof (rule row_canonical_column)
      fix v assume v: "row (col_name c) = Some v"
        "col_name c \<in> set ?pk \<Longrightarrow>
           canonical_value js (col_type c) v"
      moreover have "key_value js (col_type c) v = Some r"
        using r v(1) c schema_column_type_column [OF distinct(2) c(1)]
        by (auto simp: column_key_def)
      ultimately show ?thesis
        using canonical_key_value [of js "col_type c" v r] r c name schema_column_type_column [OF distinct(2) c(1)]
        by (auto simp: stored_row_def)
    qed
  qed
  then have "list_all2 (\<lambda>name r. stored_row js schema row name = Some (into_value js (key_normal r))) ?pk ?rs"
    by (auto simp: key_tuple_def list_all2_conv_all_nth)
  from key_row_loop_tuple [OF k(2) u this, of "[]" "[]" Map.empty] k(1)
  show ?thesis by (simp add: key_row_def)
qed

section \<open>Reading the stored columns\<close>

text \<open>What each stored position of a record holds, when it is read as the row's value.\<close>

definition position_reads ::
  "'n serde \<Rightarrow> bool \<Rightarrow> 'n row \<Rightarrow> bytes option list \<Rightarrow> nat \<Rightarrow> 'n column_definition \<Rightarrow> bool" where
  "position_reads js strict row encs p c \<longleftrightarrow>
    (if p < length encs then
       (case encs ! p of
          None \<Rightarrow> row (col_name c) = Some Null
        | Some b \<Rightarrow> \<exists>x. decode_value js (col_type c) b strict = Inr x
            \<and> row (col_name c) = Some (into_value js x) \<and> into_value js x \<noteq> Null)
     else row (col_name c) = Some (into_value js (stored_default js c))
       \<and> (into_value js (stored_default js c) = Null \<longrightarrow> ref_is_null (stored_default js c)))"

lemma decode_columns_loop_reads:
  fixes schema :: "'n table_definition"
  assumes "offsets_fit encs"
    and "\<And>i. i < length stored \<Longrightarrow>
      position_reads js strict row encs (p + i) (td_columns schema ! (stored ! i))"
    and "p < length encs \<longrightarrow> start = cut encs p"
  shows "decode_columns_loop js (opened schema layout key encs) strict (List.enumerate p stored) start row0
    = Inr (\<lambda>n. if n \<in> (\<lambda>i. col_name (td_columns schema ! i)) ` set stored then row n else row0 n)"
  using assms
proof (induction stored arbitrary: p start row0)
  case (Cons index stored)
  let ?r = "opened schema layout key encs" and ?c = "td_columns schema ! index"
  have here: "position_reads js strict row encs p ?c" using Cons.prems(2) [of 0] by simp
  have later: "position_reads js strict row encs (Suc p + i) (td_columns schema ! (stored ! i))"
    if "i < length stored" for i using Cons.prems(2) [of "Suc i"] that by simp
  obtain v where v: "row (col_name ?c) = Some v"
    using here by (auto simp: position_reads_def split: if_splits option.splits)
  define row1 where "row1 = row0(col_name ?c \<mapsto> v)"
  have row1: "(\<lambda>n. if n \<in> (\<lambda>i. col_name (td_columns schema ! i)) ` set stored then row n else row1 n)
      = (\<lambda>n. if n \<in> (\<lambda>i. col_name (td_columns schema ! i)) ` set (index # stored) then row n else row0 n)"
    using v by (auto simp: row1_def)
  show ?case
  proof (cases "p < length encs")
    case True
    have stop: "record_end ?r p = cut encs (Suc p)" by (rule record_end_opened [OF True assms(1)])
    have b: "cut encs p \<le> cut encs (Suc p)" "cut encs (Suc p) \<le> length (concat (map payload encs))"
      using True cut_mono [of p "Suc p" encs] cut_mono [of "Suc p" "length encs" encs]
      by (simp_all add: cut_all)
    have rest: "decode_columns_loop js ?r strict (List.enumerate (Suc p) stored) (cut encs (Suc p)) row1
        = Inr (\<lambda>n. if n \<in> (\<lambda>i. col_name (td_columns schema ! i)) ` set (index # stored)
                then row n else row0 n)"
      using Cons.IH [OF assms(1) later, of "cut encs (Suc p)" row1] unfolding row1 by simp
    show ?thesis
      using here True b stop Cons.prems(3) slice_concat_payload [OF True] v rest
      by (cases "encs ! p")
        (auto simp: position_reads_def record_is_null_opened Let_def row1_def)
  next
    case False
    have rest: "decode_columns_loop js ?r strict (List.enumerate (Suc p) stored) start row1
        = Inr (\<lambda>n. if n \<in> (\<lambda>i. col_name (td_columns schema ! i)) ` set (index # stored)
                then row n else row0 n)"
      using Cons.IH [OF assms(1) later, of start row1] False unfolding row1 by simp
    show ?thesis
      using here False v rest by (auto simp: position_reads_def Let_def row1_def)
  qed
qed simp

section \<open>Writing a row and reading it back\<close>

lemma render_fits: "length (render encs) \<le> MAX_PAGED_VALUE_BYTES \<Longrightarrow> offsets_fit encs"
  by (simp add: render_eq offsets_fit_def MAX_PAGED_VALUE_BYTES_def)

lemma stored_column_mem:
  assumes "record_layout_new schema = Inr layout" "i < length (rl_stored layout)"
  shows "td_columns schema ! (rl_stored layout ! i) \<in> set (td_columns schema)
    \<and> col_name (td_columns schema ! (rl_stored layout ! i)) \<notin> set (td_primary_key schema)"
proof -
  have "td_columns schema ! (rl_stored layout ! i) = map ((!) (td_columns schema)) (rl_stored layout) ! i"
    using assms(2) by simp
  also have "\<dots> \<in> set (map ((!) (td_columns schema)) (rl_stored layout))"
    using assms(2) by (intro nth_mem) simp
  also have "\<dots> = set (filter (\<lambda>c. col_name c \<notin> set (td_primary_key schema)) (td_columns schema))"
    using record_layout_new_ok [OF assms(1)] by (simp del: set_map)
  finally show ?thesis by simp
qed

lemma encode_row_columns:
  assumes "encode_row js schema row = Inr record'"
    and "record_layout_new schema = Inr layout"
  shows "encode_stored_values js
      (map (\<lambda>i. (td_columns schema ! i, StoredValue (the (row (col_name (td_columns schema ! i))))))
        (rl_stored layout)) = Inr record'"
proof -
  let ?cols = "filter (\<lambda>c. col_name c \<notin> set (td_primary_key schema)) (td_columns schema)"
  from assms(1) obtain cvs where cvs: "map_res (\<lambda>column.
        and_then (ok_or INVALID_PAGED_ARGUMENT (row (col_name column))) (\<lambda>v.
          Inr (column, StoredValue v))) ?cols = Inr cvs" "encode_stored_values js cvs = Inr record'"
    by (auto simp: encode_row_def and_then_eq_Inr)
  have "cvs = map (\<lambda>c. (c, StoredValue (the (row (col_name c))))) ?cols"
    using cvs(1) unfolding map_res_eq_Inr
    by (intro nth_equalityI) (auto simp: list_all2_conv_all_nth and_then_eq_Inr)
  also have "?cols = map ((!) (td_columns schema)) (rl_stored layout)"
    using record_layout_new_ok [OF assms(2)] by simp
  finally show ?thesis using cvs(2) by (simp add: comp_def)
qed

lemma check_canonical_opened:
  assumes fit: "offsets_fit encs"
    and se: "\<And>i. i < length encs \<Longrightarrow> stored_encoding js (c i, StoredValue (v i)) (encs ! i)"
    and last: "0 < length encs \<Longrightarrow> is_default js (c (length encs - 1)) (last encs) = Inr False"
    and c: "\<And>i. i < length encs \<Longrightarrow> td_columns schema ! (rl_stored layout ! i) = c i"
    and v: "\<And>i. i < length encs \<Longrightarrow> row (col_name (c i)) = Some (v i)"
  shows "check_canonical js (opened schema layout key encs) row = Inr ()"
proof -
  let ?r = "opened schema layout key encs" and ?n = "length encs"
  have largest: "(if 2 \<le> ?n then record_end ?r (?n - 2) else 0) = largest_cut encs"
    using record_end_opened [OF _ fit, of "?n - 2" schema layout key]
    by (cases "2 \<le> ?n") (auto simp: largest_cut_def Suc_diff_Suc numeral_2_eq_2 less_Suc_eq not_le)
  have nulls: "list_ex (record_is_null ?r) [0..<?n] \<longleftrightarrow> None \<in> set encs"
    by (auto simp: list_ex_iff record_is_null_opened in_set_conv_nth)
  have unused: "\<not> list_ex (record_is_null ?r) [?n..<m]" for m
    by (auto simp: list_ex_iff record_is_null_opened)
  have flags: "render encs ! 0 = record_flags encs" by (simp add: render_eq)
  have tail: "and_then (case row (col_name (c (?n - 1))) of
          Some v \<Rightarrow> if \<not> is_null v
            then and_then (map_err as_storage_corruption (encode_value js (c (?n - 1)) v []))
                   (\<lambda>last. Inr (Some last))
            else Inr None
        | None \<Rightarrow> Inr None) (\<lambda>last_value.
        and_then (map_err as_storage_corruption (is_default js (c (?n - 1)) last_value)) (\<lambda>same.
          if same then Inl PAGED_STORAGE_CORRUPT else Inr ())) = Inr ()" if pos: "0 < ?n"
  proof -
    have l: "last encs = encs ! (?n - 1)" using pos by (simp add: last_conv_nth)
    from se [of "?n - 1"] v [of "?n - 1"] last [OF pos] pos show ?thesis
      unfolding l by (auto simp: stored_encoding_def split: if_splits)
  qed
  show ?thesis
  proof (cases "0 < ?n")
    case True
    then have "?n - 1 < ?n" by simp
    then show ?thesis
      unfolding check_canonical_def Let_def opened_simps largest nulls flags record_flags c [OF \<open>?n - 1 < ?n\<close>]
        tail [OF True]
      using unused by simp
  next
    case False
    then show ?thesis
      unfolding check_canonical_def Let_def opened_simps largest nulls flags record_flags
      using unused by simp
  qed
qed

context serde_json
begin

lemma encode_row_reads:
  assumes shape: "validate_schema_shape js schema = Inr ()"
    and layout: "record_layout_new schema = Inr layout"
    and canonical: "row_canonical js schema row"
    and enc: "encode_row js schema row = Inr record'"
  obtains encs where "record' = render encs" "length encs \<le> 255"
    "length encs \<le> length (rl_stored layout)" "offsets_fit encs"
    "\<And>i strict. i < length (rl_stored layout) \<Longrightarrow>
       position_reads js strict row encs i (td_columns schema ! (rl_stored layout ! i))"
    "\<And>i. i < length encs \<Longrightarrow>
       stored_encoding js (td_columns schema ! (rl_stored layout ! i),
         StoredValue (the (row (col_name (td_columns schema ! (rl_stored layout ! i)))))) (encs ! i)"
    "0 < length encs \<Longrightarrow> is_default js (td_columns schema ! (rl_stored layout ! (length encs - 1)))
       (last encs) = Inr False"
    "\<And>i. length encs \<le> i \<Longrightarrow> i < length (rl_stored layout) \<Longrightarrow>
       \<exists>e. stored_encoding js (td_columns schema ! (rl_stored layout ! i),
           StoredValue (the (row (col_name (td_columns schema ! (rl_stored layout ! i)))))) e
         \<and> is_default js (td_columns schema ! (rl_stored layout ! i)) e = Inr True"
proof -
  let ?stored = "rl_stored layout" and ?c = "\<lambda>i. td_columns schema ! (rl_stored layout ! i)"
  let ?cvs = "map (\<lambda>i. (td_columns schema ! i, StoredValue (the (row (col_name (td_columns schema ! i))))))
        (rl_stored layout)"
  obtain encs k where
    e: "list_all2 (stored_encoding js) ?cvs encs" "k \<le> length ?cvs"
      "\<forall>p. k \<le> p \<and> p < length ?cvs \<longrightarrow> is_default js (fst (?cvs ! p)) (encs ! p) = Inr True"
      "0 < k \<longrightarrow> is_default js (fst (?cvs ! (k - 1))) (encs ! (k - 1)) = Inr False"
      "record' = render (take k encs)" "k \<le> 255" "length record' \<le> MAX_PAGED_VALUE_BYTES"
    by (rule encode_stored_values_ok [OF encode_row_columns [OF enc layout]]) (rule that)
  have len: "length encs = length ?stored" using e(1) by (auto dest: list_all2_lengthD)
  have se: "stored_encoding js (?c i, StoredValue (the (row (col_name (?c i))))) (encs ! i)"
    if "i < length ?stored" for i
    using list_all2_nthD [OF e(1), of i] that by simp
  have mem: "?c i \<in> set (td_columns schema)" if "i < length ?stored" for i
    using stored_column_mem [OF layout that] by simp
  have reads: "position_reads js strict row (take k encs) i (?c i)" if i: "i < length ?stored" for i strict
  proof -
    from canonical mem [OF i] show ?thesis
    proof (rule row_canonical_column)
      fix v assume v: "row (col_name (?c i)) = Some v" "v = Null \<or> canonical_value js (col_type (?c i)) v"
        "default_readable js (?c i)"
      have s: "stored_encoding js (?c i, StoredValue v) (encs ! i)" using se [OF i] v(1) by simp
      show ?thesis
      proof (cases "i < k")
        case True
        with i len s v encode_value_decodes [of js "?c i" v _ strict] show ?thesis
          by (fastforce simp: position_reads_def stored_encoding_def split: if_splits option.splits)
      next
        case False
        then have "is_default js (?c i) (encs ! i) = Inr True" using e(3) i by simp
        from default_is_value [OF this s v(2,3)] False v(1) show ?thesis
          by (simp add: position_reads_def)
      qed
    qed
  qed
  have kept: "length (take k encs) = k" using e(2) len by simp
  have default': "is_default js (?c (length (take k encs) - 1)) (last (take k encs)) = Inr False"
    if "0 < length (take k encs)"
  proof -
    have "last (take k encs) = take k encs ! (k - 1)"
      using that kept by (metis last_conv_nth length_greater_0_conv)
    with that e(2,4) len show ?thesis unfolding kept by simp
  qed
  have fit: "offsets_fit (take k encs)" using e(5,7) by (auto intro: render_fits)
  show thesis
    by (rule that [OF e(5) _ _ fit reads _ default']) (use e(2,3,6) kept len se in auto)
qed

lemma row_round_trip:
  assumes shape: "validate_schema_shape js schema = Inr ()"
    and layout: "record_layout_new schema = Inr layout"
    and normal: "row_normal js schema row" and parses: "json_parses js schema row"
    and key: "encode_primary_key js schema row = Inr key"
    and enc: "encode_row js schema row = Inr record'"
  shows "\<exists>r. stored_record_new schema layout key record' = Inr r
    \<and> to_row js r = Inr (stored_row js schema row) \<and> to_row_strictly js r = Inr (stored_row js schema row)"
proof -
  note canonical = row_canonicalI [OF normal parses]
  let ?row = "stored_row js schema row"
  obtain encs where e: "record' = render encs" "length encs \<le> 255"
    "length encs \<le> length (rl_stored layout)" "offsets_fit encs"
    and reads: "\<And>i strict. i < length (rl_stored layout) \<Longrightarrow>
       position_reads js strict row encs i (td_columns schema ! (rl_stored layout ! i))"
    and se: "\<And>i. i < length encs \<Longrightarrow>
       stored_encoding js (td_columns schema ! (rl_stored layout ! i),
         StoredValue (the (row (col_name (td_columns schema ! (rl_stored layout ! i)))))) (encs ! i)"
    and last: "0 < length encs \<Longrightarrow>
       is_default js (td_columns schema ! (rl_stored layout ! (length encs - 1))) (last encs) = Inr False"
    by (rule encode_row_reads [OF shape layout canonical enc]) (rule that)
  let ?r = "opened schema layout key encs"
  have value_of: "row (col_name (td_columns schema ! (rl_stored layout ! i)))
      = Some (the (row (col_name (td_columns schema ! (rl_stored layout ! i)))))" if "i < length encs" for i
    using reads [of i True] that e(3)
    by (auto simp: position_reads_def split: if_splits option.splits)
  have open': "stored_record_new schema layout key record' = Inr ?r"
    unfolding e(1) by (rule open_render [OF e(2,3)])
  have stored: "(\<lambda>i. col_name (td_columns schema ! i)) ` set (rl_stored layout)
      = col_name ` {c \<in> set (td_columns schema). col_name c \<notin> set (td_primary_key schema)}"
  proof -
    have "(\<lambda>i. col_name (td_columns schema ! i)) ` set (rl_stored layout)
        = col_name ` set (map ((!) (td_columns schema)) (rl_stored layout))" by auto
    with record_layout_new_ok [OF layout] show ?thesis by (simp del: set_map)
  qed
  have same: "?row (col_name (td_columns schema ! (rl_stored layout ! i))) = row (col_name (td_columns schema ! (rl_stored layout ! i)))"
    if "i < length (rl_stored layout)" for i
    using stored_column_mem [OF layout that] by simp
  have reads': "position_reads js strict ?row encs i (td_columns schema ! (rl_stored layout ! i))"
    if "i < length (rl_stored layout)" for i strict
    using reads [OF that, of strict] unfolding position_reads_def same [OF that] .
  have "(\<lambda>n. if n \<in> (\<lambda>i. col_name (td_columns schema ! i)) ` set (rl_stored layout) then ?row n
        else if n \<in> set (td_primary_key schema) then ?row n else None) = ?row"
  proof (rule ext)
    fix n
    have "n \<notin> col_name ` set (td_columns schema) \<Longrightarrow> row n = None"
      using canonical by (auto simp: row_canonical_def domIff)
    then show "(if n \<in> (\<lambda>i. col_name (td_columns schema ! i)) ` set (rl_stored layout) then ?row n
        else if n \<in> set (td_primary_key schema) then ?row n else None) = ?row n"
      unfolding stored by (cases "n \<in> col_name ` set (td_columns schema)") auto
  qed
  with decode_columns_loop_reads [OF e(4), of "rl_stored layout" js _ ?row 0 schema 0 layout key
      "\<lambda>n. if n \<in> set (td_primary_key schema) then ?row n else None"] reads'
  have loop: "decode_columns_loop js ?r strict (List.enumerate 0 (rl_stored layout)) 0
      (\<lambda>n. if n \<in> set (td_primary_key schema) then ?row n else None) = Inr ?row" for strict
    by simp
  have "check_canonical js ?r ?row = Inr ()"
    by (rule check_canonical_opened [OF e(4) se last refl]) (use same value_of e(3) in simp_all)
  with loop open' key_row_canonical [OF shape layout canonical key] show ?thesis
    by (simp add: to_row_def to_row_strictly_def record_decode_def decode_columns_def)
qed

end

end
