(* ===== verification/CatalogProofs.thy ===== *)
theory CatalogProofs
  imports Catalog RowRoundTrip
begin

text \<open>
  A catalog record that was written reads back as the record, and the header has one encoding only.
\<close>

section \<open>Fields of a record\<close>

lemma read_u64_field: "length pre = n \<Longrightarrow> read_u64 (pre @ le_bytes 8 w @ rest) n = w"
  using slice_middle [of pre "le_bytes 8 w" rest] by (simp add: read_u64_def)

lemma read_u32_field: "length pre = n \<Longrightarrow> read_u32 (pre @ le_bytes 4 w @ rest) n = w"
  using slice_middle [of pre "le_bytes 4 w" rest] by (simp add: read_u32_def)

lemma append_record_prefix_eq: "append_record_prefix [] = [1, 0, 0, 0]"
  by (simp add: append_record_prefix_def RECORD_VERSION_def RECORD_FLAGS_def le_bytes_def upt_conv_Cons)

lemma validate_record_prefix_ok: "validate_record_prefix ([1, 0, 0, 0] @ rest) = Inr ()"
  by (simp add: validate_record_prefix_def RECORD_VERSION_def RECORD_FLAGS_def slice_def)

section \<open>The header\<close>

lemma decode_header_key: "decode_catalog_key [CATALOG_HEADER_KEY] = Inr HeaderKey"
  by (simp add: decode_catalog_key_def MAX_BTREE_KEY_BYTES_def)

lemma catalog_header_fields:
  fixes h :: catalog_header and tail :: bytes
  defines "v \<equiv> [1, 0, 0, 0] @ le_bytes 8 (ch_next_tree_id h) @ le_bytes 4 (ch_table_count h)
        @ le_bytes 4 (ch_index_count h) @ tail"
  shows "read_u64 v 4 = ch_next_tree_id h" "read_u32 v 12 = ch_table_count h"
    "read_u32 v 16 = ch_index_count h" "length v = 20 + length tail"
  unfolding v_def
  using read_u64_field [of "[1, 0, 0, 0]" 4 "ch_next_tree_id h"]
    read_u32_field [of "[1, 0, 0, 0] @ le_bytes 8 (ch_next_tree_id h)" 12 "ch_table_count h"]
    read_u32_field [of "[1, 0, 0, 0] @ le_bytes 8 (ch_next_tree_id h) @ le_bytes 4 (ch_table_count h)"
      16 "ch_index_count h" tail]
  by simp_all

lemma catalog_header_version:
  "read_u64 ([1, 0, 0, 0] @ le_bytes 8 a @ le_bytes 4 b @ le_bytes 4 c @ le_bytes 8 w) 20 = w"
  using read_u64_field [of "[1, 0, 0, 0] @ le_bytes 8 a @ le_bytes 4 b @ le_bytes 4 c" 20 w "[]"] by simp

lemma catalog_header_decodes:
  assumes "encode_catalog_header_record h = Inr (key, record')"
  shows "decode_catalog_header_record key record' = Inr h"
proof -
  let ?tail = "if 0 < ch_schema_version h then le_bytes 8 (ch_schema_version h) else []"
  from assms have k: "key = [CATALOG_HEADER_KEY]" and ok: "validate_catalog_header h = Inr ()"
    and v: "record' = [1, 0, 0, 0] @ le_bytes 8 (ch_next_tree_id h) @ le_bytes 4 (ch_table_count h)
        @ le_bytes 4 (ch_index_count h) @ ?tail"
    by (auto simp: encode_catalog_header_record_def append_record_prefix_eq and_then_eq_Inr)
  note f = catalog_header_fields [of h ?tail, folded v]
  have p: "validate_record_prefix record' = Inr ()" unfolding v by (rule validate_record_prefix_ok)
  have s: "header_schema_version record' = Inr (ch_schema_version h)"
  proof (cases "0 < ch_schema_version h")
    case True
    with v have "read_u64 record' 20 = ch_schema_version h" by (simp only: if_True catalog_header_version)
    with True f(4) show ?thesis
      by (simp add: header_schema_version_def CATALOG_HEADER_BYTES_def VERSIONED_CATALOG_HEADER_BYTES_def)
  next
    case False
    with f(4) show ?thesis by (simp add: header_schema_version_def CATALOG_HEADER_BYTES_def word_gt_0)
  qed
  show ?thesis
    unfolding decode_catalog_header_record_def k decode_header_key and_then_simps s p f(1-3) Let_def
    using ok by (cases h) simp
qed

lemma slice_parts:
  assumes "length v = 20 + n"
  shows "v = slice v 0 4 @ slice v 4 8 @ slice v 12 4 @ slice v 16 4 @ drop 20 v"
  using slice_append_split [of v 0 4 8] slice_append_split [of v 0 12 4] slice_append_split [of v 0 16 4]
    assms append_take_drop_id [of 20 v] by (simp add: slice_def)

lemma catalog_header_encodes:
  assumes "decode_catalog_header_record key record' = Inr h"
  shows "encode_catalog_header_record h = Inr (key, record')"
proof -
  from assms obtain sv where k: "decode_catalog_key key = Inr HeaderKey"
    and s: "header_schema_version record' = Inr sv"
    and p: "validate_record_prefix record' = Inr ()"
    and h: "h = \<lparr>ch_next_tree_id = read_u64 record' 4, ch_table_count = read_u32 record' 12,
                 ch_index_count = read_u32 record' 16, ch_schema_version = sv\<rparr>"
    and ok: "validate_catalog_header h = Inr ()"
    by (auto simp: decode_catalog_header_record_def and_then_eq_Inr Let_def split: if_splits)
  have key: "key = [CATALOG_HEADER_KEY]"
    using k by (cases key) (auto simp: decode_catalog_key_def Let_def and_then_eq_Inr split: if_splits)
  have pre: "slice record' 0 4 = [1, 0, 0, 0]"
  proof -
    from p have "4 \<le> length record'" by (auto simp: validate_record_prefix_def split: if_splits)
    then obtain a b c d rest where "record' = a # b # c # d # rest"
      by (auto simp: Suc_le_length_iff numeral_eq_Suc)
    with p show ?thesis
      by (auto simp: validate_record_prefix_def RECORD_VERSION_def RECORD_FLAGS_def slice_def
          split: if_splits)
  qed
  obtain n where n: "length record' = 20 + n"
    using s by (auto simp: header_schema_version_def CATALOG_HEADER_BYTES_def
        VERSIONED_CATALOG_HEADER_BYTES_def split: if_splits)
  have tail: "drop 20 record' = (if 0 < sv then le_bytes 8 sv else [])"
    using s by (auto simp: header_schema_version_def CATALOG_HEADER_BYTES_def VERSIONED_CATALOG_HEADER_BYTES_def read_u64_def slice_def
        split: if_splits)
  show ?thesis
    using ok slice_parts [OF n, symmetric]
    by (cases "0 < sv") (simp_all add: encode_catalog_header_record_def append_record_prefix_eq key h reads_def pre tail n)
qed

section \<open>Items\<close>

lemma ascii_inj [simp]: "ascii s = ascii t \<longleftrightarrow> s = t"
proof
  have "inj (\<lambda>c :: char. (of_nat (of_char c) :: u8))"
  proof (rule injI)
    fix c d :: char
    assume "(of_nat (of_char c) :: u8) = of_nat (of_char d)"
    then have "unat (of_nat (of_char c) :: u8) = unat (of_nat (of_char d) :: u8)" by simp
    then have "(of_char c :: nat) = of_char d" using nat_of_char_less_256 [of c] nat_of_char_less_256 [of d]
      by (simp add: unat_of_nat take_bit_nat_eq_self del: of_nat_of_char)
    then show "c = d" by simp
  qed
  then show "ascii s = ascii t \<Longrightarrow> s = t" by (simp add: ascii_def inj_map_eq_map)
qed simp

lemma catalog_item_fields:
  fixes root :: "u64 option" and body :: bytes and tree_id count hash :: u64
  defines "v \<equiv> [1, 0, 0, 0] @ le_bytes 8 tree_id
       @ le_bytes 8 (case root of Some p \<Rightarrow> p | None \<Rightarrow> NO_PAGE_ID)
       @ le_bytes 8 count @ le_bytes 8 hash @ le_bytes 4 (of_nat (length body) :: u32) @ body"
  shows "read_u64 v 4 = tree_id"
    "read_u64 v 12 = (case root of Some p \<Rightarrow> p | None \<Rightarrow> NO_PAGE_ID)"
    "read_u64 v 20 = count" "read_u64 v 28 = hash" "read_u32 v 36 = of_nat (length body)"
    "length v = 40 + length body" "drop 40 v = body"
  unfolding v_def
  using read_u64_field [of "[1, 0, 0, 0]" 4 tree_id]
    read_u64_field [of "[1, 0, 0, 0] @ le_bytes 8 tree_id" 12]
    read_u64_field [of "[1, 0, 0, 0] @ le_bytes 8 tree_id
       @ le_bytes 8 (case root of Some p \<Rightarrow> p | None \<Rightarrow> NO_PAGE_ID)" 20 count]
    read_u64_field [of "[1, 0, 0, 0] @ le_bytes 8 tree_id
       @ le_bytes 8 (case root of Some p \<Rightarrow> p | None \<Rightarrow> NO_PAGE_ID) @ le_bytes 8 count" 28 hash]
    read_u32_field [of "[1, 0, 0, 0] @ le_bytes 8 tree_id
       @ le_bytes 8 (case root of Some p \<Rightarrow> p | None \<Rightarrow> NO_PAGE_ID) @ le_bytes 8 count
       @ le_bytes 8 hash" 36]
  by simp_all

lemma catalog_item_round_trip:
  assumes body: "encode_catalog_item_body tree_id root count hash (json_text js (to_json model)) = Inr record'"
    and item: "validate_catalog_item tree_id root count = Inr ()"
    and canon: "encode_canonical_json js (to_json model) = Inr (json_text js (to_json model))"
    and reads: "from_slice js (json_text js (to_json model)) = Some (to_json model)"
    and model: "from_catalog_json (to_json model) = Some model"
  shows "decode_catalog_item_value js from_catalog_json to_json record'
    = Inr (tree_id, root, count, hash, model)"
proof -
  let ?body = "json_text js (to_json model)"
  from body have v: "record' = [1, 0, 0, 0] @ le_bytes 8 tree_id
       @ le_bytes 8 (case root of Some p \<Rightarrow> p | None \<Rightarrow> NO_PAGE_ID)
       @ le_bytes 8 count @ le_bytes 8 hash @ le_bytes 4 (of_nat (length ?body) :: u32) @ ?body"
    and len: "40 + length ?body \<le> MAX_PAGED_VALUE_BYTES"
    by (auto simp: encode_catalog_item_body_def append_record_prefix_eq CATALOG_ITEM_HEADER_BYTES_def
        split: if_splits)
  note f = catalog_item_fields [of tree_id root count hash ?body, folded v]
  have p: "validate_record_prefix record' = Inr ()" unfolding v by (rule validate_record_prefix_ok)
  have root': "(if (case root of Some p \<Rightarrow> p | None \<Rightarrow> NO_PAGE_ID) = NO_PAGE_ID then None
      else Some (case root of Some p \<Rightarrow> p | None \<Rightarrow> NO_PAGE_ID)) = root"
  proof (cases root)
    case (Some p)
    have "unat NO_PAGE_ID \<ge> MAX_PAGE_COUNT"
      by (simp add: NO_PAGE_ID_def MAX_PAGE_COUNT_def unsigned_minus_1_eq_mask mask_eq_exp_minus_1)
    with Some item have "p \<noteq> NO_PAGE_ID"
      by (auto simp: validate_catalog_item_def split: if_splits)
    with Some show ?thesis by simp
  qed simp
  have "length ?body < 2 ^ 32" using len by (simp add: MAX_PAGED_VALUE_BYTES_def)
  then have l: "40 + unat (of_nat (length ?body) :: u32) = length record'" by (simp add: f(6))
  show ?thesis
    unfolding decode_catalog_item_value_def CATALOG_ITEM_HEADER_BYTES_def f(1-5,7) root' Let_def p
      and_then_simps item map_err_simps l
    using len f(6) canon reads model by (simp add: decode_canonical_json_def)
qed

section \<open>Definitions\<close>

lemma map_some_map: "(\<And>x. x \<in> set xs \<Longrightarrow> f (g x) = Some x) \<Longrightarrow> map_some f (map g xs) = Some xs"
  by (induction xs) auto

lemma catalog_strings_json [simp]: "catalog_strings (json_strings names) = Some names"
  using map_some_map [of names catalog_string String]
  by (simp add: catalog_strings_def json_strings_def catalog_string_def)

lemma action_round_trip [simp]:
  "foreign_key_action_from_name (ascii (foreign_key_action_name a)) = Some a"
  by (cases a) (simp_all add: foreign_key_action_from_name_def foreign_key_action_name_def)

lemma foreign_key_round_trip: "foreign_key_from_json (foreign_key_json fk :: 'n json) = Some fk"
  by (cases fk)
    (simp add: foreign_key_from_json_def foreign_key_json_def object_get_def catalog_string_def
      json_string_def Let_def)

lemma index_json_round_trip: "index_from_catalog_json (index_json d :: 'n json) = Some d"
  by (cases d) (simp add: index_from_catalog_json_def index_json_def object_get_def catalog_string_def)

context serde_json
begin

lemma column_round_trip: "column_from_catalog_json js (column_json js c) = Some c"
proof (cases c)
  case (fields name t nullable default' max_length)
  have max: "max_length = Some n \<Longrightarrow> unat (ucast n :: u64) < 2 ^ 32" for n :: u32
    using unsigned_less [of n, where 'a = nat] by (simp add: unsigned_ucast_eq take_bit_nat_eq_self)
  have cast: "ucast (ucast (n :: u32) :: u64) = n" for n
    by (rule bit_word_eqI) (simp add: bit_simps)
  show ?thesis
    using max
    by (cases t; cases default'; cases max_length)
      (simp_all add: fields column_from_catalog_json_def column_json_def object_get_def catalog_string_def
        column_type_json_def json_string_def u64_of_u64 cast)
qed

lemma table_round_trip: "table_from_catalog_json js (table_json js schema) = Some schema"
proof (cases schema)
  case (fields name primary_key columns foreign_keys)
  have "map_some (column_from_catalog_json js) (map (column_json js) columns) = Some columns"
    by (rule map_some_map) (rule column_round_trip)
  moreover have "map_some foreign_key_from_json (map foreign_key_json foreign_keys :: 'n json list)
      = Some foreign_keys"
    by (rule map_some_map) (rule foreign_key_round_trip)
  ultimately show ?thesis
    by (simp add: fields table_from_catalog_json_def table_json_def object_get_def catalog_string_def)
qed

lemma catalog_table_round_trip:
  assumes schema: "encode_catalog_schema js (ct_schema r) = Inr body"
    and enc: "encode_catalog_table_record_with_schema (td_name (ct_schema r)) (ct_tree_id r)
        (ct_root_page_id r) (ct_row_count r) (ct_hash r) body = Inr (key, record')"
    and shape: "validate_schema_shape js (ct_schema r) = Inr ()"
    and name: "utf8 (td_name (ct_schema r))"
    and reads: "from_slice js body = Some (table_json js (ct_schema r))"
  shows "decode_catalog_table_record js key record' = Inr r"
proof -
  let ?s = "ct_schema r"
  have body: "body = json_text js (table_json js ?s)"
    "encode_canonical_json js (table_json js ?s) = Inr body"
    using schema by (auto simp: encode_catalog_schema_def encode_canonical_json_eq split: if_splits)
  from enc have k: "key = CATALOG_TABLE_KEY # td_name ?s" "validate_catalog_name (td_name ?s) = Inr ()"
    "length key \<le> MAX_BTREE_KEY_BYTES"
    and item: "validate_catalog_item (ct_tree_id r) (ct_root_page_id r) (ct_row_count r) = Inr ()"
    and v: "encode_catalog_item_body (ct_tree_id r) (ct_root_page_id r) (ct_row_count r) (ct_hash r) body
       = Inr record'"
    by (auto simp: encode_catalog_table_record_with_schema_def encode_catalog_key_def and_then_eq_Inr)
  have "decode_catalog_key key = Inr (TableKey (td_name ?s))"
    using k name by (simp add: decode_catalog_key_def CATALOG_TABLE_KEY_def CATALOG_HEADER_KEY_def)
  moreover have "decode_catalog_item_value js (table_from_catalog_json js) (table_json js) record'
      = Inr (ct_tree_id r, ct_root_page_id r, ct_row_count r, ct_hash r, ?s)"
    using v item body reads table_round_trip by (intro catalog_item_round_trip) auto
  ultimately show ?thesis
    using shape by (simp add: decode_catalog_table_record_def)
qed

end

lemma catalog_index_round_trip:
  assumes enc: "encode_catalog_index_record js r = Inr (key, record')"
    and name: "utf8 (ix_name (ci_definition r))"
    and reads: "from_slice js (json_text js (index_json (ci_definition r)))
       = Some (index_json (ci_definition r))"
  shows "decode_catalog_index_record js key record' = Inr r"
proof -
  let ?d = "ci_definition r"
  from enc have k: "key = CATALOG_INDEX_KEY # ix_name ?d" "validate_catalog_name (ix_name ?d) = Inr ()"
    "validate_catalog_name (ix_table ?d) = Inr ()" "validate_index_shape ?d = Inr ()"
    "length key \<le> MAX_BTREE_KEY_BYTES"
    and item: "validate_catalog_item (ci_tree_id r) (ci_root_page_id r) (ci_entry_count r) = Inr ()"
    and v: "encode_catalog_item_value js (ci_tree_id r) (ci_root_page_id r) (ci_entry_count r)
        EMPTY_HASH (index_json ?d) = Inr record'"
    by (auto simp: encode_catalog_index_record_def encode_catalog_key_def and_then_eq_Inr)
  have "decode_catalog_key key = Inr (IndexKey (ix_name ?d))"
    using k name
    by (simp add: decode_catalog_key_def CATALOG_TABLE_KEY_def CATALOG_HEADER_KEY_def CATALOG_INDEX_KEY_def)
  moreover have "decode_catalog_item_value js index_from_catalog_json index_json record'
      = Inr (ci_tree_id r, ci_root_page_id r, ci_entry_count r, EMPTY_HASH, ?d)"
    using v item reads index_json_round_trip
    by (intro catalog_item_round_trip)
      (auto simp: encode_catalog_item_value_def and_then_eq_Inr encode_canonical_json_eq split: if_splits)
  ultimately show ?thesis
    using k by (simp add: decode_catalog_index_record_def)
qed

end
