(* ===== verification/Example.thy ===== *)
theory Example
  imports CatalogProofs
begin

text \<open>
  One table of two columns, an index over it and two rows, with everything the codec writes for them.
  The properties about keys, records and catalog records are applied to it.
\<close>

definition example_serde :: "json_number serde" where
  "example_serde = documented_numbers (\<lambda>_. [0x30]) (\<lambda>s. [0x22] @ s @ [0x22]) (\<lambda>_. None)"

definition example_schema :: "json_number table_definition" where
  "example_schema =
    \<lparr>td_name = [0x74], td_primary_key = [[0x69]],
     td_columns =
       [\<lparr>col_name = [0x69], col_type = Integer, col_nullable = False, col_default = None,
         col_max_length = None\<rparr>,
        \<lparr>col_name = [0x6E], col_type = Text, col_nullable = True, col_default = None,
         col_max_length = None\<rparr>],
     td_foreign_keys = []\<rparr>"

definition example_index :: index_definition where
  "example_index = \<lparr>ix_name = [0x78], ix_table = [0x74], ix_columns = [[0x6E]], ix_unique = False\<rparr>"

definition example_row :: "i64 \<Rightarrow> json_number row" where
  "example_row i = [[0x69] \<mapsto> Number (PosInt i), [0x6E] \<mapsto> String [0x61]]"


lemmas example_defs = example_serde_def example_schema_def example_index_def example_row_def

lemmas key_limits = MAX_BTREE_KEY_BYTES_def MAX_COLUMNS_def

lemma example_schema_shape: "validate_schema_shape example_serde example_schema = Inr ()"
  by (simp add: validate_schema_shape_def example_schema_def validate_catalog_name_def key_limits)

lemma example_index_identity: "validate_index_identity example_serde example_schema example_index = Inr ()"
  by (simp add: validate_index_identity_def example_schema_shape)
    (simp add: example_schema_def example_index_def validate_index_shape_def validate_catalog_name_def key_limits)

lemma example_column_type [simp]:
  "schema_column_type example_schema [0x69] = Inr Integer"
  "schema_column_type example_schema [0x6E] = Inr Text"
  by (simp_all add: example_schema_def schema_column_type_def)

lemma example_primary_key:
  "encode_primary_key example_serde example_schema (example_row 1) = Inr [128,0,0,0,0,0,0,1]"
  "encode_primary_key example_serde example_schema (example_row 2) = Inr [128,0,0,0,0,0,0,2]"
  by (simp_all add: encode_primary_key_def encode_columns_def example_row_def encode_component_def
      validate_key_size_def key_limits push_integer_component_def be_bytes_def le_bytes_def upt_rec sign_bit_def
      example_schema_def safe_integer_def example_serde_def documented_numbers_def MAX_SAFE_INTEGER_def schema_column_type_def)

definition example_layout :: record_layout where
  "example_layout =
    \<lparr>rl_slots = [KeySlot 0, StoredSlot 0], rl_key_types = [Integer], rl_keys = [0], rl_stored = [1],
     rl_estimate = Some 228, rl_sized = [1], rl_key_estimates = Some (130, 166), rl_json_overhead = 11\<rparr>"

lemma example_layout_new: "record_layout_new example_schema = Inr example_layout"
  by (simp add: record_layout_new_def)
    (simp add: example_schema_def example_layout_def schema_column_type_def as_storage_corruption_def position_def
      add_estimate_def checked_usize_def usize_max_def row_json_overhead_def checked_row_write_add_def
      checked_row_write_mul_def encoded_json_string_bytes_def)

lemma example_record: "encode_row example_serde example_schema (example_row 1) = Inr [0, 1, 0x61]"
proof -
  let ?c = "\<lparr>col_name = [0x6E], col_type = Text, col_nullable = True, col_default = None, col_max_length = None\<rparr>"
  have "encode_stored_values example_serde [(?c, StoredValue (String [0x61]))] = Inr [0, 1, 0x61]"
    by (simp add: encode_stored_values_def is_default_def encode_value_def slice_def put_def
      offset_width_def div_ceil_def RECORD_HEADER_BYTES_def MAX_PAGED_VALUE_BYTES_def numeral_2_eq_2)
  then show ?thesis by (simp add: encode_row_def example_schema_def example_row_def)
qed

lemma example_index_prefix:
  "encode_secondary_index_prefix example_serde example_schema example_index (example_row 1)
    = Inr (Some [0x61, 0, 1])"
  by (simp add: encode_secondary_index_prefix_def encode_columns_def example_row_def encode_component_def
      example_index_def validate_key_size_def key_limits push_text_component_def TEXT_TERMINATOR_def)

lemma example_index_entry:
  "encode_secondary_index_entry example_serde example_schema example_index (example_row 1)
    = Inr (Some ([0x61, 0, 1, 128, 0, 0, 0, 0, 0, 0, 1], 3))"
  by (simp add: encode_secondary_index_entry_def example_index_prefix example_primary_key
      validate_key_size_def key_limits)

lemma example_row_utf8: "row_utf8 (example_row i)"
  by (auto simp: row_utf8_def example_row_def utf8_follow_def split: if_splits)

lemma example_serde_documented: "serde_json example_serde"
  unfolding example_serde_def by (rule documented.serde_json_axioms)

section \<open>A row with a JSON value\<close>

text \<open>
  A parser of the three JSON literals, a table with a float key and a JSON column that has a default, and a row of it
  whose key is \<open>-0\<close>.
\<close>

definition literal_parse :: "bytes \<Rightarrow> json_number json option" where
  "literal_parse bs =
    (if bs = ascii ''true'' then Some (Bool True)
     else if bs = ascii ''false'' then Some (Bool False)
     else if bs = ascii ''null'' then Some Null else None)"

definition literal_serde :: "json_number serde" where
  "literal_serde = documented_numbers (\<lambda>_. [0x30]) (\<lambda>s. [0x22] @ s @ [0x22]) literal_parse"

definition float_schema :: "json_number table_definition" where
  "float_schema =
    \<lparr>td_name = [0x66], td_primary_key = [[0x69]],
     td_columns =
       [\<lparr>col_name = [0x69], col_type = Float, col_nullable = False, col_default = None, col_max_length = None\<rparr>,
        \<lparr>col_name = [0x6A], col_type = Json, col_nullable = True, col_default = Some (Bool False),
         col_max_length = None\<rparr>],
     td_foreign_keys = []\<rparr>"

definition float_row :: "f64 \<Rightarrow> json_number row" where
  "float_row x = [[0x69] \<mapsto> Number (Floating x), [0x6A] \<mapsto> Bool True]"

lemma literal_serde_documented: "serde_json literal_serde"
  unfolding literal_serde_def by (rule documented.serde_json_axioms)

lemma float_schema_shape: "validate_schema_shape literal_serde float_schema = Inr ()"
  by (simp add: validate_schema_shape_def float_schema_def validate_catalog_name_def key_limits validate_catalog_default_def
      encode_canonical_json_eq MAX_JSON_DEPTH_def MAX_JSON_NODES_def MAX_PAGED_VALUE_BYTES_def ascii_def)

lemma float_row_normal: "row_normal literal_serde float_schema (float_row sign_bit)"
  by (auto simp: row_normal_def float_schema_def float_row_def normal_value_def literal_serde_def documented_numbers_def
      value_from_f64_def f64_is_finite_def f64_exponent_def sign_bit_def split: if_splits)

lemma float_row_parses: "json_parses literal_serde float_schema (float_row x)"
  by (simp add: json_parses_def float_schema_def float_row_def parses_back_def literal_serde_def documented_numbers_def
      literal_parse_def ascii_def)

lemma float_key: "encode_primary_key literal_serde float_schema (float_row sign_bit) = Inr [128, 0, 0, 0, 0, 0, 0, 0]"
  by (simp add: encode_primary_key_def encode_columns_def float_row_def encode_component_def validate_key_size_def
      key_limits push_float_component_def be_bytes_def le_bytes_def upt_rec sign_bit_def float_schema_def
      literal_serde_def documented_numbers_def schema_column_type_def f64_is_zero_def f64_is_finite_def f64_exponent_def)

lemma float_layout: "\<exists>layout. record_layout_new float_schema = Inr layout"
  by (simp add: record_layout_new_def)
    (simp add: float_schema_def schema_column_type_def as_storage_corruption_def position_def
      add_estimate_def checked_usize_def usize_max_def row_json_overhead_def checked_row_write_add_def
      checked_row_write_mul_def encoded_json_string_bytes_def)

lemma float_record: "encode_row literal_serde float_schema (float_row sign_bit) = Inr (0 # 1 # ascii ''true'')"
proof -
  let ?c = "\<lparr>col_name = [0x6A], col_type = Json, col_nullable = True, col_default = Some (Bool False), col_max_length = None\<rparr>"
  have "encode_stored_values literal_serde [(?c, StoredValue (Bool True))] = Inr (0 # 1 # ascii ''true'')"
    by (simp add: encode_stored_values_def is_default_def encode_value_def slice_def put_def encode_canonical_json_eq
      offset_width_def div_ceil_def RECORD_HEADER_BYTES_def MAX_PAGED_VALUE_BYTES_def numeral_2_eq_2 ascii_def
      MAX_JSON_DEPTH_def MAX_JSON_NODES_def)
  then show ?thesis by (simp add: encode_row_def float_schema_def float_row_def)
qed

lemma float_row_stored: "stored_row literal_serde float_schema (float_row sign_bit) = float_row 0"
  by (rule ext) (auto simp: stored_row_def float_schema_def float_row_def schema_column_type_def stored_value_def
      literal_serde_def documented_numbers_def value_from_f64_def f64_is_finite_def f64_exponent_def)

section \<open>The table in the catalog\<close>

text \<open>A parser that reads the text of the example's schema.\<close>

definition catalog_serde :: "json_number serde" where
  "catalog_serde = documented_numbers (\<lambda>_. [0x30]) (\<lambda>s. [0x22] @ s @ [0x22])
     (\<lambda>_. Some (table_json example_serde example_schema))"

definition example_table :: "json_number catalog_table_record" where
  "example_table = \<lparr>ct_schema = example_schema, ct_tree_id = 2, ct_root_page_id = Some 100, ct_row_count = 2,
     ct_hash = 7\<rparr>"

lemma catalog_serde_documented: "serde_json catalog_serde"
  unfolding catalog_serde_def by (rule documented.serde_json_axioms)

lemma example_table_record:
  obtains body key record' where
    "encode_catalog_schema catalog_serde (ct_schema example_table) = Inr body"
    "encode_catalog_table_record_with_schema (td_name (ct_schema example_table)) (ct_tree_id example_table)
       (ct_root_page_id example_table) (ct_row_count example_table) (ct_hash example_table) body = Inr (key, record')"
    "validate_schema_shape catalog_serde (ct_schema example_table) = Inr ()"
    "utf8 (td_name (ct_schema example_table))"
    "from_slice catalog_serde body = Some (table_json catalog_serde (ct_schema example_table))"
proof -
  let ?v = "table_json catalog_serde example_schema"
  have json: "json_depth ?v \<le> MAX_JSON_DEPTH" "json_nodes ?v \<le> MAX_JSON_NODES"
    "length (json_text catalog_serde ?v) \<le> 1000"
    by (simp_all add: table_json_def example_schema_def column_json_def column_type_json_def json_strings_def
        json_string_def MAX_JSON_DEPTH_def MAX_JSON_NODES_def catalog_serde_def documented_numbers_def ascii_def)
  have parse: "from_slice catalog_serde body = Some ?v" for body
    by (simp add: catalog_serde_def documented_numbers_def table_json_def example_schema_def column_json_def)
  have "encode_catalog_schema catalog_serde example_schema = Inr (json_text catalog_serde ?v)"
    using json by (simp add: encode_catalog_schema_def encode_canonical_json_eq MAX_PAGED_VALUE_BYTES_def)
  moreover have "\<exists>key record'. encode_catalog_table_record_with_schema [0x74] 2 (Some 100) 2 7
      (json_text catalog_serde ?v) = Inr (key, record')"
    using json by (simp add: encode_catalog_table_record_with_schema_def validate_catalog_name_def key_limits
        validate_catalog_item_def encode_catalog_key_def validate_key_size_def encode_catalog_item_body_def
        CATALOG_ITEM_HEADER_BYTES_def MAX_PAGED_VALUE_BYTES_def FIRST_USER_TREE_ID_def MAX_TREE_ID_def
        MAX_STORED_COUNT_def MAX_PAGE_COUNT_def FIRST_DATA_PAGE_ID_def)
  moreover have "validate_schema_shape catalog_serde example_schema = Inr ()"
    by (simp add: validate_schema_shape_def example_schema_def validate_catalog_name_def key_limits)
  moreover have "utf8 (td_name example_schema)" by (simp add: example_schema_def utf8_follow_def)
  moreover have "td_name example_schema = [0x74]" by (simp add: example_schema_def)
  ultimately show ?thesis
    using that parse [of "json_text catalog_serde ?v"] by (auto simp: example_table_def)
qed

end
