(* ===== verification/LikeProofs.thy ===== *)
theory LikeProofs
  imports Like
begin

text \<open>
  Matching a pattern segment by segment, the middle ones as far left as possible, decides the meaning
  of the pattern: some choice of characters for every \<open>%\<close> makes the whole text match.
\<close>

section \<open>What a pattern means\<close>

datatype like_token = AnySequence | Element like_element

fun like_tokens :: "str option \<Rightarrow> str list \<Rightarrow> like_token list" where
  "like_tokens escape [] = []"
| "like_tokens escape (c # cs) =
    (if Some c = escape
     then (case cs of [] \<Rightarrow> [] | e # cs \<Rightarrow> Element (Character e) # like_tokens escape cs)
     else (if c = [0x25] then AnySequence
           else if c = [0x5F] then Element AnyCharacter else Element (Character c))
          # like_tokens escape cs)"

text \<open>The text's characters match the tokens: \<^const>\<open>AnySequence\<close> takes any number of them.\<close>

fun like :: "bool \<Rightarrow> like_token list \<Rightarrow> str list \<Rightarrow> bool" where
  "like ci [] cs \<longleftrightarrow> cs = []"
| "like ci (Element e # ts) [] \<longleftrightarrow> False"
| "like ci (Element e # ts) (c # cs) \<longleftrightarrow> element_passes ci e c \<and> like ci ts cs"
| "like ci (AnySequence # ts) [] \<longleftrightarrow> like ci ts []"
| "like ci (AnySequence # ts) (c # cs) \<longleftrightarrow> like ci ts (c # cs) \<or> like ci (AnySequence # ts) cs"

section \<open>Segments over characters\<close>

definition seg_ok :: "bool \<Rightarrow> like_element list \<Rightarrow> str list \<Rightarrow> bool" where
  "seg_ok ci s cs \<longleftrightarrow> length s \<le> length cs \<and> list_all2 (element_passes ci) s (take (length s) cs)"

fun segs_ok :: "bool \<Rightarrow> like_element list list \<Rightarrow> str list \<Rightarrow> bool" where
  "segs_ok ci [] cs \<longleftrightarrow> False"
| "segs_ok ci [s] cs \<longleftrightarrow> list_all2 (element_passes ci) s cs"
| "segs_ok ci (s # t # ss) cs \<longleftrightarrow>
    seg_ok ci s cs \<and> (\<exists>k. segs_ok ci (t # ss) (drop k (drop (length s) cs)))"

definition later_ok :: "bool \<Rightarrow> like_element list list \<Rightarrow> str list \<Rightarrow> bool" where
  "later_ok ci ss cs \<longleftrightarrow> (\<exists>k. segs_ok ci ss (drop k cs))"

fun segment_tokens :: "like_element list list \<Rightarrow> like_token list" where
  "segment_tokens [] = []"
| "segment_tokens [s] = map Element s"
| "segment_tokens (s # t # ss) = map Element s @ AnySequence # segment_tokens (t # ss)"

lemma like_any: "like ci (AnySequence # ts) cs \<longleftrightarrow> (\<exists>k. like ci ts (drop k cs))"
proof (induction cs)
  case Nil
  then show ?case by simp
next
  case (Cons c cs)
  have "(\<exists>k. like ci ts (drop k (c # cs))) \<longleftrightarrow> like ci ts (c # cs) \<or> (\<exists>k. like ci ts (drop k cs))"
    by (metis drop0 drop_Suc_Cons old.nat.exhaust)
  then show ?case using Cons by simp
qed

lemma like_elements:
  "like ci (map Element s @ ts) cs \<longleftrightarrow> seg_ok ci s cs \<and> like ci ts (drop (length s) cs)"
  by (induction s arbitrary: cs; case_tac cs) (auto simp: seg_ok_def)

lemma seg_ok_all: "seg_ok ci s cs \<and> length s = length cs \<longleftrightarrow> list_all2 (element_passes ci) s cs"
  using list_all2_lengthD [of "element_passes ci" s cs]
  by (cases "length s = length cs") (auto simp: seg_ok_def)

lemma segs_ok_like: "ss \<noteq> [] \<Longrightarrow> like ci (segment_tokens ss) cs \<longleftrightarrow> segs_ok ci ss cs"
proof (induction ci ss cs rule: segs_ok.induct)
  case (2 ci s cs)
  then show ?case
    using like_elements [of ci s "[]" cs] seg_ok_all [of ci s cs] by (auto simp: seg_ok_def)
next
  case (3 ci s t ss cs)
  then show ?case by (simp add: like_elements like_any del: like.simps)
qed simp

lemma segment_tokens_snoc:
  "ss \<noteq> [] \<Longrightarrow> segment_tokens (ss @ [s]) = segment_tokens ss @ AnySequence # map Element s"
  by (induction ss rule: segment_tokens.induct) auto

lemma segment_tokens_push:
  assumes "ss \<noteq> []" shows "segment_tokens (push_last ss x) = segment_tokens ss @ [Element x]"
proof (cases "butlast ss = []")
  case True
  with assms show ?thesis by (cases ss) (auto simp: push_last_def split: if_splits)
next
  case False
  have "ss = butlast ss @ [last ss]" using assms by simp
  with segment_tokens_snoc [OF False, of "last ss"] segment_tokens_snoc [OF False, of "last ss @ [x]"]
  show ?thesis by (simp add: push_last_def)
qed

lemma like_loop_tokens:
  "ss \<noteq> [] \<Longrightarrow> segment_tokens (like_loop escape cs ss) = segment_tokens ss @ like_tokens escape cs
    \<and> like_loop escape cs ss \<noteq> []"
proof (induction escape cs ss rule: like_loop.induct)
  case (2 escape c cs ss)
  have push: "push_last ss x \<noteq> []" for x by (simp add: push_last_def)
  show ?case
    using 2 push segment_tokens_push [OF 2(5)] segment_tokens_snoc [OF 2(5), of "[]"]
    by (auto split: list.split)
qed simp

section \<open>Matching as far left as possible\<close>

fun leftmost :: "bool \<Rightarrow> like_element list \<Rightarrow> str list \<Rightarrow> str list option" where
  "leftmost ci s [] = (if s = [] then Some [] else None)"
| "leftmost ci s (c # cs) =
    (if seg_ok ci s (c # cs) then Some (drop (length s) (c # cs)) else leftmost ci s cs)"

fun greedy :: "bool \<Rightarrow> like_element list list \<Rightarrow> str list \<Rightarrow> str list option" where
  "greedy ci [] cs = Some cs"
| "greedy ci (s # ss) cs = Option.bind (leftmost ci s cs) (greedy ci ss)"

lemma later_ok_drop: "later_ok ci ss (drop j cs) \<Longrightarrow> later_ok ci ss cs"
  unfolding later_ok_def by (metis drop_drop)

lemma seg_ok_Nil [simp]: "seg_ok ci s [] \<longleftrightarrow> s = []"
  by (auto simp: seg_ok_def)

lemma leftmost_step:
  "leftmost ci s cs =
    (if seg_ok ci s cs then Some (drop (length s) cs)
     else case cs of [] \<Rightarrow> None | c # cs \<Rightarrow> leftmost ci s cs)"
  by (cases cs) auto

lemma leftmost_complete:
  assumes "seg_ok ci s (drop k cs)"
  shows "\<exists>j r. leftmost ci s cs = Some r \<and> drop (length s) (drop k cs) = drop j r"
  using assms
proof (induction k arbitrary: cs)
  case 0
  then show ?case by (subst leftmost_step) (auto intro: exI [of _ 0])
next
  case (Suc k)
  show ?case
  proof (cases "seg_ok ci s cs")
    case True
    then show ?thesis by (subst leftmost_step) (auto intro!: exI [of _ "Suc k"] simp: ac_simps)
  next
    case False
    with Suc.prems obtain c cs' where cs: "cs = c # cs'" by (cases cs) auto
    with Suc False show ?thesis by (simp add: drop_drop)
  qed
qed

lemma leftmost_sound:
  assumes "leftmost ci s cs = Some r" shows "\<exists>k. seg_ok ci s (drop k cs) \<and> r = drop (length s) (drop k cs)"
  using assms
proof (induction cs)
  case (Cons c cs)
  then show ?case
    by (cases "seg_ok ci s (c # cs)") (auto intro: exI [of _ 0] exI [of _ "Suc k" for k])
qed (auto split: if_splits)

lemma later_ok_cons:
  "later_ok ci (s # t # ss) cs \<longleftrightarrow> (\<exists>r. leftmost ci s cs = Some r \<and> later_ok ci (t # ss) r)"
proof
  assume "later_ok ci (s # t # ss) cs"
  then obtain k where k: "seg_ok ci s (drop k cs)" "later_ok ci (t # ss) (drop (length s) (drop k cs))"
    by (auto simp: later_ok_def)
  from leftmost_complete [OF k(1)] k(2) later_ok_drop show "\<exists>r. leftmost ci s cs = Some r \<and> later_ok ci (t # ss) r"
    by metis
next
  assume "\<exists>r. leftmost ci s cs = Some r \<and> later_ok ci (t # ss) r"
  then obtain r where r: "leftmost ci s cs = Some r" "later_ok ci (t # ss) r" by blast
  from leftmost_sound [OF r(1)] obtain k where "seg_ok ci s (drop k cs)" "r = drop (length s) (drop k cs)" by blast
  with r(2) show "later_ok ci (s # t # ss) cs" by (auto simp: later_ok_def)
qed

definition ends_ok :: "bool \<Rightarrow> like_element list \<Rightarrow> str list \<Rightarrow> bool" where
  "ends_ok ci s cs \<longleftrightarrow>
    length s \<le> length cs \<and> list_all2 (element_passes ci) s (drop (length cs - length s) cs)"

lemma later_ok_last: "later_ok ci [s] cs \<longleftrightarrow> ends_ok ci s cs"
proof
  assume "later_ok ci [s] cs"
  then obtain k where k: "list_all2 (element_passes ci) s (drop k cs)" by (auto simp: later_ok_def)
  show "ends_ok ci s cs"
  proof (cases "k \<le> length cs")
    case True
    with k list_all2_lengthD [OF k] show ?thesis by (auto simp: ends_ok_def)
  next
    case False
    with k show ?thesis by (simp add: ends_ok_def)
  qed
qed (auto simp: ends_ok_def later_ok_def)

lemma later_ok_greedy:
  "later_ok ci (ss @ [s]) cs \<longleftrightarrow> (\<exists>r. greedy ci ss cs = Some r \<and> ends_ok ci s r)"
proof (induction ss arbitrary: cs)
  case Nil
  then show ?case by (simp add: later_ok_last)
next
  case (Cons t ss)
  obtain u us where "ss @ [s] = u # us" by (cases ss) auto
  with Cons later_ok_cons [of ci t u us cs] show ?case
    by (auto simp: bind_eq_Some_conv)
qed

lemma segs_ok_greedy:
  "segs_ok ci (f # ss @ [s]) cs \<longleftrightarrow>
    seg_ok ci f cs \<and> (\<exists>r. greedy ci ss (drop (length f) cs) = Some r \<and> ends_ok ci s r)"
proof -
  obtain u us where "ss @ [s] = u # us" by (cases ss) auto
  with later_ok_greedy [of ci ss s "drop (length f) cs"] show ?thesis
    by (simp add: later_ok_def)
qed

section \<open>Characters and bytes\<close>

text \<open>A whole character: a leading byte and as many following ones as it asks for.\<close>

definition is_char :: "str \<Rightarrow> bool" where
  "is_char c \<longleftrightarrow>
    (case c of
       [] \<Rightarrow> False
     | a # bs \<Rightarrow> (\<exists>low high. utf8_follow a = Some (length bs, low, high)) \<and> list_all utf8_tail bs)"

lemma is_charE:
  assumes "is_char c"
  obtains a bs low high where "c = a # bs" "utf8_follow a = Some (length bs, low, high)" "list_all utf8_tail bs"
  using assms by (auto simp: is_char_def split: list.splits)

lemma is_char_not_Nil [simp]: "\<not> is_char []"
  by (simp add: is_char_def)

lemma chars_utf8: "utf8 s \<Longrightarrow> list_all is_char (chars s) \<and> concat (chars s) = s"
proof (induction s rule: chars.induct)
  case (2 a bs)
  then show ?case
    by (auto simp: is_char_def min_def split: option.splits prod.splits)
qed simp

lemma chars_concat: "list_all is_char cs \<Longrightarrow> chars (concat cs) = cs"
  by (induction cs) (auto elim!: is_charE)

lemma follow_not_tail: "utf8_follow a = Some x \<Longrightarrow> \<not> utf8_tail a"
proof -
  have "a \<le> 0x7F \<or> 0xC2 \<le> a \<Longrightarrow> \<not> utf8_tail a"
    by (auto simp: utf8_tail_def word_le_nat_alt)
  then show "utf8_follow a = Some x \<Longrightarrow> \<not> utf8_tail a"
    by (auto simp: utf8_follow_def word_le_nat_alt split: if_splits)
qed

lemma ascii_lower_follow: "utf8_follow (ascii_lower a) = utf8_follow a"
proof (cases "0x41 \<le> a \<and> a \<le> 0x5A")
  case True
  then have "a + 32 \<le> 0x7F" "a \<le> 0x7F"
    by (auto simp: word_le_nat_alt unat_word_ariths)
  with True show ?thesis by (simp add: ascii_lower_def utf8_follow_def)
qed (auto simp: ascii_lower_def)

lemma ascii_lower_tail: "utf8_tail (ascii_lower a) = utf8_tail a"
proof (cases "0x41 \<le> a \<and> a \<le> 0x5A")
  case True
  then have "a + 32 \<le> 0x7F" "a \<le> 0x7F"
    by (auto simp: word_le_nat_alt unat_word_ariths)
  moreover have "x \<le> 0x7F \<Longrightarrow> \<not> utf8_tail x" for x
    by (auto simp: utf8_tail_def word_le_nat_alt)
  ultimately show ?thesis using True by (simp add: ascii_lower_def)
qed (auto simp: ascii_lower_def)

lemma same_bytes_Nil [simp]: "same_bytes ci [] []"
  by (simp add: same_bytes_def eq_ignore_ascii_case_def)

lemma same_bytes_Cons:
  "same_bytes ci (a # as) (b # bs) \<longleftrightarrow> same_bytes ci [a] [b] \<and> same_bytes ci as bs"
  by (auto simp: same_bytes_def eq_ignore_ascii_case_def)

lemma same_bytes_length: "same_bytes ci as bs \<Longrightarrow> length as = length bs"
  by (auto simp: same_bytes_def eq_ignore_ascii_case_def split: if_splits dest: map_eq_imp_length_eq)

lemma same_bytes_append:
  "length a = length b \<Longrightarrow> same_bytes ci (a @ as) (b @ bs) \<longleftrightarrow> same_bytes ci a b \<and> same_bytes ci as bs"
  by (auto simp: same_bytes_def eq_ignore_ascii_case_def)

lemma same_bytes_follow: "same_bytes ci [a] [b] \<Longrightarrow> utf8_follow a = utf8_follow b \<and> utf8_tail a = utf8_tail b"
  using ascii_lower_follow ascii_lower_tail
  by (metis eq_ignore_ascii_case_def list.inject list.simps(9) same_bytes_def)

lemma element_passes_char: "element_passes ci (Character x) c \<longleftrightarrow> same_bytes ci c x"
  by (auto simp: element_passes_def same_bytes_def eq_ignore_ascii_case_def)

text \<open>A literal matches at a character boundary as bytes exactly when its characters match.\<close>

lemma literal_matches_Cons:
  assumes c: "is_char c" and d: "is_char d"
  shows "length (d @ y) \<le> length (c @ x) \<and> same_bytes ci (take (length (d @ y)) (c @ x)) (d @ y)
    \<longleftrightarrow> same_bytes ci c d \<and> length y \<le> length x \<and> same_bytes ci (take (length y) x) y"
proof -
  obtain a as low high where c: "c = a # as" "utf8_follow a = Some (length as, low, high)"
    using c by (rule is_charE)
  obtain b bs low' high' where d: "d = b # bs" "utf8_follow b = Some (length bs, low', high')"
    using d by (rule is_charE)
  show ?thesis
  proof (cases "same_bytes ci [a] [b]")
    case True
    then have len: "length c = length d" using same_bytes_follow [OF True] c d by simp
    then have "take (length (d @ y)) (c @ x) = c @ take (length y) x" by simp
    then show ?thesis using len by (auto simp: same_bytes_append [OF len])
  next
    case False
    then have "\<not> same_bytes ci (a # u) (b # v)" for u v using same_bytes_Cons by blast
    then show ?thesis by (simp add: c d)
  qed
qed

lemma literal_matches:
  assumes "list_all is_char cs" "list_all is_char ds"
  shows "length (concat ds) \<le> length (concat cs) \<and> same_bytes ci (take (length (concat ds)) (concat cs)) (concat ds)
    \<longleftrightarrow> seg_ok ci (map Character ds) cs"
  using assms
proof (induction ds arbitrary: cs)
  case Nil
  then show ?case by (simp add: seg_ok_def)
next
  case (Cons d ds)
  show ?case
  proof (cases cs)
    case Nil
    then show ?thesis using Cons.prems by (auto simp: seg_ok_def elim!: is_charE)
  next
    case (Cons c cs')
    with Cons.prems have c: "is_char c" "is_char d" "list_all is_char cs'" "list_all is_char ds" by auto
    from literal_matches_Cons [OF c(1,2), of "concat ds" "concat cs'" ci] Cons.IH [OF c(3,4)]
    show ?thesis by (auto simp: Cons seg_ok_def element_passes_char)
  qed
qed

text \<open>A byte within a character follows its leading byte, so a character can only begin at a boundary.\<close>

lemma boundary_of_not_tail:
  assumes "list_all is_char cs" "i < length (concat cs)" "\<not> utf8_tail (concat cs ! i)"
  shows "\<exists>k < length cs. i = length (concat (take k cs))"
  using assms
proof (induction cs arbitrary: i)
  case (Cons c cs)
  show ?case
  proof (cases "i < length c")
    case True
    obtain a bs where c: "c = a # bs" "list_all utf8_tail bs" using Cons.prems by (auto elim: is_charE)
    with True Cons.prems have "i = 0" by (cases i) (auto simp: nth_append list_all_length)
    then show ?thesis by (auto intro: exI [of _ 0])
  next
    case False
    with Cons.prems have "i - length c < length (concat cs)" "\<not> utf8_tail (concat cs ! (i - length c))"
      by (auto simp: nth_append)
    with Cons.prems Cons.IH [of "i - length c"] obtain k where
      "k < length cs" "i - length c = length (concat (take k cs))"
      by auto
    with False show ?thesis by (intro exI [of _ "Suc k"]) auto
  qed
qed simp

lemma boundary_head:
  assumes "list_all is_char cs" "cs \<noteq> []" shows "\<not> utf8_tail (concat cs ! 0)" "concat cs \<noteq> []"
  using assms follow_not_tail by (auto simp: neq_Nil_conv elim!: is_charE)

lemma str_from_boundary:
  assumes "list_all is_char rest"
  shows "str_from (pre @ concat rest) (length pre) = Inr (concat rest)"
proof (cases "rest = []")
  case False
  with boundary_head [OF assms False] show ?thesis by (auto simp: str_from_def nth_append)
qed (simp add: str_from_def)

section \<open>Searching for a literal\<close>

lemma position_Nil: "position p [] = None"
  by (simp add: position_def)

lemma position_Cons: "position p (x # xs) = (if p x then Some 0 else map_option Suc (position p xs))"
  by (simp add: position_def Let_def)

lemma position_found:
  "position p xs = Some i \<longleftrightarrow> i < length xs \<and> p (xs ! i) \<and> (\<forall>j < i. \<not> p (xs ! j))"
proof (induction xs arbitrary: i)
  case (Cons x xs)
  then show ?case by (cases i) (auto simp: position_Cons nth_Cons less_Suc_eq_0_disj split: nat.splits)
qed (simp add: position_Nil)

lemma position_absent: "position p xs = None \<longleftrightarrow> (\<forall>x \<in> set xs. \<not> p x)"
  by (induction xs) (auto simp: position_Nil position_Cons)

definition literal_at :: "bool \<Rightarrow> bytes \<Rightarrow> str \<Rightarrow> nat \<Rightarrow> bool" where
  "literal_at ci bs literal i \<longleftrightarrow>
    i + length literal \<le> length bs \<and> same_bytes ci (slice bs i (length literal)) literal"

lemma literal_at_Cons:
  "literal_at ci bs (b # bs') i \<longleftrightarrow>
    i + length bs' < length bs \<and> same_bytes ci [bs ! i] [b] \<and> same_bytes ci (slice bs (i + 1) (length bs')) bs'"
proof (cases "i < length bs")
  case True
  then have "slice bs i (Suc n) = bs ! i # slice bs (i + 1) n" for n
    by (simp add: slice_def Cons_nth_drop_Suc [symmetric])
  then show ?thesis using same_bytes_Cons [of ci "bs ! i" _ b bs'] by (auto simp: literal_at_def)
qed (auto simp: literal_at_def)

text \<open>The result of a search: the first position where the literal is.\<close>

definition first_at :: "(nat \<Rightarrow> bool) \<Rightarrow> nat \<Rightarrow> nat option \<Rightarrow> bool" where
  "first_at p start r \<longleftrightarrow>
    (case r of
       None \<Rightarrow> (\<forall>i \<ge> start. \<not> p i)
     | Some i \<Rightarrow> start \<le> i \<and> p i \<and> (\<forall>j. start \<le> j \<and> j < i \<longrightarrow> \<not> p j))"

lemma first_at_unique: "first_at p start r \<Longrightarrow> first_at p start r' \<Longrightarrow> r = r'"
  by (auto simp: first_at_def split: option.splits) (metis linorder_less_linear)

lemma first_at_later:
  assumes "\<And>j. start \<le> j \<Longrightarrow> j < m \<Longrightarrow> \<not> p j" "start \<le> m" "first_at p m r"
  shows "first_at p start r"
proof -
  have "\<not> p j" if "start \<le> j" "m \<le> j \<Longrightarrow> \<not> p j" for j
    using assms(1) [of j] that by (cases "m \<le> j") auto
  with assms(2,3) show ?thesis by (auto simp: first_at_def split: option.splits)
qed

lemma find_literal_loop_first:
  assumes "length bs = last_start + length (b # bs')"
  shows "first_at (literal_at ci bs (b # bs')) start (find_literal_loop ci bs b bs' last_start start)"
  using assms
proof (induction ci bs b bs' last_start start rule: find_literal_loop.induct)
  case (1 ci bs b bs' last_start start)
  let ?p = "\<lambda>x. if ci then ascii_lower x = ascii_lower b else x = b"
  let ?window = "slice bs start (last_start + 1 - start)"
  let ?at = "literal_at ci bs (b # bs')"
  have p: "?p x \<longleftrightarrow> same_bytes ci [x] [b]" for x
    by (auto simp: same_bytes_def eq_ignore_ascii_case_def)
  have late: "\<not> ?at i" if "last_start < i" for i
    using that 1(2) by (auto simp: literal_at_def)
  show ?case
  proof (cases "last_start < start")
    case True
    with late show ?thesis by (subst find_literal_loop.simps) (auto simp: first_at_def)
  next
    case False
    have win: "length ?window = last_start + 1 - start" "j < last_start + 1 - start \<Longrightarrow> ?window ! j = bs ! (start + j)" for j
      using False 1(2) by (auto simp: slice_def)
    have skip: "\<not> ?at (start + j)" if "j < last_start + 1 - start" "\<not> ?p (?window ! j)" for j
      using that win p by (auto simp: literal_at_Cons)
    show ?thesis
    proof (cases "position ?p ?window")
      case None
      then have "\<not> ?at i" if "start \<le> i" for i
      proof (cases "i \<le> last_start")
        case True
        then have j: "i - start < last_start + 1 - start" using that by simp
        then have "?window ! (i - start) \<in> set ?window" using win(1) by (intro nth_mem) simp
        with None have "\<not> ?p (?window ! (i - start))" unfolding position_absent by blast
        with skip [OF j] that show ?thesis by simp
      next
        case False
        with late show ?thesis by simp
      qed
      then show ?thesis using None False by (subst find_literal_loop.simps) (simp add: first_at_def)
    next
      case (Some offset)
      then have o: "offset < last_start + 1 - start" "?p (?window ! offset)" "\<forall>j < offset. \<not> ?p (?window ! j)"
        using win by (auto simp: position_found)
      have before: "\<not> ?at j" if "start \<le> j" "j < start + offset" for j
        using skip [of "j - start"] o that by auto
      let ?c = "slice bs (start + offset + 1) (length bs')"
      have test: "?c = bs' \<or> (ci \<and> eq_ignore_ascii_case ?c bs') \<longleftrightarrow> same_bytes ci ?c bs'"
        by (auto simp: same_bytes_def eq_ignore_ascii_case_def)
      have at: "?at (start + offset) \<longleftrightarrow> same_bytes ci ?c bs'"
        using o win p 1(2) by (auto simp: literal_at_Cons)
      show ?thesis
      proof (cases "?at (start + offset)")
        case True
        with at test Some False before show ?thesis
          by (subst find_literal_loop.simps) (auto simp: first_at_def Let_def)
      next
        case no: False
        have "find_literal_loop ci bs b bs' last_start start
            = find_literal_loop ci bs b bs' last_start (start + offset + 1)"
          using no at test Some False by (subst find_literal_loop.simps) (auto simp: Let_def)
        moreover have "first_at ?at (start + offset + 1) (find_literal_loop ci bs b bs' last_start (start + offset + 1))"
          using 1(1) [OF False Some refl refl] no at test 1(2) by simp
        moreover have "\<not> ?at j" if "start \<le> j" "j < start + offset + 1" for j
          using before [of j] no that by (cases "j = start + offset") auto
        ultimately show ?thesis using first_at_later [of start "start + offset + 1" ?at] by simp
      qed
    qed
  qed
qed

lemma find_literal_first:
  assumes "literal \<noteq> []" shows "first_at (literal_at ci bs literal) 0 (find_literal bs literal ci)"
proof (cases "length bs < length literal")
  case True
  with assms show ?thesis by (auto simp: find_literal_def first_at_def literal_at_def neq_Nil_conv)
next
  case False
  with assms find_literal_loop_first [of bs "length bs - length literal" "hd literal" "tl literal" ci 0]
  show ?thesis by (auto simp: find_literal_def neq_Nil_conv)
qed

end
