(* ===== verification/LikeMatch.thy ===== *)
theory LikeMatch
  imports LikeProofs
begin

text \<open>The byte-level matching of \<^verbatim>\<open>LikePattern\<close> does what matching over characters does.\<close>

section \<open>Segments at character boundaries\<close>

lemma literal_at_append:
  "literal_at ci (pre @ rest) literal (length pre) \<longleftrightarrow>
    length literal \<le> length rest \<and> same_bytes ci (take (length literal) rest) literal"
  by (simp add: literal_at_def slice_def)

lemma literal_at_boundary:
  assumes "list_all is_char cs" "list_all is_char ds" "ds \<noteq> []"
  shows "literal_at ci (concat cs) (concat ds) i \<longleftrightarrow>
    (\<exists>k \<le> length cs. i = length (concat (take k cs)) \<and> seg_ok ci (map Character ds) (drop k cs))"
proof -
  have at: "literal_at ci (concat cs) (concat ds) (length (concat (take k cs)))
      \<longleftrightarrow> seg_ok ci (map Character ds) (drop k cs)" for k
  proof -
    have "concat cs = concat (take k cs) @ concat (drop k cs)" by (simp flip: concat_append)
    moreover have "list_all is_char (drop k cs)" using assms(1) by (auto simp: list_all_iff dest: in_set_dropD)
    ultimately show ?thesis
      using literal_matches [OF _ assms(2), of "drop k cs" ci]
        literal_at_append [of ci "concat (take k cs)" "concat (drop k cs)" "concat ds"] by simp
  qed
  obtain b bs where d: "concat ds = b # bs" "\<not> utf8_tail b"
    using boundary_head [OF assms(2,3)] by (cases "concat ds") auto
  have "\<exists>k < length cs. i = length (concat (take k cs))" if "literal_at ci (concat cs) (concat ds) i"
  proof (rule boundary_of_not_tail [OF assms(1)])
    from that show "i < length (concat cs)" by (auto simp: d literal_at_def)
    from that have "same_bytes ci [concat cs ! i] [b]" by (simp add: d literal_at_Cons)
    with d show "\<not> utf8_tail (concat cs ! i)" using same_bytes_follow by blast
  qed
  with at show ?thesis by (metis less_imp_le_nat)
qed

lemma seg_ok_literal_length:
  assumes "seg_ok ci (map Character ds) cs" shows "length (concat (take (length ds) cs)) = length (concat ds)"
  using assms
proof (induction ds arbitrary: cs)
  case (Cons d ds)
  then obtain c cs' where "cs = c # cs'" "same_bytes ci c d" "seg_ok ci (map Character ds) cs'"
    by (cases cs) (auto simp: seg_ok_def element_passes_char)
  with Cons.IH [of cs'] same_bytes_length [of ci c d] show ?case by simp
qed simp

lemma offset_less:
  assumes "list_all is_char cs" "j < k" "k \<le> length cs"
  shows "length (concat (take j cs)) < length (concat (take k cs))"
proof -
  have "take k cs = take j cs @ cs ! j # drop (Suc j) (take k cs)"
    using assms id_take_nth_drop [of j "take k cs"] by simp
  moreover have "cs ! j \<noteq> []" using assms by (metis is_char_not_Nil list_all_length order_less_le_trans)
  ultimately show ?thesis by (metis concat.simps(2) concat_append length_append less_add_same_cancel1 length_greater_0_conv add_gr_0)
qed

lemma leftmost_least:
  "(case leftmost ci s cs of
      None \<Rightarrow> \<forall>k. \<not> seg_ok ci s (drop k cs)
    | Some r \<Rightarrow> \<exists>k \<le> length cs. seg_ok ci s (drop k cs) \<and> (\<forall>j < k. \<not> seg_ok ci s (drop j cs)) \<and>
        r = drop (length s) (drop k cs))"
proof (induction cs)
  case Nil
  then show ?case by simp
next
  case (Cons c cs)
  show ?case
  proof (cases "seg_ok ci s (c # cs)")
    case True
    then show ?thesis by (auto intro: exI [of _ 0])
  next
    case no: False
    show ?thesis
    proof (cases "leftmost ci s cs")
      case None
      with no Cons have "\<not> seg_ok ci s (drop k (c # cs))" for k by (cases k) auto
      with no None show ?thesis by simp
    next
      case (Some r)
      with Cons obtain k where k: "k \<le> length cs" "seg_ok ci s (drop k cs)" "\<forall>j < k. \<not> seg_ok ci s (drop j cs)"
        "r = drop (length s) (drop k cs)" by auto
      have "\<not> seg_ok ci s (drop j (c # cs))" if "j < Suc k" for j using that no k(3) by (cases j) auto
      with no Some k show ?thesis by (auto intro!: exI [of _ "Suc k"])
    qed
  qed
qed

text \<open>Where the bytes of the characters still to match begin.\<close>

definition cursor_of :: "str list \<Rightarrow> str list \<Rightarrow> nat" where
  "cursor_of cs r = length (concat cs) - length (concat r)"

lemma cursor_of_Nil [simp]: "cursor_of cs [] = length (concat cs)"
  by (simp add: cursor_of_def)

lemma cursor_of_drop: "cursor_of cs (drop k cs) = length (concat (take k cs))"
proof -
  have "concat cs = concat (take k cs) @ concat (drop k cs)" by (simp flip: concat_append)
  then show ?thesis by (metis add_diff_cancel_right' cursor_of_def length_append)
qed

lemma find_literal_leftmost:
  assumes "list_all is_char cs" "list_all is_char ds" "ds \<noteq> []"
  shows "map_option (\<lambda>offset. offset + length (concat ds)) (find_literal (concat cs) (concat ds) ci)
    = map_option (cursor_of cs) (leftmost ci (map Character ds) cs)"
proof -
  let ?s = "map Character ds" and ?f = "\<lambda>k. length (concat (take k cs))"
  have "concat ds \<noteq> []" using boundary_head [OF assms(2,3)] by simp
  note first = find_literal_first [OF this, of ci "concat cs"]
  note at = literal_at_boundary [OF assms, of ci]
  show ?thesis
  proof (cases "leftmost ci ?s cs")
    case None
    then have "\<not> literal_at ci (concat cs) (concat ds) i" for i using leftmost_least [of ci ?s cs] at by simp
    then have "first_at (literal_at ci (concat cs) (concat ds)) 0 None" by (simp add: first_at_def)
    from first_at_unique [OF first this] None show ?thesis by simp
  next
    case (Some r)
    with leftmost_least [of ci ?s cs] obtain k where k: "k \<le> length cs" "seg_ok ci ?s (drop k cs)"
      "\<forall>j < k. \<not> seg_ok ci ?s (drop j cs)" "r = drop (length ds) (drop k cs)" by auto
    have "\<not> literal_at ci (concat cs) (concat ds) i" if "i < ?f k" for i
    proof
      assume "literal_at ci (concat cs) (concat ds) i"
      then obtain j where j: "j \<le> length cs" "i = ?f j" "seg_ok ci ?s (drop j cs)" by (auto simp: at)
      with k(3) have "k \<le> j" by (metis not_le)
      with offset_less [OF assms(1) _ j(1), of k] j(2) that show False by (cases "k = j") auto
    qed
    then have "first_at (literal_at ci (concat cs) (concat ds)) 0 (Some (?f k))"
      using k at by (auto simp: first_at_def)
    from first_at_unique [OF first this] have "find_literal (concat cs) (concat ds) ci = Some (?f k)" .
    moreover have "?f k + length (concat ds) = cursor_of cs r"
      using seg_ok_literal_length [OF k(2)] take_add [of k "length ds" cs]
      by (simp add: k(4) cursor_of_drop add.commute [of _ k])
    ultimately show ?thesis by (simp add: Some)
  qed
qed

section \<open>Patterns\<close>

fun element_wf :: "like_element \<Rightarrow> bool" where
  "element_wf AnyCharacter = True"
| "element_wf (Character c) = is_char c"

definition pattern_wf :: "like_pattern \<Rightarrow> bool" where
  "pattern_wf p \<longleftrightarrow> lp_segments p \<noteq> [] \<and> lp_literals p = map segment_literal (lp_segments p)
    \<and> list_all (list_all element_wf) (lp_segments p)"

lemma push_last_wf:
  "list_all (list_all element_wf) ss \<Longrightarrow> ss \<noteq> [] \<Longrightarrow> element_wf x \<Longrightarrow> list_all (list_all element_wf) (push_last ss x)"
  by (auto simp: push_last_def list_all_iff dest: in_set_butlastD last_in_set)

lemma like_loop_wf:
  "list_all (list_all element_wf) ss \<Longrightarrow> ss \<noteq> [] \<Longrightarrow> list_all is_char cs \<Longrightarrow>
    list_all (list_all element_wf) (like_loop escape cs ss)"
proof (induction escape cs ss rule: like_loop.induct)
  case (2 escape c cs ss)
  have "push_last ss x \<noteq> []" for x by (simp add: push_last_def)
  with 2 show ?case by (auto simp: push_last_wf split: list.split)
qed simp

lemma like_pattern_new_wf:
  assumes "utf8 pattern'" shows "pattern_wf (like_pattern_new pattern' escape ci)"
  using chars_utf8 [OF assms] like_loop_wf [of "[[]]" "chars pattern'" escape]
    like_loop_tokens [of "[[]]" escape "chars pattern'"]
  by (simp add: pattern_wf_def like_pattern_new_def Let_def)

lemma segment_literal_Some:
  assumes "segment_literal s = Some literal"
  obtains ds where "s = map Character ds" "literal = concat ds"
proof -
  have "\<exists>ds. s = map Character ds \<and> literal = concat ds"
    using assms by (induction s arbitrary: literal rule: segment_literal.induct) (auto, metis concat.simps(2) list.map(2))
  with that show ?thesis by blast
qed

lemma segment_literal_chars: "list_all element_wf (map Character ds) \<longleftrightarrow> list_all is_char ds"
  by (simp add: list_all_iff)

lemma elements_end_eq:
  "elements_end ci es cs e = (if seg_ok ci es cs then Some (e + length (concat (take (length es) cs))) else None)"
  by (induction ci es cs e rule: elements_end.induct) (auto simp: seg_ok_def)

lemma matches_at_eq:
  assumes "pattern_wf p" "index < length (lp_segments p)" "list_all is_char rest"
  shows "matches_at p (pre @ concat rest) (length pre) index =
    Inr (if seg_ok (lp_case_insensitive p) (lp_segments p ! index) rest
         then Some (length pre + length (concat (take (length (lp_segments p ! index)) rest))) else None)"
proof (cases "segment_literal (lp_segments p ! index)")
  case None
  then show ?thesis
    using assms by (simp add: matches_at_def pattern_wf_def str_from_boundary chars_concat elements_end_eq)
next
  case (Some literal)
  then obtain ds where ds: "lp_segments p ! index = map Character ds" "literal = concat ds"
    by (rule segment_literal_Some)
  have "list_all is_char ds"
    using assms(1,2) by (auto simp: pattern_wf_def list_all_length ds simp flip: segment_literal_chars)
  note lit = literal_matches [OF assms(3) this, of "lp_case_insensitive p"]
  show ?thesis
    using assms lit Some seg_ok_literal_length [of "lp_case_insensitive p" ds rest]
    by (auto simp: matches_at_def pattern_wf_def ds slice_def Let_def)
qed

lemma leftmost_suffix: "leftmost ci s cs = Some r \<Longrightarrow> \<exists>k. r = drop k cs"
  using leftmost_sound by (metis drop_drop)

text \<open>A position in the text: the characters \<open>rest\<close> are the ones after \<open>pre\<close>.\<close>

lemma first_match_eq:
  assumes "pattern_wf p" "index < length (lp_segments p)" "list_all is_char rest" "lp_segments p ! index \<noteq> []"
  shows "first_match p (pre @ concat rest) index (char_offsets (length pre) rest) =
    Inr (map_option (\<lambda>r. length pre + cursor_of rest r)
      (leftmost (lp_case_insensitive p) (lp_segments p ! index) rest))"
  using assms(3)
proof (induction rest arbitrary: pre)
  case Nil
  then show ?case using assms(4) by simp
next
  case (Cons c rest)
  note at = matches_at_eq [OF assms(1,2) Cons.prems, of pre]
  have ih: "first_match p ((pre @ c) @ concat rest) index (char_offsets (length (pre @ c)) rest) =
    Inr (map_option (\<lambda>r. length (pre @ c) + cursor_of rest r)
      (leftmost (lp_case_insensitive p) (lp_segments p ! index) rest))"
    using Cons.prems by (intro Cons.IH) simp
  have step: "length c + cursor_of rest r = cursor_of (c # rest) r"
    if "leftmost (lp_case_insensitive p) (lp_segments p ! index) rest = Some r" for r
  proof -
    from leftmost_suffix [OF that] obtain k where "r = drop k rest" by blast
    then have "cursor_of (c # rest) r = length (concat (take (Suc k) (c # rest)))"
      "cursor_of rest r = length (concat (take k rest))"
      using cursor_of_drop [of "c # rest" "Suc k"] cursor_of_drop [of rest k] by simp_all
    then show ?thesis by simp
  qed
  have now: "cursor_of (c # rest) (drop n (c # rest)) = length (concat (take n (c # rest)))" for n
    by (rule cursor_of_drop)
  show ?case
    using at ih step now [of "length (lp_segments p ! index)"]
    by (cases "leftmost (lp_case_insensitive p) (lp_segments p ! index) rest") (auto simp: add.assoc)
qed

lemma cursor_of_later:
  assumes "rest = drop k cs" "r = drop j rest"
  shows "cursor_of cs rest + cursor_of rest r = cursor_of cs r"
  using cursor_of_drop [of cs k] cursor_of_drop [of rest j] cursor_of_drop [of cs "j + k"] take_add [of k j cs]
  by (simp add: assms add.commute [of j])

lemma match_middle_eq:
  assumes "pattern_wf p" "list_all is_char cs" "\<forall>i \<in> set indexes. i < length (lp_segments p)"
  shows "match_middle p (concat cs) indexes (cursor_of cs (drop k cs)) =
    Inr (map_option (cursor_of cs) (greedy (lp_case_insensitive p) (map (\<lambda>i. lp_segments p ! i) indexes) (drop k cs)))"
  using assms(3)
proof (induction indexes arbitrary: k)
  case (Cons i indexes)
  let ?ci = "lp_case_insensitive p" and ?s = "lp_segments p ! i" and ?rest = "drop k cs"
  have chars: "list_all is_char ?rest" using assms(2) by (auto simp: list_all_iff dest: in_set_dropD)
  have split: "concat cs = concat (take k cs) @ concat ?rest" by (simp flip: concat_append)
  have len: "length (concat (take k cs)) = cursor_of cs ?rest" by (rule cursor_of_drop [symmetric])
  let ?found = "map_option (cursor_of cs) (leftmost ?ci ?s ?rest)"
  have moved: "map_option (\<lambda>r. cursor_of cs ?rest + cursor_of ?rest r) (leftmost ?ci ?s ?rest) = ?found"
    using cursor_of_later [of ?rest k cs] leftmost_suffix by (cases "leftmost ?ci ?s ?rest") fastforce+
  have cont: "match_middle p (concat cs) indexes (cursor_of cs r) =
      Inr (map_option (cursor_of cs) (greedy ?ci (map (\<lambda>i. lp_segments p ! i) indexes) r))"
    if "leftmost ?ci ?s ?rest = Some r" for r
    using Cons leftmost_suffix [OF that] by (metis drop_drop list.set_intros(2))
  show ?case
  proof (cases "?s = []")
    case True
    then have "leftmost ?ci ?s ?rest = Some ?rest" by (subst leftmost_step) (simp add: seg_ok_def)
    with True cont show ?thesis by simp
  next
    case False
    have "(case lp_literals p ! i of
          Some literal \<Rightarrow>
            Inr (map_option (\<lambda>offset. cursor_of cs ?rest + offset + length literal)
              (find_literal (drop (cursor_of cs ?rest) (concat cs)) literal ?ci))
        | None \<Rightarrow>
            and_then (str_from (concat cs) (cursor_of cs ?rest)) (\<lambda>rest.
              first_match p (concat cs) i (char_offsets (cursor_of cs ?rest) (chars rest)))) = Inr ?found"
    proof (cases "segment_literal ?s")
      case None
      then show ?thesis
        using first_match_eq [OF assms(1) _ chars False, of "concat (take k cs)"] Cons.prems assms(1) moved
          str_from_boundary [OF chars, of "concat (take k cs)"]
        by (simp add: pattern_wf_def chars_concat [OF chars] len flip: split)
    next
      case (Some literal)
      then obtain ds where ds: "?s = map Character ds" "literal = concat ds" by (rule segment_literal_Some)
      have d: "list_all is_char ds" "ds \<noteq> []"
        using assms(1) Cons.prems False by (auto simp: pattern_wf_def list_all_length ds simp flip: segment_literal_chars)
      have rest: "drop (cursor_of cs ?rest) (concat cs) = concat ?rest"
        by (subst split) (simp flip: len)
      have "map_option (\<lambda>offset. cursor_of cs ?rest + offset + length literal) (find_literal (concat ?rest) literal ?ci)
          = map_option (\<lambda>n. cursor_of cs ?rest + n)
              (map_option (\<lambda>offset. offset + length literal) (find_literal (concat ?rest) literal ?ci))"
        by (simp add: option.map_comp comp_def add.assoc)
      with find_literal_leftmost [OF chars d, of ?ci] moved Some Cons.prems assms(1) rest show ?thesis
        by (simp add: pattern_wf_def ds option.map_comp comp_def)
    qed
    with False cont show ?thesis by (cases "leftmost ?ci ?s ?rest") simp_all
  qed
qed simp

section \<open>The last segment\<close>

lemma ends_ok_seg_ok:
  "ends_ok ci s r \<longleftrightarrow> length s \<le> length r \<and> seg_ok ci s (drop (length r - length s) r)"
  by (auto simp: ends_ok_def seg_ok_def)

lemma concat_chars_Nil: "list_all is_char cs \<Longrightarrow> concat cs = [] \<longleftrightarrow> cs = []"
  using boundary_head(2) by fastforce

lemma ends_ok_literal:
  assumes r: "list_all is_char r" and ds: "list_all is_char ds"
  shows "length (concat ds) \<le> length (concat r)
      \<and> same_bytes ci (drop (length (concat r) - length (concat ds)) (concat r)) (concat ds)
    \<longleftrightarrow> ends_ok ci (map Character ds) r"
proof (cases "ds = []")
  case True
  then show ?thesis by (simp add: ends_ok_def)
next
  case False
  let ?i = "length (concat r) - length (concat ds)" and ?s = "map Character ds"
  have total: "length (concat r) = length (concat (take k r)) + length (concat (drop k r))" for k
    by (metis append_take_drop_id concat_append length_append)
  have "length (concat ds) \<le> length (concat r) \<and> same_bytes ci (drop ?i (concat r)) (concat ds)
      \<longleftrightarrow> length (concat ds) \<le> length (concat r) \<and> literal_at ci (concat r) (concat ds) ?i"
    by (auto simp: literal_at_def slice_def)
  also have "\<dots> \<longleftrightarrow> ends_ok ci ?s r"
  proof
    assume "length (concat ds) \<le> length (concat r) \<and> literal_at ci (concat r) (concat ds) ?i"
    then obtain k where k: "length (concat ds) \<le> length (concat r)" "k \<le> length r"
      "?i = length (concat (take k r))" "seg_ok ci ?s (drop k r)"
      by (auto simp: literal_at_boundary [OF r ds False])
    let ?d = "drop k r"
    have "length (concat ?d) = length (concat ds)" using total [of k] k by simp
    moreover have "length (concat ?d) = length (concat (take (length ds) ?d)) + length (concat (drop (length ds) ?d))"
      by (metis append_take_drop_id concat_append length_append)
    ultimately have "concat (drop (length ds) ?d) = []" using seg_ok_literal_length [OF k(4)] by simp
    moreover have "list_all is_char (drop (length ds) ?d)" using r by (auto simp: list_all_iff dest: in_set_dropD)
    ultimately have "drop (length ds) ?d = []" using concat_chars_Nil by blast
    moreover have "length ds \<le> length ?d" using k(4) by (simp add: seg_ok_def)
    ultimately have "k = length r - length ds" "length ds \<le> length r" using k(2) by auto
    with k show "ends_ok ci ?s r" by (simp add: ends_ok_seg_ok)
  next
    assume "ends_ok ci ?s r"
    then have e: "length ds \<le> length r" "seg_ok ci ?s (drop (length r - length ds) r)"
      by (simp_all add: ends_ok_seg_ok)
    from total [of "length r - length ds"] seg_ok_literal_length [OF e(2)] e(1)
    have "length (concat ds) \<le> length (concat r)" "?i = length (concat (take (length r - length ds) r))" by simp_all
    with e show "length (concat ds) \<le> length (concat r) \<and> literal_at ci (concat r) (concat ds) ?i"
      by (auto simp: literal_at_boundary [OF r ds False] intro!: exI [of _ "length r - length ds"])
  qed
  finally show ?thesis .
qed

lemma char_offsets_nth: "i < length cs \<Longrightarrow> char_offsets n cs ! i = n + length (concat (take i cs))"
proof (induction cs arbitrary: n i)
  case (Cons c cs)
  then show ?case by (cases i) auto
qed simp

lemma length_char_offsets [simp]: "length (char_offsets n cs) = length cs"
  by (induction cs arbitrary: n) auto

lemma offset_le:
  assumes "list_all is_char cs" "j \<le> length cs" "k \<le> length cs"
  shows "length (concat (take j cs)) \<le> length (concat (take k cs)) \<longleftrightarrow> j \<le> k"
  using offset_less [OF assms(1), of j k] offset_less [OF assms(1), of k j] assms(2,3)
  by (metis le_less_linear less_imp_le_nat not_less order_le_less)

lemma literal_tail:
  assumes "list_all is_char cs" "list_all is_char ds"
  shows "length (concat ds) \<le> length (concat cs) \<and> cursor_of cs (drop m cs) \<le> length (concat cs) - length (concat ds)
      \<and> same_bytes ci (drop (length (concat cs) - length (concat ds)) (concat cs)) (concat ds)
    \<longleftrightarrow> ends_ok ci (map Character ds) (drop m cs)"
proof -
  let ?T = "concat cs" and ?R = "concat (drop m cs)" and ?D = "concat ds"
  have T: "?T = concat (take m cs) @ ?R" by (simp flip: concat_append)
  have "list_all is_char (drop m cs)" using assms(1) by (auto simp: list_all_iff dest: in_set_dropD)
  note lit = ends_ok_literal [OF this assms(2), of ci]
  have len: "length ?T = length (concat (take m cs)) + length ?R" by (subst T) simp
  show ?thesis
  proof (cases "length ?D \<le> length ?R")
    case True
    then have start: "length ?T - length ?D = length (concat (take m cs)) + (length ?R - length ?D)"
      using len by simp
    have "drop (length ?T - length ?D) ?T = drop (length ?R - length ?D) ?R"
      unfolding start by (subst T) simp
    moreover have "length ?D \<le> length ?T" "cursor_of cs (drop m cs) \<le> length ?T - length ?D"
      using True len by (simp_all add: cursor_of_drop)
    ultimately show ?thesis using lit True by metis
  next
    case False
    then have "\<not> (length ?D \<le> length ?T \<and> cursor_of cs (drop m cs) \<le> length ?T - length ?D)"
      using len unfolding cursor_of_drop by linarith
    with lit False show ?thesis by metis
  qed
qed

lemma last_segment_eq:
  assumes wf: "pattern_wf p" and i: "i < length (lp_segments p)" and cs: "list_all is_char cs" and m: "m \<le> length cs"
  shows "(case last_segment_start p (concat cs) i of
       None \<Rightarrow> Inr False
     | Some start \<Rightarrow>
         if cursor_of cs (drop m cs) \<le> start
         then and_then (matches_at p (concat cs) start i) (\<lambda>end'. Inr (end' = Some (length (concat cs))))
         else Inr False) = Inr (ends_ok (lp_case_insensitive p) (lp_segments p ! i) (drop m cs))"
proof (cases "segment_literal (lp_segments p ! i)")
  case (Some literal)
  then obtain ds where ds: "lp_segments p ! i = map Character ds" "literal = concat ds" by (rule segment_literal_Some)
  have "list_all is_char ds"
    using wf i by (auto simp: pattern_wf_def list_all_length ds simp flip: segment_literal_chars)
  from literal_tail [OF cs this, of m "lp_case_insensitive p"] show ?thesis
    using Some wf i by (auto simp: last_segment_start_def matches_at_def pattern_wf_def ds slice_def Let_def)
next
  case None
  let ?s = "lp_segments p ! i" and ?n = "length cs - length (lp_segments p ! i)"
  have lit: "lp_literals p ! i = None" using None wf i by (simp add: pattern_wf_def)
  have "?s \<noteq> []" using None by auto
  show ?thesis
  proof (cases "length ?s \<le> length cs")
    case False
    then show ?thesis using lit \<open>?s \<noteq> []\<close>
      by (auto simp: last_segment_start_def chars_concat [OF cs] ends_ok_def Let_def)
  next
    case True
    let ?start = "length (concat (take ?n cs))"
    have start: "last_segment_start p (concat cs) i = Some ?start"
    proof -
      have "length ?s - 1 < length cs" "length cs - Suc (length ?s - 1) = ?n" "?n < length cs"
        using True \<open>?s \<noteq> []\<close> by (cases ?s; simp)+
      then show ?thesis
        using lit by (simp add: last_segment_start_def chars_concat [OF cs] rev_nth char_offsets_nth Let_def)
    qed
    have T: "concat cs = concat (take ?n cs) @ concat (drop ?n cs)" by (simp flip: concat_append)
    have d: "list_all is_char (drop ?n cs)" using cs by (auto simp: list_all_iff dest: in_set_dropD)
    have at: "matches_at p (concat cs) ?start i =
        Inr (if seg_ok (lp_case_insensitive p) ?s (drop ?n cs) then Some (length (concat cs)) else None)"
      using matches_at_eq [OF wf i d, of "concat (take ?n cs)"] True
      by (subst (1) T) (simp add: T [THEN arg_cong [where f = length], simplified])
    have "cursor_of cs (drop m cs) \<le> ?start \<longleftrightarrow> length ?s \<le> length (drop m cs)"
      using offset_le [OF cs m, of ?n] True m by (auto simp: cursor_of_drop)
    moreover have "length ?s \<le> length (drop m cs) \<Longrightarrow> drop (length (drop m cs) - length ?s) (drop m cs) = drop ?n cs"
      using m by simp
    ultimately show ?thesis by (auto simp: start at ends_ok_seg_ok)
  qed
qed

section \<open>Whole patterns\<close>

lemma literal_Nil_iff:
  assumes "pattern_wf p" "i < length (lp_segments p)" "lp_literals p ! i = Some literal"
  shows "lp_segments p ! i = [] \<longleftrightarrow> literal = []"
proof -
  from assms have "segment_literal (lp_segments p ! i) = Some literal" by (simp add: pattern_wf_def)
  then obtain ds where ds: "lp_segments p ! i = map Character ds" "literal = concat ds" by (rule segment_literal_Some)
  have "list_all is_char ds"
    using assms by (auto simp: pattern_wf_def list_all_length ds simp flip: segment_literal_chars)
  with ds concat_chars_Nil show ?thesis by auto
qed

lemma find_literals_eq:
  assumes "pattern_wf p" "\<not> list_ex (\<lambda>literal. literal = None) (lp_literals p)"
    "\<forall>i \<in> set indexes. i < length (lp_segments p)"
  shows "match_middle p bs indexes cursor =
    Inr (find_literals (lp_case_insensitive p) bs (map (\<lambda>i. map the (lp_literals p) ! i) indexes) cursor)"
  using assms(3)
proof (induction indexes arbitrary: cursor)
  case (Cons i indexes)
  have len: "length (lp_literals p) = length (lp_segments p)" using assms(1) by (simp add: pattern_wf_def)
  then obtain literal where l: "lp_literals p ! i = Some literal"
    using assms(2) Cons.prems by (auto simp: list_ex_length)
  with literal_Nil_iff [OF assms(1) _ l] Cons len show ?case
    by (auto simp: add.assoc split: option.split)
qed simp

lemma split_ends:
  assumes "2 \<le> length xs"
  shows "xs = xs ! 0 # map (\<lambda>i. xs ! i) [1..<length xs - 1] @ [xs ! (length xs - 1)]"
proof -
  have "[0..<length xs] = 0 # [1..<length xs - 1] @ [length xs - 1]"
    using assms by (metis One_nat_def Suc_diff_1 Suc_le_D length_greater_0_conv list.size(3) not_numeral_le_zero
      numeral_2_eq_2 upt_Suc upt_conv_Cons zero_less_Suc Suc_le_mono diff_Suc_Suc diff_zero le0)
  then have "map (\<lambda>i. xs ! i) [0..<length xs] = xs ! 0 # map (\<lambda>i. xs ! i) [1..<length xs - 1] @ [xs ! (length xs - 1)]"
    by simp
  then show ?thesis by (simp only: map_nth)
qed

text \<open>The matching without the shortcut for patterns of literals alone.\<close>

definition matches_slowly :: "like_pattern \<Rightarrow> str \<Rightarrow> bool res" where
  "matches_slowly p bs =
    (let last_index = length (lp_segments p) - 1
     in if last_index = 0
        then and_then (matches_at p bs 0 0) (\<lambda>end'. Inr (end' = Some (length bs)))
        else and_then (matches_at p bs 0 0) (\<lambda>first.
          case first of
            None \<Rightarrow> Inr False
          | Some cursor \<Rightarrow>
              and_then (match_middle p bs [1..<last_index] cursor) (\<lambda>found.
                case found of
                  None \<Rightarrow> Inr False
                | Some cursor \<Rightarrow>
                    (case last_segment_start p bs last_index of
                       None \<Rightarrow> Inr False
                     | Some start \<Rightarrow>
                         if cursor \<le> start
                         then and_then (matches_at p bs start last_index) (\<lambda>end'. Inr (end' = Some (length bs)))
                         else Inr False))))"

lemma greedy_suffix: "greedy ci ss cs = Some r \<Longrightarrow> \<exists>k \<le> length cs. r = drop k cs"
proof (induction ss arbitrary: cs)
  case Nil
  then show ?case by (auto intro: exI [of _ 0])
next
  case (Cons s ss)
  then obtain u where u: "leftmost ci s cs = Some u" "greedy ci ss u = Some r" by (auto simp: bind_eq_Some_conv)
  from leftmost_suffix [OF u(1)] Cons.IH [OF u(2)] obtain j k where "u = drop j cs" "r = drop k u" by blast
  then have "r = drop (min (length cs) (k + j)) cs" by (simp add: min_def)
  then show ?case by (metis min.cobounded1)
qed

lemma matches_slowly_eq:
  assumes wf: "pattern_wf p" and cs: "list_all is_char cs"
  shows "matches_slowly p (concat cs) = Inr (segs_ok (lp_case_insensitive p) (lp_segments p) cs)"
proof -
  let ?ci = "lp_case_insensitive p" and ?ss = "lp_segments p"
  have first: "matches_at p (concat cs) 0 0 =
      Inr (if seg_ok ?ci (?ss ! 0) cs then Some (cursor_of cs (drop (length (?ss ! 0)) cs)) else None)"
    using matches_at_eq [OF wf _ cs, of 0 "[]"] wf by (simp add: pattern_wf_def cursor_of_drop)
  show ?thesis
  proof (cases "length ?ss - 1 = 0")
    case True
    with wf obtain s where s: "?ss = [s]" by (cases ?ss) (auto simp: pattern_wf_def)
    have "cursor_of cs (drop (length s) cs) = length (concat cs) \<and> seg_ok ?ci s cs \<longleftrightarrow> segs_ok ?ci [s] cs"
    proof (cases "seg_ok ?ci s cs")
      case seg: True
      then have "length s \<le> length cs" by (simp add: seg_ok_def)
      with offset_less [OF cs, of "length s" "length cs"]
      have "cursor_of cs (drop (length s) cs) = length (concat cs) \<longleftrightarrow> length s = length cs"
        by (cases "length s = length cs") (auto simp: cursor_of_drop)
      then show ?thesis using seg seg_ok_all [of ?ci s cs] by auto
    next
      case False
      then show ?thesis using seg_ok_all [of ?ci s cs] by auto
    qed
    with first s show ?thesis by (auto simp: matches_slowly_def)
  next
    case False
    let ?mid = "map (\<lambda>i. ?ss ! i) [1..<length ?ss - 1]" and ?last = "length ?ss - 1"
    have ss: "?ss = ?ss ! 0 # ?mid @ [?ss ! ?last]" using False by (intro split_ends) auto
    have mid: "match_middle p (concat cs) [1..<?last] (cursor_of cs (drop n cs))
        = Inr (map_option (cursor_of cs) (greedy ?ci ?mid (drop n cs)))" for n
      by (rule match_middle_eq [OF wf cs]) auto
    have "?last < length ?ss" using False by simp
    note last = last_segment_eq [OF wf this cs]
    have "segs_ok ?ci ?ss cs \<longleftrightarrow> seg_ok ?ci (?ss ! 0) cs \<and>
        (\<exists>r. greedy ?ci ?mid (drop (length (?ss ! 0)) cs) = Some r \<and> ends_ok ?ci (?ss ! ?last) r)"
      by (subst ss) (rule segs_ok_greedy)
    moreover have "matches_slowly p (concat cs) = Inr (seg_ok ?ci (?ss ! 0) cs \<and>
        (\<exists>r. greedy ?ci ?mid (drop (length (?ss ! 0)) cs) = Some r \<and> ends_ok ?ci (?ss ! ?last) r))"
    proof (cases "greedy ?ci ?mid (drop (length (?ss ! 0)) cs)")
      case None
      then show ?thesis using False first mid by (simp add: matches_slowly_def Let_def)
    next
      case (Some r)
      from greedy_suffix [OF Some] obtain k where "r = drop (k + length (?ss ! 0)) cs" by auto
      then have r: "r = drop (min (length cs) (k + length (?ss ! 0))) cs" by (simp add: min_def)
      from last [of "min (length cs) (k + length (?ss ! 0))"] False first mid Some
      show ?thesis unfolding r [symmetric] by (simp add: matches_slowly_def Let_def del: One_nat_def)
    qed
    ultimately show ?thesis by simp
  qed
qed

lemma matches_bytes_eq:
  assumes wf: "pattern_wf p" and cs: "list_all is_char cs" and some: "matches_bytes p (concat cs) = Some matched"
  shows "matches_slowly p (concat cs) = Inr matched"
proof -
  let ?T = "concat cs" and ?ci = "lp_case_insensitive p" and ?last = "length (lp_segments p) - 1"
  let ?ls = "map the (lp_literals p)"
  have all: "\<not> list_ex (\<lambda>literal. literal = None) (lp_literals p)"
    using some by (simp add: matches_bytes_def split: if_splits)
  have len: "length (lp_literals p) = length (lp_segments p)" "lp_segments p \<noteq> []"
    using wf by (simp_all add: pattern_wf_def)
  have lit: "lp_literals p ! i = Some (?ls ! i)" if "i < length (lp_segments p)" for i
    using all that len by (auto simp: list_ex_length)
  have at: "matches_at p ?T start i = Inr (if start + length (?ls ! i) \<le> length ?T
      \<and> same_bytes ?ci (slice ?T start (length (?ls ! i))) (?ls ! i) then Some (start + length (?ls ! i)) else None)"
    if "i < length (lp_segments p)" for start i
    using lit [OF that] by (simp add: matches_at_def Let_def)
  have last: "last_segment_start p ?T ?last =
      (if length ?T < length (?ls ! ?last) then None else Some (length ?T - length (?ls ! ?last)))"
    using lit [of ?last] len by (cases "lp_literals p ! ?last") (auto simp: last_segment_start_def)
  have mid: "match_middle p ?T [1..<?last] cursor
      = Inr (find_literals ?ci ?T (map (\<lambda>i. ?ls ! i) [1..<?last]) cursor)" for cursor
    by (rule find_literals_eq [OF wf all]) auto
  have whole: "slice ?T (length ?T - n) n = drop (length ?T - n) ?T" for n
    by (simp add: slice_def)
  show ?thesis
  proof (cases "?last = 0")
    case True
    have "slice ?T 0 (length ?T) = ?T" by (simp add: slice_def)
    then have "matches_slowly p ?T = Inr (length ?T = length (?ls ! 0) \<and> same_bytes ?ci ?T (?ls ! 0))"
      using True at [of 0 0] len by (auto simp: matches_slowly_def)
    with True all some show ?thesis by (simp add: matches_bytes_def Let_def)
  next
    case False
    have first: "matches_at p ?T 0 0 = Inr (if length ?T < length (?ls ! 0)
        \<or> \<not> same_bytes ?ci (take (length (?ls ! 0)) ?T) (?ls ! 0) then None else Some (length (?ls ! 0)))"
      using at [of 0 0] len by (auto simp: slice_def)
    let ?found = "find_literals ?ci ?T (map (\<lambda>i. ?ls ! i) [1..<?last]) (length (?ls ! 0))"
    show ?thesis
    proof (cases "length ?T < length (?ls ! 0) \<or> \<not> same_bytes ?ci (take (length (?ls ! 0)) ?T) (?ls ! 0)")
      case True
      with False first some all show ?thesis by (simp add: matches_slowly_def matches_bytes_def Let_def)
    next
      case ok: False
      show ?thesis
      proof (cases ?found)
        case None
        with False first ok some all mid show ?thesis
          by (simp add: matches_slowly_def matches_bytes_def Let_def)
      next
        case (Some cursor)
        have "matches_slowly p ?T = Inr (\<not> length ?T < length (?ls ! ?last) \<and> cursor \<le> length ?T - length (?ls ! ?last)
            \<and> same_bytes ?ci (drop (length ?T - length (?ls ! ?last)) ?T) (?ls ! ?last))"
          using False first ok Some mid last at [of ?last "length ?T - length (?ls ! ?last)"] len whole [of "length (?ls ! ?last)"]
          by (auto simp: matches_slowly_def Let_def)
        moreover have "matched \<longleftrightarrow> \<not> length ?T < length (?ls ! ?last) \<and> cursor \<le> length ?T - length (?ls ! ?last)
            \<and> same_bytes ?ci (drop (length ?T - length (?ls ! ?last)) ?T) (?ls ! ?last)"
          using some all False ok Some by (auto simp: matches_bytes_def Let_def split: if_splits)
        ultimately show ?thesis by simp
      qed
    qed
  qed
qed

lemma matches_eq_slowly:
  assumes "pattern_wf p" "list_all is_char cs"
  shows "matches p (concat cs) = matches_slowly p (concat cs)"
  using matches_bytes_eq [OF assms]
  by (cases "matches_bytes p (concat cs)") (simp_all add: matches_def matches_slowly_def)

lemma like_pattern_matches:
  assumes "utf8 pattern'" "utf8 s"
  shows "matches (like_pattern_new pattern' escape ci) s
    = Inr (like ci (like_tokens escape (chars pattern')) (chars s))"
proof -
  let ?p = "like_pattern_new pattern' escape ci"
  note cs = chars_utf8 [OF assms(2)]
  have "matches ?p s = Inr (segs_ok ci (lp_segments ?p) (chars s))"
    using matches_eq_slowly [OF like_pattern_new_wf [OF assms(1)], of "chars s" escape ci]
      matches_slowly_eq [OF like_pattern_new_wf [OF assms(1)], of "chars s" escape ci] cs
    by (simp add: like_pattern_new_def Let_def)
  also have "segs_ok ci (lp_segments ?p) (chars s) = like ci (segment_tokens (lp_segments ?p)) (chars s)"
    using segs_ok_like [of "lp_segments ?p" ci "chars s"] like_loop_tokens [of "[[]]" escape "chars pattern'"]
    by (simp add: like_pattern_new_def Let_def)
  also have "segment_tokens (lp_segments ?p) = like_tokens escape (chars pattern')"
    using like_loop_tokens [of "[[]]" escape "chars pattern'"] by (simp add: like_pattern_new_def Let_def)
  finally show ?thesis .
qed

section \<open>The literal prefix of a pattern\<close>

lemma seg_ok_literal_prefix:
  "seg_ok False s cs \<Longrightarrow> \<exists>u. concat cs = literal_elements s @ u"
proof (induction s arbitrary: cs rule: literal_elements.induct)
  case (1 x es)
  then obtain c cs' where "cs = c # cs'" "c = x" "seg_ok False es cs'"
    by (cases cs) (auto simp: seg_ok_def element_passes_def)
  with 1 show ?case by auto
qed simp_all

lemma like_pattern_prefix:
  assumes "utf8 pattern'" "utf8 s" "matches (like_pattern_new pattern' escape False) s = Inr True"
  shows "\<exists>u. s = literal_prefix (like_pattern_new pattern' escape False) @ u"
proof -
  let ?p = "like_pattern_new pattern' escape False"
  note wf = like_pattern_new_wf [OF assms(1), of escape False]
  note cs = chars_utf8 [OF assms(2)]
  have "segs_ok False (lp_segments ?p) (chars s)"
    using matches_eq_slowly [OF wf, of "chars s"] matches_slowly_eq [OF wf, of "chars s"] cs assms(3)
    by (simp add: like_pattern_new_def Let_def)
  moreover obtain f ss where f: "lp_segments ?p = f # ss" using wf by (auto simp: pattern_wf_def neq_Nil_conv)
  ultimately have "seg_ok False f (chars s)"
    using seg_ok_all [of False f "chars s"] by (cases ss) auto
  from seg_ok_literal_prefix [OF this] f cs show ?thesis by (simp add: literal_prefix_def)
qed

end
