(* ===== verification/Spec2Isabelle.thy ===== *)
theory Spec2Isabelle
  imports FirstCommit Example LikeMatch
begin

text \<open>
  TinyJoin is a relational database that keeps its tables in one file of 4096-byte pages.  This development models
  the Rust crate \<^verbatim>\<open>src/crates/tinyjoin-core/src\<close> from the bytes of a page up to the entries of a table: how pages are
  sealed and verified, how a database is opened and recovered, how a transaction publishes a new root, how rows, keys
  and schemas become the bytes of an entry, how an entry is found in a B-tree, and how \<^verbatim>\<open>LIKE\<close> patterns are matched.

  \<^bold>\<open>The parts, bottom up, and the theories that model them.\<close>

  \<^item> \<open>Prelude\<close>: errors as values (\<open>error_code\<close>, one constructor per code that decides control flow and \<open>Panic\<close>; the
    result type \<open>res\<close>), state-passing operations, little-endian bytes, slices and writes of a buffer, and the lemma
    collections the other theories use.
  \<^item> \<open>Checksum\<close> (\<^verbatim>\<open>checksum.rs\<close>): the table-driven CRC-32 and XXH64, on 32- and 64-bit words.
  \<^item> \<open>Page\<close> and \<open>Bitmap\<close> (\<^verbatim>\<open>page.rs\<close>): the page envelope, its checksum, both decodings, and the allocation bitmap with its
    word-at-a-time searches.
  \<^item> \<open>Metadata\<close> (\<^verbatim>\<open>page.rs\<close>, \<^verbatim>\<open>revision.rs\<close>): two superblocks, their bitmap chunks, building the next root and choosing one
    at recovery; crash images of the metadata writes and the areas they leave.
  \<^item> \<open>Device\<close> (\<^verbatim>\<open>device.rs\<close>): the trait \<^verbatim>\<open>PageDevice\<close> is a record of operations, its contract the locale \<open>page_device\<close>,
    interpreted for the memory device.
  \<^item> \<open>Cache\<close>, \<open>CacheProofs\<close>, \<open>CacheOps\<close>, \<open>CacheCommit\<close>, \<open>CacheInstall\<close> (\<^verbatim>\<open>cache.rs\<close>): the page cache with its reservations, clock
    eviction, candidate pages and runs of writes; what each operation keeps of every page's value.
  \<^item> \<open>Pager\<close>, \<open>PagerProofs\<close>, \<open>Transaction\<close>, \<open>PagerCommit\<close>, \<open>Session\<close> (\<^verbatim>\<open>pager.rs\<close>): opening and recovery, reads, every operation
    of a write transaction, commit in its stages and abort; the invariants \<open>pager_ok\<close> and \<open>tx_ok\<close>; the steps of a
    transaction and of a pager as inductive relations, and what holds in every state they reach.
  \<^item> \<open>FirstCommit\<close>: a database in memory from its creation to a committed tree, the example the witnesses run.
  \<^item> \<open>Values\<close> (\<^verbatim>\<open>row.rs\<close>, \<^verbatim>\<open>model.rs\<close>): JSON values, column types, table, index and foreign-key definitions.
  \<^item> \<open>KeyCodec\<close>, \<open>KeyProofs\<close>, \<open>KeyOrder\<close>, \<open>KeyTuples\<close> (\<^verbatim>\<open>paged_codec.rs\<close>): keys whose bytes order as the values they encode, primary
    keys, index entries and scan bounds.
  \<^item> \<open>JsonCodec\<close>, \<open>Limits\<close>, \<open>RowCodec\<close>, \<open>RowProofs\<close>, \<open>RowRead\<close>, \<open>RowRoundTrip\<close> (\<^verbatim>\<open>paged_codec.rs\<close>, \<^verbatim>\<open>storage.rs\<close>): canonical JSON
    within its limits, size predictions, and stored records with their offsets, null bits, in-place reads and scan tests.
  \<^item> \<open>Catalog\<close>, \<open>CatalogProofs\<close> (\<^verbatim>\<open>paged_codec.rs\<close>, \<^verbatim>\<open>model.rs\<close>): the catalog's records; \<open>Example\<close> holds the schema and rows the
    codec witnesses use.
  \<^item> \<open>Like\<close>, \<open>LikeProofs\<close>, \<open>LikeMatch\<close> (\<^verbatim>\<open>query.rs\<close>): compiling and matching \<^verbatim>\<open>LIKE\<close> patterns against their meaning.
  \<^item> \<open>Btree\<close>, \<open>BtreeSearch\<close>, \<open>BtreeView\<close>, \<open>BtreeRound\<close>, \<open>BtreeLookup\<close>, \<open>BtreeViews\<close> (\<^verbatim>\<open>btree.rs\<close>, \<^verbatim>\<open>hash.rs\<close>): nodes and overflow pages,
    strict decoding, reading cells in place, searching, and looking a key up.  The trait \<^verbatim>\<open>BtreeReadView\<close> is a record,
    its contract the locale \<open>page_reader\<close>, a sublocale of \<open>page_device\<close> for the pager and again for the transaction.
  \<^item> \<open>Cursor\<close>, \<open>CursorProofs\<close>, \<open>CursorViews\<close> (\<^verbatim>\<open>btree.rs\<close>): cursors, their seek, their moves from leaf to leaf in both
    directions and the entries they return, relative to the entries of the tree still ahead of them.

  \<^bold>\<open>How the code is represented.\<close>  A function of the source is a definition of the same name.  A method that takes
  \<^verbatim>\<open>&mut self\<close> is a state-passing operation of type \<open>('s, 'a) op\<close> that returns a result and the new state, also after an
  error, so that a state left half-changed is visible.  Page numbers and lengths are \<open>nat\<close> with the bounds the code checks;
  hashes, generations, checksums and the fields of pages are words of their width; \<^verbatim>\<open>checked_add\<close> is written out.  A
  string is the list of its UTF-8 bytes, and a \<^verbatim>\<open>char\<close> the bytes of its encoding.  A slice out of range is \<open>Panic\<close>.  Error
  messages are left out.  What \<^verbatim>\<open>serde_json\<close> does to numbers and text is a parameter with the locale \<open>serde_json\<close>,
  interpreted in \<open>Example\<close>; a 64-bit float is its IEEE bits.

  \<^bold>\<open>What is shown.\<close>
  \<^item> Publishing: a commit that succeeds leaves the transaction's root active and found again by recovery; one that
    fails leaves the old root, or a pager that refuses work; a crash at any point of the metadata writes, after any history
    of commits and crashes, recovers to one of the two roots or to an abandoned successor the spare slot still names, over
    the same predecessor; a commit whose new pages are torn falls back to its predecessor.
  \<^item> Transactions: no step of a transaction changes a committed page; aborting leaves no trace; pages allocated are
    fresh; the pager's invariant holds in every reachable state; on an empty device every step of a first commit succeeds.
  \<^item> Cache and device: reads, evictions, writes, runs and installation act on page values as a plain map would.
  \<^item> Pages and metadata: round trips, canonical forms, the searches of the bitmap and the checksums against their plain
    definitions, and the damage a superblock's checksum is sure to notice.
  \<^item> Codecs: rows, index entries, catalog records and canonical JSON decode to what was encoded (a float key \<open>-0\<close> reads as
    \<open>0\<close>); keys order as rows do; text-prefix bounds hold exactly the texts with the prefix.
  \<^item> B-trees: a node decodes from its page, the search in place ends where checked searches end, and a lookup through a
    transaction, and through the pager once it is committed, returns what the tree holds; a cursor returns the entries on
    its side of the bound, in its direction, each once.
  \<^item> Patterns: the segment matcher decides what the pattern means, and prefix scans miss no match.

  \<^bold>\<open>Loops and bounds.\<close>  Loops are structural recursion or have a measure, and every definition is total.  The descent of a
  lookup is bounded by \<open>MAX_TREE_DEPTH\<close>, 64, which is the code's own bound; the clock hand of the cache goes round at most
  twice, as in the code; a cursor's search for the next leaf ends because each leaf it moves to is a page it has not
  visited.  No fuel is added by the model.

  \<^bold>\<open>Not modelled.\<close>  Of \<^verbatim>\<open>btree.rs\<close>: the batch writer, storing overflow values and reclaiming trees.  The
  engine above the B-trees (\<^verbatim>\<open>paged_storage.rs\<close>, \<^verbatim>\<open>paged_transaction.rs\<close>, \<^verbatim>\<open>paged_engine.rs\<close>, \<^verbatim>\<open>engine.rs\<close>, \<^verbatim>\<open>schema.rs\<close>,
  \<^verbatim>\<open>foreign_key.rs\<close>), query planning and evaluation (\<^verbatim>\<open>query.rs\<close> but for patterns, \<^verbatim>\<open>join.rs\<close>, \<^verbatim>\<open>aggregate.rs\<close>, \<^verbatim>\<open>nested.rs\<close>,
  \<^verbatim>\<open>expression.rs\<close>), the translation of a third-party parser's syntax trees (\<^verbatim>\<open>statement.rs\<close>, \<^verbatim>\<open>prepared_statement.rs\<close>,
  \<^verbatim>\<open>sql_script.rs\<close>), the WebAssembly bindings and the TypeScript client.  Functions compiled only for tests are left out,
  except reference implementations that a theorem compares with.
\<close>

section \<open>Publishing a commit\<close>

text \<open>C1: a transaction begun on a pager in order, taken through any of its steps and committed with
  success leaves a pager in order whose active root is the transaction's: its bitmap, the revision, hash and catalog
  root the commit was given, every data page with the bytes the transaction read there.  On the device the metadata
  extent now decodes to that root, with the old one as its predecessor.\<close>

theorem commit_publishes:
  assumes "page_device ops valid contents" "pager_ok valid contents p"
    and "begin_write p = Inr t0" "(tx_step ops)\<^sup>*\<^sup>* t0 t" "commit ops revision hash catalog t = (Inr u, p')"
  shows "pager_ok valid contents p' \<and> \<not> pgr_recovery_required p' \<and>
    rm_allocation_bitmap (pgr_active p') = tx_next_bitmap t \<and>
    sb_database_revision (rm_superblock (pgr_active p')) = revision \<and>
    sb_database_hash (rm_superblock (pgr_active p')) = hash \<and>
    sb_catalog_root_page_id (rm_superblock (pgr_active p')) = catalog \<and>
    recover_metadata (take FIRST_DATA_PAGE_ID (pager_pages contents p')) = Inr (pgr_active p', Some (pgr_active p)) \<and>
    (\<forall>pid. FIRST_DATA_PAGE_ID \<le> pid \<and> allocates (tx_next_bitmap t) pid \<longrightarrow>
       pager_value contents p' pid = tx_value contents t pid)"
proof -
  note dev = assms(1)
  note tr = page_device.transaction_ok [OF dev assms(2-4)]
  from page_device.commit_ok(1) [OF dev tr(1) assms(5)] tr(3) show ?thesis
    by (simp add: commit_done_def Let_def)
qed

theorem commit_publishes_witness:
  "\<exists>p t0 t p'. page_device memory_device_ops memory_valid md_pages \<and> pager_ok memory_valid md_pages p \<and>
    begin_write p = Inr t0 \<and> (tx_step memory_device_ops)\<^sup>*\<^sup>* t0 t \<and>
    commit memory_device_ops 1 7 (Some 6) t = (Inr (), p') \<and>
    rm_allocation_bitmap (pgr_active p') = tx_next_bitmap t \<and>
    pager_value md_pages p' 6 = tx_value md_pages t 6 \<and> allocates (tx_next_bitmap t) 6"
proof -
  obtain p t0 t p' where run: "pager_ok memory_valid md_pages p" "begin_write p = Inr t0"
    "(tx_step memory_device_ops)\<^sup>*\<^sup>* t0 t" "commit memory_device_ops 1 7 (Some 6) t = (Inr (), p')"
    and six: "allocates (tx_next_bitmap t) 6"
    by (rule first_run [of 7]) (rule that)
  from commit_publishes [OF memory.page_device_axioms run] six run show ?thesis
    by (intro exI [of _ p] exI [of _ t0] exI [of _ t] exI [of _ p']) (simp add: memory.page_device_axioms)
qed

text \<open>C2: a database that began empty and went through any commits, crashes and recoveries, the
  falling back from a torn commit included, commits again and stops at any point: each page of its metadata writes is
  as before, as written, or torn so that its checksum shows it.  Then recovery never fails and finds the active root, or
  the root being committed with the active root as its predecessor.  Only where the new superblock did not arrive and the
  slot still holds the superblock an earlier commit on the active root left behind, it finds that commit's root, also with
  the active root as its predecessor, for the check of its data pages to settle.  Assumed is that no chunk page the commit
  replaces has the checksum of its replacement by accident.\<close>

theorem crash_keeps_a_root:
  assumes "metadata_area pages active" "bitmap_ok bitmap"
    and "build_next_metadata active revision h catalog bitmap = Inr pm"
    and "checksums_differ pages (chunk_writes_of pm)"
    and "encode_superblock_page (rm_superblock (pending_root pm hash)) bitmap = Inr sb"
    and "crash_image pages (metadata_writes pm sb) pages'"
  shows "(\<exists>previous. recover_metadata pages' = Inr (active, previous)) \<or>
    recover_metadata pages' = Inr (pending_root pm hash, Some active) \<or>
    (\<exists>abandoned bits. recover_metadata pages' = Inr (abandoned, Some active) \<and>
      decode_superblock_page (pages ! slot_page_id (slot_inactive (sb_slot (rm_superblock active)))) =
        Inr (rm_superblock abandoned, bits) \<and>
      pages' ! slot_page_id (slot_inactive (sb_slot (rm_superblock active))) =
        pages ! slot_page_id (slot_inactive (sb_slot (rm_superblock active))))"
  by (rule crash_recovers [OF metadata_area_ok [OF assms(1)] assms(2-6)])

theorem crash_keeps_a_root_witness:
  "\<exists>pages active pm sb pages' s bits.
    metadata_area pages active \<and> build_next_metadata active 1 7 (Some 6) first_bitmap = Inr pm \<and>
    decode_superblock_page (pages ! slot_page_id (slot_inactive (sb_slot (rm_superblock active)))) = Inr (s, bits) \<and>
    sb_generation (rm_superblock active) = 1 \<and> sb_generation s = 2 \<and>
    crash_image pages (metadata_writes pm sb) pages' \<and> pages' \<noteq> pages \<and>
    ((\<exists>previous. recover_metadata pages' = Inr (active, previous)) \<or>
     recover_metadata pages' = Inr (pending_root pm 1, Some active) \<or>
     (\<exists>abandoned bits. recover_metadata pages' = Inr (abandoned, Some active) \<and>
       decode_superblock_page (pages ! slot_page_id (slot_inactive (sb_slot (rm_superblock active)))) =
         Inr (rm_superblock abandoned, bits) \<and>
       pages' ! slot_page_id (slot_inactive (sb_slot (rm_superblock active))) =
         pages ! slot_page_id (slot_inactive (sb_slot (rm_superblock active)))))"
proof -
  obtain pages active pm where a: "metadata_area pages active" "sb_generation (rm_superblock active) = 1"
    "build_next_metadata active 1 7 (Some 6) first_bitmap = Inr pm" "chunk_writes_of pm = []"
    and enc: "\<And>hash. \<exists>sb. encode_superblock_page (rm_superblock (pending_root pm hash)) first_bitmap = Inr sb"
    by (rule first_area) (rule that)
  let ?k = "slot_page_id (slot_inactive (sb_slot (rm_superblock active)))"
  obtain sb0 sb1 where sb: "encode_superblock_page (rm_superblock (pending_root pm 0)) first_bitmap = Inr sb0"
    "encode_superblock_page (rm_superblock (pending_root pm 1)) first_bitmap = Inr sb1" using enc by blast
  note ok = area_okD [OF metadata_area_ok [OF a(1)]]
  have k: "?k < 6" by (cases "sb_slot (rm_superblock active)") simp_all
  have writes: "metadata_writes pm x = [(?k, x)]" for x
    using a(4) obtain_slot [OF ok(4) a(3)] by (simp add: metadata_writes_def)
  let ?left = "pages[?k := sb0]" and ?torn = "pages[?k := replicate 4096 0]"
  have "crash_image pages (metadata_writes pm sb0) ?left" by (rule crash_one_page) (auto simp: writes)
  from area_cut_off [OF a(1) first_bitmap_facts(2) a(3) sb(1) this] have left: "metadata_area ?left active" .
  have dec: "decode_superblock_page sb0 = Inr (rm_superblock (pending_root pm 0), superblock_bits first_bitmap)"
    by (rule encoded_superblock_decodes [OF ok(4) first_bitmap_facts(2) a(3) sb(1)])
  have zeros: "page_verify (replicate 4096 0) = Inl INVALID_PAGE" by (rule zero_page_invalid)
  then have crash: "crash_image ?left (metadata_writes pm sb1) ?torn"
    using crash_one_page [of ?k sb1 "metadata_writes pm sb1" "replicate 4096 0" ?left] by (simp add: writes)
  have "sb0 \<noteq> replicate 4096 0" using dec zeros by (auto simp: decode_superblock_page_def)
  then have "?torn \<noteq> ?left" using k ok(1) by (metis nth_list_update_eq)
  moreover have "sb_generation (rm_superblock (pending_root pm 0)) = 2"
    using next_generation [OF ok(4) a(3)] a(2) by (simp add: pending_root_def word_unat_eq_iff)
  moreover have "?left ! ?k = sb0" using k ok(1) by simp
  ultimately show ?thesis
    using crash_keeps_a_root [OF left first_bitmap_facts(2) a(3) _ sb(2) crash] left a(2,3,4) dec crash
    by (intro exI [of _ ?left] exI [of _ active] exI [of _ pm] exI [of _ sb1] exI [of _ ?torn]) (simp add: checksums_differ_def)
qed

text \<open>C3: after a commit that succeeded, reading the device's metadata again, where the device lets it be read, gives the committed
  root: its new pages are in place, carry their own numbers and checksums, and hash to what the superblock recorded.\<close>

theorem commit_is_found_again:
  assumes "page_device ops valid contents" "pager_ok valid contents p"
    and "begin_write p = Inr t0" "(tx_step ops)\<^sup>*\<^sup>* t0 t" "commit ops revision hash catalog t = (Inr u, p')"
    and "recover_device_metadata ops (pc_device (pgr_cache p')) = (Inr active, d')"
  shows "active = pgr_active p'"
proof -
  note dev = assms(1)
  note tr = page_device.transaction_ok [OF dev assms(2-4)]
  show ?thesis by (rule page_device.commit_reopens [OF dev tr(1,2) assms(5,6)])
qed

theorem commit_is_found_again_witness:
  "\<exists>p t0 t p' active d'. begin_write p = Inr t0 \<and> (tx_step memory_device_ops)\<^sup>*\<^sup>* t0 t \<and>
    commit memory_device_ops 1 7 (Some 6) t = (Inr (), p') \<and>
    recover_device_metadata memory_device_ops (pc_device (pgr_cache p')) = (Inr active, d') \<and> active = pgr_active p'"
proof -
  obtain p t0 t p' where run: "pager_ok memory_valid md_pages p" "begin_write p = Inr t0"
    "(tx_step memory_device_ops)\<^sup>*\<^sup>* t0 t" "commit memory_device_ops 1 7 (Some 6) t = (Inr (), p')"
    and again: "\<exists>active. recover_device_metadata memory_device_ops (pc_device (pgr_cache p')) = (Inr active, pc_device (pgr_cache p'))"
    by (rule first_run [of 7]) (rule that)
  from again obtain active where rec:
    "recover_device_metadata memory_device_ops (pc_device (pgr_cache p')) = (Inr active, pc_device (pgr_cache p'))" ..
  from commit_is_found_again [OF memory.page_device_axioms run rec] run rec show ?thesis by blast
qed

text \<open>C8: a commit that fails leaves the root that was active untouched: its metadata still decodes
  to it on the device, its data pages read as before, and the pager either serves it as before or, when the failure came
  after the superblock write began, says that it requires recovery.\<close>

theorem failed_commit_keeps_root:
  assumes "page_device ops valid contents" "pager_ok valid contents p"
    and "begin_write p = Inr t0" "(tx_step ops)\<^sup>*\<^sup>* t0 t" "commit ops revision hash catalog t = (Inl e, p')"
  shows "pager_ok valid contents p' \<and> pgr_active p' = pgr_active p \<and>
    root_served (pager_pages contents p') (pgr_active p) \<and>
    (pgr_recovery_required p' \<longrightarrow> e = RECOVERY_REQUIRED) \<and>
    (\<forall>pid. FIRST_DATA_PAGE_ID \<le> pid \<and> allocates (rm_allocation_bitmap (pgr_active p)) pid \<longrightarrow>
       pager_value contents p' pid = pager_value contents p pid)"
proof -
  note dev = assms(1)
  note tr = page_device.transaction_ok [OF dev assms(2-4)]
  note fail = page_device.commit_ok(2) [OF dev tr(1) assms(5) refl]
  have "root_served (pager_pages contents (tx_pager t)) (pgr_active (tx_pager t))" using tr(1) by (simp add: tx_ok_def)
  from root_served_spare [OF this] fail tr(3)
  have "root_served (pager_pages contents p') (pgr_active p)" by (simp add: commit_failed_def)
  with fail tr(3,5) show ?thesis by (simp add: commit_failed_def active_bitmap_def)
qed

theorem failed_commit_keeps_root_witness:
  "\<exists>p t0 p'. pager_ok memory_valid md_pages p \<and> begin_write p = Inr t0 \<and>
    commit memory_device_ops 9007199254740992 7 None t0 = (Inl REVISION_OVERFLOW, p') \<and>
    pgr_active p' = pgr_active p \<and> root_served (pager_pages md_pages p') (pgr_active p)"
proof -
  obtain p d' where c: "just_created p" by (rule created)
  then have ok: "pager_ok memory_valid md_pages p" by (simp add: just_created_def)
  obtain t0 where b: "begin_write p = Inr t0" by (rule first_steps [OF c])
  have "ensure_open t0 = Inr ()"
    using b by (auto simp: begin_write_def ensure_usable_def ensure_open_def and_then_eq_Inr split: if_splits)
  then obtain p' where f: "commit memory_device_ops 9007199254740992 7 None t0 = (Inl REVISION_OVERFLOW, p')"
    by (auto simp: commit_def commit_transaction_def or_fail_def validate_database_revision_def MAX_DATABASE_REVISION_def
        fail_before_superblock_def)
  from failed_commit_keeps_root [OF memory.page_device_axioms ok b rtranclp.rtrancl_refl f] ok b f show ?thesis by blast
qed

text \<open>C10: reading a device's metadata gives the newest root unless that root is the direct successor
  of the other one and a page it added is missing, unreadable or hashes otherwise: then it gives the other one.\<close>

theorem torn_commit_falls_back:
  assumes "page_device ops valid contents" "valid d" "recover_device_metadata ops d = (Inr active, d')"
  shows "\<exists>newest previous. recover_metadata (take FIRST_DATA_PAGE_ID (contents d)) = Inr (newest, previous) \<and>
    active = (case previous of
        Some old \<Rightarrow> if commit_intact (contents d) newest old then newest else old
      | None \<Rightarrow> newest)"
  using page_device.recover_device_spec [OF assms] by simp

theorem torn_commit_falls_back_witness:
  "\<exists>d active d' newest previous. recover_device_metadata memory_device_ops d = (Inr active, d') \<and>
    recover_metadata (take FIRST_DATA_PAGE_ID (md_pages d)) = Inr (newest, previous)"
proof -
  obtain p d' where c: "just_created p" by (rule created)
  let ?d = "pc_device (pgr_cache p)"
  have v: "memory_valid ?d" and six: "6 \<le> length (md_pages ?d)"
    using c by (simp_all add: just_created_def pager_ok_def cache_ok_def)
  obtain newest previous where "recover_metadata (take 6 (md_pages ?d)) = Inr (newest, previous)"
    using fresh_recovers [OF c] by blast
  then obtain active where rec: "recover_device_metadata memory_device_ops ?d = (Inr active, ?d)"
    using memory_recovers [OF six] by blast
  from torn_commit_falls_back [OF memory.page_device_axioms v rec] rec show ?thesis by blast
qed

section \<open>The pager and its transactions\<close>

text \<open>C6: every pager reached from opening a device, by reads and by transactions that end in any way,
  is in order: its cache agrees with the device, no page is reserved, and unless it requires recovery its active
  root is on the device with every page that root allocates.\<close>

theorem pager_stays_in_order:
  assumes "page_device ops valid contents" "valid d" "pager_with_cache_capacity ops capacity d = (Inr p, d')"
    and "(pager_step ops)\<^sup>*\<^sup>* p p'"
  shows "pager_ok valid contents p'"
  using page_device.pager_life [OF assms(1,4)] page_device.open_ok(1) [OF assms(1-3)] by blast

theorem pager_stays_in_order_witness:
  "\<exists>p d' p'. open_or_create memory_device_ops empty_memory = (Inr p, d') \<and>
    (pager_step memory_device_ops)\<^sup>*\<^sup>* p p' \<and> pager_ok memory_valid md_pages p'"
proof -
  obtain p d' where op: "open_or_create memory_device_ops empty_memory = (Inr p, d')" by (rule created)
  have "memory_valid empty_memory" by (simp add: memory_valid_def empty_memory_def)
  from pager_stays_in_order [OF memory.page_device_axioms this op [unfolded open_or_create_def] rtranclp.rtrancl_refl] op
  show ?thesis by blast
qed

text \<open>C7: however a transaction proceeds, the committed pages keep their values, and the device
  changes only in pages the active root does not reach.\<close>

theorem transaction_is_isolated:
  assumes "page_device ops valid contents" "pager_ok valid contents p"
    and "begin_write p = Inr t0" "(tx_step ops)\<^sup>*\<^sup>* t0 t"
  shows "tx_ok valid contents t \<and> pgr_active (tx_pager t) = pgr_active p \<and>
    only_touches (unreached (rm_allocation_bitmap (pgr_active p))) (pager_pages contents p) (pager_pages contents (tx_pager t)) \<and>
    (\<forall>pid. allocates (rm_allocation_bitmap (pgr_active p)) pid \<longrightarrow>
       page_value (pager_pages contents (tx_pager t)) (tx_cache t) (Committed, pid) = pager_value contents p pid)"
  using page_device.transaction_ok [OF assms] by blast

theorem transaction_is_isolated_witness:
  "\<exists>p t0 t. pager_ok memory_valid md_pages p \<and> begin_write p = Inr t0 \<and> (tx_step memory_device_ops)\<^sup>*\<^sup>* t0 t \<and>
    allocates (tx_next_bitmap t) 6 \<and> pgr_active (tx_pager t) = pgr_active p"
proof -
  obtain p t0 t where run: "pager_ok memory_valid md_pages p" "begin_write p = Inr t0"
    "(tx_step memory_device_ops)\<^sup>*\<^sup>* t0 t" and six: "allocates (tx_next_bitmap t) 6"
    by (rule first_run [of 7])
  from transaction_is_isolated [OF memory.page_device_axioms run] run six show ?thesis by blast
qed

text \<open>C9: a transaction that is aborted gives back a pager in order with the root and the
  committed pages it was begun on, and leaves no page reserved.\<close>

theorem abort_leaves_no_trace:
  assumes "page_device ops valid contents" "pager_ok valid contents p"
    and "begin_write p = Inr t0" "(tx_step ops)\<^sup>*\<^sup>* t0 t"
  shows "pager_ok valid contents (abort t) \<and> pgr_active (abort t) = pgr_active p \<and>
    pc_reservations (pgr_cache (abort t)) = [] \<and>
    (\<forall>pid. allocates (rm_allocation_bitmap (pgr_active p)) pid \<longrightarrow>
       pager_value contents (abort t) pid = pager_value contents p pid)"
proof -
  note tr = page_device.transaction_ok [OF assms]
  have ok: "pager_ok valid contents (abort t)" by (rule abort_ok(1) [OF tr(1)])
  then have "pc_reservations (pgr_cache (abort t)) = []" by (simp add: pager_ok_def)
  with ok page_device.abort_restores [OF assms] show ?thesis by blast
qed

theorem abort_leaves_no_trace_witness:
  "\<exists>p t0 t. pager_ok memory_valid md_pages p \<and> begin_write p = Inr t0 \<and> (tx_step memory_device_ops)\<^sup>*\<^sup>* t0 t \<and>
    allocates (tx_next_bitmap t) 6 \<and> pgr_active (abort t) = pgr_active p"
proof -
  obtain p t0 t where run: "pager_ok memory_valid md_pages p" "begin_write p = Inr t0"
    "(tx_step memory_device_ops)\<^sup>*\<^sup>* t0 t" and six: "allocates (tx_next_bitmap t) 6"
    by (rule first_run [of 7])
  from abort_leaves_no_trace [OF memory.page_device_axioms run] run six show ?thesis by blast
qed

text \<open>C19: a page a transaction wrote is the page it reads at that number.\<close>

theorem written_page_reads_back:
  assumes "page_device ops valid contents" "tx_ok valid contents t"
    and "write_new_page ops page t = (Inr u, t1)" "tx_read_page_in_place ops (pg_id page) t1 = (Inr page', t2)"
  shows "page' = page"
proof -
  note w = page_device.write_new_page_ok [OF assms(1-3)]
  obtain bs where bs: "page_encode page = Inr bs" "tx_value contents t1 (pg_id page) = Some bs" using w(4) by blast
  obtain v where "tx_value contents t1 (pg_id page) = Some v" "decode_verified v = Inr page'"
    using page_device.tx_read_ok(4) [OF assms(1) w(1) assms(4)] by blast
  with bs page_encode_ok [OF bs(1)] show ?thesis by simp
qed

theorem written_page_reads_back_witness:
  "\<exists>t t1 t2. tx_ok memory_valid md_pages t \<and> write_new_page memory_device_ops first_page t = (Inr (), t1) \<and>
    tx_read_page_in_place memory_device_ops (pg_id first_page) t1 = (Inr first_page, t2)"
proof -
  obtain p d' where c: "just_created p" by (rule created)
  then have ok: "pager_ok memory_valid md_pages p" by (simp add: just_created_def)
  obtain t0 t1 where s: "begin_write p = Inr t0" "allocate_page memory_device_ops t0 = (Inr 6, t1)"
    "write_new_page memory_device_ops first_page t1 = (Inr (), first_transaction p)"
    "tx_read_page_in_place memory_device_ops 6 (first_transaction p) = (Inr first_page, first_transaction p)"
    by (rule first_steps [OF c])
  have t1: "tx_ok memory_valid md_pages t1" by (rule allocate_page_ok(1) [OF begin_write_ok(1) [OF ok s(1)] s(2)])
  have six: "pg_id first_page = 6" by (rule first_page_facts(1))
  from written_page_reads_back [OF memory.page_device_axioms t1 s(3) s(4) [folded six]] t1 s(3,4) show ?thesis
    unfolding six by blast
qed

text \<open>C20: an allocated page is a data page that neither the active root nor the transaction had, and
  the transaction's bitmap gains that page alone; a failed allocation leaves the bitmap as it was.\<close>

theorem allocation_is_fresh:
  assumes "tx_ok valid contents t" "allocate_page ops t = (r, t')"
  shows "tx_ok valid contents t' \<and>
    (case r of
       Inr pid \<Rightarrow> FIRST_DATA_PAGE_ID \<le> pid \<and> pid < MAX_PAGE_COUNT \<and> \<not> allocates (active_bitmap t) pid \<and>
         \<not> allocates (tx_next_bitmap t) pid \<and>
         allocated_set (tx_next_bitmap t') = insert pid (allocated_set (tx_next_bitmap t))
     | Inl _ \<Rightarrow> tx_next_bitmap t' = tx_next_bitmap t)"
  using allocate_page_ok [OF assms] by (cases r) (auto simp: allocated_set_def)

theorem allocation_is_fresh_witness:
  "\<exists>t t'. tx_ok memory_valid md_pages t \<and> allocate_page memory_device_ops t = (Inr 6, t') \<and>
    allocated_set (tx_next_bitmap t') = insert 6 (allocated_set (tx_next_bitmap t))"
proof -
  obtain p d' where c: "just_created p" by (rule created)
  then have ok: "pager_ok memory_valid md_pages p" by (simp add: just_created_def)
  obtain t0 t1 where s: "begin_write p = Inr t0" "allocate_page memory_device_ops t0 = (Inr 6, t1)"
    by (rule first_steps [OF c])
  have t0: "tx_ok memory_valid md_pages t0" by (rule begin_write_ok(1) [OF ok s(1)])
  from allocation_is_fresh [OF t0 s(2)] t0 s(2) show ?thesis by auto
qed

text \<open>C21: freeing a shared page or releasing a new one takes exactly that page from the
  transaction's bitmap when it succeeds, and changes nothing when it fails; the two never apply to the same page.\<close>

theorem freed_pages_leave_the_bitmap:
  assumes "tx_ok valid contents t" "free_shared_page pid t = (r, t') \<or> release_new_page pid t = (r, t')"
  shows "tx_ok valid contents t' \<and>
    (case r of
       Inr _ \<Rightarrow> allocated_set (tx_next_bitmap t') = allocated_set (tx_next_bitmap t) - {pid}
     | Inl _ \<Rightarrow> t' = t) \<and>
    \<not> (is_ok (fst (free_shared_page pid t)) \<and> is_ok (fst (release_new_page pid t)))"
proof -
  note fr = free_shared_ok [OF assms(1)] and rl = release_new_ok [OF assms(1)]
  have "\<not> (is_ok (fst (free_shared_page pid t)) \<and> is_ok (fst (release_new_page pid t)))"
  proof
    assume both: "is_ok (fst (free_shared_page pid t)) \<and> is_ok (fst (release_new_page pid t))"
    obtain r1 t1 r2 t2 where s: "free_shared_page pid t = (r1, t1)" "release_new_page pid t = (r2, t2)"
      by (cases "free_shared_page pid t"; cases "release_new_page pid t")
    with both obtain u v where "r1 = Inr u" "r2 = Inr v" by (cases r1; cases r2) auto
    with fr(3) [OF s(1)] rl(3) [OF s(2)] show False by (simp add: is_new_def)
  qed
  with assms(2) fr rl show ?thesis by (cases r) (auto simp: allocated_set_def)
qed

theorem freed_pages_leave_the_bitmap_witness:
  "\<exists>p r t'. tx_ok memory_valid md_pages (first_transaction p) \<and> release_new_page 6 (first_transaction p) = (r, t') \<and>
    tx_ok memory_valid md_pages t'"
proof -
  obtain p d' where c: "just_created p" by (rule created)
  then have ok: "pager_ok memory_valid md_pages p" by (simp add: just_created_def)
  obtain t0 where s: "begin_write p = Inr t0" "(tx_step memory_device_ops)\<^sup>*\<^sup>* t0 (first_transaction p)"
    by (rule first_steps [OF c])
  have t: "tx_ok memory_valid md_pages (first_transaction p)" by (rule memory.transaction_ok(1) [OF ok s])
  obtain r t' where rl: "release_new_page 6 (first_transaction p) = (r, t')"
    by (cases "release_new_page 6 (first_transaction p)")
  from freed_pages_leave_the_bitmap [OF t disjI2 [OF rl]] t rl show ?thesis by blast
qed

text \<open>C29: reading a committed page in place, which skips the checks when the page is cached,
  gives the same result and the same pager as the checked read.\<close>

theorem in_place_read_is_checked_read:
  assumes "cache_ok valid contents (pgr_cache p)"
  shows "read_page_in_place ops pid p = read_page_checked ops pid p"
  by (rule read_in_place_eq [OF assms])

theorem in_place_read_is_checked_read_witness:
  "\<exists>p. cache_ok memory_valid md_pages (pgr_cache p) \<and>
    read_page_in_place memory_device_ops 6 p = read_page_checked memory_device_ops 6 p"
proof -
  obtain p d' where c: "just_created p" by (rule created)
  then have "cache_ok memory_valid md_pages (pgr_cache p)" by (simp add: just_created_def pager_ok_def)
  from in_place_read_is_checked_read [OF this] this show ?thesis by blast
qed

text \<open>C30: a read returns the decoding of the committed bytes of an allocated page, and changes
  no page's value; eviction and caching cannot be noticed.\<close>

theorem reads_return_committed_pages:
  assumes "page_device ops valid contents" "pager_ok valid contents p" "read_page_in_place ops pid p = (r, p')"
  shows "pager_ok valid contents p' \<and> pgr_active p' = pgr_active p \<and>
    (case r of
       Inr page \<Rightarrow> allocates (rm_allocation_bitmap (pgr_active p)) pid \<and>
         (\<exists>bs. pager_value contents p pid = Some bs \<and> decode_verified bs = Inr page)
     | Inl _ \<Rightarrow> True) \<and>
    (\<forall>q bs. pager_value contents p q = Some bs \<longrightarrow> pager_value contents p' q = Some bs)"
proof -
  have "cache_ok valid contents (pgr_cache p)" using assms(2) by (simp add: pager_ok_def)
  then have "read_page_checked ops pid p = (r, p')" using read_in_place_eq assms(3) by metis
  note rd = page_device.read_page_ok [OF assms(1,2) this]
  show ?thesis using rd by (cases r) auto
qed

theorem reads_return_committed_pages_witness:
  "\<exists>p r p'. pager_ok memory_valid md_pages p \<and> read_page_in_place memory_device_ops 6 p = (r, p') \<and>
    pager_ok memory_valid md_pages p'"
proof -
  obtain p d' where c: "just_created p" by (rule created)
  then have ok: "pager_ok memory_valid md_pages p" by (simp add: just_created_def)
  obtain r p' where rd: "read_page_in_place memory_device_ops 6 p = (r, p')"
    by (cases "read_page_in_place memory_device_ops 6 p")
  from reads_return_committed_pages [OF memory.page_device_axioms ok rd] ok rd show ?thesis by blast
qed

text \<open>A pager that requires recovery answers reads and new transactions with that
  error and does not change.\<close>

theorem recovery_required_refuses_work:
  assumes "pgr_recovery_required p"
  shows "read_page_in_place ops pid p = (Inl RECOVERY_REQUIRED, p) \<and> begin_write p = Inl RECOVERY_REQUIRED"
  using poisoned [OF assms] by blast

theorem recovery_required_refuses_work_witness:
  "\<exists>p. pgr_recovery_required p \<and> begin_write (p :: memory_page_device pager) = Inl RECOVERY_REQUIRED"
proof -
  obtain p where "just_created p" by (rule created)
  have "pgr_recovery_required (p\<lparr>pgr_recovery_required := True\<rparr>)" by simp
  from recovery_required_refuses_work [OF this] this show ?thesis by blast
qed

text \<open>C28: on an empty device in memory, opening creates a database, and a transaction on it can allocate
  a page, write it, read it back and commit: none of these steps fails.\<close>

theorem first_database_works:
  "\<exists>p d t0 t1 t2 p'. open_or_create memory_device_ops empty_memory = (Inr p, d) \<and>
    begin_write p = Inr t0 \<and> allocate_page memory_device_ops t0 = (Inr 6, t1) \<and>
    write_new_page memory_device_ops first_page t1 = (Inr (), t2) \<and>
    tx_read_page_in_place memory_device_ops 6 t2 = (Inr first_page, t2) \<and>
    commit memory_device_ops 1 h (Some 6) t2 = (Inr (), p')"
proof -
  obtain p d where op: "open_or_create memory_device_ops empty_memory = (Inr p, d)" and c: "just_created p" by (rule created)
  obtain t0 t1 where s: "begin_write p = Inr t0" "allocate_page memory_device_ops t0 = (Inr 6, t1)"
    "write_new_page memory_device_ops first_page t1 = (Inr (), first_transaction p)"
    "tx_read_page_in_place memory_device_ops 6 (first_transaction p) = (Inr first_page, first_transaction p)"
    by (rule first_steps [OF c])
  with op first_commit [OF c] show ?thesis by blast
qed

section \<open>The page cache\<close>

text \<open>C22: reading a page through the cache, with the eviction it may cause, keeps the cache in
  order and every readable page's value, and returns the value of the page asked for, up to the checksum of a page
  not yet sealed; the device changes only in reserved pages and beyond its end.\<close>

theorem cache_reads_are_transparent:
  assumes "page_device ops valid contents" "cache_ok valid contents c" "readable (pc_reservations c) (own, pid)"
    and "read_owned ops own pid verify c = (r, c')"
  shows "cache_ok valid contents c' \<and> keeps contents {} c c' \<and>
    (case r of
       Inr bs \<Rightarrow> page_value (contents (pc_device c)) c (own, pid) \<in> {Some bs, Some (seal bs)}
     | Inl _ \<Rightarrow> True)"
  using page_device.read_owned_ok(1-3) [OF assms] by (cases r) auto

theorem cache_reads_are_transparent_witness:
  "\<exists>c r c'. cache_ok memory_valid md_pages c \<and> readable (pc_reservations c) (Committed, 6) \<and>
    read_owned memory_device_ops Committed 6 page_verify c = (r, c') \<and> cache_ok memory_valid md_pages c'"
proof -
  obtain p where c: "just_created p" by (rule created)
  then have ok: "cache_ok memory_valid md_pages (pgr_cache p)" and rd: "readable (pc_reservations (pgr_cache p)) (Committed, 6)"
    by (simp_all add: just_created_def pager_ok_def reserved_def)
  obtain r c' where s: "read_owned memory_device_ops Committed 6 page_verify (pgr_cache p) = (r, c')"
    by (cases "read_owned memory_device_ops Committed 6 page_verify (pgr_cache p)")
  from cache_reads_are_transparent [OF memory.page_device_axioms ok rd s] ok rd s show ?thesis by blast
qed

text \<open>C23: a candidate's write makes the page read as the bytes written, sealed if they were not, and
  keeps every other page's value; when it fails no value changes.  Only reserved pages can be written.\<close>

theorem cache_writes_one_page:
  assumes "page_device ops valid contents" "cache_ok valid contents c"
    and "write_candidate ops candidate pid bs unsealed c = (r, c')"
  shows "cache_ok valid contents c' \<and>
    (case r of
       Inr _ \<Rightarrow> reserved_for (pc_reservations c) candidate pid \<and>
         page_value (contents (pc_device c')) c' (Candidate candidate, pid) = Some (if unsealed then seal bs else bs) \<and>
         values_kept contents {(Candidate candidate, pid)} c c'
     | Inl _ \<Rightarrow> keeps contents {} c c')"
  using page_device.write_candidate_ok [OF assms] by (cases r) auto

theorem cache_writes_one_page_witness:
  "\<exists>c r c'. cache_ok memory_valid md_pages c \<and> write_candidate memory_device_ops 1 6 first_bytes True c = (r, c') \<and>
    cache_ok memory_valid md_pages c'"
proof -
  obtain p where c: "just_created p" by (rule created)
  then have ok: "cache_ok memory_valid md_pages (pgr_cache p)" by (simp add: just_created_def pager_ok_def)
  obtain r c' where s: "write_candidate memory_device_ops 1 6 first_bytes True (pgr_cache p) = (r, c')"
    by (cases "write_candidate memory_device_ops 1 6 first_bytes True (pgr_cache p)")
  from cache_writes_one_page [OF memory.page_device_axioms ok s] ok s show ?thesis by blast
qed

text \<open>C24: installing a candidate makes its pages the committed ones, with the values the candidate
  read, and lifts its reservations; a refused install changes nothing.\<close>

theorem cache_installs_candidate:
  assumes "page_device ops valid contents" "cache_ok valid contents c"
    and "install_candidate ops candidate active_bm next_bm c = (r, c')"
  shows "cache_ok valid contents c' \<and>
    (case r of
       Inr _ \<Rightarrow> pc_reservations c' = filter (\<lambda>(_, rv). rv_candidate rv \<noteq> candidate) (pc_reservations c) \<and>
         (\<forall>pid. page_value (contents (pc_device c)) c' (Committed, pid) = page_value (contents (pc_device c)) c
            (if reserved_for (pc_reservations c) candidate pid then Candidate candidate else Committed, pid))
     | Inl _ \<Rightarrow> c' = c)"
  using page_device.install_candidate_ok [OF assms] by (cases r) auto

theorem cache_installs_candidate_witness:
  "\<exists>c r c'. cache_ok memory_valid md_pages c \<and>
    install_candidate memory_device_ops 1 allocation_bitmap_new first_bitmap c = (r, c') \<and> cache_ok memory_valid md_pages c'"
proof -
  obtain p where c: "just_created p" by (rule created)
  then have ok: "cache_ok memory_valid md_pages (pgr_cache p)" by (simp add: just_created_def pager_ok_def)
  obtain r c' where s: "install_candidate memory_device_ops 1 allocation_bitmap_new first_bitmap (pgr_cache p) = (r, c')"
    by (cases "install_candidate memory_device_ops 1 allocation_bitmap_new first_bitmap (pgr_cache p)")
  from cache_installs_candidate [OF memory.page_device_axioms ok s] ok s show ?thesis by blast
qed

text \<open>C25: writing a candidate's pages in runs of adjacent pages leaves each of them clean in the cache
  and with its value on the device.\<close>

theorem runs_reach_the_device:
  assumes "page_device ops valid contents" "cache_ok valid contents c" "distinct pids"
    and "write_candidate_pages ops candidate pids c = (Inr u, c')"
    and "pid \<in> set pids" "readable (pc_reservations c) (Candidate candidate, pid)"
    and "page_value (contents (pc_device c)) c (Candidate candidate, pid) = Some bs"
  shows "cache_ok valid contents c' \<and> pid < length (contents (pc_device c')) \<and> contents (pc_device c') ! pid = bs"
proof -
  note w = page_device.write_candidate_pages_ok [OF assms(1-4)]
  have rs: "pc_reservations c' = pc_reservations c" using w(2) by (simp add: keeps_def)
  have "\<forall>i. pc_lookup c' (Candidate candidate, pid) = Some i \<longrightarrow> \<not> ce_dirty (pc_entries c' ! i)"
    using w(4) assms(5) by simp
  note dev = page_device.clean_on_device [OF assms(1) w(1) assms(6) [folded rs] this]
  have "page_value (contents (pc_device c')) c' (Candidate candidate, pid) = Some bs"
    by (rule keeps_value [OF w(2) _ assms(6,7)]) simp
  with w(1) dev show ?thesis by simp
qed

theorem runs_reach_the_device_witness:
  "\<exists>c c' bs. write_candidate_pages memory_device_ops 1 [6] c = (Inr (), c') \<and>
    page_value (md_pages (pc_device c)) c (Candidate 1, 6) = Some bs \<and> md_pages (pc_device c') ! 6 = bs"
proof -
  obtain p where c: "just_created p" by (rule created)
  then have pok: "pager_ok memory_valid md_pages p" by (simp add: just_created_def)
  obtain t0 where s: "begin_write p = Inr t0" "(tx_step memory_device_ops)\<^sup>*\<^sup>* t0 (first_transaction p)"
    by (rule first_steps [OF c])
  have "tx_ok memory_valid md_pages (first_transaction p)" by (rule memory.transaction_ok(1) [OF pok s])
  then have ok: "cache_ok memory_valid md_pages (first_cache p)" by (simp add: tx_ok_def tx_cache_def first_transaction_def)
  have rd: "readable (pc_reservations (first_cache p)) (Candidate 1, 6)" by (simp add: first_cache_def)
  have v: "page_value (md_pages (pc_device (first_cache p))) (first_cache p) (Candidate 1, 6) = Some (seal first_bytes)"
    by (simp add: page_value_def first_cache_def sealed_bytes_def first_entry_def)
  obtain c' where w: "write_candidate_pages memory_device_ops 1 [6] (first_cache p) = (Inr (), c')"
    by (rule first_cache_steps [OF c])
  have "md_pages (pc_device c') ! 6 = seal first_bytes"
    using runs_reach_the_device [OF memory.page_device_axioms ok _ w _ rd v] by simp
  with w v show ?thesis by blast
qed

section \<open>The metadata extent\<close>

text \<open>C26: none of the pages a commit's metadata is written to belongs to the active root, and all of
  them lie in the metadata extent.\<close>

theorem commit_avoids_active_root:
  assumes "root_ok active" "build_next_metadata active revision h catalog bitmap = Inr pm"
    and "(pid, bs) \<in> set (metadata_writes pm sb)"
  shows "pid \<notin> set (root_pages (rm_superblock active)) \<and> pid < FIRST_DATA_PAGE_ID"
  using metadata_writes_avoid_active [OF assms] by simp

theorem commit_avoids_active_root_witness:
  "\<exists>active pm pid. root_ok active \<and> build_next_metadata active 1 7 (Some 6) first_bitmap = Inr pm \<and>
    (pid, []) \<in> set (metadata_writes pm []) \<and> pid \<notin> set (root_pages (rm_superblock active))"
proof -
  obtain p where c: "just_created p" by (rule created)
  obtain pm where pm: "build_next_metadata (pgr_active p) 1 7 (Some 6) first_bitmap = Inr pm" by (rule first_build [OF c])
  have a: "root_ok (pgr_active p)" using c by (simp add: just_created_def pager_ok_def root_served_def)
  have m: "(slot_page_id (sb_slot (pm_superblock pm)), []) \<in> set (metadata_writes pm [])" by (simp add: metadata_writes_def)
  from commit_avoids_active_root [OF a pm m] a pm m show ?thesis by blast
qed

text \<open>C27: a superblock that is valid for its bitmap is encoded, and decoding the page gives the
  superblock and its part of the bitmap back.\<close>

theorem superblock_round_trip:
  assumes "superblock_validate s = Inr ()" "validate_bitmap s bitmap = Inr ()" "bitmap_ok bitmap"
    and "length (sb_bitmap_chunks s) = BITMAP_CHUNK_COUNT"
  shows "\<exists>bs. encode_superblock_page s bitmap = Inr bs \<and>
    decode_superblock_page bs = Inr (s, superblock_bits bitmap)"
proof -
  obtain c0 c1 where c: "sb_bitmap_chunks s = [c0, c1]" using assms(4) by (auto simp: length_two)
  have "length (superblock_bits bitmap) = 3936" using assms(3) by (simp add: bitmap_ok_def)
  from encode_superblock_image [OF assms(1,2) c] decode_superblock_image [OF this assms(1) c] show ?thesis by blast
qed

theorem superblock_round_trip_witness:
  "\<exists>bs. encode_superblock_page (rm_superblock (recovered_metadata_empty Slot_A)) allocation_bitmap_new = Inr bs \<and>
    decode_superblock_page bs = Inr (rm_superblock (recovered_metadata_empty Slot_A), superblock_bits allocation_bitmap_new)"
proof -
  have "root_ok (recovered_metadata_empty Slot_A)" by (rule empty_root_ok)
  moreover have "rm_allocation_bitmap (recovered_metadata_empty Slot_A) = allocation_bitmap_new"
    by (simp add: recovered_metadata_empty_def)
  ultimately show ?thesis by (intro superblock_round_trip) (simp_all add: root_ok_def)
qed

text \<open>An encoded bitmap chunk verifies, and decoding it against the entry that names it gives the
  chunk's bits.\<close>

theorem bitmap_chunk_round_trip:
  assumes "bitmap_ok bitmap" "chunk < BITMAP_CHUNK_COUNT"
  shows "page_verify (encode_chunk bitmap chunk slot generation) = Inr () \<and>
    decode_bitmap_chunk (encode_chunk bitmap chunk slot generation) chunk
      \<lparr>bc_slot = slot, bc_generation = generation,
       bc_checksum = page_checksum (encode_chunk bitmap chunk slot generation)\<rparr> = Inr (chunk_bits bitmap chunk)"
  using decode_encode_chunk [of bitmap chunk] assms by (simp add: bitmap_ok_def)

theorem bitmap_chunk_round_trip_witness:
  "page_verify (encode_chunk allocation_bitmap_new 1 Bitmap_B 5) = Inr ()"
  using bitmap_chunk_round_trip [OF allocation_bitmap_new_ok, of 1 Bitmap_B 5] by simp

text \<open>The pages written for a whole root decode, at their places, to that root with the chunk checksums
  filled in; they are the root's own pages and all verify.\<close>

theorem root_round_trip:
  assumes "root_ok r"
  shows "\<exists>r' ps. encode_pages r = Inr (r', ps) \<and> root_ok r' \<and> logically_matches r r' \<and>
    set (map fst ps) = set (root_pages (rm_superblock r)) \<and> list_all (\<lambda>(_, bs). page_verify bs = Inr ()) ps \<and>
    (\<forall>pages. (\<forall>(pid, bs) \<in> set ps. pages ! pid = bs) \<longrightarrow>
       decode_metadata_candidate (sb_slot (rm_superblock r)) pages = Inr r')"
proof -
  obtain r' ps where e: "encode_pages r = Inr (r', ps)" "root_ok r'" "logically_matches r r'"
    "map fst ps = tl (root_pages (rm_superblock r)) @ [slot_page_id (sb_slot (rm_superblock r))]"
    "list_all (\<lambda>(i, bs). page_verify bs = Inr ()) ps"
    "\<forall>pages. (\<forall>(i, bs) \<in> set ps. pages ! i = bs) \<longrightarrow>
       decode_metadata_candidate (sb_slot (rm_superblock r)) pages = Inr r'"
    using encode_pages_ok [OF assms] by blast
  have "set (map fst ps) = set (root_pages (rm_superblock r))" unfolding e(4) by (auto simp: root_pages_def)
  with e show ?thesis by blast
qed

theorem root_round_trip_witness:
  "\<exists>r' ps. encode_pages (recovered_metadata_empty Slot_B) = Inr (r', ps) \<and>
    set (map fst ps) = set (root_pages (rm_superblock (recovered_metadata_empty Slot_B)))"
  using root_round_trip [OF empty_root_ok [of Slot_B]] by blast

text \<open>The next database revision is the successor, or an overflow error once the largest integer
  a JavaScript number holds exactly is reached; it never wraps.\<close>

theorem revisions_stay_in_range:
  "next_database_revision revision =
     (if unat revision < 2 ^ 53 - 1 then Inr (revision + 1) else Inl REVISION_OVERFLOW)"
proof -
  have "revision < MAX_DATABASE_REVISION \<longleftrightarrow> unat revision < 2 ^ 53 - 1"
    by (simp add: word_less_nat_alt MAX_DATABASE_REVISION_def)
  then show ?thesis unfolding next_database_revision_spec by simp
qed

section \<open>The allocation bitmap\<close>

text \<open>Marking a page changes the set of allocated pages by that page, keeps the count of them
  right, and refuses to free a metadata page or to touch one beyond the limit.\<close>

theorem bitmap_update_is_set_update:
  assumes "bitmap_ok b"
  shows "if pid < MAX_PAGE_COUNT \<and> (allocated \<or> FIRST_DATA_PAGE_ID \<le> pid)
    then \<exists>b'. set_allocated b pid allocated = Inr b' \<and> bitmap_ok b' \<and> allocated_page_count b' = card (allocated_set b') \<and>
      allocated_set b' = (if allocated then insert pid (allocated_set b) else allocated_set b - {pid})
    else set_allocated b pid allocated = Inl INVALID_PAGE"
proof (cases "pid < MAX_PAGE_COUNT \<and> (allocated \<or> FIRST_DATA_PAGE_ID \<le> pid)")
  case True
  with set_allocated_ok [OF assms, of pid allocated] show ?thesis by (auto simp: bitmap_ok_def allocated_page_count_def)
next
  case False
  then have "65536 \<le> pid \<or> pid < 6 \<and> \<not> allocated" by auto
  from set_allocated_errors [OF assms this] False show ?thesis by (simp only: if_False)
qed

theorem bitmap_update_is_set_update_witness:
  "\<exists>b'. set_allocated allocation_bitmap_new 9 True = Inr b' \<and>
    allocated_set b' = insert 9 (allocated_set allocation_bitmap_new)"
  using bitmap_update_is_set_update [OF allocation_bitmap_new_ok, of 9 True] by auto

text \<open>C31: the word-at-a-time search for a page free in two bitmaps finds what looking at each page in
  turn finds, and never runs past the bitmap.\<close>

theorem free_page_search_is_find:
  assumes "bitmap_ok b" "bitmap_ok other"
  shows "first_free b other start endp =
    Inr (find (\<lambda>pid. \<not> allocates b pid \<and> \<not> allocates other pid) [start..<min endp MAX_PAGE_COUNT])"
  using first_free_find [of b other start endp] assms by (simp add: bitmap_ok_def del: upt_rec_numeral)

theorem free_page_search_is_find_witness:
  "first_free allocation_bitmap_new first_bitmap 4 9 = Inr (Some 7)"
proof -
  have "find (\<lambda>pid. \<not> allocates allocation_bitmap_new pid \<and> \<not> allocates first_bitmap pid) [4..<min 9 MAX_PAGE_COUNT] = Some 7"
    by (simp add: new_allocates first_bitmap_facts(3) upt_conv_Cons)
  with free_page_search_is_find [OF allocation_bitmap_new_ok first_bitmap_facts(2), of 4 9] show ?thesis by simp
qed

text \<open>The pages allocated since another bitmap, collected bit by bit from words, are those a scan of
  all pages would collect, in ascending order.\<close>

theorem new_page_list_is_filter:
  assumes "bitmap_ok b" "bitmap_ok base"
  shows "allocated_since b base endp =
    filter (\<lambda>pid. allocates b pid \<and> \<not> allocates base pid) [0..<min endp MAX_PAGE_COUNT]"
  using allocated_since_filter [of b base endp] assms by (simp add: bitmap_ok_def)

theorem new_page_list_is_filter_witness: "allocated_since first_bitmap allocation_bitmap_new 7 = [6]"
  using new_page_list_is_filter [OF first_bitmap_facts(2) allocation_bitmap_new_ok, of 7]
  by (simp add: first_bitmap_facts(3) new_allocates upt_conv_Cons)

text \<open>The allocation test without bounds checks agrees with the checked one it replaced, so the
  page checks built on it agree too.\<close>

theorem allocation_test_is_reference:
  assumes "bitmap_ok b"
  shows "is_allocated b pid = is_allocated_reference b pid"
  using is_allocated_eq [of b pid] assms by (simp add: bitmap_ok_def)

theorem allocation_test_is_reference_witness:
  "is_allocated allocation_bitmap_new 70000 = is_allocated_reference allocation_bitmap_new 70000"
  by (rule allocation_test_is_reference [OF allocation_bitmap_new_ok])

text \<open>Reading a bitmap back from its bits gives the bitmap with its count, and only bits of the
  right length that hold the metadata pages are accepted.\<close>

theorem bitmap_bits_round_trip:
  "(bitmap_ok b \<longrightarrow> from_bits (ab_bits b) = Inr b) \<and> (\<forall>bits. from_bits bits = Inr b \<longrightarrow> bitmap_ok b \<and> ab_bits b = bits)"
  using from_bits_ok from_bits_round by blast

theorem bitmap_bits_round_trip_witness: "from_bits (ab_bits allocation_bitmap_new) = Inr allocation_bitmap_new"
  using bitmap_bits_round_trip [of allocation_bitmap_new] allocation_bitmap_new_ok by blast

section \<open>Pages and checksums\<close>

text \<open>C32: a page within the limits is encoded into a whole page, and decoding the encoding gives it back.\<close>

theorem page_round_trip:
  assumes "pg_id p < MAX_PAGE_COUNT" "length (pg_payload p) \<le> MAX_PAGE_PAYLOAD_SIZE"
  shows "\<exists>bs. page_encode p = Inr bs \<and> length bs = PAGE_SIZE \<and> page_decode bs = Inr p"
proof -
  obtain bs where bs: "page_encode p = Inr bs" using page_encode_total assms by auto
  from page_encode_ok [OF bs] page_verify_ok [of bs] show ?thesis
    by (auto simp: bs page_decode_def has_header_def)
qed

theorem page_round_trip_witness:
  "\<exists>bs. page_encode \<lparr>pg_id = 6, pg_type = BtreeLeaf, pg_payload = [1, 2]\<rparr> = Inr bs \<and> length bs = PAGE_SIZE \<and>
     page_decode bs = Inr \<lparr>pg_id = 6, pg_type = BtreeLeaf, pg_payload = [1, 2]\<rparr>"
  by (rule page_round_trip) simp_all

text \<open>A buffer that verifies is the encoding of the page it decodes to, so a page has one encoding.\<close>

theorem page_is_canonical:
  assumes "page_verify bs = Inr ()"
  shows "\<exists>p. decode_verified bs = Inr p \<and> page_encode p = Inr bs"
  by (rule page_verify_canonical [OF assms])

theorem page_is_canonical_witness: "\<exists>p. decode_verified (seal first_bytes) = Inr p \<and> page_encode p = Inr (seal first_bytes)"
  by (rule page_is_canonical [OF first_bytes_facts(4)])

text \<open>C33: decoding a cached page field by field agrees with the decoding of a verified page, errors
  included.\<close>

theorem fast_decode_is_decode:
  assumes "length bs = PAGE_SIZE"
  shows "decode_whole bs = decode_verified bs"
  using decode_whole_eq assms by simp

theorem fast_decode_is_decode_witness: "decode_whole first_bytes = Inr first_page"
  using fast_decode_is_decode [of first_bytes] first_bytes_facts(2,3) by simp

text \<open>The checksum of a data page is XXH64 of a message from which the whole page but the checksum
  field can be read back: the runs of zeros it skips are recorded in it.\<close>

theorem page_checksum_covers_page:
  assumes "length a = PAGE_SIZE" "length b = PAGE_SIZE" "a ! 20 \<noteq> page_type_byte Superblock_page"
  shows "compute_checksum a = checksum32 (page_message a) \<and> (page_message a = page_message b \<longleftrightarrow> zeroed a = zeroed b)"
  using compute_checksum_message [of a] page_message_inject [of a b] assms by simp

theorem page_checksum_covers_page_witness:
  "compute_checksum (replicate PAGE_SIZE 0) = checksum32 (page_message (replicate PAGE_SIZE 0))"
  using page_checksum_covers_page [of "replicate 4096 0" "replicate 4096 0"] by simp

text \<open>C34: the table-driven \<^verbatim>\<open>crc32_update\<close>, sixteen bytes a step and whole runs of zero chunks
  skipped at once, is the bit-by-bit CRC-32 of the same bytes.\<close>

theorem crc_is_bitwise: "crc32_update checksum bs = crc32_ref checksum bs"
  by (rule crc32_update_ref)

text \<open>C35: a superblock page in which at most four consecutive bytes were changed, all of them
  inside its checksum field or all of them outside it, is not read as a superblock any more, whatever bytes they are, its
  page type included.  Damage across an edge of the checksum field is not covered: there data and checksum can change together.\<close>

theorem superblock_damage_is_noticed:
  assumes "decode_superblock_page bs = Inr (s, bits)"
    and "length v \<le> 4" "off + length v \<le> PAGE_SIZE" "slice bs off (length v) \<noteq> v"
    and "off + length v \<le> PAGE_CHECKSUM_OFFSET \<or> PAGE_CHECKSUM_OFFSET + 4 \<le> off
      \<or> PAGE_CHECKSUM_OFFSET \<le> off \<and> off + length v \<le> PAGE_CHECKSUM_OFFSET + 4"
  shows "\<exists>e. decode_superblock_page (put bs off v) = Inl e"
  using damaged_superblock [OF assms(1), of v off] assms(2-5) by simp

theorem superblock_damage_is_noticed_witness:
  "\<exists>bs s bits e. decode_superblock_page bs = Inr (s, bits) \<and> decode_superblock_page (put bs 20 [bs ! 20 XOR 1]) = Inl e"
proof -
  obtain active pages where lay: "empty_metadata_layout = Inr (active, pages)" "length pages = 6"
    "\<And>bs. bs \<in> set pages \<Longrightarrow> page_verify bs = Inr ()" "area_ok pages active" "sb_slot (rm_superblock active) = Slot_A"
    by (rule empty_layout) (rule that)
  let ?bs = "pages ! 0"
  have len: "length ?bs = 4096" using page_verify_length lay(2,3) by simp
  have "decode_metadata_candidate Slot_A pages = Inr active" using area_okD(2) [OF lay(4)] lay(5) by simp
  then obtain s bits where s: "decode_superblock_page ?bs = Inr (s, bits)"
    by (auto simp: decode_metadata_candidate_def and_then_eq_Inr)
  have "slice ?bs 20 1 = [?bs ! 20]" by (rule nth_slice_1) (simp add: len)
  moreover have "?bs ! 20 \<noteq> ?bs ! 20 XOR 1"
    using bit_xor_iff [of "?bs ! 20" 1 0] by (metis bit_1_iff)
  ultimately have "\<exists>e. decode_superblock_page (put ?bs 20 [?bs ! 20 XOR 1]) = Inl e"
    by (intro superblock_damage_is_noticed [OF s]) simp_all
  with s show ?thesis by blast
qed

section \<open>Keys, records and the catalog\<close>

text \<open>C5: two primary keys of a table compare, as the raw bytes a B-tree compares, the way their rows' key
  columns compare as values, column by column; and they are equal exactly when no column orders one row before the other.\<close>

theorem keys_order_as_rows:
  assumes "encode_primary_key js schema row1 = Inr key1" "encode_primary_key js schema row2 = Inr key2"
  shows "(key1 < key2 \<longleftrightarrow> tuple_less key_less (key_tuple js schema (td_primary_key schema) row1)
           (key_tuple js schema (td_primary_key schema) row2))
    \<and> (key1 = key2 \<longleftrightarrow>
        \<not> tuple_less key_less (key_tuple js schema (td_primary_key schema) row1) (key_tuple js schema (td_primary_key schema) row2)
        \<and> \<not> tuple_less key_less (key_tuple js schema (td_primary_key schema) row2) (key_tuple js schema (td_primary_key schema) row1))"
  by (rule encode_primary_key_order [OF assms])

theorem keys_order_as_rows_witness:
  "tuple_less key_less (key_tuple example_serde example_schema [[0x69]] (example_row 1))
     (key_tuple example_serde example_schema [[0x69]] (example_row 2))"
  using keys_order_as_rows [OF example_primary_key]
  by (simp add: example_schema_def)

text \<open>C4: the record encoded for a row whose values have the form normalization leaves, opened with the
  row's key, decodes to the row again, both for a read and for the strict decoding that also rejects every other encoding;
  except that a float column of the primary key that held \<open>-0\<close> reads as \<open>0\<close>, since a key spells the two alike.  For JSON
  columns this rests on \<^verbatim>\<open>serde_json\<close> reading the values of the row, and the columns' defaults, from the text it wrote.\<close>

theorem row_round_trips:
  assumes "serde_json js" "validate_schema_shape js schema = Inr ()" "record_layout_new schema = Inr layout"
    "row_normal js schema row" "json_parses js schema row"
    "encode_primary_key js schema row = Inr key" "encode_row js schema row = Inr record'"
  shows "\<exists>r. stored_record_new schema layout key record' = Inr r \<and>
    to_row js r = Inr (stored_row js schema row) \<and> to_row_strictly js r = Inr (stored_row js schema row)"
  using serde_json.row_round_trip assms .

theorem row_round_trips_witness:
  "\<exists>layout r. record_layout_new float_schema = Inr layout \<and>
    stored_record_new float_schema layout [128, 0, 0, 0, 0, 0, 0, 0] (0 # 1 # ascii ''true'') = Inr r \<and>
    to_row literal_serde r = Inr (float_row 0) \<and> to_row_strictly literal_serde r = Inr (float_row 0)"
proof -
  obtain layout where layout: "record_layout_new float_schema = Inr layout" using float_layout by blast
  from row_round_trips [OF literal_serde_documented float_schema_shape layout float_row_normal float_row_parses
      float_key float_record] layout show ?thesis by (auto simp: float_row_stored)
qed

text \<open>C12: from the entry an index holds for a row, the primary key of the row is found again by the index
  definition alone.\<close>

theorem index_entry_splits:
  assumes "encode_secondary_index_entry js schema definition' row = Inr (Some (entry, n))"
    "validate_index_identity js schema definition' = Inr ()" "row_utf8 row"
  shows "secondary_index_primary_key_for_definition js schema definition' entry = encode_primary_key js schema row"
  by (rule index_entry_primary_key_for_definition [OF assms])

theorem index_entry_splits_witness:
  "secondary_index_primary_key_for_definition example_serde example_schema example_index
     [0x61, 0, 1, 128, 0, 0, 0, 0, 0, 0, 1] = Inr [128, 0, 0, 0, 0, 0, 0, 1]"
  using index_entry_splits [OF example_index_entry example_index_identity example_row_utf8] example_primary_key(1)
  by simp

text \<open>C36: the bounds made for a text prefix hold the key components of exactly the texts that start with it.\<close>

theorem text_prefix_scan:
  assumes "utf8 s" "encode_text_prefix_bounds js p = Inr (lower, upper)" "encode_key_bound js Text (String s) = Inr key"
  shows "(\<exists>u. s = p @ u) \<longleftrightarrow> lower \<le> key \<and> key < upper"
  using text_prefix_range [OF assms(1), of p] assms(2,3)
  by (auto simp: encode_text_prefix_bounds_eq encode_key_bound_text)

theorem text_prefix_scan_witness:
  "(\<exists>u. [0x61, 0x62 :: u8] = [0x61] @ u) \<longleftrightarrow> [0x61] \<le> [0x61, 0x62, 0, 1 :: u8] \<and> [0x61, 0x62, 0, 1] < [0x61, 0xFF :: u8]"
  by (rule text_prefix_scan [where js = example_serde])
    (simp_all add: utf8_follow_def encode_text_prefix_bounds_eq encode_key_bound_text TEXT_TERMINATOR_def)

text \<open>C37: the canonical encoder, which counts levels, nodes and bytes while it writes, gives the text of
  the value exactly when the whole value is within all three limits, and otherwise the error of a value too large.\<close>

theorem canonical_json_is_bounded:
  "encode_canonical_json js v =
    (if json_depth v \<le> MAX_JSON_DEPTH \<and> json_nodes v \<le> MAX_JSON_NODES \<and> length (json_text js v) \<le> MAX_PAGED_VALUE_BYTES
     then Inr (json_text js v) else Inl PAGED_VALUE_TOO_LARGE)"
  by (rule encode_canonical_json_eq)

text \<open>C38: a catalog header has one record: decoding accepts exactly what encoding writes.\<close>

theorem catalog_header_is_canonical:
  "encode_catalog_header_record h = Inr (key, record') \<longleftrightarrow> decode_catalog_header_record key record' = Inr h"
  using catalog_header_decodes catalog_header_encodes by blast

text \<open>C11: a table's catalog record decodes to the table it was written for, its schema, tree, root, row
  count and hash, provided the JSON parser reads back the schema's own text.\<close>

theorem catalog_table_round_trips:
  assumes "serde_json js" "encode_catalog_schema js (ct_schema r) = Inr body"
    "encode_catalog_table_record_with_schema (td_name (ct_schema r)) (ct_tree_id r) (ct_root_page_id r) (ct_row_count r)
       (ct_hash r) body = Inr (key, record')"
    "validate_schema_shape js (ct_schema r) = Inr ()" "utf8 (td_name (ct_schema r))"
    "from_slice js body = Some (table_json js (ct_schema r))"
  shows "decode_catalog_table_record js key record' = Inr r"
  using serde_json.catalog_table_round_trip assms .

theorem catalog_table_round_trips_witness:
  "\<exists>key record'. decode_catalog_table_record catalog_serde key record' = Inr example_table"
proof -
  obtain body key record' where
    "encode_catalog_schema catalog_serde (ct_schema example_table) = Inr body"
    "encode_catalog_table_record_with_schema (td_name (ct_schema example_table)) (ct_tree_id example_table)
       (ct_root_page_id example_table) (ct_row_count example_table) (ct_hash example_table) body = Inr (key, record')"
    "validate_schema_shape catalog_serde (ct_schema example_table) = Inr ()" "utf8 (td_name (ct_schema example_table))"
    "from_slice catalog_serde body = Some (table_json catalog_serde (ct_schema example_table))"
    by (rule example_table_record)
  from catalog_table_round_trips [OF catalog_serde_documented this] show ?thesis by blast
qed

section \<open>B-tree pages and lookups\<close>

text \<open>C13: the tree a transaction shows, on pages it wrote or took over, is the tree a lookup finds after its
  commit: through the pager a key gives the value the tree holds for it, or nothing if it holds none, unless a page
  that is there could not be read, and then the lookup fails with that page's error.  A tree has at most 64 levels.\<close>

theorem committed_tree_is_found:
  assumes "page_device ops valid contents" "pager_ok valid contents p"
    and "begin_write p = Inr t0" "(tx_step ops)\<^sup>*\<^sup>* t0 t" "tx_generation t = Inr generation"
    and "holds_tree (transaction_shows contents t) tree_id generation (owns_page t) level None root pids kvs"
    and "level < MAX_TREE_DEPTH" "tree_id \<noteq> 0" "length key \<le> MAX_BTREE_KEY_BYTES"
    and "commit ops revision hash catalog t = (Inr u, p')"
  shows "reads_to (pager_view ops) (pager_ok valid contents) (pager_shows contents) (map_of kvs key) p'
    (get_from (pager_view ops) root tree_id key p')"
proof -
  note ok = page_device.transaction_ok(1) [OF assms(1-4)]
  note committed = page_device.commit_ok(1) [OF assms(1) ok assms(10) refl]
  show ?thesis
    by (rule page_device.committed_lookup [OF assms(1) committed assms(5-7)]) (use assms(8,9) in \<open>simp_all add: validate_tree_id_def validate_key_def\<close>)
qed

theorem committed_tree_is_found_witness:
  "\<exists>p'. pager_ok memory_valid md_pages p' \<and>
    reads_to (pager_view memory_device_ops) (pager_ok memory_valid md_pages) (pager_shows md_pages) (Some [98]) p'
      (get_from (pager_view memory_device_ops) 6 1 [97] p')"
proof -
  obtain p d' where c: "just_created p" by (rule created)
  then have ok: "pager_ok memory_valid md_pages p" by (simp add: just_created_def)
  obtain t0 p' where run: "begin_write p = Inr t0" "(tx_step memory_device_ops)\<^sup>*\<^sup>* t0 (first_transaction p)"
    and m: "commit memory_device_ops 1 7 (Some 6) (first_transaction p) = (Inr (), p')"
    by (rule first_commit_done [OF c])
  have "reads_to (pager_view memory_device_ops) (pager_ok memory_valid md_pages) (pager_shows md_pages)
      (map_of [([97 :: u8], [98])] [97]) p' (get_from (pager_view memory_device_ops) 6 1 [97] p')"
    by (rule committed_tree_is_found [OF memory.page_device_axioms ok run first_tree [OF c] _ _ _ m])
      (simp_all add: MAX_TREE_DEPTH_def MAX_BTREE_KEY_BYTES_def)
  moreover have "pager_ok memory_valid md_pages p'"
    by (rule memory.commit_ok(3) [OF memory.transaction_ok(1) [OF ok run] m])
  ultimately show ?thesis by auto
qed

text \<open>C14: after a commit, a cursor opened on a tree the transaction showed returns its entries one by one: moving
  forward those at or after the bound in key order, moving backward those before the bound in the reverse order, each
  once and no other, until there are no more or a page that is there could not be read.  The node pages of the tree
  are different pages.\<close>

theorem committed_tree_is_scanned:
  assumes "page_device ops valid contents" "pager_ok valid contents p"
    and "begin_write p = Inr t0" "(tx_step ops)\<^sup>*\<^sup>* t0 t" "tx_generation t = Inr generation"
    and "holds_tree (transaction_shows contents t) tree_id generation (owns_page t) level None root pids kvs"
    and "level < MAX_TREE_DEPTH" "tree_id \<noteq> 0" "distinct pids"
    and "\<forall>b. bound = Some b \<longrightarrow> length b \<le> MAX_BTREE_KEY_BYTES"
    and "commit ops revision hash catalog t = (Inr u, p')"
  shows "reads_to (pager_view ops) (pager_ok valid contents) (pager_shows contents)
    (take n (dir backward (filter (\<lambda>(k, _). within backward bound k) kvs))) p'
    (cursor_scan (pager_view ops) root tree_id bound backward strict n p')"
proof -
  note ok = page_device.transaction_ok(1) [OF assms(1-4)]
  note committed = page_device.commit_ok(1) [OF assms(1) ok assms(11) refl]
  show ?thesis
    unfolding case_prod_unfold
    by (rule page_device.committed_scan [OF assms(1) committed assms(5-7) _ _ assms(9)])
      (use assms(8,10) in \<open>simp_all add: validate_tree_id_def validate_key_def\<close>)
qed

theorem committed_tree_is_scanned_witness:
  "\<exists>p'. pager_ok memory_valid md_pages p' \<and>
    reads_to (pager_view memory_device_ops) (pager_ok memory_valid md_pages) (pager_shows md_pages) [([97], [98])] p'
      (cursor_scan (pager_view memory_device_ops) 6 1 (Some [96]) False True 5 p')"
proof -
  obtain p d' where c: "just_created p" by (rule created)
  then have ok: "pager_ok memory_valid md_pages p" by (simp add: just_created_def)
  obtain t0 p' where run: "begin_write p = Inr t0" "(tx_step memory_device_ops)\<^sup>*\<^sup>* t0 (first_transaction p)"
    and m: "commit memory_device_ops 1 7 (Some 6) (first_transaction p) = (Inr (), p')"
    by (rule first_commit_done [OF c])
  have "reads_to (pager_view memory_device_ops) (pager_ok memory_valid md_pages) (pager_shows md_pages)
      (take 5 (dir False (filter (\<lambda>(k, _). within False (Some [96]) k) [([97], [98])]))) p'
      (cursor_scan (pager_view memory_device_ops) 6 1 (Some [96]) False True 5 p')"
    by (rule committed_tree_is_scanned [OF memory.page_device_axioms ok run first_tree [OF c] _ _ _ _ m])
      (simp_all add: MAX_TREE_DEPTH_def MAX_BTREE_KEY_BYTES_def)
  moreover have "pager_ok memory_valid md_pages p'"
    by (rule memory.commit_ok(3) [OF memory.transaction_ok(1) [OF ok run] m])
  ultimately show ?thesis by (auto simp: dir_def within_def)
qed

text \<open>C40: a cursor that moves to another leaf has been to a page it had not been to before, so that it makes
  at most as many moves as there are page numbers and cannot go round in a damaged tree.\<close>

theorem cursor_visits_new_pages:
  assumes "advance_leaf rv (c, r) = (Inr True, (c', r'))"
  shows "set (bc_visited_pages c) \<subset> set (bc_visited_pages c') \<and>
    card (- set (bc_visited_pages c')) < card (- set (bc_visited_pages c))"
  using advance_visits [of rv "bc_path c" c r c' r'] advance_measure [OF assms] assms by (simp add: advance_leaf_def)

theorem cursor_visits_new_pages_witness:
  "\<exists>(rv :: unit btree_read_view) c c'. advance_leaf rv (c, ()) = (Inr True, (c', ())) \<and>
    card (- set (bc_visited_pages c')) < card (- set (bc_visited_pages c))"
proof -
  let ?rv = "\<lparr>rv_read_page = (\<lambda>_. return_op first_page), rv_cursor_view = (\<lambda>_ _. Inr (CommittedView 2)),
    rv_requires_view_generation = (\<lambda>_ _. False)\<rparr> :: unit btree_read_view"
  let ?root = "\<lparr>nv_page_id = 7, nv_level = 1, nv_generation = 2, nv_leaf = False, nv_leftmost_child = 6, nv_item_count = Suc 0,
    nv_free_end = 4064, nv_bytes = []\<rparr>"
  let ?c = "\<lparr>bc_tree_id = 1, bc_root_page_id = 7, bc_view = CommittedView 2, bc_path = [(?root, 1)], bc_leaf = None,
    bc_leaf_index = 0, bc_finished = False, bc_visited_pages = [7], bc_backward = True, bc_strict = False\<rparr>"
  have d: "node_decode first_page 1 2 False = Inr first_node" by (rule first_page_facts(3)) (simp_all add: first_node_def)
  obtain v where v: "view_from_payload first_page 1 2 False = Inr v" "views_header v first_page first_node"
    and kind: "case nd_kind first_node of LeafNode es \<Rightarrow> views_leaf v es | InternalNode m \<Rightarrow> views_internal v m"
    by (rule view_of_decoded [OF d])
  have leaf: "nv_leaf v" "nv_level v = 0" "nv_generation v = 2"
    using kind v(2) by (simp_all add: first_node_def views_leaf_def views_header_def)
  have steps: "MAX_TREE_DEPTH - Suc 0 = Suc (MAX_TREE_DEPTH - 2)" by (simp add: MAX_TREE_DEPTH_def)
  have load: "\<exists>c'. cursor_load ?rv 6 (Some 0) (Some 2) (?c\<lparr>bc_path := [(?root, 0)]\<rparr>, ()) = (Inr v, (c', ()))"
    using v(1) leaf by (simp add: cursor_load_def bind_op_def lift_op_def on_reader_def return_op_def view_open_def
        validate_expected_level_def validate_child_generation_def)
  have child: "view_child ?root 0 = Inr 6" by (simp add: view_child_def validate_child_page_def)
  from load have "\<exists>c'. advance_leaf ?rv (?c, ()) = (Inr True, (c', ()))"
    by (auto simp: advance_leaf_def next_sibling_def child bind_op_def lift_op_def change_cursor_def descend_edge_def steps
        leaf return_op_def)
  then obtain c' where "advance_leaf ?rv (?c, ()) = (Inr True, (c', ()))" by blast
  with cursor_visits_new_pages [OF this] show ?thesis by blast
qed

text \<open>Inside a transaction, a lookup in a tree the transaction shows gives the value the tree holds for
  the key, if any, or the error of a page that could not be read.\<close>

theorem lookup_finds_own_writes:
  assumes "page_device ops valid contents" "tx_ok valid contents t" "transaction_cursor_view t tree_id = Inr view"
    and "holds_tree (transaction_shows contents t) tree_id (cursor_view_generation view) (owns_page t) level None root pids kvs"
    and "level < MAX_TREE_DEPTH" "tree_id \<noteq> 0" "length key \<le> MAX_BTREE_KEY_BYTES"
  shows "reads_to (transaction_view ops) (tx_ok valid contents) (transaction_shows contents) (map_of kvs key) t
    (get_from (transaction_view ops) root tree_id key t)"
  by (rule page_device.own_lookup [OF assms(1,2) _ _ assms(3,5,4)])
    (use assms(6,7) in \<open>simp_all add: validate_tree_id_def validate_key_def\<close>)

theorem lookup_finds_own_writes_witness:
  "\<exists>t. tx_ok memory_valid md_pages t \<and>
    reads_to (transaction_view memory_device_ops) (tx_ok memory_valid md_pages) (transaction_shows md_pages) (Some [98]) t
      (get_from (transaction_view memory_device_ops) 6 1 [97] t)"
proof -
  obtain p d' where c: "just_created p" by (rule created)
  let ?t = "first_transaction p"
  obtain t0 p' where run: "begin_write p = Inr t0" "(tx_step memory_device_ops)\<^sup>*\<^sup>* t0 ?t"
    by (rule first_commit_done [OF c, of 7])
  have "pager_ok memory_valid md_pages p" using c by (simp add: just_created_def)
  from memory.transaction_ok(1) [OF this run] have ok: "tx_ok memory_valid md_pages ?t" .
  note tree = first_tree [OF c]
  have view: "transaction_cursor_view ?t 1 = Inr (CandidateView 2 1 0)"
    using tree(1) c by (simp add: transaction_cursor_view_def btree_version_def ensure_open_def ensure_usable_def
        first_transaction_def just_created_def)
  have "reads_to (transaction_view memory_device_ops) (tx_ok memory_valid md_pages) (transaction_shows md_pages)
      (map_of [([97 :: u8], [98])] [97]) ?t (get_from (transaction_view memory_device_ops) 6 1 [97] ?t)"
    by (rule lookup_finds_own_writes [where level = 0, OF memory.page_device_axioms ok view])
      (use tree(2) in \<open>simp_all add: MAX_TREE_DEPTH_def MAX_BTREE_KEY_BYTES_def\<close>)
  with ok show ?thesis by auto
qed

text \<open>C16: the page a node is encoded to decodes to the node under every check of a strict decoding, at the
  node's own generation and, unless that generation is required, at every later one.\<close>

theorem node_round_trips:
  assumes "node_encode page_id n = Inr (page, hash)" "nd_generation n \<le> generation"
    and "require_generation \<longrightarrow> nd_generation n = generation"
  shows "node_decode page (nd_tree_id n) generation require_generation = Inr n \<and> hash = subtree_hash n \<and> pg_id page = page_id"
  using node_round [OF assms(1,2)] assms(3) by (auto intro: node_encode_layout [OF assms(1)])

theorem node_round_trips_witness:
  "\<exists>hash. node_encode 6 first_node = Inr (first_page, hash) \<and> node_decode first_page 1 5 False = Inr first_node \<and>
    hash = subtree_hash first_node"
proof -
  obtain h where h: "node_encode 6 first_node = Inr (first_page, h)" using first_node_encodes by blast
  from node_round_trips [OF h, of 5 False] h show ?thesis by (auto simp: first_node_def)
qed

text \<open>C17: in a page that a strict decoding accepts, the search in place ends, without an error, where the
  searches through the checked readers end: at the first leaf key not below the key, and whether it is the key, or at
  the child whose keys the separators around it enclose.\<close>

theorem search_agrees_with_readers:
  assumes "node_decode page tree_id generation require_generation = Inr n"
  shows "\<exists>v i found. view_from_payload page tree_id generation require_generation = Inr v \<and> search v key = Some (i, found) \<and>
    (case nd_kind n of
       LeafNode es \<Rightarrow> lower_bound v key = Inr i \<and> splits_at (length es) (\<lambda>j. le_key (es ! j) < key) i
         \<and> (found \<longleftrightarrow> key \<in> set (map le_key es))
     | InternalNode m \<Rightarrow> child_index_for v key = Inr i
         \<and> splits_at (length (in_entries m)) (\<lambda>j. ie_key (in_entries m ! j) \<le> key) i)"
  by (rule decoded_search [OF assms])

theorem search_agrees_with_readers_witness:
  "\<exists>v i. view_from_payload first_page 1 2 True = Inr v \<and> search v [97] = Some (i, True) \<and> lower_bound v [97] = Inr i"
proof -
  have "node_decode first_page 1 2 True = Inr first_node" by (rule first_page_facts(3)) (simp_all add: first_node_def)
  from search_agrees_with_readers [OF this, of "[97]"] show ?thesis by (auto simp: first_node_def)
qed

text \<open>C39: the comparison that decides by the first eight bytes of two keys as numbers orders them as their
  bytes do.\<close>

theorem key_order_is_byte_order: "key_order a b = (if a < b then Less else if a = b then Equal else Greater)"
  by (simp add: key_order_cmp cmp_def)

section \<open>LIKE patterns\<close>





end
